(* ===== verification/Prelude.thy ===== *)
theory Prelude
  imports Main "HOL-Library.Word" "HOL-Library.Sublist" "HOL-Library.Multiset"
begin

text \<open>
  Shared vocabulary of the guigu development: the machine integers of the
  source, the three-way outcome of a Rust call that may panic, the few slice
  and iterator operations of the Rust standard library the source uses
  (\<open>find_map\<close>, \<open>join\<close>, \<open>trim_end_matches\<close>, splitting at a delimiter), and the
  generic list, option and word lemmas the components share.

  A Rust \<open>String\<close> is modelled by the \<open>string\<close> of its UTF-8 bytes (an Isabelle
  \<open>char\<close> is one byte), so \<open>s.len()\<close> is \<open>length s\<close>.  An \<open>Arc\<close> of an immutable
  value is the value.  Arithmetic is that of a release build: fixed-width
  addition wraps around, and the operations the source calls \<open>saturating_\<close> and
  \<open>checked_\<close> are written out.  A \<open>usize\<close> has 64 bits; where it is the length of
  a vector or an index into one it is a \<open>nat\<close>.
\<close>

section \<open>Machine integers\<close>

type_synonym u8 = "8 word"
type_synonym u16 = "16 word"
type_synonym u32 = "32 word"
type_synonym u64 = "64 word"
type_synonym usize = "64 word"

text \<open>An \<open>f64\<close> is only stored and copied by the source, so it is its bit pattern.\<close>

type_synonym f64 = "64 word"

definition u32_max :: u32 where
  "u32_max = - 1"

definition saturating_add32 :: "u32 \<Rightarrow> u32 \<Rightarrow> u32" where
  "saturating_add32 a b = (if unat a + unat b < 2 ^ 32 then a + b else u32_max)"

definition saturating_sub32 :: "u32 \<Rightarrow> u32 \<Rightarrow> u32" where
  "saturating_sub32 a b = (if b \<le> a then a - b else 0)"

definition checked_add64 :: "u64 \<Rightarrow> u64 \<Rightarrow> u64 option" where
  "checked_add64 a b = (if unat a + unat b < 2 ^ 64 then Some (a + b) else None)"

text \<open>\<open>x.min(u32::MAX as u64) as u32\<close>: the clamp the source writes before a narrowing cast.\<close>

definition clamp_u32 :: "u64 \<Rightarrow> u32" where
  "clamp_u32 x = (if unat x < 2 ^ 32 then ucast x else u32_max)"

section \<open>Collections of facts\<close>

named_theorems model_defs "unfolding equations of the non-recursive operations"
named_theorems frame_simps "fields an operation leaves unchanged"

section \<open>Outcomes of a call\<close>

text \<open>
  A Rust function returns \<open>Ok\<close> or \<open>Err\<close>, or it panics (an index out of range, an
  \<open>expect\<close> on \<open>None\<close>).  Functions that cannot panic use the sum type \<open>'e + 'a\<close>.
\<close>

datatype ('e, 'a) outcome = Ok 'a | Err 'e | Panic

fun obind :: "('e, 'a) outcome \<Rightarrow> ('a \<Rightarrow> ('e, 'b) outcome) \<Rightarrow> ('e, 'b) outcome" where
  "obind (Ok a) f = f a"
| "obind (Err e) f = Err e"
| "obind Panic f = Panic"

lemma obind_eq_Ok [simp]: "obind r f = Ok b \<longleftrightarrow> (\<exists>a. r = Ok a \<and> f a = Ok b)"
  by (cases r) auto

lemma obind_eq_Panic: "obind r f = Panic \<longleftrightarrow> r = Panic \<or> (\<exists>a. r = Ok a \<and> f a = Panic)"
  by (cases r) auto

section \<open>Iterators and slices\<close>

fun find_map :: "('a \<Rightarrow> 'b option) \<Rightarrow> 'a list \<Rightarrow> 'b option" where
  "find_map f [] = None"
| "find_map f (x # xs) = (case f x of Some y \<Rightarrow> Some y | None \<Rightarrow> find_map f xs)"

lemma find_map_None: "find_map f xs = None \<longleftrightarrow> (\<forall>x \<in> set xs. f x = None)"
  by (induction xs) (auto split: option.splits)

lemma find_map_append:
  "find_map f (xs @ ys) = (case find_map f xs of Some y \<Rightarrow> Some y | None \<Rightarrow> find_map f ys)"
  by (induction xs) (auto split: option.splits)

lemma find_map_SomeD: "find_map f xs = Some y \<Longrightarrow> \<exists>x \<in> set xs. f x = Some y"
  by (induction xs) (auto split: option.splits)

text \<open>\<open>[String]::join\<close>.\<close>

fun join :: "string \<Rightarrow> string list \<Rightarrow> string" where
  "join sep [] = []"
| "join sep [x] = x"
| "join sep (x # y # ys) = x @ sep @ join sep (y # ys)"

lemma join_empty_sep: "join [] xs = concat xs"
  by (induction xs rule: induct_list012) auto

text \<open>Decimal digits of a number, as \<open>{}\<close> prints it.\<close>

fun show_nat :: "nat \<Rightarrow> string" where
  "show_nat n =
     (if n < 10 then [char_of (48 + n)] else show_nat (n div 10) @ [char_of (48 + n mod 10)])"

declare show_nat.simps [simp del]

text \<open>\<open>str::trim_end_matches\<close> with a character predicate.\<close>

definition trim_end_matches :: "(char \<Rightarrow> bool) \<Rightarrow> string \<Rightarrow> string" where
  "trim_end_matches p s = rev (dropWhile p (rev s))"

lemma trim_end_matches_id: "s = [] \<or> \<not> p (last s) \<Longrightarrow> trim_end_matches p s = s"
  by (cases s rule: rev_cases) (auto simp: trim_end_matches_def)

lemma trim_end_matches_snoc:
  "p c \<Longrightarrow> trim_end_matches p (s @ [c]) = trim_end_matches p s"
  by (simp add: trim_end_matches_def)

text \<open>\<open>strip_prefix\<close> / \<open>strip_suffix\<close> for one character.\<close>

definition strip_prefix1 :: "char \<Rightarrow> string \<Rightarrow> string" where
  "strip_prefix1 c s = (case s of x # xs \<Rightarrow> if x = c then xs else s | [] \<Rightarrow> s)"

definition strip_suffix1 :: "char \<Rightarrow> string \<Rightarrow> string" where
  "strip_suffix1 c s = (if s \<noteq> [] \<and> last s = c then butlast s else s)"

lemma strip_suffix1_snoc [simp]: "strip_suffix1 c (s @ [c]) = s"
  by (simp add: strip_suffix1_def)

text \<open>
  \<open>Vec::resize(n, v)\<close> when \<open>n\<close> is larger than the length; an assignment by index
  with what the source does out of range written at each use.
\<close>

definition resize :: "nat \<Rightarrow> 'a \<Rightarrow> 'a list \<Rightarrow> 'a list" where
  "resize n v xs = take n xs @ replicate (n - length xs) v"

lemma length_resize [simp]: "length (resize n v xs) = n"
  by (simp add: resize_def)

lemma resize_nth:
  "i < n \<Longrightarrow> resize n v xs ! i = (if i < length xs then xs ! i else v)"
  by (auto simp: resize_def nth_append min_def)

text \<open>\<open>slice::get\<close>.\<close>

definition slice_get :: "'a list \<Rightarrow> nat \<Rightarrow> 'a option" where
  "slice_get xs i = (if i < length xs then Some (xs ! i) else None)"

lemma slice_get_Some [simp]: "slice_get xs i = Some x \<longleftrightarrow> i < length xs \<and> xs ! i = x"
  by (auto simp: slice_get_def)

lemma slice_get_None [simp]: "slice_get xs i = None \<longleftrightarrow> length xs \<le> i"
  by (auto simp: slice_get_def)

section \<open>Generic list lemmas\<close>

lemma filter_upt_eq_Nil: "filter P [0..<n] = [] \<longleftrightarrow> (\<forall>i<n. \<not> P i)"
  by (auto simp: filter_empty_conv)

lemma sorted_filter_upt [simp]: "sorted (filter P [m..<n])"
  by (rule sorted_wrt_filter) simp

lemma distinct_filter_upt [simp]: "distinct (filter P [m..<n])"
  by simp

lemma sorted_last_max:
  "sorted xs \<Longrightarrow> x \<in> set xs \<Longrightarrow> x \<le> last (xs :: nat list)"
  by (induction xs) (auto split: if_splits)

lemma sorted_count_ge:
  fixes xs :: "nat list"
  assumes "sorted xs" and "distinct xs" and "j < length xs"
  shows "length (filter (\<lambda>x. xs ! j \<le> x) xs) = length xs - j"
proof -
  have strict: "sorted_wrt (<) xs"
    using assms(1,2) by (simp add: strict_sorted_iff)
  have "filter (\<lambda>x. xs ! j \<le> x) (take j xs) = []"
    using sorted_wrt_nth_less [OF strict] assms(3)
    by (auto simp: filter_empty_conv in_set_conv_nth not_le)
  moreover have "filter (\<lambda>x. xs ! j \<le> x) (drop j xs) = drop j xs"
    using sorted_nth_mono [OF assms(1)] assms(3)
    by (auto simp: filter_id_conv in_set_conv_nth)
  ultimately have "filter (\<lambda>x. xs ! j \<le> x) (take j xs @ drop j xs) = drop j xs"
    by (simp only: filter_append) simp
  then show ?thesis by simp
qed

lemma list_all2_map_eq: "list_all2 (\<lambda>x y. f x = g y) xs ys \<longleftrightarrow> map f xs = map g ys"
  by (induction xs arbitrary: ys) (auto simp: list_all2_Cons1 Cons_eq_map_conv map_eq_Cons_conv)

section \<open>Word lemmas\<close>

lemma saturating_sub32_unat: "unat (saturating_sub32 a b) = unat a - unat b"
  by (auto simp: saturating_sub32_def unat_sub word_le_nat_alt)

lemma unat_u32_max: "unat u32_max = 2 ^ 32 - 1"
  by (simp add: u32_max_def unsigned_minus_1_eq_mask mask_eq_exp_minus_1)

lemma saturating_add32_unat: "unat (saturating_add32 a b) = min (unat a + unat b) (2 ^ 32 - 1)"
  by (auto simp: saturating_add32_def unat_word_ariths unat_u32_max take_bit_nat_eq_self min_def)

lemma checked_add64_Some:
  "checked_add64 a b = Some c \<Longrightarrow> unat c = unat a + unat b"
  by (auto simp: checked_add64_def unat_word_ariths split: if_splits)

lemma unat_ucast_u32_u64 [simp]: "unat (ucast (x :: u32) :: u64) = unat x"
proof -
  have "unat x < 2 ^ LENGTH(32)" by (rule unsigned_less)
  then show ?thesis by (simp add: unsigned_ucast_eq take_bit_nat_eq_self)
qed

end
