(* ===== verification/Json.thy ===== *)
theory Json
  imports Prelude
begin

text \<open>
  The data the source reads through \<open>serde_json::Value\<close>: the public enum of JSON
  values and the accessors the adapters call on it (\<open>get\<close>, indexing by a key,
  \<open>as_str\<close>, \<open>as_u64\<close>, \<open>as_array\<close>, \<open>is_null\<close>, \<open>is_object\<close>), as their documentation
  describes them.  The JSON parser and printer of \<open>serde_json\<close> are third-party code:
  every definition that calls them takes them as a parameter.
\<close>

datatype json_number =
    PosInt u64
  | NegInt int
  | JFloat f64

datatype json =
    JNull
  | JBool bool
  | JNumber json_number
  | JString string
  | JArray "json list"
  | JObject "(string \<times> json) list"

type_synonym json_parser = "string \<Rightarrow> string + json"

text \<open>\<open>Value::get(key)\<close>: \<open>None\<close> unless the value is an object that has the key.\<close>

fun jget :: "json \<Rightarrow> string \<Rightarrow> json option" where
  "jget (JObject kvs) k = map_of kvs k"
| "jget _ k = None"

text \<open>\<open>value[key]\<close>: \<open>Null\<close> where \<open>get\<close> is \<open>None\<close>.\<close>

definition jindex :: "json \<Rightarrow> string \<Rightarrow> json" where
  "jindex v k = (case jget v k of Some w \<Rightarrow> w | None \<Rightarrow> JNull)"

fun as_str :: "json \<Rightarrow> string option" where
  "as_str (JString s) = Some s"
| "as_str _ = None"

fun as_u64 :: "json \<Rightarrow> u64 option" where
  "as_u64 (JNumber (PosInt n)) = Some n"
| "as_u64 _ = None"

fun as_array :: "json \<Rightarrow> json list option" where
  "as_array (JArray xs) = Some xs"
| "as_array _ = None"

fun is_null :: "json \<Rightarrow> bool" where
  "is_null JNull = True"
| "is_null _ = False"

fun is_object :: "json \<Rightarrow> bool" where
  "is_object (JObject kvs) = True"
| "is_object _ = False"

text \<open>\<open>v.get(k).and_then(as_str)\<close> and \<open>v.get(k).and_then(as_u64)\<close>.\<close>

definition get_str :: "json \<Rightarrow> string \<Rightarrow> string option" where
  "get_str v k = Option.bind (jget v k) as_str"

definition get_u64 :: "json \<Rightarrow> string \<Rightarrow> u64 option" where
  "get_u64 v k = Option.bind (jget v k) as_u64"

text \<open>\<open>body[key] = value\<close> on an object built by \<open>json!\<close>: insert or overwrite.\<close>

fun jset :: "json \<Rightarrow> string \<Rightarrow> json \<Rightarrow> json" where
  "jset (JObject kvs) k v = JObject ((k, v) # filter (\<lambda>(k', _). k' \<noteq> k) kvs)"
| "jset j k v = j"

lemma jget_JObject_Cons [simp]:
  "jget (JObject ((k, v) # kvs)) k' = (if k' = k then Some v else jget (JObject kvs) k')"
  by simp

lemma map_of_filter_other:
  "k' \<noteq> k \<Longrightarrow> map_of (filter (\<lambda>(x, _). x \<noteq> k) kvs) k' = map_of kvs k'"
  by (induction kvs) auto

lemma jget_jset:
  "is_object j \<Longrightarrow> jget (jset j k v) k' = (if k' = k then Some v else jget j k')"
  by (cases j) (auto simp: map_of_filter_other)

end
