(* ===== verification/Message.thy ===== *)
theory Message
  imports Json
begin

text \<open>
  The message and event vocabulary of \<open>core/message.rs\<close>, \<open>core/event.rs\<close>, the value
  types of \<open>core/tool.rs\<close> and the provider-facing types and error classification of
  \<open>core/provider.rs\<close>.
\<close>

section \<open>Messages (core/message.rs)\<close>

record ImageContent =
  img_data :: string
  img_mime_type :: string

datatype UserContent = UserText string | UserImage ImageContent

record UserMessage =
  um_content :: "UserContent list"
  um_timestamp :: u64

record ToolCall =
  tc_id :: string
  tc_name :: string
  tc_arguments :: string

datatype AssistantContent =
    AssistantText string
  | AssistantThinking string
  | AssistantToolCall ToolCall

record Usage =
  usage_input :: u64
  usage_output :: u64
  usage_cache_read :: u64
  usage_cache_write :: u64
  usage_total_tokens :: u64
  usage_cost :: f64

datatype StopReason =
    StopCompleted
  | StopLength
  | StopError
  | StopAborted
  | StopPending
  | StopOther string

record AssistantMessage =
  am_content :: "AssistantContent list"
  am_model :: "string option"
  am_usage :: "Usage option"
  am_stop_reason :: "StopReason option"
  am_error_message :: "string option"
  am_timestamp :: u64

datatype ToolResultContent = ResultText string | ResultImage ImageContent

record ToolResultMessage =
  trm_tool_call_id :: string
  trm_tool_name :: string
  trm_is_error :: bool
  trm_content :: "ToolResultContent list"
  trm_details :: "json option"
  trm_timestamp :: u64

datatype Message =
    User UserMessage
  | Assistant AssistantMessage
  | ToolResult ToolResultMessage

datatype ThinkingLevel = ThOff | ThMinimal | ThLow | ThMedium | ThHigh | ThXhigh | ThMax

text \<open>\<open>impl Serialize for StopReason\<close> and \<open>StopReason::from_string\<close>.\<close>

fun stop_reason_serialize :: "StopReason \<Rightarrow> string" where
  "stop_reason_serialize StopCompleted = ''completed''"
| "stop_reason_serialize StopLength = ''length''"
| "stop_reason_serialize StopError = ''error''"
| "stop_reason_serialize StopAborted = ''aborted''"
| "stop_reason_serialize StopPending = ''pending''"
| "stop_reason_serialize (StopOther s) = s"

definition stop_reason_from_string :: "string \<Rightarrow> StopReason" where
  "stop_reason_from_string s =
     (if s = ''completed'' then StopCompleted
      else if s = ''length'' then StopLength
      else if s = ''error'' then StopError
      else if s = ''aborted'' then StopAborted
      else if s = ''pending'' then StopPending
      else StopOther s)"

fun is_user :: "Message \<Rightarrow> bool" where
  "is_user (User _) = True"
| "is_user _ = False"

fun is_tool_result :: "Message \<Rightarrow> bool" where
  "is_tool_result (ToolResult _) = True"
| "is_tool_result _ = False"

fun is_tool_call :: "AssistantContent \<Rightarrow> bool" where
  "is_tool_call (AssistantToolCall _) = True"
| "is_tool_call _ = False"

fun has_tool_call :: "Message \<Rightarrow> bool" where
  "has_tool_call (Assistant a) = list_ex is_tool_call (am_content a)"
| "has_tool_call _ = False"

text \<open>A user message with one text part, as the runtime injects it.\<close>

definition user_text :: "string \<Rightarrow> Message" where
  "user_text s = User \<lparr>um_content = [UserText s], um_timestamp = 0\<rparr>"

lemma is_user_user_text [simp]: "is_user (user_text s)"
  by (simp add: user_text_def)

section \<open>Tool results (core/tool.rs)\<close>

record ToolResult =
  tr_content :: "ToolResultContent list"
  tr_is_error :: bool
  tr_details :: "json option"

definition tool_result_text :: "string \<Rightarrow> ToolResult" where
  "tool_result_text s = \<lparr>tr_content = [ResultText s], tr_is_error = False, tr_details = None\<rparr>"

definition tool_result_error :: "string \<Rightarrow> ToolResult" where
  "tool_result_error s = \<lparr>tr_content = [ResultText s], tr_is_error = True, tr_details = None\<rparr>"

datatype ResourceScope = ReadOnly | FileWriter | Exclusive

section \<open>Provider types (core/provider.rs)\<close>

record Model =
  model_id :: string
  model_context_window :: u32

record ToolSpec =
  ts_name :: string
  ts_description :: string
  ts_parameters :: "json option"

record ReqContext =
  ctx_system_prompt :: string
  ctx_messages :: "Message list"
  ctx_tools :: "ToolSpec list"

text \<open>
  The cancellation token a request carries is part of the environment of a run and
  not of its data.
\<close>

record ProviderRequest =
  req_model :: Model
  req_context :: ReqContext
  req_thinking_level :: ThinkingLevel
  req_session_id :: "string option"

text \<open>A \<open>Duration\<close> is a number of nanoseconds.\<close>

type_synonym Duration = nat

datatype RetryClass = Transient | RateLimited | Permanent

datatype ProviderError =
    PeRequest string
  | PeAborted
  | PeTimeout
  | PeNetwork string
  | PeHttpStatus u16 string "Duration option"
  | PeParse string
  | PeBuild string

fun retry_class :: "ProviderError \<Rightarrow> RetryClass" where
  "retry_class (PeNetwork _) = Transient"
| "retry_class PeTimeout = Transient"
| "retry_class (PeRequest _) = Transient"
| "retry_class PeAborted = Permanent"
| "retry_class (PeParse _) = Permanent"
| "retry_class (PeBuild _) = Permanent"
| "retry_class (PeHttpStatus status _ _) =
     (if status = 429 then RateLimited
      else if 500 \<le> status \<and> status \<le> 599 then Transient
      else if 400 \<le> status \<and> status \<le> 499 then Permanent
      else Transient)"

fun retry_after :: "ProviderError \<Rightarrow> Duration option" where
  "retry_after (PeHttpStatus status _ d) = (if status = 429 then d else None)"
| "retry_after _ = None"

text \<open>The \<open>Display\<close> of a provider error.\<close>

fun provider_error_display :: "ProviderError \<Rightarrow> string" where
  "provider_error_display (PeRequest s) = ''Provider request failed: '' @ s"
| "provider_error_display PeAborted = ''Provider request aborted''"
| "provider_error_display PeTimeout = ''provider request timed out''"
| "provider_error_display (PeNetwork s) = ''Network error: '' @ s"
| "provider_error_display (PeHttpStatus status body _) =
     ''HTTP status '' @ show_nat (unat status) @ '': '' @ body"
| "provider_error_display (PeParse s) = ''Parse error: '' @ s"
| "provider_error_display (PeBuild s) = ''Build error: '' @ s"

datatype AssistantEvent =
    TextDelta string
  | ThinkingDelta string
  | ToolCallStart string string string
  | ToolCallDelta string string
  | ToolCallEnd string
  | Done AssistantMessage
  | StreamError string bool

fun is_terminal :: "AssistantEvent \<Rightarrow> bool" where
  "is_terminal (Done _) = True"
| "is_terminal (StreamError _ _) = True"
| "is_terminal _ = False"

section \<open>Lifecycle events (core/event.rs)\<close>

datatype AgentEvent =
    AgentStart
  | AgentEnd "Message list"
  | TurnStart
  | TurnEnd AssistantMessage "ToolResultMessage list"
  | MessageStart Message
  | MessageUpdate Message AssistantEvent
  | MessageEnd Message
  | ToolExecutionStart string string json
  | ToolExecutionUpdate string string json ToolResult
  | ToolExecutionEnd string string ToolResult bool

section \<open>Tool-call topology\<close>

text \<open>
  The topology the documentation promises (\<open>User \<rightarrow> Assistant(ToolCall) \<rightarrow> ToolResult \<rightarrow>
  Assistant\<close>): a tool result never opens a list and always follows a tool result or an
  assistant message with a tool call.  \<open>grouped_after ok ms\<close> reads the list with \<open>ok\<close>
  saying whether a tool result may come next.
\<close>

fun grouped_after :: "bool \<Rightarrow> Message list \<Rightarrow> bool" where
  "grouped_after ok [] = True"
| "grouped_after ok (m # ms) =
     ((is_tool_result m \<longrightarrow> ok) \<and> grouped_after (is_tool_result m \<or> has_tool_call m) ms)"

definition tool_grouped :: "Message list \<Rightarrow> bool" where
  "tool_grouped ms = grouped_after False ms"

fun opens_group :: "Message list \<Rightarrow> bool" where
  "opens_group [] = False"
| "opens_group [m] = (is_tool_result m \<or> has_tool_call m)"
| "opens_group (m # ms) = opens_group ms"

lemma opens_group_snoc [simp]:
  "opens_group (ms @ [m]) = (is_tool_result m \<or> has_tool_call m)"
  by (induction ms rule: opens_group.induct) auto

lemma grouped_after_mono: "grouped_after False ms \<Longrightarrow> grouped_after ok ms"
  by (cases ms) auto

lemma grouped_after_append:
  "grouped_after ok (xs @ ys) \<longleftrightarrow>
     grouped_after ok xs \<and> grouped_after (if xs = [] then ok else opens_group xs) ys"
proof (induction xs arbitrary: ok)
  case Nil
  show ?case by simp
next
  case (Cons x xs)
  show ?case
    using Cons.IH [of "is_tool_result x \<or> has_tool_call x"] by (cases xs) auto
qed

lemma grouped_after_user: "ms = [] \<or> \<not> is_tool_result (hd ms) \<Longrightarrow>
    grouped_after ok ms = grouped_after False ms"
  by (cases ms) auto

text \<open>A suffix that starts at a message which is no tool result keeps the topology.\<close>

lemma tool_grouped_drop:
  assumes "tool_grouped ms" and "k = 0 \<or> (k < length ms \<longrightarrow> \<not> is_tool_result (ms ! k))"
  shows "tool_grouped (drop k ms)"
proof (cases "k = 0")
  case False
  have "grouped_after False (take k ms @ drop k ms)"
    using assms(1) by (simp add: tool_grouped_def)
  then have "grouped_after (if take k ms = [] then False else opens_group (take k ms)) (drop k ms)"
    by (subst (asm) grouped_after_append) blast
  moreover have "drop k ms = [] \<or> \<not> is_tool_result (hd (drop k ms))"
    using assms(2) False by (cases "k < length ms") (auto simp: hd_drop_conv_nth)
  ultimately show ?thesis
    unfolding tool_grouped_def using grouped_after_user by blast
qed (use assms in simp)

lemma tool_grouped_snoc:
  "tool_grouped (ms @ [m]) \<longleftrightarrow> tool_grouped ms \<and> (is_tool_result m \<longrightarrow> opens_group ms)"
  by (auto simp: tool_grouped_def grouped_after_append)

lemma tool_grouped_user_Cons:
  "is_user m \<Longrightarrow> tool_grouped (m # ms) = tool_grouped ms"
  by (cases m) (auto simp: tool_grouped_def)

lemma tool_grouped_append_results:
  assumes "tool_grouped ms" and "opens_group ms" and "\<forall>r \<in> set rs. is_tool_result r"
  shows "tool_grouped (ms @ rs)"
proof -
  have "grouped_after True rs"
    using assms(3) by (induction rs) auto
  moreover have "ms \<noteq> []" using assms(2) by auto
  ultimately show ?thesis
    using assms(1,2) by (simp add: tool_grouped_def grouped_after_append)
qed

section \<open>Facts of the vocabulary\<close>

lemma stop_reason_from_serialize:
  "stop_reason_serialize (stop_reason_from_string s) = s"
  by (simp add: stop_reason_from_string_def)

text \<open>
  The wire form of a stop reason.  Reading back a written reason restores it exactly
  when it is not an \<open>Other\<close> that carries one of the five reserved words; writing what was
  read restores the string for every string.
\<close>

theorem stop_reason_roundtrip:
  "(stop_reason_from_string (stop_reason_serialize r) = r) =
     (r \<notin> StopOther ` {''completed'', ''length'', ''error'', ''aborted'', ''pending''})
   \<and> stop_reason_serialize (stop_reason_from_string s) = s"
  by (cases r) (auto simp: stop_reason_from_string_def)

end
