(* ===== verification/Acc.thy ===== *)
theory Acc
  imports Message
begin

text \<open>
  The stream accumulator \<open>Acc\<close> of \<open>adapters/acc.rs\<close>, shared by the two adapters: blocks of
  text, thinking and tool calls, their order, and the maps from the provider's indices.
  An index out of range panics in the source and is \<open>Panic\<close> here; growing a vector past
  the largest allocation (\<open>isize::MAX\<close> bytes of 16-byte elements) panics as well.
\<close>

section \<open>Definitions\<close>

datatype SegmentKind = SegText nat | SegThinking nat | SegToolCall nat

record ToolCallAcc =
  tca_id :: string
  tca_name :: string
  tca_arguments :: string
  tca_done :: bool

record Acc =
  acc_texts :: "string list"
  acc_thinkings :: "string list"
  acc_tool_calls :: "ToolCallAcc list"
  acc_segments :: "SegmentKind list"
  acc_block_kinds :: "SegmentKind option list"
  acc_tool_index_map :: "nat option list"
  acc_usage :: "Usage option"
  acc_stop_reason :: "StopReason option"
  acc_model :: string
  acc_input_tokens :: u64

definition acc_new :: "string \<Rightarrow> Acc" where
  "acc_new model =
     \<lparr>acc_texts = [], acc_thinkings = [], acc_tool_calls = [], acc_segments = [],
      acc_block_kinds = [], acc_tool_index_map = [], acc_usage = None, acc_stop_reason = None,
      acc_model = model, acc_input_tokens = 0\<rparr>"

definition vec_max :: nat where
  "vec_max = (2 ^ 63 - 1) div 16"

text \<open>\<open>xs[i].push_str(s)\<close>.\<close>

definition push_str_at :: "nat \<Rightarrow> string \<Rightarrow> string list \<Rightarrow> string list option" where
  "push_str_at i s xs = (if i < length xs then Some (xs[i := xs ! i @ s]) else None)"

fun seg_text :: "SegmentKind \<Rightarrow> nat option" where
  "seg_text (SegText i) = Some i"
| "seg_text _ = None"

fun seg_thinking :: "SegmentKind \<Rightarrow> nat option" where
  "seg_thinking (SegThinking i) = Some i"
| "seg_thinking _ = None"

definition start_text_block :: "Acc \<Rightarrow> nat \<times> Acc" where
  "start_text_block a =
     (let i = length (acc_texts a) in
      (i, a\<lparr>acc_texts := acc_texts a @ [[]], acc_segments := acc_segments a @ [SegText i]\<rparr>))"

definition start_thinking_block :: "Acc \<Rightarrow> nat \<times> Acc" where
  "start_thinking_block a =
     (let i = length (acc_thinkings a) in
      (i, a\<lparr>acc_thinkings := acc_thinkings a @ [[]], acc_segments := acc_segments a @ [SegThinking i]\<rparr>))"

definition append_text_block :: "nat \<Rightarrow> string \<Rightarrow> Acc \<Rightarrow> (ProviderError, Acc) outcome" where
  "append_text_block i s a =
     (case push_str_at i s (acc_texts a) of None \<Rightarrow> Panic | Some xs \<Rightarrow> Ok (a\<lparr>acc_texts := xs\<rparr>))"

definition append_thinking_block :: "nat \<Rightarrow> string \<Rightarrow> Acc \<Rightarrow> (ProviderError, Acc) outcome" where
  "append_thinking_block i s a =
     (case push_str_at i s (acc_thinkings a) of None \<Rightarrow> Panic | Some xs \<Rightarrow> Ok (a\<lparr>acc_thinkings := xs\<rparr>))"

text \<open>The OpenAI variants use the first block of the kind and create it on first use.\<close>

definition append_text :: "string \<Rightarrow> Acc \<Rightarrow> (ProviderError, Acc) outcome" where
  "append_text s a =
     (case find_map seg_text (acc_segments a) of
        Some i \<Rightarrow> append_text_block i s a
      | None \<Rightarrow> (let (i, a) = start_text_block a in append_text_block i s a))"

definition append_thinking :: "string \<Rightarrow> Acc \<Rightarrow> (ProviderError, Acc) outcome" where
  "append_thinking s a =
     (case find_map seg_thinking (acc_segments a) of
        Some i \<Rightarrow> append_thinking_block i s a
      | None \<Rightarrow> (let (i, a) = start_thinking_block a in append_thinking_block i s a))"

definition start_tool_call :: "string \<Rightarrow> string \<Rightarrow> Acc \<Rightarrow> nat \<times> Acc" where
  "start_tool_call cid name a =
     (let i = length (acc_tool_calls a) in
      (i, a\<lparr>acc_tool_calls := acc_tool_calls a @
               [\<lparr>tca_id = cid, tca_name = name, tca_arguments = [], tca_done = False\<rparr>],
            acc_segments := acc_segments a @ [SegToolCall i]\<rparr>))"

fun mark_done :: "string \<Rightarrow> ToolCallAcc list \<Rightarrow> ToolCallAcc list" where
  "mark_done cid [] = []"
| "mark_done cid (tc # tcs) =
     (if tca_id tc = cid then tc\<lparr>tca_done := True\<rparr> # tcs else tc # mark_done cid tcs)"

definition end_tool_call :: "string \<Rightarrow> Acc \<Rightarrow> Acc" where
  "end_tool_call cid a = a\<lparr>acc_tool_calls := mark_done cid (acc_tool_calls a)\<rparr>"

definition tool_local_index :: "nat \<Rightarrow> Acc \<Rightarrow> nat option" where
  "tool_local_index i a = Option.bind (slice_get (acc_tool_index_map a) i) id"

definition grow :: "nat \<Rightarrow> 'a option list \<Rightarrow> 'a option list option" where
  "grow i xs =
     (if i < length xs then Some xs
      else if vec_max < i + 1 then None
      else Some (resize (i + 1) None xs))"

definition map_tool_index :: "nat \<Rightarrow> nat \<Rightarrow> Acc \<Rightarrow> (ProviderError, Acc) outcome" where
  "map_tool_index provider_index local_index a =
     (case grow provider_index (acc_tool_index_map a) of
        None \<Rightarrow> Panic
      | Some m \<Rightarrow>
          (case m ! provider_index of
             None \<Rightarrow> Ok (a\<lparr>acc_tool_index_map := m[provider_index := Some local_index]\<rparr>)
           | Some _ \<Rightarrow> Err (PeParse (''duplicate tool_call start at provider index '' @ show_nat provider_index))))"

definition note_block :: "nat \<Rightarrow> SegmentKind \<Rightarrow> Acc \<Rightarrow> (ProviderError, Acc) outcome" where
  "note_block index kind a =
     (case grow index (acc_block_kinds a) of
        None \<Rightarrow> Panic
      | Some m \<Rightarrow> Ok (a\<lparr>acc_block_kinds := m[index := Some kind]\<rparr>))"

definition block_kind :: "nat \<Rightarrow> Acc \<Rightarrow> SegmentKind option" where
  "block_kind index a = Option.bind (slice_get (acc_block_kinds a) index) id"

text \<open>\<open>build_message\<close>: the segments in order; empty text and thinking segments are left out.\<close>

fun segment_content :: "Acc \<Rightarrow> SegmentKind \<Rightarrow> AssistantContent list" where
  "segment_content a (SegText i) =
     (case slice_get (acc_texts a) i of
        Some s \<Rightarrow> if s \<noteq> [] then [AssistantText s] else []
      | None \<Rightarrow> [])"
| "segment_content a (SegThinking i) =
     (case slice_get (acc_thinkings a) i of
        Some s \<Rightarrow> if s \<noteq> [] then [AssistantThinking s] else []
      | None \<Rightarrow> [])"
| "segment_content a (SegToolCall i) =
     (case slice_get (acc_tool_calls a) i of
        Some tc \<Rightarrow> [AssistantToolCall
           \<lparr>tc_id = tca_id tc, tc_name = tca_name tc, tc_arguments = tca_arguments tc\<rparr>]
      | None \<Rightarrow> [])"

definition build_message :: "Acc \<Rightarrow> AssistantMessage" where
  "build_message a =
     \<lparr>am_content = concat (map (segment_content a) (acc_segments a)),
      am_model = Some (acc_model a), am_usage = acc_usage a, am_stop_reason = acc_stop_reason a,
      am_error_message = None, am_timestamp = 0\<rparr>"

section \<open>The invariant\<close>

text \<open>
  The segments enumerate each of the three arrays exactly once and in order, and both
  index maps point into them.
\<close>

fun seg_tool :: "SegmentKind \<Rightarrow> nat option" where
  "seg_tool (SegToolCall i) = Some i"
| "seg_tool _ = None"

fun seg_in :: "Acc \<Rightarrow> SegmentKind \<Rightarrow> bool" where
  "seg_in a (SegText i) = (i < length (acc_texts a))"
| "seg_in a (SegThinking i) = (i < length (acc_thinkings a))"
| "seg_in a (SegToolCall i) = (i < length (acc_tool_calls a))"

definition acc_inv :: "Acc \<Rightarrow> bool" where
  "acc_inv a =
     (List.map_filter seg_text (acc_segments a) = [0..<length (acc_texts a)] \<and>
      List.map_filter seg_thinking (acc_segments a) = [0..<length (acc_thinkings a)] \<and>
      List.map_filter seg_tool (acc_segments a) = [0..<length (acc_tool_calls a)] \<and>
      (\<forall>k. Some k \<in> set (acc_block_kinds a) \<longrightarrow> seg_in a k) \<and>
      (\<forall>i. Some i \<in> set (acc_tool_index_map a) \<longrightarrow> i < length (acc_tool_calls a)))"

text \<open>What a message says: its text, its thinking, and its tool calls.\<close>

fun content_text :: "AssistantContent \<Rightarrow> string" where
  "content_text (AssistantText s) = s"
| "content_text _ = []"

fun content_thinking :: "AssistantContent \<Rightarrow> string" where
  "content_thinking (AssistantThinking s) = s"
| "content_thinking _ = []"

fun content_call :: "AssistantContent \<Rightarrow> ToolCall option" where
  "content_call (AssistantToolCall tc) = Some tc"
| "content_call _ = None"

definition message_text :: "AssistantMessage \<Rightarrow> string" where
  "message_text m = concat (map content_text (am_content m))"

definition message_thinking :: "AssistantMessage \<Rightarrow> string" where
  "message_thinking m = concat (map content_thinking (am_content m))"

definition message_calls :: "AssistantMessage \<Rightarrow> ToolCall list" where
  "message_calls m = List.map_filter content_call (am_content m)"

definition acc_call :: "ToolCallAcc \<Rightarrow> ToolCall" where
  "acc_call tc = \<lparr>tc_id = tca_id tc, tc_name = tca_name tc, tc_arguments = tca_arguments tc\<rparr>"

text \<open>What a list of streamed events says.\<close>

fun event_text :: "AssistantEvent \<Rightarrow> string" where
  "event_text (TextDelta s) = s"
| "event_text _ = []"

fun event_thinking :: "AssistantEvent \<Rightarrow> string" where
  "event_thinking (ThinkingDelta s) = s"
| "event_thinking _ = []"

fun event_start :: "AssistantEvent \<Rightarrow> (string \<times> string) option" where
  "event_start (ToolCallStart c n _) = Some (c, n)"
| "event_start _ = None"

fun event_args :: "string \<Rightarrow> AssistantEvent \<Rightarrow> string" where
  "event_args c (ToolCallDelta c' d) = (if c' = c then d else [])"
| "event_args c _ = []"

definition streamed_text :: "AssistantEvent list \<Rightarrow> string" where
  "streamed_text evs = concat (map event_text evs)"

definition streamed_thinking :: "AssistantEvent list \<Rightarrow> string" where
  "streamed_thinking evs = concat (map event_thinking evs)"

definition streamed_calls :: "AssistantEvent list \<Rightarrow> (string \<times> string) list" where
  "streamed_calls evs = List.map_filter event_start evs"

definition streamed_args :: "string \<Rightarrow> AssistantEvent list \<Rightarrow> string" where
  "streamed_args c evs = concat (map (event_args c) evs)"

text \<open>The arguments accumulated for a call id; with distinct ids there is one such call.\<close>

definition call_args :: "string \<Rightarrow> ToolCallAcc list \<Rightarrow> string" where
  "call_args c tcs = concat (map (\<lambda>tc. if tca_id tc = c then tca_arguments tc else []) tcs)"

text \<open>
  \<open>agrees a evs\<close>: the streamed events add up to the accumulated state.  Text, thinking and
  the started calls are compared in order; arguments per id, when the ids are distinct.
\<close>

definition agrees_calls :: "Acc \<Rightarrow> AssistantEvent list \<Rightarrow> bool" where
  "agrees_calls a evs =
     (map (\<lambda>tc. (tca_id tc, tca_name tc)) (acc_tool_calls a) = streamed_calls evs \<and>
      (distinct (map tca_id (acc_tool_calls a)) \<longrightarrow>
        (\<forall>c. call_args c (acc_tool_calls a) = streamed_args c evs)))"

definition agrees :: "Acc \<Rightarrow> AssistantEvent list \<Rightarrow> bool" where
  "agrees a evs =
     (concat (acc_texts a) = streamed_text evs \<and>
      concat (acc_thinkings a) = streamed_thinking evs \<and> agrees_calls a evs)"

text \<open>A call that returns \<open>Result\<close> and mutates the accumulator.\<close>

type_synonym mapped = "(ProviderError, AssistantEvent list) outcome \<times> Acc"

text \<open>Running one such call after another, with the early return of \<open>?\<close>.\<close>

definition and_then :: "(Acc \<Rightarrow> mapped) \<Rightarrow> (Acc \<Rightarrow> mapped) \<Rightarrow> Acc \<Rightarrow> mapped" where
  "and_then f g a =
     (case f a of
        (Ok evs, a1) \<Rightarrow>
          (case g a1 of
             (Ok evs', a2) \<Rightarrow> (Ok (evs @ evs'), a2)
           | (Err e, a2) \<Rightarrow> (Err e, a2)
           | (Panic, a2) \<Rightarrow> (Panic, a2))
      | (Err e, a1) \<Rightarrow> (Err e, a1)
      | (Panic, a1) \<Rightarrow> (Panic, a1))"

text \<open>
  A call keeps an invariant between the accumulator and the events streamed so far, and
  does not panic.
\<close>

definition keeps :: "(Acc \<Rightarrow> AssistantEvent list \<Rightarrow> bool) \<Rightarrow> (Acc \<Rightarrow> mapped) \<Rightarrow> bool" where
  "keeps I f =
     (\<forall>a evs0. I a evs0 \<longrightarrow>
        (case f a of (Ok evs, b) \<Rightarrow> I b (evs0 @ evs) | (Err _, _) \<Rightarrow> True | (Panic, _) \<Rightarrow> False))"

lemma acc_inv_new: "acc_inv (acc_new m)"
  by (simp add: acc_inv_def acc_new_def List.map_filter_simps)

lemma push_str_at_Some: "push_str_at i s xs = Some ys \<longleftrightarrow> i < length xs \<and> ys = xs[i := xs ! i @ s]"
  by (auto simp: push_str_at_def)

lemma map_filter_snoc:
  "List.map_filter f (xs @ [x]) = List.map_filter f xs @ (case f x of None \<Rightarrow> [] | Some y \<Rightarrow> [y])"
  by (simp add: List.map_filter_def split: option.splits)

lemma seg_in_mono:
  "seg_in a k \<Longrightarrow> length (acc_texts a) \<le> length (acc_texts b) \<Longrightarrow>
   length (acc_thinkings a) \<le> length (acc_thinkings b) \<Longrightarrow>
   length (acc_tool_calls a) \<le> length (acc_tool_calls b) \<Longrightarrow> seg_in b k"
  by (cases k) auto

lemma acc_inv_start_text:
  "acc_inv a \<Longrightarrow> start_text_block a = (i, b) \<Longrightarrow> acc_inv b \<and> seg_in b (SegText i)"
  by (auto simp: acc_inv_def start_text_block_def Let_def map_filter_snoc intro: seg_in_mono [of a])

lemma acc_inv_start_thinking:
  "acc_inv a \<Longrightarrow> start_thinking_block a = (i, b) \<Longrightarrow> acc_inv b \<and> seg_in b (SegThinking i)"
  by (auto simp: acc_inv_def start_thinking_block_def Let_def map_filter_snoc intro: seg_in_mono [of a])

lemma acc_inv_start_tool:
  "acc_inv a \<Longrightarrow> start_tool_call c n a = (i, b) \<Longrightarrow> acc_inv b \<and> seg_in b (SegToolCall i)"
  by (auto simp: acc_inv_def start_tool_call_def Let_def map_filter_snoc
      intro: seg_in_mono [of a] less_SucI)

lemma acc_inv_texts:
  "acc_inv a \<Longrightarrow> length xs = length (acc_texts a) \<Longrightarrow> acc_inv (a\<lparr>acc_texts := xs\<rparr>)"
  by (auto simp: acc_inv_def intro: seg_in_mono [of a])

lemma acc_inv_thinkings:
  "acc_inv a \<Longrightarrow> length xs = length (acc_thinkings a) \<Longrightarrow> acc_inv (a\<lparr>acc_thinkings := xs\<rparr>)"
  by (auto simp: acc_inv_def intro: seg_in_mono [of a])

lemma acc_inv_tools:
  "acc_inv a \<Longrightarrow> length xs = length (acc_tool_calls a) \<Longrightarrow> acc_inv (a\<lparr>acc_tool_calls := xs\<rparr>)"
  by (auto simp: acc_inv_def intro: seg_in_mono [of a])

lemma acc_inv_meta:
  "acc_inv (a\<lparr>acc_usage := u\<rparr>) = acc_inv a" "acc_inv (a\<lparr>acc_stop_reason := s\<rparr>) = acc_inv a"
  "acc_inv (a\<lparr>acc_input_tokens := n\<rparr>) = acc_inv a"
  by (auto simp: acc_inv_def intro: seg_in_mono [of a] seg_in_mono [of "a\<lparr>acc_usage := u\<rparr>"]
      seg_in_mono [of "a\<lparr>acc_stop_reason := s\<rparr>"] seg_in_mono [of "a\<lparr>acc_input_tokens := n\<rparr>"])

lemma length_mark_done [simp]: "length (mark_done c tcs) = length tcs"
  by (induction tcs) auto

lemma find_map_map_filter:
  "find_map f xs = (case List.map_filter f xs of [] \<Rightarrow> None | y # _ \<Rightarrow> Some y)"
  by (induction xs) (auto simp: List.map_filter_simps split: option.splits)

text \<open>The OpenAI appends always go to block 0, and never panic.\<close>

lemma append_text_spec:
  assumes "acc_inv a"
  shows "append_text s a =
    Ok (if acc_texts a = [] then a\<lparr>acc_texts := [s], acc_segments := acc_segments a @ [SegText 0]\<rparr>
        else a\<lparr>acc_texts := (acc_texts a)[0 := acc_texts a ! 0 @ s]\<rparr>)"
  using assms
  by (cases "acc_texts a")
    (auto simp: append_text_def find_map_map_filter acc_inv_def upt_conv_Cons start_text_block_def
      append_text_block_def push_str_at_def simp del: upt_Suc split: list.splits)

lemma append_thinking_spec:
  assumes "acc_inv a"
  shows "append_thinking s a =
    Ok (if acc_thinkings a = []
        then a\<lparr>acc_thinkings := [s], acc_segments := acc_segments a @ [SegThinking 0]\<rparr>
        else a\<lparr>acc_thinkings := (acc_thinkings a)[0 := acc_thinkings a ! 0 @ s]\<rparr>)"
  using assms
  by (cases "acc_thinkings a")
    (auto simp: append_thinking_def find_map_map_filter acc_inv_def upt_conv_Cons start_thinking_block_def
      append_thinking_block_def push_str_at_def simp del: upt_Suc split: list.splits)

lemma append_text_inv: "acc_inv a \<Longrightarrow> append_text s a = Ok b \<Longrightarrow> acc_inv b"
proof -
  assume a: "acc_inv a" and b: "append_text s a = Ok b"
  show "acc_inv b"
  proof (cases "acc_texts a = []")
    case True
    have "acc_inv (a\<lparr>acc_texts := [[]], acc_segments := acc_segments a @ [SegText 0]\<rparr>)"
      using acc_inv_start_text [OF a] True by (simp add: start_text_block_def)
    from acc_inv_texts [OF this, of "[s]"] show ?thesis using a b True by (cases a) (simp add: append_text_spec)
  qed (use a b in \<open>auto simp: append_text_spec intro: acc_inv_texts\<close>)
qed

lemma append_thinking_inv: "acc_inv a \<Longrightarrow> append_thinking s a = Ok b \<Longrightarrow> acc_inv b"
proof -
  assume a: "acc_inv a" and b: "append_thinking s a = Ok b"
  show "acc_inv b"
  proof (cases "acc_thinkings a = []")
    case True
    have "acc_inv (a\<lparr>acc_thinkings := [[]], acc_segments := acc_segments a @ [SegThinking 0]\<rparr>)"
      using acc_inv_start_thinking [OF a] True by (simp add: start_thinking_block_def)
    from acc_inv_thinkings [OF this, of "[s]"] show ?thesis using a b True by (cases a) (simp add: append_thinking_spec)
  qed (use a b in \<open>auto simp: append_thinking_spec intro: acc_inv_thinkings\<close>)
qed

lemma grow_Some:
  "grow i xs = Some ys \<Longrightarrow> i < length ys \<and> set ys \<subseteq> insert None (set xs) \<and>
   ys ! i = (if i < length xs then xs ! i else None)"
proof -
  assume g: "grow i xs = Some ys"
  have "set (resize n None xs) \<subseteq> insert None (set xs)" for n
    by (auto simp: resize_def dest: in_set_takeD)
  then show ?thesis using g by (auto simp: grow_def resize_nth split: if_splits)
qed

lemma grow_None: "grow i xs = None \<Longrightarrow> vec_max \<le> i"
  by (auto simp: grow_def split: if_splits)

lemma set_update_Some: "Some x \<in> set (m[i := Some y]) \<Longrightarrow> x = y \<or> Some x \<in> set m"
  using set_update_subset_insert [of m i "Some y"] by auto

lemma seg_in_frame [simp]:
  "seg_in (a\<lparr>acc_block_kinds := m\<rparr>) x = seg_in a x"
  "seg_in (a\<lparr>acc_tool_index_map := m'\<rparr>) x = seg_in a x"
  by (cases x; simp)+

lemma acc_inv_note_block:
  "acc_inv a \<Longrightarrow> seg_in a k \<Longrightarrow> note_block i k a = Ok b \<Longrightarrow> acc_inv b"
proof -
  assume a: "acc_inv a" and k: "seg_in a k" and b: "note_block i k a = Ok b"
  from b obtain m where g: "grow i (acc_block_kinds a) = Some m"
    and b': "b = a\<lparr>acc_block_kinds := m[i := Some k]\<rparr>"
    by (auto simp: note_block_def split: option.splits)
  have "seg_in b x" if "Some x \<in> set (m[i := Some k])" for x
    using set_update_Some [OF that] grow_Some [OF g] a k b'
    by (auto simp: acc_inv_def)
  then show ?thesis using a b' by (simp add: acc_inv_def)
qed

lemma acc_inv_map_tool_index:
  "acc_inv a \<Longrightarrow> j < length (acc_tool_calls a) \<Longrightarrow> map_tool_index i j a = Ok b \<Longrightarrow> acc_inv b"
proof -
  assume a: "acc_inv a" and j: "j < length (acc_tool_calls a)" and b: "map_tool_index i j a = Ok b"
  from b obtain m where g: "grow i (acc_tool_index_map a) = Some m"
    and b': "b = a\<lparr>acc_tool_index_map := m[i := Some j]\<rparr>"
    by (auto simp: map_tool_index_def split: option.splits)
  have "x < length (acc_tool_calls a)" if "Some x \<in> set (m[i := Some j])" for x
    using set_update_Some [OF that] grow_Some [OF g] a j by (auto simp: acc_inv_def)
  then show ?thesis using a b' by (simp add: acc_inv_def)
qed

lemma map_tool_index_fresh:
  "tool_local_index i a = None \<Longrightarrow> i < vec_max \<Longrightarrow> \<exists>b. map_tool_index i j a = Ok b"
proof -
  assume f: "tool_local_index i a = None" and i: "i < vec_max"
  then obtain m where g: "grow i (acc_tool_index_map a) = Some m"
    using grow_None [of i] by (cases "grow i (acc_tool_index_map a)") auto
  have "m ! i = None"
    using grow_Some [OF g] f by (auto simp: tool_local_index_def slice_get_def split: if_splits)
  then show ?thesis using g by (simp add: map_tool_index_def)
qed

lemma note_block_ok: "i < vec_max \<Longrightarrow> \<exists>b. note_block i k a = Ok b"
  using grow_None [of i "acc_block_kinds a"]
  by (cases "grow i (acc_block_kinds a)") (auto simp: note_block_def)

lemma tool_local_index_less:
  "acc_inv a \<Longrightarrow> tool_local_index i a = Some j \<Longrightarrow> j < length (acc_tool_calls a)"
proof -
  assume a: "acc_inv a" and t: "tool_local_index i a = Some j"
  then have "Some j \<in> set (acc_tool_index_map a)"
    by (auto simp: tool_local_index_def slice_get_def in_set_conv_nth split: if_splits bind_splits)
  then show ?thesis using a by (simp add: acc_inv_def)
qed

lemma block_kind_in: "acc_inv a \<Longrightarrow> block_kind i a = Some k \<Longrightarrow> seg_in a k"
proof -
  assume a: "acc_inv a" and t: "block_kind i a = Some k"
  then have "Some k \<in> set (acc_block_kinds a)"
    by (auto simp: block_kind_def slice_get_def in_set_conv_nth split: if_splits bind_splits)
  then show ?thesis using a by (simp add: acc_inv_def)
qed

section \<open>The built message\<close>

lemma build_text_segments:
  "concat (map content_text (concat (map (segment_content a) segs))) =
   concat (map (\<lambda>i. if i < length (acc_texts a) then acc_texts a ! i else []) (List.map_filter seg_text segs))"
proof (induction segs)
  case (Cons s segs)
  then show ?case
    by (cases s) (auto simp: List.map_filter_simps slice_get_def)
qed (simp add: List.map_filter_simps)

lemma build_thinking_segments:
  "concat (map content_thinking (concat (map (segment_content a) segs))) =
   concat (map (\<lambda>i. if i < length (acc_thinkings a) then acc_thinkings a ! i else [])
     (List.map_filter seg_thinking segs))"
proof (induction segs)
  case (Cons s segs)
  then show ?case
    by (cases s) (auto simp: List.map_filter_simps slice_get_def)
qed (simp add: List.map_filter_simps)

lemma build_call_segments:
  "\<forall>i \<in> set (List.map_filter seg_tool segs). i < length (acc_tool_calls a) \<Longrightarrow>
   List.map_filter content_call (concat (map (segment_content a) segs)) =
   map (\<lambda>i. acc_call (acc_tool_calls a ! i)) (List.map_filter seg_tool segs)"
proof (induction segs)
  case (Cons s segs)
  then show ?case
    by (cases s) (auto simp: List.map_filter_simps slice_get_def acc_call_def List.map_filter_def)
qed (simp add: List.map_filter_simps)

lemma build_message_spec:
  assumes "acc_inv a"
  shows "message_text (build_message a) = concat (acc_texts a)"
    "message_thinking (build_message a) = concat (acc_thinkings a)"
    "message_calls (build_message a) = map acc_call (acc_tool_calls a)"
proof -
  have e: "map (\<lambda>i. if i < length xs then xs ! i else []) [0..<length xs] = xs" for xs :: "string list"
    by (rule nth_equalityI) auto
  show "message_text (build_message a) = concat (acc_texts a)"
    "message_thinking (build_message a) = concat (acc_thinkings a)"
    using assms
    by (simp_all add: message_text_def message_thinking_def build_message_def build_text_segments
        build_thinking_segments acc_inv_def e)
  have "map (\<lambda>i. acc_call (xs ! i)) [0..<length xs] = map acc_call xs" for xs
    by (rule nth_equalityI) auto
  then show "message_calls (build_message a) = map acc_call (acc_tool_calls a)"
    using assms build_call_segments [of "acc_segments a" a]
    by (simp add: message_calls_def build_message_def acc_inv_def)
qed

section \<open>Streamed events and accumulated state\<close>

lemma streamed_append [simp]:
  "streamed_text (xs @ ys) = streamed_text xs @ streamed_text ys"
  "streamed_thinking (xs @ ys) = streamed_thinking xs @ streamed_thinking ys"
  "streamed_calls (xs @ ys) = streamed_calls xs @ streamed_calls ys"
  "streamed_args c (xs @ ys) = streamed_args c xs @ streamed_args c ys"
  by (simp_all add: streamed_text_def streamed_thinking_def streamed_calls_def streamed_args_def
      List.map_filter_def)

lemma streamed_single [simp]:
  "streamed_text [e] = event_text e" "streamed_thinking [e] = event_thinking e"
  "streamed_calls [e] = (case event_start e of None \<Rightarrow> [] | Some x \<Rightarrow> [x])"
  "streamed_args c [e] = event_args c e"
  "streamed_text [] = []" "streamed_thinking [] = []" "streamed_calls [] = []" "streamed_args c [] = []"
  by (simp_all add: streamed_text_def streamed_thinking_def streamed_calls_def streamed_args_def
      List.map_filter_def split: option.splits)

lemma call_args_append [simp]: "call_args c (xs @ ys) = call_args c xs @ call_args c ys"
  by (simp add: call_args_def)

lemma call_args_other: "c \<notin> tca_id ` set tcs \<Longrightarrow> call_args c tcs = []"
  by (induction tcs) (auto simp: call_args_def)

lemma call_args_update:
  assumes "distinct (map tca_id tcs)" and "j < length tcs"
  shows "call_args c (tcs[j := (tcs ! j)\<lparr>tca_arguments := tca_arguments (tcs ! j) @ d\<rparr>]) =
         call_args c tcs @ (if tca_id (tcs ! j) = c then d else [])"
  using assms
proof (induction tcs arbitrary: j)
  case (Cons tc tcs)
  then show ?case
    by (cases j) (auto simp: call_args_def call_args_other [unfolded call_args_def] image_iff)
qed simp

lemma agrees_new: "agrees (acc_new m) []"
  by (simp add: agrees_def agrees_calls_def acc_new_def call_args_def)

lemma call_args_find:
  "distinct (map tca_id tcs) \<Longrightarrow> tc \<in> set tcs \<Longrightarrow> call_args (tca_id tc) tcs = tca_arguments tc"
  by (induction tcs) (auto simp: call_args_def call_args_other [unfolded call_args_def] image_iff)

lemma agrees_calls_message:
  assumes "acc_inv a" and "agrees_calls a evs" and "m = build_message a"
  shows "map (\<lambda>tc. (tc_id tc, tc_name tc)) (message_calls m) = streamed_calls evs \<and>
    (distinct (map tc_id (message_calls m)) \<longrightarrow>
      (\<forall>tc \<in> set (message_calls m). tc_arguments tc = streamed_args (tc_id tc) evs))"
  using assms
  by (auto simp: build_message_spec agrees_calls_def acc_call_def comp_def)
    (metis call_args_find)

lemma keepsI:
  "(\<And>a evs0 evs b. I a evs0 \<Longrightarrow> f a = (Ok evs, b) \<Longrightarrow> I b (evs0 @ evs)) \<Longrightarrow>
   (\<And>a evs0 b. I a evs0 \<Longrightarrow> f a \<noteq> (Panic, b)) \<Longrightarrow> keeps I f"
  unfolding keeps_def by (auto split: prod.splits outcome.splits)

lemma keepsD: "keeps I f \<Longrightarrow> I a evs0 \<Longrightarrow> f a = (Ok evs, b) \<Longrightarrow> I b (evs0 @ evs)"
  unfolding keeps_def by fastforce

lemma keeps_no_panic: "keeps I f \<Longrightarrow> I a evs0 \<Longrightarrow> f a \<noteq> (Panic, b)"
  unfolding keeps_def by fastforce

lemma keeps_and_then: "keeps I f \<Longrightarrow> keeps I g \<Longrightarrow> keeps I (and_then f g)"
proof (rule keepsI)
  fix a evs0 evs b
  assume k: "keeps I f" "keeps I g" and i: "I a evs0" and r: "and_then f g a = (Ok evs, b)"
  then obtain e1 a1 e2 where "f a = (Ok e1, a1)" "g a1 = (Ok e2, b)" "evs = e1 @ e2"
    by (auto simp: and_then_def split: prod.splits outcome.splits)
  then show "I b (evs0 @ evs)" using keepsD [OF k(1) i] keepsD [OF k(2)] by fastforce
next
  fix a evs0 b
  assume k: "keeps I f" "keeps I g" and i: "I a evs0"
  show "and_then f g a \<noteq> (Panic, b)"
    using keepsD [OF k(1) i] keeps_no_panic [OF k(1) i] keeps_no_panic [OF k(2)]
    by (auto simp: and_then_def split: prod.splits outcome.splits)
qed

lemma keeps_skip [simp]: "keeps I (Pair (Ok []))"
  by (simp add: keeps_def)

text \<open>Adding argument text to one call, starting a call, and marking calls done.\<close>

lemma agrees_calls_update:
  assumes "agrees_calls a evs" and "j < length (acc_tool_calls a)"
    and "acc_tool_calls b = (acc_tool_calls a)
           [j := (acc_tool_calls a ! j)\<lparr>tca_arguments := tca_arguments (acc_tool_calls a ! j) @ d\<rparr>]"
  shows "agrees_calls b (evs @ [ToolCallDelta (tca_id (acc_tool_calls a ! j)) d])"
proof -
  have ids: "map tca_id (acc_tool_calls b) = map tca_id (acc_tool_calls a)"
    and names: "map (\<lambda>tc. (tca_id tc, tca_name tc)) (acc_tool_calls b) =
      map (\<lambda>tc. (tca_id tc, tca_name tc)) (acc_tool_calls a)"
    using assms(2,3) by (auto simp: map_update list_update_id intro!: list_update_same_conv [THEN iffD2])
  then show ?thesis
    using assms call_args_update [OF _ assms(2)] unfolding agrees_calls_def by auto
qed

lemma agrees_calls_start:
  assumes "agrees_calls a evs"
    and "acc_tool_calls b = acc_tool_calls a @
           [\<lparr>tca_id = c, tca_name = n, tca_arguments = [], tca_done = False\<rparr>]"
  shows "agrees_calls b (evs @ [ToolCallStart c n []])"
  using assms by (auto simp: agrees_calls_def call_args_def)

lemma agrees_calls_done:
  assumes "agrees_calls a evs" and "\<forall>e \<in> set evs'. \<exists>c. e = ToolCallEnd c"
    and "map (\<lambda>tc. tc\<lparr>tca_done := True\<rparr>) (acc_tool_calls b) =
         map (\<lambda>tc. tc\<lparr>tca_done := True\<rparr>) (acc_tool_calls a)"
  shows "agrees_calls b (evs @ evs')"
proof -
  have "streamed_calls evs' = []" "streamed_args c evs' = []" for c
    using assms(2) by (induction evs')
      (auto simp: streamed_calls_def streamed_args_def List.map_filter_simps)
  moreover have f: "map f (acc_tool_calls b) = map f (acc_tool_calls a)"
    if "\<And>tc. f (tc\<lparr>tca_done := True\<rparr>) = f tc" for f :: "ToolCallAcc \<Rightarrow> 'x"
    using arg_cong [OF assms(3), of "map f"] that by (simp add: comp_def)
  moreover have "call_args c (acc_tool_calls b) = call_args c (acc_tool_calls a)" for c
    unfolding call_args_def by (subst f) simp_all
  ultimately show ?thesis
    using assms(1) f [of tca_id] f [of "\<lambda>tc. (tca_id tc, tca_name tc)"]
    by (auto simp: agrees_calls_def)
qed

end
