(* ===== verification/Utf8.thy ===== *)
theory Utf8
  imports Prelude
begin

text \<open>
  The UTF-8 decoding of the Rust standard library that the sources rely on:
  \<open>str::from_utf8\<close> (is a byte string valid?) and \<open>String::from_utf8_lossy\<close> (each maximal
  invalid subpart becomes U+FFFD).  Both scan with the same step.
\<close>

definition byte :: "char \<Rightarrow> nat" where
  "byte c = of_char c"

definition cont_byte :: "char \<Rightarrow> bool" where
  "cont_byte c = (128 \<le> byte c \<and> byte c < 192)"

text \<open>The range of the second byte, which excludes overlong forms and surrogates.\<close>

definition second_ok :: "nat \<Rightarrow> char \<Rightarrow> bool" where
  "second_ok b c =
     (if b = 224 then 160 \<le> byte c \<and> byte c < 192
      else if b = 237 then 128 \<le> byte c \<and> byte c < 160
      else if b = 240 then 144 \<le> byte c \<and> byte c < 192
      else if b = 244 then 128 \<le> byte c \<and> byte c < 144
      else cont_byte c)"

text \<open>Is the next sequence valid, and how many bytes does it (or its invalid part) take?\<close>

fun utf8_step :: "string \<Rightarrow> bool \<times> nat" where
  "utf8_step [] = (False, 1)"
| "utf8_step (c # s) =
     (let b = byte c in
      if b < 128 then (True, 1)
      else if 194 \<le> b \<and> b \<le> 223 then
        (case s of c2 # _ \<Rightarrow> if cont_byte c2 then (True, 2) else (False, 1) | [] \<Rightarrow> (False, 1))
      else if 224 \<le> b \<and> b \<le> 239 then
        (case s of
           [] \<Rightarrow> (False, 1)
         | c2 # s2 \<Rightarrow>
             if \<not> second_ok b c2 then (False, 1)
             else (case s2 of c3 # _ \<Rightarrow> if cont_byte c3 then (True, 3) else (False, 2) | [] \<Rightarrow> (False, 2)))
      else if 240 \<le> b \<and> b \<le> 244 then
        (case s of
           [] \<Rightarrow> (False, 1)
         | c2 # s2 \<Rightarrow>
             if \<not> second_ok b c2 then (False, 1)
             else (case s2 of
                [] \<Rightarrow> (False, 2)
              | c3 # s3 \<Rightarrow>
                  if \<not> cont_byte c3 then (False, 2)
                  else (case s3 of c4 # _ \<Rightarrow> if cont_byte c4 then (True, 4) else (False, 3)
                                 | [] \<Rightarrow> (False, 3))))
      else (False, 1))"

lemma utf8_step_pos: "0 < snd (utf8_step s)"
  by (cases s) (auto simp: Let_def split: list.splits)

function utf8_valid :: "string \<Rightarrow> bool" where
  "utf8_valid s =
     (if s = [] then True else fst (utf8_step s) \<and> utf8_valid (drop (snd (utf8_step s)) s))"
  by pat_completeness auto
termination
  using utf8_step_pos by (relation "measure length") auto

definition replacement_char :: string where
  "replacement_char = [CHR 0xEF, CHR 0xBF, CHR 0xBD]"

function from_utf8_lossy :: "string \<Rightarrow> string" where
  "from_utf8_lossy s =
     (if s = [] then []
      else (if fst (utf8_step s) then take (snd (utf8_step s)) s else replacement_char)
             @ from_utf8_lossy (drop (snd (utf8_step s)) s))"
  by pat_completeness auto
termination
  using utf8_step_pos by (relation "measure length") auto

declare utf8_valid.simps [simp del] from_utf8_lossy.simps [simp del]

lemma utf8_valid_Nil [simp]: "utf8_valid []"
  by (simp add: utf8_valid.simps)

lemma lossy_Nil [simp]: "from_utf8_lossy [] = []"
  by (simp add: from_utf8_lossy.simps)

lemma utf8_step_append:
  "utf8_step s = (True, n) \<Longrightarrow> utf8_step (s @ t) = (True, n) \<and> n \<le> length s"
  by (cases s) (auto simp: Let_def split: list.splits if_splits)

lemma utf8_step_take: "utf8_step s = (True, n) \<Longrightarrow> utf8_step (take n s) = (True, n)"
  by (cases s) (auto simp: Let_def split: list.splits if_splits)

lemma utf8_valid_append: "utf8_valid s \<Longrightarrow> utf8_valid (s @ t) \<longleftrightarrow> utf8_valid t"
proof (induction s rule: utf8_valid.induct)
  case (1 s)
  show ?case
  proof (cases "s = []")
    case False
    obtain n where n: "utf8_step s = (True, n)" "utf8_valid (drop n s)"
      using "1.prems" False by (cases "utf8_step s") (simp add: utf8_valid.simps [of s])
    have "utf8_valid (s @ t) = utf8_valid (drop n s @ t)"
      using utf8_step_append [OF n(1), of t] False by (simp add: utf8_valid.simps [of "s @ t"])
    then show ?thesis using "1.IH" [OF False] n by simp
  qed simp
qed

lemma utf8_valid_ascii: "\<forall>c \<in> set s. byte c < 128 \<Longrightarrow> utf8_valid s"
  by (induction s) (simp_all add: utf8_valid.simps [of "_ # _"])

lemma lossy_id: "utf8_valid s \<Longrightarrow> from_utf8_lossy s = s"
proof (induction s rule: utf8_valid.induct)
  case (1 s)
  then show ?case
    by (cases "s = []") (simp_all add: utf8_valid.simps [of s] from_utf8_lossy.simps [of s])
qed

lemma lossy_valid: "utf8_valid (from_utf8_lossy s)"
proof (induction s rule: from_utf8_lossy.induct)
  case (1 s)
  show ?case
  proof (cases "s = []")
    case False
    note ih = "1.IH" [OF False]
    have "utf8_valid replacement_char"
      by (simp add: replacement_char_def utf8_valid.simps byte_def second_ok_def cont_byte_def)
    moreover have "utf8_valid (take n s)" if "utf8_step s = (True, n)" for n
      using utf8_step_take [OF that] utf8_step_append [OF that, of "[]"] False
      by (simp add: utf8_valid.simps [of "take n s"])
    ultimately show ?thesis
      using ih False by (cases "utf8_step s") (auto simp: from_utf8_lossy.simps [of s] utf8_valid_append)
  qed simp
qed

lemma byte_simps [simp]: "byte (CHR 0x0A) = 10" "byte (CHR 0x0D) = 13"
  by (simp_all add: byte_def)

end
