(* ===== verification/Sse.thy ===== *)
theory Sse
  imports Utf8
begin

text \<open>
  The incremental server-sent-events parser of \<open>adapters/sse.rs\<close>: bytes in, events out.
  The theorems say that the events do not depend on how the network cuts the bytes into
  chunks, and that the parser reads back what an SSE writer prints.
\<close>

section \<open>Definitions\<close>

datatype SseEvent = SseNamed string string | SseData string | SseDone

record SseParser =
  sp_buffer :: string
  sp_data :: "string list"
  sp_event :: "string option"

definition parser_new :: SseParser where
  "parser_new = \<lparr>sp_buffer = [], sp_data = [], sp_event = None\<rparr>"

definition lf :: char where
  "lf = CHR 0x0A"

definition carriage :: char where
  "carriage = CHR 0x0D"

definition flush :: "SseParser \<Rightarrow> SseEvent option \<times> SseParser" where
  "flush p =
     (if sp_data p = [] \<and> sp_event p = None then (None, p)
      else let data = join [lf] (sp_data p);
               p' = p\<lparr>sp_data := [], sp_event := None\<rparr>
           in if data = ''[DONE]'' then (Some SseDone, p')
              else case sp_event p of
                     Some name \<Rightarrow> (Some (SseNamed name data), p')
                   | None \<Rightarrow> (Some (SseData data), p'))"

text \<open>\<open>text.find(':')\<close> and the two slices around it; no colon is the whole line as field.\<close>

definition split_field :: "string \<Rightarrow> string \<times> string" where
  "split_field text =
     (case dropWhile (\<lambda>c. c \<noteq> CHR '':'') text of
        [] \<Rightarrow> (text, [])
      | _ # rest \<Rightarrow> (takeWhile (\<lambda>c. c \<noteq> CHR '':'') text, strip_prefix1 CHR '' '' rest))"

definition process_line :: "string \<Rightarrow> SseParser \<Rightarrow> SseEvent option \<times> SseParser" where
  "process_line line p =
     (let text = from_utf8_lossy line in
      if text = [] then flush p
      else if hd text = CHR '':'' then (None, p)
      else let (field, value) = split_field text in
           if field = ''data'' then (None, p\<lparr>sp_data := sp_data p @ [value]\<rparr>)
           else if field = ''event'' then (None, p\<lparr>sp_event := Some value\<rparr>)
           else (None, p))"

text \<open>The line of a drained prefix: without \<open>\\n\<close> and then without one \<open>\\r\<close>.\<close>

definition line_of :: "string \<Rightarrow> string" where
  "line_of l = strip_suffix1 carriage (strip_suffix1 lf l)"

definition emit :: "SseEvent option \<Rightarrow> SseEvent list" where
  "emit ev = (case ev of None \<Rightarrow> [] | Some e \<Rightarrow> [e])"

text \<open>The \<open>while let\<close> loop of \<open>feed\<close> over the buffer.\<close>

function drain :: "string \<Rightarrow> SseParser \<Rightarrow> SseEvent list \<times> SseParser" where
  "drain buffer p =
     (case dropWhile (\<lambda>c. c \<noteq> lf) buffer of
        [] \<Rightarrow> ([], p\<lparr>sp_buffer := buffer\<rparr>)
      | _ # rest \<Rightarrow>
          (let (ev, p') = process_line (line_of (takeWhile (\<lambda>c. c \<noteq> lf) buffer @ [lf])) p;
               (evs, p'') = drain rest p'
           in (emit ev @ evs, p'')))"
  by pat_completeness auto
termination
proof (relation "measure (\<lambda>(b, p). length b)")
  fix b :: string and p :: SseParser and x rest z ev p'
  assume "dropWhile (\<lambda>c. c \<noteq> lf) b = x # rest"
  then have "length (x # rest) \<le> length b" by (metis length_dropWhile_le)
  then show "((rest, p'), b, p) \<in> measure (\<lambda>(b, p). length b)" by simp
qed simp

declare drain.simps [simp del]

definition feed :: "string \<Rightarrow> SseParser \<Rightarrow> SseEvent list \<times> SseParser" where
  "feed chunk p = drain (sp_buffer p @ chunk) p"

definition finish :: "SseParser \<Rightarrow> SseEvent list \<times> SseParser" where
  "finish p =
     (let (evs1, p1) =
        (if sp_buffer p \<noteq> []
         then (let (ev, p') = process_line (strip_suffix1 carriage (sp_buffer p)) (p\<lparr>sp_buffer := []\<rparr>)
               in (emit ev, p'))
         else ([], p));
          (ev2, p2) = flush p1
      in (evs1 @ emit ev2, p2))"

text \<open>A stream as the adapter reads it: every chunk in order, then \<open>finish\<close>.\<close>

fun feed_all :: "string list \<Rightarrow> SseParser \<Rightarrow> SseEvent list \<times> SseParser" where
  "feed_all [] p = ([], p)"
| "feed_all (c # cs) p =
     (let (evs, p') = feed c p; (evs', p'') = feed_all cs p' in (evs @ evs', p''))"

definition parse_stream :: "string list \<Rightarrow> SseEvent list" where
  "parse_stream chunks =
     (let (evs, p) = feed_all chunks parser_new in evs @ fst (finish p))"

text \<open>An SSE writer: one \<open>data:\<close> line per line of the payload.\<close>

definition print_lines :: "string option \<Rightarrow> string list \<Rightarrow> string" where
  "print_lines name data =
     (case name of None \<Rightarrow> [] | Some n \<Rightarrow> ''event: '' @ n @ [lf]) @
     concat (map (\<lambda>d. ''data: '' @ d @ [lf]) data) @ [lf]"

definition event_of :: "string option \<Rightarrow> string list \<Rightarrow> SseEvent" where
  "event_of name data =
     (if join [lf] data = ''[DONE]'' then SseDone
      else case name of Some n \<Rightarrow> SseNamed n (join [lf] data) | None \<Rightarrow> SseData (join [lf] data))"

definition line_ok :: "string \<Rightarrow> bool" where
  "line_ok s = (utf8_valid s \<and> lf \<notin> set s \<and> (s = [] \<or> last s \<noteq> carriage))"

definition block_ok :: "string option \<times> string list \<Rightarrow> bool" where
  "block_ok b =
     ((\<forall>d \<in> set (snd b). line_ok d) \<and> (case fst b of None \<Rightarrow> True | Some n \<Rightarrow> line_ok n) \<and>
      (snd b \<noteq> [] \<or> fst b \<noteq> None))"

section \<open>Draining\<close>

lemma drain_line:
  assumes "lf \<notin> set l"
  shows "drain (l @ lf # rest) p =
    (let (ev, p') = process_line (line_of (l @ [lf])) p; (evs, p'') = drain rest p'
     in (emit ev @ evs, p''))"
proof -
  have "\<forall>c \<in> set l. c \<noteq> lf" using assms by auto
  then have "takeWhile (\<lambda>c. c \<noteq> lf) (l @ lf # rest) = l" "dropWhile (\<lambda>c. c \<noteq> lf) (l @ lf # rest) = lf # rest"
    by (simp_all add: takeWhile_append dropWhile_append)
  then show ?thesis by (subst drain.simps) simp
qed

lemma drain_rest: "lf \<notin> set b \<Longrightarrow> drain b p = ([], p\<lparr>sp_buffer := b\<rparr>)"
proof -
  assume "lf \<notin> set b"
  then have "dropWhile (\<lambda>c. c \<noteq> lf) b = []" by (auto simp: dropWhile_eq_Nil_conv)
  then show ?thesis by (simp only: drain.simps [of b] list.case)
qed

lemma flush_buffer [frame_simps]:
  "flush (p\<lparr>sp_buffer := b\<rparr>) = (fst (flush p), (snd (flush p))\<lparr>sp_buffer := b\<rparr>)"
  by (auto simp: flush_def Let_def split: option.splits)

lemma process_line_buffer [frame_simps]:
  "process_line l (p\<lparr>sp_buffer := b\<rparr>) =
   (fst (process_line l p), (snd (process_line l p))\<lparr>sp_buffer := b\<rparr>)"
  by (auto simp: process_line_def Let_def frame_simps split: prod.splits)

text \<open>The buffer field is not read while draining.\<close>

lemma drain_buffer: "drain b (p\<lparr>sp_buffer := x\<rparr>) = drain b p"
proof (induction b arbitrary: p x rule: length_induct)
  case (1 b)
  show ?case
  proof (cases "lf \<in> set b")
    case True
    then obtain l rest where b: "b = l @ lf # rest" "lf \<notin> set l" by (meson split_list_first)
    have "drain rest (q\<lparr>sp_buffer := x\<rparr>) = drain rest q" for q using 1 b by simp
    then show ?thesis
      using b by (simp add: drain_line frame_simps split: prod.splits)
  qed (simp add: drain_rest)
qed

text \<open>Draining two pieces in turn is draining their concatenation.\<close>

lemma drain_append:
  "drain (b @ c) p = (let (evs, p') = drain b p; (evs', p'') = feed c p' in (evs @ evs', p''))"
proof (induction b arbitrary: p rule: length_induct)
  case (1 b)
  show ?case
  proof (cases "lf \<in> set b")
    case True
    then obtain l rest where b: "b = l @ lf # rest" "lf \<notin> set l" by (meson split_list_first)
    obtain ev p1 where pl: "process_line (line_of (l @ [lf])) p = (ev, p1)" by force
    have "drain (rest @ c) p1 = (let (evs, p') = drain rest p1; (evs', p'') = feed c p' in (evs @ evs', p''))"
      using 1 b by simp
    then show ?thesis
      using b drain_line [OF b(2), of "rest @ c" p] drain_line [OF b(2), of rest p] pl
      by (simp add: Let_def split: prod.splits)
  next
    case False
    then show ?thesis by (simp add: drain_rest feed_def drain_buffer split: prod.splits)
  qed
qed

lemma feed_append:
  "feed (c @ d) p = (let (evs, p') = feed c p; (evs', p'') = feed d p' in (evs @ evs', p''))"
  unfolding feed_def [of "c @ d"] feed_def [of c] by (simp add: drain_append flip: append_assoc)

lemma feed_Nil: "lf \<notin> set (sp_buffer p) \<Longrightarrow> feed [] p = ([], p)"
  by (simp add: feed_def drain_rest)

lemma feed_buffer: "lf \<notin> set (sp_buffer (snd (feed c p)))"
proof -
  have "lf \<notin> set (sp_buffer (snd (drain b p)))" for b p
  proof (induction b arbitrary: p rule: length_induct)
    case (1 b)
    show ?case
    proof (cases "lf \<in> set b")
      case True
      then obtain l rest where b: "b = l @ lf # rest" "lf \<notin> set l" by (meson split_list_first)
      then have "lf \<notin> set (sp_buffer (snd (drain rest q)))" for q using 1 by simp
      then show ?thesis using b by (auto simp: drain_line split: prod.splits) (metis snd_conv)
    qed (simp add: drain_rest)
  qed
  then show ?thesis by (simp add: feed_def)
qed

lemma feed_all_concat:
  "lf \<notin> set (sp_buffer p) \<Longrightarrow> feed_all cs p = feed (concat cs) p"
proof (induction cs arbitrary: p)
  case (Cons c cs)
  obtain evs p1 where f: "feed c p = (evs, p1)" by force
  then have "lf \<notin> set (sp_buffer p1)" using feed_buffer [of c p] by simp
  then show ?case using Cons.IH f by (simp add: feed_append)
qed (simp add: feed_Nil)

lemma parse_stream_concat: "parse_stream cs = parse_stream [concat cs]"
proof -
  have "feed_all xs parser_new = feed (concat xs) parser_new" for xs
    by (rule feed_all_concat) (simp add: parser_new_def)
  then show ?thesis unfolding parse_stream_def by simp
qed

section \<open>Reading back what was written\<close>

lemma join_eq_done: "event_of name data = SseDone \<longleftrightarrow> join [lf] data = ''[DONE]''"
  by (auto simp: event_of_def split: option.splits)

lemma lossy_ascii_prefix:
  "\<forall>c \<in> set f. byte c < 128 \<Longrightarrow> utf8_valid s \<Longrightarrow> from_utf8_lossy (f @ s) = f @ s"
  by (simp add: lossy_id utf8_valid_append utf8_valid_ascii)

lemma line_of_line: "s \<noteq> [] \<Longrightarrow> last s \<noteq> carriage \<Longrightarrow> line_of (s @ [lf]) = s"
  by (simp add: line_of_def strip_suffix1_def)

lemma process_data:
  assumes "line_ok d"
  shows "process_line (line_of (''data: '' @ d @ [lf])) p = (None, p\<lparr>sp_data := sp_data p @ [d]\<rparr>)"
proof -
  have "line_of ((''data: '' @ d) @ [lf]) = ''data: '' @ d"
    using assms by (intro line_of_line) (auto simp: line_ok_def carriage_def)
  moreover have "from_utf8_lossy (''data: '' @ d) = ''data: '' @ d"
    using assms by (intro lossy_ascii_prefix) (simp_all add: line_ok_def byte_def)
  ultimately show ?thesis by (simp add: process_line_def split_field_def strip_prefix1_def)
qed

lemma process_event:
  assumes "line_ok n"
  shows "process_line (line_of (''event: '' @ n @ [lf])) p = (None, p\<lparr>sp_event := Some n\<rparr>)"
proof -
  have "line_of ((''event: '' @ n) @ [lf]) = ''event: '' @ n"
    using assms by (intro line_of_line) (auto simp: line_ok_def carriage_def)
  moreover have "from_utf8_lossy (''event: '' @ n) = ''event: '' @ n"
    using assms by (intro lossy_ascii_prefix) (simp_all add: line_ok_def byte_def)
  ultimately show ?thesis by (simp add: process_line_def split_field_def strip_prefix1_def)
qed

lemma process_blank: "process_line (line_of [lf]) p = flush p"
  by (simp add: process_line_def line_of_def strip_suffix1_def)

lemma drain_data:
  "\<forall>d \<in> set data. line_ok d \<Longrightarrow>
   drain (concat (map (\<lambda>d. ''data: '' @ d @ [lf]) data) @ rest) p =
   drain rest (p\<lparr>sp_data := sp_data p @ data\<rparr>)"
proof (induction data arbitrary: p)
  case (Cons d data)
  have "lf \<notin> set (''data: '' @ d)" using Cons.prems by (auto simp: line_ok_def lf_def)
  from drain_line [OF this] show ?case
    using Cons process_data [of d p] by (simp add: emit_def)
qed simp

lemma drain_block:
  assumes "\<forall>d \<in> set data. line_ok d" and "\<And>n. name = Some n \<Longrightarrow> line_ok n"
    and "data \<noteq> [] \<or> name \<noteq> None" and "sp_data p = []" and "sp_event p = None"
  shows "drain (print_lines name data @ rest) p =
    (let (evs, p') = drain rest p in (event_of name data # evs, p'))"
proof -
  let ?p1 = "p\<lparr>sp_event := name, sp_data := data\<rparr>"
  have blank: "drain (lf # rest) q = (let (ev, p') = flush q; (evs, p'') = drain rest p' in (emit ev @ evs, p''))"
    for q using drain_line [of "[]" rest q] process_blank by simp
  have fl: "flush ?p1 = (Some (event_of name data), p)"
    using assms(3-) by (auto simp: flush_def event_of_def Let_def split: option.splits)
  have "drain (print_lines name data @ rest) p = drain (lf # rest) ?p1"
  proof (cases name)
    case None
    have "?p1 = p\<lparr>sp_data := sp_data p @ data\<rparr>" using None assms(4,5) by simp
    then show ?thesis
      using None drain_data [OF assms(1), of "lf # rest" p] by (simp add: print_lines_def)
  next
    case (Some n)
    have "lf \<notin> set (''event: '' @ n)" using assms(2) Some by (auto simp: line_ok_def lf_def)
    from drain_line [OF this, of "concat (map (\<lambda>d. ''data: '' @ d @ [lf]) data) @ lf # rest" p]
    show ?thesis
      using Some assms(2,4) process_event [of n p] drain_data [OF assms(1), of "lf # rest" "p\<lparr>sp_event := Some n\<rparr>"]
      by (simp add: print_lines_def emit_def)
  qed
  then show ?thesis by (simp add: blank fl emit_def)
qed

lemma drain_blocks:
  "\<forall>b \<in> set bs. block_ok b \<Longrightarrow> sp_data p = [] \<Longrightarrow> sp_event p = None \<Longrightarrow>
   drain (concat (map (\<lambda>b. print_lines (fst b) (snd b)) bs)) p =
   (map (\<lambda>b. event_of (fst b) (snd b)) bs, p\<lparr>sp_buffer := []\<rparr>)"
proof (induction bs)
  case (Cons b bs)
  have ok: "block_ok b" using Cons.prems by simp
  have "drain (print_lines (fst b) (snd b) @ concat (map (\<lambda>b. print_lines (fst b) (snd b)) bs)) p =
    (let (evs, p') = drain (concat (map (\<lambda>b. print_lines (fst b) (snd b)) bs)) p
     in (event_of (fst b) (snd b) # evs, p'))"
    using ok Cons.prems by (intro drain_block) (auto simp: block_ok_def)
  then show ?case using Cons by simp
qed (simp add: drain_rest)

section \<open>Properties\<close>

text \<open>
  C24: the parser does not see chunk boundaries.  Two ways of cutting the same bytes into
  chunks, inside a line, inside a character or between \<open>\\r\<close> and \<open>\\n\<close>, give the same events.
\<close>

theorem sse_chunking:
  assumes "concat chunks = concat chunks'"
  shows "parse_stream chunks = parse_stream chunks'"
  using assms parse_stream_concat [of chunks] parse_stream_concat [of chunks'] by simp

theorem sse_chunking_witness:
  "parse_stream [''da'', ''ta: a'' @ [lf], [lf]] = parse_stream [''data: a'' @ [lf, lf]]"
  by (rule sse_chunking) simp

text \<open>
  the parser reads back what a writer prints.  For any sequence of events, each with an
  optional name and the lines of its payload, every chunking of their printed form parses
  to exactly those events in order (a payload \<open>[DONE]\<close> becomes the end marker), and nothing
  is left over at the end of the stream.
\<close>

theorem sse_roundtrip:
  assumes "\<forall>b \<in> set bs. block_ok b"
    and "concat chunks = concat (map (\<lambda>b. print_lines (fst b) (snd b)) bs)"
  shows "parse_stream chunks = map (\<lambda>b. event_of (fst b) (snd b)) bs"
proof -
  have "feed_all [concat chunks] parser_new = (map (\<lambda>b. event_of (fst b) (snd b)) bs, parser_new)"
    using drain_blocks [OF assms(1), of parser_new] assms(2) by (simp add: feed_def parser_new_def)
  moreover have "finish parser_new = ([], parser_new)"
    by (simp add: finish_def parser_new_def flush_def emit_def)
  ultimately show ?thesis
    using parse_stream_concat [of chunks] by (simp add: parse_stream_def)
qed

theorem sse_roundtrip_witness:
  "parse_stream [''event: a'' @ [lf] @ ''data: x'' @ [lf] @ ''da'', ''ta: y'' @ [lf], [lf]] =
   [SseNamed ''a'' (''x'' @ [lf] @ ''y'')]"
  using sse_roundtrip [of "[(Some ''a'', [''x'', ''y''])]"
      "[''event: a'' @ [lf] @ ''data: x'' @ [lf] @ ''da'', ''ta: y'' @ [lf], [lf]]"]
  by (simp add: block_ok_def line_ok_def utf8_valid.simps byte_def lf_def carriage_def
      print_lines_def event_of_def)

end
