(* ===== verification/OpenAi.thy ===== *)
theory OpenAi
  imports Acc Sse
begin

text \<open>
  The OpenAI chat-completions adapter: the mapping of stream chunks to events
  (\<open>adapters/openai/events.rs\<close>) and the construction of requests
  (\<open>adapters/openai/request.rs\<close>).  \<open>parse\<close> is \<open>serde_json::from_str\<close> into a \<open>Value\<close>, with
  the error's text on failure.
\<close>

section \<open>Stream chunks (openai/events.rs)\<close>

definition openai_stop_reason :: "string \<Rightarrow> StopReason" where
  "openai_stop_reason s =
     (if s = ''stop'' \<or> s = ''tool_calls'' then StopCompleted
      else if s = ''length'' then StopLength
      else if s = ''content_filter'' then StopError
      else StopOther s)"

definition opt_or :: "'a \<Rightarrow> 'a option \<Rightarrow> 'a" where
  "opt_or d x = (case x of None \<Rightarrow> d | Some y \<Rightarrow> y)"

definition openai_usage :: "json \<Rightarrow> Usage" where
  "openai_usage v =
     (let input = opt_or 0 (get_u64 v ''prompt_tokens'');
          output = opt_or 0 (get_u64 v ''completion_tokens'');
          cache_read = opt_or 0 (Option.bind (jget v ''prompt_tokens_details'')
                                   (\<lambda>d. get_u64 d ''cached_tokens''));
          total = opt_or (input + output) (get_u64 v ''total_tokens'')
      in \<lparr>usage_input = input, usage_output = output, usage_cache_read = cache_read,
          usage_cache_write = 0, usage_total_tokens = total, usage_cost = 0\<rparr>)"

text \<open>Text and reasoning deltas: non-empty strings only.\<close>

definition chunk_text :: "json \<Rightarrow> Acc \<Rightarrow> mapped" where
  "chunk_text delta a =
     (case get_str delta ''content'' of
        Some text \<Rightarrow>
          if text \<noteq> []
          then (case append_text text a of
                  Ok a' \<Rightarrow> (Ok [TextDelta text], a')
                | Err e \<Rightarrow> (Err e, a)
                | Panic \<Rightarrow> (Panic, a))
          else (Ok [], a)
      | None \<Rightarrow> (Ok [], a))"

definition chunk_thinking :: "json \<Rightarrow> Acc \<Rightarrow> mapped" where
  "chunk_thinking delta a =
     (case get_str delta ''reasoning_content'' of
        Some text \<Rightarrow>
          if text \<noteq> []
          then (case append_thinking text a of
                  Ok a' \<Rightarrow> (Ok [ThinkingDelta text], a')
                | Err e \<Rightarrow> (Err e, a)
                | Panic \<Rightarrow> (Panic, a))
          else (Ok [], a)
      | None \<Rightarrow> (Ok [], a))"

text \<open>Appending the arguments of a tool-call chunk to the local call.\<close>

definition push_args :: "nat \<Rightarrow> string \<Rightarrow> Acc \<Rightarrow> AssistantEvent list \<times> Acc" where
  "push_args j args a =
     (if args \<noteq> [] \<and> j < length (acc_tool_calls a)
      then (let tc = acc_tool_calls a ! j in
            ([ToolCallDelta (tca_id tc) args],
             a\<lparr>acc_tool_calls := (acc_tool_calls a)
                  [j := tc\<lparr>tca_arguments := tca_arguments tc @ args\<rparr>]\<rparr>))
      else ([], a))"

definition chunk_tool_call :: "json \<Rightarrow> Acc \<Rightarrow> mapped" where
  "chunk_tool_call tc a =
     (case get_u64 tc ''index'' of
        None \<Rightarrow> (Err (PeParse ''tool_call chunk missing valid index''), a)
      | Some n \<Rightarrow>
          (let index = unat n; cid = opt_or [] (get_str tc ''id'') in
           case jget tc ''function'' of
             None \<Rightarrow> (Err (PeParse ''tool_call chunk missing function''), a)
           | Some f \<Rightarrow>
               (let name = opt_or [] (get_str f ''name''); args = opt_or [] (get_str f ''arguments'') in
                if cid \<noteq> [] then
                  (if tool_local_index index a \<noteq> None
                   then (Err (PeParse (''duplicate tool_call start at provider index '' @ show_nat index)), a)
                   else (let (j, a1) = start_tool_call cid name a in
                         case map_tool_index index j a1 of
                           Err e \<Rightarrow> (Err e, a1)
                         | Panic \<Rightarrow> (Panic, a1)
                         | Ok a2 \<Rightarrow>
                             (let (evs, a3) = push_args j args a2
                              in (Ok (ToolCallStart cid name [] # evs), a3))))
                else (case tool_local_index index a of
                        None \<Rightarrow>
                          (Err (PeParse (''tool_call continuation with unknown provider index ''
                                          @ show_nat index)), a)
                      | Some j \<Rightarrow> (let (evs, a1) = push_args j args a in (Ok evs, a1))))))"

fun chunk_tool_calls :: "json list \<Rightarrow> Acc \<Rightarrow> mapped" where
  "chunk_tool_calls [] a = (Ok [], a)"
| "chunk_tool_calls (tc # tcs) a = and_then (chunk_tool_call tc) (chunk_tool_calls tcs) a"

definition chunk_finish :: "json \<Rightarrow> Acc \<Rightarrow> mapped" where
  "chunk_finish choice a =
     (case get_str choice ''finish_reason'' of
        None \<Rightarrow> (Ok [], a)
      | Some r \<Rightarrow>
          (let (evs, a1) =
             (if r = ''tool_calls''
              then (map (\<lambda>tc. ToolCallEnd (tca_id tc)) (filter (\<lambda>tc. \<not> tca_done tc) (acc_tool_calls a)),
                    a\<lparr>acc_tool_calls := map (\<lambda>tc. tc\<lparr>tca_done := True\<rparr>) (acc_tool_calls a)\<rparr>)
              else ([], a))
           in (Ok evs, a1\<lparr>acc_stop_reason := Some (openai_stop_reason r)\<rparr>)))"

definition chunk_usage :: "json \<Rightarrow> Acc \<Rightarrow> mapped" where
  "chunk_usage v a =
     (case jget v ''usage'' of
        Some u \<Rightarrow> if is_null u then (Ok [], a) else (Ok [], a\<lparr>acc_usage := Some (openai_usage u)\<rparr>)
      | None \<Rightarrow> (Ok [], a))"

definition chunk_choice :: "json \<Rightarrow> Acc \<Rightarrow> mapped" where
  "chunk_choice choice =
     (let delta = jindex choice ''delta'';
          tcs = opt_or [] (Option.bind (jget delta ''tool_calls'') as_array)
      in and_then (chunk_text delta)
           (and_then (chunk_thinking delta)
             (and_then (chunk_tool_calls tcs) (chunk_finish choice))))"

definition first_choice :: "json \<Rightarrow> json option" where
  "first_choice v =
     Option.bind (Option.bind (jget v ''choices'') as_array) (\<lambda>cs. slice_get cs 0)"

definition openai_map_chunk :: "json_parser \<Rightarrow> string \<Rightarrow> Acc \<Rightarrow> mapped" where
  "openai_map_chunk parse data a =
     (case parse data of
        Inl e \<Rightarrow> (Err (PeParse e), a)
      | Inr v \<Rightarrow>
          and_then (case first_choice v of Some c \<Rightarrow> chunk_choice c | None \<Rightarrow> Pair (Ok []))
            (chunk_usage v) a)"

fun openai_map_event :: "json_parser \<Rightarrow> SseEvent \<Rightarrow> Acc \<Rightarrow> mapped" where
  "openai_map_event parse (SseData data) a = openai_map_chunk parse data a"
| "openai_map_event parse (SseNamed _ data) a = openai_map_chunk parse data a"
| "openai_map_event parse SseDone a = (Ok [Done (build_message a)], a)"

section \<open>Requests (openai/request.rs)\<close>

record OpenAiConfig =
  oc_api_key :: string
  oc_base_url :: "string option"

record BuiltRequest =
  br_url :: string
  br_headers :: "(string \<times> string) list"
  br_body :: json

definition base_url :: "string \<Rightarrow> string option \<Rightarrow> string" where
  "base_url dflt u =
     trim_end_matches (\<lambda>c. c = CHR ''/'')
       (case u of Some s \<Rightarrow> if s = [] then dflt else s | None \<Rightarrow> dflt)"

fun user_text_part :: "UserContent \<Rightarrow> string option" where
  "user_text_part (UserText t) = Some t"
| "user_text_part (UserImage _) = None"

fun openai_user_part :: "UserContent \<Rightarrow> json" where
  "openai_user_part (UserText t) = JObject [(''type'', JString ''text''), (''text'', JString t)]"
| "openai_user_part (UserImage img) =
     JObject [(''type'', JString ''image_url''),
              (''image_url'', JObject [(''url'',
                 JString (''data:'' @ img_mime_type img @ '';base64,'' @ img_data img))])]"

definition openai_user :: "UserMessage \<Rightarrow> json" where
  "openai_user u =
     (if list_all (\<lambda>c. user_text_part c \<noteq> None) (um_content u)
      then JObject [(''role'', JString ''user''),
                    (''content'', JString (join [] (List.map_filter user_text_part (um_content u))))]
      else JObject [(''role'', JString ''user''),
                    (''content'', JArray (map openai_user_part (um_content u)))])"

fun assistant_text_part :: "AssistantContent \<Rightarrow> string option" where
  "assistant_text_part (AssistantText t) = Some t"
| "assistant_text_part _ = None"

definition openai_call :: "ToolCall \<Rightarrow> json" where
  "openai_call tc =
     JObject [(''id'', JString (tc_id tc)), (''type'', JString ''function''),
              (''function'', JObject [(''name'', JString (tc_name tc)),
                                      (''arguments'', JString (tc_arguments tc))])]"

definition openai_assistant :: "AssistantMessage \<Rightarrow> json" where
  "openai_assistant a =
     (let text = join [] (List.map_filter assistant_text_part (am_content a));
          calls = map openai_call (List.map_filter content_call (am_content a))
      in JObject ([(''role'', JString ''assistant''),
                   (''content'', if text = [] then JNull else JString text)] @
                  (if calls = [] then [] else [(''tool_calls'', JArray calls)])))"

fun result_text_part :: "ToolResultContent \<Rightarrow> string option" where
  "result_text_part (ResultText t) = Some t"
| "result_text_part (ResultImage _) = None"

definition openai_tool_result :: "ToolResultMessage \<Rightarrow> json" where
  "openai_tool_result t =
     JObject [(''role'', JString ''tool''), (''tool_call_id'', JString (trm_tool_call_id t)),
              (''content'', JString (join [] (List.map_filter result_text_part (trm_content t))))]"

fun openai_message :: "Message \<Rightarrow> json" where
  "openai_message (User u) = openai_user u"
| "openai_message (Assistant a) = openai_assistant a"
| "openai_message (ToolResult t) = openai_tool_result t"

definition openai_tool :: "ToolSpec \<Rightarrow> json" where
  "openai_tool t =
     JObject [(''type'', JString ''function''),
              (''function'', JObject [(''name'', JString (ts_name t)),
                 (''description'', JString (ts_description t)),
                 (''parameters'', opt_or (JObject []) (ts_parameters t))])]"

definition openai_build_request :: "OpenAiConfig \<Rightarrow> ProviderRequest \<Rightarrow> BuiltRequest" where
  "openai_build_request config request =
     (let ctx = req_context request;
          messages = (if ctx_system_prompt ctx = [] then []
                      else [JObject [(''role'', JString ''system''),
                                     (''content'', JString (ctx_system_prompt ctx))]]) @
                     map openai_message (ctx_messages ctx);
          body = JObject [(''model'', JString (model_id (req_model request))),
                          (''messages'', JArray messages), (''stream'', JBool True),
                          (''stream_options'', JObject [(''include_usage'', JBool True)])];
          body = (if ctx_tools ctx = [] then body
                  else jset body ''tools'' (JArray (map openai_tool (ctx_tools ctx))))
      in \<lparr>br_url = base_url ''https://api.openai.com/v1'' (oc_base_url config) @ ''/chat/completions'',
          br_headers = [(''Authorization'', ''Bearer '' @ oc_api_key config),
                        (''Content-Type'', ''application/json'')],
          br_body = body\<rparr>)"

text \<open>Chunks whose tool indices fit a vector, so that growing the index map cannot panic.\<close>

definition small_index :: "json \<Rightarrow> bool" where
  "small_index v = (case get_u64 v ''index'' of None \<Rightarrow> True | Some n \<Rightarrow> unat n < vec_max)"

definition openai_tame :: "json_parser \<Rightarrow> SseEvent \<Rightarrow> bool" where
  "openai_tame parse e =
     (case e of
        SseDone \<Rightarrow> True
      | SseData d \<Rightarrow> (case parse d of Inl _ \<Rightarrow> True | Inr v \<Rightarrow>
          (case first_choice v of None \<Rightarrow> True | Some c \<Rightarrow>
             list_all small_index (opt_or [] (Option.bind (jget (jindex c ''delta'') ''tool_calls'') as_array))))
      | SseNamed _ d \<Rightarrow> (case parse d of Inl _ \<Rightarrow> True | Inr v \<Rightarrow>
          (case first_choice v of None \<Rightarrow> True | Some c \<Rightarrow>
             list_all small_index (opt_or [] (Option.bind (jget (jindex c ''delta'') ''tool_calls'') as_array)))))"

text \<open>One text and one thinking block at most.\<close>

definition openai_inv :: "Acc \<Rightarrow> bool" where
  "openai_inv a = (acc_inv a \<and> length (acc_texts a) \<le> 1 \<and> length (acc_thinkings a) \<le> 1)"

section \<open>Every chunk keeps the accumulator in step with the events\<close>

abbreviation openai_sync :: "Acc \<Rightarrow> AssistantEvent list \<Rightarrow> bool" where
  "openai_sync a evs \<equiv> openai_inv a \<and> agrees a evs"

lemma concat_le_1: "length xs \<le> 1 \<Longrightarrow> concat xs = (if xs = [] then [] else xs ! 0)"
  by (cases xs) auto

lemma append_text_agrees:
  assumes "openai_sync a evs" and "append_text s a = Ok b"
  shows "openai_sync b (evs @ [TextDelta s])"
proof -
  have i: "acc_inv a" and l: "length (acc_texts a) \<le> 1" using assms(1) by (auto simp: openai_inv_def)
  have "acc_inv b" using append_text_inv [OF i assms(2)] .
  then show ?thesis
    using assms(1,2) i l
    by (cases "acc_texts a")
      (auto simp: openai_inv_def agrees_def agrees_calls_def append_text_spec)
qed

lemma append_thinking_agrees:
  assumes "openai_sync a evs" and "append_thinking s a = Ok b"
  shows "openai_sync b (evs @ [ThinkingDelta s])"
proof -
  have i: "acc_inv a" and l: "length (acc_thinkings a) \<le> 1" using assms(1) by (auto simp: openai_inv_def)
  have "acc_inv b" using append_thinking_inv [OF i assms(2)] .
  then show ?thesis
    using assms(1,2) i l
    by (cases "acc_thinkings a")
      (auto simp: openai_inv_def agrees_def agrees_calls_def append_thinking_spec)
qed

lemma keeps_chunk_text: "keeps openai_sync (chunk_text d)"
proof (rule keepsI)
  fix a evs0 evs b
  assume i: "openai_sync a evs0" and "chunk_text d a = (Ok evs, b)"
  then consider "evs = []" "b = a" | s where "append_text s a = Ok b" "evs = [TextDelta s]"
    by (auto simp: chunk_text_def split: option.splits if_splits outcome.splits)
  then show "openai_sync b (evs0 @ evs)" using i append_text_agrees by cases auto
next
  fix a evs0 b
  assume "openai_sync a evs0"
  then have "acc_inv a" by (simp add: openai_inv_def)
  then show "chunk_text d a \<noteq> (Panic, b)"
    by (auto simp: chunk_text_def append_text_spec split: option.splits if_splits)
qed

lemma keeps_chunk_thinking: "keeps openai_sync (chunk_thinking d)"
proof (rule keepsI)
  fix a evs0 evs b
  assume i: "openai_sync a evs0" and "chunk_thinking d a = (Ok evs, b)"
  then consider "evs = []" "b = a" | s where "append_thinking s a = Ok b" "evs = [ThinkingDelta s]"
    by (auto simp: chunk_thinking_def split: option.splits if_splits outcome.splits)
  then show "openai_sync b (evs0 @ evs)" using i append_thinking_agrees by cases auto
next
  fix a evs0 b
  assume "openai_sync a evs0"
  then have "acc_inv a" by (simp add: openai_inv_def)
  then show "chunk_thinking d a \<noteq> (Panic, b)"
    by (auto simp: chunk_thinking_def append_thinking_spec split: option.splits if_splits)
qed

lemma push_args_sync:
  assumes "openai_sync a evs" and "j < length (acc_tool_calls a)" and "push_args j s a = (evs', b)"
  shows "openai_sync b (evs @ evs')"
proof (cases "s = []")
  case False
  then have b: "b = a\<lparr>acc_tool_calls := (acc_tool_calls a)
      [j := (acc_tool_calls a ! j)\<lparr>tca_arguments := tca_arguments (acc_tool_calls a ! j) @ s\<rparr>]\<rparr>"
    and e: "evs' = [ToolCallDelta (tca_id (acc_tool_calls a ! j)) s]"
    using assms(2,3) by (auto simp: push_args_def Let_def)
  have "acc_inv b" using assms(1) b by (auto simp: openai_inv_def intro: acc_inv_tools)
  moreover have "agrees_calls b (evs @ evs')"
    using assms(1,2) b e by (auto simp: agrees_def intro: agrees_calls_update)
  ultimately show ?thesis using assms(1) b e by (auto simp: openai_inv_def agrees_def)
qed (use assms in \<open>simp add: push_args_def\<close>)

lemma start_tool_sync:
  assumes "openai_sync a evs" and "start_tool_call c n a = (j, a1)" and "map_tool_index i j a1 = Ok b"
  shows "openai_sync b (evs @ [ToolCallStart c n []]) \<and> j < length (acc_tool_calls b)"
proof -
  have i1: "acc_inv a1" "j < length (acc_tool_calls a1)"
    using acc_inv_start_tool [OF _ assms(2)] assms(1) by (auto simp: openai_inv_def)
  have ib: "acc_inv b" using acc_inv_map_tool_index [OF i1 assms(3)] .
  from assms(3) have b: "acc_tool_calls b = acc_tool_calls a1" "acc_texts b = acc_texts a1"
    "acc_thinkings b = acc_thinkings a1"
    by (auto simp: map_tool_index_def split: option.splits)
  have a1: "acc_tool_calls a1 = acc_tool_calls a @
      [\<lparr>tca_id = c, tca_name = n, tca_arguments = [], tca_done = False\<rparr>]"
    "acc_texts a1 = acc_texts a" "acc_thinkings a1 = acc_thinkings a"
    using assms(2) by (auto simp: start_tool_call_def Let_def)
  have "agrees_calls b (evs @ [ToolCallStart c n []])"
    using assms(1) b a1 by (auto simp: agrees_def intro: agrees_calls_start)
  then show ?thesis using assms(1) ib b a1 i1 by (auto simp: openai_inv_def agrees_def)
qed

lemma start_tool_local_index:
  "start_tool_call c n a = (j, a1) \<Longrightarrow> tool_local_index i a1 = tool_local_index i a"
  by (auto simp: start_tool_call_def Let_def tool_local_index_def)

lemma keeps_chunk_tool_call: "small_index tc \<Longrightarrow> keeps openai_sync (chunk_tool_call tc)"
proof (rule keepsI)
  fix a evs0 evs b
  assume i: "openai_sync a evs0" and r: "chunk_tool_call tc a = (Ok evs, b)"
  have inv: "acc_inv a" using i by (simp add: openai_inv_def)
  from r obtain n f where n: "get_u64 tc ''index'' = Some n" and f: "jget tc ''function'' = Some f"
    by (auto simp: chunk_tool_call_def Let_def split: option.splits)
  let ?c = "opt_or [] (get_str tc ''id'')" and ?args = "opt_or [] (get_str f ''arguments'')"
    and ?name = "opt_or [] (get_str f ''name'')"
  show "openai_sync b (evs0 @ evs)"
  proof (cases "?c = []")
    case True
    with r n f obtain j where j: "tool_local_index (unat n) a = Some j" "push_args j ?args a = (evs, b)"
      by (auto simp: chunk_tool_call_def Let_def split: option.splits prod.splits)
    then show ?thesis using push_args_sync [OF i tool_local_index_less [OF inv]] by blast
  next
    case False
    obtain j a1 where s: "start_tool_call ?c ?name a = (j, a1)" by force
    with r n f False obtain a2 evs1 where m: "map_tool_index (unat n) j a1 = Ok a2"
      and p: "push_args j ?args a2 = (evs1, b)" and e: "evs = ToolCallStart ?c ?name [] # evs1"
      by (auto simp: chunk_tool_call_def Let_def split: option.splits prod.splits outcome.splits if_splits)
    note st = start_tool_sync [OF i s m]
    show ?thesis using push_args_sync [OF _ _ p] st e by fastforce
  qed
next
  fix a evs0 b
  assume sm: "small_index tc" and i: "openai_sync a evs0"
  show "chunk_tool_call tc a \<noteq> (Panic, b)"
    using sm map_tool_index_fresh start_tool_local_index
    by (auto simp: chunk_tool_call_def Let_def small_index_def split: option.splits prod.splits outcome.splits)
      (metis outcome.distinct(3))+
qed

lemma keeps_chunk_tool_calls:
  "list_all small_index tcs \<Longrightarrow> keeps openai_sync (chunk_tool_calls tcs)"
proof (induction tcs)
  case Nil
  show ?case by (simp add: keeps_def)
next
  case (Cons tc tcs)
  have "chunk_tool_calls (tc # tcs) = and_then (chunk_tool_call tc) (chunk_tool_calls tcs)"
    by (rule ext) simp
  then show ?case using Cons keeps_chunk_tool_call keeps_and_then by simp
qed

lemma keeps_chunk_finish: "keeps openai_sync (chunk_finish c)"
proof (rule keepsI)
  fix a evs0 evs b
  assume i: "openai_sync a evs0" and r: "chunk_finish c a = (Ok evs, b)"
  then have b: "acc_texts b = acc_texts a" "acc_thinkings b = acc_thinkings a"
    "\<forall>e \<in> set evs. \<exists>c. e = ToolCallEnd c"
    "map (\<lambda>tc. tc\<lparr>tca_done := True\<rparr>) (acc_tool_calls b) = map (\<lambda>tc. tc\<lparr>tca_done := True\<rparr>) (acc_tool_calls a)"
    by (auto simp: chunk_finish_def Let_def split: option.splits if_splits)
  have "acc_inv (a\<lparr>acc_tool_calls := map f (acc_tool_calls a)\<rparr>)" for f
    using i by (intro acc_inv_tools) (simp_all add: openai_inv_def)
  then have "acc_inv b"
    using i r by (auto simp: chunk_finish_def Let_def openai_inv_def acc_inv_meta
        split: option.splits if_splits)
  moreover have "streamed_text evs = []" "streamed_thinking evs = []"
    using b(3) by (induction evs) (auto simp: streamed_text_def streamed_thinking_def)
  ultimately show "openai_sync b (evs0 @ evs)"
    using i b agrees_calls_done [OF _ b(3,4)] by (auto simp: openai_inv_def agrees_def)
qed (auto simp: chunk_finish_def Let_def split: option.splits if_splits)

lemma keeps_chunk_usage: "keeps openai_sync (chunk_usage v)"
  by (rule keepsI)
    (auto simp: chunk_usage_def openai_inv_def agrees_def agrees_calls_def acc_inv_meta
      split: option.splits if_splits)

lemma keeps_chunk:
  assumes "openai_tame parse (SseData d)"
  shows "keeps openai_sync (openai_map_chunk parse d)"
proof (cases "parse d")
  case (Inl e)
  then show ?thesis by (simp add: keeps_def openai_map_chunk_def)
next
  case (Inr v)
  have "keeps openai_sync (case first_choice v of Some c \<Rightarrow> chunk_choice c | None \<Rightarrow> Pair (Ok []))"
    using assms Inr
    by (auto simp: openai_tame_def chunk_choice_def Let_def split: option.splits
        intro!: keeps_and_then keeps_chunk_text keeps_chunk_thinking keeps_chunk_tool_calls keeps_chunk_finish)
  then have "keeps openai_sync (and_then
      (case first_choice v of Some c \<Rightarrow> chunk_choice c | None \<Rightarrow> Pair (Ok [])) (chunk_usage v))"
    by (rule keeps_and_then) (rule keeps_chunk_usage)
  moreover have "openai_map_chunk parse d = and_then
      (case first_choice v of Some c \<Rightarrow> chunk_choice c | None \<Rightarrow> Pair (Ok [])) (chunk_usage v)"
    using Inr by (simp add: openai_map_chunk_def fun_eq_iff)
  ultimately show ?thesis by simp
qed

lemma agrees_Done: "agrees a evs \<Longrightarrow> agrees a (evs @ [Done m])"
  by (simp add: agrees_def agrees_calls_def)

lemma keeps_openai: "openai_tame parse e \<Longrightarrow> keeps openai_sync (openai_map_event parse e)"
proof (cases e)
  case (SseNamed n d)
  assume "openai_tame parse e"
  then have "openai_tame parse (SseData d)" using SseNamed by (simp add: openai_tame_def)
  from keeps_chunk [OF this] show ?thesis using SseNamed by (simp add: keeps_def)
next
  case (SseData d)
  assume "openai_tame parse e"
  then show ?thesis using SseData keeps_chunk [of parse d] by (simp add: keeps_def)
next
  case SseDone
  then show ?thesis by (simp add: keeps_def agrees_Done)
qed

lemma openai_sync_new: "openai_sync (acc_new m) []"
  using acc_inv_new agrees_new by (simp add: openai_inv_def acc_new_def)

end
