(* ===== verification/Anthropic.thy ===== *)
theory Anthropic
  imports OpenAi
begin

text \<open>
  The Anthropic messages adapter: the mapping of stream events (\<open>adapters/anthropic/events.rs\<close>
  and \<open>blocks.rs\<close>) and the construction of requests (\<open>adapters/anthropic/request.rs\<close>).
\<close>

section \<open>Content blocks (anthropic/blocks.rs)\<close>

definition block_index :: "json \<Rightarrow> string \<Rightarrow> ProviderError + nat" where
  "block_index v event =
     (case get_u64 v ''index'' of
        Some n \<Rightarrow> Inr (unat n)
      | None \<Rightarrow> Inl (PeParse (event @ '' missing valid index'')))"

fun show_kind :: "SegmentKind option \<Rightarrow> string" where
  "show_kind None = ''None''"
| "show_kind (Some (SegText i)) = ''Some(Text('' @ show_nat i @ ''))''"
| "show_kind (Some (SegThinking i)) = ''Some(Thinking('' @ show_nat i @ ''))''"
| "show_kind (Some (SegToolCall i)) = ''Some(ToolCall('' @ show_nat i @ ''))''"

definition noted :: "AssistantEvent list \<Rightarrow> Acc \<Rightarrow> (ProviderError, Acc) outcome \<Rightarrow> mapped" where
  "noted evs a r =
     (case r of Ok b \<Rightarrow> (Ok evs, b) | Err e \<Rightarrow> (Err e, a) | Panic \<Rightarrow> (Panic, a))"

definition start_block :: "nat \<Rightarrow> json \<Rightarrow> string \<Rightarrow> Acc \<Rightarrow> mapped" where
  "start_block index block block_type a =
     (if block_type = ''tool_use'' then
        (case get_str block ''id'' of
           None \<Rightarrow> (Err (PeParse ''content_block_start tool_use missing id''), a)
         | Some cid \<Rightarrow>
             (case get_str block ''name'' of
                None \<Rightarrow> (Err (PeParse ''content_block_start tool_use missing name''), a)
              | Some name \<Rightarrow>
                  (let (j, a1) = start_tool_call cid name a
                   in noted [ToolCallStart cid name []] a1 (note_block index (SegToolCall j) a1))))
      else if block_type = ''text'' then
        (let (j, a1) = start_text_block a in noted [] a1 (note_block index (SegText j) a1))
      else if block_type = ''thinking'' then
        (let (j, a1) = start_thinking_block a in noted [] a1 (note_block index (SegThinking j) a1))
      else (Err (PeParse (''content_block_start unknown block type: '' @ block_type)), a))"

definition handle_block_start :: "json \<Rightarrow> Acc \<Rightarrow> mapped" where
  "handle_block_start v a =
     (case block_index v ''content_block_start'' of
        Inl e \<Rightarrow> (Err e, a)
      | Inr index \<Rightarrow>
          if block_kind index a \<noteq> None
          then (Err (PeParse (''duplicate content_block_start at index '' @ show_nat index)), a)
          else
            (case jget v ''content_block'' of
               None \<Rightarrow> (Err (PeParse ''content_block_start missing content_block''), a)
             | Some block \<Rightarrow>
                 (case get_str block ''type'' of
                    None \<Rightarrow> (Err (PeParse ''content_block_start missing content_block.type''), a)
                  | Some block_type \<Rightarrow> start_block index block block_type a)))"

definition text_delta :: "nat \<Rightarrow> json \<Rightarrow> Acc \<Rightarrow> mapped" where
  "text_delta index delta a =
     (case get_str delta ''text'' of
        None \<Rightarrow> (Err (PeParse ''text_delta missing text''), a)
      | Some text \<Rightarrow>
          (case block_kind index a of
             Some (SegText i) \<Rightarrow> noted [TextDelta text] a (append_text_block i text a)
           | other \<Rightarrow> (Err (PeParse (''text_delta for block '' @ show_nat index @
                '' without text block start (kind: '' @ show_kind other @ '')'')), a)))"

definition thinking_delta :: "nat \<Rightarrow> json \<Rightarrow> Acc \<Rightarrow> mapped" where
  "thinking_delta index delta a =
     (case get_str delta ''thinking'' of
        None \<Rightarrow> (Err (PeParse ''thinking_delta missing thinking''), a)
      | Some text \<Rightarrow>
          (case block_kind index a of
             Some (SegThinking i) \<Rightarrow> noted [ThinkingDelta text] a (append_thinking_block i text a)
           | other \<Rightarrow> (Err (PeParse (''thinking_delta for block '' @ show_nat index @
                '' without thinking block start (kind: '' @ show_kind other @ '')'')), a)))"

definition input_json_delta :: "nat \<Rightarrow> json \<Rightarrow> Acc \<Rightarrow> mapped" where
  "input_json_delta index delta a =
     (case get_str delta ''partial_json'' of
        None \<Rightarrow> (Err (PeParse ''input_json_delta missing partial_json''), a)
      | Some partial \<Rightarrow>
          (case block_kind index a of
             Some (SegToolCall j) \<Rightarrow>
               (case slice_get (acc_tool_calls a) j of
                  None \<Rightarrow> (Err (PeParse (''tool call '' @ show_nat j @ '' missing for block '' @ show_nat index)), a)
                | Some tc \<Rightarrow>
                    (Ok [ToolCallDelta (tca_id tc) partial],
                     a\<lparr>acc_tool_calls := (acc_tool_calls a)
                          [j := tc\<lparr>tca_arguments := tca_arguments tc @ partial\<rparr>]\<rparr>))
           | other \<Rightarrow> (Err (PeParse (''input_json_delta for block '' @ show_nat index @
                '' without tool_use block start (kind: '' @ show_kind other @ '')'')), a)))"

definition handle_block_delta :: "json \<Rightarrow> Acc \<Rightarrow> mapped" where
  "handle_block_delta v a =
     (case block_index v ''content_block_delta'' of
        Inl e \<Rightarrow> (Err e, a)
      | Inr index \<Rightarrow>
          (case jget v ''delta'' of
             None \<Rightarrow> (Err (PeParse ''content_block_delta missing delta''), a)
           | Some delta \<Rightarrow>
               (case get_str delta ''type'' of
                  None \<Rightarrow> (Err (PeParse ''content_block_delta missing delta.type''), a)
                | Some ty \<Rightarrow>
                    if ty = ''text_delta'' then text_delta index delta a
                    else if ty = ''thinking_delta'' then thinking_delta index delta a
                    else if ty = ''input_json_delta'' then input_json_delta index delta a
                    else (Err (PeParse (''content_block_delta unknown delta type: '' @ ty)), a))))"

definition handle_block_stop :: "json \<Rightarrow> Acc \<Rightarrow> mapped" where
  "handle_block_stop v a =
     (case block_index v ''content_block_stop'' of
        Inl e \<Rightarrow> (Err e, a)
      | Inr index \<Rightarrow>
          (case block_kind index a of
             Some (SegToolCall j) \<Rightarrow>
               (case slice_get (acc_tool_calls a) j of
                  None \<Rightarrow> (Err (PeParse (''tool call '' @ show_nat j @ '' missing for block '' @ show_nat index)), a)
                | Some tc \<Rightarrow>
                    if tca_done tc
                    then (Err (PeParse (''duplicate content_block_stop for tool call '' @ tca_id tc @
                                        '' at block index '' @ show_nat index)), a)
                    else (Ok [ToolCallEnd (tca_id tc)], end_tool_call (tca_id tc) a))
           | Some _ \<Rightarrow> (Ok [], a)
           | None \<Rightarrow> (Err (PeParse (''content_block_stop for unknown block index '' @ show_nat index)), a)))"

section \<open>Events (anthropic/events.rs)\<close>

definition anthropic_stop_reason :: "string \<Rightarrow> StopReason" where
  "anthropic_stop_reason s =
     (if s = ''end_turn'' \<or> s = ''stop_sequence'' \<or> s = ''tool_use'' then StopCompleted
      else if s = ''max_tokens'' then StopLength
      else if s = ''refusal'' then StopError
      else StopOther s)"

definition anthropic_usage :: "json \<Rightarrow> u64 \<Rightarrow> Usage" where
  "anthropic_usage v acc_input =
     (let input = (if 0 < acc_input then acc_input else opt_or 0 (get_u64 v ''input_tokens''));
          output = opt_or 0 (get_u64 v ''output_tokens'')
      in \<lparr>usage_input = input, usage_output = output,
          usage_cache_read = opt_or 0 (get_u64 v ''cache_read_input_tokens''),
          usage_cache_write = opt_or 0 (get_u64 v ''cache_creation_input_tokens''),
          usage_total_tokens = input + output, usage_cost = 0\<rparr>)"

definition message_start :: "json \<Rightarrow> Acc \<Rightarrow> mapped" where
  "message_start v a =
     (case Option.bind (Option.bind (jget v ''message'') (\<lambda>m. jget m ''usage''))
             (\<lambda>u. get_u64 u ''input_tokens'') of
        Some input \<Rightarrow> (Ok [], a\<lparr>acc_input_tokens := input\<rparr>)
      | None \<Rightarrow> (Ok [], a))"

definition message_delta :: "json \<Rightarrow> Acc \<Rightarrow> mapped" where
  "message_delta v a =
     (let a1 = (case get_str (jindex v ''delta'') ''stop_reason'' of
                  Some sr \<Rightarrow> a\<lparr>acc_stop_reason := Some (anthropic_stop_reason sr)\<rparr>
                | None \<Rightarrow> a);
          a2 = (case jget v ''usage'' of
                  Some u \<Rightarrow> if is_null u then a1
                            else a1\<lparr>acc_usage := Some (anthropic_usage u (acc_input_tokens a1))\<rparr>
                | None \<Rightarrow> a1)
      in (Ok [], a2))"

definition dispatch :: "json_parser \<Rightarrow> string \<Rightarrow> string \<Rightarrow> Acc \<Rightarrow> mapped" where
  "dispatch parse event_type data a =
     (case parse data of
        Inl e \<Rightarrow> (Err (PeParse e), a)
      | Inr v \<Rightarrow>
          if event_type = ''content_block_start'' then handle_block_start v a
          else if event_type = ''content_block_delta'' then handle_block_delta v a
          else if event_type = ''content_block_stop'' then handle_block_stop v a
          else if event_type = ''message_start'' then message_start v a
          else if event_type = ''message_delta'' then message_delta v a
          else if event_type = ''message_stop'' then (Ok [Done (build_message a)], a)
          else (Ok [], a))"

fun anthropic_map_event :: "json_parser \<Rightarrow> SseEvent \<Rightarrow> Acc \<Rightarrow> mapped" where
  "anthropic_map_event parse (SseNamed event data) a = dispatch parse event data a"
| "anthropic_map_event parse (SseData data) a =
     (case parse data of
        Inl e \<Rightarrow> (Err (PeParse e), a)
      | Inr v \<Rightarrow> dispatch parse (opt_or [] (get_str v ''type'')) data a)"
| "anthropic_map_event parse SseDone a = (Ok [Done (build_message a)], a)"

section \<open>Requests (anthropic/request.rs)\<close>

record AnthropicConfig =
  ac_api_key :: string
  ac_base_url :: "string option"
  ac_max_tokens :: u32
  ac_anthropic_version :: string

definition anthropic_config_new :: "string \<Rightarrow> AnthropicConfig" where
  "anthropic_config_new key =
     \<lparr>ac_api_key = key, ac_base_url = None, ac_max_tokens = 4096, ac_anthropic_version = ''2023-06-01''\<rparr>"

fun anthropic_user_part :: "UserContent \<Rightarrow> json" where
  "anthropic_user_part (UserText t) = JObject [(''type'', JString ''text''), (''text'', JString t)]"
| "anthropic_user_part (UserImage img) =
     JObject [(''type'', JString ''image''),
              (''source'', JObject [(''type'', JString ''base64''),
                 (''media_type'', JString (img_mime_type img)), (''data'', JString (img_data img))])]"

definition anthropic_user :: "UserMessage \<Rightarrow> json" where
  "anthropic_user u =
     JObject [(''role'', JString ''user''), (''content'', JArray (map anthropic_user_part (um_content u)))]"

fun value_type_name :: "json \<Rightarrow> string" where
  "value_type_name JNull = ''null''"
| "value_type_name (JBool _) = ''boolean''"
| "value_type_name (JNumber _) = ''number''"
| "value_type_name (JString _) = ''string''"
| "value_type_name (JArray _) = ''array''"
| "value_type_name (JObject _) = ''object''"

definition parse_tool_arguments :: "json_parser \<Rightarrow> string \<Rightarrow> string \<Rightarrow> ProviderError + json" where
  "parse_tool_arguments parse cid arguments =
     (if arguments = [] then Inr (JObject [])
      else case parse arguments of
             Inl e \<Rightarrow> Inl (PeBuild (''assistant tool call '' @ cid @ '' has invalid JSON arguments: '' @ e))
           | Inr v \<Rightarrow>
               if \<not> is_object v
               then Inl (PeBuild (''assistant tool call '' @ cid @
                                  '' arguments must be a JSON object, got '' @ value_type_name v))
               else Inr v)"

fun anthropic_blocks :: "json_parser \<Rightarrow> AssistantContent list \<Rightarrow> ProviderError + json list" where
  "anthropic_blocks parse [] = Inr []"
| "anthropic_blocks parse (AssistantText t # cs) =
     map_sum id (Cons (JObject [(''type'', JString ''text''), (''text'', JString t)])) (anthropic_blocks parse cs)"
| "anthropic_blocks parse (AssistantThinking _ # cs) = anthropic_blocks parse cs"
| "anthropic_blocks parse (AssistantToolCall tc # cs) =
     (case parse_tool_arguments parse (tc_id tc) (tc_arguments tc) of
        Inl e \<Rightarrow> Inl e
      | Inr input \<Rightarrow>
          map_sum id (Cons (JObject [(''type'', JString ''tool_use''), (''id'', JString (tc_id tc)),
             (''name'', JString (tc_name tc)), (''input'', input)])) (anthropic_blocks parse cs))"

definition anthropic_assistant :: "json_parser \<Rightarrow> AssistantMessage \<Rightarrow> ProviderError + json" where
  "anthropic_assistant parse a =
     map_sum id (\<lambda>bs. JObject [(''role'', JString ''assistant''), (''content'', JArray bs)])
       (anthropic_blocks parse (am_content a))"

definition anthropic_tool_result :: "ToolResultMessage \<Rightarrow> json" where
  "anthropic_tool_result t =
     JObject [(''role'', JString ''user''),
       (''content'', JArray [JObject [(''type'', JString ''tool_result''),
          (''tool_use_id'', JString (trm_tool_call_id t)),
          (''content'', JString (join [] (List.map_filter result_text_part (trm_content t)))),
          (''is_error'', JBool (trm_is_error t))]])]"

fun anthropic_message :: "json_parser \<Rightarrow> Message \<Rightarrow> ProviderError + json" where
  "anthropic_message parse (User u) = Inr (anthropic_user u)"
| "anthropic_message parse (Assistant a) = anthropic_assistant parse a"
| "anthropic_message parse (ToolResult t) = Inr (anthropic_tool_result t)"

fun anthropic_messages :: "json_parser \<Rightarrow> Message list \<Rightarrow> ProviderError + json list" where
  "anthropic_messages parse [] = Inr []"
| "anthropic_messages parse (m # ms) =
     (case anthropic_message parse m of
        Inl e \<Rightarrow> Inl e
      | Inr j \<Rightarrow> map_sum id (Cons j) (anthropic_messages parse ms))"

definition anthropic_tool :: "ToolSpec \<Rightarrow> json" where
  "anthropic_tool t =
     JObject [(''name'', JString (ts_name t)), (''description'', JString (ts_description t)),
              (''input_schema'', opt_or (JObject [(''type'', JString ''object'')]) (ts_parameters t))]"

definition anthropic_build_request ::
    "json_parser \<Rightarrow> AnthropicConfig \<Rightarrow> ProviderRequest \<Rightarrow> ProviderError + BuiltRequest" where
  "anthropic_build_request parse config request =
     (let ctx = req_context request in
      case anthropic_messages parse (ctx_messages ctx) of
        Inl e \<Rightarrow> Inl e
      | Inr messages \<Rightarrow>
          (let body = JObject [(''model'', JString (model_id (req_model request))),
                               (''max_tokens'', JNumber (PosInt (ucast (ac_max_tokens config)))),
                               (''messages'', JArray messages), (''stream'', JBool True)];
               body = (if ctx_system_prompt ctx = [] then body
                       else jset body ''system'' (JString (ctx_system_prompt ctx)));
               body = (if ctx_tools ctx = [] then body
                       else jset body ''tools'' (JArray (map anthropic_tool (ctx_tools ctx))))
           in Inr \<lparr>br_url = base_url ''https://api.anthropic.com/v1'' (ac_base_url config) @ ''/messages'',
                   br_headers = [(''x-api-key'', ac_api_key config),
                                 (''anthropic-version'', ac_anthropic_version config),
                                 (''Content-Type'', ''application/json'')],
                   br_body = body\<rparr>))"

text \<open>Events whose block index fits a vector.\<close>

definition anthropic_tame :: "json_parser \<Rightarrow> SseEvent \<Rightarrow> bool" where
  "anthropic_tame parse e =
     (case e of
        SseDone \<Rightarrow> True
      | SseData d \<Rightarrow> (case parse d of Inl _ \<Rightarrow> True | Inr v \<Rightarrow> small_index v)
      | SseNamed _ d \<Rightarrow> (case parse d of Inl _ \<Rightarrow> True | Inr v \<Rightarrow> small_index v))"

abbreviation anthropic_sync :: "Acc \<Rightarrow> AssistantEvent list \<Rightarrow> bool" where
  "anthropic_sync a evs \<equiv> acc_inv a \<and> agrees_calls a evs"

text \<open>The tool calls of an assistant message whose arguments the request can carry.\<close>

definition sendable_call :: "json_parser \<Rightarrow> ToolCall \<Rightarrow> bool" where
  "sendable_call parse tc =
     (tc_arguments tc = [] \<or>
      (case parse (tc_arguments tc) of Inl _ \<Rightarrow> False | Inr v \<Rightarrow> is_object v))"

fun sendable :: "json_parser \<Rightarrow> Message \<Rightarrow> bool" where
  "sendable parse (Assistant a) = list_all (sendable_call parse) (message_calls a)"
| "sendable parse _ = True"

section \<open>Every event keeps the accumulator in step\<close>

lemma agrees_calls_same:
  "agrees_calls a evs \<Longrightarrow> acc_tool_calls b = acc_tool_calls a \<Longrightarrow>
   (\<And>e. e \<in> set evs' \<Longrightarrow> event_start e = None \<and> (\<forall>c. event_args c e = [])) \<Longrightarrow>
   agrees_calls b (evs @ evs')"
proof -
  assume a: "agrees_calls a evs" "acc_tool_calls b = acc_tool_calls a"
    and e: "\<And>e. e \<in> set evs' \<Longrightarrow> event_start e = None \<and> (\<forall>c. event_args c e = [])"
  have "streamed_calls evs' = []" "streamed_args c evs' = []" for c
    using e by (induction evs')
      (auto simp: streamed_calls_def streamed_args_def List.map_filter_simps)
  then show ?thesis using a by (simp add: agrees_calls_def)
qed

lemma note_block_tool_calls: "note_block i k a = Ok b \<Longrightarrow> acc_tool_calls b = acc_tool_calls a"
  by (auto simp: note_block_def split: option.splits)

lemma noted_Ok: "noted evs a r = (Ok evs', b) \<longleftrightarrow> r = Ok b \<and> evs' = evs"
  by (auto simp: noted_def split: outcome.splits)

lemma noted_Panic: "noted evs a r = (Panic, b) \<longleftrightarrow> r = Panic \<and> b = a"
  by (auto simp: noted_def split: outcome.splits)

lemma keeps_start_block: "index < vec_max \<Longrightarrow> keeps anthropic_sync (start_block index block ty)"
proof (rule keepsI)
  fix a evs0 evs b
  assume i: "anthropic_sync a evs0" and r: "start_block index block ty a = (Ok evs, b)"
  then consider
      (tool) cid name j a1 where "start_tool_call cid name a = (j, a1)"
        "note_block index (SegToolCall j) a1 = Ok b" "evs = [ToolCallStart cid name []]"
    | (words) j a1 where "start_text_block a = (j, a1)" "note_block index (SegText j) a1 = Ok b" "evs = []"
    | (thinking) j a1 where "start_thinking_block a = (j, a1)"
        "note_block index (SegThinking j) a1 = Ok b" "evs = []"
    by (auto simp: start_block_def noted_Ok Let_def split: if_splits option.splits prod.splits)
  then show "anthropic_sync b (evs0 @ evs)"
  proof cases
    case tool
    have "acc_inv b" using i acc_inv_start_tool [OF _ tool(1)] acc_inv_note_block [OF _ _ tool(2)] by blast
    moreover have "agrees_calls b (evs0 @ evs)"
      unfolding tool(3) using i tool(1) note_block_tool_calls [OF tool(2)]
      by (intro agrees_calls_start [of a]) (auto simp: start_tool_call_def Let_def)
    ultimately show ?thesis by blast
  next
    case words
    have "acc_inv b" using i acc_inv_start_text [OF _ words(1)] acc_inv_note_block [OF _ _ words(2)] by blast
    moreover have "agrees_calls b (evs0 @ evs)"
      using i words note_block_tool_calls [OF words(2)]
      by (intro agrees_calls_same [of a]) (auto simp: start_text_block_def Let_def)
    ultimately show ?thesis by blast
  next
    case thinking
    have "acc_inv b" using i acc_inv_start_thinking [OF _ thinking(1)] acc_inv_note_block [OF _ _ thinking(2)]
      by blast
    moreover have "agrees_calls b (evs0 @ evs)"
      using i thinking note_block_tool_calls [OF thinking(2)]
      by (intro agrees_calls_same [of a]) (auto simp: start_thinking_block_def Let_def)
    ultimately show ?thesis by blast
  qed
next
  fix a evs0 b
  assume "index < vec_max"
  then have "note_block index k x \<noteq> Panic" for k x using note_block_ok [of index k x] by auto
  then show "start_block index block ty a \<noteq> (Panic, b)"
    by (auto simp: start_block_def noted_Panic Let_def split: option.splits prod.splits)
qed

lemma keeps_block_start: "small_index v \<Longrightarrow> keeps anthropic_sync (handle_block_start v)"
  using keeps_start_block
  by (fastforce simp: keeps_def handle_block_start_def block_index_def small_index_def
      split: option.splits sum.splits)

lemma append_blocks_keep:
  "acc_inv a \<Longrightarrow> seg_in a (SegText i) \<Longrightarrow> \<exists>b. append_text_block i s a = Ok b \<and> acc_inv b \<and> acc_tool_calls b = acc_tool_calls a"
  "acc_inv a \<Longrightarrow> seg_in a (SegThinking i) \<Longrightarrow> \<exists>b. append_thinking_block i s a = Ok b \<and> acc_inv b \<and> acc_tool_calls b = acc_tool_calls a"
  by (auto simp: append_text_block_def append_thinking_block_def push_str_at_def
      intro: acc_inv_texts acc_inv_thinkings)

lemma keeps_text_delta: "keeps anthropic_sync (text_delta i d)"
proof (rule keepsI)
  fix a evs0 evs b
  assume i: "anthropic_sync a evs0" and "text_delta i d a = (Ok evs, b)"
  then obtain j s where "block_kind i a = Some (SegText j)" "append_text_block j s a = Ok b"
    and e: "evs = [TextDelta s]"
    by (auto simp: text_delta_def noted_Ok split: option.splits SegmentKind.splits)
  then have "acc_inv b" "acc_tool_calls b = acc_tool_calls a"
    using i append_blocks_keep(1) [of a j s] block_kind_in [of a i "SegText j"] by auto
  then show "anthropic_sync b (evs0 @ evs)" using i e by (auto intro: agrees_calls_same [of a])
next
  fix a evs0 b
  assume i: "anthropic_sync a evs0"
  have "append_text_block j s a \<noteq> Panic" if "block_kind i a = Some (SegText j)" for j s
    using append_blocks_keep(1) [of a j s] block_kind_in [OF _ that] i by auto
  then show "text_delta i d a \<noteq> (Panic, b)"
    by (auto simp: text_delta_def noted_Panic split: option.splits SegmentKind.splits)
qed

lemma keeps_thinking_delta: "keeps anthropic_sync (thinking_delta i d)"
proof (rule keepsI)
  fix a evs0 evs b
  assume i: "anthropic_sync a evs0" and "thinking_delta i d a = (Ok evs, b)"
  then obtain j s where "block_kind i a = Some (SegThinking j)" "append_thinking_block j s a = Ok b"
    and e: "evs = [ThinkingDelta s]"
    by (auto simp: thinking_delta_def noted_Ok split: option.splits SegmentKind.splits)
  then have "acc_inv b" "acc_tool_calls b = acc_tool_calls a"
    using i append_blocks_keep(2) [of a j s] block_kind_in [of a i "SegThinking j"] by auto
  then show "anthropic_sync b (evs0 @ evs)" using i e by (auto intro: agrees_calls_same [of a])
next
  fix a evs0 b
  assume i: "anthropic_sync a evs0"
  have "append_thinking_block j s a \<noteq> Panic" if "block_kind i a = Some (SegThinking j)" for j s
    using append_blocks_keep(2) [of a j s] block_kind_in [OF _ that] i by auto
  then show "thinking_delta i d a \<noteq> (Panic, b)"
    by (auto simp: thinking_delta_def noted_Panic split: option.splits SegmentKind.splits)
qed

lemma keeps_json_delta: "keeps anthropic_sync (input_json_delta i d)"
proof (rule keepsI)
  fix a evs0 evs b
  assume i: "anthropic_sync a evs0" and r: "input_json_delta i d a = (Ok evs, b)"
  then obtain j s where j: "j < length (acc_tool_calls a)"
    "evs = [ToolCallDelta (tca_id (acc_tool_calls a ! j)) s]"
    "b = a\<lparr>acc_tool_calls := (acc_tool_calls a)
       [j := (acc_tool_calls a ! j)\<lparr>tca_arguments := tca_arguments (acc_tool_calls a ! j) @ s\<rparr>]\<rparr>"
    by (auto simp: input_json_delta_def split: option.splits SegmentKind.splits)
  then show "anthropic_sync b (evs0 @ evs)"
    using i agrees_calls_update [of a evs0 j b s] by (auto intro: acc_inv_tools)
qed (auto simp: input_json_delta_def split: option.splits SegmentKind.splits)

lemma keeps_block_delta: "keeps anthropic_sync (handle_block_delta v)"
  using keeps_text_delta keeps_thinking_delta keeps_json_delta
  by (auto simp: keeps_def handle_block_delta_def split: option.splits sum.splits)

lemma mark_done_True:
  "map (\<lambda>tc. tc\<lparr>tca_done := True\<rparr>) (mark_done c tcs) = map (\<lambda>tc. tc\<lparr>tca_done := True\<rparr>) tcs"
  by (induction tcs) auto

lemma keeps_block_stop: "keeps anthropic_sync (handle_block_stop v)"
proof (rule keepsI)
  fix a evs0 evs b
  assume i: "anthropic_sync a evs0" and "handle_block_stop v a = (Ok evs, b)"
  then consider "evs = []" "b = a" | c where "evs = [ToolCallEnd c]" "b = end_tool_call c a"
    by (auto simp: handle_block_stop_def split: option.splits sum.splits SegmentKind.splits if_splits)
  then show "anthropic_sync b (evs0 @ evs)"
  proof cases
    case 2
    have "acc_inv b" using i 2 by (auto simp: end_tool_call_def intro: acc_inv_tools)
    moreover have "agrees_calls b (evs0 @ evs)"
      using i 2 by (intro agrees_calls_done [of a]) (auto simp: end_tool_call_def mark_done_True)
    ultimately show ?thesis by blast
  qed (use i in auto)
qed (auto simp: handle_block_stop_def split: option.splits sum.splits SegmentKind.splits if_splits)

lemma agrees_calls_Done: "agrees_calls a evs \<Longrightarrow> agrees_calls a (evs @ [Done m])"
  by (simp add: agrees_calls_def)

lemma keeps_dispatch:
  assumes "\<And>v. parse d = Inr v \<Longrightarrow> small_index v"
  shows "keeps anthropic_sync (dispatch parse ty d)"
proof (cases "parse d")
  case (Inl e)
  then show ?thesis by (simp add: keeps_def dispatch_def)
next
  case (Inr v)
  have "keeps anthropic_sync (message_start v)" "keeps anthropic_sync (message_delta v)"
    by (auto simp: keeps_def message_start_def message_delta_def Let_def acc_inv_meta agrees_calls_def
        split: option.splits)
  moreover have "keeps anthropic_sync (handle_block_start v)" using keeps_block_start assms Inr by blast
  ultimately show ?thesis
    using Inr keeps_block_delta [of v] keeps_block_stop [of v]
    by (auto simp: keeps_def dispatch_def agrees_calls_Done)
qed

lemma keeps_anthropic: "anthropic_tame parse e \<Longrightarrow> keeps anthropic_sync (anthropic_map_event parse e)"
proof (cases e)
  case (SseNamed n d)
  assume "anthropic_tame parse e"
  then have "keeps anthropic_sync (dispatch parse n d)"
    using SseNamed by (intro keeps_dispatch) (auto simp: anthropic_tame_def split: sum.splits)
  then show ?thesis using SseNamed by (simp add: keeps_def)
next
  case (SseData d)
  assume t: "anthropic_tame parse e"
  have "keeps anthropic_sync (dispatch parse ty d)" for ty
    using SseData t by (intro keeps_dispatch) (auto simp: anthropic_tame_def split: sum.splits)
  then show ?thesis using SseData by (auto simp: keeps_def split: sum.splits)
next
  case SseDone
  then show ?thesis by (simp add: keeps_def agrees_calls_Done)
qed

lemma anthropic_sync_new: "anthropic_sync (acc_new m) []"
  using acc_inv_new agrees_new by (simp add: agrees_def)

lemma note_block_not_Err: "note_block i k a \<noteq> Err e"
  by (auto simp: note_block_def split: option.splits)

lemma append_blocks_not_Err: "append_text_block i s a \<noteq> Err e" "append_thinking_block i s a \<noteq> Err e"
  by (auto simp: append_text_block_def append_thinking_block_def split: option.splits)

lemma noted_Err: "noted evs a r = (Err e, b) \<longleftrightarrow> r = Err e \<and> b = a"
  by (auto simp: noted_def split: outcome.splits)

lemma dispatch_err: "dispatch parse ty d a = (Err e, b) \<Longrightarrow> b = a"
  by (auto simp: dispatch_def handle_block_start_def start_block_def handle_block_delta_def text_delta_def
      thinking_delta_def input_json_delta_def handle_block_stop_def message_start_def message_delta_def
      noted_Err note_block_not_Err append_blocks_not_Err Let_def
      split: sum.splits option.splits if_splits SegmentKind.splits prod.splits)

lemma anthropic_blocks_Inr:
  "(\<exists>bs. anthropic_blocks parse cs = Inr bs) \<longleftrightarrow>
   list_all (sendable_call parse) (List.map_filter content_call cs)"
proof (induction cs)
  case (Cons c cs)
  then show ?case
    by (cases c; cases "anthropic_blocks parse cs")
      (auto simp: List.map_filter_simps sendable_call_def parse_tool_arguments_def split: sum.splits if_splits)
qed (simp add: List.map_filter_simps)

lemma anthropic_message_Inr: "(\<exists>j. anthropic_message parse m = Inr j) \<longleftrightarrow> sendable parse m"
proof (cases m)
  case (Assistant a)
  then show ?thesis
    using anthropic_blocks_Inr [of parse "am_content a"]
    by (cases "anthropic_blocks parse (am_content a)") (auto simp: anthropic_assistant_def message_calls_def)
qed auto

lemma anthropic_messages_Inr:
  "(\<exists>js. anthropic_messages parse ms = Inr js) \<longleftrightarrow> list_all (sendable parse) ms"
proof (induction ms)
  case (Cons m ms)
  then show ?case
    using anthropic_message_Inr [of parse m]
    by (cases "anthropic_message parse m"; cases "anthropic_messages parse ms") auto
qed simp

section \<open>Properties\<close>

text \<open>
  Protocol violations of the Anthropic stream are rejected without touching the state.
  Whenever an event maps to an error, the accumulated state is unchanged; starting a block
  at an index that is already open is such an error, and so are deltas and stops of a block
  that was never started.
\<close>

theorem anthropic_errors:
  "(fst (anthropic_map_event parse e a) = Err err \<longrightarrow> snd (anthropic_map_event parse e a) = a) \<and>
   (parse d = Inr v \<longrightarrow> get_u64 v ''index'' = Some n \<longrightarrow>
     (block_kind (unat n) a \<noteq> None \<longrightarrow>
        (\<exists>err. anthropic_map_event parse (SseNamed ''content_block_start'' d) a = (Err err, a))) \<and>
     (block_kind (unat n) a = None \<longrightarrow>
        (\<exists>err. anthropic_map_event parse (SseNamed ''content_block_delta'' d) a = (Err err, a)) \<and>
        (\<exists>err. anthropic_map_event parse (SseNamed ''content_block_stop'' d) a = (Err err, a))))"
proof -
  have "anthropic_map_event parse e a = (Err err, b) \<Longrightarrow> b = a" for b
    by (cases e) (auto dest: dispatch_err split: sum.splits)
  then have "fst (anthropic_map_event parse e a) = Err err \<longrightarrow> snd (anthropic_map_event parse e a) = a"
    by (cases "anthropic_map_event parse e a") auto
  then show ?thesis
    by (auto simp: dispatch_def handle_block_start_def handle_block_delta_def handle_block_stop_def
        block_index_def text_delta_def thinking_delta_def input_json_delta_def split: option.splits)
qed

theorem anthropic_errors_witness:
  "\<exists>err. anthropic_map_event (\<lambda>_. Inr (JObject [(''index'', JNumber (PosInt 0))]))
     (SseNamed ''content_block_stop'' ''x'') (acc_new ''m'') = (Err err, acc_new ''m'')"
proof -
  let ?p = "\<lambda>_ :: string. Inr (JObject [(''index'', JNumber (PosInt 0))])"
  have "get_u64 (JObject [(''index'', JNumber (PosInt 0))]) ''index'' = Some 0" by (simp add: get_u64_def)
  moreover have "block_kind (unat 0) (acc_new ''m'') = None" by (simp add: block_kind_def acc_new_def slice_get_def)
  ultimately show ?thesis
    using anthropic_errors [of ?p SseDone "acc_new ''m''" PeAborted "''x''"
        "JObject [(''index'', JNumber (PosInt 0))]" 0] by simp
qed

text \<open>
  Which transcripts the Anthropic adapter can send.  Building a request succeeds exactly
  when every tool call of every assistant message has empty arguments or arguments that
  parse to a JSON object; one call with partial arguments left in the transcript makes
  every later request fail.
\<close>

theorem anthropic_request_iff:
  "(\<exists>b. anthropic_build_request parse config request = Inr b) \<longleftrightarrow>
   list_all (sendable parse) (ctx_messages (req_context request))"
  using anthropic_messages_Inr [of parse "ctx_messages (req_context request)"]
  by (auto simp: anthropic_build_request_def Let_def split: sum.splits)

end
