(* ===== verification/Adapter_Stream.thy ===== *)
theory Adapter_Stream
  imports Anthropic
begin

text \<open>
  The stream both adapters share (\<open>adapters/stream.rs\<close>): read a chunk of the body, parse it,
  map the events, hand them out one at a time.  The body is the script of what the
  \<open>select!\<close> of \<open>step\<close> sees: chunks, a transport error, a cancellation; the end of the list
  is the end of the body.
\<close>

section \<open>Definitions\<close>

datatype body_item = BodyChunk string | BodyError string | BodyCancelled

type_synonym map_event = "SseEvent \<Rightarrow> Acc \<Rightarrow> mapped"

record StreamState =
  ss_body :: "body_item list"
  ss_parser :: SseParser
  ss_acc :: Acc
  ss_pending :: "AssistantEvent list"
  ss_terminated :: bool

definition build_stream :: "body_item list \<Rightarrow> string \<Rightarrow> StreamState" where
  "build_stream body model =
     \<lparr>ss_body = body, ss_parser = parser_new, ss_acc = acc_new model, ss_pending = [],
      ss_terminated = False\<rparr>"

fun is_done :: "AssistantEvent \<Rightarrow> bool" where
  "is_done (Done _) = True"
| "is_done _ = False"

text \<open>
  \<open>process_sse_events\<close>: map a batch into \<open>pending\<close>; events mapped before a failure stay in
  \<open>pending\<close>.
\<close>

fun process_sse_events ::
    "map_event \<Rightarrow> SseEvent list \<Rightarrow> StreamState \<Rightarrow> (string, bool) outcome \<times> StreamState" where
  "process_sse_events me [] st = (Ok False, st)"
| "process_sse_events me (e # es) st =
     (case me e (ss_acc st) of
        (Ok evs, a) \<Rightarrow>
          (case process_sse_events me es (st\<lparr>ss_acc := a, ss_pending := ss_pending st @ evs\<rparr>) of
             (Ok got_done, st') \<Rightarrow> (Ok (list_ex is_done evs \<or> got_done), st')
           | r \<Rightarrow> r)
      | (Err err, a) \<Rightarrow> (Err (provider_error_display err), st\<lparr>ss_acc := a\<rparr>)
      | (Panic, a) \<Rightarrow> (Panic, st\<lparr>ss_acc := a\<rparr>))"

text \<open>
  \<open>step\<close>: the next event, or \<open>None\<close> at the end; \<open>Panic\<close> when the mapper panics.
\<close>

lemma process_keeps_body:
  "process_sse_events me es st = (r, st') \<Longrightarrow>
   ss_body st' = ss_body st \<and> ss_terminated st' = ss_terminated st \<and> ss_parser st' = ss_parser st"
proof (induction me es st arbitrary: r st' rule: process_sse_events.induct)
  case (2 me e es st)
  then show ?case by (auto split: prod.splits outcome.splits)
qed simp

function step :: "map_event \<Rightarrow> StreamState \<Rightarrow> (unit, (AssistantEvent \<times> StreamState) option) outcome" where
  "step me st =
     (if ss_terminated st \<and> ss_pending st = [] then Ok None
      else case ss_pending st of
        ev # evs \<Rightarrow> Ok (Some (ev, st\<lparr>ss_pending := evs\<rparr>))
      | [] \<Rightarrow>
          (case ss_body st of
             BodyCancelled # body \<Rightarrow>
               Ok (Some (StreamError ''cancelled'' True, st\<lparr>ss_body := body, ss_terminated := True\<rparr>))
           | BodyChunk bytes # body \<Rightarrow>
               (let (sses, p) = feed bytes (ss_parser st);
                    (r, st') = process_sse_events me sses (st\<lparr>ss_body := body, ss_parser := p\<rparr>)
                in case r of
                     Ok got_done \<Rightarrow> step me (if got_done then st'\<lparr>ss_terminated := True\<rparr> else st')
                   | Err msg \<Rightarrow> Ok (Some (StreamError msg False, st'\<lparr>ss_terminated := True\<rparr>))
                   | Panic \<Rightarrow> Panic)
           | BodyError e # body \<Rightarrow>
               Ok (Some (StreamError e False, st\<lparr>ss_body := body, ss_terminated := True\<rparr>))
           | [] \<Rightarrow>
               (let (sses, p) = finish (ss_parser st);
                    (r, st') = process_sse_events me sses (st\<lparr>ss_parser := p\<rparr>)
                in case r of
                     Ok got_done \<Rightarrow>
                       if got_done then step me (st'\<lparr>ss_terminated := True\<rparr>)
                       else Ok (Some (StreamError ''stream ended without terminal event'' False,
                                      st'\<lparr>ss_terminated := True\<rparr>))
                   | Err msg \<Rightarrow> Ok (Some (StreamError msg False, st'\<lparr>ss_terminated := True\<rparr>))
                   | Panic \<Rightarrow> Panic)))"
  by pat_completeness auto
termination
  by (relation "measure (\<lambda>(me, st). 2 * length (ss_body st) + (if ss_terminated st then 0 else 1))")
    (auto dest!: process_keeps_body [OF sym] split: if_splits)

declare step.simps [simp del]

definition work :: "StreamState \<Rightarrow> nat" where
  "work st = 2 * length (ss_body st) + (if ss_terminated st then 0 else 1)"

lemma step_ended: "ss_terminated st \<Longrightarrow> ss_pending st = [] \<Longrightarrow> step me st = Ok None"
  by (subst step.simps) simp

lemma step_pending: "ss_pending st = e # es \<Longrightarrow> step me st = Ok (Some (e, st\<lparr>ss_pending := es\<rparr>))"
  by (subst step.simps) simp

lemma step_cancelled:
  "\<not> ss_terminated st \<Longrightarrow> ss_pending st = [] \<Longrightarrow> ss_body st = BodyCancelled # body \<Longrightarrow>
   step me st = Ok (Some (StreamError ''cancelled'' True, st\<lparr>ss_body := body, ss_terminated := True\<rparr>))"
  by (subst step.simps) simp

lemma step_error:
  "\<not> ss_terminated st \<Longrightarrow> ss_pending st = [] \<Longrightarrow> ss_body st = BodyError e # body \<Longrightarrow>
   step me st = Ok (Some (StreamError e False, st\<lparr>ss_body := body, ss_terminated := True\<rparr>))"
  by (subst step.simps) simp

lemma step_chunk:
  "\<not> ss_terminated st \<Longrightarrow> ss_pending st = [] \<Longrightarrow> ss_body st = BodyChunk bytes # body \<Longrightarrow>
   feed bytes (ss_parser st) = (sses, p) \<Longrightarrow>
   process_sse_events me sses (st\<lparr>ss_body := body, ss_parser := p\<rparr>) = (r, st1) \<Longrightarrow>
   step me st = (case r of
       Ok got_done \<Rightarrow> step me (if got_done then st1\<lparr>ss_terminated := True\<rparr> else st1)
     | Err msg \<Rightarrow> Ok (Some (StreamError msg False, st1\<lparr>ss_terminated := True\<rparr>))
     | Panic \<Rightarrow> Panic)"
  by (subst step.simps) simp

lemma step_end:
  "\<not> ss_terminated st \<Longrightarrow> ss_pending st = [] \<Longrightarrow> ss_body st = [] \<Longrightarrow>
   finish (ss_parser st) = (sses, p) \<Longrightarrow>
   process_sse_events me sses (st\<lparr>ss_parser := p\<rparr>) = (r, st1) \<Longrightarrow>
   step me st = (case r of
       Ok got_done \<Rightarrow>
         if got_done then step me (st1\<lparr>ss_terminated := True\<rparr>)
         else Ok (Some (StreamError ''stream ended without terminal event'' False, st1\<lparr>ss_terminated := True\<rparr>))
     | Err msg \<Rightarrow> Ok (Some (StreamError msg False, st1\<lparr>ss_terminated := True\<rparr>))
     | Panic \<Rightarrow> Panic)"
  by (subst step.simps) simp

lemma step_terminated:
  "ss_terminated st \<Longrightarrow> step me st =
     (case ss_pending st of [] \<Rightarrow> Ok None | e # es \<Rightarrow> Ok (Some (e, st\<lparr>ss_pending := es\<rparr>)))"
  by (simp add: step_ended step_pending split: list.splits)

lemma step_decreases:
  "step me st = Ok (Some (ev, st')) \<Longrightarrow>
   work st' < work st \<or> work st' = work st \<and> length (ss_pending st') < length (ss_pending st)"
proof (induction "length (ss_body st)" arbitrary: st rule: less_induct)
  case less
  show ?case
  proof (cases "ss_pending st")
    case (Cons e es)
    then show ?thesis using less.prems by (auto simp: step_pending work_def)
  next
    case Nil
    have nt: "\<not> ss_terminated st" using less.prems Nil step_ended by fastforce
    show ?thesis
    proof (cases "ss_body st")
      case b: Nil
      obtain sses p where f: "finish (ss_parser st) = (sses, p)" by force
      obtain r st1 where pr: "process_sse_events me sses (st\<lparr>ss_parser := p\<rparr>) = (r, st1)" by force
      have "ss_body st1 = []" using process_keeps_body [OF pr] b by simp
      then show ?thesis
        using less.prems nt unfolding step_end [OF nt Nil b f pr]
        by (auto simp: work_def step_terminated split: outcome.splits if_splits list.splits)
    next
      case b: (Cons bi body)
      show ?thesis
      proof (cases bi)
        case (BodyChunk bytes)
        obtain sses p where f: "feed bytes (ss_parser st) = (sses, p)" by force
        obtain r st1 where pr: "process_sse_events me sses (st\<lparr>ss_body := body, ss_parser := p\<rparr>) = (r, st1)"
          by force
        have bd: "ss_body st1 = body" using process_keeps_body [OF pr] by simp
        note e = step_chunk [OF nt Nil b [unfolded BodyChunk] f pr]
        show ?thesis
        proof (cases r)
          case (Ok d)
          let ?s = "if d then st1\<lparr>ss_terminated := True\<rparr> else st1"
          have "step me ?s = Ok (Some (ev, st'))" using less.prems e Ok by simp
          moreover have "length (ss_body ?s) < length (ss_body st)" using bd b by simp
          ultimately have "work st' \<le> work ?s" using less.hyps [of ?s] by fastforce
          also have "work ?s < work st" using bd b nt by (simp add: work_def)
          finally show ?thesis by simp
        qed (use less.prems e bd b nt in \<open>auto simp: work_def\<close>)
      qed (use less.prems Nil nt b in \<open>auto simp: step_cancelled step_error work_def\<close>)
    qed
  qed
qed

text \<open>What a consumer that reads to the end receives.\<close>

function run_stream :: "map_event \<Rightarrow> StreamState \<Rightarrow> (unit, AssistantEvent list) outcome" where
  "run_stream me st =
     (case step me st of
        Ok None \<Rightarrow> Ok []
      | Ok (Some (ev, st')) \<Rightarrow> obind (run_stream me st') (\<lambda>evs. Ok (ev # evs))
      | Err e \<Rightarrow> Err e
      | Panic \<Rightarrow> Panic)"
  by pat_completeness auto
termination
  by (relation "measures [\<lambda>(me, st). work st, \<lambda>(me, st). length (ss_pending st)]")
    (auto dest: step_decreases)

declare run_stream.simps [simp del]

section \<open>What the stream delivers\<close>

text \<open>A batch of parsed events: what was mapped, and how the batch ended.\<close>

fun map_batch :: "map_event \<Rightarrow> SseEvent list \<Rightarrow> Acc \<Rightarrow>
    AssistantEvent list \<times> (ProviderError, unit) outcome \<times> Acc" where
  "map_batch me [] a = ([], Ok (), a)"
| "map_batch me (e # es) a =
     (case me e a of
        (Ok evs, a1) \<Rightarrow> (let (evs', r, a2) = map_batch me es a1 in (evs @ evs', r, a2))
      | (Err err, a1) \<Rightarrow> ([], Err err, a1)
      | (Panic, a1) \<Rightarrow> ([], Panic, a1))"

text \<open>
  The events of a whole body, batch by batch: a batch with a \<open>Done\<close> is the last one; a
  failing batch delivers its error first and what it had mapped afterwards.
\<close>

fun stream_spec :: "map_event \<Rightarrow> SseParser \<Rightarrow> Acc \<Rightarrow> body_item list \<Rightarrow>
    (unit, AssistantEvent list) outcome" where
  "stream_spec me p a (BodyCancelled # body) = Ok [StreamError ''cancelled'' True]"
| "stream_spec me p a (BodyError e # body) = Ok [StreamError e False]"
| "stream_spec me p a (BodyChunk bytes # body) =
     (let (sses, p') = feed bytes p; (evs, r, a') = map_batch me sses a in
      case r of
        Ok _ \<Rightarrow> if list_ex is_done evs then Ok evs
                else obind (stream_spec me p' a' body) (\<lambda>evs'. Ok (evs @ evs'))
      | Err err \<Rightarrow> Ok (StreamError (provider_error_display err) False # evs)
      | Panic \<Rightarrow> Panic)"
| "stream_spec me p a [] =
     (let (sses, p') = finish p; (evs, r, a') = map_batch me sses a in
      case r of
        Ok _ \<Rightarrow> if list_ex is_done evs then Ok evs
                else Ok (StreamError ''stream ended without terminal event'' False # evs)
      | Err err \<Rightarrow> Ok (StreamError (provider_error_display err) False # evs)
      | Panic \<Rightarrow> Panic)"

lemma process_map_batch:
  "map_batch me es (ss_acc st) = (evs, r, a) \<Longrightarrow>
   process_sse_events me es st =
     (case r of Ok _ \<Rightarrow> Ok (list_ex is_done evs) | Err err \<Rightarrow> Err (provider_error_display err) | Panic \<Rightarrow> Panic,
      st\<lparr>ss_acc := a, ss_pending := ss_pending st @ evs\<rparr>)"
proof (induction es arbitrary: st evs)
  case (Cons e es)
  obtain r1 a1 where m: "me e (ss_acc st) = (r1, a1)" by force
  show ?case
  proof (cases r1)
    case (Ok evs1)
    obtain evs2 where mb: "map_batch me es a1 = (evs2, r, a)" and evs: "evs = evs1 @ evs2"
      using Cons.prems m Ok by (auto split: prod.splits)
    have "process_sse_events me es (st\<lparr>ss_acc := a1, ss_pending := ss_pending st @ evs1\<rparr>) =
      (case r of Ok _ \<Rightarrow> Ok (list_ex is_done evs2) | Err err \<Rightarrow> Err (provider_error_display err) | Panic \<Rightarrow> Panic,
       st\<lparr>ss_acc := a, ss_pending := ss_pending st @ evs1 @ evs2\<rparr>)"
      using Cons.IH [of "st\<lparr>ss_acc := a1, ss_pending := ss_pending st @ evs1\<rparr>" evs2] mb by simp
    then show ?thesis using m Ok evs by (simp split: outcome.splits)
  qed (use Cons.prems m in auto)
qed auto

lemma run_unfold_pending:
  "ss_pending st = e # es \<Longrightarrow> run_stream me st = obind (run_stream me (st\<lparr>ss_pending := es\<rparr>)) (\<lambda>evs. Ok (e # evs))"
  by (subst run_stream.simps) (simp add: step_pending)

lemma run_terminated: "ss_terminated st \<Longrightarrow> run_stream me st = Ok (ss_pending st)"
proof (induction "ss_pending st" arbitrary: st)
  case Nil
  then show ?case by (subst run_stream.simps) (simp add: step_ended)
next
  case (Cons e es)
  have "run_stream me (st\<lparr>ss_pending := es\<rparr>) = Ok es"
    using Cons.hyps(1) [of "st\<lparr>ss_pending := es\<rparr>"] Cons.prems by simp
  then show ?case using run_unfold_pending [of st e es] Cons.hyps(2) by simp
qed

lemma run_pending:
  "run_stream me st = obind (run_stream me (st\<lparr>ss_pending := []\<rparr>)) (\<lambda>evs. Ok (ss_pending st @ evs))"
proof (induction "ss_pending st" arbitrary: st)
  case Nil
  then have "st\<lparr>ss_pending := []\<rparr> = st" by simp
  then have "run_stream me (st\<lparr>ss_pending := []\<rparr>) = run_stream me st" by (simp only:)
  then show ?case using Nil [symmetric] by (cases "run_stream me st") simp_all
next
  case (Cons e es)
  have "run_stream me (st\<lparr>ss_pending := es\<rparr>) =
      obind (run_stream me (st\<lparr>ss_pending := []\<rparr>)) (\<lambda>evs. Ok (es @ evs))"
    using Cons.hyps(1) [of "st\<lparr>ss_pending := es\<rparr>"] by simp
  then show ?case
    using run_unfold_pending [of st e es] Cons.hyps(2) [symmetric]
    by (cases "run_stream me (st\<lparr>ss_pending := []\<rparr>)") simp_all
qed

lemma run_step_cong: "step me st = step me st' \<Longrightarrow> run_stream me st = run_stream me st'"
  by (simp add: run_stream.simps [of me st] run_stream.simps [of me st'])

lemma run_emit:
  "step me st = Ok (Some (e, st1)) \<Longrightarrow> ss_terminated st1 \<Longrightarrow> run_stream me st = Ok (e # ss_pending st1)"
  by (simp add: run_stream.simps [of me st] run_terminated)

lemma run_stream_spec:
  "\<not> ss_terminated st \<Longrightarrow> ss_pending st = [] \<Longrightarrow>
   run_stream me st = stream_spec me (ss_parser st) (ss_acc st) (ss_body st)"
proof (induction "ss_body st" arbitrary: st)
  case Nil
  obtain sses p where f: "finish (ss_parser st) = (sses, p)" by force
  obtain evs r a where mb: "map_batch me sses (ss_acc st) = (evs, r, a)" by (metis prod_cases3)
  let ?st1 = "st\<lparr>ss_parser := p, ss_acc := a, ss_pending := evs\<rparr>"
  have "process_sse_events me sses (st\<lparr>ss_parser := p\<rparr>) =
     (case r of Ok _ \<Rightarrow> Ok (list_ex is_done evs) | Err err \<Rightarrow> Err (provider_error_display err) | Panic \<Rightarrow> Panic, ?st1)"
    using process_map_batch [of me sses "st\<lparr>ss_parser := p\<rparr>" evs r a] mb Nil.prems by simp
  note s = step_end [OF Nil.prems Nil.hyps [symmetric] f this]
  show ?case
  proof (cases r)
    case (Ok u)
    show ?thesis
    proof (cases "list_ex is_done evs")
      case True
      have "run_stream me st = run_stream me (?st1\<lparr>ss_terminated := True\<rparr>)"
        by (rule run_step_cong) (use s Ok True in simp)
      then show ?thesis using Nil.hyps f mb Ok True by (simp add: run_terminated)
    next
      case False
      then show ?thesis
        using run_emit [of me st _ "?st1\<lparr>ss_terminated := True\<rparr>"] s Nil.hyps f mb Ok by simp
    qed
  next
    case (Err e)
    then show ?thesis
      using run_emit [of me st _ "?st1\<lparr>ss_terminated := True\<rparr>"] s Nil.hyps f mb by simp
  next
    case Panic
    then show ?thesis using s Nil.hyps f mb by (simp add: run_stream.simps [of me st])
  qed
next
  case (Cons bi body)
  note b = Cons.hyps(2) [symmetric]
  show ?case
  proof (cases bi)
    case (BodyChunk bytes)
    obtain sses p where f: "feed bytes (ss_parser st) = (sses, p)" by force
    obtain evs r a where mb: "map_batch me sses (ss_acc st) = (evs, r, a)" by (metis prod_cases3)
    let ?st1 = "st\<lparr>ss_body := body, ss_parser := p, ss_acc := a, ss_pending := evs\<rparr>"
    have "process_sse_events me sses (st\<lparr>ss_body := body, ss_parser := p\<rparr>) =
       (case r of Ok _ \<Rightarrow> Ok (list_ex is_done evs) | Err err \<Rightarrow> Err (provider_error_display err) | Panic \<Rightarrow> Panic, ?st1)"
      using process_map_batch [of me sses "st\<lparr>ss_body := body, ss_parser := p\<rparr>" evs r a] mb Cons.prems by simp
    note s = step_chunk [OF Cons.prems b [unfolded BodyChunk] f this]
    show ?thesis
    proof (cases r)
      case (Ok u)
      show ?thesis
      proof (cases "list_ex is_done evs")
        case True
        have "run_stream me st = run_stream me (?st1\<lparr>ss_terminated := True\<rparr>)"
          by (rule run_step_cong) (use s Ok True in simp)
        then show ?thesis using b BodyChunk f mb Ok True by (simp add: run_terminated)
      next
        case False
        have "run_stream me st = run_stream me ?st1"
          by (rule run_step_cong) (use s Ok False in simp)
        also have "\<dots> = obind (run_stream me (?st1\<lparr>ss_pending := []\<rparr>)) (\<lambda>evs'. Ok (evs @ evs'))"
          by (subst run_pending) simp
        also have "run_stream me (?st1\<lparr>ss_pending := []\<rparr>) = stream_spec me p a body"
          using Cons.hyps(1) [of "?st1\<lparr>ss_pending := []\<rparr>"] Cons.prems by simp
        finally show ?thesis using b BodyChunk f mb Ok False by simp
      qed
    next
      case (Err e)
      then show ?thesis
        using run_emit [of me st _ "?st1\<lparr>ss_terminated := True\<rparr>"] s b BodyChunk f mb by simp
    next
      case Panic
      then show ?thesis using s b BodyChunk f mb by (simp add: run_stream.simps [of me st])
    qed
  next
    case (BodyError e)
    then show ?thesis
      using run_emit [OF step_error [OF Cons.prems b [unfolded BodyError]]] b Cons.prems by simp
  next
    case BodyCancelled
    then show ?thesis
      using run_emit [OF step_cancelled [OF Cons.prems b [unfolded BodyCancelled]]] b Cons.prems by simp
  qed
qed

lemma not_done_terminal: "list_ex is_done xs \<Longrightarrow> list_ex is_terminal xs"
  by (induction xs) (auto elim: is_done.elims)

section \<open>Where a Done comes from\<close>

lemma not_done_map_End: "\<not> list_ex is_done (map (\<lambda>tc. ToolCallEnd (f tc)) xs)"
  by (auto simp: list_ex_iff)

lemma push_args_not_done: "push_args j s a = (evs, b) \<Longrightarrow> \<not> list_ex is_done evs"
  by (auto simp: push_args_def Let_def split: if_splits)

lemma chunk_tool_call_not_done: "chunk_tool_call tc a = (Ok evs, b) \<Longrightarrow> \<not> list_ex is_done evs"
  by (auto simp: chunk_tool_call_def Let_def push_args_not_done
      split: option.splits if_splits prod.splits outcome.splits)

lemma and_then_Ok:
  "and_then f g a = (Ok evs, b) \<Longrightarrow>
   \<exists>e1 a1 e2. f a = (Ok e1, a1) \<and> g a1 = (Ok e2, b) \<and> evs = e1 @ e2"
  by (auto simp: and_then_def split: prod.splits outcome.splits)

lemma chunk_tool_calls_not_done: "chunk_tool_calls tcs a = (Ok evs, b) \<Longrightarrow> \<not> list_ex is_done evs"
  by (induction tcs arbitrary: a evs) (auto dest!: and_then_Ok chunk_tool_call_not_done)

lemma chunk_choice_not_done: "chunk_choice c a = (Ok evs, b) \<Longrightarrow> \<not> list_ex is_done evs"
  unfolding chunk_choice_def Let_def
  by (auto dest!: and_then_Ok chunk_tool_calls_not_done
      simp: chunk_text_def chunk_thinking_def chunk_finish_def Let_def not_done_map_End
      split: option.splits if_splits outcome.splits)

lemma openai_chunk_not_done: "openai_map_chunk parse d a = (Ok evs, b) \<Longrightarrow> \<not> list_ex is_done evs"
  unfolding openai_map_chunk_def
  by (auto dest!: and_then_Ok chunk_choice_not_done simp: chunk_usage_def
      split: sum.splits option.splits if_splits)

lemma openai_done:
  "openai_map_event parse e a = (Ok evs, b) \<Longrightarrow> list_ex is_done evs \<Longrightarrow> evs = [Done (build_message a)]"
  by (cases e) (auto dest: openai_chunk_not_done)

lemma noted_not_done: "\<not> list_ex is_done es \<Longrightarrow> noted es a r = (Ok evs, b) \<Longrightarrow> \<not> list_ex is_done evs"
  by (auto simp: noted_Ok)

lemma dispatch_done:
  "dispatch parse ty d a = (Ok evs, b) \<Longrightarrow> list_ex is_done evs \<Longrightarrow> evs = [Done (build_message a)]"
  by (auto simp: dispatch_def handle_block_start_def start_block_def handle_block_delta_def text_delta_def
      thinking_delta_def input_json_delta_def handle_block_stop_def message_start_def message_delta_def
      noted_Ok Let_def
      split: sum.splits option.splits if_splits SegmentKind.splits prod.splits)

lemma anthropic_done:
  "anthropic_map_event parse e a = (Ok evs, b) \<Longrightarrow> list_ex is_done evs \<Longrightarrow> evs = [Done (build_message a)]"
  by (cases e) (auto dest: dispatch_done split: sum.splits)

section \<open>The mapper's contract\<close>

text \<open>
  What the stream relies on of an adapter: an invariant between the accumulator and the
  events delivered so far, no panic on tame events, and a \<open>Done\<close> that is alone in its
  batch and carries the message built from the accumulator.
\<close>

locale stream_mapper =
  fixes me :: map_event and tame :: "SseEvent \<Rightarrow> bool"
    and sync :: "Acc \<Rightarrow> AssistantEvent list \<Rightarrow> bool"
  assumes keeps_sync: "tame e \<Longrightarrow> keeps sync (me e)"
    and sync_new: "sync (acc_new m) []"
    and done_built: "me e a = (Ok evs, b) \<Longrightarrow> list_ex is_done evs \<Longrightarrow> evs = [Done (build_message a)]"
begin

lemma map_batch_sync:
  assumes "\<forall>e. tame e" and "sync a evs0" and "map_batch me es a = (evs, r, b)"
  shows "r \<noteq> Panic \<and> (r = Ok () \<longrightarrow> sync b (evs0 @ evs)) \<and>
    (\<forall>xs m ys. evs = xs @ Done m # ys \<longrightarrow> \<not> list_ex is_done xs \<longrightarrow>
       (\<exists>a'. sync a' (evs0 @ xs) \<and> m = build_message a'))"
  using assms(2,3)
proof (induction es arbitrary: a evs0 evs)
  case (Cons e es)
  have k: "keeps sync (me e)" using keeps_sync assms(1) by blast
  obtain r1 a1 where m: "me e a = (r1, a1)" by force
  show ?case
  proof (cases r1)
    case (Ok evs1)
    obtain evs2 where mb: "map_batch me es a1 = (evs2, r, b)" and evs: "evs = evs1 @ evs2"
      using Cons.prems m Ok by (auto split: prod.splits)
    have s1: "sync a1 (evs0 @ evs1)" using keepsD [OF k Cons.prems(1)] m Ok by blast
    note ih = Cons.IH [OF s1 mb]
    have "\<exists>a'. sync a' (evs0 @ xs) \<and> msg = build_message a'"
      if d: "evs = xs @ Done msg # ys" "\<not> list_ex is_done xs" for xs msg ys
    proof (cases "list_ex is_done evs1")
      case True
      then have "evs1 = [Done (build_message a)]" using done_built m Ok by blast
      then have "xs = [] \<and> msg = build_message a" using d evs by (cases xs) auto
      then show ?thesis using Cons.prems(1) by auto
    next
      case False
      have "Done msg \<notin> set evs1" using False by (auto simp: list_ex_iff)
      then obtain zs where "xs = evs1 @ zs" "evs2 = zs @ Done msg # ys"
        using d(1) evs by (auto simp: append_eq_append_conv2 Cons_eq_append_conv append_eq_Cons_conv)
      then show ?thesis using ih d(2) by auto
    qed
    then show ?thesis using ih evs by auto
  next
    case (Err err)
    then show ?thesis using Cons.prems m by auto
  next
    case Panic
    then show ?thesis using keeps_no_panic [OF k Cons.prems(1)] m by auto
  qed
qed auto

lemma stream_spec_done:
  assumes "\<forall>e. tame e" and "sync a evs0" and "stream_spec me p a body = Ok (xs @ Done m # ys)"
    and "\<not> list_ex is_terminal xs"
  shows "\<exists>a'. sync a' (evs0 @ xs) \<and> m = build_message a'"
  using assms(2-)
proof (induction body arbitrary: p a evs0 xs)
  case Nil
  obtain sses p' where f: "finish p = (sses, p')" by force
  obtain evs r b where mb: "map_batch me sses a = (evs, r, b)" by (metis prod_cases3)
  note s = map_batch_sync [OF assms(1) Nil.prems(1) mb]
  have "evs = xs @ Done m # ys"
    using Nil.prems f mb by (cases xs) (auto split: outcome.splits if_splits)
  moreover have "\<not> list_ex is_done xs" using Nil.prems(3) not_done_terminal by blast
  ultimately show ?case using s by blast
next
  case (Cons bi body)
  show ?case
  proof (cases bi)
    case (BodyChunk bytes)
    obtain sses p' where f: "feed bytes p = (sses, p')" by force
    obtain evs r b where mb: "map_batch me sses a = (evs, r, b)" by (metis prod_cases3)
    note s = map_batch_sync [OF assms(1) Cons.prems(1) mb]
    have nd: "\<not> list_ex is_done xs" using Cons.prems(3) not_done_terminal by blast
    show ?thesis
    proof (cases "r = Ok () \<and> \<not> list_ex is_done evs")
      case True
      then obtain evs' where sp: "stream_spec me p' b body = Ok evs'" and e: "evs @ evs' = xs @ Done m # ys"
        using Cons.prems(2) BodyChunk f mb by auto
      have "Done m \<notin> set evs" using True by (auto simp: list_ex_iff)
      with e obtain zs where zs: "xs = evs @ zs" "evs' = zs @ Done m # ys"
        by (auto simp: append_eq_append_conv2 Cons_eq_append_conv append_eq_Cons_conv)
      have "\<not> list_ex is_terminal zs" using Cons.prems(3) zs by simp
      then show ?thesis using Cons.IH [of b "evs0 @ evs" p' zs] s True sp zs by auto
    next
      case False
      then have "evs = xs @ Done m # ys"
        using Cons.prems(2,3) BodyChunk f mb by (cases xs) (auto split: outcome.splits if_splits)
      then show ?thesis using s nd by blast
    qed
  next
    case (BodyError e)
    then show ?thesis using Cons.prems by (cases xs) auto
  next
    case BodyCancelled
    then show ?thesis using Cons.prems by (cases xs) auto
  qed
qed

lemma stream_spec_no_panic:
  "\<forall>e. tame e \<Longrightarrow> sync a evs0 \<Longrightarrow> \<exists>evs. stream_spec me p a body = Ok evs \<and> list_ex is_terminal evs"
proof (induction body arbitrary: p a evs0)
  case Nil
  obtain sses p' where f: "finish p = (sses, p')" by force
  obtain evs r b where mb: "map_batch me sses a = (evs, r, b)" by (metis prod_cases3)
  show ?case
    using map_batch_sync [OF Nil.prems mb] f mb not_done_terminal [of evs] by (auto split: outcome.splits)
next
  case (Cons bi body)
  show ?case
  proof (cases bi)
    case (BodyChunk bytes)
    obtain sses p' where f: "feed bytes p = (sses, p')" by force
    obtain evs r b where mb: "map_batch me sses a = (evs, r, b)" by (metis prod_cases3)
    note s = map_batch_sync [OF Cons.prems mb]
    show ?thesis
    proof (cases r)
      case (Ok u)
      then have "sync b (evs0 @ evs)" using s by simp
      from Cons.IH [OF Cons.prems(1) this, of p'] show ?thesis
        using BodyChunk f mb Ok not_done_terminal [of evs] by auto
    qed (use s BodyChunk f mb in auto)
  qed auto
qed

end

interpretation openai: stream_mapper "openai_map_event parse" "openai_tame parse" openai_sync
  for parse
proof (unfold_locales, goal_cases)
  case (1 e)
  then show ?case by (rule keeps_openai)
next
  case (2 m)
  show ?case by (rule openai_sync_new)
next
  case (3 e a evs b)
  then show ?case using openai_done [of parse e a evs b] by blast
qed

interpretation anthropic: stream_mapper "anthropic_map_event parse" "anthropic_tame parse" anthropic_sync
  for parse
proof (unfold_locales, goal_cases)
  case (1 e)
  then show ?case by (rule keeps_anthropic)
next
  case (2 m)
  show ?case by (rule anthropic_sync_new)
next
  case (3 e a evs b)
  then show ?case using anthropic_done [of parse e a evs b] by blast
qed

lemma run_build_stream:
  "run_stream me (build_stream body model) = stream_spec me parser_new (acc_new model) body"
  using run_stream_spec [of "build_stream body model" me] by (simp add: build_stream_def)

lemma feed_block:
  "block_ok b \<Longrightarrow> feed (print_lines (fst b) (snd b)) parser_new = ([event_of (fst b) (snd b)], parser_new)"
  using drain_blocks [of "[b]" parser_new] by (simp add: feed_def parser_new_def)

lemma feed_done: "feed (''data: [DONE]'' @ [lf, lf]) parser_new = ([SseDone], parser_new)"
  using feed_block [of "(None, [''[DONE]''])"]
  by (simp add: block_ok_def line_ok_def utf8_valid.simps byte_def lf_def carriage_def print_lines_def event_of_def)

section \<open>Properties\<close>

text \<open>
  C12: the pull-based stream delivers exactly the batches of its body.  Reading the stream
  event by event to its end, with its queue of pending events and its early exits, is the
  batch-by-batch specification \<open>stream_spec\<close>.
\<close>

theorem stream_delivers:
  "run_stream me (build_stream body model) = stream_spec me parser_new (acc_new model) body"
  by (rule run_build_stream)

text \<open>
  every stream ends, with a terminal event.  For both adapters and every body (any
  chunks, a transport error, a cancellation, or a body that just ends), as long as the
  provider's indices fit a vector, reading to the end does not panic and yields at least
  one \<open>Done\<close> or \<open>Error\<close>.
\<close>

theorem stream_terminal:
  assumes "\<forall>e. openai_tame parse e" and "\<forall>e. anthropic_tame parse e"
  shows "(\<exists>evs. run_stream (openai_map_event parse) (build_stream body model) = Ok evs \<and> list_ex is_terminal evs) \<and>
         (\<exists>evs. run_stream (anthropic_map_event parse) (build_stream body model) = Ok evs \<and> list_ex is_terminal evs)"
  using openai.stream_spec_no_panic [OF assms(1) openai.sync_new]
    anthropic.stream_spec_no_panic [OF assms(2) anthropic.sync_new]
  by (simp only: run_build_stream simp_thms)

theorem stream_terminal_witness:
  "\<exists>evs. run_stream (openai_map_event (\<lambda>_. Inl ''e'')) (build_stream [BodyChunk ''x''] ''m'') = Ok evs \<and>
     list_ex is_terminal evs"
  using stream_terminal [of "\<lambda>_. Inl ''e''" "[BodyChunk ''x'']" "''m''"]
  by (simp add: openai_tame_def anthropic_tame_def split: SseEvent.splits)

text \<open>
  the final message of an OpenAI stream is what was streamed.  The \<open>Done\<close> that ends the
  stream carries a message whose text and thinking are the concatenated deltas delivered
  before it, whose tool calls are the started ones in order, and, when the call ids are
  distinct, whose arguments are the concatenated argument deltas of that id.
\<close>

theorem openai_stream_message:
  assumes "\<forall>e. openai_tame parse e"
    and "run_stream (openai_map_event parse) (build_stream body model) = Ok (xs @ Done m # ys)"
    and "\<not> list_ex is_terminal xs"
  shows "message_text m = streamed_text xs \<and> message_thinking m = streamed_thinking xs \<and>
    map (\<lambda>tc. (tc_id tc, tc_name tc)) (message_calls m) = streamed_calls xs \<and>
    (distinct (map tc_id (message_calls m)) \<longrightarrow>
      (\<forall>tc \<in> set (message_calls m). tc_arguments tc = streamed_args (tc_id tc) xs))"
proof -
  have "stream_spec (openai_map_event parse) parser_new (acc_new model) body = Ok (xs @ Done m # ys)"
    using assms(2) by (simp add: run_build_stream)
  from openai.stream_spec_done [OF assms(1) openai.sync_new this assms(3)]
  obtain a where a: "openai_sync a xs" "m = build_message a" by auto
  then have "acc_inv a" "agrees a xs" by (auto simp: openai_inv_def)
  then show ?thesis
    using a(2) agrees_calls_message [of a xs m] build_message_spec [of a] by (simp add: agrees_def)
qed

theorem openai_stream_message_witness:
  "run_stream (openai_map_event (\<lambda>_. Inl ''e'')) (build_stream [BodyChunk (''data: [DONE]'' @ [lf, lf])] ''m'') =
     Ok [Done (build_message (acc_new ''m''))] \<and>
   message_text (build_message (acc_new ''m'')) = []"
proof -
  have r: "run_stream (openai_map_event (\<lambda>_. Inl ''e''))
      (build_stream [BodyChunk (''data: [DONE]'' @ [lf, lf])] ''m'') =
      Ok ([] @ Done (build_message (acc_new ''m'')) # [])"
    by (simp add: run_build_stream feed_done [simplified])
  have "\<forall>e. openai_tame (\<lambda>_. Inl ''e'') e" by (simp add: openai_tame_def split: SseEvent.splits)
  from openai_stream_message [OF this r] show ?thesis using r by simp
qed

text \<open>
  the tool calls of an Anthropic stream.  The message of its \<open>Done\<close> has the started
  calls in order and, when their ids are distinct, the concatenated argument deltas.
\<close>

theorem anthropic_stream_calls:
  assumes "\<forall>e. anthropic_tame parse e"
    and "run_stream (anthropic_map_event parse) (build_stream body model) = Ok (xs @ Done m # ys)"
    and "\<not> list_ex is_terminal xs"
  shows "map (\<lambda>tc. (tc_id tc, tc_name tc)) (message_calls m) = streamed_calls xs \<and>
    (distinct (map tc_id (message_calls m)) \<longrightarrow>
      (\<forall>tc \<in> set (message_calls m). tc_arguments tc = streamed_args (tc_id tc) xs))"
proof -
  have "stream_spec (anthropic_map_event parse) parser_new (acc_new model) body = Ok (xs @ Done m # ys)"
    using assms(2) by (simp add: run_build_stream)
  from anthropic.stream_spec_done [OF assms(1) anthropic.sync_new this assms(3)]
  obtain a where "anthropic_sync a xs" "m = build_message a" by auto
  then show ?thesis using agrees_calls_message [of a xs m] by blast
qed

theorem anthropic_stream_calls_witness:
  "run_stream (anthropic_map_event (\<lambda>_. Inl ''e'')) (build_stream [BodyChunk (''data: [DONE]'' @ [lf, lf])] ''m'') =
     Ok [Done (build_message (acc_new ''m''))] \<and>
   map (\<lambda>tc. (tc_id tc, tc_name tc)) (message_calls (build_message (acc_new ''m''))) = []"
proof -
  have r: "run_stream (anthropic_map_event (\<lambda>_. Inl ''e''))
      (build_stream [BodyChunk (''data: [DONE]'' @ [lf, lf])] ''m'') =
      Ok ([] @ Done (build_message (acc_new ''m'')) # [])"
    by (simp add: run_build_stream feed_done [simplified])
  have "\<forall>e. anthropic_tame (\<lambda>_. Inl ''e'') e" by (simp add: anthropic_tame_def split: SseEvent.splits)
  from anthropic_stream_calls [OF this r] show ?thesis using r by simp
qed

text \<open>
  an error overtakes the events mapped before it.  When an event of a chunk fails to
  map, the stream delivers the \<open>Error\<close> first and only then the events of the same chunk
  that were mapped successfully, so a consumer that stops at the error never sees them.
\<close>

theorem stream_error_overtakes:
  assumes "map_batch me (fst (feed bytes parser_new)) (acc_new model) = (evs, Err err, a)"
  shows "run_stream me (build_stream (BodyChunk bytes # body) model) =
    Ok (StreamError (provider_error_display err) False # evs)"
  using assms by (cases "feed bytes parser_new") (simp add: run_build_stream)

theorem stream_error_overtakes_witness:
  "run_stream (\<lambda>e a. if e = SseDone then (Err (PeParse ''bad''), a) else (Ok [TextDelta ''t''], a))
     (build_stream [BodyChunk (''data: t'' @ [lf, lf] @ ''data: [DONE]'' @ [lf, lf])] ''m'') =
   Ok [StreamError ''Parse error: bad'' False, TextDelta ''t'']"
proof -
  have "feed (''data: t'' @ [lf, lf] @ ''data: [DONE]'' @ [lf, lf]) parser_new =
      ([SseData ''t'', SseDone], parser_new)"
    using drain_blocks [of "[(None, [''t'']), (None, [''[DONE]''])]" parser_new]
    by (simp add: feed_def parser_new_def block_ok_def line_ok_def utf8_valid.simps byte_def lf_def
        carriage_def print_lines_def event_of_def)
  then have "map_batch (\<lambda>e a. if e = SseDone then (Err (PeParse ''bad''), a) else (Ok [TextDelta ''t''], a))
      (fst (feed (''data: t'' @ [lf, lf] @ ''data: [DONE]'' @ [lf, lf]) parser_new)) (acc_new ''m'') =
      ([TextDelta ''t''], Err (PeParse ''bad''), acc_new ''m'')" by simp
  from stream_error_overtakes [OF this] show ?thesis by simp
qed

end
