(* ===== verification/BTree_Map.thy ===== *)
theory BTree_Map
  imports Prelude
begin

text \<open>
  The ordered maps of the source (\<open>BTreeMap\<close>): iteration is in ascending key order, so a
  map is the list of its entries, strictly ascending in the keys.  The interface locale
  states what the session reducer relies on; it is interpreted on the list operations.
\<close>

type_synonym ('k, 'v) btree = "('k \<times> 'v) list"

definition bt_inv :: "('k :: linorder, 'v) btree \<Rightarrow> bool" where
  "bt_inv m = sorted_wrt (<) (map fst m)"

definition bt_get :: "('k, 'v) btree \<Rightarrow> 'k \<Rightarrow> 'v option" where
  "bt_get m = map_of m"

fun bt_insert :: "'k :: linorder \<Rightarrow> 'v \<Rightarrow> ('k, 'v) btree \<Rightarrow> ('k, 'v) btree" where
  "bt_insert k v [] = [(k, v)]"
| "bt_insert k v ((k', v') # m) =
     (if k < k' then (k, v) # (k', v') # m
      else if k = k' then (k, v) # m
      else (k', v') # bt_insert k v m)"

text \<open>\<open>if let Some(v) = m.get_mut(&k) { f(v) }\<close>\<close>

definition bt_modify :: "'k \<Rightarrow> ('v \<Rightarrow> 'v) \<Rightarrow> ('k, 'v) btree \<Rightarrow> ('k, 'v) btree" where
  "bt_modify k f m = map (\<lambda>(k', v). (k', if k' = k then f v else v)) m"

section \<open>The interface\<close>

locale ordered_map =
  fixes empty :: 'm
    and insert :: "'k :: linorder \<Rightarrow> 'v \<Rightarrow> 'm \<Rightarrow> 'm"
    and modify :: "'k \<Rightarrow> ('v \<Rightarrow> 'v) \<Rightarrow> 'm \<Rightarrow> 'm"
    and lookup :: "'m \<Rightarrow> 'k \<Rightarrow> 'v option"
    and keys :: "'m \<Rightarrow> 'k list"
    and inv :: "'m \<Rightarrow> bool"
  assumes inv_empty: "inv empty"
    and inv_insert: "inv m \<Longrightarrow> inv (insert k v m)"
    and inv_modify: "inv m \<Longrightarrow> inv (modify k f m)"
    and lookup_empty: "lookup empty = (\<lambda>_. None)"
    and lookup_insert: "inv m \<Longrightarrow> lookup (insert k v m) = (lookup m)(k \<mapsto> v)"
    and lookup_modify:
      "inv m \<Longrightarrow> lookup (modify k f m) = (lookup m)(k := map_option f (lookup m k))"
    and keys_sorted: "inv m \<Longrightarrow> sorted_wrt (<) (keys m)"
    and keys_dom: "inv m \<Longrightarrow> set (keys m) = dom (lookup m)"
    and extensional: "inv m \<Longrightarrow> inv m' \<Longrightarrow> lookup m = lookup m' \<Longrightarrow> m = m'"
begin

definition insert_all :: "('k \<times> 'v) list \<Rightarrow> 'm \<Rightarrow> 'm" where
  "insert_all kvs m = fold (\<lambda>(k, v). insert k v) kvs m"

lemma inv_insert_all: "inv m \<Longrightarrow> inv (insert_all kvs m)"
  unfolding insert_all_def by (induction kvs arbitrary: m) (auto simp: inv_insert)

lemma lookup_insert_all:
  "inv m \<Longrightarrow> distinct (map fst kvs) \<Longrightarrow> lookup (insert_all kvs m) = lookup m ++ map_of kvs"
proof (induction kvs arbitrary: m)
  case (Cons kv kvs)
  obtain k v where kv: "kv = (k, v)" by force
  have "map_of kvs k = None" using Cons.prems(2) by (simp add: kv map_of_eq_None_iff)
  with Cons show ?case
    by (auto simp: insert_all_def kv inv_insert lookup_insert map_add_def fun_eq_iff
        split: option.splits)
qed (simp add: insert_all_def)

text \<open>Insertion order does not matter when the keys are distinct.\<close>

lemma insert_all_perm:
  assumes "inv m" and "distinct (map fst kvs)" and "mset kvs = mset kvs'"
  shows "insert_all kvs m = insert_all kvs' m"
proof (rule extensional)
  have d': "distinct (map fst kvs')"
    using assms(2,3) by (metis mset_map mset_eq_imp_distinct_iff)
  have "set kvs = set kvs'" using assms(3) by (rule mset_eq_setD)
  then have "map_of kvs = map_of kvs'" using assms(2) d' by (simp add: map_of_inject_set)
  then show "lookup (insert_all kvs m) = lookup (insert_all kvs' m)"
    using assms d' by (simp add: lookup_insert_all)
qed (use assms in \<open>simp_all add: inv_insert_all\<close>)

lemma modify_other: "inv m \<Longrightarrow> lookup m k = None \<Longrightarrow> modify k f m = m"
  by (rule extensional) (auto simp: inv_modify lookup_modify)

end

section \<open>The list implementation\<close>

lemma set_bt_insert: "fst ` set (bt_insert k v m) = Set.insert k (fst ` set m)"
  by (induction k v m rule: bt_insert.induct) auto

lemma bt_inv_insert: "bt_inv m \<Longrightarrow> bt_inv (bt_insert k v m)"
proof (induction k v m rule: bt_insert.induct)
  case (2 k v k' v' m)
  then show ?case
    using set_bt_insert [of k v m] by (fastforce simp: bt_inv_def)
qed (simp add: bt_inv_def)

lemma bt_get_insert: "bt_inv m \<Longrightarrow> bt_get (bt_insert k v m) = (bt_get m)(k \<mapsto> v)"
  by (induction k v m rule: bt_insert.induct) (auto simp: bt_get_def bt_inv_def fun_eq_iff)

lemma bt_get_modify: "bt_get (bt_modify k f m) = (bt_get m)(k := map_option f (bt_get m k))"
  by (induction m) (auto simp: bt_get_def bt_modify_def fun_eq_iff)

lemma bt_keys_modify [simp]: "map fst (bt_modify k f m) = map fst m"
  by (induction m) (auto simp: bt_modify_def)

lemma bt_extensional:
  "bt_inv m \<Longrightarrow> bt_inv m' \<Longrightarrow> bt_get m = bt_get m' \<Longrightarrow> m = m'"
proof -
  assume inv: "bt_inv m" "bt_inv m'" and eq: "bt_get m = bt_get m'"
  have d: "distinct (map fst m)" "distinct (map fst m')"
    using inv by (auto simp: bt_inv_def strict_sorted_iff)
  then have s: "set m = set m'"
    using eq by (simp add: bt_get_def map_of_inject_set)
  then show "m = m'"
    using inv d
    by (intro map_sorted_distinct_set_unique [of fst])
      (auto simp: bt_inv_def strict_sorted_iff distinct_map)
qed

interpretation bt: ordered_map "[]" bt_insert bt_modify bt_get "map fst" bt_inv
proof (unfold_locales, goal_cases)
  case 1 show ?case by (simp add: bt_inv_def)
next
  case 2 then show ?case by (rule bt_inv_insert)
next
  case 3 then show ?case by (simp add: bt_inv_def)
next
  case 4 show ?case by (simp add: bt_get_def fun_eq_iff)
next
  case 5 then show ?case by (rule bt_get_insert)
next
  case 6 show ?case by (rule bt_get_modify)
next
  case 7 then show ?case by (simp add: bt_inv_def)
next
  case 8 show ?case by (simp add: bt_get_def dom_map_of_conv_image_fst)
next
  case 9 then show ?case by (rule bt_extensional)
qed

lemma bt_get_in_set: "bt_inv m \<Longrightarrow> bt_get m k = Some v \<longleftrightarrow> (k, v) \<in> set m"
  by (simp add: bt_get_def bt_inv_def strict_sorted_iff)

end
