(* ===== verification/Session.thy ===== *)
theory Session
  imports BTree_Map Message
begin

text \<open>
  The session tree of \<open>core/session.rs\<close>: replaying a log of entries into a tree
  (\<open>reduce\<close>), its structural checks, and the queries \<open>leaves\<close> and \<open>path_to\<close>.
\<close>

section \<open>Definitions\<close>

type_synonym NodeId = u64
type_synonym LaneId = string

record SessionNode =
  sn_id :: NodeId
  sn_parent_id :: "NodeId option"
  sn_message :: Message
  sn_children :: "NodeId list"

type_synonym nodes = "(NodeId, SessionNode) btree"

record SessionTree =
  st_session_id :: string
  st_root :: "NodeId option"
  st_nodes :: nodes

record SessionEntry =
  se_id :: NodeId
  se_parent_id :: "NodeId option"
  se_message :: Message

datatype SessionError =
    SeIo string
  | SeSerde string
  | SeDuplicateNode NodeId
  | SeParentNotFound NodeId
  | SeMultipleRoots
  | SeCycle
  | SeIdExhausted
  | SeFileLock string

definition leaves :: "SessionTree \<Rightarrow> NodeId list" where
  "leaves t = map sn_id (filter (\<lambda>n. sn_children n = []) (map snd (st_nodes t)))"

text \<open>
  The parent walk of \<open>path_to\<close>.  On a map with a parent cycle it does not end, so not
  returning is the outer \<open>None\<close>; a missing node is the inner one.
\<close>

partial_function (option) path_loop ::
    "nodes \<Rightarrow> NodeId option \<Rightarrow> Message list \<Rightarrow> Message list option option" where
  "path_loop nodes cursor path =
     (case cursor of
        None \<Rightarrow> Some (Some (rev path))
      | Some i \<Rightarrow>
          (case bt_get nodes i of
             None \<Rightarrow> Some None
           | Some node \<Rightarrow> path_loop nodes (sn_parent_id node) (path @ [sn_message node])))"

definition path_to :: "SessionTree \<Rightarrow> NodeId \<Rightarrow> Message list option option" where
  "path_to t leaf =
     (case bt_get (st_nodes t) leaf of
        None \<Rightarrow> Some None
      | Some node \<Rightarrow>
          if sn_children node \<noteq> [] then Some None
          else path_loop (st_nodes t) (Some leaf) [])"

text \<open>The first loop of \<open>reduce_for\<close>: unique ids, at most one root.\<close>

definition entry_node :: "SessionEntry \<Rightarrow> SessionNode" where
  "entry_node e =
     \<lparr>sn_id = se_id e, sn_parent_id = se_parent_id e, sn_message = se_message e, sn_children = []\<rparr>"

fun reduce_scan ::
    "SessionEntry list \<Rightarrow> nodes \<Rightarrow> NodeId option \<Rightarrow> SessionError + nodes \<times> NodeId option" where
  "reduce_scan [] nodes root = Inr (nodes, root)"
| "reduce_scan (e # es) nodes root =
     (if bt_get nodes (se_id e) \<noteq> None then Inl (SeDuplicateNode (se_id e))
      else if se_parent_id e = None \<and> root \<noteq> None then Inl SeMultipleRoots
      else reduce_scan es (bt_insert (se_id e) (entry_node e) nodes)
             (if se_parent_id e = None then Some (se_id e) else root))"

definition missing_parent :: "nodes \<Rightarrow> SessionNode \<Rightarrow> NodeId option" where
  "missing_parent nodes n =
     (case sn_parent_id n of
        None \<Rightarrow> None
      | Some p \<Rightarrow> if bt_get nodes p = None then Some p else None)"

text \<open>
  The inner loop of \<open>check_acyclic\<close>: follow the parents from the cursor, colouring
  unvisited nodes 1 (in progress) and recording them in \<open>path\<close>; colour 1 again is a cycle,
  colour 2 is a node already known to be good.  \<open>nodes[&id]\<close> panics on a missing id.
\<close>

function (sequential) walk ::
    "nodes \<Rightarrow> (NodeId \<Rightarrow> nat) \<Rightarrow> NodeId list \<Rightarrow> NodeId option \<Rightarrow>
     (SessionError, (NodeId \<Rightarrow> nat) \<times> NodeId list) outcome" where
  "walk nodes st path None = Ok (st, path)"
| "walk nodes st path (Some i) =
     (if st i = 1 then Err SeCycle
      else if st i = 2 then Ok (st, path)
      else case bt_get nodes i of
             None \<Rightarrow> Panic
           | Some node \<Rightarrow> walk nodes (st(i := 1)) (path @ [i]) (sn_parent_id node))"
  by pat_completeness auto
termination
proof (relation "measure (\<lambda>(nodes, st, path, c). card {k \<in> fst ` set nodes. st k \<noteq> 1 \<and> st k \<noteq> 2})")
  fix nodes :: nodes and st :: "NodeId \<Rightarrow> nat" and path i node
  assume st: "st i \<noteq> 1" "st i \<noteq> 2" and node: "bt_get nodes i = Some node"
  have "i \<in> fst ` set nodes" using node by (force simp: bt_get_def dest: map_of_SomeD)
  then have "{k \<in> fst ` set nodes. (st(i := 1)) k \<noteq> 1 \<and> (st(i := 1)) k \<noteq> 2}
      \<subset> {k \<in> fst ` set nodes. st k \<noteq> 1 \<and> st k \<noteq> 2}"
    using st by auto
  then show "((nodes, st(i := 1), path @ [i], sn_parent_id node), (nodes, st, path, Some i))
      \<in> measure (\<lambda>(nodes, st, path, c). card {k \<in> fst ` set nodes. st k \<noteq> 1 \<and> st k \<noteq> 2})"
    by (simp add: psubset_card_mono)
qed simp

text \<open>The outer loop: one walk per key in order, then the path is coloured 2 (verified).\<close>

fun acyclic_scan ::
    "nodes \<Rightarrow> (NodeId \<Rightarrow> nat) \<Rightarrow> NodeId list \<Rightarrow> (SessionError, unit) outcome" where
  "acyclic_scan nodes st [] = Ok ()"
| "acyclic_scan nodes st (start # rest) =
     (if st start = 2 then acyclic_scan nodes st rest
      else obind (walk nodes st [] (Some start))
             (\<lambda>(st', path). acyclic_scan nodes (\<lambda>i. if i \<in> set path then 2 else st' i) rest))"

definition check_acyclic :: "nodes \<Rightarrow> (SessionError, unit) outcome" where
  "check_acyclic nodes = acyclic_scan nodes (\<lambda>_. 0) (map fst nodes)"

definition edges :: "nodes \<Rightarrow> (NodeId \<times> NodeId) list" where
  "edges nodes =
     List.map_filter (\<lambda>n. map_option (\<lambda>p. (p, sn_id n)) (sn_parent_id n)) (map snd nodes)"

definition push_child :: "NodeId \<times> NodeId \<Rightarrow> nodes \<Rightarrow> nodes" where
  "push_child pc nodes =
     bt_modify (fst pc) (\<lambda>n. n\<lparr>sn_children := sn_children n @ [snd pc]\<rparr>) nodes"

definition reduce_for ::
    "SessionEntry list \<Rightarrow> string \<Rightarrow> (SessionError, SessionTree) outcome" where
  "reduce_for entries session_id =
     (case reduce_scan entries [] None of
        Inl e \<Rightarrow> Err e
      | Inr (nodes, root) \<Rightarrow>
          (case find_map (missing_parent nodes) (map snd nodes) of
             Some p \<Rightarrow> Err (SeParentNotFound p)
           | None \<Rightarrow>
               obind (check_acyclic nodes)
                 (\<lambda>_. Ok \<lparr>st_session_id = session_id, st_root = root,
                          st_nodes = fold push_child (edges nodes) nodes\<rparr>)))"

definition reduce :: "SessionEntry list \<Rightarrow> (SessionError, SessionTree) outcome" where
  "reduce entries = reduce_for entries []"

section \<open>Ancestors\<close>

definition parent_of :: "nodes \<Rightarrow> NodeId \<Rightarrow> NodeId option" where
  "parent_of nodes i = Option.bind (bt_get nodes i) sn_parent_id"

text \<open>The \<open>n\<close>-th ancestor; \<open>None\<close> past the root.\<close>

fun ancestor :: "nodes \<Rightarrow> nat \<Rightarrow> NodeId \<Rightarrow> NodeId option" where
  "ancestor nodes 0 i = Some i"
| "ancestor nodes (Suc n) i = Option.bind (parent_of nodes i) (ancestor nodes n)"

definition rooted :: "nodes \<Rightarrow> NodeId \<Rightarrow> bool" where
  "rooted nodes i = (\<exists>n. ancestor nodes n i = None)"

definition closed :: "nodes \<Rightarrow> bool" where
  "closed nodes = (\<forall>n \<in> snd ` set nodes. missing_parent nodes n = None)"

text \<open>Consecutive elements are child and parent, and \<open>c\<close> is the parent of the last one.\<close>

fun linked :: "nodes \<Rightarrow> NodeId list \<Rightarrow> NodeId option \<Rightarrow> bool" where
  "linked nodes [] c = True"
| "linked nodes [x] c = (parent_of nodes x = c)"
| "linked nodes (x # y # ys) c = (parent_of nodes x = Some y \<and> linked nodes (y # ys) c)"

definition roots :: "SessionEntry list \<Rightarrow> SessionEntry list" where
  "roots es = filter (\<lambda>e. se_parent_id e = None) es"

definition entry_map :: "SessionEntry list \<Rightarrow> nodes" where
  "entry_map es = bt.insert_all (map (\<lambda>e. (se_id e, entry_node e)) es) []"

text \<open>An entry whose chain of parents ends in a root entry.\<close>

inductive reaches_root :: "SessionEntry list \<Rightarrow> NodeId \<Rightarrow> bool" for es where
  root: "e \<in> set es \<Longrightarrow> se_parent_id e = None \<Longrightarrow> reaches_root es (se_id e)"
| step: "e \<in> set es \<Longrightarrow> se_parent_id e = Some p \<Longrightarrow> reaches_root es p \<Longrightarrow> reaches_root es (se_id e)"

definition parents_exist :: "SessionEntry list \<Rightarrow> bool" where
  "parents_exist es =
     (\<forall>e \<in> set es. case se_parent_id e of None \<Rightarrow> True | Some p \<Rightarrow> p \<in> se_id ` set es)"

definition well_formed_log :: "SessionEntry list \<Rightarrow> bool" where
  "well_formed_log es =
     (distinct (map se_id es) \<and> length (roots es) \<le> 1 \<and> parents_exist es \<and>
      (\<forall>e \<in> set es. reaches_root es (se_id e)))"

definition child_ids :: "SessionEntry list \<Rightarrow> NodeId \<Rightarrow> NodeId list" where
  "child_ids es i = sorted_list_of_set (se_id ` {e \<in> set es. se_parent_id e = Some i})"

text \<open>
  What a single append-only writer produces: ascending ids, the root first, and every
  other parent already in the log.
\<close>

definition append_log :: "SessionEntry list \<Rightarrow> bool" where
  "append_log es =
     (sorted_wrt (<) (map se_id es) \<and>
      (\<forall>k < length es. case se_parent_id (es ! k) of
           None \<Rightarrow> k = 0
         | Some p \<Rightarrow> p \<in> se_id ` set (take k es)))"

text \<open>A chain of entries from a root to \<open>i\<close>.\<close>

fun chain_to :: "NodeId option \<Rightarrow> SessionEntry list \<Rightarrow> NodeId option \<Rightarrow> bool" where
  "chain_to from [] i = (from = i)"
| "chain_to from (e # es) i = (se_parent_id e = from \<and> chain_to (Some (se_id e)) es i)"

lemma ancestor_add:
  "ancestor nodes (m + n) i = Option.bind (ancestor nodes m i) (ancestor nodes n)"
  by (induction m arbitrary: i) (auto simp: Option.bind_assoc split: bind_splits)

lemma rooted_step: "rooted nodes i \<longleftrightarrow> (case parent_of nodes i of None \<Rightarrow> True | Some p \<Rightarrow> rooted nodes p)"
proof (cases "parent_of nodes i")
  case None
  then have "ancestor nodes 1 i = None" by simp
  with None show ?thesis unfolding rooted_def by (metis option.simps(4))
next
  case (Some p)
  then have suc: "ancestor nodes (Suc n) i = ancestor nodes n p" for n by simp
  have "rooted nodes i \<longleftrightarrow> (\<exists>n. ancestor nodes (Suc n) i = None)"
    unfolding rooted_def by (metis ancestor.simps(1) not0_implies_Suc option.distinct(1))
  with Some suc show ?thesis by (simp add: rooted_def)
qed

lemma cycle_not_rooted:
  assumes "0 < m" and "ancestor nodes m i = Some i"
  shows "\<not> rooted nodes i"
proof -
  have iter: "ancestor nodes (k * m) i = Some i" for k
    by (induction k) (simp_all add: ancestor_add assms(2))
  have "ancestor nodes n i \<noteq> None" for n
  proof -
    have "n \<le> n * m" using assms(1) by simp
    then obtain d where "n * m = n + d" using le_Suc_ex by blast
    then have "Option.bind (ancestor nodes n i) (ancestor nodes d) = Some i"
      using iter [of n] ancestor_add [of nodes n d i] by simp
    then show ?thesis by (cases "ancestor nodes n i") auto
  qed
  then show ?thesis by (simp add: rooted_def)
qed

lemma linked_snoc:
  "linked nodes (p @ [i]) c \<longleftrightarrow> linked nodes p (Some i) \<and> parent_of nodes i = c"
  by (induction nodes p c rule: linked.induct) auto

lemma linked_tl: "linked nodes (x # xs) c \<Longrightarrow> linked nodes xs c"
  by (cases xs) auto

lemma linked_append: "linked nodes (xs @ ys) c \<Longrightarrow> linked nodes ys c"
  by (induction xs) (auto dest: linked_tl)

lemma linked_rooted:
  assumes "linked nodes p c" and "\<And>i. c = Some i \<Longrightarrow> rooted nodes i"
  shows "\<forall>x \<in> set p. rooted nodes x"
  using assms
proof (induction nodes p c rule: linked.induct)
  case (2 nodes x c)
  then show ?case using rooted_step [of nodes x] by (auto split: option.splits)
next
  case (3 nodes x y ys c)
  then show ?case using rooted_step [of nodes x] by auto
qed simp

lemma linked_ancestor:
  "linked nodes (x # xs) c \<Longrightarrow> ancestor nodes (Suc (length xs)) x = c"
proof (induction xs arbitrary: x)
  case Nil
  then show ?case by (cases c) auto
next
  case (Cons y ys)
  then show ?case by (auto simp del: ancestor.simps(2) simp: ancestor.simps(2) [of _ "Suc _"])
qed

section \<open>The acyclicity check\<close>

lemma walk_ok:
  assumes "walk nodes st path c = Ok (st', path')" and "linked nodes path c"
    and "\<And>k. st k = 2 \<Longrightarrow> rooted nodes k" and "\<And>k. st k = 1 \<Longrightarrow> k \<in> set path"
  shows "(\<forall>i \<in> set path'. rooted nodes i) \<and> set path \<subseteq> set path' \<and>
         (\<forall>k. st' k = 1 \<longrightarrow> k \<in> set path') \<and> (\<forall>k. st' k \<noteq> 1 \<longrightarrow> st' k = st k) \<and>
         (\<forall>i. c = Some i \<longrightarrow> st i \<noteq> 2 \<longrightarrow> i \<in> set path')"
  using assms
proof (induction nodes st path c rule: walk.induct)
  case (1 nodes st path)
  then show ?case using linked_rooted by fastforce
next
  case (2 nodes st path i)
  show ?case
  proof (cases "st i = 2")
    case True
    with 2 show ?thesis using linked_rooted [of nodes path "Some i"] by auto
  next
    case False
    with "2.prems"(1) obtain node where st: "st i \<noteq> 1" and node: "bt_get nodes i = Some node"
      and rec: "walk nodes (st(i := 1)) (path @ [i]) (sn_parent_id node) = Ok (st', path')"
      by (auto split: if_splits option.splits)
    have "linked nodes (path @ [i]) (sn_parent_id node)"
      using "2.prems"(2) node by (simp add: linked_snoc parent_of_def)
    note ih = "2.IH" [OF st False node rec this]
    have 2: "(st(i := 1)) k = 2 \<Longrightarrow> rooted nodes k" for k
      using "2.prems"(3) [of k] by (simp split: if_splits)
    have 1: "(st(i := 1)) k = 1 \<Longrightarrow> k \<in> set (path @ [i])" for k
      using "2.prems"(4) [of k] by (auto split: if_splits)
    have r: "(\<forall>i \<in> set path'. rooted nodes i) \<and> set (path @ [i]) \<subseteq> set path' \<and>
         (\<forall>k. st' k = 1 \<longrightarrow> k \<in> set path') \<and> (\<forall>k. st' k \<noteq> 1 \<longrightarrow> st' k = (st(i := 1)) k)"
      using ih [OF 2 1] by blast
    have "st' k = st k" if "st' k \<noteq> 1" for k
      using r that by (metis fun_upd_other fun_upd_same)
    with r show ?thesis by auto
  qed
qed

lemma walk_err:
  assumes "walk nodes st path c = Err e" and "linked nodes path c"
    and "\<And>k. st k = 1 \<Longrightarrow> k \<in> set path"
  shows "e = SeCycle \<and> (\<exists>k. \<not> rooted nodes k)"
  using assms
proof (induction nodes st path c rule: walk.induct)
  case (2 nodes st path i)
  show ?case
  proof (cases "st i = 1")
    case True
    then have "i \<in> set path" using "2.prems"(3) by blast
    then obtain xs ys where "path = xs @ i # ys" by (meson split_list)
    with "2.prems"(2) have "linked nodes (i # ys) (Some i)" using linked_append by blast
    then have "\<not> rooted nodes i" using linked_ancestor cycle_not_rooted by blast
    with True "2.prems"(1) show ?thesis by auto
  next
    case False
    with "2.prems"(1) obtain node where st: "st i \<noteq> 2" and node: "bt_get nodes i = Some node"
      and rec: "walk nodes (st(i := 1)) (path @ [i]) (sn_parent_id node) = Err e"
      by (auto split: if_splits option.splits)
    have "linked nodes (path @ [i]) (sn_parent_id node)"
      using "2.prems"(2) node by (simp add: linked_snoc parent_of_def)
    moreover have "(st(i := 1)) k = 1 \<Longrightarrow> k \<in> set (path @ [i])" for k
      using "2.prems"(3) [of k] by (auto split: if_splits)
    ultimately show ?thesis by (rule "2.IH" [OF False st node rec])
  qed
qed simp

lemma closed_parent:
  "closed nodes \<Longrightarrow> bt_get nodes i = Some n \<Longrightarrow> sn_parent_id n = Some p \<Longrightarrow> bt_get nodes p \<noteq> None"
  unfolding closed_def missing_parent_def bt_get_def
  by (fastforce dest: map_of_SomeD split: option.splits if_splits)

lemma walk_no_panic:
  "closed nodes \<Longrightarrow> (\<And>i. c = Some i \<Longrightarrow> bt_get nodes i \<noteq> None) \<Longrightarrow> walk nodes st path c \<noteq> Panic"
proof (induction nodes st path c rule: walk.induct)
  case (2 nodes st path i)
  show ?case
  proof (cases "st i = 1 \<or> st i = 2")
    case False
    obtain node where node: "bt_get nodes i = Some node" using "2.prems"(2) by auto
    have "walk nodes (st(i := 1)) (path @ [i]) (sn_parent_id node) \<noteq> Panic"
      using False by (intro "2.IH") (use node "2.prems"(1) closed_parent in auto)
    with False node show ?thesis by simp
  qed auto
qed simp

lemma acyclic_scan_result:
  assumes "closed nodes" and "\<forall>k \<in> set ks. bt_get nodes k \<noteq> None"
    and "\<And>k. st k = 2 \<Longrightarrow> rooted nodes k" and "\<And>k. st k \<noteq> 1"
  shows "case acyclic_scan nodes st ks of
           Ok _ \<Rightarrow> \<forall>k \<in> set ks. rooted nodes k
         | Err e \<Rightarrow> e = SeCycle \<and> (\<exists>k. \<not> rooted nodes k)
         | Panic \<Rightarrow> False"
  using assms
proof (induction ks arbitrary: st)
  case (Cons k ks)
  show ?case
  proof (cases "st k = 2")
    case True
    have "case acyclic_scan nodes st ks of
             Ok _ \<Rightarrow> \<forall>k \<in> set ks. rooted nodes k
           | Err e \<Rightarrow> e = SeCycle \<and> (\<exists>k. \<not> rooted nodes k) | Panic \<Rightarrow> False"
      by (rule Cons.IH) (use Cons.prems in auto)
    then show ?thesis using True Cons.prems(3) [OF True] by (simp split: outcome.splits)
  next
    case False
    have lk: "linked nodes [] (Some k)" by simp
    show ?thesis
    proof (cases "walk nodes st [] (Some k)")
      case (Ok r)
      obtain st' path where r: "r = (st', path)" by force
      note w = walk_ok [OF Ok [unfolded r] lk Cons.prems(3)]
      have inv: "\<forall>i \<in> set path. rooted nodes i" "\<forall>i. st' i = 1 \<longrightarrow> i \<in> set path"
        "\<forall>i. st' i \<noteq> 1 \<longrightarrow> st' i = st i" "k \<in> set path"
        using w Cons.prems(4) False by auto
      have "case acyclic_scan nodes (\<lambda>i. if i \<in> set path then 2 else st' i) ks of
             Ok _ \<Rightarrow> \<forall>k \<in> set ks. rooted nodes k
           | Err e \<Rightarrow> e = SeCycle \<and> (\<exists>k. \<not> rooted nodes k) | Panic \<Rightarrow> False"
        by (rule Cons.IH) (use Cons.prems inv in \<open>auto split: if_splits\<close>)
      then show ?thesis using Ok r False inv(1,4) by (auto split: outcome.splits)
    next
      case (Err e)
      then show ?thesis using walk_err [OF Err lk] Cons.prems(4) False by auto
    next
      case Panic
      have "walk nodes st [] (Some k) \<noteq> Panic"
        by (rule walk_no_panic [OF Cons.prems(1)]) (use Cons.prems(2) in auto)
      with Panic show ?thesis by blast
    qed
  qed
qed simp

lemma not_rooted_key: "\<not> rooted nodes k \<Longrightarrow> k \<in> fst ` set nodes"
proof -
  assume "\<not> rooted nodes k"
  then have "parent_of nodes k \<noteq> None" using rooted_step [of nodes k] by (auto split: option.splits)
  then have "map_of nodes k \<noteq> None"
    by (cases "map_of nodes k") (auto simp: parent_of_def bt_get_def)
  then show ?thesis by (simp add: map_of_eq_None_iff)
qed

lemma check_acyclic_spec:
  assumes "closed nodes"
  shows "check_acyclic nodes =
           (if \<forall>k \<in> fst ` set nodes. rooted nodes k then Ok () else Err SeCycle)"
proof -
  have "\<forall>k \<in> set (map fst nodes). bt_get nodes k \<noteq> None"
    by (auto simp: bt_get_def map_of_eq_None_iff)
  from acyclic_scan_result [OF assms this, of "\<lambda>_. 0"]
  have r: "case check_acyclic nodes of Ok _ \<Rightarrow> \<forall>k \<in> fst ` set nodes. rooted nodes k
         | Err e \<Rightarrow> e = SeCycle \<and> (\<exists>k. \<not> rooted nodes k) | Panic \<Rightarrow> False"
    unfolding check_acyclic_def by (simp split: outcome.splits)
  show ?thesis
  proof (cases "check_acyclic nodes")
    case (Err e)
    with r show ?thesis using not_rooted_key [of nodes] by auto
  qed (use r in auto)
qed

section \<open>What the scan builds\<close>

lemma reduce_scan_Inr:
  "bt_inv nodes \<Longrightarrow>
   reduce_scan es nodes root =
     (if distinct (map se_id es) \<and> se_id ` set es \<inter> fst ` set nodes = {} \<and>
         length (roots es) + (if root = None then 0 else 1) \<le> 1
      then Inr (bt.insert_all (map (\<lambda>e. (se_id e, entry_node e)) es) nodes,
                case roots es of [] \<Rightarrow> root | e # _ \<Rightarrow> Some (se_id e))
      else reduce_scan es nodes root) \<and>
   ((\<exists>r. reduce_scan es nodes root = Inr r) \<longrightarrow>
      distinct (map se_id es) \<and> se_id ` set es \<inter> fst ` set nodes = {} \<and>
      length (roots es) + (if root = None then 0 else 1) \<le> 1)"
proof (induction es arbitrary: nodes root)
  case Nil
  then show ?case by (simp add: roots_def bt.insert_all_def)
next
  case (Cons e es)
  have inv: "bt_inv (bt_insert (se_id e) (entry_node e) nodes)"
    using Cons.prems by (rule bt_inv_insert)
  have key: "bt_get nodes (se_id e) = None \<longleftrightarrow> se_id e \<notin> fst ` set nodes"
    by (simp add: bt_get_def map_of_eq_None_iff)
  note ih = Cons.IH [OF inv, of "if se_parent_id e = None then Some (se_id e) else root"]
  show ?case
    using ih by (auto simp: key roots_def bt.insert_all_def set_bt_insert split: if_splits list.splits)
qed

lemma entry_map_inv: "bt_inv (entry_map es)"
  unfolding entry_map_def by (rule bt.inv_insert_all) (simp add: bt_inv_def)

lemma entry_map_get:
  "distinct (map se_id es) \<Longrightarrow>
   bt_get (entry_map es) i = Some n \<longleftrightarrow> (\<exists>e \<in> set es. se_id e = i \<and> n = entry_node e)"
  unfolding entry_map_def
  by (subst bt.lookup_insert_all)
    (auto simp: bt_inv_def bt_get_def comp_def map_of_eq_Some_iff)

lemma entry_map_keys: "fst ` set (entry_map es) = se_id ` set es"
proof -
  have "fst ` set (bt.insert_all (map (\<lambda>e. (se_id e, entry_node e)) es) m)
      = fst ` set m \<union> se_id ` set es" for m
    unfolding bt.insert_all_def by (induction es arbitrary: m) (auto simp: set_bt_insert)
  then show ?thesis by (simp add: entry_map_def)
qed

lemma entry_map_values:
  "distinct (map se_id es) \<Longrightarrow> snd ` set (entry_map es) = entry_node ` set es"
proof -
  assume d: "distinct (map se_id es)"
  have "(k, n) \<in> set (entry_map es) \<longleftrightarrow> (\<exists>e \<in> set es. se_id e = k \<and> n = entry_node e)" for k n
    using entry_map_get [OF d] bt_get_in_set [OF entry_map_inv] by blast
  then show ?thesis by (auto simp: image_iff) force+
qed

lemma entry_map_value_ids:
  "distinct (map se_id es) \<Longrightarrow> map sn_id (map snd (entry_map es)) = map fst (entry_map es)"
  using bt_get_in_set [OF entry_map_inv] entry_map_get [of es] by (auto simp: entry_node_def)

lemma entry_map_closed:
  "distinct (map se_id es) \<Longrightarrow> closed (entry_map es) \<longleftrightarrow> parents_exist es"
proof -
  assume d: "distinct (map se_id es)"
  have "bt_get (entry_map es) p = None \<longleftrightarrow> p \<notin> se_id ` set es" for p
    using entry_map_keys [of es] by (simp add: bt_get_def map_of_eq_None_iff)
  then show ?thesis
    by (auto simp: closed_def entry_map_values [OF d] missing_parent_def entry_node_def
        parents_exist_def split: option.splits if_splits)
qed

lemma entry_map_parent_of:
  assumes "distinct (map se_id es)" and "e \<in> set es"
  shows "parent_of (entry_map es) (se_id e) = se_parent_id e"
proof -
  have "bt_get (entry_map es) (se_id e) = Some (entry_node e)"
    using assms by (auto simp: entry_map_get)
  then show ?thesis by (simp add: parent_of_def entry_node_def)
qed

lemma reaches_root_rooted:
  assumes "distinct (map se_id es)" and "reaches_root es i"
  shows "rooted (entry_map es) i"
  using assms(2)
proof induction
  case (root e)
  then show ?case using rooted_step entry_map_parent_of [OF assms(1)] by simp
next
  case (step e p)
  then show ?case
    using rooted_step [of "entry_map es" "se_id e"] entry_map_parent_of [OF assms(1), of e] by simp
qed

lemma rooted_reaches_root:
  assumes "distinct (map se_id es)" and "parents_exist es"
    and "ancestor (entry_map es) n i = None" and "i \<in> se_id ` set es"
  shows "reaches_root es i"
  using assms(3,4)
proof (induction n arbitrary: i)
  case (Suc n)
  then obtain e where e: "e \<in> set es" "i = se_id e" by auto
  note par = entry_map_parent_of [OF assms(1) e(1)]
  show ?case
  proof (cases "se_parent_id e")
    case None
    then show ?thesis using e reaches_root.root by simp
  next
    case (Some p)
    then have "p \<in> se_id ` set es" using assms(2) e by (auto simp: parents_exist_def split: option.splits)
    moreover have "ancestor (entry_map es) n p = None" using Suc.prems(1) e par Some by simp
    ultimately show ?thesis using Suc.IH e Some reaches_root.step by simp
  qed
qed simp

lemma entry_map_rooted:
  assumes "distinct (map se_id es)" and "parents_exist es"
  shows "(\<forall>k \<in> fst ` set (entry_map es). rooted (entry_map es) k) \<longleftrightarrow>
         (\<forall>e \<in> set es. reaches_root es (se_id e))"
  unfolding entry_map_keys
  using reaches_root_rooted [OF assms(1)] rooted_reaches_root [OF assms]
  by (auto simp: rooted_def)

lemma push_child_get:
  "bt_get (push_child pc nodes) i =
   map_option (\<lambda>n. n\<lparr>sn_children := sn_children n @ (if fst pc = i then [snd pc] else [])\<rparr>)
     (bt_get nodes i)"
  by (cases "bt_get nodes i") (auto simp: push_child_def bt_get_modify)

lemma push_children_get:
  "bt_get (fold push_child eds nodes) i =
   map_option (\<lambda>n. n\<lparr>sn_children := sn_children n @ map snd (filter (\<lambda>pc. fst pc = i) eds)\<rparr>)
     (bt_get nodes i)"
proof (induction eds arbitrary: nodes)
  case Nil
  show ?case by (cases "bt_get nodes i") auto
next
  case (Cons pc eds)
  then show ?case by (cases "bt_get nodes i") (auto simp: push_child_get)
qed

lemma push_children_inv: "bt_inv nodes \<Longrightarrow> bt_inv (fold push_child eds nodes)"
  by (induction eds arbitrary: nodes) (simp_all add: push_child_def bt.inv_modify)

lemma edges_children:
  "map snd (filter (\<lambda>pc. fst pc = i) (edges nodes)) =
   map sn_id (filter (\<lambda>n. sn_parent_id n = Some i) (map snd nodes))"
  unfolding edges_def
  by (induction nodes) (auto simp: List.map_filter_simps split: option.splits)

lemma entry_map_children:
  assumes "distinct (map se_id es)"
  shows "map snd (filter (\<lambda>pc. fst pc = i) (edges (entry_map es))) = child_ids es i"
proof -
  let ?c = "map sn_id (filter (\<lambda>n. sn_parent_id n = Some i) (map snd (entry_map es)))"
  have "sorted_wrt (<) (map sn_id (map snd (entry_map es)))"
    using entry_map_inv [of es] by (simp only: entry_map_value_ids [OF assms] bt_inv_def)
  then have "sorted_wrt (<) ?c"
    by (simp only: sorted_wrt_map sorted_wrt_filter)
  then have srt: "sorted ?c" "distinct ?c" by (simp_all only: strict_sorted_iff)
  have set: "set ?c = se_id ` {e \<in> set es. se_parent_id e = Some i}"
  proof -
    have "set ?c = sn_id ` {n \<in> snd ` set (entry_map es). sn_parent_id n = Some i}" by auto
    also have "\<dots> = se_id ` {e \<in> set es. se_parent_id e = Some i}"
      unfolding entry_map_values [OF assms] by (force simp: entry_node_def)
    finally show ?thesis .
  qed
  have "?c = child_ids es i"
    unfolding child_ids_def set [symmetric]
    by (rule sorted_list_of_set.idem_if_sorted_distinct [OF srt, symmetric])
  then show ?thesis by (simp only: edges_children)
qed

section \<open>The reducer\<close>

lemma reduce_for_well_formed:
  assumes "well_formed_log es"
  shows "reduce_for es sid =
    Ok \<lparr>st_session_id = sid,
        st_root = (case roots es of [] \<Rightarrow> None | e # _ \<Rightarrow> Some (se_id e)),
        st_nodes = fold push_child (edges (entry_map es)) (entry_map es)\<rparr>"
proof -
  have d: "distinct (map se_id es)" and p: "parents_exist es" and r: "length (roots es) \<le> 1"
    and rr: "\<forall>e \<in> set es. reaches_root es (se_id e)"
    using assms by (auto simp: well_formed_log_def)
  have scan: "reduce_scan es [] None =
      Inr (entry_map es, case roots es of [] \<Rightarrow> None | e # _ \<Rightarrow> Some (se_id e))"
    using reduce_scan_Inr [of "[]" es None] d r by (simp add: bt_inv_def entry_map_def)
  have cl: "closed (entry_map es)" using entry_map_closed d p by blast
  then have "find_map (missing_parent (entry_map es)) (map snd (entry_map es)) = None"
    by (auto simp: find_map_None closed_def)
  moreover have "check_acyclic (entry_map es) = Ok ()"
    using check_acyclic_spec [OF cl] entry_map_rooted [OF d p] rr by simp
  ultimately show ?thesis by (simp add: reduce_for_def scan)
qed

lemma reduce_for_not_well_formed:
  assumes "\<not> well_formed_log es"
  shows "\<exists>e. reduce_for es sid = Err e"
proof (cases "reduce_scan es [] None")
  case (Inr nr)
  obtain nodes root where nr: "nr = (nodes, root)" by force
  have d: "distinct (map se_id es)" and r: "length (roots es) \<le> 1" and n: "nodes = entry_map es"
    using reduce_scan_Inr [of "[]" es None] Inr nr by (auto simp: bt_inv_def entry_map_def split: if_splits)
  show ?thesis
  proof (cases "find_map (missing_parent nodes) (map snd nodes)")
    case None
    then have cl: "closed nodes" by (auto simp: find_map_None closed_def)
    then have p: "parents_exist es" using entry_map_closed d n by blast
    then have "\<not> (\<forall>e \<in> set es. reaches_root es (se_id e))"
      using assms d r by (simp add: well_formed_log_def)
    then have "check_acyclic nodes = Err SeCycle"
      using check_acyclic_spec [OF cl] entry_map_rooted [OF d p] n by simp
    with None Inr nr show ?thesis by (simp add: reduce_for_def)
  qed (simp add: reduce_for_def Inr nr)
qed (simp add: reduce_for_def)

lemma reduce_for_Ok_iff: "(\<exists>t. reduce_for es sid = Ok t) \<longleftrightarrow> well_formed_log es"
  using reduce_for_well_formed [of es sid] reduce_for_not_well_formed [of es sid] by force

lemma reduced_get:
  assumes "reduce_for es sid = Ok t"
  shows "bt_get (st_nodes t) i = Some n \<longleftrightarrow>
    (\<exists>e \<in> set es. se_id e = i \<and> n = (entry_node e)\<lparr>sn_children := child_ids es i\<rparr>)"
proof -
  have wf: "well_formed_log es" using assms reduce_for_Ok_iff by blast
  then have d: "distinct (map se_id es)" by (simp add: well_formed_log_def)
  have "st_nodes t = fold push_child (edges (entry_map es)) (entry_map es)"
    using assms reduce_for_well_formed [OF wf, of sid] by auto
  then show ?thesis
    using entry_map_get [OF d, of i]
    by (auto simp: push_children_get entry_map_children [OF d] entry_node_def)
qed

lemma reduced_inv: "reduce_for es sid = Ok t \<Longrightarrow> bt_inv (st_nodes t)"
  using reduce_for_Ok_iff [of es sid] reduce_for_well_formed [of es sid]
  by (auto intro: push_children_inv entry_map_inv)

lemma reduced_perm:
  assumes "reduce_for es sid = Ok t" and "mset es = mset es'"
  shows "reduce_for es' sid = Ok t"
proof -
  have wf: "well_formed_log es" using assms(1) reduce_for_Ok_iff by blast
  have set: "set es = set es'" using assms(2) by (rule mset_eq_setD)
  have d: "distinct (map se_id es)" using wf by (simp add: well_formed_log_def)
  have d': "distinct (map se_id es')"
    using d assms(2) by (metis mset_map mset_eq_imp_distinct_iff)
  have rs: "mset (roots es) = mset (roots es')" using assms(2) by (simp add: roots_def)
  then have len: "length (roots es) = length (roots es')" by (rule mset_eq_length)
  have reach: "reaches_root es' i \<longleftrightarrow> reaches_root es i" for i
  proof
    show "reaches_root es' i" if "reaches_root es i"
      using that by induction (auto simp: set intro: reaches_root.intros)
    show "reaches_root es i" if "reaches_root es' i"
      using that by induction (auto simp: set [symmetric] intro: reaches_root.intros)
  qed
  have "parents_exist es' = parents_exist es" by (simp only: parents_exist_def set)
  then have wf': "well_formed_log es'"
    using wf d' len reach set by (simp add: well_formed_log_def)
  have "length (roots es) \<le> 1" using wf by (simp add: well_formed_log_def)
  then have "roots es = roots es'"
    using rs by (cases "roots es") (auto simp: Suc_le_eq)
  moreover have "entry_map es = entry_map es'"
    unfolding entry_map_def
    by (rule bt.insert_all_perm) (simp_all add: bt_inv_def comp_def d assms(2))
  ultimately show ?thesis
    using assms(1) reduce_for_well_formed [OF wf, of sid] reduce_for_well_formed [OF wf', of sid]
    by simp
qed

section \<open>Paths\<close>

lemma chain_to_snoc:
  "chain_to from (es @ [e]) i \<longleftrightarrow> chain_to from es (se_parent_id e) \<and> Some (se_id e) = i"
  by (induction es arbitrary: "from") auto

text \<open>The parent walk ends on every entry that reaches a root, and collects its chain.\<close>

lemma path_loop_chain:
  assumes "reduce_for es sid = Ok t" and "reaches_root es i"
  shows "\<exists>cs. set cs \<subseteq> set es \<and> chain_to None cs (Some i) \<and>
    (\<forall>acc. path_loop (st_nodes t) (Some i) acc = Some (Some (map se_message cs @ rev acc)))"
  using assms(2)
proof induction
  case (root e)
  have "bt_get (st_nodes t) (se_id e) = Some ((entry_node e)\<lparr>sn_children := child_ids es (se_id e)\<rparr>)"
    using reduced_get [OF assms(1)] root by blast
  then have "path_loop (st_nodes t) (Some (se_id e)) acc = Some (Some (se_message e # rev acc))" for acc
    by (simp add: path_loop.simps [of _ "Some _"] path_loop.simps [of _ None] entry_node_def root)
  then show ?case using root by (intro exI [of _ "[e]"]) simp
next
  case (step e p)
  then obtain cs where cs: "set cs \<subseteq> set es" "chain_to None cs (Some p)"
    "\<And>acc. path_loop (st_nodes t) (Some p) acc = Some (Some (map se_message cs @ rev acc))" by blast
  have "bt_get (st_nodes t) (se_id e) = Some ((entry_node e)\<lparr>sn_children := child_ids es (se_id e)\<rparr>)"
    using reduced_get [OF assms(1)] step by blast
  then have "path_loop (st_nodes t) (Some (se_id e)) acc
      = Some (Some (map se_message (cs @ [e]) @ rev acc))" for acc
    using step(2) cs(3) [of "acc @ [se_message e]"]
    by (subst path_loop.simps) (simp add: entry_node_def)
  then show ?case
    using step cs by (intro exI [of _ "cs @ [e]"]) (auto simp: chain_to_snoc)
qed

lemma leaves_iff:
  assumes "reduce_for es sid = Ok t"
  shows "i \<in> set (leaves t) \<longleftrightarrow>
    i \<in> se_id ` set es \<and> (\<forall>e \<in> set es. se_parent_id e \<noteq> Some i)"
proof -
  have nil: "child_ids es i = [] \<longleftrightarrow> (\<forall>e \<in> set es. se_parent_id e \<noteq> Some i)" for i
    by (auto simp: child_ids_def)
  have mem: "(k, n) \<in> set (st_nodes t) \<longleftrightarrow>
      (\<exists>e \<in> set es. se_id e = k \<and> n = (entry_node e)\<lparr>sn_children := child_ids es k\<rparr>)" for k n
    using bt_get_in_set [OF reduced_inv [OF assms]] reduced_get [OF assms] by blast
  have "i \<in> set (leaves t) \<longleftrightarrow> (\<exists>k n. (k, n) \<in> set (st_nodes t) \<and> sn_children n = [] \<and> sn_id n = i)"
    by (force simp: leaves_def)
  also have "\<dots> \<longleftrightarrow> (\<exists>e \<in> set es. se_id e = i \<and> child_ids es i = [])"
    unfolding mem by (intro iffI; (elim exE conjE bexE)?; force simp: entry_node_def)
  finally show ?thesis using nil by blast
qed

lemma path_to_leaf:
  assumes "reduce_for es sid = Ok t" and "i \<in> set (leaves t)"
  shows "\<exists>cs. set cs \<subseteq> set es \<and> chain_to None cs (Some i) \<and>
    path_to t i = Some (Some (map se_message cs))"
proof -
  obtain e where e: "e \<in> set es" "se_id e = i" and "\<forall>e \<in> set es. se_parent_id e \<noteq> Some i"
    using assms(2) leaves_iff [OF assms(1), of i] by auto
  then have ch: "child_ids es i = []" by (auto simp: child_ids_def)
  have "reaches_root es i"
    using e assms(1) reduce_for_Ok_iff by (auto simp: well_formed_log_def)
  from path_loop_chain [OF assms(1) this] obtain cs where
    cs: "set cs \<subseteq> set es" "chain_to None cs (Some i)"
      "path_loop (st_nodes t) (Some i) [] = Some (Some (map se_message cs))" by force
  have "bt_get (st_nodes t) i = Some ((entry_node e)\<lparr>sn_children := []\<rparr>)"
    using reduced_get [OF assms(1), of i] e ch by auto
  then show ?thesis using cs by (auto simp: path_to_def)
qed

lemma path_to_not_leaf:
  assumes "reduce_for es sid = Ok t" and "i \<notin> set (leaves t)"
  shows "path_to t i = Some None"
proof (cases "bt_get (st_nodes t) i")
  case (Some n)
  then obtain e where e: "e \<in> set es" "se_id e = i" "sn_children n = child_ids es i"
    using reduced_get [OF assms(1), of i] by auto
  then have "\<exists>c \<in> set es. se_parent_id c = Some i"
    using leaves_iff [OF assms(1), of i] assms(2) by blast
  then have "child_ids es i \<noteq> []" by (auto simp: child_ids_def)
  then show ?thesis using Some e by (simp add: path_to_def)
qed (simp add: path_to_def)

section \<open>Append-only logs\<close>

lemma append_log_snoc:
  "append_log (es @ [e]) \<longleftrightarrow>
     append_log es \<and> (\<forall>x \<in> set es. se_id x < se_id e) \<and>
     (case se_parent_id e of None \<Rightarrow> es = [] | Some p \<Rightarrow> p \<in> se_id ` set es)"
  by (auto simp: append_log_def sorted_wrt_append nth_append less_Suc_eq split: option.splits)

lemma reaches_root_mono: "reaches_root es i \<Longrightarrow> set es \<subseteq> set es' \<Longrightarrow> reaches_root es' i"
  by (induction rule: reaches_root.induct) (auto intro: reaches_root.intros)

lemma append_log_well_formed: "append_log es \<Longrightarrow> well_formed_log es"
proof (induction es rule: rev_induct)
  case Nil
  show ?case by (simp add: well_formed_log_def roots_def parents_exist_def)
next
  case (snoc e es)
  then have wf: "well_formed_log es" and lt: "\<forall>x \<in> set es. se_id x < se_id e"
    and par: "case se_parent_id e of None \<Rightarrow> es = [] | Some p \<Rightarrow> p \<in> se_id ` set es"
    by (simp_all add: append_log_snoc)
  have "reaches_root (es @ [e]) (se_id e)"
  proof (cases "se_parent_id e")
    case None
    then show ?thesis by (intro reaches_root.root) simp_all
  next
    case (Some p)
    with par wf have "reaches_root es p" by (auto simp: well_formed_log_def)
    then show ?thesis using Some reaches_root_mono [of es p "es @ [e]"]
      by (intro reaches_root.step [of e _ p]) auto
  qed
  moreover have "\<forall>x \<in> set es. reaches_root (es @ [e]) (se_id x)"
    using wf by (auto simp: well_formed_log_def intro: reaches_root_mono)
  ultimately show ?case
    using wf lt par
    by (auto simp: well_formed_log_def parents_exist_def roots_def split: option.splits)
qed

lemma chain_to_unique:
  assumes "distinct (map se_id es)" and "set cs \<subseteq> set es" and "set ds \<subseteq> set es"
    and "chain_to None cs i" and "chain_to None ds i"
  shows "cs = ds"
  using assms(2-)
proof (induction cs arbitrary: ds i rule: rev_induct)
  case Nil
  then show ?case by (cases ds rule: rev_cases) (auto simp: chain_to_snoc)
next
  case (snoc c cs)
  then obtain ds' d where ds: "ds = ds' @ [d]" by (cases ds rule: rev_cases) (auto simp: chain_to_snoc)
  have "se_id d = se_id c" "d \<in> set es" "c \<in> set es" using snoc.prems ds by (auto simp: chain_to_snoc)
  then have "d = c" using assms(1) by (auto simp: distinct_map dest: inj_onD)
  then show ?case using snoc.IH [of ds'] snoc.prems ds by (auto simp: chain_to_snoc)
qed

text \<open>A new last entry is a leaf, and its path extends the path of its parent.\<close>

lemma append_log_path:
  assumes "append_log (es @ [e])" and "reduce_for (es @ [e]) sid = Ok t"
  obtains cs where "se_id e \<in> set (leaves t)" "set cs \<subseteq> set es" "chain_to None cs (se_parent_id e)"
    "path_to t (se_id e) = Some (Some (map se_message cs @ [se_message e]))"
proof -
  have lt: "\<forall>x \<in> set es. se_id x < se_id e" using assms(1) by (simp add: append_log_snoc)
  have d: "distinct (map se_id es)"
    using assms(1) by (simp add: append_log_def sorted_wrt_append strict_sorted_iff)
  have parents: "se_parent_id x = Some p \<Longrightarrow> p \<in> se_id ` set es" if "x \<in> set (es @ [e])" for x p
  proof -
    from that obtain k where k: "k < length (es @ [e])" "(es @ [e]) ! k = x"
      unfolding in_set_conv_nth by blast
    assume "se_parent_id x = Some p"
    then have "p \<in> se_id ` set (take k (es @ [e]))"
      using assms(1) k unfolding append_log_def by (metis option.simps(5))
    moreover have "set (take k (es @ [e])) \<subseteq> set es" using k(1) set_take_subset [of k es] by simp
    ultimately show ?thesis by blast
  qed
  moreover have "se_id e \<notin> se_id ` set es" using lt by auto
  ultimately have np: "se_parent_id x \<noteq> Some (se_id e)" if "x \<in> set (es @ [e])" for x
    using that by blast
  have leaf: "se_id e \<in> set (leaves t)" unfolding leaves_iff [OF assms(2)] using np by simp
  from path_to_leaf [OF assms(2) leaf] obtain cs where
    cs: "set cs \<subseteq> set (es @ [e])" "chain_to None cs (Some (se_id e))"
      "path_to t (se_id e) = Some (Some (map se_message cs))" by blast
  then obtain cs' x where snoc: "cs = cs' @ [x]" by (cases cs rule: rev_cases) auto
  then have "se_id x = se_id e" "x \<in> set (es @ [e])" using cs by (auto simp: chain_to_snoc)
  then have x: "x = e" using lt by auto
  have ch: "chain_to None cs' (se_parent_id e)" using cs snoc x by (simp add: chain_to_snoc)
  have "set cs' \<subseteq> set es"
  proof -
    have "chain_to from ds i \<Longrightarrow> set ds \<subseteq> set (es @ [e]) \<Longrightarrow> i \<noteq> Some (se_id e) \<Longrightarrow> set ds \<subseteq> set es"
      for "from" ds i
    proof (induction ds arbitrary: i rule: rev_induct)
      case (snoc y ds)
      then have "y \<in> set es" by (auto simp: chain_to_snoc)
      moreover have "se_parent_id y \<noteq> Some (se_id e)" using np [of y] snoc.prems(2) by simp
      ultimately show ?case using snoc by (auto simp: chain_to_snoc)
    qed simp
    moreover have "se_parent_id e \<noteq> Some (se_id e)" using np [of e] by simp
    ultimately show ?thesis using ch cs(1) snoc by auto
  qed
  then show thesis using that leaf ch cs(3) snoc x by auto
qed

section \<open>Properties\<close>

text \<open>
  C11: the reducer accepts exactly the well-formed logs.  \<open>reduce\<close> never panics (the index
  \<open>nodes[&id]\<close> of the cycle check is always present), and it succeeds if and only if the
  ids are distinct, there is at most one root, every parent is in the log, and every chain
  of parents ends in a root.
\<close>

theorem reduce_accepts:
  "reduce es \<noteq> Panic \<and> ((\<exists>t. reduce es = Ok t) \<longleftrightarrow> well_formed_log es)"
  using reduce_for_Ok_iff [of es "[]"] reduce_for_not_well_formed [of es "[]"]
  unfolding reduce_def by (cases "well_formed_log es") auto

text \<open>
  The reduced tree is the log.  Its map is in ascending id order, and the node of an
  entry has the entry's parent and message and, as children, the ids of the entries that
  name it as parent, in ascending order; there are no other nodes.
\<close>

theorem reduce_tree:
  assumes "reduce es = Ok t"
  shows "bt_inv (st_nodes t) \<and>
    st_root t = (case roots es of [] \<Rightarrow> None | e # _ \<Rightarrow> Some (se_id e)) \<and>
    (\<forall>i n. bt_get (st_nodes t) i = Some n \<longleftrightarrow>
      (\<exists>e \<in> set es. se_id e = i \<and>
         n = \<lparr>sn_id = i, sn_parent_id = se_parent_id e, sn_message = se_message e,
              sn_children = child_ids es i\<rparr>))"
proof -
  have r: "reduce_for es [] = Ok t" using assms by (simp add: reduce_def)
  then have "well_formed_log es" using reduce_for_Ok_iff by blast
  then have "st_root t = (case roots es of [] \<Rightarrow> None | e # _ \<Rightarrow> Some (se_id e))"
    using r reduce_for_well_formed [of es "[]"] by auto
  then show ?thesis using reduced_inv [OF r] reduced_get [OF r] by (auto simp: entry_node_def)
qed

theorem reduce_tree_witness:
  "\<exists>t n. reduce [\<lparr>se_id = 5, se_parent_id = Some 2, se_message = user_text ''c''\<rparr>,
                 \<lparr>se_id = 2, se_parent_id = None, se_message = user_text ''a''\<rparr>,
                 \<lparr>se_id = 3, se_parent_id = Some 2, se_message = user_text ''b''\<rparr>] = Ok t \<and>
     bt_get (st_nodes t) 2 = Some n \<and> set (sn_children n) = {3, 5}"
proof -
  let ?a = "\<lparr>se_id = 2, se_parent_id = None, se_message = user_text ''a''\<rparr>"
  let ?b = "\<lparr>se_id = 3, se_parent_id = Some 2, se_message = user_text ''b''\<rparr>"
  let ?c = "\<lparr>se_id = 5, se_parent_id = Some 2, se_message = user_text ''c''\<rparr>"
  have "append_log [?a, ?b, ?c]" by (simp add: append_log_def less_Suc_eq all_conj_distrib)
  then obtain t where "reduce_for [?a, ?b, ?c] [] = Ok t"
    using append_log_well_formed reduce_for_Ok_iff by blast
  then have r: "reduce [?c, ?a, ?b] = Ok t"
    using reduced_perm [of "[?a, ?b, ?c]" "[]" t "[?c, ?a, ?b]"] by (simp add: reduce_def)
  have "{e \<in> set [?c, ?a, ?b]. se_parent_id e = Some 2} = {?c, ?b}" by auto
  then have "set (child_ids [?c, ?a, ?b] 2) = {3, 5}" by (simp add: child_ids_def insert_commute)
  then show ?thesis using r reduce_tree [OF r] by auto
qed

text \<open>
  Replay does not depend on the order of the log.  Permuting the entries of an accepted
  log gives the same tree.
\<close>

theorem reduce_order_independent:
  assumes "reduce es = Ok t" and "mset es = mset es'"
  shows "reduce es' = Ok t"
  using assms reduced_perm unfolding reduce_def by blast

theorem reduce_order_independent_witness:
  "\<exists>t. reduce [\<lparr>se_id = 1, se_parent_id = None, se_message = user_text ''a''\<rparr>,
                \<lparr>se_id = 2, se_parent_id = Some 1, se_message = user_text ''b''\<rparr>] = Ok t \<and>
       reduce [\<lparr>se_id = 2, se_parent_id = Some 1, se_message = user_text ''b''\<rparr>,
                \<lparr>se_id = 1, se_parent_id = None, se_message = user_text ''a''\<rparr>] = Ok t"
proof -
  let ?a = "\<lparr>se_id = 1, se_parent_id = None, se_message = user_text ''a''\<rparr>"
  let ?b = "\<lparr>se_id = 2, se_parent_id = Some 1, se_message = user_text ''b''\<rparr>"
  have "append_log [?a, ?b]" by (simp add: append_log_def less_Suc_eq all_conj_distrib)
  then obtain t where r: "reduce [?a, ?b] = Ok t"
    using append_log_well_formed reduce_for_Ok_iff unfolding reduce_def by blast
  moreover have "reduce [?b, ?a] = Ok t" by (rule reduce_order_independent [OF r]) simp
  ultimately show ?thesis by blast
qed

text \<open>
  C38: \<open>path_to\<close> on a reduced tree.  The parent walk ends for every id.  For a leaf it returns
  the messages of a chain of entries from the root to that leaf; for an unknown id and for
  an inner node it returns \<open>None\<close>.
\<close>

theorem path_to_reduced:
  assumes "reduce es = Ok t"
  shows "if i \<in> set (leaves t)
         then \<exists>cs. set cs \<subseteq> set es \<and> chain_to None cs (Some i) \<and>
                   path_to t i = Some (Some (map se_message cs))
         else path_to t i = Some None"
  using assms path_to_leaf path_to_not_leaf unfolding reduce_def by auto

theorem path_to_reduced_witness:
  "\<exists>t. reduce [\<lparr>se_id = 1, se_parent_id = None, se_message = user_text ''a''\<rparr>,
                \<lparr>se_id = 2, se_parent_id = Some 1, se_message = user_text ''b''\<rparr>] = Ok t \<and>
       2 \<in> set (leaves t) \<and> (\<exists>ms. path_to t 2 = Some (Some ms)) \<and> path_to t 1 = Some None"
proof -
  let ?es = "[\<lparr>se_id = 1, se_parent_id = None, se_message = user_text ''a''\<rparr>,
              \<lparr>se_id = 2, se_parent_id = Some 1, se_message = user_text ''b''\<rparr>]"
  have "append_log ?es" by (simp add: append_log_def less_Suc_eq all_conj_distrib)
  then obtain t where r: "reduce ?es = Ok t"
    using append_log_well_formed reduce_for_Ok_iff unfolding reduce_def by blast
  have l: "2 \<in> set (leaves t)" "1 \<notin> set (leaves t)"
    using leaves_iff [OF r [unfolded reduce_def]] by simp_all
  show ?thesis using r l path_to_reduced [OF r, of 2] path_to_reduced [OF r, of 1] by auto
qed

text \<open>
  Every log an append-only writer produces can be replayed.  When ids ascend, the first
  entry is the root and every later parent is already in the log, \<open>reduce\<close> succeeds, the
  last entry is a leaf, and its path ends with its message.
\<close>

theorem append_log_replays:
  assumes "append_log (es @ [e])"
  shows "\<exists>t ms. reduce (es @ [e]) = Ok t \<and> se_id e \<in> set (leaves t) \<and>
    path_to t (se_id e) = Some (Some (ms @ [se_message e]))"
proof -
  have "well_formed_log (es @ [e])" using assms by (rule append_log_well_formed)
  then obtain t where r: "reduce_for (es @ [e]) [] = Ok t" using reduce_for_Ok_iff by blast
  from append_log_path [OF assms r] show ?thesis using r unfolding reduce_def by metis
qed

theorem append_log_replays_witness:
  "append_log ([\<lparr>se_id = 1, se_parent_id = None, se_message = user_text ''a''\<rparr>]
               @ [\<lparr>se_id = 7, se_parent_id = Some 1, se_message = user_text ''b''\<rparr>]) \<and>
   (\<exists>t ms. reduce ([\<lparr>se_id = 1, se_parent_id = None, se_message = user_text ''a''\<rparr>]
               @ [\<lparr>se_id = 7, se_parent_id = Some 1, se_message = user_text ''b''\<rparr>]) = Ok t \<and>
       path_to t 7 = Some (Some (ms @ [user_text ''b''])))"
proof -
  let ?a = "\<lparr>se_id = 1, se_parent_id = None, se_message = user_text ''a''\<rparr>"
  let ?b = "\<lparr>se_id = 7, se_parent_id = Some 1, se_message = user_text ''b''\<rparr>"
  have l: "append_log ([?a] @ [?b])" by (simp add: append_log_def less_Suc_eq all_conj_distrib)
  show ?thesis using l append_log_replays [OF l] by auto
qed

end
