(* ===== verification/Jsonl.thy ===== *)
theory Jsonl
  imports Session Utf8
begin

text \<open>
  The append-only JSONL log of \<open>core/session/jsonl.rs\<close> and the lane head records of
  \<open>core/session/lane_head.rs\<close>, at the level of the bytes of the file.

  The JSON codec (\<open>serde_json\<close> with derived implementations) is a pair of parameters
  \<open>ser\<close> and \<open>de\<close>; \<open>codec_ok\<close> states what the code relies on.  The file system is the
  content of the one session file, together with a script of faults: each storage call
  consumes one \<open>io\<close> entry, and an exhausted script means a healthy disk.
\<close>

section \<open>Definitions\<close>

record LaneHeadRecord =
  lh_lane_id :: LaneId
  lh_head :: "NodeId option"

datatype SessionRecord = RecMessage SessionEntry | RecLaneHead LaneHeadRecord

type_synonym ser = "SessionRecord \<Rightarrow> string + string"
type_synonym de = "string \<Rightarrow> SessionRecord option"

datatype write_fault = WriteOpen string | WritePartial nat string | WriteSync string

record io =
  io_lock :: "string option"
  io_read :: "string option"
  io_truncate :: "string option"
  io_write :: "write_fault option"

definition io_ok :: io where
  "io_ok = \<lparr>io_lock = None, io_read = None, io_truncate = None, io_write = None\<rparr>"

record JsonlSessionStorage =
  js_session_id :: string
  js_next_id :: u64
  js_file_lock :: bool
  js_file :: "string option"
  js_io :: "io list"

definition nl :: char where
  "nl = CHR 0x0A"

definition cr :: char where
  "cr = CHR 0x0D"

text \<open>The lines of the file with their terminators, as \<open>read_line\<close> returns them.\<close>

function raw_lines :: "string \<Rightarrow> string list" where
  "raw_lines s =
     (if s = [] then []
      else case dropWhile (\<lambda>c. c \<noteq> nl) s of
             [] \<Rightarrow> [s]
           | _ # rest \<Rightarrow> (takeWhile (\<lambda>c. c \<noteq> nl) s @ [nl]) # raw_lines rest)"
  by pat_completeness auto
termination
proof (relation "measure length")
  fix s :: string and x rest
  assume "dropWhile (\<lambda>c. c \<noteq> nl) s = x # rest"
  then have "length (x # rest) \<le> length s" by (metis length_dropWhile_le)
  then show "(rest, s) \<in> measure length" by simp
qed simp

declare raw_lines.simps [simp del]

text \<open>\<open>Lines::next_line\<close> drops the newline and then one carriage return.\<close>

definition chomp :: "string \<Rightarrow> string" where
  "chomp l = (if l \<noteq> [] \<and> last l = nl then strip_suffix1 cr (butlast l) else l)"

definition invalid_utf8 :: SessionError where
  "invalid_utf8 = SeIo ''stream did not contain valid UTF-8''"

fun parse_lines :: "de \<Rightarrow> string list \<Rightarrow> SessionError + SessionRecord list" where
  "parse_lines de [] = Inr []"
| "parse_lines de (l # ls) =
     (if \<not> utf8_valid l then Inl invalid_utf8
      else case de (chomp l) of
             None \<Rightarrow> Inr []
           | Some r \<Rightarrow> map_sum id (Cons r) (parse_lines de ls))"

definition read_records :: "de \<Rightarrow> io \<Rightarrow> string option \<Rightarrow> SessionError + SessionRecord list" where
  "read_records de io file =
     (case io_read io of
        Some e \<Rightarrow> Inl (SeIo e)
      | None \<Rightarrow> (case file of None \<Rightarrow> Inr [] | Some s \<Rightarrow> parse_lines de (raw_lines s)))"

fun parse_extent ::
    "de \<Rightarrow> string list \<Rightarrow> SessionRecord list \<Rightarrow> nat \<Rightarrow> SessionError + SessionRecord list \<times> nat" where
  "parse_extent de [] records valid_len = Inr (records, valid_len)"
| "parse_extent de (l # ls) records valid_len =
     (if \<not> utf8_valid l then Inl invalid_utf8
      else case de (trim_end_matches (\<lambda>c. c = nl \<or> c = cr) l) of
             None \<Rightarrow> Inr (records, valid_len)
           | Some r \<Rightarrow> parse_extent de ls (records @ [r]) (valid_len + length l))"

definition read_records_with_extent ::
    "de \<Rightarrow> io \<Rightarrow> string option \<Rightarrow> SessionError + SessionRecord list \<times> nat" where
  "read_records_with_extent de io file =
     (case io_read io of
        Some e \<Rightarrow> Inl (SeIo e)
      | None \<Rightarrow> (case file of None \<Rightarrow> Inr ([], 0) | Some s \<Rightarrow> parse_extent de (raw_lines s) [] 0))"

fun record_entry :: "SessionRecord \<Rightarrow> SessionEntry option" where
  "record_entry (RecMessage e) = Some e"
| "record_entry (RecLaneHead _) = None"

definition entries_of :: "SessionRecord list \<Rightarrow> SessionEntry list" where
  "entries_of rs = List.map_filter record_entry rs"

text \<open>\<open>max_id\<close> and the cursor computed from it: \<open>None\<close> is \<open>IdExhausted\<close>.\<close>

definition max_id :: "SessionRecord list \<Rightarrow> u64 option" where
  "max_id rs =
     (case map se_id (entries_of rs) of [] \<Rightarrow> None | i # is \<Rightarrow> Some (fold max is i))"

definition cursor_after :: "u64 option \<Rightarrow> SessionError + u64" where
  "cursor_after m =
     (case m of
        None \<Rightarrow> Inr 0
      | Some m \<Rightarrow> (case checked_add64 m 1 of None \<Rightarrow> Inl SeIdExhausted | Some c \<Rightarrow> Inr c))"

text \<open>\<open>open\<close> and \<open>open_locked\<close>: create the file when it is missing, then recover the cursor.\<close>

definition open_storage ::
    "de \<Rightarrow> io \<Rightarrow> string option \<Rightarrow> string \<Rightarrow> (SessionError + JsonlSessionStorage) \<times> string option" where
  "open_storage de io file session_id =
     (case (io_read io, file, io_write io) of
        (Some e, _, _) \<Rightarrow> (Inl (SeIo e), file)
      | (None, None, Some (WriteOpen e)) \<Rightarrow> (Inl (SeIo e), file)
      | _ \<Rightarrow>
          (let file = (case file of None \<Rightarrow> Some [] | Some s \<Rightarrow> Some s) in
           case read_records de io file of
             Inl e \<Rightarrow> (Inl e, file)
           | Inr records \<Rightarrow>
               (case cursor_after (max_id records) of
                  Inl e \<Rightarrow> (Inl e, file)
                | Inr next_id \<Rightarrow>
                    (Inr \<lparr>js_session_id = session_id, js_next_id = next_id,
                          js_file_lock = False, js_file = file, js_io = []\<rparr>, file))))"

definition open_locked ::
    "de \<Rightarrow> io \<Rightarrow> string option \<Rightarrow> string \<Rightarrow> (SessionError + JsonlSessionStorage) \<times> string option" where
  "open_locked de io file session_id =
     (case open_storage de io file session_id of
        (Inl e, file) \<Rightarrow> (Inl e, file)
      | (Inr st, file) \<Rightarrow> (Inr (st\<lparr>js_file_lock := True\<rparr>), file))"

definition acquire_file_lock :: "io \<Rightarrow> JsonlSessionStorage \<Rightarrow> SessionError + bool" where
  "acquire_file_lock io st =
     (if js_file_lock st
      then (case io_lock io of Some e \<Rightarrow> Inl (SeFileLock e) | None \<Rightarrow> Inr True)
      else Inr False)"

definition claim_next_id :: "JsonlSessionStorage \<Rightarrow> (SessionError + NodeId) \<times> JsonlSessionStorage" where
  "claim_next_id st =
     (if js_next_id st = - 1 then (Inl SeIdExhausted, st)
      else (Inr (js_next_id st), st\<lparr>js_next_id := js_next_id st + 1\<rparr>))"

definition refresh_cursor_locked ::
    "de \<Rightarrow> io \<Rightarrow> JsonlSessionStorage \<Rightarrow> (SessionError + unit) \<times> JsonlSessionStorage" where
  "refresh_cursor_locked de io st =
     (case read_records_with_extent de io (js_file st) of
        Inl e \<Rightarrow> (Inl e, st)
      | Inr (records, valid_len) \<Rightarrow>
          (case js_file st of
             None \<Rightarrow> (Inl (SeIo ''not found''), st)
           | Some s \<Rightarrow>
               if valid_len < length s \<and> io_truncate io \<noteq> None
               then (Inl (SeIo (the (io_truncate io))), st)
               else
                 (let st = (if valid_len < length s
                            then st\<lparr>js_file := Some (take valid_len s)\<rparr> else st) in
                  case cursor_after (max_id records) of
                    Inl e \<Rightarrow> (Inl e, st)
                  | Inr floor \<Rightarrow> (Inr (), st\<lparr>js_next_id := max (js_next_id st) floor\<rparr>))))"

text \<open>
  The write path shared by both kinds of records: open with \<open>O_APPEND\<close> (creating the
  file), one \<open>write_all\<close> of the line, \<open>sync_all\<close>.
\<close>

definition write_line ::
    "io \<Rightarrow> string \<Rightarrow> JsonlSessionStorage \<Rightarrow> (SessionError + unit) \<times> JsonlSessionStorage" where
  "write_line io line st =
     (let old = (case js_file st of None \<Rightarrow> [] | Some s \<Rightarrow> s) in
      case io_write io of
        None \<Rightarrow> (Inr (), st\<lparr>js_file := Some (old @ line)\<rparr>)
      | Some (WriteOpen e) \<Rightarrow> (Inl (SeIo e), st)
      | Some (WritePartial n e) \<Rightarrow> (Inl (SeIo e), st\<lparr>js_file := Some (old @ take n line)\<rparr>)
      | Some (WriteSync e) \<Rightarrow> (Inl (SeIo e), st\<lparr>js_file := Some (old @ line)\<rparr>))"

definition next_io :: "JsonlSessionStorage \<Rightarrow> io \<times> JsonlSessionStorage" where
  "next_io st = (case js_io st of [] \<Rightarrow> (io_ok, st) | io # ios \<Rightarrow> (io, st\<lparr>js_io := ios\<rparr>))"

definition append_entry ::
    "ser \<Rightarrow> de \<Rightarrow> NodeId option \<Rightarrow> Message \<Rightarrow> JsonlSessionStorage \<Rightarrow>
     (SessionError + NodeId) \<times> JsonlSessionStorage" where
  "append_entry ser de parent_id message st =
     (let (io, st) = next_io st in
      case acquire_file_lock io st of
        Inl e \<Rightarrow> (Inl e, st)
      | Inr locked \<Rightarrow>
          (case (if locked then refresh_cursor_locked de io st else (Inr (), st)) of
             (Inl e, st) \<Rightarrow> (Inl e, st)
           | (Inr _, st) \<Rightarrow>
               (case claim_next_id st of
                  (Inl e, st) \<Rightarrow> (Inl e, st)
                | (Inr i, st) \<Rightarrow>
                    (case ser (RecMessage \<lparr>se_id = i, se_parent_id = parent_id, se_message = message\<rparr>) of
                       Inl e \<Rightarrow> (Inl (SeSerde e), st)
                     | Inr line \<Rightarrow>
                         (case write_line io (line @ [nl]) st of
                            (Inl e, st) \<Rightarrow> (Inl e, st)
                          | (Inr _, st) \<Rightarrow> (Inr i, st))))))"

definition load ::
    "de \<Rightarrow> JsonlSessionStorage \<Rightarrow> (SessionError, SessionTree) outcome \<times> JsonlSessionStorage" where
  "load de st =
     (let (io, st) = next_io st in
      case read_records de io (js_file st) of
        Inl e \<Rightarrow> (Err e, st)
      | Inr records \<Rightarrow>
          (case reduce_for (entries_of records) (js_session_id st) of
             Err e \<Rightarrow> (Err e, st)
           | Panic \<Rightarrow> (Panic, st)
           | Ok tree \<Rightarrow>
               if st_nodes tree = [] then (Ok tree, st)
               else (case checked_add64 (fst (last (st_nodes tree))) 1 of
                       None \<Rightarrow> (Err SeIdExhausted, st)
                     | Some next \<Rightarrow> (Ok tree, st\<lparr>js_next_id := max (js_next_id st) next\<rparr>))))"

definition append_lane_head ::
    "ser \<Rightarrow> LaneId \<Rightarrow> NodeId option \<Rightarrow> JsonlSessionStorage \<Rightarrow>
     (SessionError + unit) \<times> JsonlSessionStorage" where
  "append_lane_head ser lane_id head st =
     (let (io, st) = next_io st in
      case acquire_file_lock io st of
        Inl e \<Rightarrow> (Inl e, st)
      | Inr _ \<Rightarrow>
          (case ser (RecLaneHead \<lparr>lh_lane_id = lane_id, lh_head = head\<rparr>) of
             Inl e \<Rightarrow> (Inl (SeSerde e), st)
           | Inr line \<Rightarrow> write_line io (line @ [nl]) st))"

fun collect_head ::
    "SessionRecord \<Rightarrow> (LaneId \<rightharpoonup> NodeId option) \<Rightarrow> (LaneId \<rightharpoonup> NodeId option)" where
  "collect_head (RecLaneHead h) heads = heads(lh_lane_id h \<mapsto> lh_head h)"
| "collect_head (RecMessage _) heads = heads"

definition load_lane_heads ::
    "de \<Rightarrow> JsonlSessionStorage \<Rightarrow> (SessionError + (LaneId \<rightharpoonup> NodeId option)) \<times> JsonlSessionStorage" where
  "load_lane_heads de st =
     (let (io, st) = next_io st in
      case read_records de io (js_file st) of
        Inl e \<Rightarrow> (Inl e, st)
      | Inr records \<Rightarrow> (Inr (fold collect_head records Map.empty), st))"

section \<open>What the code relies on of the codec\<close>

text \<open>
  For every record of interest, serialisation succeeds and parses back; the text is one
  line of valid UTF-8 that does not end in a carriage return, and none of its proper
  prefixes parses (it is a JSON object, closed only by its last brace).
\<close>

definition codec_ok :: "ser \<Rightarrow> de \<Rightarrow> (SessionRecord \<Rightarrow> bool) \<Rightarrow> bool" where
  "codec_ok ser de good =
     (\<forall>r. good r \<longrightarrow>
        (\<exists>s. ser r = Inr s \<and> de s = Some r \<and> s \<noteq> [] \<and> nl \<notin> set s \<and> last s \<noteq> cr \<and> utf8_valid s \<and>
             (\<forall>n < length s. de (take n s) = None)))"

definition text_of :: "ser \<Rightarrow> SessionRecord \<Rightarrow> string" where
  "text_of ser r = (case ser r of Inl _ \<Rightarrow> [] | Inr s \<Rightarrow> s)"

text \<open>The file that holds exactly the given records.\<close>

definition log_file :: "ser \<Rightarrow> SessionRecord list \<Rightarrow> string" where
  "log_file ser rs = concat (map (\<lambda>r. text_of ser r @ [nl]) rs)"

text \<open>A storage whose file is a clean log of \<open>rs\<close> and whose cursor is past every id.\<close>

definition holds_log ::
    "ser \<Rightarrow> (SessionRecord \<Rightarrow> bool) \<Rightarrow> SessionRecord list \<Rightarrow> JsonlSessionStorage \<Rightarrow> bool" where
  "holds_log ser good rs st =
     (js_file st = Some (log_file ser rs) \<and> (\<forall>r \<in> set rs. good r) \<and>
      (\<forall>e \<in> set (entries_of rs). se_id e < js_next_id st))"

definition file_records :: "de \<Rightarrow> JsonlSessionStorage \<Rightarrow> SessionRecord list" where
  "file_records de st =
     (case read_records de io_ok (js_file st) of Inl _ \<Rightarrow> [] | Inr rs \<Rightarrow> rs)"

text \<open>A codec given by a finite table, for concrete inputs.\<close>

definition table_ser :: "(SessionRecord \<times> string) list \<Rightarrow> ser" where
  "table_ser tbl r = (case map_of tbl r of None \<Rightarrow> Inl [] | Some s \<Rightarrow> Inr s)"

definition table_de :: "(SessionRecord \<times> string) list \<Rightarrow> de" where
  "table_de tbl s = map_of (map prod.swap tbl) s"

text \<open>A concrete log: a root and two records that may follow it.\<close>

definition demo_entry :: "u64 \<Rightarrow> u64 option \<Rightarrow> SessionRecord" where
  "demo_entry i p = RecMessage \<lparr>se_id = i, se_parent_id = p, se_message = user_text ''m''\<rparr>"

definition demo_table :: "(SessionRecord \<times> string) list" where
  "demo_table =
     [(demo_entry 0 None, ''{0}''), (demo_entry 1 (Some 0), ''{1}''),
      (RecLaneHead \<lparr>lh_lane_id = ''l'', lh_head = Some 1\<rparr>, ''{h}''),
      (demo_entry 2 (Some 0), [CHR ''{'', CHR 0xC3, CHR 0xA9, CHR ''}'']) ]"

definition demo_store :: "bool \<Rightarrow> string \<Rightarrow> JsonlSessionStorage" where
  "demo_store locked tail =
     \<lparr>js_session_id = ''s'', js_next_id = 1, js_file_lock = locked,
      js_file = Some (log_file (table_ser demo_table) [demo_entry 0 None] @ tail), js_io = []\<rparr>"

abbreviation demo_good :: "SessionRecord \<Rightarrow> bool" where
  "demo_good \<equiv> (\<lambda>r. r \<in> fst ` set demo_table)"

section \<open>Lines of a log\<close>

lemma raw_lines_line:
  assumes "nl \<notin> set s"
  shows "raw_lines (s @ nl # t) = (s @ [nl]) # raw_lines t"
proof -
  have "\<forall>c \<in> set s. c \<noteq> nl" using assms by auto
  then have "takeWhile (\<lambda>c. c \<noteq> nl) (s @ nl # t) = s" "dropWhile (\<lambda>c. c \<noteq> nl) (s @ nl # t) = nl # t"
    by (simp_all add: takeWhile_append dropWhile_append)
  then show ?thesis by (subst raw_lines.simps) simp
qed

lemma raw_lines_last: "nl \<notin> set s \<Longrightarrow> raw_lines s = (if s = [] then [] else [s])"
proof -
  assume "nl \<notin> set s"
  then have "dropWhile (\<lambda>c. c \<noteq> nl) s = []" by (auto simp: dropWhile_eq_Nil_conv)
  then show ?thesis by (simp only: raw_lines.simps [of s] list.case)
qed

lemma codec_text:
  assumes "codec_ok ser de good" and "good r"
  shows "ser r = Inr (text_of ser r)" "de (text_of ser r) = Some r" "text_of ser r \<noteq> []"
    "nl \<notin> set (text_of ser r)" "last (text_of ser r) \<noteq> cr" "utf8_valid (text_of ser r)"
    "n < length (text_of ser r) \<Longrightarrow> de (take n (text_of ser r)) = None"
  using assms unfolding codec_ok_def text_of_def by (auto split: sum.splits)

lemma text_of_ser: "ser r = Inr s \<Longrightarrow> text_of ser r = s"
  by (simp add: text_of_def)

lemma log_file_append: "log_file ser (rs @ rs') = log_file ser rs @ log_file ser rs'"
  by (simp add: log_file_def)

lemma log_file_single: "log_file ser [r] = text_of ser r @ [nl]"
  by (simp add: log_file_def)

lemma raw_lines_log:
  assumes "codec_ok ser de good" and "\<forall>r \<in> set rs. good r"
  shows "raw_lines (log_file ser rs @ t) = map (\<lambda>r. text_of ser r @ [nl]) rs @ raw_lines t"
  using assms(2)
  by (induction rs) (auto simp: log_file_def raw_lines_line codec_text(4) [OF assms(1)])

lemma utf8_valid_line: "utf8_valid s \<Longrightarrow> utf8_valid (s @ [nl])"
  by (simp add: utf8_valid_append utf8_valid_ascii nl_def)

lemma chomp_line: "s \<noteq> [] \<Longrightarrow> last s \<noteq> cr \<Longrightarrow> chomp (s @ [nl]) = s"
  by (simp add: chomp_def strip_suffix1_def)

lemma chomp_no_nl: "nl \<notin> set s \<Longrightarrow> chomp s = s"
  by (auto simp: chomp_def dest: last_in_set)

lemma trim_line:
  assumes "s \<noteq> []" and "last s \<noteq> cr" and "nl \<notin> set s"
  shows "trim_end_matches (\<lambda>c. c = nl \<or> c = cr) (s @ [nl]) = s"
    and "trim_end_matches (\<lambda>c. c = nl \<or> c = cr) s = s"
proof -
  have "last s \<noteq> nl" using assms by (metis last_in_set)
  then show "trim_end_matches (\<lambda>c. c = nl \<or> c = cr) s = s"
    using assms by (simp add: trim_end_matches_id)
  then show "trim_end_matches (\<lambda>c. c = nl \<or> c = cr) (s @ [nl]) = s"
    by (simp add: trim_end_matches_snoc)
qed

lemma parse_lines_log:
  assumes "codec_ok ser de good" and "\<forall>r \<in> set rs. good r"
  shows "parse_lines de (map (\<lambda>r. text_of ser r @ [nl]) rs @ ls) =
         map_sum id ((@) rs) (parse_lines de ls)"
  using assms(2)
proof (induction rs)
  case Nil
  show ?case by (cases "parse_lines de ls") auto
next
  case (Cons r rs)
  then have g: "good r" by simp
  note c = codec_text [OF assms(1) g]
  show ?case
    using Cons c by (cases "parse_lines de ls") (auto simp: utf8_valid_line chomp_line)
qed

lemma parse_extent_log:
  assumes "codec_ok ser de good" and "\<forall>r \<in> set rs. good r"
  shows "parse_extent de (map (\<lambda>r. text_of ser r @ [nl]) rs @ ls) acc k =
         parse_extent de ls (acc @ rs) (k + length (log_file ser rs))"
  using assms(2)
proof (induction rs arbitrary: acc k)
  case Nil
  show ?case by (simp add: log_file_def)
next
  case (Cons r rs)
  then have g: "good r" by simp
  note c = codec_text [OF assms(1) g]
  show ?case
    using Cons c by (auto simp: utf8_valid_line trim_line log_file_def add.assoc)
qed

lemma read_records_log:
  assumes "codec_ok ser de good" and "\<forall>r \<in> set rs. good r"
  shows "read_records de io_ok (Some (log_file ser rs @ t)) =
         map_sum id ((@) rs) (parse_lines de (raw_lines t))"
  by (simp add: read_records_def io_ok_def raw_lines_log [OF assms] parse_lines_log [OF assms])

lemma raw_lines_Nil [simp]: "raw_lines [] = []"
  by (simp add: raw_lines.simps)

lemma read_records_clean:
  assumes "codec_ok ser de good" and "\<forall>r \<in> set rs. good r"
  shows "read_records de io_ok (Some (log_file ser rs)) = Inr rs"
  using read_records_log [OF assms, of "[]"] by simp

lemma read_extent_log:
  assumes "codec_ok ser de good" and "\<forall>r \<in> set rs. good r"
  shows "read_records_with_extent de io_ok (Some (log_file ser rs @ t)) =
         parse_extent de (raw_lines t) rs (length (log_file ser rs))"
  by (simp add: read_records_with_extent_def io_ok_def raw_lines_log [OF assms]
      parse_extent_log [OF assms])

section \<open>Cursors\<close>

lemma entries_of_append [simp]: "entries_of (rs @ rs') = entries_of rs @ entries_of rs'"
  by (simp add: entries_of_def List.map_filter_def)

lemma entries_of_simps [simp]:
  "entries_of (RecMessage e # rs) = e # entries_of rs" "entries_of (RecLaneHead h # rs) = entries_of rs"
  "entries_of [] = []"
  by (simp_all add: entries_of_def List.map_filter_simps)

lemma fold_max_ge: "x \<in> set (i # is) \<Longrightarrow> x \<le> fold max is (i :: 'a :: linorder)"
  by (simp add: Max.set_eq_fold [symmetric] del: set_simps)

lemma fold_max_in: "fold max is (i :: 'a :: linorder) \<in> set (i # is)"
  by (simp add: Max.set_eq_fold [symmetric] del: set_simps)

lemma max_id_ge: "e \<in> set (entries_of rs) \<Longrightarrow> \<exists>m. max_id rs = Some m \<and> se_id e \<le> m"
proof -
  assume e: "e \<in> set (entries_of rs)"
  then obtain i "is" where m: "map se_id (entries_of rs) = i # is"
    by (cases "map se_id (entries_of rs)") auto
  then have "se_id e \<in> set (i # is)" using e by (metis image_eqI set_map)
  then show ?thesis using fold_max_ge m by (simp add: max_id_def)
qed

lemma checked_add64_succ: "checked_add64 m 1 = (if m = - 1 then None else Some (m + 1))"
proof -
  have m1: "unat (- 1 :: u64) = 2 ^ 64 - 1"
    by (simp add: unsigned_minus_1_eq_mask mask_eq_exp_minus_1)
  have "unat m \<le> unat (- 1 :: u64)" by (simp add: word_le_nat_alt [symmetric])
  moreover have "unat m = unat (- 1 :: u64) \<longleftrightarrow> m = - 1" by (metis unsigned_word_eqI)
  ultimately show ?thesis using m1 by (auto simp: checked_add64_def)
qed

lemma word_less_succ: "(x :: u64) \<le> m \<Longrightarrow> m \<noteq> - 1 \<Longrightarrow> x < m + 1"
  using checked_add64_Some [of m 1 "m + 1"]
  by (simp add: checked_add64_succ word_less_nat_alt word_le_nat_alt)

lemma word_succ_le: "(m :: u64) < n \<Longrightarrow> m + 1 \<le> n"
  by (rule inc_le)

lemma cursor_after_past:
  assumes "cursor_after (max_id rs) = Inr c" and "e \<in> set (entries_of rs)"
  shows "se_id e < c"
  using assms max_id_ge [OF assms(2)] word_less_succ
  by (auto simp: cursor_after_def checked_add64_succ split: if_splits)

lemma max_id_less:
  assumes "\<forall>e \<in> set (entries_of rs). se_id e < c"
  shows "\<exists>f. cursor_after (max_id rs) = Inr f \<and> f \<le> c"
proof (cases "max_id rs")
  case (Some m)
  then obtain i "is" where m: "map se_id (entries_of rs) = i # is" "m = fold max is i"
    unfolding max_id_def by (auto split: list.splits)
  then have "m \<in> set (map se_id (entries_of rs))" using fold_max_in by metis
  then have "m < c" using assms by auto
  moreover from this have "m \<noteq> - 1" by (metis leD word_n1_ge)
  ultimately show ?thesis
    using Some word_succ_le by (auto simp: cursor_after_def checked_add64_succ)
qed (simp add: cursor_after_def)

section \<open>Appending\<close>

lemma read_records_io: "io_read io = None \<Longrightarrow> read_records de io f = read_records de io_ok f"
  by (simp add: read_records_def io_ok_def)

lemma read_extent_io:
  "io_read io = None \<Longrightarrow> read_records_with_extent de io f = read_records_with_extent de io_ok f"
  by (simp add: read_records_with_extent_def io_ok_def)

lemma next_io_simps [simp]:
  "js_file (snd (next_io st)) = js_file st" "js_next_id (snd (next_io st)) = js_next_id st"
  "js_file_lock (snd (next_io st)) = js_file_lock st"
  "js_session_id (snd (next_io st)) = js_session_id st"
  by (simp_all add: next_io_def split: list.splits)

lemma write_line_ok:
  "write_line io line st = (Inr u, st') \<longleftrightarrow>
   io_write io = None \<and>
   st' = st\<lparr>js_file := Some ((case js_file st of None \<Rightarrow> [] | Some s \<Rightarrow> s) @ line)\<rparr>"
  by (auto simp: write_line_def Let_def split: option.splits write_fault.splits)

text \<open>The state a successful append writes from: after the refresh when the lock is held.\<close>

lemma append_entry_okD:
  assumes "append_entry ser de p m st = (Inr i, st')"
  obtains st1 line where
    "if js_file_lock st
     then refresh_cursor_locked de (fst (next_io st)) (snd (next_io st)) = (Inr (), st1)
     else st1 = snd (next_io st)"
    "i = js_next_id st1" "i \<noteq> - 1"
    "ser (RecMessage \<lparr>se_id = i, se_parent_id = p, se_message = m\<rparr>) = Inr line"
    "st' = st1\<lparr>js_next_id := i + 1,
               js_file := Some ((case js_file st1 of None \<Rightarrow> [] | Some s \<Rightarrow> s) @ line @ [nl])\<rparr>"
proof -
  obtain io st0 where n: "next_io st = (io, st0)" by force
  then have lock: "js_file_lock st0 = js_file_lock st" by (metis next_io_simps(3) snd_conv)
  let ?r = "if js_file_lock st then refresh_cursor_locked de io st0 else (Inr (), st0)"
  obtain st1 where r: "?r = (Inr (), st1)"
    using assms n lock
    by (cases "fst ?r"; cases ?r)
      (auto simp: append_entry_def acquire_file_lock_def split: option.splits if_splits)
  then have c: "(case claim_next_id st1 of
                  (Inl e, st) \<Rightarrow> (Inl e, st)
                | (Inr i, st) \<Rightarrow>
                    (case ser (RecMessage \<lparr>se_id = i, se_parent_id = p, se_message = m\<rparr>) of
                       Inl e \<Rightarrow> (Inl (SeSerde e), st)
                     | Inr line \<Rightarrow>
                         (case write_line io (line @ [nl]) st of
                            (Inl e, st) \<Rightarrow> (Inl e, st)
                          | (Inr _, st) \<Rightarrow> (Inr i, st)))) = (Inr i, st')"
    using assms n lock
    by (auto simp: append_entry_def acquire_file_lock_def split: option.splits if_splits)
  then have i: "i = js_next_id st1" "i \<noteq> - 1"
    by (auto simp: claim_next_id_def split: if_splits sum.splits prod.splits)
  from c i obtain line where
    l: "ser (RecMessage \<lparr>se_id = i, se_parent_id = p, se_message = m\<rparr>) = Inr line"
    and w: "write_line io (line @ [nl]) (st1\<lparr>js_next_id := i + 1\<rparr>) = (Inr (), st')"
    by (auto simp: claim_next_id_def split: sum.splits prod.splits)
  show thesis
  proof (rule that [OF _ i l])
    show "if js_file_lock st
      then refresh_cursor_locked de (fst (next_io st)) (snd (next_io st)) = (Inr (), st1)
      else st1 = snd (next_io st)"
      using r n by (auto split: if_splits)
  qed (use w in \<open>simp add: write_line_ok\<close>)
qed

lemma refresh_clean:
  assumes "codec_ok ser de good" and "holds_log ser good rs st"
    and "refresh_cursor_locked de io st = (Inr (), st1)"
  shows "st1 = st"
proof -
  have f: "js_file st = Some (log_file ser rs)" and g: "\<forall>r \<in> set rs. good r"
    and ids: "\<forall>e \<in> set (entries_of rs). se_id e < js_next_id st"
    using assms(2) by (auto simp: holds_log_def)
  have rd: "io_read io = None"
    using assms(3) by (auto simp: refresh_cursor_locked_def read_records_with_extent_def split: option.splits)
  have "read_records_with_extent de io (js_file st) = Inr (rs, length (log_file ser rs))"
    using read_extent_log [OF assms(1) g, of "[]"] f read_extent_io [OF rd] by simp
  moreover obtain c where "cursor_after (max_id rs) = Inr c" "c \<le> js_next_id st"
    using max_id_less [OF ids] by blast
  ultimately show ?thesis
    using assms(3) f by (auto simp: refresh_cursor_locked_def max_def)
qed

text \<open>
  The contract of an append: one record more, an id past every earlier one, and a file
  that is again a clean log.
\<close>

lemma append_entry_log:
  assumes "codec_ok ser de good" and "holds_log ser good rs st"
    and "append_entry ser de p m st = (Inr i, st')"
    and "good (RecMessage \<lparr>se_id = i, se_parent_id = p, se_message = m\<rparr>)"
  shows "holds_log ser good (rs @ [RecMessage \<lparr>se_id = i, se_parent_id = p, se_message = m\<rparr>]) st' \<and>
         (\<forall>e \<in> set (entries_of rs). se_id e < i)"
proof -
  have h0: "holds_log ser good rs (snd (next_io st))" using assms(2) by (simp add: holds_log_def)
  from append_entry_okD [OF assms(3)] obtain st1 line where
    st1: "if js_file_lock st
          then refresh_cursor_locked de (fst (next_io st)) (snd (next_io st)) = (Inr (), st1)
          else st1 = snd (next_io st)"
    and i: "i = js_next_id st1" "i \<noteq> - 1"
    and line: "ser (RecMessage \<lparr>se_id = i, se_parent_id = p, se_message = m\<rparr>) = Inr line"
    and st': "st' = st1\<lparr>js_next_id := i + 1,
               js_file := Some ((case js_file st1 of None \<Rightarrow> [] | Some s \<Rightarrow> s) @ line @ [nl])\<rparr>"
    by blast
  have "st1 = snd (next_io st)"
    using st1 refresh_clean [OF assms(1) h0] by (auto split: if_splits)
  then have h1: "holds_log ser good rs st1" using h0 by simp
  have less: "x < i + 1" if "x \<le> i" for x using that i(2) by (rule word_less_succ)
  show ?thesis
    using h1 assms(4) i st' text_of_ser [of ser, OF line] less less_imp_le
    by (auto simp: holds_log_def log_file_append log_file_single)
qed

lemma append_lane_head_log:
  assumes "codec_ok ser de good" and "holds_log ser good rs st"
    and "append_lane_head ser l h st = (Inr u, st')"
    and "good (RecLaneHead \<lparr>lh_lane_id = l, lh_head = h\<rparr>)"
  shows "holds_log ser good (rs @ [RecLaneHead \<lparr>lh_lane_id = l, lh_head = h\<rparr>]) st'"
proof -
  obtain io st0 where n: "next_io st = (io, st0)" by force
  then have f: "js_file st0 = js_file st" "js_next_id st0 = js_next_id st"
    by (metis next_io_simps(1) snd_conv, metis next_io_simps(2) snd_conv)
  obtain line where line: "ser (RecLaneHead \<lparr>lh_lane_id = l, lh_head = h\<rparr>) = Inr line"
    and "write_line io (line @ [nl]) st0 = (Inr u, st')"
    using assms(3) n by (auto simp: append_lane_head_def split: sum.splits)
  then have "st' = st0\<lparr>js_file := Some ((case js_file st0 of None \<Rightarrow> [] | Some s \<Rightarrow> s) @ line @ [nl])\<rparr>"
    by (simp add: write_line_ok)
  then show ?thesis
    using assms(2,4) f text_of_ser [of ser, OF line]
    by (auto simp: holds_log_def log_file_append log_file_single)
qed

lemma holds_log_records:
  "codec_ok ser de good \<Longrightarrow> holds_log ser good rs st \<Longrightarrow> file_records de st = rs"
  using read_records_clean [of ser de good rs] by (simp add: holds_log_def file_records_def)

section \<open>The storage contract\<close>

text \<open>
  What the session layer relies on of its backend (the traits \<open>SessionStorage\<close> and
  \<open>LaneHeadStore\<close>): a successful call adds exactly its record, and new ids are past the
  old ones.
\<close>

locale session_store =
  fixes append :: "NodeId option \<Rightarrow> Message \<Rightarrow> 's \<Rightarrow> (SessionError + NodeId) \<times> 's"
    and put_head :: "LaneId \<Rightarrow> NodeId option \<Rightarrow> 's \<Rightarrow> (SessionError + unit) \<times> 's"
    and records :: "'s \<Rightarrow> SessionRecord list"
    and good :: "SessionRecord \<Rightarrow> bool"
    and inv :: "'s \<Rightarrow> bool"
  assumes append_ok:
      "inv s \<Longrightarrow> append p m s = (Inr i, s') \<Longrightarrow>
       good (RecMessage \<lparr>se_id = i, se_parent_id = p, se_message = m\<rparr>) \<Longrightarrow>
       inv s' \<and> records s' = records s @ [RecMessage \<lparr>se_id = i, se_parent_id = p, se_message = m\<rparr>] \<and>
       (\<forall>e \<in> set (entries_of (records s)). se_id e < i)"
    and put_head_ok:
      "inv s \<Longrightarrow> put_head l h s = (Inr u, s') \<Longrightarrow>
       good (RecLaneHead \<lparr>lh_lane_id = l, lh_head = h\<rparr>) \<Longrightarrow>
       inv s' \<and> records s' = records s @ [RecLaneHead \<lparr>lh_lane_id = l, lh_head = h\<rparr>]"
begin

definition heads :: "'s \<Rightarrow> (LaneId \<rightharpoonup> NodeId option)" where
  "heads s = fold collect_head (records s) Map.empty"

lemma heads_append:
  assumes "inv s" and "append p m s = (Inr i, s')"
    and "good (RecMessage \<lparr>se_id = i, se_parent_id = p, se_message = m\<rparr>)"
  shows "heads s' = heads s"
  using append_ok [OF assms] by (simp add: heads_def)

lemma heads_put_head:
  assumes "inv s" and "put_head l h s = (Inr u, s')"
    and "good (RecLaneHead \<lparr>lh_lane_id = l, lh_head = h\<rparr>)"
  shows "heads s' = (heads s)(l \<mapsto> h)"
  using put_head_ok [OF assms] by (simp add: heads_def)

lemma entries_put_head:
  assumes "inv s" and "put_head l h s = (Inr u, s')"
    and "good (RecLaneHead \<lparr>lh_lane_id = l, lh_head = h\<rparr>)"
  shows "entries_of (records s') = entries_of (records s)"
  using put_head_ok [OF assms] by simp

text \<open>A valid parent keeps the log of an append-only writer.\<close>

lemma append_log_step:
  assumes "inv s" and "append p m s = (Inr i, s')"
    and "good (RecMessage \<lparr>se_id = i, se_parent_id = p, se_message = m\<rparr>)"
    and "append_log (entries_of (records s))"
    and "case p of None \<Rightarrow> entries_of (records s) = []
         | Some q \<Rightarrow> q \<in> se_id ` set (entries_of (records s))"
  shows "append_log (entries_of (records s'))"
  using append_ok [OF assms(1-3)] assms(4,5) by (simp add: append_log_snoc split: option.splits)

end

definition clean_store ::
    "ser \<Rightarrow> de \<Rightarrow> (SessionRecord \<Rightarrow> bool) \<Rightarrow> JsonlSessionStorage \<Rightarrow> bool" where
  "clean_store ser de good st = (codec_ok ser de good \<and> (\<exists>rs. holds_log ser good rs st))"

interpretation jsonl: session_store "append_entry ser de" "append_lane_head ser"
    "file_records de" good "clean_store ser de good" for ser de good
proof (unfold_locales, goal_cases)
  case (1 s p m i s')
  then obtain rs where c: "codec_ok ser de good" and rs: "holds_log ser good rs s"
    by (auto simp: clean_store_def)
  note a = append_entry_log [OF c rs 1(2,3)]
  then show ?case
    using c holds_log_records [OF c rs] holds_log_records [OF c, of _ s'] by (auto simp: clean_store_def)
next
  case (2 s l h u s')
  then obtain rs where c: "codec_ok ser de good" and rs: "holds_log ser good rs s"
    by (auto simp: clean_store_def)
  note a = append_lane_head_log [OF c rs 2(2,3)]
  then show ?case
    using c holds_log_records [OF c rs] holds_log_records [OF c, of _ s'] by (auto simp: clean_store_def)
qed

section \<open>Healthy disks and torn tails\<close>

lemma refresh_torn:
  assumes "codec_ok ser de good" and "\<forall>r \<in> set rs. good r"
    and "js_file st = Some (log_file ser rs @ t)"
    and "parse_extent de (raw_lines t) rs (length (log_file ser rs)) = Inr (rs, length (log_file ser rs))"
    and "cursor_after (max_id rs) = Inr c"
  shows "refresh_cursor_locked de io_ok st =
    (Inr (), st\<lparr>js_file := Some (log_file ser rs), js_next_id := max (js_next_id st) c\<rparr>)"
  using assms read_extent_log [OF assms(1,2), of t]
  by (auto simp: refresh_cursor_locked_def Let_def io_ok_def)

lemma append_healthy:
  assumes "js_io st = []"
    and "(if js_file_lock st then refresh_cursor_locked de io_ok st else (Inr (), st)) = (Inr (), st1)"
    and "js_next_id st1 \<noteq> - 1"
    and "ser (RecMessage \<lparr>se_id = js_next_id st1, se_parent_id = p, se_message = m\<rparr>) = Inr line"
  shows "append_entry ser de p m st =
    (Inr (js_next_id st1),
     st1\<lparr>js_next_id := js_next_id st1 + 1,
         js_file := Some ((case js_file st1 of None \<Rightarrow> [] | Some s \<Rightarrow> s) @ line @ [nl])\<rparr>)"
  using assms
  by (auto simp: append_entry_def next_io_def acquire_file_lock_def io_ok_def claim_next_id_def
      write_line_def split: if_splits)

lemma append_healthy_clean:
  assumes "codec_ok ser de good" and "holds_log ser good rs st" and "js_io st = []"
    and "js_next_id st \<noteq> - 1"
    and "good (RecMessage \<lparr>se_id = js_next_id st, se_parent_id = p, se_message = m\<rparr>)"
  obtains st' where "append_entry ser de p m st = (Inr (js_next_id st), st')"
    "js_io st' = []" "js_session_id st' = js_session_id st"
proof -
  have f: "js_file st = Some (log_file ser rs)" and g: "\<forall>r \<in> set rs. good r"
    and ids: "\<forall>e \<in> set (entries_of rs). se_id e < js_next_id st"
    using assms(2) by (auto simp: holds_log_def)
  obtain c where c: "cursor_after (max_id rs) = Inr c" "c \<le> js_next_id st"
    using max_id_less [OF ids] by blast
  have "refresh_cursor_locked de io_ok st = (Inr (), st)"
    using refresh_torn [OF assms(1) g, of st "[]" c] f c by (auto simp: max_def)
  then have r: "(if js_file_lock st then refresh_cursor_locked de io_ok st else (Inr (), st)) = (Inr (), st)"
    by simp
  note a = append_healthy [where ser = ser, OF assms(3) r assms(4) codec_text(1) [OF assms(1,5)]]
  show thesis by (rule that [OF a]) (simp_all add: assms(3))
qed

text \<open>What is read when the tail after a clean log does not parse.\<close>

lemma read_torn:
  assumes "codec_ok ser de good" and "\<forall>r \<in> set rs. good r"
    and "t \<noteq> []" and "nl \<notin> set t" and "utf8_valid t" and "de t = None"
  shows "read_records de io_ok (Some (log_file ser rs @ t)) = Inr rs"
  using assms(3-) read_records_log [OF assms(1,2), of t]
  by (simp add: raw_lines_last chomp_no_nl)

lemma read_torn_line:
  assumes "codec_ok ser de good" and "\<forall>r \<in> set rs. good r"
    and "nl \<notin> set t" and "utf8_valid t" and "t \<noteq> []" and "last t \<noteq> cr" and "de t = None"
  shows "read_records de io_ok (Some (log_file ser rs @ t @ nl # rest)) = Inr rs"
  using assms(3-) read_records_log [OF assms(1,2), of "t @ nl # rest"]
  by (simp add: raw_lines_line chomp_line utf8_valid_line)

lemma torn_prefix:
  assumes "codec_ok ser de good" and "good r" and "n < length (text_of ser r)" and "0 < n"
  shows "take n (text_of ser r) \<noteq> []" "nl \<notin> set (take n (text_of ser r))"
    "de (take n (text_of ser r)) = None"
  using codec_text [OF assms(1,2)] assms(3,4) by (auto dest: in_set_takeD)

lemma trim_end_matches_take: "\<exists>k. trim_end_matches P s = take k s"
proof
  show "trim_end_matches P s = take (length s - length (takeWhile P (rev s))) s"
    by (simp add: trim_end_matches_def dropWhile_eq_drop rev_drop)
qed

lemma extent_torn:
  assumes "codec_ok ser de good" and "good r" and "n < length (text_of ser r)"
    and "utf8_valid (take n (text_of ser r))"
  shows "parse_extent de (raw_lines (take n (text_of ser r))) rs k = Inr (rs, k)"
proof (cases "n = 0")
  case False
  then have p: "take n (text_of ser r) \<noteq> []" "nl \<notin> set (take n (text_of ser r))"
    using torn_prefix [OF assms(1-3)] by auto
  obtain j where "trim_end_matches (\<lambda>c. c = nl \<or> c = cr) (take n (text_of ser r))
      = take j (take n (text_of ser r))" using trim_end_matches_take by blast
  moreover have "de (take j (take n (text_of ser r))) = None"
    using codec_text(7) [OF assms(1,2), of "min j n"] assms(3) by simp
  ultimately show ?thesis using p assms(4) by (simp add: raw_lines_last)
qed simp

lemma load_well_formed:
  assumes "codec_ok ser de good" and "holds_log ser good rs st" and "js_io st = []"
    and "well_formed_log (entries_of rs)"
  shows "\<exists>t st'. load de st = (Ok t, st') \<and> reduce_for (entries_of rs) (js_session_id st) = Ok t"
proof -
  obtain t where t: "reduce_for (entries_of rs) (js_session_id st) = Ok t"
    using assms(4) reduce_for_Ok_iff by blast
  have rd: "read_records de io_ok (js_file st) = Inr rs"
    using read_records_clean [OF assms(1)] assms(2) by (simp add: holds_log_def)
  have "fst (last (st_nodes t)) \<noteq> - 1" if ne: "st_nodes t \<noteq> []"
  proof -
    obtain k n where kn: "last (st_nodes t) = (k, n)" by force
    then have "(k, n) \<in> set (st_nodes t)" using ne by (metis last_in_set)
    then have "bt_get (st_nodes t) k = Some n" using bt_get_in_set [OF reduced_inv [OF t]] by blast
    then have "k \<in> se_id ` set (entries_of rs)" using reduced_get [OF t] by auto
    then have "k < js_next_id st" using assms(2) by (auto simp: holds_log_def)
    then show ?thesis using kn by (metis fst_conv leD word_n1_ge)
  qed
  then show ?thesis
    using t rd assms(3) by (auto simp: load_def next_io_def checked_add64_succ)
qed

lemmas load_clean = load_well_formed [OF _ _ _ append_log_well_formed]

lemma table_codec_ok:
  assumes "distinct (map fst tbl)" and "distinct (map snd tbl)"
    and "\<forall>s \<in> snd ` set tbl. s \<noteq> [] \<and> nl \<notin> set s \<and> last s \<noteq> cr \<and> utf8_valid s"
    and "\<forall>s \<in> snd ` set tbl. \<forall>s' \<in> snd ` set tbl. prefix s' s \<longrightarrow> s' = s"
  shows "codec_ok (table_ser tbl) (table_de tbl) (\<lambda>r. r \<in> fst ` set tbl)"
  unfolding codec_ok_def
proof (intro allI impI)
  fix r assume "r \<in> fst ` set tbl"
  then obtain s where s: "(r, s) \<in> set tbl" by auto
  have d: "distinct (map fst (map prod.swap tbl))" using assms(2) by (simp add: comp_def)
  have ser: "table_ser tbl r = Inr s" using s assms(1) by (simp add: table_ser_def)
  have de: "table_de tbl s = Some r"
    using s d by (force simp: table_de_def map_of_eq_Some_iff image_iff)
  have "table_de tbl (take n s) = None" if "n < length s" for n
  proof (rule ccontr)
    assume "table_de tbl (take n s) \<noteq> None"
    then have "take n s \<in> snd ` set tbl"
      by (auto simp: table_de_def dest!: map_of_SomeD) force
    moreover have "s \<in> snd ` set tbl" using s by force
    ultimately have "take n s = s" using assms(4) take_is_prefix by blast
    then show False using that by (metis length_take less_irrefl min.absorb4)
  qed
  moreover have "s \<in> snd ` set tbl" using s by force
  ultimately show "\<exists>s. table_ser tbl r = Inr s \<and> table_de tbl s = Some r \<and> s \<noteq> [] \<and> nl \<notin> set s \<and>
      last s \<noteq> cr \<and> utf8_valid s \<and> (\<forall>n < length s. table_de tbl (take n s) = None)"
    using ser de assms(3) by blast
qed

lemma demo_codec: "codec_ok (table_ser demo_table) (table_de demo_table) demo_good"
  by (rule table_codec_ok)
    (simp_all add: demo_table_def demo_entry_def user_text_def nl_def cr_def utf8_valid.simps
      byte_def cont_byte_def)

lemma demo_simps:
  "demo_good (demo_entry 0 None)" "demo_good (demo_entry 1 (Some 0))" "demo_good (demo_entry 2 (Some 0))"
  "text_of (table_ser demo_table) (demo_entry 1 (Some 0)) = ''{1}''"
  "text_of (table_ser demo_table) (demo_entry 2 (Some 0)) = [CHR ''{'', CHR 0xC3, CHR 0xA9, CHR ''}'']"
  by (simp_all add: demo_table_def demo_entry_def user_text_def text_of_def table_ser_def)

lemma demo_holds: "holds_log (table_ser demo_table) demo_good [demo_entry 0 None] (demo_store l [])"
  using demo_simps(1) by (auto simp: holds_log_def demo_store_def demo_entry_def)

section \<open>Properties\<close>

text \<open>
  C37: an append to a clean log is read back.  If the log ends in a whole line (no torn tail), no
  operation on the disk fails, ids are left, and the message is appended under a node of the log or as
  its first node, then, with or without the file lock, the append succeeds with the cursor's
  id, and the following load succeeds: the new node is a leaf, its path ends in the message, and what
  precedes it is the path of its parent.
\<close>

theorem append_load:
  assumes "codec_ok ser de good" and "holds_log ser good rs st" and "js_io st = []"
    and "js_next_id st \<noteq> - 1"
    and "good (RecMessage \<lparr>se_id = js_next_id st, se_parent_id = p, se_message = m\<rparr>)"
    and "append_log (entries_of rs)"
    and "case p of None \<Rightarrow> entries_of rs = [] | Some q \<Rightarrow> q \<in> se_id ` set (entries_of rs)"
  shows "\<exists>st' t st'' cs.
    append_entry ser de p m st = (Inr (js_next_id st), st') \<and>
    load de st' = (Ok t, st'') \<and> js_next_id st \<in> set (leaves t) \<and>
    set cs \<subseteq> set (entries_of rs) \<and> chain_to None cs p \<and>
    path_to t (js_next_id st) = Some (Some (map se_message cs @ [m]))"
proof -
  obtain st' where a: "append_entry ser de p m st = (Inr (js_next_id st), st')"
    and st': "js_io st' = []" "js_session_id st' = js_session_id st"
    using append_healthy_clean [OF assms(1-5)] by blast
  let ?e = "\<lparr>se_id = js_next_id st, se_parent_id = p, se_message = m\<rparr>"
  have h: "holds_log ser good (rs @ [RecMessage ?e]) st'"
    and lt: "\<forall>e \<in> set (entries_of rs). se_id e < js_next_id st"
    using append_entry_log [OF assms(1,2) a assms(5)] by auto
  have al: "append_log (entries_of rs @ [?e])"
    using assms(6,7) lt by (simp add: append_log_snoc split: option.splits)
  obtain t st'' where l: "load de st' = (Ok t, st'')"
    and r: "reduce_for (entries_of rs @ [?e]) (js_session_id st') = Ok t"
    using load_clean [OF assms(1) h st'(1)] al by auto
  from append_log_path [OF al r] obtain cs where "js_next_id st \<in> set (leaves t)"
    "set cs \<subseteq> set (entries_of rs)" "chain_to None cs p"
    "path_to t (js_next_id st) = Some (Some (map se_message cs @ [m]))" by auto
  then show ?thesis using a l by blast
qed

theorem append_load_witness:
  "\<exists>st' t st''. append_entry (table_ser demo_table) (table_de demo_table) (Some 0) (user_text ''m'')
       (demo_store True []) = (Inr 1, st') \<and>
     load (table_de demo_table) st' = (Ok t, st'') \<and> 1 \<in> set (leaves t)"
proof -
  have "append_log (entries_of [demo_entry 0 None])"
    by (simp add: demo_entry_def append_log_def)
  then have "\<exists>st' t st'' cs.
    append_entry (table_ser demo_table) (table_de demo_table) (Some 0) (user_text ''m'')
      (demo_store True []) = (Inr (js_next_id (demo_store True [])), st') \<and>
    load (table_de demo_table) st' = (Ok t, st'') \<and> js_next_id (demo_store True []) \<in> set (leaves t) \<and>
    set cs \<subseteq> set (entries_of [demo_entry 0 None]) \<and> chain_to None cs (Some 0) \<and>
    path_to t (js_next_id (demo_store True [])) = Some (Some (map se_message cs @ [user_text ''m'']))"
    using demo_simps(2)
    by (intro append_load [OF demo_codec demo_holds [of True]]) (simp_all add: demo_store_def demo_entry_def)
  then show ?thesis by (auto simp: demo_store_def)
qed

text \<open>
  C3: crash recovery.  When a crash leaves any prefix of a record's line at the end of a
  clean log and that prefix is valid UTF-8, reading ignores it (or keeps the record, when
  only the newline is missing), and \<open>open\<close> succeeds with a cursor past every recovered id.
\<close>

theorem crash_recovery:
  assumes "codec_ok ser de good" and "\<forall>x \<in> set (rs @ [r]). good x"
    and "utf8_valid (take n (text_of ser r))"
    and "\<forall>e \<in> set (entries_of (rs @ [r])). se_id e \<noteq> - 1"
  shows "\<exists>rs' st. rs' = (if n < length (text_of ser r) then rs else rs @ [r]) \<and>
    read_records de io_ok (Some (log_file ser rs @ take n (text_of ser r @ [nl]))) = Inr rs' \<and>
    fst (open_storage de io_ok (Some (log_file ser rs @ take n (text_of ser r @ [nl]))) sid) = Inr st \<and>
    (\<forall>e \<in> set (entries_of rs'). se_id e < js_next_id st)"
proof -
  let ?f = "log_file ser rs @ take n (text_of ser r @ [nl])"
  define rs' where "rs' = (if n < length (text_of ser r) then rs else rs @ [r])"
  have gr: "good r" and g: "\<forall>x \<in> set rs. good x" using assms(2) by auto
  note c = codec_text [OF assms(1) gr]
  have rd: "read_records de io_ok (Some ?f) = Inr rs'"
  proof (cases "n < length (text_of ser r)")
    case True
    then show ?thesis
      using torn_prefix [OF assms(1) gr True] read_torn [OF assms(1) g _ _ assms(3)]
        read_records_clean [OF assms(1) g]
      by (cases "n = 0") (auto simp: rs'_def)
  next
    case False
    then have "take n (text_of ser r @ [nl]) = text_of ser r \<or>
               take n (text_of ser r @ [nl]) = text_of ser r @ [nl]"
      by (cases "n - length (text_of ser r)") auto
    then show ?thesis
    proof
      assume "take n (text_of ser r @ [nl]) = text_of ser r"
      then show ?thesis
        using False c read_records_log [OF assms(1) g, of "text_of ser r"]
        by (simp add: rs'_def raw_lines_last chomp_no_nl)
    next
      assume "take n (text_of ser r @ [nl]) = text_of ser r @ [nl]"
      then show ?thesis
        using False read_records_clean [OF assms(1), of "rs @ [r]"] assms(2)
        by (simp add: rs'_def log_file_append log_file_single)
    qed
  qed
  have "\<forall>e \<in> set (entries_of rs'). se_id e \<noteq> - 1" using assms(4) by (auto simp: rs'_def)
  then have "\<forall>e \<in> set (entries_of rs'). se_id e < - 1"
    by (metis linorder_not_less order_antisym word_n1_ge)
  then obtain k where k: "cursor_after (max_id rs') = Inr k" using max_id_less by blast
  have "\<forall>e \<in> set (entries_of rs'). se_id e < k" using cursor_after_past [OF k] by blast
  then show ?thesis
    using rd k by (auto simp: open_storage_def Let_def rs'_def [symmetric] io_ok_def)
qed

theorem crash_recovery_witness:
  "\<exists>st. fst (open_storage (table_de demo_table) io_ok
       (Some (log_file (table_ser demo_table) [demo_entry 0 None] @ take 2 (''{1}'' @ [nl]))) ''s'') = Inr st \<and>
     0 < js_next_id st"
proof -
  have u: "utf8_valid (take 2 (text_of (table_ser demo_table) (demo_entry 1 (Some 0))))"
    by (simp add: demo_simps utf8_valid.simps byte_def)
  show ?thesis
    using crash_recovery [OF demo_codec _ u, of "[demo_entry 0 None]" "''s''"] demo_simps(1,2,4)
    by (auto simp: demo_entry_def)
qed

text \<open>
  a crash in the middle of a multi-byte character is not recovered.  Reading stops with
  an I/O error instead of ignoring the torn line, so \<open>open\<close> and \<open>open_locked\<close> fail and the
  whole session is unreadable.
\<close>

theorem crash_mid_character:
  assumes "codec_ok ser de good" and "\<forall>x \<in> set (rs @ [r]). good x"
    and "n < length (text_of ser r)" and "\<not> utf8_valid (take n (text_of ser r))"
  shows "fst (open_storage de io_ok (Some (log_file ser rs @ take n (text_of ser r))) sid) = Inl invalid_utf8 \<and>
         fst (open_locked de io_ok (Some (log_file ser rs @ take n (text_of ser r))) sid) = Inl invalid_utf8"
proof -
  have gr: "good r" and g: "\<forall>x \<in> set rs. good x" using assms(2) by auto
  have "n \<noteq> 0" using assms(4) by (cases n) auto
  then have "raw_lines (take n (text_of ser r)) = [take n (text_of ser r)]"
    using torn_prefix [OF assms(1) gr assms(3)] by (simp add: raw_lines_last)
  then have "read_records de io_ok (Some (log_file ser rs @ take n (text_of ser r))) = Inl invalid_utf8"
    using assms(4) read_records_log [OF assms(1) g] by simp
  then show ?thesis by (simp add: open_locked_def open_storage_def io_ok_def)
qed

theorem crash_mid_character_witness:
  "fst (open_storage (table_de demo_table) io_ok
     (Some (log_file (table_ser demo_table) [demo_entry 0 None] @
            take 2 [CHR ''{'', CHR 0xC3, CHR 0xA9, CHR ''}''])) ''s'') = Inl invalid_utf8"
  using crash_mid_character [OF demo_codec, of "[demo_entry 0 None]" "demo_entry 2 (Some 0)" 2 "''s''"]
    demo_simps
  by (simp add: utf8_valid.simps byte_def)

text \<open>
  The locked append repairs a torn tail.  With the file lock, an append to a log that
  ends in a torn record truncates the tail first, takes an id past every id in the file
  (whatever other processes wrote), and leaves a clean log that ends in the new record.
\<close>

theorem locked_append_repairs:
  assumes "codec_ok ser de good" and "\<forall>x \<in> set (rs @ [r]). good x"
    and "n < length (text_of ser r)" and "utf8_valid (take n (text_of ser r))"
    and "js_file st = Some (log_file ser rs @ take n (text_of ser r))"
    and "js_file_lock st" and "js_io st = []"
    and "cursor_after (max_id rs) = Inr c" and "max (js_next_id st) c \<noteq> - 1"
    and "good (RecMessage \<lparr>se_id = max (js_next_id st) c, se_parent_id = p, se_message = m\<rparr>)"
  shows "\<exists>i st'. append_entry ser de p m st = (Inr i, st') \<and> i = max (js_next_id st) c \<and>
    (\<forall>e \<in> set (entries_of rs). se_id e < i) \<and>
    js_file st' = Some (log_file ser
       (rs @ [RecMessage \<lparr>se_id = i, se_parent_id = p, se_message = m\<rparr>])) \<and>
    file_records de st' = rs @ [RecMessage \<lparr>se_id = i, se_parent_id = p, se_message = m\<rparr>]"
proof -
  have gr: "good r" and g: "\<forall>x \<in> set rs. good x" using assms(2) by auto
  let ?st1 = "st\<lparr>js_file := Some (log_file ser rs), js_next_id := max (js_next_id st) c\<rparr>"
  let ?r = "RecMessage \<lparr>se_id = max (js_next_id st) c, se_parent_id = p, se_message = m\<rparr>"
  have "refresh_cursor_locked de io_ok st = (Inr (), ?st1)"
    by (rule refresh_torn [OF assms(1) g assms(5) extent_torn [OF assms(1) gr assms(3,4)] assms(8)])
  then have r: "(if js_file_lock st then refresh_cursor_locked de io_ok st else (Inr (), st)) = (Inr (), ?st1)"
    using assms(6) by simp
  have ser: "ser ?r = Inr (text_of ser ?r)" using codec_text(1) [OF assms(1,10)] .
  have "append_entry ser de p m st = (Inr (max (js_next_id st) c),
      ?st1\<lparr>js_next_id := max (js_next_id st) c + 1, js_file := Some (log_file ser (rs @ [?r]))\<rparr>)"
    using append_healthy [where ser = ser and p = p and m = m, OF assms(7) r] assms(9) ser
    by (simp add: log_file_append log_file_single)
  moreover have "\<forall>e \<in> set (entries_of rs). se_id e < max (js_next_id st) c"
    using cursor_after_past [OF assms(8)] by (simp add: less_max_iff_disj)
  moreover have "read_records de io_ok (Some (log_file ser (rs @ [?r]))) = Inr (rs @ [?r])"
    using g assms(10) by (intro read_records_clean [OF assms(1)]) auto
  ultimately show ?thesis by (simp add: file_records_def)
qed

theorem locked_append_repairs_witness:
  "\<exists>st'. append_entry (table_ser demo_table) (table_de demo_table) (Some 0) (user_text ''m'')
       (demo_store True ''{1'') = (Inr 1, st') \<and>
     file_records (table_de demo_table) st' = [demo_entry 0 None, demo_entry 1 (Some 0)]"
proof -
  let ?s = "demo_store True ''{1''"
  have c: "cursor_after (max_id [demo_entry 0 None]) = Inr 1"
    by (simp add: demo_entry_def max_id_def cursor_after_def checked_add64_succ)
  have "\<exists>i st'. append_entry (table_ser demo_table) (table_de demo_table) (Some 0) (user_text ''m'') ?s
        = (Inr i, st') \<and> i = max (js_next_id ?s) 1 \<and>
    (\<forall>e \<in> set (entries_of [demo_entry 0 None]). se_id e < i) \<and>
    js_file st' = Some (log_file (table_ser demo_table)
       ([demo_entry 0 None] @ [RecMessage \<lparr>se_id = i, se_parent_id = Some 0, se_message = user_text ''m''\<rparr>])) \<and>
    file_records (table_de demo_table) st' = [demo_entry 0 None] @
      [RecMessage \<lparr>se_id = i, se_parent_id = Some 0, se_message = user_text ''m''\<rparr>]"
    using demo_simps c
    by (intro locked_append_repairs [OF demo_codec, where n = 2 and r = "demo_entry 1 (Some 0)"])
      (simp_all add: demo_store_def demo_entry_def [of 1] utf8_valid.simps byte_def)
  then show ?thesis by (auto simp: demo_store_def demo_entry_def [of 1])
qed

text \<open>
  Without the lock a torn tail swallows acknowledged records.  An append to a log that
  ends in a torn record is acknowledged with an id, but its line joins the torn one; when
  the joined line is not a record, neither this message nor anything appended later is
  ever read back.
\<close>

theorem unlocked_append_lost:
  assumes "codec_ok ser de good" and "\<forall>x \<in> set (rs @ [r]). good x"
    and "0 < n" and "n < length (text_of ser r)" and "utf8_valid (take n (text_of ser r))"
    and "js_file st = Some (log_file ser rs @ take n (text_of ser r))"
    and "\<not> js_file_lock st" and "js_io st = []" and "js_next_id st \<noteq> - 1"
    and "good (RecMessage \<lparr>se_id = js_next_id st, se_parent_id = p, se_message = m\<rparr>)"
    and "de (take n (text_of ser r) @
          text_of ser (RecMessage \<lparr>se_id = js_next_id st, se_parent_id = p, se_message = m\<rparr>)) = None"
  shows "\<exists>st' s. append_entry ser de p m st = (Inr (js_next_id st), st') \<and> js_file st' = Some s \<and>
    (\<forall>later. read_records de io_ok (Some (s @ later)) = Inr rs)"
proof -
  have gr: "good r" and g: "\<forall>x \<in> set rs. good x" using assms(2) by auto
  let ?x = "text_of ser (RecMessage \<lparr>se_id = js_next_id st, se_parent_id = p, se_message = m\<rparr>)"
  let ?t = "take n (text_of ser r)"
  note cx = codec_text [OF assms(1,10)]
  have r: "(if js_file_lock st then refresh_cursor_locked de io_ok st else (Inr (), st)) = (Inr (), st)"
    using assms(7) by simp
  note a = append_healthy [where ser = ser, OF assms(8) r assms(9) cx(1)]
  have "read_records de io_ok (Some (log_file ser rs @ (?t @ ?x) @ nl # later)) = Inr rs" for later
    using torn_prefix [OF assms(1) gr assms(4,3)] cx assms(5,11)
    by (intro read_torn_line [OF assms(1) g]) (auto simp: utf8_valid_append)
  then show ?thesis using a assms(6) by simp
qed

theorem unlocked_append_lost_witness:
  "\<exists>st' s. append_entry (table_ser demo_table) (table_de demo_table) (Some 0) (user_text ''m'')
       (demo_store False ''{1'') = (Inr 1, st') \<and> js_file st' = Some s \<and>
     read_records (table_de demo_table) io_ok (Some s) = Inr [demo_entry 0 None]"
proof -
  let ?s = "demo_store False ''{1''"
  have t: "text_of (table_ser demo_table)
      (RecMessage \<lparr>se_id = 1, se_parent_id = Some 0, se_message = user_text ''m''\<rparr>) = ''{1}''"
    using demo_simps(4) by (simp add: demo_entry_def)
  have "\<exists>st' s. append_entry (table_ser demo_table) (table_de demo_table) (Some 0) (user_text ''m'') ?s
        = (Inr (js_next_id ?s), st') \<and> js_file st' = Some s \<and>
    (\<forall>later. read_records (table_de demo_table) io_ok (Some (s @ later)) = Inr [demo_entry 0 None])"
    using demo_simps t
    by (intro unlocked_append_lost [OF demo_codec, where n = 2 and r = "demo_entry 1 (Some 0)"])
      (simp_all add: demo_store_def demo_entry_def [of 1] utf8_valid.simps byte_def
        table_de_def demo_table_def)
  then obtain st' s where "append_entry (table_ser demo_table) (table_de demo_table) (Some 0) (user_text ''m'') ?s
        = (Inr (js_next_id ?s), st')" "js_file st' = Some s"
    "\<forall>later. read_records (table_de demo_table) io_ok (Some (s @ later)) = Inr [demo_entry 0 None]"
    by blast
  then show ?thesis by (metis append_Nil2 demo_store_def JsonlSessionStorage.select_convs(2))
qed

end
