(* ===== verification/Lanes.thy ===== *)
theory Lanes
  imports Jsonl
begin

text \<open>
  Several lanes writing one session: \<open>SharedSessionStorage\<close> and \<open>SessionRecorder\<close> of
  \<open>core/session.rs\<close>, \<open>LaneWriter\<close> of \<open>core/session/lane_writer.rs\<close>.

  The backend is a trait object, so its operations are arguments: \<open>ap\<close> appends a message,
  \<open>hs\<close> is the optional head store (append and replay of lane heads).  Every write holds
  \<open>write_lock\<close> from start to end, so an execution of concurrent lanes is a sequence of the
  operations below, in any order.
\<close>

section \<open>Definitions\<close>

type_synonym 's append_op = "NodeId option \<Rightarrow> Message \<Rightarrow> 's \<Rightarrow> (SessionError + NodeId) \<times> 's"
type_synonym 's put_head_op = "LaneId \<Rightarrow> NodeId option \<Rightarrow> 's \<Rightarrow> (SessionError + unit) \<times> 's"
type_synonym 's load_op = "'s \<Rightarrow> (SessionError, SessionTree) outcome \<times> 's"
type_synonym 's heads_op = "'s \<Rightarrow> (SessionError + (LaneId \<rightharpoonup> NodeId option)) \<times> 's"

record 's SharedSessionStorage =
  sh_inner :: 's
  sh_head_committed :: "LaneId set"

definition shared_new :: "'s \<Rightarrow> 's SharedSessionStorage" where
  "shared_new s = \<lparr>sh_inner = s, sh_head_committed = {}\<rparr>"

definition shared_append ::
    "'s append_op \<Rightarrow> NodeId option \<Rightarrow> Message \<Rightarrow> 's SharedSessionStorage \<Rightarrow>
     (SessionError + NodeId) \<times> 's SharedSessionStorage" where
  "shared_append ap parent_id message sh =
     (let (r, s) = ap parent_id message (sh_inner sh) in (r, sh\<lparr>sh_inner := s\<rparr>))"

definition append_with_head ::
    "'s append_op \<Rightarrow> 's put_head_op option \<Rightarrow> LaneId \<Rightarrow> NodeId option \<Rightarrow> Message \<Rightarrow>
     's SharedSessionStorage \<Rightarrow> (SessionError + NodeId) \<times> 's SharedSessionStorage" where
  "append_with_head ap hs lane_id parent_id message sh =
     (case ap parent_id message (sh_inner sh) of
        (Inl e, s) \<Rightarrow> (Inl e, sh\<lparr>sh_inner := s\<rparr>)
      | (Inr i, s) \<Rightarrow>
          (case hs of
             None \<Rightarrow> (Inr i, sh\<lparr>sh_inner := s\<rparr>)
           | Some put \<Rightarrow>
               (case put lane_id (Some i) s of
                  (Inl e, s) \<Rightarrow> (Inl e, sh\<lparr>sh_inner := s\<rparr>)
                | (Inr _, s) \<Rightarrow>
                    (Inr i, sh\<lparr>sh_inner := s,
                               sh_head_committed := insert lane_id (sh_head_committed sh)\<rparr>))))"

definition persist_initial_head ::
    "'s put_head_op option \<Rightarrow> LaneId \<Rightarrow> NodeId option \<Rightarrow> 's SharedSessionStorage \<Rightarrow>
     (SessionError + unit) \<times> 's SharedSessionStorage" where
  "persist_initial_head hs lane_id head sh =
     (if lane_id \<in> sh_head_committed sh then (Inr (), sh)
      else case hs of
             None \<Rightarrow> (Inr (), sh\<lparr>sh_head_committed := insert lane_id (sh_head_committed sh)\<rparr>)
           | Some put \<Rightarrow>
               (case put lane_id head (sh_inner sh) of
                  (Inl e, s) \<Rightarrow> (Inl e, sh\<lparr>sh_inner := s\<rparr>)
                | (Inr _, s) \<Rightarrow>
                    (Inr (), sh\<lparr>sh_inner := s,
                                sh_head_committed := insert lane_id (sh_head_committed sh)\<rparr>)))"

definition shared_append_lane_head ::
    "'s put_head_op option \<Rightarrow> LaneId \<Rightarrow> NodeId option \<Rightarrow> 's SharedSessionStorage \<Rightarrow>
     (SessionError + unit) \<times> 's SharedSessionStorage" where
  "shared_append_lane_head hs lane_id head sh =
     (case hs of
        None \<Rightarrow> (Inr (), sh)
      | Some put \<Rightarrow>
          (case put lane_id head (sh_inner sh) of
             (Inl e, s) \<Rightarrow> (Inl e, sh\<lparr>sh_inner := s\<rparr>)
           | (Inr _, s) \<Rightarrow>
               (Inr (), sh\<lparr>sh_inner := s,
                           sh_head_committed := insert lane_id (sh_head_committed sh)\<rparr>)))"

definition load_lane_heads_unlocked ::
    "'s heads_op option \<Rightarrow> 's SharedSessionStorage \<Rightarrow>
     (SessionError + (LaneId \<rightharpoonup> NodeId option)) \<times> 's SharedSessionStorage" where
  "load_lane_heads_unlocked hl sh =
     (case hl of
        None \<Rightarrow> (Inr Map.empty, sh)
      | Some get \<Rightarrow> (let (r, s) = get (sh_inner sh) in (r, sh\<lparr>sh_inner := s\<rparr>)))"

definition snapshot ::
    "'s load_op \<Rightarrow> 's heads_op option \<Rightarrow> 's SharedSessionStorage \<Rightarrow>
     (SessionError, SessionTree \<times> (LaneId \<rightharpoonup> NodeId option)) outcome \<times> 's SharedSessionStorage" where
  "snapshot ld hl sh =
     (case ld (sh_inner sh) of
        (Err e, s) \<Rightarrow> (Err e, sh\<lparr>sh_inner := s\<rparr>)
      | (Panic, s) \<Rightarrow> (Panic, sh\<lparr>sh_inner := s\<rparr>)
      | (Ok tree, s) \<Rightarrow>
          (case load_lane_heads_unlocked hl (sh\<lparr>sh_inner := s\<rparr>) of
             (Inl e, sh) \<Rightarrow> (Err e, sh)
           | (Inr heads, sh) \<Rightarrow> (Ok (tree, heads), sh)))"

record LaneWriter =
  lw_lane_id :: LaneId
  lw_head :: "NodeId option"

definition writer_append ::
    "'s append_op \<Rightarrow> 's put_head_op option \<Rightarrow> Message \<Rightarrow> LaneWriter \<Rightarrow> 's SharedSessionStorage \<Rightarrow>
     (SessionError + NodeId) \<times> LaneWriter \<times> 's SharedSessionStorage" where
  "writer_append ap hs message w sh =
     (case append_with_head ap hs (lw_lane_id w) (lw_head w) message sh of
        (Inl e, sh) \<Rightarrow> (Inl e, w, sh)
      | (Inr i, sh) \<Rightarrow> (Inr i, w\<lparr>lw_head := Some i\<rparr>, sh))"

definition persist_head ::
    "'s put_head_op option \<Rightarrow> LaneWriter \<Rightarrow> 's SharedSessionStorage \<Rightarrow>
     (SessionError + unit) \<times> 's SharedSessionStorage" where
  "persist_head hs w sh = shared_append_lane_head hs (lw_lane_id w) (lw_head w) sh"

definition fork_at :: "NodeId option \<Rightarrow> LaneWriter \<Rightarrow> LaneWriter" where
  "fork_at parent w = w\<lparr>lw_head := parent\<rparr>"

text \<open>\<open>SessionRecorder\<close>: one cursor over a storage, fed from the event stream.\<close>

definition recorder_record ::
    "'s append_op \<Rightarrow> Message \<Rightarrow> NodeId option \<Rightarrow> 's \<Rightarrow> (SessionError + NodeId) \<times> NodeId option \<times> 's" where
  "recorder_record ap message head s =
     (case ap head message s of
        (Inl e, s) \<Rightarrow> (Inl e, head, s)
      | (Inr i, s) \<Rightarrow> (Inr i, Some i, s))"

datatype recv = RecvEvent AgentEvent | RecvLagged nat | RecvClosed

fun attach :: "'s append_op \<Rightarrow> recv list \<Rightarrow> NodeId option \<Rightarrow> 's \<Rightarrow> NodeId option \<times> 's" where
  "attach ap [] head s = (head, s)"
| "attach ap (RecvClosed # rx) head s = (head, s)"
| "attach ap (RecvLagged _ # rx) head s = attach ap rx head s"
| "attach ap (RecvEvent ev # rx) head s =
     (case ev of
        MessageEnd message \<Rightarrow>
          (let (_, head, s) = recorder_record ap message head s in attach ap rx head s)
      | _ \<Rightarrow> attach ap rx head s)"

section \<open>Interleaved lanes\<close>

text \<open>
  One step of a lane: its bridge appends a message, its creator persists the initial head,
  or it moves its cursor in memory.  A failed write stops the run.
\<close>

datatype lane_op = LaneAppend Message | LaneInitial "NodeId option" | LaneFork "NodeId option"

type_synonym 's lanes = "(LaneId \<Rightarrow> NodeId option) \<times> 's SharedSessionStorage"

fun lane_step ::
    "'s append_op \<Rightarrow> 's put_head_op option \<Rightarrow> LaneId \<times> lane_op \<Rightarrow> 's lanes \<Rightarrow>
     (SessionError + NodeId option) \<times> 's lanes" where
  "lane_step ap hs (l, LaneAppend m) (cur, sh) =
     (case writer_append ap hs m \<lparr>lw_lane_id = l, lw_head = cur l\<rparr> sh of
        (Inl e, w, sh) \<Rightarrow> (Inl e, cur(l := lw_head w), sh)
      | (Inr i, w, sh) \<Rightarrow> (Inr (Some i), cur(l := lw_head w), sh))"
| "lane_step ap hs (l, LaneInitial h) (cur, sh) =
     (case persist_initial_head hs l h sh of
        (Inl e, sh) \<Rightarrow> (Inl e, cur, sh)
      | (Inr _, sh) \<Rightarrow> (Inr None, cur, sh))"
| "lane_step ap hs (l, LaneFork p) (cur, sh) =
     (Inr None, cur(l := lw_head (fork_at p \<lparr>lw_lane_id = l, lw_head = cur l\<rparr>)), sh)"

fun run_lanes ::
    "'s append_op \<Rightarrow> 's put_head_op option \<Rightarrow> (LaneId \<times> lane_op) list \<Rightarrow> 's lanes \<Rightarrow>
     (SessionError + (LaneId \<times> NodeId) list) \<times> 's lanes" where
  "run_lanes ap hs [] st = (Inr [], st)"
| "run_lanes ap hs (op # ops) st =
     (case lane_step ap hs op st of
        (Inl e, st) \<Rightarrow> (Inl e, st)
      | (Inr r, st) \<Rightarrow>
          (case run_lanes ap hs ops st of
             (Inl e, st) \<Rightarrow> (Inl e, st)
           | (Inr ids, st) \<Rightarrow>
               (Inr ((case r of None \<Rightarrow> [] | Some i \<Rightarrow> [(fst op, i)]) @ ids), st)))"

text \<open>The last id a run assigned to a lane.\<close>

definition last_append :: "LaneId \<Rightarrow> (LaneId \<times> NodeId) list \<Rightarrow> NodeId option" where
  "last_append l ids = map_of (rev ids) l"

text \<open>The records a run may write are ones the codec can carry.\<close>

definition ops_good :: "(SessionRecord \<Rightarrow> bool) \<Rightarrow> (LaneId \<times> lane_op) list \<Rightarrow> bool" where
  "ops_good good ops =
     (\<forall>(l, op) \<in> set ops. case op of
          LaneAppend m \<Rightarrow> (\<forall>i p. good (RecMessage \<lparr>se_id = i, se_parent_id = p, se_message = m\<rparr>) \<and>
                                  good (RecLaneHead \<lparr>lh_lane_id = l, lh_head = Some i\<rparr>))
        | LaneInitial h \<Rightarrow> good (RecLaneHead \<lparr>lh_lane_id = l, lh_head = h\<rparr>)
        | LaneFork _ \<Rightarrow> True)"

text \<open>
  A concrete codec with fixed-width texts, for two lanes and one message: kind, a
  64-digit number, and an optional 64-digit number.
\<close>

definition bits64 :: "u64 \<Rightarrow> string" where
  "bits64 w = map (\<lambda>k. if bit w k then CHR ''1'' else CHR ''0'') [0..<64]"

definition unbits :: "string \<Rightarrow> u64" where
  "unbits s = horner_sum of_bool 2 (map (\<lambda>c. c = CHR ''1'') s)"

definition opt_bits :: "u64 option \<Rightarrow> string" where
  "opt_bits h = (case h of None \<Rightarrow> CHR ''-'' # bits64 0 | Some w \<Rightarrow> CHR ''+'' # bits64 w)"

definition bit_text :: "SessionRecord \<Rightarrow> string" where
  "bit_text r = (case r of
       RecMessage e \<Rightarrow> CHR ''M'' # bits64 (se_id e) @ opt_bits (se_parent_id e)
     | RecLaneHead h \<Rightarrow> CHR ''L'' # bits64 (if lh_lane_id h = ''l'' then 0 else 1) @ opt_bits (lh_head h))"

definition bit_de :: de where
  "bit_de s =
     (if length s \<noteq> 130 then None
      else let n = unbits (take 64 (tl s));
               h = (if s ! 65 = CHR ''-'' then None else Some (unbits (drop 66 s)))
           in if hd s = CHR ''M''
              then Some (RecMessage \<lparr>se_id = n, se_parent_id = h, se_message = user_text ''m''\<rparr>)
              else Some (RecLaneHead \<lparr>lh_lane_id = (if n = 0 then ''l'' else ''k''), lh_head = h\<rparr>))"

definition bit_good :: "SessionRecord \<Rightarrow> bool" where
  "bit_good r = (case r of
       RecMessage e \<Rightarrow> se_message e = user_text ''m''
     | RecLaneHead h \<Rightarrow> lh_lane_id h = ''l'' \<or> lh_lane_id h = ''k'')"

definition empty_store :: "bool \<Rightarrow> JsonlSessionStorage" where
  "empty_store locked =
     \<lparr>js_session_id = ''s'', js_next_id = 0, js_file_lock = locked, js_file = Some [], js_io = []\<rparr>"

section \<open>Replayed heads\<close>

lemma last_append_Nil [simp]: "last_append l [] = None"
  by (simp add: last_append_def)

lemma last_append_Cons:
  "last_append l (x # ids) =
     (case last_append l ids of Some j \<Rightarrow> Some j | None \<Rightarrow> if fst x = l then Some (snd x) else None)"
  by (cases x) (auto simp: last_append_def map_add_def split: option.splits)

context session_store
begin

lemma lane_step_heads:
  assumes "lane_step append (Some put_head) (l, op) (cur, sh) = (Inr r, (cur', sh'))"
    and "inv (sh_inner sh)" and "ops_good good [(l, op)]"
  shows "inv (sh_inner sh') \<and> sh_head_committed sh \<subseteq> sh_head_committed sh' \<and>
    (\<forall>i. r = Some i \<longrightarrow> l \<in> sh_head_committed sh' \<and> heads (sh_inner sh') l = Some (Some i) \<and> cur' l = Some i) \<and>
    (r = None \<longrightarrow> l \<in> sh_head_committed sh \<longrightarrow> heads (sh_inner sh') = heads (sh_inner sh)) \<and>
    (\<forall>k. k \<noteq> l \<longrightarrow> heads (sh_inner sh') k = heads (sh_inner sh) k \<and> cur' k = cur k) \<and>
    (r = None \<longrightarrow> (\<forall>p. op \<noteq> LaneFork p) \<longrightarrow> cur' = cur)"
proof (cases op)
  case (LaneAppend m)
  have g: "good (RecMessage \<lparr>se_id = i, se_parent_id = p, se_message = m\<rparr>)"
    "good (RecLaneHead \<lparr>lh_lane_id = l, lh_head = Some i\<rparr>)" for i p
    using assms(3) LaneAppend by (auto simp: ops_good_def)
  from assms(1) LaneAppend obtain i s1 s2 where
    a: "append (cur l) m (sh_inner sh) = (Inr i, s1)" and p: "put_head l (Some i) s1 = (Inr (), s2)"
    and r: "r = Some i" "cur' = cur(l := Some i)"
    "sh' = sh\<lparr>sh_inner := s2, sh_head_committed := insert l (sh_head_committed sh)\<rparr>"
    by (auto simp: writer_append_def append_with_head_def split: prod.splits sum.splits)
  have i1: "inv s1" using append_ok [OF assms(2) a g(1)] by blast
  show ?thesis
    using put_head_ok [OF i1 p g(2)] heads_put_head [OF i1 p g(2)] heads_append [OF assms(2) a g(1)] r
    by auto
next
  case (LaneInitial h)
  have g: "good (RecLaneHead \<lparr>lh_lane_id = l, lh_head = h\<rparr>)"
    using assms(3) LaneInitial by (auto simp: ops_good_def)
  show ?thesis
  proof (cases "l \<in> sh_head_committed sh")
    case False
    with assms(1) LaneInitial obtain s1 where p: "put_head l h (sh_inner sh) = (Inr (), s1)"
      and r: "r = None" "cur' = cur"
      "sh' = sh\<lparr>sh_inner := s1, sh_head_committed := insert l (sh_head_committed sh)\<rparr>"
      by (auto simp: persist_initial_head_def split: prod.splits sum.splits)
    show ?thesis
      using put_head_ok [OF assms(2) p g] heads_put_head [OF assms(2) p g] r False by auto
  qed (use assms LaneInitial in \<open>auto simp: persist_initial_head_def\<close>)
qed (use assms in \<open>auto simp: fork_at_def\<close>)

lemma run_lanes_heads:
  assumes "run_lanes append (Some put_head) ops (cur, sh) = (Inr ids, (cur', sh'))"
    and "inv (sh_inner sh)" and "ops_good good ops"
  shows "inv (sh_inner sh') \<and>
    (case last_append l ids of
       Some i \<Rightarrow> heads (sh_inner sh') l = Some (Some i) \<and>
                 ((\<forall>p. (l, LaneFork p) \<notin> set ops) \<longrightarrow> cur' l = Some i)
     | None \<Rightarrow> (l \<in> sh_head_committed sh \<longrightarrow> heads (sh_inner sh') l = heads (sh_inner sh) l) \<and>
               ((\<forall>p. (l, LaneFork p) \<notin> set ops) \<longrightarrow> cur' l = cur l))"
  using assms
proof (induction ops arbitrary: cur sh ids)
  case (Cons x ops)
  obtain k op where x: "x = (k, op)" by force
  from Cons.prems(1) obtain r cur1 sh1 ids' where
    st0: "lane_step append (Some put_head) x (cur, sh) = (Inr r, (cur1, sh1))"
    and run: "run_lanes append (Some put_head) ops (cur1, sh1) = (Inr ids', (cur', sh'))"
    and ids0: "ids = (case r of None \<Rightarrow> [] | Some i \<Rightarrow> [(fst x, i)]) @ ids'"
    by (auto split: prod.splits sum.splits)
  have st: "lane_step append (Some put_head) (k, op) (cur, sh) = (Inr r, (cur1, sh1))"
    and ids: "ids = (case r of None \<Rightarrow> [] | Some i \<Rightarrow> [(k, i)]) @ ids'"
    using st0 ids0 x by (auto split: option.splits)
  have g: "ops_good good [(k, op)]" "ops_good good ops" 
    using Cons.prems(3) unfolding ops_good_def x by simp_all
  note s = lane_step_heads [OF st Cons.prems(2) g(1)]
  then have "inv (sh_inner sh1)" by blast
  note ih = Cons.IH [OF run this g(2)]
  show ?case
  proof (cases "last_append l ids'")
    case (Some j)
    then have "last_append l ids = Some j" using ids by (auto simp: last_append_Cons split: option.splits)
    with Some ih show ?thesis by auto
  next
    case None
    show ?thesis
    proof (cases r)
      case (Some i)
      then show ?thesis using None ih s ids x by (auto simp: last_append_Cons)
    next
      case None': None
      have "cur1 l = cur l" if "\<forall>p. (l, LaneFork p) \<notin> set (x # ops)"
        using that s None' x by (cases "k = l") auto
      moreover have "heads (sh_inner sh1) l = heads (sh_inner sh) l" if "l \<in> sh_head_committed sh"
        using that s None' by (cases "k = l") auto
      ultimately show ?thesis using None ih s ids None' x by auto
    qed
  qed
qed simp

end

lemma load_lane_heads_clean:
  assumes "clean_store ser de good st" and "js_io st = []"
  shows "load_lane_heads de st = (Inr (jsonl.heads de st), st)"
proof -
  obtain rs where c: "codec_ok ser de good" and h: "holds_log ser good rs st"
    using assms(1) by (auto simp: clean_store_def)
  then have "read_records de io_ok (js_file st) = Inr rs"
    using read_records_clean [OF c] by (simp add: holds_log_def)
  then show ?thesis
    using assms(2) by (simp add: load_lane_heads_def next_io_def jsonl.heads_def file_records_def)
qed

lemma length_bits64 [simp]: "length (bits64 w) = 64"
  by (simp add: bits64_def)

lemma unbits_bits64 [simp]: "unbits (bits64 w) = w"
proof -
  have "map (\<lambda>c. c = CHR ''1'') (bits64 w) = map (bit w) [0..<64]" by (auto simp: bits64_def)
  moreover have "take_bit 64 w = w" by (rule bit_word_eqI) (simp add: bit_take_bit_iff)
  ultimately show ?thesis by (simp only: unbits_def horner_sum_bit_eq_take_bit)
qed

lemma bits64_chars: "c \<in> set (bits64 w) \<Longrightarrow> c = CHR ''1'' \<or> c = CHR ''0''"
  by (auto simp: bits64_def split: if_splits)

lemma bits64_0: "bits64 0 = replicate 64 CHR ''0''"
  by (simp add: bits64_def map_replicate_trivial)

lemma length_bit_text: "length (bit_text r) = 130"
  by (auto simp: bit_text_def opt_bits_def split: SessionRecord.splits option.splits)

lemma bit_de_text: "bit_good r \<Longrightarrow> bit_de (bit_text r) = Some r"
  using length_bit_text [of r]
  by (auto simp: bit_de_def bit_text_def opt_bits_def bit_good_def Let_def nth_append nth_Cons'
      split: SessionRecord.splits option.splits)

lemma bit_codec: "codec_ok (\<lambda>r. Inr (bit_text r)) bit_de bit_good"
proof -
  have ch: "c = CHR ''M'' \<or> c = CHR ''L'' \<or> c = CHR ''+'' \<or> c = CHR ''-'' \<or> c = CHR ''1'' \<or> c = CHR ''0''"
    if "c \<in> set (bit_text r)" for c r
    using that bits64_chars [of c] 
    by (auto simp: bit_text_def opt_bits_def split: SessionRecord.splits option.splits)
  have "bit_text r \<noteq> []" for r using length_bit_text [of r] by auto
  moreover have "nl \<notin> set (bit_text r)" "cr \<notin> set (bit_text r)" for r
    using ch [of nl r] ch [of cr r] by (auto simp: nl_def cr_def)
  moreover have "utf8_valid (bit_text r)" for r
    using ch [of _ r] by (intro utf8_valid_ascii) (fastforce simp: byte_def)
  moreover have "bit_de (take n (bit_text r)) = None" if "n < length (bit_text r)" for n r
    using that length_bit_text [of r] by (simp add: bit_de_def)
  ultimately show ?thesis
    unfolding codec_ok_def using bit_de_text by (metis last_in_set)
qed

section \<open>Properties\<close>

text \<open>
  Replayed heads under any interleaving.  Lanes append messages, persist their initial
  heads and fork in any order over a clean log; as long as every write succeeds, replaying
  the file gives each lane that appended anything the id of its last append, whether its
  initial head was persisted before or after that, and the lane's cursor in memory agrees
  unless it was moved by a fork.
\<close>

theorem lane_heads_replayed:
  assumes "clean_store ser de good (sh_inner sh)" and "ops_good good ops"
    and "run_lanes (append_entry ser de) (Some (append_lane_head ser)) ops (cur, sh) = (Inr ids, (cur', sh'))"
    and "js_io (sh_inner sh') = []" and "last_append l ids = Some i"
  shows "\<exists>hds. fst (load_lane_heads de (sh_inner sh')) = Inr hds \<and> hds l = Some (Some i) \<and>
    ((\<forall>p. (l, LaneFork p) \<notin> set ops) \<longrightarrow> cur' l = Some i)"
proof -
  note r = jsonl.run_lanes_heads [OF assms(3,1,2), of l]
  then have "load_lane_heads de (sh_inner sh') = (Inr (jsonl.heads de (sh_inner sh')), sh_inner sh')"
    using load_lane_heads_clean assms(4) by blast
  then show ?thesis using r assms(5) by auto
qed

theorem lane_heads_replayed_witness:
  "\<exists>hds cur' sh'. run_lanes (append_entry (\<lambda>r. Inr (bit_text r)) bit_de)
       (Some (append_lane_head (\<lambda>r. Inr (bit_text r))))
       [(''l'', LaneAppend (user_text ''m'')), (''l'', LaneInitial None)]
       (\<lambda>_. None, shared_new (empty_store False)) = (Inr [(''l'', 0)], (cur', sh')) \<and>
     fst (load_lane_heads bit_de (sh_inner sh')) = Inr hds \<and> hds ''l'' = Some (Some 0)"
proof -
  let ?ops = "[(''l'', LaneAppend (user_text ''m'')), (''l'', LaneInitial None)]"
  obtain cur' sh' where run: "run_lanes (append_entry (\<lambda>r. Inr (bit_text r)) bit_de)
       (Some (append_lane_head (\<lambda>r. Inr (bit_text r)))) ?ops
       (\<lambda>_. None, shared_new (empty_store False)) = (Inr [(''l'', 0)], (cur', sh'))"
    and io: "js_io (sh_inner sh') = []"
    by (simp add: writer_append_def append_with_head_def append_entry_def append_lane_head_def
        next_io_def acquire_file_lock_def claim_next_id_def write_line_def io_ok_def
        persist_initial_head_def shared_new_def empty_store_def)
  have g: "ops_good bit_good ?ops" by (simp add: ops_good_def bit_good_def)
  have c: "clean_store (\<lambda>r. Inr (bit_text r)) bit_de bit_good (sh_inner (shared_new (empty_store False)))"
    using bit_codec
    by (auto simp: clean_store_def holds_log_def shared_new_def empty_store_def log_file_def
        intro!: exI [of _ "[]"])
  have "last_append ''l'' [(''l'', 0)] = Some 0" by (simp add: last_append_def)
  from lane_heads_replayed [OF c g run io this] show ?thesis using run by auto
qed

end
