(* ===== verification/Resume.thy ===== *)
theory Resume
  imports Lanes
begin

text \<open>
  Restarting a session: the errors of \<open>server/mod.rs\<close>, the choice of the head a lane is
  resumed at (\<open>server/lane_recovery.rs\<close>), and what a log written by several lanes loads to.
  A log that several lanes wrote is a forest; it loads when it has one root.
\<close>

section \<open>Definitions\<close>

type_synonym SessionId = string

datatype ServerError =
    SvSessionNotFound SessionId
  | SvLaneNotFound LaneId
  | SvLaneAlreadyExists LaneId
  | SvDuplicateSession SessionId
  | SvSession SessionError
  | SvAgent string
  | SvIo string
  | SvProtocol string

definition transcript_from_path :: "Message list \<Rightarrow> Message list" where
  "transcript_from_path path = map (\<lambda>m. m) path"

text \<open>\<open>tree.leaves().into_iter().max()\<close>.\<close>

definition max_leaf :: "SessionTree \<Rightarrow> NodeId option" where
  "max_leaf tree = (case leaves tree of [] \<Rightarrow> None | i # is \<Rightarrow> Some (fold max is i))"

definition not_a_leaf :: "NodeId \<Rightarrow> string" where
  "not_a_leaf h = ''resume head '' @ show_nat (unat h) @ '' is not a leaf node (unknown or internal)''"

text \<open>The outer \<open>None\<close> is a walk of \<open>path_to\<close> that does not end.\<close>

definition resolve_resume_head ::
    "SessionTree \<Rightarrow> NodeId option \<Rightarrow> NodeId option option
       \<Rightarrow> (ServerError + NodeId option \<times> Message list) option" where
  "resolve_resume_head tree head persisted =
     (let at_leaf = (\<lambda>h what.
            case path_to tree h of
              None \<Rightarrow> None
            | Some None \<Rightarrow> Some (Inl (SvProtocol what))
            | Some (Some path) \<Rightarrow> Some (Inr (Some h, transcript_from_path path)))
      in case (head, persisted) of
           (Some h, _) \<Rightarrow> at_leaf h (not_a_leaf h)
         | (None, Some (Some h)) \<Rightarrow> at_leaf h (not_a_leaf h)
         | (None, Some None) \<Rightarrow> Some (Inr (None, []))
         | (None, None) \<Rightarrow>
             (case max_leaf tree of
                Some leaf \<Rightarrow> at_leaf leaf ''active leaf path unavailable''
              | None \<Rightarrow> Some (Inr (None, []))))"

section \<open>What is resumed\<close>

definition is_leaf :: "SessionEntry list \<Rightarrow> NodeId \<Rightarrow> bool" where
  "is_leaf es i = (i \<in> se_id ` set es \<and> (\<forall>e \<in> set es. se_parent_id e \<noteq> Some i))"

text \<open>The head to resume at, in terms of the log.\<close>

definition resume_target ::
    "SessionEntry list \<Rightarrow> NodeId option \<Rightarrow> NodeId option option \<Rightarrow> NodeId option" where
  "resume_target es head persisted =
     (case head of
        Some h \<Rightarrow> Some h
      | None \<Rightarrow>
          (case persisted of
             Some p \<Rightarrow> p
           | None \<Rightarrow> if es = [] then None else Some (Max {i. is_leaf es i})))"

text \<open>What several lanes write: ascending ids, and every parent already in the log.\<close>

definition forest_log :: "SessionEntry list \<Rightarrow> bool" where
  "forest_log es =
     (sorted_wrt (<) (map se_id es) \<and>
      (\<forall>k < length es. case se_parent_id (es ! k) of
           None \<Rightarrow> True
         | Some p \<Rightarrow> p \<in> se_id ` set (take k es)))"

text \<open>The appends of a script of lane operations, and the entries of one lane.\<close>

definition appends :: "(LaneId \<times> lane_op) list \<Rightarrow> (LaneId \<times> Message) list" where
  "appends ops =
     List.map_filter (\<lambda>(l, op). case op of LaneAppend m \<Rightarrow> Some (l, m) | _ \<Rightarrow> None) ops"

definition of_lane :: "LaneId \<Rightarrow> (LaneId \<times> 'a) list \<Rightarrow> 'a list" where
  "of_lane l xs = map snd (filter (\<lambda>x. fst x = l) xs)"

definition forkless :: "(LaneId \<times> lane_op) list \<Rightarrow> bool" where
  "forkless ops = (\<forall>l p. (l, LaneFork p) \<notin> set ops)"

text \<open>Lanes whose cursor is empty start a root of their own.\<close>

definition new_roots :: "(LaneId \<Rightarrow> NodeId option) \<Rightarrow> (LaneId \<times> lane_op) list \<Rightarrow> LaneId set" where
  "new_roots cur ops = {l \<in> fst ` set (appends ops). cur l = None}"

section \<open>Leaves\<close>

lemma leaves_is_leaf: "reduce_for es sid = Ok t \<Longrightarrow> set (leaves t) = {i. is_leaf es i}"
  using leaves_iff by (auto simp: is_leaf_def)

lemma fold_max_Max: "fold max is (i :: 'a :: linorder) = Max (set (i # is))"
  by (metis Max.set_eq_fold)

lemma max_leaf_Max:
  assumes "reduce_for es sid = Ok t"
  shows "max_leaf t = (if {i. is_leaf es i} = {} then None else Some (Max {i. is_leaf es i}))"
proof (cases "leaves t")
  case Nil
  then show ?thesis using leaves_is_leaf [OF assms] by (simp add: max_leaf_def)
next
  case (Cons i js)
  then have "{i. is_leaf es i} = set (i # js)" using leaves_is_leaf [OF assms] by simp
  then show ?thesis using Cons fold_max_Max [of js i] by (simp add: max_leaf_def)
qed

text \<open>A log without a leaf is empty: the relation to the parent is acyclic and finite.\<close>

lemma reaches_root_wf:
  assumes "\<forall>e \<in> set es. reaches_root es (se_id e)" and "distinct (map se_id es)"
  shows "wf {(p, c). \<exists>e \<in> set es. se_id e = c \<and> se_parent_id e = Some p}" (is "wf ?r")
proof (rule acc_wfI, rule allI)
  have par: "se_parent_id e' = Some p \<Longrightarrow> se_parent_id e = Some p"
    if "e \<in> set es" "e' \<in> set es" "se_id e' = se_id e" for e e' p
    using that assms(2) by (metis distinct_map inj_onD)
  have acc: "i \<in> Wellfounded.acc ?r" if "reaches_root es i" for i
    using that
  proof induction
    case (root e)
    show ?case
    proof (rule accI)
      fix y assume "(y, se_id e) \<in> ?r"
      then show "y \<in> Wellfounded.acc ?r" using par [OF root(1)] root(2) by auto
    qed
  next
    case (step e p)
    show ?case
    proof (rule accI)
      fix y assume "(y, se_id e) \<in> ?r"
      then show "y \<in> Wellfounded.acc ?r" using par [OF step(1)] step(2,4) by auto
    qed
  qed
  fix i
  show "i \<in> Wellfounded.acc ?r"
  proof (cases "i \<in> se_id ` set es")
    case False
    show ?thesis by (rule accI) (use False in auto)
  qed (use acc assms(1) in auto)
qed

lemma leaf_exists:
  assumes "well_formed_log es" and "es \<noteq> []"
  shows "\<exists>i. is_leaf es i"
proof -
  let ?r = "{(p, c). \<exists>e \<in> set es. se_id e = c \<and> se_parent_id e = Some p}"
  have wf: "wf ?r" using assms(1) by (intro reaches_root_wf) (auto simp: well_formed_log_def)
  have "?r \<subseteq> (se_id ` set es) \<times> (se_id ` set es)"
    using assms(1) by (fastforce simp: well_formed_log_def parents_exist_def split: option.splits)
  then have "finite ?r" by (rule finite_subset) simp
  then have "wf (?r\<inverse>)" using wf by (intro finite_acyclic_wf_converse wf_acyclic)
  moreover have "se_id (hd es) \<in> se_id ` set es" using assms(2) by simp
  ultimately obtain z where "z \<in> se_id ` set es" and "\<forall>y. (y, z) \<in> ?r\<inverse> \<longrightarrow> y \<notin> se_id ` set es"
    by (metis (no_types, lifting) wfE_min)
  then have "is_leaf es z" by (fastforce simp: is_leaf_def)
  then show ?thesis by blast
qed

lemma resume_leaf:
  assumes "reduce_for es sid = Ok t" and "is_leaf es h"
  shows "\<exists>cs. set cs \<subseteq> set es \<and> chain_to None cs (Some h) \<and>
    path_to t h = Some (Some (map se_message cs))"
  using path_to_leaf [OF assms(1), of h] leaves_is_leaf [OF assms(1)] assms(2) by blast

lemma resume_no_leaf:
  assumes "reduce_for es sid = Ok t" and "\<not> is_leaf es h"
  shows "path_to t h = Some None"
  using path_to_not_leaf [OF assms(1)] leaves_is_leaf [OF assms(1)] assms(2) by blast

lemma resolve_target:
  assumes "reduce_for es sid = Ok t"
  shows "case resume_target es head persisted of
      None \<Rightarrow> resolve_resume_head t head persisted = Some (Inr (None, []))
    | Some h \<Rightarrow>
        if is_leaf es h
        then \<exists>cs. set cs \<subseteq> set es \<and> chain_to None cs (Some h) \<and>
          resolve_resume_head t head persisted = Some (Inr (Some h, map se_message cs))
        else resolve_resume_head t head persisted = Some (Inl (SvProtocol (not_a_leaf h)))"
proof -
  have wf: "well_formed_log es" using assms reduce_for_Ok_iff by blast
  have at: "(case path_to t h of
          None \<Rightarrow> None
        | Some None \<Rightarrow> Some (Inl (SvProtocol what))
        | Some (Some path) \<Rightarrow> Some (Inr (Some h, transcript_from_path path))) =
      (if is_leaf es h then Some (Inr (Some h, the (the (path_to t h))))
       else Some (Inl (SvProtocol what)))" for h what
    using resume_leaf [OF assms, of h] resume_no_leaf [OF assms, of h]
    by (auto simp: transcript_from_path_def)
  have leaf: "\<exists>cs. set cs \<subseteq> set es \<and> chain_to None cs (Some h) \<and>
      the (the (path_to t h)) = map se_message cs" if "is_leaf es h" for h
    using resume_leaf [OF assms that] by (metis option.sel)
  have fin: "finite {i. is_leaf es i}" by (rule finite_subset [of _ "se_id ` set es"]) (auto simp: is_leaf_def)
  have max: "es \<noteq> [] \<Longrightarrow> is_leaf es (Max {i. is_leaf es i})"
    using Max_in [OF fin] leaf_exists [OF wf] by auto
  have none: "es = [] \<longleftrightarrow> {i. is_leaf es i} = {}" using leaf_exists [OF wf] by (auto simp: is_leaf_def)
  show ?thesis
    using leaf max none
    by (auto simp: resume_target_def resolve_resume_head_def at max_leaf_Max [OF assms]
        split: option.splits)
qed

section \<open>Forests\<close>

lemma forest_log_snoc:
  "forest_log (es @ [e]) \<longleftrightarrow>
     forest_log es \<and> (\<forall>x \<in> set es. se_id x < se_id e) \<and>
     (case se_parent_id e of None \<Rightarrow> True | Some p \<Rightarrow> p \<in> se_id ` set es)"
  by (auto simp: forest_log_def sorted_wrt_append nth_append less_Suc_eq split: option.splits)

lemma forest_log_Nil [simp]: "forest_log []"
  by (simp add: forest_log_def)

lemma forest_log_parents: "forest_log es \<Longrightarrow> e \<in> set es \<Longrightarrow> se_parent_id e = Some p \<Longrightarrow> p \<in> se_id ` set es"
  by (induction es rule: rev_induct) (auto simp: forest_log_snoc split: option.splits)

lemma forest_log_prefix: "forest_log (es @ es') \<Longrightarrow> forest_log es"
  by (induction es' rule: rev_induct) (auto simp: forest_log_snoc simp flip: append_assoc)

lemma forest_log_reaches: "forest_log es \<Longrightarrow> e \<in> set es \<Longrightarrow> reaches_root es (se_id e)"
proof (induction es arbitrary: e rule: rev_induct)
  case (snoc x es)
  have old: "reaches_root (es @ [x]) (se_id y)" if "y \<in> set es" for y
  proof (rule reaches_root_mono)
    show "reaches_root es (se_id y)" using snoc.IH [OF _ that] snoc.prems(1) forest_log_prefix by blast
  qed auto
  show ?case
  proof (cases "e \<in> set es")
    case False
    then have e: "e = x" using snoc.prems(2) by simp
    show ?thesis
    proof (cases "se_parent_id x")
      case None
      then show ?thesis using e by (intro reaches_root.root) simp_all
    next
      case (Some p)
      then obtain y where "y \<in> set es" "se_id y = p" using snoc.prems(1) by (auto simp: forest_log_snoc)
      then show ?thesis using Some e old by (intro reaches_root.step [of e _ p]) auto
    qed
  qed (use old in blast)
qed simp

lemma forest_well_formed:
  assumes "forest_log es"
  shows "well_formed_log es \<longleftrightarrow> length (roots es) \<le> 1"
proof -
  have "parents_exist es"
    using forest_log_parents [OF assms] by (auto simp: parents_exist_def split: option.splits)
  moreover have "distinct (map se_id es)" using assms by (simp add: forest_log_def strict_sorted_iff)
  ultimately show ?thesis using forest_log_reaches [OF assms] by (auto simp: well_formed_log_def)
qed

lemma append_log_forest: "append_log es \<Longrightarrow> forest_log es"
  by (induction es rule: rev_induct) (auto simp: append_log_snoc forest_log_snoc split: option.splits)

section \<open>Several lanes over one log\<close>

lemma of_lane_simps [simp]:
  "of_lane l [] = []" "of_lane l ((k, x) # xs) = (if k = l then x # of_lane l xs else of_lane l xs)"
  by (simp_all add: of_lane_def)

lemma appends_simps [simp]:
  "appends [] = []" "appends ((l, LaneAppend m) # ops) = (l, m) # appends ops"
  "appends ((l, LaneInitial h) # ops) = appends ops" "appends ((l, LaneFork p) # ops) = appends ops"
  by (simp_all add: appends_def List.map_filter_def)

lemma forkless_Cons: "forkless ((l, op) # ops) \<longleftrightarrow> (\<forall>p. op \<noteq> LaneFork p) \<and> forkless ops"
  by (auto simp: forkless_def)

lemma of_lane_map: "of_lane l (map (apsnd f) xs) = map f (of_lane l xs)"
  by (induction xs) auto

context session_store
begin

text \<open>The entries a run adds, tagged with the lane that wrote them.\<close>

lemma lane_step_log:
  assumes "lane_step append (Some put_head) (l, op) (cur, sh) = (Inr r, (cur', sh'))"
    and "inv (sh_inner sh)" and "ops_good good [(l, op)]"
    and "forest_log (entries_of (records (sh_inner sh)))" and "\<forall>p. op \<noteq> LaneFork p"
    and "\<forall>h. cur l = Some h \<longrightarrow> h \<in> se_id ` set (entries_of (records (sh_inner sh)))"
  shows "(case op of
      LaneAppend m \<Rightarrow> \<exists>i. r = Some i \<and> cur' = cur(l := Some i) \<and>
        entries_of (records (sh_inner sh')) = entries_of (records (sh_inner sh)) @
          [\<lparr>se_id = i, se_parent_id = cur l, se_message = m\<rparr>]
    | _ \<Rightarrow> r = None \<and> cur' = cur \<and>
        entries_of (records (sh_inner sh')) = entries_of (records (sh_inner sh)))"
    and "inv (sh_inner sh')" and "forest_log (entries_of (records (sh_inner sh')))"
proof -
  note h = lane_step_heads [OF assms(1-3)]
  show "inv (sh_inner sh')" using h by blast
  have ap: "\<exists>i. r = Some i \<and> cur' = cur(l := Some i) \<and>
        entries_of (records (sh_inner sh')) = entries_of (records (sh_inner sh)) @
          [\<lparr>se_id = i, se_parent_id = cur l, se_message = m\<rparr>]
        \<and> (\<forall>e \<in> set (entries_of (records (sh_inner sh))). se_id e < i)"
    if "op = LaneAppend m" for m
  proof -
    have g: "good (RecMessage \<lparr>se_id = i, se_parent_id = p, se_message = m\<rparr>)"
      "good (RecLaneHead \<lparr>lh_lane_id = l, lh_head = Some i\<rparr>)" for i p
      using assms(3) that by (auto simp: ops_good_def)
    from assms(1) that obtain i s1 s2 where
      a: "append (cur l) m (sh_inner sh) = (Inr i, s1)" and p: "put_head l (Some i) s1 = (Inr (), s2)"
      and r: "r = Some i" "cur' = cur(l := Some i)" "sh_inner sh' = s2"
      by (auto simp: writer_append_def append_with_head_def split: prod.splits sum.splits)
    show ?thesis
      using append_ok [OF assms(2) a g(1)] entries_put_head [OF _ p g(2)] r by auto
  qed
  have ini: "r = None \<and> cur' = cur \<and>
        entries_of (records (sh_inner sh')) = entries_of (records (sh_inner sh))"
    if "op = LaneInitial hd" for hd
  proof -
    have g: "good (RecLaneHead \<lparr>lh_lane_id = l, lh_head = hd\<rparr>)"
      using assms(3) that by (auto simp: ops_good_def)
    show ?thesis
      using assms(1) that entries_put_head [OF assms(2) _ g]
      by (auto simp: persist_initial_head_def split: prod.splits sum.splits if_splits)
  qed
  show "case op of
      LaneAppend m \<Rightarrow> \<exists>i. r = Some i \<and> cur' = cur(l := Some i) \<and>
        entries_of (records (sh_inner sh')) = entries_of (records (sh_inner sh)) @
          [\<lparr>se_id = i, se_parent_id = cur l, se_message = m\<rparr>]
    | _ \<Rightarrow> r = None \<and> cur' = cur \<and>
        entries_of (records (sh_inner sh')) = entries_of (records (sh_inner sh))"
    using ap ini assms(5) by (cases op) auto
  show "forest_log (entries_of (records (sh_inner sh')))"
    using ap ini assms(4-6) by (cases op) (auto simp: forest_log_snoc split: option.splits)
qed

lemma run_lanes_log:
  assumes "run_lanes append (Some put_head) ops (cur, sh) = (Inr ids, (cur', sh'))"
    and "inv (sh_inner sh)" and "ops_good good ops" and "forkless ops"
    and "forest_log (entries_of (records (sh_inner sh)))"
    and "\<forall>(l, m) \<in> set (appends ops). \<forall>h. cur l = Some h \<longrightarrow>
      h \<in> se_id ` set (entries_of (records (sh_inner sh)))"
  shows "\<exists>new. entries_of (records (sh_inner sh')) = entries_of (records (sh_inner sh)) @ map snd new \<and>
    map (apsnd se_id) new = ids \<and> map (apsnd se_message) new = appends ops \<and>
    forest_log (entries_of (records (sh_inner sh'))) \<and> (\<forall>l. chain_to (cur l) (of_lane l new) (cur' l))"
  using assms
proof (induction ops arbitrary: cur sh ids)
  case Nil
  then show ?case by (intro exI [of _ "[]"]) simp
next
  case (Cons x ops)
  obtain k op where x: "x = (k, op)" by force
  from Cons.prems(1) obtain r cur1 sh1 ids' where
    st: "lane_step append (Some put_head) (k, op) (cur, sh) = (Inr r, (cur1, sh1))"
    and run: "run_lanes append (Some put_head) ops (cur1, sh1) = (Inr ids', (cur', sh'))"
    and ids: "ids = (case r of None \<Rightarrow> [] | Some i \<Rightarrow> [(k, i)]) @ ids'"
    by (auto simp: x split: prod.splits sum.splits option.splits)
  have g: "ops_good good [(k, op)]" "ops_good good ops"
    using Cons.prems(3) unfolding ops_good_def x by simp_all
  have nf: "\<forall>p. op \<noteq> LaneFork p" "forkless ops" using Cons.prems(4) by (simp_all add: x forkless_Cons)
  let ?es = "entries_of (records (sh_inner sh))"
  show ?case
  proof (cases op)
    case (LaneAppend m)
    have c: "\<forall>h. cur k = Some h \<longrightarrow> h \<in> se_id ` set ?es"
      using Cons.prems(6) by (simp add: x LaneAppend)
    note s = lane_step_log [OF st Cons.prems(2) g(1) Cons.prems(5) nf(1) c]
    then obtain i where i: "r = Some i" "cur1 = cur(k := Some i)"
      "entries_of (records (sh_inner sh1)) = ?es @ [\<lparr>se_id = i, se_parent_id = cur k, se_message = m\<rparr>]"
      by (auto simp: LaneAppend)
    have "\<forall>(l, m) \<in> set (appends ops). \<forall>h. cur1 l = Some h \<longrightarrow>
      h \<in> se_id ` set (entries_of (records (sh_inner sh1)))"
      using Cons.prems(6) by (fastforce simp: x LaneAppend i split: if_splits)
    from Cons.IH [OF run s(2) g(2) nf(2) s(3) this] obtain new where
      n: "entries_of (records (sh_inner sh')) = entries_of (records (sh_inner sh1)) @ map snd new"
        "map (apsnd se_id) new = ids'" "map (apsnd se_message) new = appends ops"
        "forest_log (entries_of (records (sh_inner sh')))" "\<forall>l. chain_to (cur1 l) (of_lane l new) (cur' l)"
      by blast
    let ?new = "(k, \<lparr>se_id = i, se_parent_id = cur k, se_message = m\<rparr>) # new"
    have "chain_to (cur l) (of_lane l ?new) (cur' l)" for l
      using n(5) [rule_format, of l] i(2) by (cases "l = k") auto
    then show ?thesis
      using n i ids by (intro exI [of _ ?new]) (auto simp: x LaneAppend)
  next
    case (LaneInitial h)
    have "entries_of (records (sh_inner sh1)) = ?es \<and> r = None \<and> cur1 = cur
      \<and> inv (sh_inner sh1) \<and> forest_log (entries_of (records (sh_inner sh1)))"
    proof -
      have st': "lane_step append (Some put_head) (k, LaneInitial h) (cur(k := None), sh)
          = (Inr r, (cur1(k := None), sh1))"
        using st by (auto simp: LaneInitial split: prod.splits sum.splits)
      have g': "ops_good good [(k, LaneInitial h)]" using g(1) LaneInitial by simp
      show ?thesis
        using lane_step_log [OF st' Cons.prems(2) g' Cons.prems(5)] st
        by (auto simp: LaneInitial split: prod.splits sum.splits)
    qed
    then show ?thesis using Cons.IH [OF run _ g(2) nf(2)] Cons.prems(5,6) ids by (auto simp: x LaneInitial)
  qed (use nf in auto)
qed

end

section \<open>Chains of a lane\<close>

lemma chain_to_append: "chain_to from (xs @ ys) i \<longleftrightarrow> (\<exists>j. chain_to from xs j \<and> chain_to j ys i)"
  by (induction xs arbitrary: "from") auto

lemma chain_to_parents:
  "chain_to from xs i \<Longrightarrow> e \<in> set xs \<Longrightarrow> se_parent_id e = from \<or>
     (\<exists>y \<in> set (butlast xs). se_parent_id e = Some (se_id y))"
proof (induction xs arbitrary: "from")
  case (Cons x xs)
  show ?case
  proof (cases xs)
    case Nil
    then show ?thesis using Cons.prems by simp
  next
    case (Cons y ys)
    then show ?thesis using Cons.IH [of "Some (se_id x)"] Cons.prems by auto
  qed
qed simp

lemma reaches_root_chain:
  "reaches_root es i \<Longrightarrow> \<exists>cs. set cs \<subseteq> set es \<and> chain_to None cs (Some i)"
proof (induction rule: reaches_root.induct)
  case (root e)
  then show ?case by (intro exI [of _ "[e]"]) simp
next
  case (step e p)
  then obtain cs where "set cs \<subseteq> set es" "chain_to None cs (Some p)" by blast
  then show ?case using step by (intro exI [of _ "cs @ [e]"]) (simp add: chain_to_snoc)
qed

lemma chain_to_last: "chain_to from xs i \<Longrightarrow> xs \<noteq> [] \<Longrightarrow> i = Some (se_id (last xs))"
  by (cases xs rule: rev_cases) (auto simp: chain_to_snoc)

lemma of_lane_sub: "set (of_lane l new) \<subseteq> snd ` set new"
  by (auto simp: of_lane_def)

lemma in_of_lane: "(k, e) \<in> set new \<Longrightarrow> e \<in> set (of_lane k new)"
  by (force simp: of_lane_def)

lemma last_append_of_lane:
  "last_append l (map (apsnd f) new) =
     (if of_lane l new = [] then None else Some (f (last (of_lane l new))))"
  by (induction new) (auto simp: last_append_Cons)

text \<open>Each lane with an empty cursor adds one root.\<close>

lemma chains_roots:
  assumes "\<forall>l. chain_to (cur l) (of_lane l new) (cur' l)"
  shows "length (roots (map snd new)) = card {l \<in> fst ` set new. cur l = None}"
  using assms
proof (induction new arbitrary: cur)
  case Nil
  then show ?case by (simp add: roots_def)
next
  case (Cons x new)
  obtain k e where x: "x = (k, e)" by force
  have k: "se_parent_id e = cur k"
    and ch: "\<forall>l. chain_to ((cur(k := Some (se_id e))) l) (of_lane l new) (cur' l)"
    using Cons.prems by (auto simp: x split: if_splits)
  let ?old = "{l \<in> fst ` set new. (cur(k := Some (se_id e))) l = None}"
  have "{l \<in> fst ` set (x # new). cur l = None} = (if cur k = None then insert k ?old else ?old)"
    by (auto simp: x)
  moreover have "finite ?old" "k \<notin> ?old" by auto
  ultimately show ?case using Cons.IH [OF ch] k by (simp add: x roots_def)
qed

text \<open>The last entry of a lane has no child: other lanes started before it existed.\<close>

lemma last_is_leaf:
  assumes "forest_log (es @ map snd new)"
    and "\<forall>l. chain_to (cur l) (of_lane l new) (cur' l)"
    and "\<forall>k \<in> fst ` set new. \<forall>h. cur k = Some h \<longrightarrow> h \<in> se_id ` set es"
    and "of_lane l new \<noteq> []"
  shows "is_leaf (es @ map snd new) (se_id (last (of_lane l new)))"
proof -
  let ?all = "es @ map snd new" and ?x = "last (of_lane l new)"
  have d: "distinct (map se_id ?all)" using assms(1) by (simp add: forest_log_def strict_sorted_iff)
  then have disj: "se_id ` set es \<inter> se_id ` snd ` set new = {}" and dn: "distinct (map se_id (map snd new))"
    by auto
  have inj: "a = b" if "a \<in> set new" "b \<in> set new" "se_id (snd a) = se_id (snd b)" for a b
    using dn that by (auto simp: distinct_map inj_on_def dest!: bspec)
  have xin: "(l, ?x) \<in> set new" using last_in_set [OF assms(4)] by (auto simp: of_lane_def)
  have "se_parent_id e \<noteq> Some (se_id ?x)" if e: "e \<in> set ?all" for e
  proof (cases "e \<in> set es")
    case True
    have "forest_log es" using assms(1) by (rule forest_log_prefix)
    then show ?thesis using forest_log_parents [OF _ True] disj xin by force
  next
    case False
    with e obtain k where k: "(k, e) \<in> set new" by auto
    then have "se_parent_id e = cur k \<or> (\<exists>y \<in> set (butlast (of_lane k new)). se_parent_id e = Some (se_id y))"
      using chain_to_parents assms(2) in_of_lane by metis
    then show ?thesis
    proof
      assume "se_parent_id e = cur k"
      then show ?thesis using assms(3) k disj xin by force
    next
      assume "\<exists>y \<in> set (butlast (of_lane k new)). se_parent_id e = Some (se_id y)"
      then obtain y where y: "y \<in> set (butlast (of_lane k new))" "se_parent_id e = Some (se_id y)" by blast
      show ?thesis
      proof
        assume eq: "se_parent_id e = Some (se_id ?x)"
        have "(k, y) \<in> set new" using in_set_butlastD [OF y(1)] by (auto simp: of_lane_def)
        then have "k = l" "y = ?x" using inj [of "(k, y)" "(l, ?x)"] xin eq y(2) by auto
        moreover have "distinct (of_lane l new)"
          using dn unfolding of_lane_def by (metis distinct_map distinct_map_filter)
        ultimately show False using y(1) by (metis append_butlast_last_id assms(4) distinct_append
          disjoint_iff list.set_intros(1))
      qed
    qed
  qed
  then show ?thesis using xin by (force simp: is_leaf_def)
qed

section \<open>Runs over a clean file\<close>

text \<open>A starting head is a node of the log.\<close>

definition heads_known :: "SessionEntry list \<Rightarrow> (LaneId \<Rightarrow> NodeId option) \<Rightarrow> (LaneId \<times> lane_op) list \<Rightarrow> bool" where
  "heads_known es cur ops =
     (\<forall>(l, m) \<in> set (appends ops). \<forall>h. cur l = Some h \<longrightarrow> h \<in> se_id ` set es)"

definition file_entries :: "de \<Rightarrow> JsonlSessionStorage \<Rightarrow> SessionEntry list" where
  "file_entries de st = entries_of (file_records de st)"

lemma run_lanes_file:
  assumes "clean_store ser de good (sh_inner sh)" and "ops_good good ops" and "forkless ops"
    and "forest_log (file_entries de (sh_inner sh))"
    and "heads_known (file_entries de (sh_inner sh)) cur ops"
    and "run_lanes (append_entry ser de) (Some (append_lane_head ser)) ops (cur, sh) = (Inr ids, (cur', sh'))"
  obtains new where "file_entries de (sh_inner sh') = file_entries de (sh_inner sh) @ map snd new"
    "map (apsnd se_id) new = ids" "map (apsnd se_message) new = appends ops"
    "forest_log (file_entries de (sh_inner sh'))" "\<forall>l. chain_to (cur l) (of_lane l new) (cur' l)"
    "clean_store ser de good (sh_inner sh')" "fst ` set new = fst ` set (appends ops)"
proof -
  have known: "\<forall>(l, m) \<in> set (appends ops). \<forall>h. cur l = Some h \<longrightarrow>
      h \<in> se_id ` set (entries_of (file_records de (sh_inner sh)))"
    and forest: "forest_log (entries_of (file_records de (sh_inner sh)))"
    using assms(4,5) by (simp_all add: heads_known_def file_entries_def)
  obtain new where n:
    "file_entries de (sh_inner sh') = file_entries de (sh_inner sh) @ map snd new"
    "map (apsnd se_id) new = ids" "map (apsnd se_message) new = appends ops"
    "forest_log (file_entries de (sh_inner sh'))" "\<forall>l. chain_to (cur l) (of_lane l new) (cur' l)"
    using jsonl.run_lanes_log [OF assms(6,1,2,3) forest known]
    unfolding file_entries_def by (elim exE conjE)
  moreover have "clean_store ser de good (sh_inner sh')"
    using jsonl.run_lanes_heads [OF assms(6,1,2), of undefined] by blast
  moreover have "fst ` set new = fst ` set (appends ops)"
    by (simp flip: n(3) add: image_image)
  ultimately show thesis using that by blast
qed

text \<open>A lane without operations keeps its persisted head.\<close>

lemma run_lanes_other_head:
  assumes "run_lanes (append_entry ser de) (Some (append_lane_head ser)) ops (cur, sh) = (Inr ids, (cur', sh'))"
    and "clean_store ser de good (sh_inner sh)" and "ops_good good ops" and "l \<notin> fst ` set ops"
  shows "jsonl.heads de (sh_inner sh') l = jsonl.heads de (sh_inner sh) l"
  using assms
proof (induction ops arbitrary: cur sh ids)
  case (Cons x ops)
  obtain k op where x: "x = (k, op)" by force
  from Cons.prems(1) obtain r cur1 sh1 ids' where
    st: "lane_step (append_entry ser de) (Some (append_lane_head ser)) (k, op) (cur, sh) = (Inr r, (cur1, sh1))"
    and run: "run_lanes (append_entry ser de) (Some (append_lane_head ser)) ops (cur1, sh1) = (Inr ids', (cur', sh'))"
    by (auto simp: x split: prod.splits sum.splits)
  have g: "ops_good good [(k, op)]" "ops_good good ops"
    using Cons.prems(3) unfolding ops_good_def x by simp_all
  note s = jsonl.lane_step_heads [OF st Cons.prems(2) g(1)]
  have "k \<noteq> l" using Cons.prems(4) x by auto
  moreover have "clean_store ser de good (sh_inner sh1)" using s by blast
  ultimately show ?case using Cons.IH [OF run _ g(2)] s Cons.prems(4) by auto
qed simp

lemma load_clean_store:
  assumes "clean_store ser de good st" and "js_io st = []"
  shows "(\<exists>t st'. load de st = (Ok t, st')) \<longleftrightarrow> well_formed_log (file_entries de st)"
    and "load de st = (Ok t, st') \<Longrightarrow> reduce_for (file_entries de st) (js_session_id st) = Ok t \<and>
      load_lane_heads de st' = (Inr (jsonl.heads de st), st')"
proof -
  obtain rs where c: "codec_ok ser de good" and h: "holds_log ser good rs st"
    using assms(1) by (auto simp: clean_store_def)
  have rd: "read_records de io_ok (js_file st) = Inr rs"
    using read_records_clean [OF c] h by (simp add: holds_log_def)
  have es: "file_entries de st = entries_of rs"
    by (simp add: file_entries_def file_records_def rd)
  show res: "load de st = (Ok t, st') \<Longrightarrow> reduce_for (file_entries de st) (js_session_id st) = Ok t \<and>
      load_lane_heads de st' = (Inr (jsonl.heads de st), st')"
    using assms(2) rd unfolding es
    by (auto simp: load_def load_lane_heads_def jsonl.heads_def file_records_def next_io_def
        split: outcome.splits option.splits if_splits)
  show "(\<exists>t st'. load de st = (Ok t, st')) \<longleftrightarrow> well_formed_log (file_entries de st)"
  proof
    assume "\<exists>t st'. load de st = (Ok t, st')"
    then obtain t' st'' where l: "load de st = (Ok t', st'')" by blast
    then have "reduce_for (entries_of rs) (js_session_id st) = Ok t'"
      using assms(2) rd by (auto simp: load_def next_io_def split: outcome.splits option.splits if_splits)
    then show "well_formed_log (file_entries de st)" using reduce_for_Ok_iff es by metis
  next
    assume "well_formed_log (file_entries de st)"
    then show "\<exists>t st'. load de st = (Ok t, st')"
      using load_well_formed [OF c h assms(2)] es by auto
  qed
qed

lemma run_lanes_roots:
  assumes "clean_store ser de good (sh_inner sh)" and "ops_good good ops" and "forkless ops"
    and "forest_log (file_entries de (sh_inner sh))"
    and "heads_known (file_entries de (sh_inner sh)) cur ops"
    and "run_lanes (append_entry ser de) (Some (append_lane_head ser)) ops (cur, sh) = (Inr ids, (cur', sh'))"
  shows "well_formed_log (file_entries de (sh_inner sh')) \<longleftrightarrow>
    length (roots (file_entries de (sh_inner sh))) + card (new_roots cur ops) \<le> 1"
proof -
  from run_lanes_file [OF assms] obtain new where n:
    "file_entries de (sh_inner sh') = file_entries de (sh_inner sh) @ map snd new"
    "map (apsnd se_id) new = ids" "map (apsnd se_message) new = appends ops"
    "forest_log (file_entries de (sh_inner sh'))" "\<forall>l. chain_to (cur l) (of_lane l new) (cur' l)"
    "clean_store ser de good (sh_inner sh')" "fst ` set new = fst ` set (appends ops)" .
  have "length (roots (map snd new)) = card (new_roots cur ops)"
    using chains_roots [OF n(5)] n(7) by (simp add: new_roots_def)
  moreover have "roots (xs @ ys) = roots xs @ roots ys" for xs ys by (simp add: roots_def)
  ultimately show ?thesis using forest_well_formed [OF n(4)] n(1) by simp
qed

lemma run_lanes_path:
  assumes "clean_store ser de good (sh_inner sh)" and "ops_good good ops" and "forkless ops"
    and "forest_log (file_entries de (sh_inner sh))"
    and "heads_known (file_entries de (sh_inner sh)) cur ops"
    and "run_lanes (append_entry ser de) (Some (append_lane_head ser)) ops (cur, sh) = (Inr ids, (cur', sh'))"
    and "l \<in> fst ` set (appends ops)"
    and "set seed \<subseteq> set (file_entries de (sh_inner sh))" and "chain_to None seed (cur l)"
    and "reduce_for (file_entries de (sh_inner sh')) sid = Ok t"
  shows "\<exists>i. last_append l ids = Some i \<and> cur' l = Some i \<and> is_leaf (file_entries de (sh_inner sh')) i \<and>
    path_to t i = Some (Some (map se_message seed @ of_lane l (appends ops)))"
proof -
  let ?old = "file_entries de (sh_inner sh)" and ?all = "file_entries de (sh_inner sh')"
  from run_lanes_file [OF assms(1-6)] obtain new where n:
    "file_entries de (sh_inner sh') = file_entries de (sh_inner sh) @ map snd new"
    "map (apsnd se_id) new = ids" "map (apsnd se_message) new = appends ops"
    "forest_log (file_entries de (sh_inner sh'))" "\<forall>l. chain_to (cur l) (of_lane l new) (cur' l)"
    "clean_store ser de good (sh_inner sh')" "fst ` set new = fst ` set (appends ops)" .
  have "l \<in> fst ` set new" using assms(7) unfolding n(7) .
  then obtain e where "(l, e) \<in> set new" by auto
  from in_of_lane [OF this] have ne: "of_lane l new \<noteq> []" by auto
  let ?i = "se_id (last (of_lane l new))"
  have chain: "chain_to (cur l) (of_lane l new) (cur' l)" using n(5) by blast
  then have cur': "cur' l = Some ?i" using chain_to_last [OF _ ne] by blast
  have la: "last_append l ids = Some ?i" unfolding n(2) [symmetric] using ne by (simp add: last_append_of_lane)
  have known: "\<forall>k \<in> fst ` set new. \<forall>h. cur k = Some h \<longrightarrow> h \<in> se_id ` set ?old"
    using assms(5) unfolding n(7) heads_known_def by force
  have leaf: "is_leaf ?all ?i"
    using last_is_leaf [OF _ n(5) known ne] n(1,4) by simp
  from resume_leaf [OF assms(10) leaf] obtain cs where cs: "set cs \<subseteq> set ?all" "chain_to None cs (Some ?i)"
    "path_to t ?i = Some (Some (map se_message cs))" by blast
  have "chain_to None (seed @ of_lane l new) (Some ?i)"
    using assms(9) chain cur' by (auto simp: chain_to_append)
  moreover have "set (seed @ of_lane l new) \<subseteq> set ?all"
    using assms(8) of_lane_sub [of l new] n(1) by auto
  ultimately have "cs = seed @ of_lane l new"
    using chain_to_unique [OF _ cs(1) _ cs(2)] n(4) by (simp add: forest_log_def strict_sorted_iff)
  moreover have "of_lane l (appends ops) = map se_message (of_lane l new)"
    unfolding n(3) [symmetric] by (rule of_lane_map)
  ultimately show ?thesis using la cur' leaf cs(3) by simp
qed

section \<open>Properties\<close>

text \<open>
  The head a lane is resumed at.  On a tree that was loaded from a log, an explicit head
  wins over the persisted one, which wins over the largest leaf; the chosen head must be a
  leaf and the transcript is then the chain of messages from the root to it, otherwise the
  request is refused.  The error about an unavailable active leaf never occurs.
\<close>

theorem resume_head:
  assumes "reduce_for es sid = Ok t"
  shows "case resume_target es head persisted of
      None \<Rightarrow> resolve_resume_head t head persisted = Some (Inr (None, []))
    | Some h \<Rightarrow>
        if is_leaf es h
        then \<exists>cs. set cs \<subseteq> set es \<and> chain_to None cs (Some h) \<and>
          resolve_resume_head t head persisted = Some (Inr (Some h, map se_message cs))
        else resolve_resume_head t head persisted = Some (Inl (SvProtocol (not_a_leaf h)))"
  using assms by (rule resolve_target)

definition demo_es :: "SessionEntry list" where
  "demo_es =
     [\<lparr>se_id = 0, se_parent_id = None, se_message = user_text ''a''\<rparr>,
      \<lparr>se_id = 1, se_parent_id = Some 0, se_message = user_text ''b''\<rparr>]"

lemma demo_es_log: "append_log demo_es"
  by (simp add: demo_es_def append_log_def less_Suc_eq)

theorem resume_head_witness:
  "\<exists>t. reduce_for demo_es [] = Ok t \<and>
    resolve_resume_head t (Some 0) None = Some (Inl (SvProtocol (not_a_leaf 0))) \<and>
    resolve_resume_head t None (Some None) = Some (Inr (None, []))"
proof -
  obtain t where t: "reduce_for demo_es [] = Ok t"
    using append_log_well_formed [OF demo_es_log] reduce_for_Ok_iff by blast
  have "\<not> is_leaf demo_es 0" by (simp add: is_leaf_def demo_es_def)
  then show ?thesis
    using t resume_head [OF t, of "Some 0" None] resume_head [OF t, of None "Some None"]
    by (simp add: resume_target_def)
qed

text \<open>
  When a session written by several lanes can be loaded.  Lanes append and persist
  initial heads in any order, each starting from a node of the log or from nothing.  If all
  writes succeed, the file loads exactly when the roots it had and the lanes that started
  from nothing and appended are at most one together; so two lanes spawned into one
  session, or one spawned into a session with a history, leave a file that never loads.
\<close>

theorem lanes_loadable:
  assumes "clean_store ser de good (sh_inner sh)" and "ops_good good ops" and "forkless ops"
    and "forest_log (file_entries de (sh_inner sh))"
    and "heads_known (file_entries de (sh_inner sh)) cur ops"
    and "run_lanes (append_entry ser de) (Some (append_lane_head ser)) ops (cur, sh) = (Inr ids, (cur', sh'))"
    and "js_io (sh_inner sh') = []"
  shows "(\<exists>t st. load de (sh_inner sh') = (Ok t, st)) \<longleftrightarrow>
    length (roots (file_entries de (sh_inner sh))) + card (new_roots cur ops) \<le> 1"
proof -
  from run_lanes_file [OF assms(1-6)] have "clean_store ser de good (sh_inner sh')" .
  then show ?thesis using load_clean_store(1) [OF _ assms(7)] run_lanes_roots [OF assms(1-6)] by blast
qed

definition two_lanes :: "(LaneId \<times> lane_op) list" where
  "two_lanes = [(''l'', LaneInitial None), (''k'', LaneInitial None),
     (''l'', LaneAppend (user_text ''m'')), (''k'', LaneAppend (user_text ''m''))]"

lemmas bit_run_simps = writer_append_def append_with_head_def append_entry_def append_lane_head_def
  next_io_def acquire_file_lock_def claim_next_id_def write_line_def io_ok_def
  persist_initial_head_def shared_new_def empty_store_def

lemma empty_store_clean:
  "clean_store (\<lambda>r. Inr (bit_text r)) bit_de bit_good (sh_inner (shared_new (empty_store b)))"
  "file_entries bit_de (sh_inner (shared_new (empty_store b))) = []"
  using bit_codec
  by (auto simp: clean_store_def holds_log_def shared_new_def empty_store_def log_file_def
      file_entries_def file_records_def read_records_def io_ok_def entries_of_def List.map_filter_def
      intro!: exI [of _ "[]"])

theorem lanes_loadable_witness:
  "\<exists>cur' sh'. run_lanes (append_entry (\<lambda>r. Inr (bit_text r)) bit_de)
       (Some (append_lane_head (\<lambda>r. Inr (bit_text r)))) two_lanes
       (\<lambda>_. None, shared_new (empty_store False)) = (Inr [(''l'', 0), (''k'', 1)], (cur', sh')) \<and>
     (\<nexists>t st. load bit_de (sh_inner sh') = (Ok t, st))"
proof -
  obtain cur' sh' where run: "run_lanes (append_entry (\<lambda>r. Inr (bit_text r)) bit_de)
       (Some (append_lane_head (\<lambda>r. Inr (bit_text r)))) two_lanes
       (\<lambda>_. None, shared_new (empty_store False)) = (Inr [(''l'', 0), (''k'', 1)], (cur', sh'))"
    and io: "js_io (sh_inner sh') = []"
    by (simp add: two_lanes_def bit_run_simps)
  have "new_roots (\<lambda>_. None) two_lanes = {''l'', ''k''}" by (auto simp: new_roots_def two_lanes_def)
  moreover have "ops_good bit_good two_lanes" "forkless two_lanes"
    by (simp_all add: ops_good_def bit_good_def two_lanes_def forkless_def)
  ultimately show ?thesis
    using lanes_loadable [OF empty_store_clean(1) _ _ _ _ run io] run
    by (simp add: empty_store_clean(2) heads_known_def roots_def)
qed

text \<open>
  C9: a lane is resumed where it stopped, when the session can be loaded at all.  Lanes append and
  persist initial heads, interleaved in any order, in a run that moves no
  lane to another node (each starts from nothing or from a node of the log, as a fork does) and
  whose writes all succeed.  If the file then has at most one root, counting the lanes that
  started from nothing, the snapshot the recovery takes gives each lane that appended its
  last entry as head, and the resumed transcript is the messages on the path it started from
  followed by the messages it appended, in order and without those of the other lanes.  If it has more,
  as after two spawned lanes have both written, there is no snapshot and no lane is resumed.
\<close>

theorem lane_resumed:
  assumes "clean_store ser de good (sh_inner sh)" and "ops_good good ops" and "forkless ops"
    and "forest_log (file_entries de (sh_inner sh))"
    and "heads_known (file_entries de (sh_inner sh)) cur ops"
    and "run_lanes (append_entry ser de) (Some (append_lane_head ser)) ops (cur, sh) = (Inr ids, (cur', sh'))"
    and "js_io (sh_inner sh') = []"
    and "l \<in> fst ` set (appends ops)"
    and "set seed \<subseteq> set (file_entries de (sh_inner sh))" and "chain_to None seed (cur l)"
  shows "if length (roots (file_entries de (sh_inner sh))) + card (new_roots cur ops) \<le> 1
    then \<exists>t hds sh'' i. snapshot (load de) (Some (load_lane_heads de)) sh' = (Ok (t, hds), sh'') \<and>
      last_append l ids = Some i \<and> hds l = Some (Some i) \<and>
      resolve_resume_head t None (hds l) =
        Some (Inr (Some i, map se_message seed @ of_lane l (appends ops)))
    else \<forall>x sh''. snapshot (load de) (Some (load_lane_heads de)) sh' \<noteq> (Ok x, sh'')"
proof (cases "length (roots (file_entries de (sh_inner sh))) + card (new_roots cur ops) \<le> 1")
  case False
  have "clean_store ser de good (sh_inner sh')" using run_lanes_file [OF assms(1-6)] .
  then have "\<nexists>t st. load de (sh_inner sh') = (Ok t, st)"
    using load_clean_store(1) [OF _ assms(7)] run_lanes_roots [OF assms(1-6)] False by blast
  then have "snapshot (load de) (Some (load_lane_heads de)) sh' \<noteq> (Ok x, sh'')" for x sh''
    by (auto simp: snapshot_def split: prod.splits outcome.splits)
  with False show ?thesis by simp
next
  case True
  have cl: "clean_store ser de good (sh_inner sh')"
    using run_lanes_file [OF assms(1-6)] .
  have "well_formed_log (file_entries de (sh_inner sh'))"
    using run_lanes_roots [OF assms(1-6)] True by blast
  then obtain t st where ld: "load de (sh_inner sh') = (Ok t, st)"
    using load_clean_store(1) [OF cl assms(7)] by blast
  note r = load_clean_store(2) [OF cl assms(7) ld]
  obtain i where i: "last_append l ids = Some i" "is_leaf (file_entries de (sh_inner sh')) i"
    "path_to t i = Some (Some (map se_message seed @ of_lane l (appends ops)))"
    using run_lanes_path [OF assms(1-6,8-10)] r by blast
  have "jsonl.heads de (sh_inner sh') l = Some (Some i)"
    using jsonl.run_lanes_heads [OF assms(6,1,2), of l] i(1) by simp
  then show ?thesis
    using True ld r i by (simp add: snapshot_def load_lane_heads_unlocked_def resolve_resume_head_def
        transcript_from_path_def)
qed

definition one_lane :: "(LaneId \<times> lane_op) list" where
  "one_lane = [(''l'', LaneAppend (user_text ''m'')), (''l'', LaneInitial None),
     (''l'', LaneAppend (user_text ''m''))]"

theorem lane_resumed_witness:
  "\<exists>cur' sh' t hds sh''. run_lanes (append_entry (\<lambda>r. Inr (bit_text r)) bit_de)
       (Some (append_lane_head (\<lambda>r. Inr (bit_text r)))) one_lane
       (\<lambda>_. None, shared_new (empty_store False)) = (Inr [(''l'', 0), (''l'', 1)], (cur', sh')) \<and>
     snapshot (load bit_de) (Some (load_lane_heads bit_de)) sh' = (Ok (t, hds), sh'') \<and>
     resolve_resume_head t None (hds ''l'') = Some (Inr (Some 1, [user_text ''m'', user_text ''m'']))"
proof -
  obtain cur' sh' where run: "run_lanes (append_entry (\<lambda>r. Inr (bit_text r)) bit_de)
       (Some (append_lane_head (\<lambda>r. Inr (bit_text r)))) one_lane
       (\<lambda>_. None, shared_new (empty_store False)) = (Inr [(''l'', 0), (''l'', 1)], (cur', sh'))"
    and io: "js_io (sh_inner sh') = []"
    by (simp add: one_lane_def bit_run_simps)
  have "new_roots (\<lambda>_. None) one_lane = {''l''}" by (auto simp: new_roots_def one_lane_def)
  moreover have "ops_good bit_good one_lane" "forkless one_lane"
    by (simp_all add: ops_good_def bit_good_def one_lane_def forkless_def)
  moreover have "last_append ''l'' [(''l'', 0), (''l'', 1)] = Some 1" by (simp add: last_append_def)
  moreover have "''l'' \<in> fst ` set (appends one_lane)"
    "of_lane ''l'' (appends one_lane) = [user_text ''m'', user_text ''m'']"
    by (simp_all add: one_lane_def)
  ultimately show ?thesis
    using lane_resumed [OF empty_store_clean(1) _ _ _ _ run io, of "''l''" "[]"] run
    by (auto simp: empty_store_clean(2) heads_known_def roots_def)
qed

text \<open>
  A lane that was forked from is stuck.  If the persisted head of a lane is the head
  another lane starts from, and only that other lane appends, resuming the first lane at its
  persisted head is refused with a protocol error.
\<close>

theorem forked_lane_refused:
  assumes "clean_store ser de good (sh_inner sh)" and "ops_good good ops" and "forkless ops"
    and "forest_log (file_entries de (sh_inner sh))"
    and "heads_known (file_entries de (sh_inner sh)) cur ops"
    and "run_lanes (append_entry ser de) (Some (append_lane_head ser)) ops (cur, sh) = (Inr ids, (cur', sh'))"
    and "js_io (sh_inner sh') = []"
    and "length (roots (file_entries de (sh_inner sh))) + card (new_roots cur ops) \<le> 1"
    and "k \<in> fst ` set (appends ops)" and "cur k = Some h"
    and "l \<notin> fst ` set ops" and "jsonl.heads de (sh_inner sh) l = Some (Some h)"
  shows "\<exists>t hds sh''. snapshot (load de) (Some (load_lane_heads de)) sh' = (Ok (t, hds), sh'') \<and>
    hds l = Some (Some h) \<and>
    resolve_resume_head t None (hds l) = Some (Inl (SvProtocol (not_a_leaf h)))"
proof -
  from run_lanes_file [OF assms(1-6)] obtain new where n:
    "file_entries de (sh_inner sh') = file_entries de (sh_inner sh) @ map snd new"
    "map (apsnd se_id) new = ids" "map (apsnd se_message) new = appends ops"
    "forest_log (file_entries de (sh_inner sh'))" "\<forall>l. chain_to (cur l) (of_lane l new) (cur' l)"
    "clean_store ser de good (sh_inner sh')" "fst ` set new = fst ` set (appends ops)" .
  have "well_formed_log (file_entries de (sh_inner sh'))"
    using run_lanes_roots [OF assms(1-6)] assms(8) by blast
  then obtain t st where ld: "load de (sh_inner sh') = (Ok t, st)"
    using load_clean_store(1) [OF n(6) assms(7)] by blast
  note r = load_clean_store(2) [OF n(6) assms(7) ld]
  obtain e where "(k, e) \<in> set new" using assms(9) unfolding n(7) [symmetric] by auto
  then have "of_lane k new \<noteq> []" using in_of_lane by force
  then obtain x xs where x: "of_lane k new = x # xs" by (cases "of_lane k new") auto
  then have "se_parent_id x = Some h" using n(5) [rule_format, of k] assms(10) by simp
  moreover have "x \<in> set (file_entries de (sh_inner sh'))" using of_lane_sub [of k new] x n(1) by auto
  ultimately have "\<not> is_leaf (file_entries de (sh_inner sh')) h" by (auto simp: is_leaf_def)
  then have p: "path_to t h = Some None" using resume_no_leaf r by blast
  have "jsonl.heads de (sh_inner sh') l = Some (Some h)"
    using run_lanes_other_head [OF assms(6,1,2,11)] assms(12) by simp
  then show ?thesis
    using ld r p by (simp add: snapshot_def load_lane_heads_unlocked_def resolve_resume_head_def)
qed

definition forked_records :: "SessionRecord list" where
  "forked_records =
     [RecMessage \<lparr>se_id = 0, se_parent_id = None, se_message = user_text ''m''\<rparr>,
      RecLaneHead \<lparr>lh_lane_id = ''l'', lh_head = Some 0\<rparr>]"

definition forked_store :: "JsonlSessionStorage SharedSessionStorage" where
  "forked_store = shared_new ((empty_store False)
     \<lparr>js_next_id := 1, js_file := Some (log_file (\<lambda>r. Inr (bit_text r)) forked_records)\<rparr>)"

theorem forked_lane_refused_witness:
  "\<exists>cur' sh' t hds sh''. run_lanes (append_entry (\<lambda>r. Inr (bit_text r)) bit_de)
       (Some (append_lane_head (\<lambda>r. Inr (bit_text r)))) [(''k'', LaneAppend (user_text ''m''))]
       ((\<lambda>_. None)(''k'' := Some 0), forked_store) = (Inr [(''k'', 1)], (cur', sh')) \<and>
     snapshot (load bit_de) (Some (load_lane_heads bit_de)) sh' = (Ok (t, hds), sh'') \<and>
     resolve_resume_head t None (hds ''l'') = Some (Inl (SvProtocol (not_a_leaf 0)))"
proof -
  let ?ops = "[(''k'', LaneAppend (user_text ''m''))]" and ?cur = "(\<lambda>_. None)(''k'' := Some 0)"
  obtain cur' sh' where run: "run_lanes (append_entry (\<lambda>r. Inr (bit_text r)) bit_de)
       (Some (append_lane_head (\<lambda>r. Inr (bit_text r)))) ?ops
       (?cur, forked_store) = (Inr [(''k'', 1)], (cur', sh'))"
    and io: "js_io (sh_inner sh') = []"
    by (simp add: bit_run_simps forked_store_def)
  have h: "holds_log (\<lambda>r. Inr (bit_text r)) bit_good forked_records (sh_inner forked_store)"
    by (simp add: holds_log_def forked_store_def shared_new_def empty_store_def forked_records_def bit_good_def)
  then have cl: "clean_store (\<lambda>r. Inr (bit_text r)) bit_de bit_good (sh_inner forked_store)"
    using bit_codec by (auto simp: clean_store_def)
  have rec: "file_records bit_de (sh_inner forked_store) = forked_records"
    using holds_log_records [OF bit_codec h] .
  have es: "file_entries bit_de (sh_inner forked_store) =
      [\<lparr>se_id = 0, se_parent_id = None, se_message = user_text ''m''\<rparr>]"
    by (simp add: file_entries_def rec forked_records_def)
  have "jsonl.heads bit_de (sh_inner forked_store) ''l'' = Some (Some 0)"
    by (simp add: jsonl.heads_def rec forked_records_def)
  moreover have "ops_good bit_good ?ops" "forkless ?ops" by (simp_all add: ops_good_def bit_good_def forkless_def)
  moreover have "new_roots ?cur ?ops = {}" by (simp add: new_roots_def)
  ultimately show ?thesis
    using forked_lane_refused [OF cl _ _ _ _ run io, of "''k''" 0 "''l''"] run
    by (auto simp: es heads_known_def roots_def forest_log_def)
qed

end
