(* ===== verification/Compactor.thy ===== *)
theory Compactor
  imports Message
begin

text \<open>
  The summary compactor of \<open>core/compactor.rs\<close>: the \<open>Compactor\<close> interface as a locale,
  and \<open>LlmCompactor\<close>, which asks a provider for the summary, as its implementation.

  A provider stream is seen through the outcomes of the polls on it.  Each poll of a
  \<open>select!\<close> yields the next event, the end of the stream, or the cancellation of the
  signal; a script of polls that runs out is a stream on which the caller still waits,
  and the result is then \<open>None\<close>.
\<close>

datatype stream_poll = PollEvent AssistantEvent | PollEnd | PollCancelled

datatype CompactionError =
    CeProvider ProviderError
  | CeCancelled
  | CeEmptyInput
  | CeEmptySummary

type_synonym compact_fn = "Message list \<Rightarrow> (CompactionError + string) option"

section \<open>The interface\<close>

text \<open>
  What \<open>plan_context\<close> relies on: no summary of nothing, and a summary that is delivered
  is never empty (an empty one would silently erase the history it replaces).
\<close>

locale compactor_contract =
  fixes compact :: compact_fn
  assumes empty_input: "compact [] = Some (Inl CeEmptyInput)"
    and summary_nonempty: "compact ms = Some (Inr s) \<Longrightarrow> s \<noteq> []"
begin

lemma summary_of_nonempty: "compact ms = Some (Inr s) \<Longrightarrow> ms \<noteq> []"
  using empty_input by auto

end

section \<open>LlmCompactor\<close>

record LlmCompactor =
  lc_model :: Model
  lc_summary_prompt :: string

fun user_content_line :: "UserContent \<Rightarrow> string" where
  "user_content_line (UserText t) = t"
| "user_content_line (UserImage img) = ''[image:'' @ img_mime_type img"

fun assistant_content_line :: "AssistantContent \<Rightarrow> string option" where
  "assistant_content_line (AssistantText t) = Some t"
| "assistant_content_line (AssistantThinking _) = None"
| "assistant_content_line (AssistantToolCall tc) = Some (''tool_call:'' @ tc_name tc)"

fun result_content_line :: "ToolResultContent \<Rightarrow> string" where
  "result_content_line (ResultText t) = t"
| "result_content_line (ResultImage img) = ''[image:'' @ img_mime_type img"

fun format_message_line :: "Message \<Rightarrow> string" where
  "format_message_line (User u) =
     ''[user] '' @ join [CHR 0x0A] (map user_content_line (um_content u))"
| "format_message_line (Assistant a) =
     ''[assistant] '' @ join [CHR 0x0A] (List.map_filter assistant_content_line (am_content a))"
| "format_message_line (ToolResult t) =
     ''[tool_result:'' @ trm_tool_name t @ ''] ''
       @ join [CHR 0x0A] (map result_content_line (trm_content t))"

definition format_messages_for_summary :: "Message list \<Rightarrow> string" where
  "format_messages_for_summary ms = join [CHR 0x0A] (map format_message_line ms)"

definition summary_request :: "LlmCompactor \<Rightarrow> Message list \<Rightarrow> ProviderRequest" where
  "summary_request c ms =
     \<lparr>req_model = lc_model c,
      req_context = \<lparr>ctx_system_prompt = lc_summary_prompt c,
                     ctx_messages = [user_text (format_messages_for_summary ms)],
                     ctx_tools = []\<rparr>,
      req_thinking_level = ThOff,
      req_session_id = None\<rparr>"

fun collect_summary :: "string \<Rightarrow> stream_poll list \<Rightarrow> (CompactionError + string) option" where
  "collect_summary summary [] = None"
| "collect_summary summary (PollCancelled # ps) = Some (Inl CeCancelled)"
| "collect_summary summary (PollEnd # ps) = Some (Inr summary)"
| "collect_summary summary (PollEvent ev # ps) =
     (case ev of
        TextDelta text \<Rightarrow> collect_summary (summary @ text) ps
      | Done _ \<Rightarrow> Some (Inr summary)
      | StreamError message aborted \<Rightarrow>
          Some (Inl (CeProvider (if aborted then PeAborted else PeRequest message)))
      | _ \<Rightarrow> collect_summary summary ps)"

text \<open>
  \<open>LlmCompactor::compact\<close>; \<open>cancelled\<close> is \<open>signal.is_cancelled()\<close> on entry and \<open>provider\<close>
  the injected \<open>ModelProvider\<close>.
\<close>

definition llm_compact ::
    "LlmCompactor \<Rightarrow> bool \<Rightarrow> (ProviderRequest \<Rightarrow> ProviderError + stream_poll list) \<Rightarrow> compact_fn" where
  "llm_compact c cancelled provider ms =
     (if ms = [] then Some (Inl CeEmptyInput)
      else if cancelled then Some (Inl CeCancelled)
      else case provider (summary_request c ms) of
             Inl e \<Rightarrow> Some (Inl (CeProvider e))
           | Inr polls \<Rightarrow>
               (case collect_summary [] polls of
                  None \<Rightarrow> None
                | Some (Inl e) \<Rightarrow> Some (Inl e)
                | Some (Inr summary) \<Rightarrow>
                    if summary = [] then Some (Inl CeEmptySummary) else Some (Inr summary)))"

interpretation llm: compactor_contract "llm_compact c cancelled provider"
  for c cancelled provider
  by unfold_locales
    (auto simp: llm_compact_def split: if_splits sum.splits option.splits)

text \<open>The text deltas of the polls before the first one that settles the stream.\<close>

fun poll_texts :: "stream_poll list \<Rightarrow> string" where
  "poll_texts (PollEvent (TextDelta t) # ps) = t @ poll_texts ps"
| "poll_texts (PollEvent ev # ps) = (if is_terminal ev then [] else poll_texts ps)"
| "poll_texts _ = []"

fun settles :: "stream_poll \<Rightarrow> bool" where
  "settles (PollEvent ev) = is_terminal ev"
| "settles _ = True"

lemma collect_summary_texts:
  "collect_summary s ps = Some (Inr t) \<Longrightarrow> t = s @ poll_texts ps"
proof (induction ps arbitrary: s)
  case (Cons p ps)
  show ?case
  proof (cases p)
    case (PollEvent ev)
    with Cons.prems show ?thesis by (cases ev) (auto dest: Cons.IH)
  qed (use Cons.prems in auto)
qed simp

lemma collect_summary_returns:
  "(\<exists>p \<in> set ps. settles p) \<Longrightarrow> \<exists>r. collect_summary s ps = Some r"
proof (induction ps arbitrary: s)
  case (Cons p ps)
  show ?case
  proof (cases p)
    case (PollEvent ev)
    with Cons show ?thesis by (cases ev) auto
  qed auto
qed simp

text \<open>
  \<open>LlmCompactor::compact\<close> returns as soon as a poll settles its stream, and a summary
  it returns is the non-empty concatenation of the text deltas received.
\<close>

theorem llm_compact_summary:
  assumes "ms \<noteq> []" and "\<not> cancelled"
    and "provider (summary_request c ms) = Inr polls" and "\<exists>p \<in> set polls. settles p"
  shows "\<exists>r. llm_compact c cancelled provider ms = Some r \<and>
             (\<forall>s. r = Inr s \<longrightarrow> s = poll_texts polls \<and> s \<noteq> [])"
proof -
  obtain r where r: "collect_summary [] polls = Some r"
    using collect_summary_returns [OF assms(4)] by blast
  show ?thesis
    using assms(1-3) r collect_summary_texts [of "[]" polls]
    by (auto simp: llm_compact_def split: sum.splits)
qed

theorem llm_compact_summary_witness:
  "llm_compact \<lparr>lc_model = \<lparr>model_id = ''m'', model_context_window = 8\<rparr>, lc_summary_prompt = ''p''\<rparr>
     False (\<lambda>_. Inr [PollEvent (TextDelta ''a''), PollEvent (TextDelta ''b''), PollEnd])
     [user_text ''hi''] = Some (Inr ''ab'')"
  using llm_compact_summary [of "[user_text ''hi'']" False
      "\<lambda>_. Inr [PollEvent (TextDelta ''a''), PollEvent (TextDelta ''b''), PollEnd]"
      "\<lparr>lc_model = \<lparr>model_id = ''m'', model_context_window = 8\<rparr>, lc_summary_prompt = ''p''\<rparr>"
      "[PollEvent (TextDelta ''a''), PollEvent (TextDelta ''b''), PollEnd]"]
  by (auto simp: llm_compact_def)

end
