(* ===== verification/Context_Budget.thy ===== *)
theory Context_Budget
  imports Compactor
begin

text \<open>
  Token budgeting, truncation and compaction planning: \<open>core/context.rs\<close>.
\<close>

section \<open>Token estimates\<close>

definition estimate_tokens :: "string \<Rightarrow> u32" where
  "estimate_tokens text = of_nat (length text) div 4 + 1"

fun estimate_user_content :: "UserContent \<Rightarrow> u32" where
  "estimate_user_content (UserText text) = estimate_tokens text"
| "estimate_user_content (UserImage img) = estimate_tokens (img_data img) + 8"

fun estimate_assistant_content :: "AssistantContent \<Rightarrow> u32" where
  "estimate_assistant_content (AssistantText text) = estimate_tokens text"
| "estimate_assistant_content (AssistantThinking text) = estimate_tokens text"
| "estimate_assistant_content (AssistantToolCall tc) =
     estimate_tokens (tc_name tc) + estimate_tokens (tc_arguments tc)"

fun estimate_result_content :: "ToolResultContent \<Rightarrow> u32" where
  "estimate_result_content (ResultText text) = estimate_tokens text"
| "estimate_result_content (ResultImage img) = estimate_tokens (img_data img) + 8"

fun estimate_message_tokens :: "Message \<Rightarrow> u32" where
  "estimate_message_tokens (User u) = sum_list (map estimate_user_content (um_content u))"
| "estimate_message_tokens (Assistant a) =
     sum_list (map estimate_assistant_content (am_content a))"
| "estimate_message_tokens (ToolResult t) =
     estimate_tokens (trm_tool_name t) + sum_list (map estimate_result_content (trm_content t))"

definition sum_estimates :: "Message list \<Rightarrow> u64" where
  "sum_estimates ms = sum_list (map (\<lambda>m. ucast (estimate_message_tokens m)) ms)"

text \<open>The usage baseline a message carries: \<open>usage.input\<close> of an assistant message.\<close>

fun message_usage :: "Message \<Rightarrow> u64 option" where
  "message_usage (Assistant a) = map_option usage_input (am_usage a)"
| "message_usage _ = None"

definition last_usage :: "Message list \<Rightarrow> (nat \<times> u64) option" where
  "last_usage ms =
     find_map (\<lambda>(i, m). map_option (Pair i) (message_usage m)) (rev (enumerate 0 ms))"

definition estimate_total :: "Message list \<Rightarrow> u32 \<Rightarrow> u64" where
  "estimate_total ms fixed_overhead =
     (case last_usage ms of
        Some (index, input) \<Rightarrow> input + sum_estimates (drop (index + 1) ms)
      | None \<Rightarrow> ucast fixed_overhead + sum_estimates ms)"

section \<open>Truncation\<close>

definition is_tool_call_result_split :: "Message \<Rightarrow> Message \<Rightarrow> bool" where
  "is_tool_call_result_split prev nxt = (has_tool_call prev \<and> is_tool_result nxt)"

text \<open>The indices of the user messages: the turn boundaries.\<close>

definition boundaries :: "Message list \<Rightarrow> nat list" where
  "boundaries ms = filter (\<lambda>i. is_user (ms ! i)) [0..<length ms]"

fun scan_boundaries :: "Message list \<Rightarrow> usize \<Rightarrow> u32 \<Rightarrow> nat list \<Rightarrow> Message list option" where
  "scan_boundaries ms max_tokens fixed_overhead [] = None"
| "scan_boundaries ms max_tokens fixed_overhead (b # bs) =
     (if 0 < b \<and> is_tool_call_result_split (ms ! (b - 1)) (ms ! b)
      then scan_boundaries ms max_tokens fixed_overhead bs
      else if estimate_total (drop b ms) fixed_overhead \<le> max_tokens
      then Some (drop b ms)
      else scan_boundaries ms max_tokens fixed_overhead bs)"

text \<open>The cut points the code tries: the turn boundaries, and 0 when the list opens otherwise.\<close>

definition cut_points :: "Message list \<Rightarrow> nat list" where
  "cut_points ms =
     (if \<not> is_user (ms ! 0) then 0 # boundaries ms else boundaries ms)"

definition truncate_to_budget_with_overhead ::
    "Message list \<Rightarrow> usize \<Rightarrow> u32 \<Rightarrow> Message list" where
  "truncate_to_budget_with_overhead ms max_tokens fixed_overhead =
     (if estimate_total ms fixed_overhead \<le> max_tokens then ms
      else if ms = [] then []
      else let bs = cut_points ms in
        if bs = [] then drop (length ms - 1) ms
        else case scan_boundaries ms max_tokens fixed_overhead bs of
               Some kept \<Rightarrow> kept
             | None \<Rightarrow> drop (last bs) ms)"

definition truncate_to_budget :: "Message list \<Rightarrow> usize \<Rightarrow> Message list" where
  "truncate_to_budget ms max_tokens = truncate_to_budget_with_overhead ms max_tokens 0"

section \<open>ContextBudget\<close>

record ContextBudget =
  cb_context_window :: u32
  cb_fixed_overhead :: u32
  cb_reserve_output_tokens :: u32

definition budget_new :: "u32 \<Rightarrow> ContextBudget" where
  "budget_new context_window =
     \<lparr>cb_context_window = context_window, cb_fixed_overhead = 0, cb_reserve_output_tokens = 0\<rparr>"

definition budget_with_overhead ::
    "u32 \<Rightarrow> string \<Rightarrow> string \<Rightarrow> usize \<Rightarrow> usize \<Rightarrow> ContextBudget" where
  "budget_with_overhead context_window system_prompt tool_schemas reserve wrapper =
     \<lparr>cb_context_window = context_window,
      cb_fixed_overhead =
        saturating_add32
          (saturating_add32 (estimate_tokens system_prompt) (estimate_tokens tool_schemas))
          (clamp_u32 wrapper),
      cb_reserve_output_tokens = clamp_u32 reserve\<rparr>"

definition budget_estimate :: "ContextBudget \<Rightarrow> Message list \<Rightarrow> u32" where
  "budget_estimate b ms = clamp_u32 (estimate_total ms (cb_fixed_overhead b))"

definition budget_available :: "ContextBudget \<Rightarrow> u32" where
  "budget_available b = saturating_sub32 (cb_context_window b) (cb_reserve_output_tokens b)"

definition budget_fits :: "ContextBudget \<Rightarrow> Message list \<Rightarrow> bool" where
  "budget_fits b ms = (budget_estimate b ms \<le> budget_available b)"

definition budget_truncate :: "ContextBudget \<Rightarrow> Message list \<Rightarrow> Message list" where
  "budget_truncate b ms =
     truncate_to_budget_with_overhead ms (ucast (budget_available b)) (cb_fixed_overhead b)"

section \<open>Compaction planning\<close>

record CompactionPolicy =
  cp_budget_tokens :: usize
  cp_keep_recent :: usize
  cp_reserve_output_tokens :: usize
  cp_protocol_wrapper_tokens :: usize

definition default_policy :: CompactionPolicy where
  "default_policy =
     \<lparr>cp_budget_tokens = - 1, cp_keep_recent = 1, cp_reserve_output_tokens = 1024,
      cp_protocol_wrapper_tokens = 128\<rparr>"

record CompactionCommit =
  cc_summary :: string
  cc_keep_from :: nat

record PreparedContext =
  pc_request_messages :: "Message list"
  pc_commit :: "CompactionCommit option"

definition compute_split :: "Message list \<Rightarrow> usize \<Rightarrow> nat" where
  "compute_split ms keep_recent =
     (let bs = boundaries ms; num_turns = length bs; keep = max (unat keep_recent) 1 in
      if bs = [] then 0
      else if num_turns \<le> keep then 0
      else bs ! (num_turns - keep))"

definition plan_context ::
    "Message list \<Rightarrow> CompactionPolicy \<Rightarrow> compact_fn \<Rightarrow> (CompactionError + PreparedContext) option" where
  "plan_context transcript policy compact =
     (if estimate_total transcript 0 \<le> cp_budget_tokens policy
      then Some (Inr \<lparr>pc_request_messages = transcript, pc_commit = None\<rparr>)
      else
        let split = compute_split transcript (cp_keep_recent policy);
            fallback = \<lparr>pc_request_messages = truncate_to_budget transcript (cp_budget_tokens policy),
                        pc_commit = None\<rparr>
        in if split = 0 then Some (Inr fallback)
           else case compact (take split transcript) of
                  None \<Rightarrow> None
                | Some (Inr summary) \<Rightarrow>
                    Some (Inr \<lparr>pc_request_messages = user_text summary # drop split transcript,
                               pc_commit = Some \<lparr>cc_summary = summary, cc_keep_from = split\<rparr>\<rparr>)
                | Some (Inl CeCancelled) \<Rightarrow> Some (Inl CeCancelled)
                | Some (Inl _) \<Rightarrow> Some (Inr fallback))"

definition default_convert_to_llm :: "Message list \<Rightarrow> Message list" where
  "default_convert_to_llm ms = map (\<lambda>m. m) ms"

text \<open>An assistant message with a usage record, for concrete instances.\<close>

definition assistant_used :: "string \<Rightarrow> u64 \<Rightarrow> Message" where
  "assistant_used t n =
     Assistant \<lparr>am_content = [AssistantText t], am_model = None,
       am_usage = Some \<lparr>usage_input = n, usage_output = 0, usage_cache_read = 0,
                        usage_cache_write = 0, usage_total_tokens = n, usage_cost = 0\<rparr>,
       am_stop_reason = None, am_error_message = None, am_timestamp = 0\<rparr>"

section \<open>Lemmas: boundaries and the scan\<close>

lemma set_boundaries: "i \<in> set (boundaries ms) \<longleftrightarrow> i < length ms \<and> is_user (ms ! i)"
  by (auto simp: boundaries_def)

lemma cut_point_cases:
  "ms \<noteq> [] \<Longrightarrow> i \<in> set (cut_points ms) \<Longrightarrow> i = 0 \<or> i < length ms \<and> is_user (ms ! i)"
  by (auto simp: cut_points_def set_boundaries split: if_splits)

lemma cut_points_nonempty: "ms \<noteq> [] \<Longrightarrow> cut_points ms \<noteq> []"
proof -
  assume "ms \<noteq> []"
  then have "is_user (ms ! 0) \<Longrightarrow> 0 \<in> set (boundaries ms)"
    by (simp add: set_boundaries)
  then show ?thesis by (auto simp: cut_points_def)
qed

lemma sorted_cut_points: "sorted (cut_points ms)"
  by (auto simp: cut_points_def boundaries_def)

lemma user_not_tool_result [simp]: "is_user m \<Longrightarrow> \<not> is_tool_result m"
  by (cases m) auto

lemma no_split_at_user: "is_user m \<Longrightarrow> \<not> is_tool_call_result_split p m"
  by (auto simp: is_tool_call_result_split_def)

text \<open>The guard against splitting a tool group never fires at a cut point.\<close>

lemma split_guard_dead:
  "ms \<noteq> [] \<Longrightarrow> b \<in> set (cut_points ms) \<Longrightarrow>
     \<not> (0 < b \<and> is_tool_call_result_split (ms ! (b - 1)) (ms ! b))"
  by (auto dest!: cut_point_cases simp: no_split_at_user)

lemma scan_boundaries_Some:
  "scan_boundaries ms mx fo bs = Some kept \<Longrightarrow>
     \<exists>b \<in> set bs. kept = drop b ms \<and> estimate_total kept fo \<le> mx"
  by (induction bs) (auto split: if_splits)

lemma scan_boundaries_None:
  assumes "scan_boundaries ms mx fo bs = None"
    and "\<And>b. b \<in> set bs \<Longrightarrow> \<not> (0 < b \<and> is_tool_call_result_split (ms ! (b - 1)) (ms ! b))"
  shows "\<forall>b \<in> set bs. \<not> estimate_total (drop b ms) fo \<le> mx"
  using assms by (induction bs) (auto split: if_splits)

text \<open>On a sorted list the scan returns the longest suffix that fits.\<close>

lemma scan_boundaries_first:
  assumes "scan_boundaries ms mx fo bs = Some kept" and "sorted bs"
    and "\<And>b. b \<in> set bs \<Longrightarrow> \<not> (0 < b \<and> is_tool_call_result_split (ms ! (b - 1)) (ms ! b))"
    and "b \<in> set bs" and "estimate_total (drop b ms) fo \<le> mx"
  shows "length (drop b ms) \<le> length kept"
  using assms
proof (induction bs)
  case (Cons c cs)
  show ?case
  proof (cases "estimate_total (drop c ms) fo \<le> mx")
    case True
    then have "kept = drop c ms"
      using Cons.prems(1) Cons.prems(3) [of c] by (auto split: if_splits)
    moreover have "c \<le> b" using Cons.prems(2,4) by auto
    ultimately show ?thesis by simp
  next
    case False
    then have "scan_boundaries ms mx fo cs = Some kept"
      using Cons.prems(1) by (auto split: if_splits)
    moreover have "b \<in> set cs" using False Cons.prems(4,5) by auto
    ultimately show ?thesis using Cons.IH Cons.prems(2,3,5) by auto
  qed
qed simp

section \<open>Lemmas: truncation\<close>

lemma truncate_cut:
  "\<exists>k. truncate_to_budget_with_overhead ms mx fo = drop k ms \<and>
       (k = 0 \<or> k < length ms \<and> is_user (ms ! k))"
proof (cases "estimate_total ms fo \<le> mx \<or> ms = []")
  case True
  then show ?thesis
    by (intro exI [of _ 0]) (auto simp: truncate_to_budget_with_overhead_def)
next
  case False
  then have ne: "ms \<noteq> []" by simp
  show ?thesis
  proof (cases "scan_boundaries ms mx fo (cut_points ms)")
    case None
    let ?k = "last (cut_points ms)"
    have "?k \<in> set (cut_points ms)"
      using cut_points_nonempty [OF ne] by simp
    then have "?k = 0 \<or> ?k < length ms \<and> is_user (ms ! ?k)"
      by (rule cut_point_cases [OF ne])
    moreover have "truncate_to_budget_with_overhead ms mx fo = drop ?k ms"
      using None False cut_points_nonempty [OF ne]
      by (simp add: truncate_to_budget_with_overhead_def Let_def)
    ultimately show ?thesis by blast
  next
    case (Some kept)
    then obtain b where "b \<in> set (cut_points ms)" "kept = drop b ms"
      using scan_boundaries_Some by blast
    then show ?thesis
      using Some False cut_points_nonempty [OF ne] cut_point_cases [OF ne]
      by (auto simp: truncate_to_budget_with_overhead_def Let_def)
  qed
qed

lemma truncate_grouped:
  "tool_grouped ms \<Longrightarrow> tool_grouped (truncate_to_budget_with_overhead ms mx fo)"
  using truncate_cut [of ms mx fo] tool_grouped_drop by fastforce

lemma truncate_nonempty:
  "ms \<noteq> [] \<Longrightarrow> truncate_to_budget_with_overhead ms mx fo \<noteq> []"
  using truncate_cut [of ms mx fo] by auto

lemma last_cut_point: "ms \<noteq> [] \<Longrightarrow> last (cut_points ms) = last (0 # boundaries ms)"
  using cut_points_nonempty [of ms] by (auto simp: cut_points_def)

lemma set_cut_points:
  "ms \<noteq> [] \<Longrightarrow> k \<in> set (cut_points ms) \<longleftrightarrow> k = 0 \<or> k < length ms \<and> is_user (ms ! k)"
  by (auto simp: cut_points_def set_boundaries)

lemma truncate_over_budget:
  assumes "ms \<noteq> []" and "\<not> estimate_total ms fo \<le> mx"
  shows "truncate_to_budget_with_overhead ms mx fo =
           (case scan_boundaries ms mx fo (cut_points ms) of
              Some kept \<Rightarrow> kept | None \<Rightarrow> drop (last (0 # boundaries ms)) ms)"
  using assms cut_points_nonempty [of ms] last_cut_point [of ms]
  by (simp add: truncate_to_budget_with_overhead_def Let_def split: option.split)

section \<open>Lemmas: the usage baseline\<close>

lemma last_usage_Nil [simp]: "last_usage [] = None"
  by (simp add: last_usage_def)

lemma last_usage_snoc [simp]:
  "last_usage (ms @ [m]) =
     (case message_usage m of Some u \<Rightarrow> Some (length ms, u) | None \<Rightarrow> last_usage ms)"
  by (simp add: last_usage_def enumerate_append_eq split: option.splits)

lemma last_usage_bound: "last_usage ms = Some (i, u) \<Longrightarrow> i < length ms"
  by (induction ms rule: rev_induct) (auto split: option.splits)

lemma last_usage_drop:
  "last_usage ms = Some (i, u) \<Longrightarrow> k \<le> i \<Longrightarrow> last_usage (drop k ms) = Some (i - k, u)"
proof (induction ms rule: rev_induct)
  case (snoc m ms)
  show ?case
  proof (cases "message_usage m")
    case None
    then have "last_usage ms = Some (i, u)" using snoc.prems by simp
    with snoc None show ?thesis
      using last_usage_bound [of ms i u] by simp
  next
    case (Some v)
    with snoc.prems show ?thesis by simp
  qed
qed simp

lemma estimate_total_drop_baseline:
  assumes "last_usage ms = Some (i, u)" and "k \<le> i"
  shows "estimate_total (drop k ms) fo = estimate_total ms fo"
  using assms last_usage_drop [OF assms] by (simp add: estimate_total_def)

section \<open>Lemmas: the compaction split\<close>

lemma boundaries_count:
  "length (filter is_user (drop k ms)) = length (filter (\<lambda>i. k \<le> i) (boundaries ms))"
proof (cases "k \<le> length ms")
  case True
  have "drop k ms = map ((!) ms) [k..<length ms]"
    by (rule nth_equalityI) auto
  then have "filter is_user (drop k ms) = map ((!) ms) (filter (\<lambda>i. is_user (ms ! i)) [k..<length ms])"
    by (simp add: filter_map comp_def)
  moreover have "filter (\<lambda>i. k \<le> i) (boundaries ms) = filter (\<lambda>i. is_user (ms ! i)) [k..<length ms]"
  proof -
    have "[0..<length ms] = [0..<k] @ [k..<length ms]"
      using True by (metis le0 upt_add_eq_append le_add_diff_inverse)
    then show ?thesis
      by (auto simp: boundaries_def filter_empty_conv intro!: filter_cong)
  qed
  ultimately show ?thesis by simp
next
  case False
  then show ?thesis by (auto simp: boundaries_def filter_empty_conv)
qed

lemma compute_split_props:
  assumes "compute_split ms kr \<noteq> 0"
  shows "compute_split ms kr < length ms" and "is_user (ms ! compute_split ms kr)"
    and "length (filter is_user (drop (compute_split ms kr) ms)) = max (unat kr) 1"
proof -
  let ?bs = "boundaries ms" and ?keep = "max (unat kr) 1"
  have lt: "?keep < length ?bs" and eq: "compute_split ms kr = ?bs ! (length ?bs - ?keep)"
    using assms by (auto simp: compute_split_def Let_def split: if_splits)
  then have "length ?bs - ?keep < length ?bs" by auto
  with eq have "compute_split ms kr \<in> set ?bs" by simp
  then show "compute_split ms kr < length ms" and "is_user (ms ! compute_split ms kr)"
    by (auto simp: set_boundaries)
  have "length (filter (\<lambda>i. ?bs ! (length ?bs - ?keep) \<le> i) ?bs) = length ?bs - (length ?bs - ?keep)"
    by (rule sorted_count_ge) (use lt in \<open>auto simp: boundaries_def\<close>)
  then show "length (filter is_user (drop (compute_split ms kr) ms)) = ?keep"
    using lt by (simp add: boundaries_count eq)
qed

section \<open>Properties\<close>

text \<open>
  C10: truncation respects the turn topology.  The result is a suffix that starts at a user
  message or is the whole list; when the list begins with a user message, so does the result.  It is
  not empty when the input is not, messages of one turn are kept or dropped together, and it holds no
  tool result whose call was cut off.
\<close>

theorem truncate_topology:
  assumes "ms \<noteq> []" and "tool_grouped ms"
  shows "(\<exists>k. truncate_to_budget_with_overhead ms mx fo = drop k ms
            \<and> (k = 0 \<or> k < length ms \<and> is_user (ms ! k))
            \<and> (\<forall>i j. i \<le> j \<and> j < length ms \<and> (\<forall>l. i < l \<and> l \<le> j \<longrightarrow> \<not> is_user (ms ! l)) \<longrightarrow> (k \<le> i \<longleftrightarrow> k \<le> j)))
       \<and> truncate_to_budget_with_overhead ms mx fo \<noteq> []
       \<and> (is_user (hd ms) \<longrightarrow> is_user (hd (truncate_to_budget_with_overhead ms mx fo)))
       \<and> tool_grouped (truncate_to_budget_with_overhead ms mx fo)"
proof -
  obtain k where k: "truncate_to_budget_with_overhead ms mx fo = drop k ms" "k = 0 \<or> k < length ms \<and> is_user (ms ! k)"
    using truncate_cut by blast
  have "k \<le> i \<longleftrightarrow> k \<le> j" if "i \<le> j" "\<forall>l. i < l \<and> l \<le> j \<longrightarrow> \<not> is_user (ms ! l)" for i j
    using that k(2) by (metis le_trans not_le not_less_zero)
  moreover have "is_user (hd (drop k ms))" if "is_user (hd ms)"
    using that k(2) by (auto simp: hd_drop_conv_nth)
  ultimately show ?thesis
    using k truncate_nonempty [OF assms(1), of mx fo] truncate_grouped [OF assms(2), of mx fo]
    by (intro conjI exI [of _ k]) auto
qed

text \<open>Two turns with a tool call each, of which the first does not fit.\<close>

definition tool_turn :: "string \<Rightarrow> Message list" where
  "tool_turn i =
     [user_text ''a'',
      Assistant \<lparr>am_content = [AssistantToolCall \<lparr>tc_id = i, tc_name = ''t'', tc_arguments = ''1''\<rparr>], am_model = None,
        am_usage = None, am_stop_reason = Some StopCompleted, am_error_message = None, am_timestamp = 0\<rparr>,
      ToolResult \<lparr>trm_tool_call_id = i, trm_tool_name = ''t'', trm_is_error = False, trm_content = [], trm_details = None,
        trm_timestamp = 0\<rparr>]"

theorem truncate_topology_witness:
  "truncate_to_budget_with_overhead (tool_turn ''1'' @ tool_turn ''2'') 4 0 = tool_turn ''2''
    \<and> tool_grouped (truncate_to_budget_with_overhead (tool_turn ''1'' @ tool_turn ''2'') 4 0)"
proof -
  let ?ms = "tool_turn ''1'' @ tool_turn ''2''"
  have "tool_grouped ?ms" by (simp add: tool_grouped_def tool_turn_def user_text_def)
  then have "tool_grouped (truncate_to_budget_with_overhead ?ms 4 0)"
    using truncate_topology [of ?ms 4 0] by (simp add: tool_turn_def)
  moreover have "truncate_to_budget_with_overhead ?ms 4 0 = tool_turn ''2''"
    by (simp add: tool_turn_def user_text_def estimate_total_def last_usage_def sum_estimates_def
        estimate_tokens_def boundaries_def truncate_to_budget_with_overhead_def Let_def cut_points_def
        is_tool_call_result_split_def)
  ultimately show ?thesis by blast
qed

text \<open>
  Truncation keeps as much as fits.  When some turn-aligned suffix is within the budget
  the result is the longest such suffix; when none is, the result is the last turn.
\<close>

theorem truncate_longest:
  assumes "ms \<noteq> []"
  shows "if \<exists>k. (k = 0 \<or> k < length ms \<and> is_user (ms ! k)) \<and> estimate_total (drop k ms) fo \<le> mx
         then estimate_total (truncate_to_budget_with_overhead ms mx fo) fo \<le> mx \<and>
              (\<forall>k. (k = 0 \<or> k < length ms \<and> is_user (ms ! k)) \<and> estimate_total (drop k ms) fo \<le> mx
                 \<longrightarrow> length (drop k ms) \<le> length (truncate_to_budget_with_overhead ms mx fo))
         else truncate_to_budget_with_overhead ms mx fo = drop (last (0 # boundaries ms)) ms"
proof (cases "estimate_total ms fo \<le> mx")
  case True
  then show ?thesis
    by (auto simp: truncate_to_budget_with_overhead_def intro: exI [of _ 0])
next
  case False
  note over = truncate_over_budget [OF assms False] and guard = split_guard_dead [OF assms]
  show ?thesis
  proof (cases "scan_boundaries ms mx fo (cut_points ms)")
    case None
    then have "\<forall>b \<in> set (cut_points ms). \<not> estimate_total (drop b ms) fo \<le> mx"
      by (rule scan_boundaries_None) (rule guard)
    then show ?thesis
      using None over by (auto simp: set_cut_points [OF assms])
  next
    case (Some kept)
    obtain b where "b \<in> set (cut_points ms)" "kept = drop b ms" "estimate_total kept fo \<le> mx"
      using scan_boundaries_Some [OF Some] by blast
    then show ?thesis
      using Some over scan_boundaries_first [OF Some sorted_cut_points guard]
      by (auto simp: set_cut_points [OF assms])
  qed
qed

theorem truncate_longest_witness:
  "truncate_to_budget_with_overhead [user_text ''a'', user_text ''b''] 0 0 = [user_text ''b'']"
  using truncate_longest [of "[user_text ''a'', user_text ''b'']" 0 0]
  by (simp add: user_text_def estimate_total_def last_usage_def sum_estimates_def
      estimate_tokens_def boundaries_def truncate_to_budget_with_overhead_def Let_def cut_points_def
      is_tool_call_result_split_def)

text \<open>
  The usage baseline defeats gradual truncation.  While the last message that carries a
  usage record stays in the list, dropping older turns does not change the estimate (the
  recorded input still counts them), so a list over the budget loses every turn up to and
  including that message, or all but the last turn.
\<close>

theorem truncate_baseline:
  assumes "last_usage ms = Some (i, input)" and "\<not> estimate_total ms fo \<le> mx"
  shows "(\<forall>k \<le> i. estimate_total (drop k ms) fo = estimate_total ms fo)
       \<and> (\<exists>k. truncate_to_budget_with_overhead ms mx fo = drop k ms \<and>
            (i < k \<or> k = last (0 # boundaries ms)))"
proof -
  have ne: "ms \<noteq> []" using assms(1) by auto
  note over = truncate_over_budget [OF ne assms(2)] and same = estimate_total_drop_baseline [OF assms(1)]
  have "\<exists>k. truncate_to_budget_with_overhead ms mx fo = drop k ms \<and>
            (i < k \<or> k = last (0 # boundaries ms))"
  proof (cases "scan_boundaries ms mx fo (cut_points ms)")
    case (Some kept)
    obtain b where "kept = drop b ms" "estimate_total kept fo \<le> mx"
      using scan_boundaries_Some [OF Some] by blast
    then show ?thesis using Some over same [of b] assms(2) by (auto simp: not_le [symmetric])
  next
    case None
    then show ?thesis using over by (intro exI [of _ "last (0 # boundaries ms)"]) simp
  qed
  with same show ?thesis by blast
qed

theorem truncate_baseline_witness:
  "estimate_total (drop 2 [user_text ''a'', user_text ''b'', assistant_used ''x'' 9, user_text ''c'']) 0
     = estimate_total [user_text ''a'', user_text ''b'', assistant_used ''x'' 9, user_text ''c''] 0"
proof -
  let ?ms = "[user_text ''a'', user_text ''b'', assistant_used ''x'' 9, user_text ''c'']"
  have u: "last_usage ?ms = Some (2, 9)"
    by (simp add: last_usage_def user_text_def assistant_used_def)
  have "\<not> estimate_total ?ms 0 \<le> 5"
    unfolding estimate_total_def u
    by (simp add: sum_estimates_def user_text_def estimate_tokens_def)
  then show ?thesis
    by (rule truncate_baseline [OF u, THEN conjunct1, rule_format]) simp
qed

text \<open>
  C13: the commit discipline of \<open>plan_context\<close>.  The transcript is rewritten only after the
  compactor returned a summary of exactly the prefix that is replaced; the replaced part ends
  at a turn boundary and the configured number of turns is kept.  Every other success leaves
  the transcript alone and sends a turn-aligned suffix of it, and the only error passed on is
  the cancellation.
\<close>

theorem plan_context_commit:
  assumes "plan_context transcript policy compact = Some r"
  shows "case r of
      Inl e \<Rightarrow> e = CeCancelled \<and>
        compact (take (compute_split transcript (cp_keep_recent policy)) transcript) = Some (Inl CeCancelled)
    | Inr p \<Rightarrow>
       (case pc_commit p of
          None \<Rightarrow> \<exists>k. pc_request_messages p = drop k transcript \<and>
                    (k = 0 \<or> k < length transcript \<and> is_user (transcript ! k))
        | Some c \<Rightarrow>
            \<not> estimate_total transcript 0 \<le> cp_budget_tokens policy \<and>
            compact (take (cc_keep_from c) transcript) = Some (Inr (cc_summary c)) \<and>
            0 < cc_keep_from c \<and> cc_keep_from c < length transcript \<and>
            is_user (transcript ! cc_keep_from c) \<and>
            length (filter is_user (drop (cc_keep_from c) transcript))
              = max (unat (cp_keep_recent policy)) 1 \<and>
            pc_request_messages p = user_text (cc_summary c) # drop (cc_keep_from c) transcript)"
  using assms truncate_cut [of transcript "cp_budget_tokens policy" 0]
    compute_split_props [of transcript "cp_keep_recent policy"]
  by (auto simp: plan_context_def Let_def truncate_to_budget_def
      split: if_splits option.splits sum.splits CompactionError.splits intro: exI [of _ 0])

theorem plan_context_commit_witness:
  "pc_request_messages
     (projr (the (plan_context [user_text ''a'', user_text ''b'']
        (default_policy\<lparr>cp_budget_tokens := 0\<rparr>) (\<lambda>_. Some (Inr ''s'')))))
   = [user_text ''s'', user_text ''b'']"
proof -
  let ?t = "[user_text ''a'', user_text ''b'']" and ?pol = "default_policy\<lparr>cp_budget_tokens := 0\<rparr>"
  let ?r = "\<lparr>pc_request_messages = [user_text ''s'', user_text ''b''],
              pc_commit = Some \<lparr>cc_summary = ''s'', cc_keep_from = 1\<rparr>\<rparr>"
  have "plan_context ?t ?pol (\<lambda>_. Some (Inr ''s'')) = Some (Inr ?r)"
    by (simp add: plan_context_def user_text_def estimate_total_def last_usage_def
        sum_estimates_def estimate_tokens_def default_policy_def compute_split_def boundaries_def)
  from plan_context_commit [OF this] this show ?thesis by simp
qed

text \<open>
  The messages \<open>plan_context\<close> sends to the provider keep the tool-call topology of the
  transcript, whether they are the transcript, a truncation of it or a summary and a tail.
\<close>

theorem plan_context_grouped:
  assumes "tool_grouped transcript" and "plan_context transcript policy compact = Some (Inr p)"
  shows "tool_grouped (pc_request_messages p)"
proof -
  have split: "tool_grouped (drop (compute_split transcript (cp_keep_recent policy)) transcript)"
    by (rule tool_grouped_drop [OF assms(1)])
      (use compute_split_props(2) [of transcript "cp_keep_recent policy"] in force)
  show ?thesis
    using assms split truncate_grouped [OF assms(1)]
    by (auto simp: plan_context_def Let_def truncate_to_budget_def tool_grouped_user_Cons
        split: if_splits option.splits sum.splits CompactionError.splits)
qed

theorem plan_context_grouped_witness:
  "tool_grouped (pc_request_messages
     (projr (the (plan_context [user_text ''a''] default_policy (\<lambda>_. None)))))"
proof -
  have g: "tool_grouped [user_text ''a'']"
    by (simp add: tool_grouped_def user_text_def)
  have "plan_context [user_text ''a''] default_policy (\<lambda>_. None)
      = Some (Inr \<lparr>pc_request_messages = [user_text ''a''], pc_commit = None\<rparr>)"
    by (simp add: plan_context_def default_policy_def)
  from plan_context_grouped [OF g this] this show ?thesis by simp
qed

end
