(* ===== verification/Hooks.thy ===== *)
theory Hooks
  imports Message "HOL-Library.List_Lexorder" "HOL-Library.Char_ord" "HOL-Library.Multiset"
begin

text \<open>
  Lifecycle hooks (\<open>plugin/hooks.rs\<close>): the \<open>LifecycleHooks\<close> trait as a record of operations
  and \<open>MergedHooks\<close>, which chains the hooks of several plugins in the order of their ids.

  A plugin may keep state and act on the outside, so each operation passes a world of an
  arbitrary type \<open>'w\<close> through; a hook that is not called leaves no trace in it.
\<close>

section \<open>The trait\<close>

record HookContext =
  hc_transcript :: "Message list"

definition hook_context_new :: "Message list \<Rightarrow> HookContext" where
  "hook_context_new transcript = \<lparr>hc_transcript = transcript\<rparr>"

record HookError =
  he_message :: string

record 'w LifecycleHooks =
  hk_before_tool_call :: "HookContext \<Rightarrow> json \<Rightarrow> 'w \<Rightarrow> (HookError + unit) \<times> 'w"
  hk_after_tool_call ::
    "HookContext \<Rightarrow> ToolCall \<Rightarrow> ToolResult \<Rightarrow> 'w \<Rightarrow> (HookError + ToolResult) \<times> 'w"
  hk_should_stop_after_turn :: "HookContext \<Rightarrow> 'w \<Rightarrow> bool option \<times> 'w"
  hk_prepare_next_turn ::
    "HookContext \<Rightarrow> AssistantMessage \<Rightarrow> ToolResultMessage list \<Rightarrow> 'w
       \<Rightarrow> (HookError + Message list) \<times> 'w"

text \<open>The default bodies of the trait methods.\<close>

definition default_hooks :: "'w LifecycleHooks" where
  "default_hooks =
     \<lparr>hk_before_tool_call = (\<lambda>_ _ w. (Inr (), w)),
      hk_after_tool_call = (\<lambda>_ _ result w. (Inr result, w)),
      hk_should_stop_after_turn = (\<lambda>_ w. (None, w)),
      hk_prepare_next_turn = (\<lambda>_ _ _ w. (Inr [], w))\<rparr>"

section \<open>MergedHooks\<close>

type_synonym 'w plugin_hooks = "(string \<times> 'w LifecycleHooks) list"

text \<open>\<open>sort_by\<close> is stable, as \<open>sort_key\<close> is; strings compare byte by byte.\<close>

definition merged_new :: "'w plugin_hooks \<Rightarrow> 'w plugin_hooks" where
  "merged_new hooks = sort_key fst hooks"

fun merged_before_tool_call ::
    "'w plugin_hooks \<Rightarrow> HookContext \<Rightarrow> json \<Rightarrow> 'w \<Rightarrow> (HookError + unit) \<times> 'w" where
  "merged_before_tool_call [] ctx args w = (Inr (), w)"
| "merged_before_tool_call ((_, hook) # hooks) ctx args w =
     (case hk_before_tool_call hook ctx args w of
        (Inl e, w') \<Rightarrow> (Inl e, w')
      | (Inr (), w') \<Rightarrow> merged_before_tool_call hooks ctx args w')"

fun merged_after_tool_call ::
    "'w plugin_hooks \<Rightarrow> HookContext \<Rightarrow> ToolCall \<Rightarrow> ToolResult \<Rightarrow> 'w
       \<Rightarrow> (HookError + ToolResult) \<times> 'w" where
  "merged_after_tool_call [] ctx tc last_success w = (Inr last_success, w)"
| "merged_after_tool_call ((_, hook) # hooks) ctx tc last_success w =
     (case hk_after_tool_call hook ctx tc last_success w of
        (Inr r, w') \<Rightarrow> merged_after_tool_call hooks ctx tc r w'
      | (Inl _, w') \<Rightarrow> (Inr last_success, w'))"

fun merged_should_stop_after_turn ::
    "'w plugin_hooks \<Rightarrow> HookContext \<Rightarrow> 'w \<Rightarrow> bool option \<times> 'w" where
  "merged_should_stop_after_turn [] ctx w = (None, w)"
| "merged_should_stop_after_turn ((_, hook) # hooks) ctx w =
     (case hk_should_stop_after_turn hook ctx w of
        (Some True, w') \<Rightarrow> (Some True, w')
      | (_, w') \<Rightarrow> merged_should_stop_after_turn hooks ctx w')"

fun merged_prepare_loop ::
    "'w plugin_hooks \<Rightarrow> HookContext \<Rightarrow> AssistantMessage \<Rightarrow> ToolResultMessage list
       \<Rightarrow> Message list \<Rightarrow> 'w \<Rightarrow> (HookError + Message list) \<times> 'w" where
  "merged_prepare_loop [] ctx a trs messages w = (Inr messages, w)"
| "merged_prepare_loop ((_, hook) # hooks) ctx a trs messages w =
     (case hk_prepare_next_turn hook ctx a trs w of
        (Inr msgs, w') \<Rightarrow> merged_prepare_loop hooks ctx a trs (messages @ msgs) w'
      | (Inl _, w') \<Rightarrow> (Inr messages, w'))"

definition merged_prepare_next_turn ::
    "'w plugin_hooks \<Rightarrow> HookContext \<Rightarrow> AssistantMessage \<Rightarrow> ToolResultMessage list \<Rightarrow> 'w
       \<Rightarrow> (HookError + Message list) \<times> 'w" where
  "merged_prepare_next_turn hooks ctx a trs w = merged_prepare_loop hooks ctx a trs [] w"

text \<open>\<open>MergedHooks\<close> behind the trait object the runtime holds.\<close>

definition merged_hooks :: "'w plugin_hooks \<Rightarrow> 'w LifecycleHooks" where
  "merged_hooks hooks =
     (let hs = merged_new hooks in
      \<lparr>hk_before_tool_call = merged_before_tool_call hs,
       hk_after_tool_call = merged_after_tool_call hs,
       hk_should_stop_after_turn = merged_should_stop_after_turn hs,
       hk_prepare_next_turn = merged_prepare_next_turn hs\<rparr>)"

section \<open>Specification\<close>

text \<open>
  What the documentation of the merge says, stated without the loops.  The hooks that are
  consulted are the leading run of successes and the one that ends it; \<open>chain\<close> threads a
  value through a list of fallible steps and reports the value reached and whether every
  step succeeded.
\<close>

fun chain :: "('v \<Rightarrow> 'w \<Rightarrow> ('e + 'v) \<times> 'w) list \<Rightarrow> 'v \<Rightarrow> 'w \<Rightarrow> 'v \<times> 'e option \<times> 'w" where
  "chain [] v w = (v, None, w)"
| "chain (f # fs) v w =
     (case f v w of (Inr v', w') \<Rightarrow> chain fs v' w' | (Inl e, w') \<Rightarrow> (v, Some e, w'))"

section \<open>Lemmas\<close>

lemma merged_before_chain:
  "merged_before_tool_call hs ctx args w =
     (case chain (map (\<lambda>p _. hk_before_tool_call (snd p) ctx args) hs) () w of
        (_, e, w') \<Rightarrow> (case e of None \<Rightarrow> Inr () | Some e \<Rightarrow> Inl e, w'))"
proof (induction hs arbitrary: w)
  case (Cons p hs)
  obtain i h where p: "p = (i, h)" by (cases p)
  obtain x w' where r: "hk_before_tool_call h ctx args w = (x, w')"
    by (cases "hk_before_tool_call h ctx args w")
  show ?case
    by (cases x) (simp_all add: p r Cons.IH split: unit.split)
qed simp

lemma merged_after_chain:
  "merged_after_tool_call hs ctx tc r w =
     (case chain (map (\<lambda>p. hk_after_tool_call (snd p) ctx tc) hs) r w of
        (v, _, w') \<Rightarrow> (Inr v, w'))"
proof (induction hs arbitrary: r w)
  case (Cons p hs)
  obtain i h where p: "p = (i, h)" by (cases p)
  obtain x w' where r: "hk_after_tool_call h ctx tc r w = (x, w')"
    by (cases "hk_after_tool_call h ctx tc r w")
  show ?case
    by (cases x) (simp_all add: p r Cons.IH)
qed simp

definition append_prepared ::
    "HookContext \<Rightarrow> AssistantMessage \<Rightarrow> ToolResultMessage list \<Rightarrow> 'w LifecycleHooks
       \<Rightarrow> Message list \<Rightarrow> 'w \<Rightarrow> (HookError + Message list) \<times> 'w" where
  "append_prepared ctx a trs h messages w =
     (case hk_prepare_next_turn h ctx a trs w of
        (Inr msgs, w') \<Rightarrow> (Inr (messages @ msgs), w') | (Inl e, w') \<Rightarrow> (Inl e, w'))"

lemma merged_prepare_chain:
  "merged_prepare_loop hs ctx a trs ms w =
     (case chain (map (\<lambda>p. append_prepared ctx a trs (snd p)) hs) ms w of
        (v, _, w') \<Rightarrow> (Inr v, w'))"
proof (induction hs arbitrary: ms w)
  case (Cons p hs)
  obtain i h where p: "p = (i, h)" by (cases p)
  obtain x w' where r: "hk_prepare_next_turn h ctx a trs w = (x, w')"
    by (cases "hk_prepare_next_turn h ctx a trs w")
  show ?case
    by (cases x) (simp_all add: p r Cons.IH append_prepared_def)
qed simp

lemma distinct_keys_sort:
  fixes xs :: "('k :: linorder \<times> 'v) list"
  assumes "mset xs = mset ys" and "distinct (map fst xs)"
  shows "sort_key fst xs = sort_key fst ys"
proof (rule map_sorted_distinct_set_unique [where f = fst])
  have set_eq: "set ys = set xs"
    using assms(1) by (metis mset_eq_setD)
  have "mset (map fst ys) = mset (map fst xs)"
    using assms(1) by simp
  then have dy: "distinct (map fst ys)"
    using assms(2) by (metis mset_eq_imp_distinct_iff)
  show "inj_on fst (set (sort_key fst xs) \<union> set (sort_key fst ys))"
    using assms(2) set_eq by (simp add: distinct_map)
  show "distinct (map fst (sort_key fst xs))" "distinct (map fst (sort_key fst ys))"
    using assms(2) dy by (simp_all add: distinct_map)
  show "set (sort_key fst xs) = set (sort_key fst ys)"
    using set_eq by simp
qed simp_all

text \<open>What a chain consults before its first failure, and that it consults nothing after.\<close>

lemma chain_append:
  "chain (fs @ gs) v w =
     (case chain fs v w of
        (v', e, w') \<Rightarrow> (case e of None \<Rightarrow> chain gs v' w' | Some e \<Rightarrow> (v', Some e, w')))"
proof (induction fs arbitrary: v w)
  case (Cons f fs)
  obtain x w' where r: "f v w = (x, w')" by (cases "f v w")
  show ?case by (cases x) (simp_all add: r Cons.IH)
qed simp

section \<open>Theorems\<close>

text \<open>
  The order in which plugins register does not matter.  For plugins with distinct ids
  the merged hooks are the same for every registration order, and they run in the order of
  the ids.
\<close>

theorem merged_registration_order:
  assumes "mset hooks = mset hooks'" and "distinct (map fst hooks)"
  shows "merged_hooks hooks = merged_hooks hooks' \<and> sorted (map fst (merged_new hooks))"
  using distinct_keys_sort [OF assms] by (simp add: merged_hooks_def merged_new_def)

theorem merged_registration_order_witness:
  "merged_hooks [(''b'', default_hooks), (''a'', default_hooks)] =
     merged_hooks [(''a'', default_hooks :: nat LifecycleHooks), (''b'', default_hooks)]
   \<and> sorted (map fst (merged_new [(''b'', default_hooks :: nat LifecycleHooks), (''a'', default_hooks)]))"
  by (rule merged_registration_order) (simp_all add: add_mset_commute)

text \<open>
  the merge semantics.  A veto by any plugin vetoes the tool call and the plugins after
  it are not asked; results are rewritten plugin after plugin, and the first failure keeps
  the last value that succeeded; injected messages are concatenated up to the first failure.
  Neither \<open>after_tool_call\<close> nor \<open>prepare_next_turn\<close> of the merge ever fails.
\<close>

theorem merged_semantics:
  "hk_before_tool_call (merged_hooks hooks) ctx args w =
     (case chain (map (\<lambda>p _. hk_before_tool_call (snd p) ctx args) (merged_new hooks)) () w of
        (_, e, w') \<Rightarrow> (case e of None \<Rightarrow> Inr () | Some e \<Rightarrow> Inl e, w'))
   \<and> hk_after_tool_call (merged_hooks hooks) ctx tc result w =
     (case chain (map (\<lambda>p. hk_after_tool_call (snd p) ctx tc) (merged_new hooks)) result w of
        (v, _, w') \<Rightarrow> (Inr v, w'))
   \<and> hk_prepare_next_turn (merged_hooks hooks) ctx a trs w =
     (case chain (map (\<lambda>p. append_prepared ctx a trs (snd p)) (merged_new hooks)) [] w of
        (v, _, w') \<Rightarrow> (Inr v, w'))"
  by (simp add: merged_hooks_def Let_def merged_before_chain merged_after_chain
      merged_prepare_next_turn_def merged_prepare_chain)

end
