(* ===== verification/Futures.thy ===== *)
theory Futures
  imports Main
begin

text \<open>
  Asynchronous calls as the runtime sees them.  A future is what is left of a call: polling
  it runs the code up to the next suspension point, which may emit outputs and change the
  world, and leaves either the result or the rest of the call.  \<open>await\<close> drives one future to
  its end; \<open>run_group\<close> drives several that share a task (\<open>FuturesUnordered\<close>), where a
  schedule says which one is polled next.  A schedule that ends before the group does is a
  group that is still running (\<open>None\<close>).
\<close>

datatype ('w, 'o, 'r) fut = Fut "'w \<Rightarrow> 'o list \<times> 'w \<times> ('r + ('w, 'o, 'r) fut)"

primrec poll :: "('w, 'o, 'r) fut \<Rightarrow> 'w \<Rightarrow> 'o list \<times> 'w \<times> ('r + ('w, 'o, 'r) fut)" where
  "poll (Fut f) = f"

primrec await :: "('w, 'o, 'r) fut \<Rightarrow> 'w \<Rightarrow> 'o list \<times> 'w \<times> 'r" where
  "await (Fut f) =
     (\<lambda>w. case (map_prod id (map_prod id (map_sum id await)) \<circ> f) w of
        (os, w', x) \<Rightarrow>
          (case x of
             Inl r \<Rightarrow> (os, w', r)
           | Inr rest \<Rightarrow> (case rest w' of (os', w'', r) \<Rightarrow> (os @ os', w'', r))))"

lemma await_poll:
  "await f w =
     (case poll f w of
        (os, w', x) \<Rightarrow>
          (case x of
             Inl r \<Rightarrow> (os, w', r)
           | Inr f' \<Rightarrow> (case await f' w' of (os', w'', r) \<Rightarrow> (os @ os', w'', r))))"
  by (cases f) (simp split: prod.splits sum.splits)

text \<open>Induction over what is left after each poll.\<close>

lemma fut_induct [case_names polled]:
  assumes "\<And>f. (\<And>w os w' f'. poll f w = (os, w', Inr f') \<Longrightarrow> P f') \<Longrightarrow> P f"
  shows "P f"
proof (induction f)
  case (Fut g)
  show ?case
  proof (rule assms)
    fix w os w' f'
    assume p: "poll (Fut g) w = (os, w', Inr f')"
    show "P f'"
    proof (rule Fut.IH)
      show "g w \<in> range g" by simp
      show "(w', Inr f') \<in> Basic_BNFs.snds (g w)"
        using p by (simp add: prod_set_defs)
      show "Inr f' \<in> Basic_BNFs.snds (w', Inr f')"
        by (simp add: prod_set_defs)
      show "f' \<in> Basic_BNFs.setr (Inr f')"
        by (simp add: sum_set_defs)
    qed
  qed
qed

text \<open>A call that returns without suspending.\<close>

definition ready :: "'r \<Rightarrow> ('w, 'o, 'r) fut" where
  "ready r = Fut (\<lambda>w. ([], w, Inl r))"

lemma await_ready [simp]: "await (ready r) w = ([], w, r)"
  by (simp add: ready_def)

lemma poll_ready [simp]: "poll (ready r) w = ([], w, Inl r)"
  by (simp add: ready_def)

section \<open>Concurrent groups\<close>

definition progress :: "nat \<Rightarrow> 'f \<Rightarrow> (nat \<times> 'f) list \<Rightarrow> (nat \<times> 'f) list" where
  "progress k f ps = map (\<lambda>p. if fst p = k then (k, f) else p) ps"

definition retire :: "nat \<Rightarrow> (nat \<times> 'f) list \<Rightarrow> (nat \<times> 'f) list" where
  "retire k ps = filter (\<lambda>p. fst p \<noteq> k) ps"

text \<open>The log carries the index of the future that wrote each entry.\<close>

fun run_group ::
    "nat list \<Rightarrow> (nat \<times> ('w, 'o, 'r) fut) list \<Rightarrow> 'w
       \<Rightarrow> ((nat \<times> 'o) list \<times> 'w \<times> (nat \<times> 'r) list \<times> nat list) option" where
  "run_group sch [] w = Some ([], w, [], sch)"
| "run_group [] (p # ps) w = None"
| "run_group (k # sch) (p # ps) w =
     (case map_of (p # ps) k of
        None \<Rightarrow> run_group sch (p # ps) w
      | Some f \<Rightarrow>
          (case poll f w of
             (os, w', Inl r) \<Rightarrow>
               (case run_group sch (retire k (p # ps)) w' of
                  None \<Rightarrow> None
                | Some (log, w'', rs, rest) \<Rightarrow> Some (map (Pair k) os @ log, w'', (k, r) # rs, rest))
           | (os, w', Inr f') \<Rightarrow>
               (case run_group sch (progress k f' (p # ps)) w' of
                  None \<Rightarrow> None
                | Some (log, w'', rs, rest) \<Rightarrow> Some (map (Pair k) os @ log, w'', rs, rest))))"

text \<open>One future that only reads: from world \<open>w\<close> no poll of it changes the world.\<close>

primrec reads_at :: "('w, 'o, 'r) fut \<Rightarrow> 'w \<Rightarrow> bool" where
  "reads_at (Fut f) =
     (\<lambda>w. case (map_prod id (map_prod id (map_sum id reads_at)) \<circ> f) w of
        (os, w', x) \<Rightarrow> w' = w \<and> (case x of Inl r \<Rightarrow> True | Inr rest \<Rightarrow> rest w))"

lemma reads_at_poll:
  "reads_at f w =
     (case poll f w of
        (os, w', x) \<Rightarrow> w' = w \<and> (case x of Inl r \<Rightarrow> True | Inr f' \<Rightarrow> reads_at f' w))"
  by (cases f) (simp split: prod.splits sum.splits)

lemma reads_at_ready [simp]: "reads_at (ready r) w"
  by (simp add: ready_def)

lemma reads_at_await: "reads_at f w \<Longrightarrow> fst (snd (await f w)) = w"
proof (induction f rule: fut_induct)
  case (polled f)
  obtain os w' x where r: "poll f w = (os, w', x)" by (cases "poll f w")
  show ?case
  proof (cases x)
    case (Inl y)
    then show ?thesis
      using polled.prems r by (simp add: reads_at_poll [of f] await_poll [of f])
  next
    case (Inr f')
    then have "w' = w" and "reads_at f' w"
      using polled.prems r by (simp_all add: reads_at_poll [of f])
    moreover have "fst (snd (await f' w)) = w"
      by (rule polled.IH) (use r Inr calculation in auto)
    ultimately show ?thesis
      using r Inr by (cases "await f' w") (simp add: await_poll [of f])
  qed
qed

section \<open>Lemmas on groups\<close>

lemma keys_progress [simp]: "map fst (progress k f ps) = map fst ps"
  by (induction ps) (auto simp: progress_def)

lemma keys_retire: "map fst (retire k ps) = filter (\<lambda>i. i \<noteq> k) (map fst ps)"
  by (induction ps) (auto simp: retire_def)

lemma set_keys_retire: "set (map fst (retire k ps)) = set (map fst ps) - {k}"
  by (simp only: keys_retire) auto

lemma map_of_progress:
  "map_of (progress k f ps) i = (if i = k \<and> map_of ps k \<noteq> None then Some f else map_of ps i)"
  by (induction ps) (auto simp: progress_def)

lemma map_of_retire: "map_of (retire k ps) i = (if i = k then None else map_of ps i)"
  by (induction ps) (auto simp: retire_def)

text \<open>Every future of a finished group has answered exactly once, and nothing else logs.\<close>

lemma run_group_keys:
  assumes "run_group sch ps w = Some (log, w', rs, rest)" and "distinct (map fst ps)"
  shows "distinct (map fst rs) \<and> set (map fst rs) = set (map fst ps)
    \<and> set (map fst log) \<subseteq> set (map fst ps)"
  using assms
proof (induction sch ps w arbitrary: log w' rs rest rule: run_group.induct)
  case (3 k sch p ps w)
  show ?case
  proof (cases "map_of (p # ps) k")
    case None
    then show ?thesis using 3 by (simp del: map_of.simps)
  next
    case (Some f)
    have k: "k \<in> set (map fst (p # ps))"
      using map_of_SomeD [OF Some] by (auto intro!: image_eqI [of _ fst])
    obtain os w1 x where x: "poll f w = (os, w1, x)" by (cases "poll f w")
    show ?thesis
    proof (cases x)
      case (Inl r)
      then obtain log' rs' where rec: "run_group sch (retire k (p # ps)) w1 = Some (log', w', rs', rest)"
        and out: "log = map (Pair k) os @ log'" "rs = (k, r) # rs'"
        using 3(4) Some x by (auto simp del: map_of.simps split: option.splits)
      have "distinct (map fst (retire k (p # ps)))"
        using 3(5) by (simp only: keys_retire distinct_filter)
      note IH = 3(2) [OF Some x [symmetric] refl Inl rec this]
      then show ?thesis using out k by (auto simp: keys_retire)
    next
      case (Inr f')
      then obtain log' rs' where rec: "run_group sch (progress k f' (p # ps)) w1 = Some (log', w', rs', rest)"
        and out: "log = map (Pair k) os @ log'" "rs = rs'"
        using 3(4) Some x by (auto simp del: map_of.simps split: option.splits)
      have "distinct (map fst (progress k f' (p # ps)))"
        using 3(5) by (simp only: keys_progress)
      note IH = 3(3) [OF Some x [symmetric] refl Inr rec this]
      then show ?thesis using out k by (auto simp: keys_progress)
    qed
  qed
qed auto


lemma set_retire: "p \<in> set (retire k ps) \<Longrightarrow> p \<in> set ps"
  by (auto simp: retire_def)

text \<open>
  Futures that only read do not interfere: whatever the schedule, each returns and logs
  what it would have if it had run alone.
\<close>

definition own :: "nat \<Rightarrow> (nat \<times> 'o) list \<Rightarrow> 'o list" where
  "own i log = map snd (filter (\<lambda>e. fst e = i) log)"

lemma own_simps [simp]:
  "own i [] = []" "own i (xs @ ys) = own i xs @ own i ys"
  "own i (map (Pair k) os) = (if i = k then os else [])"
  by (auto simp: own_def filter_map o_def)

lemma own_not_in: "i \<notin> fst ` set log \<Longrightarrow> own i log = []"
  by (auto simp: own_def filter_empty_conv)

definition solo :: "'w \<Rightarrow> (nat \<times> ('w, 'o, 'r) fut) list \<Rightarrow> (nat \<times> 'o) list \<Rightarrow> (nat \<times> 'r) list \<Rightarrow> bool" where
  "solo w ps log rs =
     ((\<forall>i f. map_of ps i = Some f \<longrightarrow> own i log = fst (await f w))
      \<and> (\<forall>(i, r) \<in> set rs. \<exists>f. map_of ps i = Some f \<and> r = snd (snd (await f w))))"

lemma run_group_readers:
  assumes "run_group sch ps w = Some (log, w', rs, rest)" and "distinct (map fst ps)"
    and "\<forall>i f. map_of ps i = Some f \<longrightarrow> reads_at f w"
  shows "w' = w \<and> solo w ps log rs"
  using assms
proof (induction sch ps w arbitrary: log w' rs rest rule: run_group.induct)
  case (1 sch w)
  then show ?case by (simp add: solo_def)
next
  case (3 k sch p ps w)
  show ?case
  proof (cases "map_of (p # ps) k")
    case None
    then show ?thesis using 3 by (simp del: map_of.simps)
  next
    case (Some f)
    obtain os w1 x where x: "poll f w = (os, w1, x)" by (cases "poll f w")
    have rf: "reads_at f w" using 3(6) Some by blast
    then have w1: "w1 = w" using x by (simp add: reads_at_poll)
    show ?thesis
    proof (cases x)
      case (Inl r)
      then obtain log' rs' where rec: "run_group sch (retire k (p # ps)) w1 = Some (log', w', rs', rest)"
        and out: "log = map (Pair k) os @ log'" "rs = (k, r) # rs'"
        using 3(4) Some x by (auto simp del: map_of.simps split: option.splits)
      have d: "distinct (map fst (retire k (p # ps)))"
        using 3(5) by (simp only: keys_retire distinct_filter)
      have "\<forall>i f. map_of (retire k (p # ps)) i = Some f \<longrightarrow> reads_at f w1"
        using 3(6) w1 by (simp add: map_of_retire del: map_of.simps)
      note IH = 3(2) [OF Some x [symmetric] refl Inl rec d this]
      have "own k log' = []"
      proof (rule own_not_in)
        have "set (map fst log') \<subseteq> set (map fst (p # ps)) - {k}"
          using run_group_keys [OF rec d] by (metis set_keys_retire)
        then show "k \<notin> fst ` set log'" by (auto simp del: list.map)
      qed
      moreover have "await f w = (os, w, r)"
        using x Inl w1 by (simp add: await_poll)
      ultimately show ?thesis
        using IH out Some w1
        by (auto simp: solo_def map_of_retire simp del: map_of.simps split: if_splits)
    next
      case (Inr f')
      then obtain log' rs' where rec: "run_group sch (progress k f' (p # ps)) w1 = Some (log', w', rs', rest)"
        and out: "log = map (Pair k) os @ log'" "rs = rs'"
        using 3(4) Some x by (auto simp del: map_of.simps split: option.splits)
      have d: "distinct (map fst (progress k f' (p # ps)))"
        using 3(5) by (simp only: keys_progress)
      have "reads_at f' w" using rf x Inr by (simp add: reads_at_poll [of f])
      then have "\<forall>i g. map_of (progress k f' (p # ps)) i = Some g \<longrightarrow> reads_at g w1"
        using 3(6) w1 by (simp add: map_of_progress del: map_of.simps)
      note IH = 3(3) [OF Some x [symmetric] refl Inr rec d this]
      obtain os' r where aw: "await f' w = (os', w, r)"
        using reads_at_await [OF \<open>reads_at f' w\<close>] by (cases "await f' w") auto
      then have "await f w = (os @ os', w, r)"
        using x Inr w1 by (simp add: await_poll [of f])
      then show ?thesis
        using IH out Some w1 aw
        by (auto simp: solo_def map_of_progress simp del: map_of.simps split: if_splits)
    qed
  qed
qed auto

text \<open>A group never deadlocks: from any point some continuation of the schedule ends it.\<close>

lemma finish_head:
  assumes "\<forall>w. \<exists>sch. run_group sch ps w \<noteq> None" and "k \<notin> set (map fst ps)"
  shows "\<exists>sch. run_group sch ((k, f) # ps) w \<noteq> None"
proof (induction f arbitrary: w rule: fut_induct)
  case (polled f)
  have same: "retire k ((k, f) # ps) = ps" "progress k f' ((k, f) # ps) = (k, f') # ps" for f'
    using assms(2) by (force simp: retire_def progress_def filter_id_conv intro!: map_idI)+
  obtain os w' x where r: "poll f w = (os, w', x)" by (cases "poll f w")
  show ?case
  proof (cases x)
    case (Inl y)
    obtain sch where "run_group sch ps w' \<noteq> None" using assms(1) by blast
    then have "run_group (k # sch) ((k, f) # ps) w \<noteq> None"
      using r Inl same by (auto split: option.splits)
    then show ?thesis by blast
  next
    case (Inr f')
    obtain sch where "run_group sch ((k, f') # ps) w' \<noteq> None"
      using polled [of w os w' f'] r Inr by blast
    then have "run_group (k # sch) ((k, f) # ps) w \<noteq> None"
      using r Inr same by (auto split: option.splits)
    then show ?thesis by blast
  qed
qed

lemma run_group_can_finish:
  "distinct (map fst ps) \<Longrightarrow> \<exists>sch. run_group sch ps w \<noteq> None"
proof (induction ps arbitrary: w)
  case (Cons p ps)
  then show ?case using finish_head [of ps "fst p" "snd p" w] by simp
qed simp

lemma run_group_completes:
  "distinct (map fst ps) \<Longrightarrow> \<exists>sch'. run_group (sch @ sch') ps w \<noteq> None"
proof (induction sch ps w rule: run_group.induct)
  case (2 p ps w)
  then show ?case using run_group_can_finish [of "p # ps" w] by simp
next
  case (3 k sch p ps w)
  show ?case
  proof (cases "map_of (p # ps) k")
    case None
    then show ?thesis using 3 by (simp del: map_of.simps)
  next
    case (Some f)
    obtain os w1 x where x: "poll f w = (os, w1, x)" by (cases "poll f w")
    show ?thesis
    proof (cases x)
      case (Inl r)
      have "distinct (map fst (retire k (p # ps)))"
        using 3(4) by (simp only: keys_retire distinct_filter)
      from 3(2) [OF Some x [symmetric] refl Inl this] show ?thesis
        using Some x Inl by (auto simp del: map_of.simps split: option.splits)
    next
      case (Inr f')
      have "distinct (map fst (progress k f' (p # ps)))"
        using 3(4) by (simp only: keys_progress)
      from 3(3) [OF Some x [symmetric] refl Inr this] show ?thesis
        using Some x Inr by (auto simp del: map_of.simps split: option.splits)
    qed
  qed
qed simp


text \<open>Schedule left over by a finished group is passed on.\<close>

lemma run_group_more:
  "run_group sch ps w = Some (log, w', rs, rest)
   \<Longrightarrow> run_group (sch @ more) ps w = Some (log, w', rs, rest @ more)"
proof (induction sch ps w arbitrary: log w' rs rest rule: run_group.induct)
  case (3 k sch p ps w)
  show ?case
  proof (cases "map_of (p # ps) k")
    case None
    then show ?thesis using 3 by (simp del: map_of.simps)
  next
    case (Some f)
    obtain os w1 x where x: "poll f w = (os, w1, x)" by (cases "poll f w")
    show ?thesis
    proof (cases x)
      case (Inl r)
      then show ?thesis
        using 3(4) 3(2) [OF Some x [symmetric] refl Inl] Some x
        by (auto simp del: map_of.simps split: option.splits)
    next
      case (Inr f')
      then show ?thesis
        using 3(4) 3(3) [OF Some x [symmetric] refl Inr] Some x
        by (auto simp del: map_of.simps split: option.splits)
    qed
  qed
qed auto

section \<open>Trajectories\<close>

text \<open>
  What a future may emit and return when others change the world between its polls.
\<close>

inductive runs :: "('w, 'o, 'r) fut \<Rightarrow> 'o list \<Rightarrow> 'r \<Rightarrow> bool" where
  finish: "poll f w = (os, w', Inl r) \<Longrightarrow> runs f os r"
| suspend: "poll f w = (os, w', Inr f') \<Longrightarrow> runs f' os' r \<Longrightarrow> runs f (os @ os') r"

lemma await_runs: "await f w = (os, w', r) \<Longrightarrow> runs f os r"
proof (induction f arbitrary: w os w' r rule: fut_induct)
  case (polled f)
  obtain os1 w1 x where p: "poll f w = (os1, w1, x)" by (cases "poll f w")
  show ?case
  proof (cases x)
    case (Inl y)
    then show ?thesis using polled.prems p by (auto simp: await_poll [of f] intro: runs.finish)
  next
    case (Inr f')
    obtain os2 w2 r2 where a: "await f' w1 = (os2, w2, r2)" by (cases "await f' w1")
    then have "runs f' os2 r2" using polled.IH p Inr by blast
    then show ?thesis
      using polled.prems p Inr a by (auto simp: await_poll [of f] intro: runs.suspend)
  qed
qed

lemma run_group_runs:
  assumes "run_group sch ps w = Some (log, w', rs, rest)" and "distinct (map fst ps)"
    and "(i, r) \<in> set rs"
  shows "\<exists>f. map_of ps i = Some f \<and> runs f (own i log) r"
  using assms
proof (induction sch ps w arbitrary: log w' rs rest rule: run_group.induct)
  case (3 k sch p ps w)
  show ?case
  proof (cases "map_of (p # ps) k")
    case None
    then show ?thesis using 3 by (simp del: map_of.simps)
  next
    case (Some f)
    obtain os w1 x where x: "poll f w = (os, w1, x)" by (cases "poll f w")
    show ?thesis
    proof (cases x)
      case (Inl y)
      then obtain log' rs' where rec: "run_group sch (retire k (p # ps)) w1 = Some (log', w', rs', rest)"
        and out: "log = map (Pair k) os @ log'" "rs = (k, y) # rs'"
        using 3(4) Some x by (auto simp del: map_of.simps split: option.splits)
      have d: "distinct (map fst (retire k (p # ps)))"
        using 3(5) by (simp only: keys_retire distinct_filter)
      have keys: "set (map fst rs') = set (map fst (p # ps)) - {k}"
        "set (map fst log') \<subseteq> set (map fst (p # ps)) - {k}"
        using run_group_keys [OF rec d] by (metis set_keys_retire)+
      then have other: "own k log' = []" by (intro own_not_in) (auto simp del: list.map)
      show ?thesis
      proof (cases "(i, r) \<in> set rs'")
        case True
        then have "i \<noteq> k" using keys(1) by force
        with 3(2) [OF Some x [symmetric] refl Inl rec d True] show ?thesis
          using out by (auto simp: map_of_retire simp del: map_of.simps split: if_splits)
      next
        case False
        then have "i = k" "r = y" using 3(6) out by auto
        then show ?thesis using Some x Inl out other by (auto intro: runs.finish simp del: map_of.simps)
      qed
    next
      case (Inr f')
      then obtain log' rs' where rec: "run_group sch (progress k f' (p # ps)) w1 = Some (log', w', rs', rest)"
        and out: "log = map (Pair k) os @ log'" "rs = rs'"
        using 3(4) Some x by (auto simp del: map_of.simps split: option.splits)
      have d: "distinct (map fst (progress k f' (p # ps)))"
        using 3(5) by (simp only: keys_progress)
      from 3(3) [OF Some x [symmetric] refl Inr rec d] 3(6) out
      obtain g where "map_of (progress k f' (p # ps)) i = Some g" "runs g (own i log') r"
        by auto
      then show ?thesis
        using out Some x Inr
        by (auto simp: map_of_progress intro: runs.suspend simp del: map_of.simps split: if_splits)
    qed
  qed
qed auto

end
