(* ===== verification/Loop_Config.thy ===== *)
theory Loop_Config
  imports Context_Budget Hooks Futures
begin

text \<open>
  The configuration of a run: the \<open>Tool\<close> trait (\<open>core/tool.rs\<close>), the loop configuration
  (\<open>core/runtime/mod.rs\<close>) and the commands and snapshot of an agent (\<open>core/agent.rs\<close>).

  Tools and plugin hooks are asynchronous and act on the outside, so they pass a world of
  type \<open>'w\<close> through; the closure hooks are plain functions.  A tool's \<open>execute\<close> is a future
  whose outputs are the partial results it hands to \<open>on_update\<close>; the boolean it receives
  says whether the run's cancellation token is set when it is called.
\<close>

record ToolError =
  te_message :: string

definition tool_error_display :: "ToolError \<Rightarrow> string" where
  "tool_error_display e = ''ToolError: '' @ te_message e"

record 'w Tool =
  tl_name :: string
  tl_description :: string
  tl_parameters :: "json option"
  tl_resource_scope :: ResourceScope
  tl_execute :: "string \<Rightarrow> json \<Rightarrow> bool \<Rightarrow> ('w, ToolResult, ToolError + ToolResult) fut"

datatype ToolExecutionMode = Sequential | ReadOnlyParallel

record 'w LoopConfig =
  cfg_model :: Model
  cfg_convert_to_llm :: "Message list \<Rightarrow> Message list"
  cfg_transform_context :: "(Message list \<Rightarrow> bool \<Rightarrow> Message list) option"
  cfg_before_tool_call :: "(ToolCall \<Rightarrow> json \<Rightarrow> string + unit) option"
  cfg_after_tool_call :: "(ToolCall \<Rightarrow> ToolResult \<Rightarrow> ToolResult) option"
  cfg_should_stop_after_turn :: "(AssistantMessage \<Rightarrow> ToolResultMessage list \<Rightarrow> bool) option"
  cfg_prepare_next_turn :: "(AssistantMessage \<Rightarrow> ToolResultMessage list \<Rightarrow> Message list) option"
  cfg_tool_execution :: ToolExecutionMode
  cfg_max_retries :: u32
  cfg_retry_base_delay :: Duration
  cfg_retry_max_delay :: Duration
  cfg_request_timeout :: "Duration option"
  cfg_compactor :: "('w \<Rightarrow> compact_fn) option"
  cfg_compaction :: CompactionPolicy
  cfg_hooks :: "'w LifecycleHooks option"

definition millis :: "nat \<Rightarrow> Duration" where
  "millis n = n * 10 ^ 6"

definition default_config :: "'w LoopConfig" where
  "default_config =
     \<lparr>cfg_model = \<lparr>model_id = ''default'', model_context_window = 8192\<rparr>,
      cfg_convert_to_llm = default_convert_to_llm,
      cfg_transform_context = None,
      cfg_before_tool_call = None,
      cfg_after_tool_call = None,
      cfg_should_stop_after_turn = None,
      cfg_prepare_next_turn = None,
      cfg_tool_execution = Sequential,
      cfg_max_retries = 3,
      cfg_retry_base_delay = millis 500,
      cfg_retry_max_delay = millis 30000,
      cfg_request_timeout = None,
      cfg_compactor = None,
      cfg_compaction = default_policy,
      cfg_hooks = None\<rparr>"

definition tool_specs :: "'w Tool list \<Rightarrow> ToolSpec list" where
  "tool_specs tools =
     map (\<lambda>t. \<lparr>ts_name = tl_name t, ts_description = tl_description t,
               ts_parameters = tl_parameters t\<rparr>) tools"

section \<open>Commands and snapshots (core/agent.rs)\<close>

datatype AgentCommand =
    Prompt "Message list"
  | Continue
  | Steer Message
  | FollowUp Message
  | Abort
  | Reset
  | Shutdown

record AgentConfig =
  ac_system_prompt :: string
  ac_model :: "string option"
  ac_thinking_level :: ThinkingLevel

record AgentSnapshot =
  as_system_prompt :: string
  as_model :: "string option"
  as_thinking_level :: ThinkingLevel
  as_messages :: "Message list"
  as_is_streaming :: bool
  as_streaming_message :: "Message option"
  as_pending_tool_calls :: "string list"
  as_error_message :: "string option"

text \<open>The snapshot \<open>AgentHandle::spawn_with_transcript\<close> starts from.\<close>

definition initial_snapshot :: "AgentConfig \<Rightarrow> Message list \<Rightarrow> AgentSnapshot" where
  "initial_snapshot config transcript =
     \<lparr>as_system_prompt = ac_system_prompt config,
      as_model = ac_model config,
      as_thinking_level = ac_thinking_level config,
      as_messages = transcript,
      as_is_streaming = False,
      as_streaming_message = None,
      as_pending_tool_calls = [],
      as_error_message = None\<rparr>"

end
