(* ===== verification/Tool_Exec.thy ===== *)
theory Tool_Exec
  imports Loop_Config
begin

text \<open>
  Tool orchestration (\<open>core/runtime/tools.rs\<close>): preparing the calls of a turn, executing them
  one after another or with the consecutive \<open>ReadOnly\<close> calls concurrently, and turning the
  results into messages.  \<open>parse\<close> is \<open>serde_json::from_str\<close>; a schedule says in which order
  the calls of a concurrent group are polled.  The log of events carries for each the index
  of the call that sent it.
\<close>

section \<open>Prepare\<close>

record 'w PreparedCall =
  pcall_tool_call :: ToolCall
  pcall_tool :: "'w Tool option"
  pcall_args :: json
  pcall_rejected :: "string option"

definition scope :: "'w PreparedCall \<Rightarrow> ResourceScope" where
  "scope p = (case pcall_tool p of Some t \<Rightarrow> tl_resource_scope t | None \<Rightarrow> Exclusive)"

definition find_tool :: "'w Tool list \<Rightarrow> string \<Rightarrow> 'w Tool option" where
  "find_tool tools name = List.find (\<lambda>t. tl_name t = name) tools"

definition closure_veto :: "'w LoopConfig \<Rightarrow> ToolCall \<Rightarrow> json \<Rightarrow> string option" where
  "closure_veto config tc args =
     (case cfg_before_tool_call config of
        None \<Rightarrow> None
      | Some hook \<Rightarrow> (case hook tc args of Inl e \<Rightarrow> Some e | Inr _ \<Rightarrow> None))"

definition prepare_call ::
    "json_parser \<Rightarrow> 'w LoopConfig \<Rightarrow> 'w Tool list \<Rightarrow> Message list \<Rightarrow> ToolCall \<Rightarrow> 'w
       \<Rightarrow> 'w PreparedCall \<times> 'w" where
  "prepare_call parse config tools transcript tc w =
     (let tool = find_tool tools (tc_name tc);
          prepared = (\<lambda>args rejected.
            \<lparr>pcall_tool_call = tc, pcall_tool = tool, pcall_args = args, pcall_rejected = rejected\<rparr>)
      in case parse (tc_arguments tc) of
           Inl e \<Rightarrow> (prepared JNull (Some (''invalid arguments: '' @ e)), w)
         | Inr args \<Rightarrow>
             (case cfg_hooks config of
                None \<Rightarrow> (prepared args (closure_veto config tc args), w)
              | Some hooks \<Rightarrow>
                  (case hk_before_tool_call hooks (hook_context_new transcript) args w of
                     (Inr (), w') \<Rightarrow> (prepared args (closure_veto config tc args), w')
                   | (Inl e, w') \<Rightarrow> (prepared args (Some (he_message e)), w'))))"

fun prepare_calls ::
    "json_parser \<Rightarrow> 'w LoopConfig \<Rightarrow> 'w Tool list \<Rightarrow> Message list \<Rightarrow> ToolCall list \<Rightarrow> 'w
       \<Rightarrow> 'w PreparedCall list \<times> 'w" where
  "prepare_calls parse config tools transcript [] w = ([], w)"
| "prepare_calls parse config tools transcript (tc # tcs) w =
     (case prepare_call parse config tools transcript tc w of
        (p, w') \<Rightarrow>
          (case prepare_calls parse config tools transcript tcs w' of
             (ps, w'') \<Rightarrow> (p # ps, w'')))"

section \<open>Execute\<close>

definition start_event :: "ToolCall \<Rightarrow> json \<Rightarrow> AgentEvent" where
  "start_event tc args = ToolExecutionStart (tc_id tc) (tc_name tc) args"

definition update_event :: "ToolCall \<Rightarrow> json \<Rightarrow> ToolResult \<Rightarrow> AgentEvent" where
  "update_event tc args partial = ToolExecutionUpdate (tc_id tc) (tc_name tc) args partial"

definition end_event :: "ToolCall \<Rightarrow> ToolResult \<Rightarrow> AgentEvent" where
  "end_event tc result = ToolExecutionEnd (tc_id tc) (tc_name tc) result (tr_is_error result)"

definition tool_outcome :: "ToolError + ToolResult \<Rightarrow> ToolResult" where
  "tool_outcome x =
     (case x of Inr r \<Rightarrow> r | Inl e \<Rightarrow> tool_result_error (tool_error_display e))"

text \<open>The tool's future with its partial results sent as events and the end event after it.\<close>

primrec with_events ::
    "ToolCall \<Rightarrow> json \<Rightarrow> ('w, ToolResult, ToolError + ToolResult) fut
       \<Rightarrow> ('w, AgentEvent, ToolResult) fut" where
  "with_events tc args (Fut f) =
     Fut (\<lambda>w. case (map_prod id (map_prod id (map_sum id (with_events tc args))) \<circ> f) w of
       (partials, w', x) \<Rightarrow>
         (case x of
            Inl res \<Rightarrow>
              (map (update_event tc args) partials @ [end_event tc (tool_outcome res)], w',
               Inl (tool_outcome res))
          | Inr rest \<Rightarrow> (map (update_event tc args) partials, w', Inr rest)))"

definition execute_single :: "'w PreparedCall \<Rightarrow> bool \<Rightarrow> ('w, AgentEvent, ToolResult) fut" where
  "execute_single p cancelled =
     (let tc = pcall_tool_call p; args = pcall_args p in
      Fut (\<lambda>w. case pcall_rejected p of
        Some reject \<Rightarrow>
          (let r = tool_result_error reject in ([start_event tc args, end_event tc r], w, Inl r))
      | None \<Rightarrow>
          (case pcall_tool p of
             Some tool \<Rightarrow>
               (case poll (with_events tc args (tl_execute tool (tc_id tc) args cancelled)) w of
                  (es, w', x) \<Rightarrow> (start_event tc args # es, w', x))
           | None \<Rightarrow>
               (let r = tool_result_error (''unknown tool: '' @ tc_name tc)
                in ([start_event tc args, end_event tc r], w, Inl r)))))"

fun sequential_loop ::
    "nat \<Rightarrow> 'w PreparedCall list \<Rightarrow> bool \<Rightarrow> 'w
       \<Rightarrow> (nat \<times> AgentEvent) list \<times> 'w \<times> (nat \<times> ToolResult) list" where
  "sequential_loop i [] cancelled w = ([], w, [])"
| "sequential_loop i (p # ps) cancelled w =
     (case await (execute_single p cancelled) w of
        (es, w', r) \<Rightarrow>
          (case sequential_loop (Suc i) ps cancelled w' of
             (log, w'', pairs) \<Rightarrow> (map (Pair i) es @ log, w'', (i, r) # pairs)))"

definition execute_sequential ::
    "'w PreparedCall list \<Rightarrow> bool \<Rightarrow> 'w \<Rightarrow> (nat \<times> AgentEvent) list \<times> 'w \<times> ToolResult list" where
  "execute_sequential ps cancelled w =
     (case sequential_loop 0 ps cancelled w of (log, w', pairs) \<Rightarrow> (log, w', map snd pairs))"

text \<open>The futures of a group, pushed with their indices.\<close>

definition group_of :: "nat \<Rightarrow> 'w PreparedCall list \<Rightarrow> bool \<Rightarrow> (nat \<times> ('w, AgentEvent, ToolResult) fut) list" where
  "group_of i ps cancelled = zip [i ..< i + length ps] (map (\<lambda>p. execute_single p cancelled) ps)"

function parallel_loop ::
    "nat \<Rightarrow> nat list \<Rightarrow> 'w PreparedCall list \<Rightarrow> bool \<Rightarrow> 'w
       \<Rightarrow> ((nat \<times> AgentEvent) list \<times> 'w \<times> (nat \<times> ToolResult) list \<times> nat list) option" where
  "parallel_loop i sch [] cancelled w = Some ([], w, [], sch)"
| "parallel_loop i sch (p # ps) cancelled w =
     (if scope p = ReadOnly then
        (let g = takeWhile (\<lambda>q. scope q = ReadOnly) (p # ps) in
         case run_group sch (group_of i g cancelled) w of
           None \<Rightarrow> None
         | Some (log, w', pairs, sch') \<Rightarrow>
             (case parallel_loop (i + length g) sch' (drop (length g) (p # ps)) cancelled w' of
                None \<Rightarrow> None
              | Some (log', w'', pairs', rest) \<Rightarrow> Some (log @ log', w'', pairs @ pairs', rest)))
      else
        (case await (execute_single p cancelled) w of
           (es, w', r) \<Rightarrow>
             (case parallel_loop (Suc i) sch ps cancelled w' of
                None \<Rightarrow> None
              | Some (log', w'', pairs', rest) \<Rightarrow>
                  Some (map (Pair i) es @ log', w'', (i, r) # pairs', rest))))"
  by pat_completeness auto
termination
  by (relation "measure (\<lambda>(i, sch, ps, cancelled, w). length ps)") auto

definition execute_readonly_parallel ::
    "nat list \<Rightarrow> 'w PreparedCall list \<Rightarrow> bool \<Rightarrow> 'w
       \<Rightarrow> ((nat \<times> AgentEvent) list \<times> 'w \<times> ToolResult list \<times> nat list) option" where
  "execute_readonly_parallel sch ps cancelled w =
     (case parallel_loop 0 sch ps cancelled w of
        None \<Rightarrow> None
      | Some (log, w', pairs, rest) \<Rightarrow> Some (log, w', map snd (sort_key fst pairs), rest))"

section \<open>Truncated calls\<close>

definition truncated_args :: "json_parser \<Rightarrow> ToolCall \<Rightarrow> json" where
  "truncated_args parse tc = (case parse (tc_arguments tc) of Inr v \<Rightarrow> v | Inl _ \<Rightarrow> JNull)"

definition truncated_result :: ToolResult where
  "truncated_result = tool_result_error ''tool call arguments truncated by length limit''"

fun synthesize_truncated_results ::
    "json_parser \<Rightarrow> ToolCall list \<Rightarrow> AgentEvent list \<times> ToolResultMessage list" where
  "synthesize_truncated_results parse [] = ([], [])"
| "synthesize_truncated_results parse (tc # tcs) =
     (case synthesize_truncated_results parse tcs of
        (es, msgs) \<Rightarrow>
          (start_event tc (truncated_args parse tc)
             # ToolExecutionEnd (tc_id tc) (tc_name tc) truncated_result True # es,
           \<lparr>trm_tool_call_id = tc_id tc, trm_tool_name = tc_name tc, trm_is_error = True,
            trm_content = tr_content truncated_result, trm_details = None, trm_timestamp = 0\<rparr>
             # msgs))"

section \<open>The batch\<close>

definition result_message :: "ToolCall \<Rightarrow> ToolResult \<Rightarrow> ToolResultMessage" where
  "result_message tc r =
     \<lparr>trm_tool_call_id = tc_id tc, trm_tool_name = tc_name tc, trm_is_error = tr_is_error r,
      trm_content = tr_content r, trm_details = tr_details r, trm_timestamp = 0\<rparr>"

definition after_plugins ::
    "'w LoopConfig \<Rightarrow> Message list \<Rightarrow> ToolCall \<Rightarrow> ToolResult \<Rightarrow> 'w \<Rightarrow> ToolResult \<times> 'w" where
  "after_plugins config transcript tc r w =
     (case cfg_hooks config of
        None \<Rightarrow> (r, w)
      | Some hooks \<Rightarrow>
          (case hk_after_tool_call hooks (hook_context_new transcript) tc r w of
             (Inr r', w') \<Rightarrow> (r', w') | (Inl _, w') \<Rightarrow> (r, w')))"

definition after_closure :: "'w LoopConfig \<Rightarrow> ToolCall \<Rightarrow> ToolResult \<Rightarrow> ToolResult" where
  "after_closure config tc r =
     (case cfg_after_tool_call config of None \<Rightarrow> r | Some hook \<Rightarrow> hook tc r)"

fun after_calls ::
    "'w LoopConfig \<Rightarrow> Message list \<Rightarrow> ToolCall list \<Rightarrow> ToolResult list \<Rightarrow> 'w
       \<Rightarrow> ToolResultMessage list \<times> 'w" where
  "after_calls config transcript (tc # tcs) (r # rs) w =
     (case after_plugins config transcript tc r w of
        (r', w') \<Rightarrow>
          (case after_calls config transcript tcs rs w' of
             (msgs, w'') \<Rightarrow> (result_message tc (after_closure config tc r') # msgs, w'')))"
| "after_calls config transcript tcs rs w = ([], w)"

definition execute_prepared ::
    "nat list \<Rightarrow> ToolExecutionMode \<Rightarrow> 'w PreparedCall list \<Rightarrow> bool \<Rightarrow> 'w
       \<Rightarrow> ((nat \<times> AgentEvent) list \<times> 'w \<times> ToolResult list \<times> nat list) option" where
  "execute_prepared sch mode ps cancelled w =
     (case mode of
        Sequential \<Rightarrow>
          (case execute_sequential ps cancelled w of (log, w', rs) \<Rightarrow> Some (log, w', rs, sch))
      | ReadOnlyParallel \<Rightarrow> execute_readonly_parallel sch ps cancelled w)"

definition execute_tool_calls ::
    "json_parser \<Rightarrow> 'w LoopConfig \<Rightarrow> 'w Tool list \<Rightarrow> Message list \<Rightarrow> ToolCall list
       \<Rightarrow> StopReason option \<Rightarrow> bool \<Rightarrow> nat list \<Rightarrow> 'w
       \<Rightarrow> (AgentEvent list \<times> 'w \<times> ToolResultMessage list \<times> nat list) option" where
  "execute_tool_calls parse config tools transcript tcs stop_reason cancelled sch w =
     (if stop_reason = Some StopLength \<and> tcs \<noteq> [] then
        (case synthesize_truncated_results parse tcs of (es, msgs) \<Rightarrow> Some (es, w, msgs, sch))
      else
        (case prepare_calls parse config tools transcript tcs w of
           (ps, w1) \<Rightarrow>
             (case execute_prepared sch (cfg_tool_execution config) ps cancelled w1 of
                None \<Rightarrow> None
              | Some (log, w2, rs, rest) \<Rightarrow>
                  (case after_calls config transcript (map pcall_tool_call ps) rs w2 of
                     (msgs, w3) \<Rightarrow> Some (map snd log, w3, msgs, rest)))))"


section \<open>Lemmas: one call\<close>

lemma poll_with_events:
  "poll (with_events tc args f) w =
     (case poll f w of
        (partials, w', x) \<Rightarrow>
          (case x of
             Inl res \<Rightarrow>
               (map (update_event tc args) partials @ [end_event tc (tool_outcome res)], w',
                Inl (tool_outcome res))
           | Inr f' \<Rightarrow> (map (update_event tc args) partials, w', Inr (with_events tc args f'))))"
  by (cases f) (simp split: prod.splits sum.splits)

lemma runs_with_events:
  "runs (with_events tc args f) es r
   \<Longrightarrow> \<exists>partials. es = map (update_event tc args) partials @ [end_event tc r]"
proof (induction f arbitrary: es rule: fut_induct)
  case (polled f)
  from polled.prems show ?case
  proof (cases rule: runs.cases)
    case (finish w w')
    then show ?thesis by (auto simp: poll_with_events split: prod.splits sum.splits)
  next
    case (suspend w os w' g os')
    obtain ps w1 x where p: "poll f w = (ps, w1, x)" by (cases "poll f w")
    then obtain f' where f': "x = Inr f'" "g = with_events tc args f'"
      "os = map (update_event tc args) ps"
      using suspend(2) by (cases x) (auto simp: poll_with_events)
    then obtain qs where "os' = map (update_event tc args) qs @ [end_event tc r]"
      using polled.IH [of w ps w1 f' os'] p suspend(3) by blast
    then show ?thesis
      using suspend(1) f' by (intro exI [of _ "ps @ qs"]) simp
  qed
qed

text \<open>The events of one call: a start, partial results, and an end that carries the result.\<close>

definition bracketed :: "'w PreparedCall \<Rightarrow> AgentEvent list \<Rightarrow> ToolResult \<Rightarrow> bool" where
  "bracketed p es r =
     (let tc = pcall_tool_call p; args = pcall_args p in
      \<exists>partials. es = start_event tc args # map (update_event tc args) partials @ [end_event tc r])"

lemma runs_execute_single:
  assumes "runs (execute_single p cancelled) es r"
  shows "bracketed p es r"
  using assms
proof (cases rule: runs.cases)
  case (finish w w')
  show ?thesis
  proof (cases "pcall_rejected p = None \<and> pcall_tool p \<noteq> None")
    case True
    then obtain tool where t: "pcall_rejected p = None" "pcall_tool p = Some tool" by auto
    then show ?thesis
      using finish
      by (auto simp: execute_single_def Let_def bracketed_def poll_with_events
          split: prod.splits sum.splits)
  next
    case False
    then show ?thesis
      using finish
      by (auto simp: execute_single_def Let_def bracketed_def split: option.splits)
  qed
next
  case (suspend w os w' f' os')
  then obtain tool where t: "pcall_rejected p = None" "pcall_tool p = Some tool"
    by (auto simp: execute_single_def Let_def split: option.splits)
  let ?f = "tl_execute tool (tc_id (pcall_tool_call p)) (pcall_args p) cancelled"
  obtain ps w1 x where px: "poll ?f w = (ps, w1, x)" by (cases "poll ?f w")
  then obtain g where "f' = with_events (pcall_tool_call p) (pcall_args p) g"
    "os = start_event (pcall_tool_call p) (pcall_args p)
       # map (update_event (pcall_tool_call p) (pcall_args p)) ps"
    using suspend(2) t by (cases x) (auto simp: execute_single_def Let_def poll_with_events)
  moreover from this obtain qs where
    "os' = map (update_event (pcall_tool_call p) (pcall_args p)) qs @ [end_event (pcall_tool_call p) r]"
    using runs_with_events suspend(3) by blast
  ultimately show ?thesis
    using suspend(1) by (auto simp: bracketed_def Let_def intro: exI [of _ "ps @ qs"])
qed

lemma reads_with_events:
  "reads_at f w \<Longrightarrow> reads_at (with_events tc args f) w"
proof (induction f rule: fut_induct)
  case (polled f)
  then show ?case
    by (auto simp: reads_at_poll [of f] reads_at_poll [of "with_events tc args f"] poll_with_events
        split: prod.splits sum.splits)
qed

definition reader_tool :: "'w Tool \<Rightarrow> bool" where
  "reader_tool t = (\<forall>i args cancelled w. reads_at (tl_execute t i args cancelled) w)"

lemma reads_execute_single:
  assumes "scope p = ReadOnly" and "\<forall>t. pcall_tool p = Some t \<longrightarrow> reader_tool t"
  shows "reads_at (execute_single p cancelled) w"
proof -
  obtain t where t: "pcall_tool p = Some t"
    using assms(1) by (cases "pcall_tool p") (auto simp: scope_def)
  then have "reads_at (with_events (pcall_tool_call p) (pcall_args p)
      (tl_execute t (tc_id (pcall_tool_call p)) (pcall_args p) cancelled)) w"
    using assms(2) by (simp add: reader_tool_def reads_with_events)
  then show ?thesis
    using t
    by (auto simp: execute_single_def Let_def reads_at_poll [of "Fut f" for f]
        reads_at_poll [of "with_events tc args f" for tc args f]
        split: option.splits prod.splits sum.splits)
qed

section \<open>Lemmas: loops\<close>

lemma sequential_keys:
  "sequential_loop i ps cancelled w = (log, w', pairs)
   \<Longrightarrow> map fst pairs = [i ..< i + length ps] \<and> (\<forall>e \<in> set log. fst e \<in> {i ..< i + length ps})"
proof (induction ps arbitrary: i w log w' pairs)
  case (Cons p ps)
  obtain es w1 r where a: "await (execute_single p cancelled) w = (es, w1, r)"
    by (cases "await (execute_single p cancelled) w")
  obtain log1 w2 pairs1 where s: "sequential_loop (Suc i) ps cancelled w1 = (log1, w2, pairs1)"
    by (cases "sequential_loop (Suc i) ps cancelled w1")
  show ?case
    using Cons.prems Cons.IH [OF s] a s
    by (auto simp: upt_conv_Cons simp del: upt_Suc) fastforce+
qed simp

lemma keys_group [simp]: "map fst (group_of i g cancelled) = [i ..< i + length g]"
  by (simp add: group_of_def)

lemma map_of_group:
  "map_of (group_of i g cancelled) k =
     (if i \<le> k \<and> k < i + length g then Some (execute_single (g ! (k - i)) cancelled) else None)"
proof (induction g arbitrary: i)
  case (Cons p g)
  have "group_of i (p # g) cancelled = (i, execute_single p cancelled) # group_of (Suc i) g cancelled"
    by (simp add: group_of_def upt_conv_Cons del: upt_Suc)
  then show ?case
    using Cons.IH [of "Suc i"] by (auto simp: nth_Cons')
qed (simp add: group_of_def)

lemma drop_takeWhile: "drop (length (takeWhile P xs)) xs = dropWhile P xs"
  by (metis append_eq_conv_conj takeWhile_dropWhile_id)


definition group_len :: "'w PreparedCall list \<Rightarrow> nat" where
  "group_len ps = length (takeWhile (\<lambda>q. scope q = ReadOnly) ps)"

lemma group_len_le: "group_len ps \<le> length ps"
  by (simp add: group_len_def length_takeWhile_le)

lemma take_group_len: "takeWhile (\<lambda>q. scope q = ReadOnly) ps = take (group_len ps) ps"
  unfolding group_len_def by (rule takeWhile_eq_take)

lemma group_len_scope: "k < group_len ps \<Longrightarrow> scope (ps ! k) = ReadOnly"
  unfolding group_len_def
  using nth_mem [of k "takeWhile (\<lambda>q. scope q = ReadOnly) ps"]
  by (auto simp: takeWhile_nth dest: set_takeWhileD)

lemma parallel_loop_cases [consumes 1, case_names empty group single]:
  assumes "parallel_loop i sch ps cancelled w = Some (log, w', pairs, rest)"
  obtains "ps = []" "log = []" "w' = w" "pairs = []" "rest = sch"
  | n log1 w1 pairs1 sch1 log2 pairs2 where
      "n = group_len ps" "0 < n" "n \<le> length ps"
      "run_group sch (group_of i (take n ps) cancelled) w = Some (log1, w1, pairs1, sch1)"
      "parallel_loop (i + n) sch1 (drop n ps) cancelled w1 = Some (log2, w', pairs2, rest)"
      "log = log1 @ log2" "pairs = pairs1 @ pairs2"
  | p qs es w1 r log2 pairs2 where
      "ps = p # qs" "scope p \<noteq> ReadOnly" "await (execute_single p cancelled) w = (es, w1, r)"
      "parallel_loop (Suc i) sch qs cancelled w1 = Some (log2, w', pairs2, rest)"
      "log = map (Pair i) es @ log2" "pairs = (i, r) # pairs2"
proof (cases ps)
  case Nil
  then show ?thesis using that(1) assms by simp
next
  case (Cons p qs)
  show ?thesis
  proof (cases "scope p = ReadOnly")
    case True
    let ?g = "takeWhile (\<lambda>q. scope q = ReadOnly) (p # qs)"
    have len: "length ?g = group_len ps" using Cons by (simp add: group_len_def)
    have g: "?g = take (group_len ps) ps" using Cons take_group_len by metis
    obtain log1 w1 pairs1 sch1 where
      a: "run_group sch (group_of i ?g cancelled) w = Some (log1, w1, pairs1, sch1)"
      using assms Cons True by (auto simp: Let_def simp del: takeWhile.simps split: option.splits)
    then obtain log2 pairs2 where
      b: "parallel_loop (i + length ?g) sch1 (drop (length ?g) (p # qs)) cancelled w1
            = Some (log2, w', pairs2, rest)" "log = log1 @ log2" "pairs = pairs1 @ pairs2"
      using assms Cons True by (auto simp: Let_def simp del: takeWhile.simps split: option.splits)
    show ?thesis
    proof (rule that(2))
      show "0 < group_len ps" using Cons True by (simp add: group_len_def)
    qed (use a b len g Cons group_len_le in \<open>simp_all del: takeWhile.simps\<close>)
  next
    case False
    then show ?thesis
      using assms Cons
      by (auto split: prod.splits option.splits intro!: that(3))
  qed
qed

lemma run_group_of:
  assumes "run_group sch (group_of i g cancelled) w = Some (log, w', rs, rest)"
  shows "distinct (map fst rs) \<and> set (map fst rs) = {i ..< i + length g}
    \<and> (\<forall>e \<in> set log. fst e \<in> {i ..< i + length g})
    \<and> (\<forall>(k, r) \<in> set rs. bracketed (g ! (k - i)) (own k log) r)"
proof -
  have d: "distinct (map fst (group_of i g cancelled))" by simp
  have "bracketed (g ! (k - i)) (own k log) r" if "(k, r) \<in> set rs" for k r
    using run_group_runs [OF assms d that] runs_execute_single
    by (auto simp: map_of_group split: if_splits)
  then show ?thesis
    using run_group_keys [OF assms d] by (auto simp del: set_map) (force+)?
qed


text \<open>Each call of a batch answers once, and its events are bracketed.\<close>

definition answered :: "nat \<Rightarrow> 'w PreparedCall list \<Rightarrow> (nat \<times> AgentEvent) list \<Rightarrow> (nat \<times> ToolResult) list \<Rightarrow> bool" where
  "answered i ps log pairs =
     (distinct (map fst pairs) \<and> set (map fst pairs) = {i ..< i + length ps}
      \<and> (\<forall>e \<in> set log. fst e \<in> {i ..< i + length ps})
      \<and> (\<forall>(k, r) \<in> set pairs. bracketed (ps ! (k - i)) (own k log) r))"

lemma answered_append:
  assumes "answered i ps log pairs" and "answered (i + length ps) qs log' pairs'"
  shows "answered i (ps @ qs) (log @ log') (pairs @ pairs')"
proof -
  have sets: "set (map fst pairs) = {i ..< i + length ps}"
    "set (map fst pairs') = {i + length ps ..< i + length ps + length qs}"
    using assms by (simp_all add: answered_def)
  have "set (map fst pairs) \<union> set (map fst pairs') = {i ..< i + length (ps @ qs)}"
    unfolding sets by auto
  moreover have "set (map fst pairs) \<inter> set (map fst pairs') = {}"
    unfolding sets by auto
  moreover have "bracketed ((ps @ qs) ! (k - i)) (own k (log @ log')) r"
    if kr: "(k, r) \<in> set (pairs @ pairs')" for k r
  proof (cases "(k, r) \<in> set pairs")
    case True
    then have k: "k \<in> {i ..< i + length ps}" unfolding sets(1) [symmetric] by force
    then have "own k log' = []"
      using assms(2) by (intro own_not_in) (auto simp: answered_def)
    moreover have "bracketed (ps ! (k - i)) (own k log) r"
      using assms(1) True by (auto simp: answered_def)
    ultimately show ?thesis using k by (simp add: nth_append less_diff_conv2)
  next
    case False
    then have m: "(k, r) \<in> set pairs'" using kr by simp
    then have k: "k \<in> {i + length ps ..< i + length ps + length qs}"
      unfolding sets(2) [symmetric] by force
    then have "own k log = []"
      using assms(1) by (intro own_not_in) (auto simp: answered_def)
    moreover have "bracketed (qs ! (k - (i + length ps))) (own k log') r"
      using assms(2) m by (auto simp: answered_def)
    moreover have "\<not> k - i < length ps" "k - i - length ps = k - (i + length ps)"
      using k by auto
    ultimately show ?thesis by (simp add: nth_append)
  qed
  ultimately show ?thesis
    using assms by (auto simp: answered_def simp del: set_map)
qed

lemma answered_single:
  assumes "await (execute_single p cancelled) w = (es, w', r)"
  shows "answered i [p] (map (Pair i) es) [(i, r)]"
  using runs_execute_single [OF await_runs [OF assms]] by (auto simp: answered_def)

lemma answered_Nil: "answered i [] [] []"
  by (simp add: answered_def)

lemma answered_card:
  assumes "answered i ps log pairs"
  shows "card (set pairs) = length ps"
proof -
  have d: "distinct (map fst pairs)" and s: "set (map fst pairs) = {i ..< i + length ps}"
    using assms by (simp_all only: answered_def)
  have "card (set pairs) = length (map fst pairs)"
    using d by (simp add: distinct_map distinct_card)
  also have "\<dots> = card (set (map fst pairs))"
    by (rule distinct_card [OF d, symmetric])
  also have "\<dots> = length ps"
    unfolding s by simp
  finally show ?thesis .
qed

lemma answered_group:
  "run_group sch (group_of i g cancelled) w = Some (log, w', rs, rest) \<Longrightarrow> answered i g log rs"
  unfolding answered_def by (rule run_group_of)

lemma sequential_answered:
  "sequential_loop i ps cancelled w = (log, w', pairs) \<Longrightarrow> answered i ps log pairs"
proof (induction ps arbitrary: i w log w' pairs)
  case (Cons p ps)
  obtain es w1 r where a: "await (execute_single p cancelled) w = (es, w1, r)"
    by (cases "await (execute_single p cancelled) w")
  obtain log1 w2 pairs1 where s: "sequential_loop (Suc i) ps cancelled w1 = (log1, w2, pairs1)"
    by (cases "sequential_loop (Suc i) ps cancelled w1")
  show ?case
    using answered_append [OF answered_single [OF a], of i ps log1 pairs1] Cons.IH [OF s] Cons.prems a s
    by simp
qed (simp add: answered_Nil)

lemma parallel_answered:
  "parallel_loop i sch ps cancelled w = Some (log, w', pairs, rest) \<Longrightarrow> answered i ps log pairs"
proof (induction ps arbitrary: i sch w log w' pairs rest rule: length_induct)
  case (1 ps)
  from "1.prems" show ?case
  proof (cases rule: parallel_loop_cases)
    case empty
    then show ?thesis by (simp add: answered_Nil)
  next
    case (group n log1 w1 pairs1 sch1 log2 pairs2)
    have len: "length (take n ps) = n" using group(3) by simp
    have "answered (i + n) (drop n ps) log2 pairs2"
      using "1.IH" group(2,3,5) by (metis diff_less length_drop less_le_trans)
    then have "answered i (take n ps @ drop n ps) (log1 @ log2) (pairs1 @ pairs2)"
      using answered_append [OF answered_group [OF group(4)], of "drop n ps" log2 pairs2]
      unfolding len by blast
    then show ?thesis using group(6,7) by simp
  next
    case (single p qs es w1 r log2 pairs2)
    then have "answered (Suc i) qs log2 pairs2"
      using "1.IH" by (metis length_Cons lessI)
    then show ?thesis
      using answered_append [OF answered_single [OF single(3)], of i qs log2 pairs2] single by simp
  qed
qed

text \<open>Sorting by index restores the order of the calls.\<close>

lemma sorted_keys:
  assumes "answered i ps log pairs"
  shows "map fst (sort_key fst pairs) = [i ..< i + length ps]"
proof (rule sorted_distinct_set_unique)
  show "distinct (map fst (sort_key fst pairs))"
    using assms by (auto simp: answered_def distinct_map)
  show "set (map fst (sort_key fst pairs)) = set [i ..< i + length ps]"
    using assms by (simp add: answered_def)
qed simp_all

lemma answered_nth:
  assumes "answered 0 ps log pairs" and "k < length ps"
  shows "length (map snd (sort_key fst pairs)) = length ps
    \<and> bracketed (ps ! k) (own k log) (map snd (sort_key fst pairs) ! k)"
proof -
  have keys: "map fst (sort_key fst pairs) = [0 ..< length ps]"
    using sorted_keys [OF assms(1)] by simp
  then have len: "length (sort_key fst pairs) = length ps"
    by (metis length_map length_upt minus_nat.diff_0)
  have "fst (sort_key fst pairs ! k) = k"
    using keys assms(2) len by (metis add_0 nth_map nth_upt)
  moreover have "sort_key fst pairs ! k \<in> set pairs"
    using assms(2) len by (metis nth_mem set_sort)
  ultimately show ?thesis
    using assms(1,2) len by (fastforce simp: answered_def)
qed


text \<open>
  Entries of the log stand in the order of their calls, except that calls may overlap when
  every call from the one to the other is \<open>ro\<close>.
\<close>

definition in_order :: "(nat \<Rightarrow> bool) \<Rightarrow> (nat \<times> 'e) list \<Rightarrow> bool" where
  "in_order ro log =
     sorted_wrt (\<lambda>a b. fst a \<le> fst b \<or> (\<forall>k. fst b \<le> k \<and> k \<le> fst a \<longrightarrow> ro k)) log"

lemma in_order_append:
  assumes "in_order ro xs" and "in_order ro ys"
    and "\<forall>a \<in> set xs. fst a < m" and "\<forall>b \<in> set ys. m \<le> fst b"
  shows "in_order ro (xs @ ys)"
  using assms by (fastforce simp: in_order_def sorted_wrt_append)

lemma in_order_same: "in_order ro (map (Pair i) es)"
  by (induction es) (auto simp: in_order_def)

lemma in_order_all:
  assumes "\<forall>e \<in> set log. fst e \<in> {i ..< j}" and "\<forall>k \<in> {i ..< j}. ro k"
  shows "in_order ro log"
  using assms by (induction log) (auto simp: in_order_def)

lemma parallel_in_order:
  assumes "parallel_loop i sch ps cancelled w = Some (log, w', pairs, rest)"
    and "\<And>k. k < length ps \<Longrightarrow> scope (ps ! k) = ReadOnly \<Longrightarrow> ro (i + k)"
  shows "in_order ro log"
  using assms
proof (induction ps arbitrary: i sch w log w' pairs rest rule: length_induct)
  case (1 ps)
  from "1.prems"(1) show ?case
  proof (cases rule: parallel_loop_cases)
    case empty
    then show ?thesis by (simp add: in_order_def)
  next
    case (group n log1 w1 pairs1 sch1 log2 pairs2)
    have here: "\<forall>e \<in> set log1. fst e \<in> {i ..< i + n}"
      using answered_group [OF group(4)] group(3) by (simp add: answered_def)
    have "ro k" if "k \<in> {i ..< i + n}" for k
      using "1.prems"(2) [of "k - i"] group_len_scope [of "k - i" ps] group(1,3) that by auto
    then have one: "in_order ro log1" using in_order_all [OF here] by blast
    have shorter: "length (drop n ps) < length ps" using group(2,3) by simp
    have "ro (i + n + k)" if "k < length (drop n ps)" "scope (drop n ps ! k) = ReadOnly" for k
      using "1.prems"(2) [of "n + k"] that by (simp add: add.assoc)
    then have two: "in_order ro log2"
      using "1.IH" [rule_format, OF shorter group(5)] by blast
    have "\<forall>b \<in> set log2. i + n \<le> fst b"
      using parallel_answered [OF group(5)] by (auto simp: answered_def)
    then show ?thesis
      using in_order_append [OF one two, of "i + n"] here group(6) by auto
  next
    case (single p qs es w1 r log2 pairs2)
    have shorter: "length qs < length ps" using single(1) by simp
    have "ro (Suc i + k)" if "k < length qs" "scope (qs ! k) = ReadOnly" for k
      using "1.prems"(2) [of "Suc k"] that single(1) by simp
    then have two: "in_order ro log2"
      using "1.IH" [rule_format, OF shorter single(4)] by blast
    have "\<forall>b \<in> set log2. Suc i \<le> fst b"
      using parallel_answered [OF single(4)] by (auto simp: answered_def)
    then show ?thesis
      using in_order_append [OF in_order_same two, of i es "Suc i"] single(5) by auto
  qed
qed

text \<open>Tools that only read: the concurrent run gives what the sequential one gives.\<close>

lemma sequential_append:
  "sequential_loop i (ps @ qs) cancelled w =
     (case sequential_loop i ps cancelled w of
        (log, w', pairs) \<Rightarrow>
          (case sequential_loop (i + length ps) qs cancelled w' of
             (log', w'', pairs') \<Rightarrow> (log @ log', w'', pairs @ pairs')))"
  by (induction ps arbitrary: i w) (simp_all split: prod.splits)

lemma sequential_readers:
  assumes "\<forall>p \<in> set g. reads_at (execute_single p cancelled) w"
  shows "\<exists>log pairs. sequential_loop i g cancelled w = (log, w, pairs)
    \<and> (\<forall>k < length g. own (i + k) log = fst (await (execute_single (g ! k) cancelled) w))
    \<and> (\<forall>k < length g. (i + k, snd (snd (await (execute_single (g ! k) cancelled) w))) \<in> set pairs)"
  using assms
proof (induction g arbitrary: i)
  case (Cons p g)
  obtain es w1 r where a: "await (execute_single p cancelled) w = (es, w1, r)"
    by (cases "await (execute_single p cancelled) w")
  have w1: "w1 = w" using Cons.prems reads_at_await [of "execute_single p cancelled" w] a by simp
  obtain log pairs where
    s: "sequential_loop (Suc i) g cancelled w = (log, w, pairs)"
    and o: "\<forall>k < length g. own (Suc i + k) log = fst (await (execute_single (g ! k) cancelled) w)"
    and m: "\<forall>k < length g. (Suc i + k, snd (snd (await (execute_single (g ! k) cancelled) w))) \<in> set pairs"
    using Cons.IH [of "Suc i"] Cons.prems by auto
  have "own i log = []"
    using sequential_keys [OF s] by (intro own_not_in) auto
  then show ?case
    using a w1 s o m by (simp add: All_less_Suc2 del: own_simps(3)) simp
qed simp

lemma parallel_sequential:
  assumes "parallel_loop i sch ps cancelled w = Some (log, w', pairs, rest)"
    and "\<forall>p \<in> set ps. scope p = ReadOnly \<longrightarrow> (\<forall>w. reads_at (execute_single p cancelled) w)"
  shows "\<exists>log' pairs'. sequential_loop i ps cancelled w = (log', w', pairs')
    \<and> set pairs = set pairs' \<and> (\<forall>k. own k log = own k log')"
  using assms
proof (induction ps arbitrary: i sch w log w' pairs rest rule: length_induct)
  case (1 ps)
  from "1.prems"(1) show ?case
  proof (cases rule: parallel_loop_cases)
    case empty
    then show ?thesis by simp
  next
    case (group n log1 w1 pairs1 sch1 log2 pairs2)
    let ?g = "take n ps"
    let ?f = "\<lambda>k. execute_single (?g ! k) cancelled"
    have ro: "\<forall>p \<in> set ?g. reads_at (execute_single p cancelled) w"
    proof
      fix p assume p: "p \<in> set ?g"
      then obtain k where "k < n" "p = ps ! k"
        by (auto simp: in_set_conv_nth)
      then have "scope p = ReadOnly"
        using group(1) group_len_scope by blast
      moreover have "p \<in> set ps" using p by (rule in_set_takeD)
      ultimately show "reads_at (execute_single p cancelled) w"
        using "1.prems"(2) by simp
    qed
    have gr: "\<forall>k f. map_of (group_of i ?g cancelled) k = Some f \<longrightarrow> reads_at f w"
      using ro by (auto simp: map_of_group simp del: nth_take length_take intro: nth_mem)
    obtain logs pairss where
      s: "sequential_loop i ?g cancelled w = (logs, w, pairss)"
      and o: "\<forall>k < length ?g. own (i + k) logs = fst (await (?f k) w)"
      and m: "\<forall>k < length ?g. (i + k, snd (snd (await (?f k) w))) \<in> set pairss"
      using sequential_readers [OF ro] by blast
    have solo: "w1 = w" "solo w (group_of i ?g cancelled) log1 pairs1"
      using run_group_readers [OF group(4) _ gr] by simp_all
    note ans = answered_group [OF group(4)] and ans' = sequential_answered [OF s]
    have shorter: "length (drop n ps) < length ps" using group(2,3) by simp
    have "\<forall>p \<in> set (drop n ps). scope p = ReadOnly \<longrightarrow> (\<forall>w. reads_at (execute_single p cancelled) w)"
      using "1.prems"(2) by (auto dest: in_set_dropD)
    from "1.IH" [rule_format, OF shorter group(5)] this obtain log' pairs' where
      r: "sequential_loop (i + n) (drop n ps) cancelled w1 = (log', w', pairs')"
      and eq: "set pairs2 = set pairs'" "\<forall>k. own k log2 = own k log'"
      by metis
    have own_eq: "own k log1 = own k logs" for k
    proof (cases "k \<in> {i ..< i + length ?g}")
      case True
      then show ?thesis
        using o solo(2) by (auto simp: solo_def map_of_group dest: spec [of _ "k - i"])
    next
      case False
      then have "own k log1 = []" "own k logs = []"
        using ans ans' by (intro own_not_in; auto simp: answered_def)+
      then show ?thesis by simp
    qed
    have set_eq: "set pairs1 = set pairss"
    proof -
      have "(k, r) \<in> set pairss" if kr: "(k, r) \<in> set pairs1" for k r
      proof -
        obtain f where f: "map_of (group_of i ?g cancelled) k = Some f" "r = snd (snd (await f w))"
          using solo(2) kr by (auto simp: solo_def)
        then have "k - i < length ?g" "f = ?f (k - i)" "i + (k - i) = k"
          by (auto simp: map_of_group split: if_splits)
        then show ?thesis using m f(2) by metis
      qed
      then have "set pairs1 \<subseteq> set pairss" by auto
      moreover have "card (set pairs1) = card (set pairss)"
        using answered_card [OF ans] answered_card [OF ans'] by simp
      ultimately show ?thesis by (simp add: card_subset_eq)
    qed
    have len: "length ?g = n" using group(3) by simp
    have seq: "sequential_loop i ps cancelled w = (logs @ log', w', pairss @ pairs')"
      using sequential_append [of i ?g "drop n ps" cancelled w] s r solo(1)
      unfolding len by simp
    show ?thesis
      unfolding group(6,7)
      by (intro exI [of _ "logs @ log'"] exI [of _ "pairss @ pairs'"]) (simp add: seq set_eq own_eq eq)
  next
    case (single p qs es w1 r log2 pairs2)
    have shorter: "length qs < length ps" using single(1) by simp
    have "\<forall>p \<in> set qs. scope p = ReadOnly \<longrightarrow> (\<forall>w. reads_at (execute_single p cancelled) w)"
      using "1.prems"(2) single(1) by simp
    from "1.IH" [rule_format, OF shorter single(4)] this obtain log' pairs' where
      "sequential_loop (Suc i) qs cancelled w1 = (log', w', pairs')"
      "set pairs2 = set pairs'" "\<forall>k. own k log2 = own k log'"
      by metis
    then show ?thesis using single by simp
  qed
qed


text \<open>A concurrent batch can always be driven to its end.\<close>

lemma parallel_group_step:
  assumes "n = group_len ps" and "0 < n"
    and "run_group sch (group_of i (take n ps) cancelled) w = Some (log, w', pairs, sch')"
  shows "parallel_loop i sch ps cancelled w =
     (case parallel_loop (i + n) sch' (drop n ps) cancelled w' of
        None \<Rightarrow> None
      | Some (log', w'', pairs', rest) \<Rightarrow> Some (log @ log', w'', pairs @ pairs', rest))"
proof (cases ps)
  case (Cons p qs)
  let ?g = "takeWhile (\<lambda>q. scope q = ReadOnly) (p # qs)"
  have "scope p = ReadOnly" using assms(1,2) Cons by (simp add: group_len_def split: if_splits)
  moreover have "length ?g = n" using assms(1) Cons by (simp add: group_len_def)
  moreover have "?g = take n ps" using assms(1) Cons take_group_len by metis
  ultimately show ?thesis
    using assms(3) Cons by (simp add: Let_def del: takeWhile.simps)
qed (use assms in \<open>simp add: group_len_def\<close>)

lemma parallel_completes: "\<exists>more. parallel_loop i (sch @ more) ps cancelled w \<noteq> None"
proof (induction ps arbitrary: i sch w rule: length_induct)
  case (1 ps)
  show ?case
  proof (cases "group_len ps = 0")
    case False
    let ?n = "group_len ps"
    obtain more1 where "run_group (sch @ more1) (group_of i (take ?n ps) cancelled) w \<noteq> None"
      using run_group_completes [of "group_of i (take ?n ps) cancelled" sch w]
      by (auto simp del: not_None_eq)
    then obtain log w1 pairs sch1 where
      g: "run_group (sch @ more1) (group_of i (take ?n ps) cancelled) w = Some (log, w1, pairs, sch1)"
      by auto
    have "length (drop ?n ps) < length ps"
      using False group_len_le [of ps] by simp
    then obtain more2 where "parallel_loop (i + ?n) (sch1 @ more2) (drop ?n ps) cancelled w1 \<noteq> None"
      using "1.IH" by blast
    moreover have "parallel_loop i ((sch @ more1) @ more2) ps cancelled w =
       (case parallel_loop (i + ?n) (sch1 @ more2) (drop ?n ps) cancelled w1 of
          None \<Rightarrow> None
        | Some (log', w'', pairs', rest) \<Rightarrow> Some (log @ log', w'', pairs @ pairs', rest))"
      by (rule parallel_group_step [OF refl _ run_group_more [OF g]]) (use False in simp)
    ultimately have "parallel_loop i (sch @ (more1 @ more2)) ps cancelled w \<noteq> None"
      by auto
    then show ?thesis by blast
  next
    case True
    show ?thesis
    proof (cases ps)
      case (Cons p qs)
      then have p: "scope p \<noteq> ReadOnly" using True by (auto simp: group_len_def)
      obtain es w1 r where a: "await (execute_single p cancelled) w = (es, w1, r)"
        by (cases "await (execute_single p cancelled) w")
      obtain more where "parallel_loop (Suc i) (sch @ more) qs cancelled w1 \<noteq> None"
        using "1.IH" Cons by (metis length_Cons lessI)
      then have "parallel_loop i (sch @ more) ps cancelled w \<noteq> None"
        using Cons p a by auto
      then show ?thesis by blast
    qed simp
  qed
qed

section \<open>Lemmas: the batch\<close>

lemma prepare_call_tool_call:
  "pcall_tool_call (fst (prepare_call parse config tools transcript tc w)) = tc"
  by (simp add: prepare_call_def Let_def split: sum.split option.split prod.split unit.split)

lemma prepare_call_tool:
  "pcall_tool (fst (prepare_call parse config tools transcript tc w)) = find_tool tools (tc_name tc)"
  by (simp add: prepare_call_def Let_def split: sum.split option.split prod.split unit.split)

lemma prepare_calls_spec:
  "map pcall_tool_call (fst (prepare_calls parse config tools transcript tcs w)) = tcs
   \<and> (\<forall>p \<in> set (fst (prepare_calls parse config tools transcript tcs w)). \<forall>t.
        pcall_tool p = Some t \<longrightarrow> t \<in> set tools)"
proof (induction tcs arbitrary: w)
  case (Cons tc tcs)
  obtain p w1 where p: "prepare_call parse config tools transcript tc w = (p, w1)"
    by (cases "prepare_call parse config tools transcript tc w")
  obtain ps w2 where ps: "prepare_calls parse config tools transcript tcs w1 = (ps, w2)"
    by (cases "prepare_calls parse config tools transcript tcs w1")
  have "pcall_tool_call p = tc" and "pcall_tool p = find_tool tools (tc_name tc)"
    using prepare_call_tool_call [of parse config tools transcript tc w]
      prepare_call_tool [of parse config tools transcript tc w] p by simp_all
  then show ?case
    using Cons.IH [of w1] p ps
    by (auto simp: find_tool_def find_Some_iff)
qed simp

lemma after_calls_ids:
  "length rs = length tcs
   \<Longrightarrow> map trm_tool_call_id (fst (after_calls config transcript tcs rs w)) = map tc_id tcs
    \<and> map trm_tool_name (fst (after_calls config transcript tcs rs w)) = map tc_name tcs"
proof (induction tcs rs arbitrary: w rule: list_induct2')
  case (4 tc tcs r rs)
  then show ?case
    by (auto simp: result_message_def split: prod.splits) (metis fst_conv)+
qed simp_all

lemma execute_prepared_answered:
  assumes "execute_prepared sch mode ps cancelled w = Some (log, w', rs, rest)"
  shows "length rs = length ps \<and> (\<forall>k < length ps. bracketed (ps ! k) (own k log) (rs ! k))
    \<and> (\<forall>e \<in> set log. fst e < length ps)"
proof -
  obtain pairs where ans: "answered 0 ps log pairs" and rs: "rs = map snd (sort_key fst pairs)"
  proof (cases mode)
    case Sequential
    then obtain pairs where s: "sequential_loop 0 ps cancelled w = (log, w', pairs)" "rs = map snd pairs"
      using assms by (auto simp: execute_prepared_def execute_sequential_def split: prod.splits)
    have "sorted (map fst pairs)" using sequential_keys [OF s(1)] by simp
    then have "sort_key fst pairs = pairs" by (rule sort_key_id_if_sorted)
    then show ?thesis using that [OF sequential_answered [OF s(1)]] s(2) by simp
  next
    case ReadOnlyParallel
    then obtain pairs where "parallel_loop 0 sch ps cancelled w = Some (log, w', pairs, rest)"
      "rs = map snd (sort_key fst pairs)"
      using assms
      by (auto simp: execute_prepared_def execute_readonly_parallel_def split: option.splits prod.splits)
    then show ?thesis using that [OF parallel_answered] by metis
  qed
  have "length rs = length ps"
    using sorted_keys [OF ans] rs by (metis length_map length_upt minus_nat.diff_0 add_0)
  then show ?thesis
    using answered_nth [OF ans] ans rs by (auto simp: answered_def)
qed


lemma execute_prepared_completes:
  "\<exists>more. execute_prepared (sch @ more) mode ps cancelled w \<noteq> None"
proof (cases mode)
  case Sequential
  then show ?thesis by (simp add: execute_prepared_def split: prod.split)
next
  case ReadOnlyParallel
  obtain more where "parallel_loop 0 (sch @ more) ps cancelled w \<noteq> None"
    using parallel_completes [of 0 sch ps cancelled w] by blast
  then show ?thesis
    using ReadOnlyParallel
    by (intro exI [of _ more])
      (auto simp: execute_prepared_def execute_readonly_parallel_def)
qed

lemma prepared_readers:
  assumes "prepare_calls parse config tools transcript tcs w = (ps, w1)"
    and "\<forall>t \<in> set tools. tl_resource_scope t = ReadOnly \<longrightarrow> reader_tool t"
  shows "\<forall>p \<in> set ps. scope p = ReadOnly \<longrightarrow> (\<forall>w. reads_at (execute_single p cancelled) w)"
proof (intro ballI impI allI)
  fix p v assume p: "p \<in> set ps" "scope p = ReadOnly"
  have "\<forall>t. pcall_tool p = Some t \<longrightarrow> t \<in> set tools"
    using prepare_calls_spec [of parse config tools transcript tcs w] assms(1) p(1) by simp
  then have "\<forall>t. pcall_tool p = Some t \<longrightarrow> reader_tool t"
    using assms(2) p(2) by (auto simp: scope_def)
  then show "reads_at (execute_single p cancelled) v"
    by (rule reads_execute_single [OF p(2)])
qed

lemma parallel_results_sequential:
  assumes "execute_readonly_parallel sch ps cancelled w = Some (log, w', rs, rest)"
    and "\<forall>p \<in> set ps. scope p = ReadOnly \<longrightarrow> (\<forall>w. reads_at (execute_single p cancelled) w)"
  shows "\<exists>log'. execute_sequential ps cancelled w = (log', w', rs) \<and> (\<forall>k. own k log = own k log')"
proof -
  obtain pairs where
    p: "parallel_loop 0 sch ps cancelled w = Some (log, w', pairs, rest)"
    and rs: "rs = map snd (sort_key fst pairs)"
    using assms(1) by (auto simp: execute_readonly_parallel_def split: option.splits prod.splits)
  obtain log' pairs' where
    s: "sequential_loop 0 ps cancelled w = (log', w', pairs')"
    and eq: "set pairs = set pairs'" and own: "\<forall>k. own k log = own k log'"
    using parallel_sequential [OF p assms(2)] by blast
  have d: "distinct (map fst pairs)" "distinct (map fst pairs')"
    using parallel_answered [OF p] sequential_answered [OF s] by (simp_all add: answered_def)
  then have "mset pairs = mset pairs'"
    using eq by (simp add: distinct_map set_eq_iff_mset_eq_distinct)
  then have "sort_key fst pairs = sort_key fst pairs'"
    using d(1) by (rule distinct_keys_sort)
  moreover have "sort_key fst pairs' = pairs'"
    using sequential_keys [OF s] by (simp add: sort_key_id_if_sorted)
  ultimately show ?thesis
    using s rs own by (simp add: execute_sequential_def)
qed

text \<open>Concrete tools for the instances: a reader that suspends once and a counter.\<close>

definition demo_reader :: "nat Tool" where
  "demo_reader =
     \<lparr>tl_name = ''read'', tl_description = [], tl_parameters = None, tl_resource_scope = ReadOnly,
      tl_execute = (\<lambda>_ _ _. Fut (\<lambda>w. ([tool_result_text ''...''], w,
        Inr (Fut (\<lambda>w. ([], w, Inl (Inr (tool_result_text (show_nat w)))))))))\<rparr>"

definition demo_writer :: "nat Tool" where
  "demo_writer =
     \<lparr>tl_name = ''bump'', tl_description = [], tl_parameters = None, tl_resource_scope = Exclusive,
      tl_execute = (\<lambda>_ _ _. Fut (\<lambda>w. ([], w + 1, Inl (Inr (tool_result_text ''ok'')))))\<rparr>"

definition demo_call :: "string \<Rightarrow> string \<Rightarrow> ToolCall" where
  "demo_call i name = \<lparr>tc_id = i, tc_name = name, tc_arguments = ''{}''\<rparr>"

definition demo_parse :: json_parser where
  "demo_parse s = Inr JNull"

lemma demo_tools:
  "\<forall>t \<in> set [demo_reader, demo_writer]. tl_resource_scope t = ReadOnly \<longrightarrow> reader_tool t"
  by (simp add: demo_reader_def demo_writer_def reader_tool_def)

lemmas demo_defs = demo_reader_def demo_writer_def demo_call_def demo_parse_def
  default_config_def execute_tool_calls_def prepare_call_def find_tool_def closure_veto_def
  execute_prepared_def execute_sequential_def execute_single_def poll_with_events await_poll
  tool_outcome_def start_event_def update_event_def end_event_def after_plugins_def
  after_closure_def result_message_def Let_def

lemma executed_ids:
  assumes "execute_tool_calls parse config tools transcript tcs stop_reason cancelled sch w
     = Some (es, w', msgs, rest)"
  shows "map trm_tool_call_id msgs = map tc_id tcs \<and> map trm_tool_name msgs = map tc_name tcs"
proof (cases "stop_reason = Some StopLength \<and> tcs \<noteq> []")
  case True
  have "map trm_tool_call_id (snd (synthesize_truncated_results parse tcs)) = map tc_id tcs
      \<and> map trm_tool_name (snd (synthesize_truncated_results parse tcs)) = map tc_name tcs"
    by (induction tcs) (auto split: prod.splits)
  then show ?thesis
    using True assms by (auto simp: execute_tool_calls_def split: prod.splits)
next
  case False
  obtain ps w1 where ps: "prepare_calls parse config tools transcript tcs w = (ps, w1)"
    by (cases "prepare_calls parse config tools transcript tcs w")
  have calls: "map pcall_tool_call ps = tcs"
    using prepare_calls_spec [of parse config tools transcript tcs w] ps by simp
  obtain log w2 rs r where
    e: "execute_prepared sch (cfg_tool_execution config) ps cancelled w1 = Some (log, w2, rs, r)"
    using assms False ps by (auto simp: execute_tool_calls_def split: option.splits prod.splits)
  have "length rs = length tcs"
    using execute_prepared_answered [OF e] calls by (metis length_map)
  from after_calls_ids [OF this, of config transcript w2] show ?thesis
    using e ps False calls assms by (auto simp: execute_tool_calls_def split: prod.splits)
qed

section \<open>Theorems\<close>

text \<open>
  The results of a batch.  In both modes, whatever the order in which concurrent calls
  are polled, a batch that ends has one result message per call, in the order of the calls
  and with their ids and names; and a batch that is still running can always end.
\<close>

theorem tool_results_in_order:
  "case execute_tool_calls parse config tools transcript tcs stop_reason cancelled sch w of
     Some (es, w', msgs, rest) \<Rightarrow>
       map trm_tool_call_id msgs = map tc_id tcs \<and> map trm_tool_name msgs = map tc_name tcs
   | None \<Rightarrow>
       \<exists>more. execute_tool_calls parse config tools transcript tcs stop_reason cancelled (sch @ more) w
         \<noteq> None"
proof (cases "execute_tool_calls parse config tools transcript tcs stop_reason cancelled sch w")
  case (Some x)
  then show ?thesis using executed_ids [of parse config tools] by (cases x) simp
next
  case None
  obtain ps w1 where ps: "prepare_calls parse config tools transcript tcs w = (ps, w1)"
    by (cases "prepare_calls parse config tools transcript tcs w")
  obtain more where "execute_prepared (sch @ more) (cfg_tool_execution config) ps cancelled w1 \<noteq> None"
    using execute_prepared_completes [of sch "cfg_tool_execution config" ps cancelled w1] by blast
  then show ?thesis
    using None ps
    by (auto simp: execute_tool_calls_def split: prod.splits if_splits intro!: exI [of _ more])
qed

text \<open>
  Truncation protection.  When the model stopped at the length limit no tool runs, no
  hook is asked and the world does not change: every call is answered with an error, between
  a start and an end event.
\<close>

theorem truncated_calls_not_executed:
  "\<exists>msgs. execute_tool_calls parse config tools transcript tcs (Some StopLength) cancelled sch w
     = Some (concat (map (\<lambda>tc. [start_event tc (truncated_args parse tc),
                 ToolExecutionEnd (tc_id tc) (tc_name tc) truncated_result True]) tcs), w, msgs, sch)
   \<and> map trm_tool_call_id msgs = map tc_id tcs \<and> list_all trm_is_error msgs"
proof -
  have "\<exists>msgs. synthesize_truncated_results parse tcs =
      (concat (map (\<lambda>tc. [start_event tc (truncated_args parse tc),
                 ToolExecutionEnd (tc_id tc) (tc_name tc) truncated_result True]) tcs), msgs)
    \<and> map trm_tool_call_id msgs = map tc_id tcs \<and> list_all trm_is_error msgs"
    by (induction tcs) auto
  then show ?thesis
    by (cases "tcs = []")
      (auto simp: execute_tool_calls_def execute_prepared_def execute_sequential_def
        execute_readonly_parallel_def split: ToolExecutionMode.split)
qed

text \<open>
  C20: the concurrent mode is an optimisation.  If the tools declared \<open>ReadOnly\<close> only read,
  every schedule of the concurrent mode leaves the world and the result messages of the
  sequential mode.
\<close>

theorem parallel_equals_sequential:
  assumes "\<forall>t \<in> set tools. tl_resource_scope t = ReadOnly \<longrightarrow> reader_tool t"
    and "execute_tool_calls parse (config\<lparr>cfg_tool_execution := ReadOnlyParallel\<rparr>) tools transcript
           tcs stop_reason cancelled sch w = Some (es, w', msgs, rest)"
  shows "\<exists>es'. execute_tool_calls parse (config\<lparr>cfg_tool_execution := Sequential\<rparr>) tools transcript
           tcs stop_reason cancelled [] w = Some (es', w', msgs, [])"
proof -
  have veto: "closure_veto (config\<lparr>cfg_tool_execution := m\<rparr>) = closure_veto config"
    and hooks: "cfg_hooks (config\<lparr>cfg_tool_execution := m\<rparr>) = cfg_hooks config" for m
    by (auto simp: closure_veto_def fun_eq_iff)
  have same: "prepare_call parse (config\<lparr>cfg_tool_execution := m\<rparr>) tools transcript tc w =
      prepare_call parse config tools transcript tc w" for m tc w
    unfolding prepare_call_def veto hooks by (rule refl)
  have prep: "prepare_calls parse (config\<lparr>cfg_tool_execution := m\<rparr>) tools transcript tcs w =
      prepare_calls parse config tools transcript tcs w" for m w
    by (induction tcs arbitrary: w) (simp_all add: same)
  have aft: "after_calls (config\<lparr>cfg_tool_execution := m\<rparr>) transcript cs rs w =
      after_calls config transcript cs rs w" for m cs rs w
    by (induction cs rs arbitrary: w rule: list_induct2')
      (simp_all add: after_plugins_def after_closure_def)
  show ?thesis
  proof (cases "stop_reason = Some StopLength \<and> tcs \<noteq> []")
    case True
    then show ?thesis using assms(2) by (auto simp: execute_tool_calls_def split: prod.splits)
  next
    case False
    obtain ps w1 where ps: "prepare_calls parse config tools transcript tcs w = (ps, w1)"
      by (cases "prepare_calls parse config tools transcript tcs w")
    obtain log w2 rs where
      par: "execute_readonly_parallel sch ps cancelled w1 = Some (log, w2, rs, rest)"
      and out: "after_calls config transcript (map pcall_tool_call ps) rs w2 = (msgs, w')"
      using assms(2) False ps
      by (auto simp: execute_tool_calls_def execute_prepared_def prep aft split: option.splits prod.splits)
    obtain log' where "execute_sequential ps cancelled w1 = (log', w2, rs)"
      using parallel_results_sequential [OF par prepared_readers [OF ps assms(1)]] by blast
    then show ?thesis
      using False ps out by (auto simp: execute_tool_calls_def execute_prepared_def prep aft)
  qed
qed

theorem parallel_equals_sequential_witness:
  "\<exists>es msgs. execute_tool_calls demo_parse (default_config\<lparr>cfg_tool_execution := Sequential\<rparr>)
     [demo_reader, demo_writer] [] [demo_call ''a'' ''read'', demo_call ''b'' ''read'', demo_call ''c'' ''bump'']
     None False [] (5::nat) = Some (es, 6, msgs, [])"
proof -
  have "\<exists>es msgs. execute_tool_calls demo_parse (default_config\<lparr>cfg_tool_execution := ReadOnlyParallel\<rparr>)
     [demo_reader, demo_writer] [] [demo_call ''a'' ''read'', demo_call ''b'' ''read'', demo_call ''c'' ''bump'']
     None False [1, 0, 1, 0] (5::nat) = Some (es, 6, msgs, [])"
    by (simp add: demo_defs scope_def execute_readonly_parallel_def group_of_def retire_def progress_def
        upt_rec)
  then show ?thesis
    using parallel_equals_sequential [OF demo_tools] by blast
qed

text \<open>
  isolation.  In the concurrent mode the events of the calls stand in the order of the
  calls, except that calls may overlap when every call from the one to the other is
  \<open>ReadOnly\<close>: a \<open>FileWriter\<close> or \<open>Exclusive\<close> call overlaps with nothing.  The events of each
  call are its start, its partial results and its end, and the end carries its result.
\<close>

theorem exclusive_calls_isolated:
  "case execute_readonly_parallel sch ps cancelled w of
     Some (log, w', rs, rest) \<Rightarrow>
       in_order (\<lambda>k. k < length ps \<and> scope (ps ! k) = ReadOnly) log
       \<and> list_all (\<lambda>k. bracketed (ps ! k) (own k log) (rs ! k)) [0 ..< length ps]
   | None \<Rightarrow> \<exists>more. execute_readonly_parallel (sch @ more) ps cancelled w \<noteq> None"
proof (cases "execute_readonly_parallel sch ps cancelled w")
  case None
  then show ?thesis
    using execute_prepared_completes [of sch ReadOnlyParallel ps cancelled w]
    by (simp add: execute_prepared_def)
next
  case (Some x)
  obtain log w' rs rest where x: "x = (log, w', rs, rest)" by (cases x)
  then obtain pairs where "parallel_loop 0 sch ps cancelled w = Some (log, w', pairs, rest)"
    using Some by (auto simp: execute_readonly_parallel_def split: option.splits prod.splits)
  then have "in_order (\<lambda>k. k < length ps \<and> scope (ps ! k) = ReadOnly) log"
    by (rule parallel_in_order) simp
  then show ?thesis
    using execute_prepared_answered [of sch ReadOnlyParallel ps cancelled w] Some x
    by (simp add: execute_prepared_def list_all_iff)
qed

end
