(* ===== verification/Run_State.thy ===== *)
theory Run_State
  imports Tool_Exec
begin

text \<open>
  The state a run works on and its small helpers (\<open>core/runtime/commands.rs\<close> and
  \<open>RunContext\<close> of \<open>core/runtime/mod.rs\<close>): the transcript, the local queue, the command
  channel, the events sent so far, the watched snapshot and the run's cancellation token.

  \<open>st_rx\<close> holds the commands that have arrived and not been received.  \<open>st_requests\<close> is the
  list of requests handed to the provider, \<open>st_sent\<close> that of all commands that ever arrived
  (both are there to be spoken about; no operation reads them), and \<open>st_world\<close> what tools and
  hooks act on.
\<close>

record 'w RunState =
  st_transcript :: "Message list"
  st_queue :: "AgentCommand list"
  st_rx :: "AgentCommand list"
  st_events :: "AgentEvent list"
  st_snapshot :: AgentSnapshot
  st_signal :: bool
  st_requests :: "ProviderRequest list"
  st_sent :: "AgentCommand list"
  st_world :: 'w

definition emit_event :: "AgentEvent \<Rightarrow> 'w RunState \<Rightarrow> 'w RunState" where
  "emit_event e s = s\<lparr>st_events := st_events s @ [e]\<rparr>"

text \<open>Commands other tasks put into the channel meanwhile.\<close>

definition arrive :: "AgentCommand list \<Rightarrow> 'w RunState \<Rightarrow> 'w RunState" where
  "arrive cmds s = s\<lparr>st_rx := st_rx s @ cmds, st_sent := st_sent s @ cmds\<rparr>"

section \<open>Draining (commands.rs)\<close>

record Drain =
  d_aborted :: bool
  d_shutdown :: bool
  d_steer :: "Message list"
  d_followup :: "Message list"

definition empty_drain :: Drain where
  "empty_drain = \<lparr>d_aborted = False, d_shutdown = False, d_steer = [], d_followup = []\<rparr>"

fun drain_loop :: "AgentCommand list \<Rightarrow> Drain \<Rightarrow> AgentCommand list \<Rightarrow> Drain \<times> AgentCommand list" where
  "drain_loop [] d queue = (d, queue)"
| "drain_loop (cmd # rx) d queue =
     (case cmd of
        Abort \<Rightarrow> drain_loop rx (d\<lparr>d_aborted := True\<rparr>) queue
      | Shutdown \<Rightarrow> drain_loop rx (d\<lparr>d_shutdown := True\<rparr>) queue
      | Steer msg \<Rightarrow> drain_loop rx (d\<lparr>d_steer := d_steer d @ [msg]\<rparr>) queue
      | FollowUp msg \<Rightarrow> drain_loop rx (d\<lparr>d_followup := d_followup d @ [msg]\<rparr>) queue
      | other \<Rightarrow> drain_loop rx d (queue @ [other]))"

definition drain_commands :: "'w RunState \<Rightarrow> Drain \<times> 'w RunState" where
  "drain_commands s =
     (case drain_loop (st_rx s) empty_drain (st_queue s) of
        (d, queue) \<Rightarrow>
          (d, s\<lparr>st_rx := [], st_queue := queue,
                st_signal := st_signal s \<or> d_aborted d \<or> d_shutdown d\<rparr>))"

fun collect_loop :: "AgentCommand list \<Rightarrow> Drain \<Rightarrow> AgentCommand list \<Rightarrow> Drain \<times> AgentCommand list" where
  "collect_loop [] d remaining = (d, remaining)"
| "collect_loop (cmd # queue) d remaining =
     (case cmd of
        Steer msg \<Rightarrow> collect_loop queue (d\<lparr>d_steer := d_steer d @ [msg]\<rparr>) remaining
      | FollowUp msg \<Rightarrow> collect_loop queue (d\<lparr>d_followup := d_followup d @ [msg]\<rparr>) remaining
      | other \<Rightarrow> collect_loop queue d (remaining @ [other]))"

definition collect_pending :: "'w RunState \<Rightarrow> Drain \<times> 'w RunState" where
  "collect_pending s =
     (case drain_commands s of
        (d, s1) \<Rightarrow>
          (case collect_loop (st_queue s1) d [] of
             (d', remaining) \<Rightarrow> (d', s1\<lparr>st_queue := remaining\<rparr>)))"

text \<open>Putting drained steering and follow-ups back for a later boundary.\<close>

definition requeue :: "Drain \<Rightarrow> 'w RunState \<Rightarrow> 'w RunState" where
  "requeue d s = s\<lparr>st_queue := st_queue s @ map Steer (d_steer d) @ map FollowUp (d_followup d)\<rparr>"

section \<open>Snapshot and transcript\<close>

definition update_snapshot :: "string option \<Rightarrow> 'w RunState \<Rightarrow> 'w RunState" where
  "update_snapshot error_message s =
     s\<lparr>st_snapshot := (st_snapshot s)
         \<lparr>as_messages := st_transcript s, as_is_streaming := False, as_streaming_message := None,
          as_pending_tool_calls := [], as_error_message := error_message\<rparr>\<rparr>"

definition push_message :: "Message \<Rightarrow> 'w RunState \<Rightarrow> 'w RunState" where
  "push_message m s = s\<lparr>st_transcript := st_transcript s @ [m]\<rparr>"

definition append_user_message :: "Message \<Rightarrow> 'w RunState \<Rightarrow> 'w RunState" where
  "append_user_message msg s =
     emit_event (MessageEnd msg)
       (update_snapshot None (push_message msg (emit_event (MessageStart msg) s)))"

definition append_user_messages :: "Message list \<Rightarrow> 'w RunState \<Rightarrow> 'w RunState" where
  "append_user_messages msgs s = fold append_user_message msgs s"

definition stop_reason_for_error :: "bool \<Rightarrow> StopReason" where
  "stop_reason_for_error aborted = (if aborted then StopAborted else StopError)"

section \<open>Lemmas on draining\<close>

text \<open>The commands a drain sorts into its parts.\<close>

fun steer_of :: "AgentCommand \<Rightarrow> Message option" where
  "steer_of (Steer m) = Some m"
| "steer_of _ = None"

fun followup_of :: "AgentCommand \<Rightarrow> Message option" where
  "followup_of (FollowUp m) = Some m"
| "followup_of _ = None"

fun is_control :: "AgentCommand \<Rightarrow> bool" where
  "is_control Abort = True"
| "is_control Shutdown = True"
| "is_control _ = False"

fun is_injected :: "AgentCommand \<Rightarrow> bool" where
  "is_injected (Steer _) = True"
| "is_injected (FollowUp _) = True"
| "is_injected _ = False"

lemma drain_loop_spec:
  "drain_loop rx d queue =
     (\<lparr>d_aborted = d_aborted d \<or> Abort \<in> set rx,
       d_shutdown = d_shutdown d \<or> Shutdown \<in> set rx,
       d_steer = d_steer d @ List.map_filter steer_of rx,
       d_followup = d_followup d @ List.map_filter followup_of rx\<rparr>,
      queue @ filter (\<lambda>c. \<not> is_control c \<and> \<not> is_injected c) rx)"
proof (induction rx arbitrary: d queue)
  case (Cons cmd rx)
  then show ?case by (cases cmd) (auto simp: map_filter_simps)
qed (simp add: map_filter_simps)

lemma collect_loop_spec:
  "collect_loop queue d remaining =
     (d\<lparr>d_steer := d_steer d @ List.map_filter steer_of queue,
        d_followup := d_followup d @ List.map_filter followup_of queue\<rparr>,
      remaining @ filter (\<lambda>c. \<not> is_injected c) queue)"
proof (induction queue arbitrary: d remaining)
  case (Cons cmd queue)
  then show ?case by (cases cmd) (auto simp: map_filter_simps)
qed (simp add: map_filter_simps)

lemma drain_commands_spec:
  "drain_commands s =
     (\<lparr>d_aborted = Abort \<in> set (st_rx s), d_shutdown = Shutdown \<in> set (st_rx s),
       d_steer = List.map_filter steer_of (st_rx s),
       d_followup = List.map_filter followup_of (st_rx s)\<rparr>,
      s\<lparr>st_rx := [], st_queue := st_queue s @ filter (\<lambda>c. \<not> is_control c \<and> \<not> is_injected c) (st_rx s),
        st_signal := st_signal s \<or> Abort \<in> set (st_rx s) \<or> Shutdown \<in> set (st_rx s)\<rparr>)"
  by (simp add: drain_commands_def drain_loop_spec empty_drain_def)

text \<open>How many commands of a list are steering or follow-ups.\<close>

definition injected :: "AgentCommand list \<Rightarrow> nat" where
  "injected cmds = length (filter is_injected cmds)"

lemma injected_simps [simp]:
  "injected [] = 0" "injected (xs @ ys) = injected xs + injected ys"
  by (simp_all add: injected_def)

lemma length_injected:
  "length (List.map_filter steer_of cmds) + length (List.map_filter followup_of cmds) = injected cmds"
proof (induction cmds)
  case (Cons c cmds)
  then show ?case by (cases c) (simp_all add: map_filter_simps injected_def)
qed (simp add: map_filter_simps)

lemma injected_map [simp]:
  "injected (map Steer ms) = length ms" "injected (map FollowUp ms) = length ms"
  by (simp_all add: injected_def)

lemma append_user_messages_simps [simp]:
  "append_user_messages [] s = s"
  "append_user_messages (m # ms) s = append_user_messages ms (append_user_message m s)"
  by (simp_all add: append_user_messages_def)


section \<open>What each operation leaves alone\<close>

lemma emit_event_frame [simp]:
  "st_transcript (emit_event e s) = st_transcript s" "st_queue (emit_event e s) = st_queue s"
  "st_rx (emit_event e s) = st_rx s" "st_events (emit_event e s) = st_events s @ [e]"
  "st_snapshot (emit_event e s) = st_snapshot s" "st_signal (emit_event e s) = st_signal s"
  "st_requests (emit_event e s) = st_requests s" "st_sent (emit_event e s) = st_sent s"
  "st_world (emit_event e s) = st_world s"
  by (simp_all add: emit_event_def)

lemma arrive_frame [simp]:
  "st_transcript (arrive c s) = st_transcript s" "st_queue (arrive c s) = st_queue s"
  "st_rx (arrive c s) = st_rx s @ c" "st_events (arrive c s) = st_events s"
  "st_snapshot (arrive c s) = st_snapshot s" "st_signal (arrive c s) = st_signal s"
  "st_requests (arrive c s) = st_requests s" "st_sent (arrive c s) = st_sent s @ c"
  "st_world (arrive c s) = st_world s"
  by (simp_all add: arrive_def)

lemma requeue_frame [simp]:
  "st_transcript (requeue d s) = st_transcript s"
  "st_queue (requeue d s) = st_queue s @ map Steer (d_steer d) @ map FollowUp (d_followup d)"
  "st_rx (requeue d s) = st_rx s" "st_events (requeue d s) = st_events s"
  "st_snapshot (requeue d s) = st_snapshot s" "st_signal (requeue d s) = st_signal s"
  "st_requests (requeue d s) = st_requests s" "st_sent (requeue d s) = st_sent s"
  "st_world (requeue d s) = st_world s"
  by (simp_all add: requeue_def)

lemma update_snapshot_frame [simp]:
  "st_transcript (update_snapshot e s) = st_transcript s" "st_queue (update_snapshot e s) = st_queue s"
  "st_rx (update_snapshot e s) = st_rx s" "st_events (update_snapshot e s) = st_events s"
  "as_messages (st_snapshot (update_snapshot e s)) = st_transcript s"
  "st_signal (update_snapshot e s) = st_signal s"
  "st_requests (update_snapshot e s) = st_requests s" "st_sent (update_snapshot e s) = st_sent s"
  "st_world (update_snapshot e s) = st_world s"
  by (simp_all add: update_snapshot_def)

lemma push_message_frame [simp]:
  "st_transcript (push_message m s) = st_transcript s @ [m]" "st_queue (push_message m s) = st_queue s"
  "st_rx (push_message m s) = st_rx s" "st_events (push_message m s) = st_events s"
  "st_signal (push_message m s) = st_signal s"
  "st_requests (push_message m s) = st_requests s" "st_sent (push_message m s) = st_sent s"
  "st_world (push_message m s) = st_world s"
  by (simp_all add: push_message_def)

lemma append_user_messages_frame [simp]:
  "st_transcript (append_user_messages ms s) = st_transcript s @ ms"
  "st_queue (append_user_messages ms s) = st_queue s"
  "st_rx (append_user_messages ms s) = st_rx s"
  "st_signal (append_user_messages ms s) = st_signal s"
  "st_requests (append_user_messages ms s) = st_requests s"
  "st_sent (append_user_messages ms s) = st_sent s"
  "st_world (append_user_messages ms s) = st_world s"
  "st_events (append_user_messages ms s) =
     st_events s @ concat (map (\<lambda>m. [MessageStart m, MessageEnd m]) ms)"
  by (induction ms arbitrary: s) (simp_all add: append_user_message_def)

lemma append_user_message_single: "append_user_message m s = append_user_messages [m] s"
  by simp

text \<open>The watched snapshot shows the transcript.\<close>

definition synced :: "'w RunState \<Rightarrow> bool" where
  "synced s = (as_messages (st_snapshot s) = st_transcript s)"

lemma synced_append_user_messages: "synced s \<Longrightarrow> synced (append_user_messages ms s)"
  by (induction ms arbitrary: s) (simp_all add: append_user_message_def synced_def)

section \<open>The persisted part of the event log\<close>

fun message_end :: "AgentEvent \<Rightarrow> Message option" where
  "message_end (MessageEnd m) = Some m"
| "message_end _ = None"

text \<open>What a recorder that listens to \<open>MessageEnd\<close> writes (\<open>SessionRecorder\<close>, the server's bridge).\<close>

definition recorded :: "AgentEvent list \<Rightarrow> Message list" where
  "recorded es = List.map_filter message_end es"

lemma recorded_simps [simp]:
  "recorded [] = []" "recorded (xs @ ys) = recorded xs @ recorded ys"
  "recorded (e # es) = (case message_end e of None \<Rightarrow> recorded es | Some m \<Rightarrow> m # recorded es)"
  by (simp_all add: recorded_def map_filter_def split: option.split)

lemma recorded_user_messages [simp]:
  "recorded (concat (map (\<lambda>m. [MessageStart m, MessageEnd m]) ms)) = ms"
  by (induction ms) simp_all


section \<open>Commands are not lost\<close>

lemma map_filter_append [simp]: "List.map_filter f (xs @ ys) = List.map_filter f xs @ List.map_filter f ys"
  by (simp add: map_filter_def)

lemma map_filter_tags [simp]:
  "List.map_filter steer_of (map Steer ms) = ms" "List.map_filter followup_of (map FollowUp ms) = ms"
  "List.map_filter steer_of (map FollowUp ms) = []" "List.map_filter followup_of (map Steer ms) = []"
  by (induction ms) (simp_all add: map_filter_simps)

lemma map_filter_plain:
  "List.map_filter steer_of (filter (\<lambda>c. \<not> is_control c \<and> \<not> is_injected c) cmds) = []"
  "List.map_filter followup_of (filter (\<lambda>c. \<not> is_control c \<and> \<not> is_injected c) cmds) = []"
proof (induction cmds)
  case (Cons c cmds)
  { case 1 then show ?case using Cons by (cases c) (simp_all add: map_filter_simps) }
  { case 2 then show ?case using Cons by (cases c) (simp_all add: map_filter_simps) }
qed (simp_all add: map_filter_simps)

abbreviation plain :: "AgentCommand \<Rightarrow> bool" where
  "plain c \<equiv> \<not> is_control c \<and> \<not> is_injected c"

definition pending :: "'w RunState \<Rightarrow> AgentCommand list" where
  "pending s = st_queue s @ st_rx s"

text \<open>
  From \<open>s\<close> to \<open>s'\<close> commands only arrived and \<open>Abort\<close>/\<open>Shutdown\<close> were consumed: the
  steering messages, the follow-ups and the other commands are pending in their order.
\<close>

definition kept :: "'w RunState \<Rightarrow> 'w RunState \<Rightarrow> bool" where
  "kept s s' =
     (\<exists>arr. st_sent s' = st_sent s @ arr
        \<and> List.map_filter steer_of (pending s') = List.map_filter steer_of (pending s @ arr)
        \<and> List.map_filter followup_of (pending s') = List.map_filter followup_of (pending s @ arr)
        \<and> filter plain (pending s') = filter plain (pending s @ arr)
        \<and> set (pending s') \<subseteq> set (pending s @ arr))"

lemma kept_same:
  "st_sent s' = st_sent s \<Longrightarrow> pending s' = pending s \<Longrightarrow> kept s s'"
  by (simp add: kept_def)

lemma kept_trans:
  assumes "kept s s'" and "kept s' s''"
  shows "kept s s''"
proof -
  obtain a b where
    "st_sent s' = st_sent s @ a"
    "List.map_filter steer_of (pending s') = List.map_filter steer_of (pending s @ a)"
    "List.map_filter followup_of (pending s') = List.map_filter followup_of (pending s @ a)"
    "filter plain (pending s') = filter plain (pending s @ a)"
    "set (pending s') \<subseteq> set (pending s @ a)" "set (pending s'') \<subseteq> set (pending s' @ b)"
    "st_sent s'' = st_sent s' @ b"
    "List.map_filter steer_of (pending s'') = List.map_filter steer_of (pending s' @ b)"
    "List.map_filter followup_of (pending s'') = List.map_filter followup_of (pending s' @ b)"
    "filter plain (pending s'') = filter plain (pending s' @ b)"
    using assms by (auto simp: kept_def)
  then show ?thesis
    unfolding kept_def by (intro exI [of _ "a @ b"]) auto
qed

lemma kept_arrive: "kept s (arrive c s)"
  by (auto simp: kept_def pending_def)

lemma mem_steer [simp]: "m \<in> set (List.map_filter steer_of cmds) \<longleftrightarrow> Steer m \<in> set cmds"
proof (induction cmds)
  case (Cons c cmds)
  then show ?case by (cases c) (auto simp: map_filter_simps)
qed (simp add: map_filter_simps)

lemma mem_followup [simp]:
  "m \<in> set (List.map_filter followup_of cmds) \<longleftrightarrow> FollowUp m \<in> set cmds"
proof (induction cmds)
  case (Cons c cmds)
  then show ?case by (cases c) (auto simp: map_filter_simps)
qed (simp add: map_filter_simps)

lemma filter_plain_tags [simp]:
  "filter plain (map Steer ms) = []" "filter plain (map FollowUp ms) = []"
  by (induction ms) simp_all

lemma kept_drain: "kept s (requeue (fst (drain_commands s)) (snd (drain_commands s)))"
  unfolding kept_def
  by (intro exI [of _ "[]"]) (auto simp: drain_commands_spec pending_def map_filter_plain)

end
