(* ===== verification/Turn.thy ===== *)
theory Turn
  imports Run_State "HOL-Library.Log_Nat"
begin

text \<open>
  One turn (\<open>core/runtime/turn.rs\<close>): establishing the provider's stream with retries and
  exponential backoff, and consuming its events into an assistant message.

  What the environment decides is a script.  For each attempt to establish the stream it
  says which branch of the \<open>select!\<close> won and whether the token was set at the checks that
  follow; for each poll of the stream it gives the item and the commands that arrived
  before it.  A script that runs out is a turn that still waits (\<open>None\<close>).
\<close>

section \<open>Backoff\<close>

text \<open>
  \<open>Duration::mul_f64(2^n)\<close>: the seconds as an \<open>f64\<close> (53 significant bits, ties to even), an
  exact product, and the nearest number of nanoseconds.  \<open>None\<close> is the panic on a result
  that is not below \<open>2^64\<close> seconds; from \<open>2^1024\<close> on the factor itself is infinite.
\<close>

definition round_div :: "nat \<Rightarrow> nat \<Rightarrow> nat" where
  "round_div a b =
     (let q = a div b; r = a mod b in
      if 2 * r < b \<or> (2 * r = b \<and> even q) then q else q + 1)"

definition round53 :: "nat \<Rightarrow> nat" where
  "round53 a =
     (let n = floorlog 2 a in
      if n \<le> 53 then a else round_div a (2 ^ (n - 53)) * 2 ^ (n - 53))"

text \<open>A non-negative \<open>f64\<close> as \<open>(a, k)\<close> for \<open>a / 2^k\<close>.\<close>

definition nanos_as_f64 :: "nat \<Rightarrow> nat \<times> nat" where
  "nanos_as_f64 n =
     (if n = 0 then (0, 0)
      else let l = floorlog 2 n;
               k = (if n * 2 ^ (83 - l) < 2 ^ 53 * 10 ^ 9 then 83 - l else 82 - l)
           in (round_div (n * 2 ^ k) (10 ^ 9), k))"

definition as_secs_f64 :: "Duration \<Rightarrow> nat \<times> nat" where
  "as_secs_f64 d =
     (case nanos_as_f64 (d mod 10 ^ 9) of
        (m, k) \<Rightarrow> (round53 (round53 (d div 10 ^ 9) * 2 ^ k + m), k))"

definition mul_pow2 :: "Duration \<Rightarrow> nat \<Rightarrow> Duration option" where
  "mul_pow2 d n =
     (if 1024 \<le> n then None
      else case as_secs_f64 d of
             (a, k) \<Rightarrow>
               if 2 ^ 64 * 2 ^ k \<le> a * 2 ^ n then None
               else let r = round_div (a * 2 ^ n * 10 ^ 9) (2 ^ k) in
                    if r < 2 ^ 64 * 10 ^ 9 then Some r else None)"

section \<open>Establishing the stream\<close>

record turn_poll =
  tp_arrived :: "AgentCommand list"
  tp_item :: stream_poll

type_synonym provider_stream = "turn_poll list"

datatype establish = EsStream provider_stream | EsError ProviderError | EsCancelled | EsTimeout

record attempt =
  at_outcome :: establish
  at_cancelled :: bool
  at_sleep_cancelled :: bool

text \<open>The \<open>select!\<close>; without a request timeout it has no timeout branch to win.\<close>

fun established :: "Duration option \<Rightarrow> establish \<Rightarrow> (ProviderError + provider_stream) option" where
  "established timeout (EsStream s) = Some (Inr s)"
| "established timeout (EsError e) = Some (Inl e)"
| "established timeout EsCancelled = Some (Inl PeAborted)"
| "established timeout EsTimeout = (if timeout = None then None else Some (Inl PeTimeout))"

text \<open>
  The result lists the delays slept through, whether the token is known to be set, and the
  stream or the error (\<open>Panic\<close>: \<open>mul_f64\<close> overflowed).
\<close>

fun stream_with_retry ::
    "'w LoopConfig \<Rightarrow> nat \<Rightarrow> attempt list \<Rightarrow> bool
       \<Rightarrow> (Duration list \<times> bool \<times> (ProviderError, provider_stream) outcome) option" where
  "stream_with_retry config attempt [] cancelled = None"
| "stream_with_retry config attempt (a # as) cancelled =
     (case established (cfg_request_timeout config) (at_outcome a) of
        None \<Rightarrow> None
      | Some (Inr stream) \<Rightarrow> Some ([], cancelled, Ok stream)
      | Some (Inl e) \<Rightarrow>
          (let now = (cancelled \<or> at_cancelled a \<or> at_outcome a = EsCancelled) in
           if retry_class e = Permanent then Some ([], now, Err e)
           else if now then Some ([], now, Err PeAborted)
           else if unat (cfg_max_retries config) \<le> attempt then Some ([], now, Err e)
           else
             (case mul_pow2 (cfg_retry_base_delay config) attempt of
                None \<Rightarrow> Some ([], now, Panic)
              | Some exponential \<Rightarrow>
                  (let delay = min (case retry_after e of Some d \<Rightarrow> d | None \<Rightarrow> exponential)
                                 (cfg_retry_max_delay config) in
                   if at_sleep_cancelled a then Some ([delay], True, Err PeAborted)
                   else
                     (case stream_with_retry config (Suc attempt) as now of
                        None \<Rightarrow> None
                      | Some (delays, known, r) \<Rightarrow> Some (delay # delays, known, r))))))"

section \<open>Accumulating events\<close>

definition blank_message :: "string \<Rightarrow> AssistantContent list \<Rightarrow> AssistantMessage" where
  "blank_message mid content =
     \<lparr>am_content = content, am_model = Some mid, am_usage = None, am_stop_reason = None,
      am_error_message = None, am_timestamp = 0\<rparr>"

definition build_assistant ::
    "string \<Rightarrow> string \<Rightarrow> ToolCall list \<Rightarrow> ToolCall option \<Rightarrow> string \<Rightarrow> AssistantMessage" where
  "build_assistant txt thinking tool_calls current_tool mid =
     blank_message mid
       ((if thinking = [] then [] else [AssistantThinking thinking])
        @ (if txt = [] then [] else [AssistantText txt])
        @ map AssistantToolCall tool_calls
        @ (case current_tool of None \<Rightarrow> [] | Some tc \<Rightarrow> [AssistantToolCall tc]))"

fun tool_call_of :: "AssistantContent \<Rightarrow> ToolCall option" where
  "tool_call_of (AssistantToolCall tc) = Some tc"
| "tool_call_of _ = None"

definition extract_tool_calls :: "AssistantMessage \<Rightarrow> ToolCall list" where
  "extract_tool_calls msg = List.map_filter tool_call_of (am_content msg)"

record TurnAccumulator =
  ta_text :: string
  ta_thinking :: string
  ta_tool_calls :: "ToolCall list"
  ta_current_tool :: "ToolCall option"
  ta_final_message :: "AssistantMessage option"
  ta_error_message :: "string option"
  ta_aborted :: bool

definition turn_acc_new :: TurnAccumulator where
  "turn_acc_new =
     \<lparr>ta_text = [], ta_thinking = [], ta_tool_calls = [], ta_current_tool = None,
      ta_final_message = None, ta_error_message = None, ta_aborted = False\<rparr>"

text \<open>Moving a call in progress to the finished ones.\<close>

definition take_current :: "TurnAccumulator \<Rightarrow> TurnAccumulator" where
  "take_current acc =
     (case ta_current_tool acc of
        None \<Rightarrow> acc
      | Some tc \<Rightarrow> acc\<lparr>ta_tool_calls := ta_tool_calls acc @ [tc], ta_current_tool := None\<rparr>)"

fun handle_event :: "AssistantEvent \<Rightarrow> TurnAccumulator \<Rightarrow> bool \<times> TurnAccumulator" where
  "handle_event (TextDelta delta) acc = (False, acc\<lparr>ta_text := ta_text acc @ delta\<rparr>)"
| "handle_event (ThinkingDelta delta) acc = (False, acc\<lparr>ta_thinking := ta_thinking acc @ delta\<rparr>)"
| "handle_event (ToolCallStart i name args) acc =
     (False, (take_current acc)
       \<lparr>ta_current_tool := Some \<lparr>tc_id = i, tc_name = name, tc_arguments = args\<rparr>\<rparr>)"
| "handle_event (ToolCallDelta i args) acc =
     (False,
      case ta_current_tool acc of
        Some tc \<Rightarrow>
          if tc_id tc = i
          then acc\<lparr>ta_current_tool := Some (tc\<lparr>tc_arguments := tc_arguments tc @ args\<rparr>)\<rparr>
          else acc
      | None \<Rightarrow> acc)"
| "handle_event (ToolCallEnd i) acc =
     (False,
      case ta_current_tool acc of
        Some tc \<Rightarrow> if tc_id tc = i then take_current acc else acc
      | None \<Rightarrow> acc)"
| "handle_event (Done message) acc = (True, acc\<lparr>ta_final_message := Some message\<rparr>)"
| "handle_event (StreamError message is_aborted) acc =
     (True, acc\<lparr>ta_error_message := Some message, ta_aborted := is_aborted\<rparr>)"

definition acc_build_assistant :: "string \<Rightarrow> TurnAccumulator \<Rightarrow> AssistantMessage" where
  "acc_build_assistant mid acc =
     build_assistant (ta_text acc) (ta_thinking acc) (ta_tool_calls acc) (ta_current_tool acc) mid"

definition finalize :: "string \<Rightarrow> TurnAccumulator \<Rightarrow> AssistantMessage" where
  "finalize mid acc0 =
     (let acc = take_current acc0 in
      case ta_final_message acc of
        Some msg \<Rightarrow> msg
      | None \<Rightarrow>
          (let msg = build_assistant (ta_text acc) (ta_thinking acc) (ta_tool_calls acc) None mid
           in if ta_aborted acc then msg\<lparr>am_stop_reason := Some StopAborted\<rparr>
              else
                (case ta_error_message acc of
                   Some err \<Rightarrow> msg\<lparr>am_stop_reason := Some StopError, am_error_message := Some err\<rparr>
                 | None \<Rightarrow>
                     msg\<lparr>am_stop_reason := Some StopError,
                         am_error_message := Some ''stream ended without Done event''\<rparr>)))"

section \<open>The turn\<close>

record TurnResult =
  tu_assistant_message :: AssistantMessage
  tu_tool_calls :: "ToolCall list"
  tu_aborted :: bool


definition stream_failure_result :: "string \<Rightarrow> ProviderError \<Rightarrow> bool \<Rightarrow> TurnResult" where
  "stream_failure_result mid e cancelled =
     (let aborted = (e = PeAborted \<or> cancelled) in
      \<lparr>tu_assistant_message =
         (blank_message mid [])
           \<lparr>am_stop_reason := Some (stop_reason_for_error aborted),
            am_error_message := (if aborted then None else Some (provider_error_display e))\<rparr>,
       tu_tool_calls = [], tu_aborted = aborted\<rparr>)"

text \<open>The consuming loop of \<open>stream_turn\<close>.\<close>

fun consume ::
    "string \<Rightarrow> turn_poll list \<Rightarrow> TurnAccumulator \<Rightarrow> 'w RunState
       \<Rightarrow> (TurnAccumulator \<times> 'w RunState) option" where
  "consume mid [] acc s = None"
| "consume mid (p # ps) acc s0 =
     (let s = arrive (tp_arrived p) s0 in
      case tp_item p of
        PollCancelled \<Rightarrow> Some (acc\<lparr>ta_aborted := True\<rparr>, s\<lparr>st_signal := True\<rparr>)
      | PollEnd \<Rightarrow> Some (acc, s)
      | PollEvent event \<Rightarrow>
          (case drain_commands s of
             (d, s1) \<Rightarrow>
               (let s2 = requeue d s1 in
                if d_aborted d \<or> d_shutdown d then Some (acc\<lparr>ta_aborted := True\<rparr>, s2)
                else
                  (case handle_event event acc of
                     (terminal, acc') \<Rightarrow>
                       if terminal then Some (acc', s2)
                       else consume mid ps acc'
                              (emit_event (MessageUpdate (Assistant (acc_build_assistant mid acc')) event)
                                 s2)))))"

text \<open>
  \<open>late\<close> is \<open>signal.is_cancelled()\<close> when a failure result is built.  The outcome is a panic
  only when the backoff overflows.
\<close>

definition stream_turn ::
    "'w LoopConfig \<Rightarrow> ProviderRequest \<Rightarrow> attempt list \<Rightarrow> bool \<Rightarrow> 'w RunState
       \<Rightarrow> (unit, TurnResult \<times> 'w RunState) outcome option" where
  "stream_turn config request attempts late s0 =
     (let mid = model_id (req_model request);
          s = s0\<lparr>st_requests := st_requests s0 @ [request]\<rparr>
      in case stream_with_retry config 0 attempts (st_signal s) of
           None \<Rightarrow> None
         | Some (delays, known, r) \<Rightarrow>
             (let s1 = s\<lparr>st_signal := st_signal s \<or> known\<rparr> in
              case r of
                Panic \<Rightarrow> Some Panic
              | Err e \<Rightarrow> Some (Ok (stream_failure_result mid e (known \<or> late), s1))
              | Ok stream \<Rightarrow>
                  (let initial = Assistant (blank_message mid []) in
                   case consume mid stream turn_acc_new (emit_event (MessageStart initial) s1) of
                     None \<Rightarrow> None
                   | Some (acc, s2) \<Rightarrow>
                       (let msg = finalize mid acc in
                        Some (Ok (\<lparr>tu_assistant_message = msg, tu_tool_calls = extract_tool_calls msg,
                                   tu_aborted = ta_aborted acc\<rparr>,
                                  emit_event (MessageEnd (Assistant msg)) s2))))))"


section \<open>Lemmas: the turn\<close>

text \<open>What the consuming loop changes: events that are not persisted, and the channel.\<close>

definition only_channel :: "'w RunState \<Rightarrow> 'w RunState \<Rightarrow> bool" where
  "only_channel s s' =
     (st_transcript s' = st_transcript s \<and> st_snapshot s' = st_snapshot s
      \<and> st_requests s' = st_requests s \<and> st_world s' = st_world s
      \<and> recorded (st_events s') = recorded (st_events s) \<and> kept s s')"

lemma only_channel_trans: "only_channel s s' \<Longrightarrow> only_channel s' s'' \<Longrightarrow> only_channel s s''"
  by (auto simp: only_channel_def intro: kept_trans)

lemma only_channel_arrive: "only_channel s (arrive c s)"
  by (simp add: only_channel_def kept_arrive)

lemma only_channel_signal: "only_channel s (s\<lparr>st_signal := b\<rparr>)"
  by (simp add: only_channel_def kept_same pending_def)

lemma only_channel_drain: "only_channel s (requeue (fst (drain_commands s)) (snd (drain_commands s)))"
  using kept_drain [of s] by (simp add: only_channel_def drain_commands_spec)

lemma only_channel_emit: "message_end e = None \<Longrightarrow> only_channel s (emit_event e s)"
  by (simp add: only_channel_def kept_same pending_def)

text \<open>The loop ends with a message that a \<open>Done\<close> delivered, or without one.\<close>

lemma handle_event_final:
  "handle_event e acc = (t, acc') \<Longrightarrow> ta_final_message acc' = Some m
   \<Longrightarrow> ta_final_message acc = Some m \<or> e = Done m"
  by (cases e) (auto simp: take_current_def split: option.splits if_splits)

lemma handle_event_terminal:
  "handle_event e acc = (False, acc') \<Longrightarrow> ta_final_message acc' = ta_final_message acc
     \<and> ta_aborted acc' = ta_aborted acc \<and> ta_error_message acc' = ta_error_message acc"
  by (cases e) (auto simp: take_current_def split: option.splits if_splits)

lemma consume_spec:
  assumes "consume mid ps acc s = Some (acc', s')"
    and "ta_final_message acc = None" and "\<not> ta_aborted acc"
  shows "only_channel s s'
    \<and> (\<forall>m. ta_final_message acc' = Some m \<longrightarrow> PollEvent (Done m) \<in> tp_item ` set ps \<and> \<not> ta_aborted acc')"
  using assms
proof (induction ps arbitrary: acc s)
  case (Cons p ps)
  let ?s = "arrive (tp_arrived p) s"
  show ?case
  proof (cases "tp_item p")
    case (PollEvent e)
    obtain d s1 where d: "drain_commands ?s = (d, s1)" by (cases "drain_commands ?s")
    have ch: "only_channel s (requeue d s1)"
      using only_channel_trans [OF only_channel_arrive only_channel_drain, of s "tp_arrived p"] d by simp
    show ?thesis
    proof (cases "d_aborted d \<or> d_shutdown d")
      case True
      then show ?thesis using Cons.prems PollEvent d ch by auto
    next
      case False
      obtain t acc1 where h: "handle_event e acc = (t, acc1)" by (cases "handle_event e acc")
      show ?thesis
      proof (cases t)
        case t: True
        then have "acc' = acc1" "s' = requeue d s1"
          using Cons.prems(1) PollEvent d False h by (simp_all add: Let_def)
        moreover have "e = Done m \<and> \<not> ta_aborted acc1" if "ta_final_message acc1 = Some m" for m
          using that h Cons.prems(2,3) by (cases e) (auto simp: take_current_def split: option.splits if_splits)
        ultimately show ?thesis using PollEvent ch by force
      next
        case t: False
        let ?s2 = "emit_event (MessageUpdate (Assistant (acc_build_assistant mid acc1)) e) (requeue d s1)"
        have "consume mid ps acc1 ?s2 = Some (acc', s')"
          using Cons.prems(1) PollEvent d False h t by (simp add: Let_def)
        moreover have "ta_final_message acc1 = None" "\<not> ta_aborted acc1"
          using handle_event_terminal [of e acc acc1] h t Cons.prems(2,3) by simp_all
        ultimately have IH: "only_channel ?s2 s'
            \<and> (\<forall>m. ta_final_message acc' = Some m \<longrightarrow>
                 PollEvent (Done m) \<in> tp_item ` set ps \<and> \<not> ta_aborted acc')"
          by (rule Cons.IH)
        moreover have "only_channel s ?s2"
          by (rule only_channel_trans [OF ch only_channel_emit]) simp
        ultimately show ?thesis by (auto intro: only_channel_trans)
      qed
    qed
  next
    case PollEnd
    then show ?thesis using Cons.prems by (auto simp: Let_def only_channel_arrive)
  next
    case PollCancelled
    then show ?thesis
      using Cons.prems only_channel_trans [OF only_channel_arrive only_channel_signal]
      by (auto simp: Let_def)
  qed
qed simp


lemma finalize_stop:
  "ta_final_message acc = None
   \<Longrightarrow> am_stop_reason (finalize mid acc) = Some (if ta_aborted acc then StopAborted else StopError)"
  by (auto simp: finalize_def Let_def take_current_def split: option.splits)

lemma finalize_done:
  "ta_final_message acc = Some m \<Longrightarrow> finalize mid acc = m"
  by (auto simp: finalize_def Let_def take_current_def split: option.splits)

text \<open>The stream a retry loop returns is one an attempt established.\<close>

lemma retry_stream:
  "stream_with_retry config n as c = Some (delays, known, Ok stream)
   \<Longrightarrow> EsStream stream \<in> at_outcome ` set as"
proof (induction config n as c arbitrary: delays rule: stream_with_retry.induct)
  case (2 config n a as c)
  show ?case
  proof (cases "at_outcome a")
    case (EsStream st)
    then show ?thesis using 2 by auto
  next
    case (EsError e)
    then show ?thesis using 2 by (auto simp: Let_def split: if_splits option.splits)
  next
    case EsCancelled
    then show ?thesis using 2 by (auto simp: Let_def split: if_splits option.splits)
  next
    case EsTimeout
    then show ?thesis using 2 by (auto simp: Let_def split: if_splits option.splits)
  qed
qed simp

definition delivered_by :: "attempt list \<Rightarrow> AssistantMessage \<Rightarrow> bool" where
  "delivered_by as m =
     (\<exists>stream. EsStream stream \<in> at_outcome ` set as \<and> PollEvent (Done m) \<in> tp_item ` set stream)"

lemma stream_turn_spec:
  assumes "stream_turn config request as late s = Some (Ok (turn, s'))"
  shows "st_transcript s' = st_transcript s \<and> st_snapshot s' = st_snapshot s
    \<and> st_world s' = st_world s \<and> st_requests s' = st_requests s @ [request] \<and> kept s s'
    \<and> tu_tool_calls turn = extract_tool_calls (tu_assistant_message turn)
    \<and> (\<exists>saved. recorded (st_events s') = recorded (st_events s)
         @ (if saved then [Assistant (tu_assistant_message turn)] else [])
       \<and> (saved \<or> am_stop_reason (tu_assistant_message turn) \<in> {Some StopError, Some StopAborted}))
    \<and> (tu_aborted turn \<longrightarrow> am_stop_reason (tu_assistant_message turn) = Some StopAborted)
    \<and> (delivered_by as (tu_assistant_message turn)
       \<or> am_stop_reason (tu_assistant_message turn) \<in> {Some StopError, Some StopAborted})"
proof -
  let ?mid = "model_id (req_model request)"
  let ?s = "s\<lparr>st_requests := st_requests s @ [request]\<rparr>"
  obtain delays known r where
    retry: "stream_with_retry config 0 as (st_signal s) = Some (delays, known, r)"
    using assms by (auto simp: stream_turn_def Let_def split: option.splits)
  let ?s1 = "?s\<lparr>st_signal := st_signal s \<or> known\<rparr>"
  have k1: "kept s ?s1" by (simp add: kept_same pending_def)
  show ?thesis
  proof (cases r)
    case (Ok stream)
    let ?s2 = "emit_event (MessageStart (Assistant (blank_message ?mid []))) ?s1"
    obtain acc s3 where c: "consume ?mid stream turn_acc_new ?s2 = Some (acc, s3)"
      and turn: "turn = \<lparr>tu_assistant_message = finalize ?mid acc,
          tu_tool_calls = extract_tool_calls (finalize ?mid acc), tu_aborted = ta_aborted acc\<rparr>"
      and s': "s' = emit_event (MessageEnd (Assistant (finalize ?mid acc))) s3"
      using assms retry Ok by (auto simp: stream_turn_def Let_def split: option.splits)
    have new: "ta_final_message turn_acc_new = None" "\<not> ta_aborted turn_acc_new"
      by (simp_all add: turn_acc_new_def)
    note cs = consume_spec [OF c new]
    have k2: "kept ?s1 ?s2" and k4: "kept s3 s'" by (simp_all add: kept_same pending_def s')
    have "kept s s'"
      using k1 k2 k4 cs by (meson kept_trans only_channel_def)
    moreover have "delivered_by as m" if "ta_final_message acc = Some m" for m
      using retry_stream [of config 0 as "st_signal s" delays known stream] retry Ok cs that
      unfolding delivered_by_def by blast
    ultimately show ?thesis
      using cs turn s' finalize_stop [of acc ?mid] finalize_done [of acc _ ?mid]
      by (cases "ta_final_message acc") (auto simp: only_channel_def intro: exI [of _ True])
  next
    case (Err e)
    then have turn: "turn = stream_failure_result ?mid e (known \<or> late)" and s': "s' = ?s1"
      using assms retry by (auto simp: stream_turn_def Let_def)
    show ?thesis
      using k1 unfolding s' turn
      by (auto simp: stream_failure_result_def Let_def stop_reason_for_error_def blank_message_def
          extract_tool_calls_def map_filter_simps intro: exI [of _ False])
  next
    case Panic
    then show ?thesis using assms retry by (simp add: stream_turn_def Let_def)
  qed
qed

section \<open>Lemmas: retries\<close>

text \<open>What a failed attempt's error is.\<close>

definition attempt_error :: "'w LoopConfig \<Rightarrow> attempt \<Rightarrow> ProviderError option" where
  "attempt_error config a =
     (case established (cfg_request_timeout config) (at_outcome a) of
        Some (Inl e) \<Rightarrow> Some e | _ \<Rightarrow> None)"

lemma retry_delays:
  assumes "stream_with_retry config n as c = Some (delays, known, r)"
    and "n \<le> unat (cfg_max_retries config)"
  shows "n + length delays \<le> unat (cfg_max_retries config) \<and> length delays \<le> length as
     \<and> list_all (\<lambda>d. d \<le> cfg_retry_max_delay config) delays
     \<and> (\<forall>stream. r = Ok stream \<longrightarrow>
          length delays < length as \<and> at_outcome (as ! length delays) = EsStream stream)
     \<and> (\<forall>e. r = Err e \<longrightarrow> retry_class e = Permanent \<or> n + length delays = unat (cfg_max_retries config))
     \<and> list_all (\<lambda>a. \<exists>e. attempt_error config a = Some e \<and> retry_class e \<noteq> Permanent)
         (take (length delays) as)"
  using assms
proof (induction config n as c arbitrary: delays rule: stream_with_retry.induct)
  case (2 config n a as c)
  show ?case
  proof (cases "established (cfg_request_timeout config) (at_outcome a)")
    case None
    then show ?thesis using 2 by simp
  next
    case (Some x)
    show ?thesis
    proof (cases x)
      case (Inr stream)
      then have "at_outcome a = EsStream stream"
        using Some by (cases "at_outcome a") (auto split: if_splits)
      then show ?thesis using 2 Some Inr by auto
    next
      case (Inl e)
      note step = Some Inl
      let ?now = "c \<or> at_cancelled a \<or> at_outcome a = EsCancelled"
      show ?thesis
      proof (cases "retry_class e = Permanent \<or> ?now \<or> unat (cfg_max_retries config) \<le> n
          \<or> mul_pow2 (cfg_retry_base_delay config) n = None \<or> at_sleep_cancelled a")
        case True
        then show ?thesis
          using 2(2,3) step by (auto simp: Let_def attempt_error_def split: if_splits option.splits)
      next
        case go: False
        then obtain exponential where e2: "mul_pow2 (cfg_retry_base_delay config) n = Some exponential"
          by auto
        obtain ds where rest: "stream_with_retry config (Suc n) as ?now = Some (ds, known, r)"
          and ds: "delays = min (case retry_after e of Some d \<Rightarrow> d | None \<Rightarrow> exponential)
                     (cfg_retry_max_delay config) # ds"
          using 2(2) step go e2 by (auto simp: Let_def split: option.splits)
        show ?thesis
          using 2(1) [OF step refl, of exponential _ ds] go e2 rest ds step
          by (auto simp: attempt_error_def Let_def)
      qed
    qed
  qed
qed simp

text \<open>Attempts that fail with an error the loop retries, and a token that stays unset.\<close>

definition keeps_failing :: "'w LoopConfig \<Rightarrow> attempt \<Rightarrow> bool" where
  "keeps_failing config a =
     (case attempt_error config a of
        None \<Rightarrow> False
      | Some e \<Rightarrow> retry_class e \<noteq> Permanent \<and> retry_after e = None
          \<and> \<not> at_cancelled a \<and> \<not> at_sleep_cancelled a)"

lemma keeps_failing_step:
  assumes "keeps_failing config a"
  obtains e where "attempt_error config a = Some e" "retry_class e \<noteq> Permanent"
    "stream_with_retry config n (a # as) False =
       (if unat (cfg_max_retries config) \<le> n then Some ([], False, Err e)
        else case mul_pow2 (cfg_retry_base_delay config) n of
               None \<Rightarrow> Some ([], False, Panic)
             | Some x \<Rightarrow>
                 (case stream_with_retry config (Suc n) as False of
                    None \<Rightarrow> None
                  | Some (ds, known, r) \<Rightarrow>
                      Some (min x (cfg_retry_max_delay config) # ds, known, r)))"
proof -
  obtain e where e: "attempt_error config a = Some e" and perm: "retry_class e \<noteq> Permanent"
    and ra: "retry_after e = None" and nc: "\<not> at_cancelled a" and ns: "\<not> at_sleep_cancelled a"
    using assms by (auto simp: keeps_failing_def split: option.splits)
  have est: "established (cfg_request_timeout config) (at_outcome a) = Some (Inl e)"
    using e by (auto simp: attempt_error_def split: option.splits sum.splits)
  then have "at_outcome a \<noteq> EsCancelled" using perm by auto
  then show thesis
    using that [OF e perm] est perm ra nc ns by (auto simp: Let_def split: option.split)
qed

lemma half_second: "as_secs_f64 (millis 500) = (2 ^ 52, 53)"
proof -
  have l: "floorlog 2 500000000 = 29" by (simp add: compute_floorlog)
  have n: "nanos_as_f64 500000000 = (2 ^ 52, 53)"
    unfolding nanos_as_f64_def l by (simp add: Let_def round_div_def)
  have r: "round53 (2 ^ 52) = 2 ^ 52" "round53 0 = 0"
    unfolding round53_def by (simp_all add: compute_floorlog Let_def)
  have "as_secs_f64 (millis 500) = (case nanos_as_f64 500000000 of
        (m, k) \<Rightarrow> (round53 (round53 0 * 2 ^ k + m), k))"
    by (simp add: as_secs_f64_def millis_def)
  then show ?thesis unfolding n prod.case r mult_zero_left add_0_left .
qed
lemma round_div_mult [simp]: "0 < b \<Longrightarrow> round_div (b * q) b = q"
  by (simp add: round_div_def Let_def)
lemma backoff_half_second:
  "mul_pow2 (millis 500) n = (if n \<le> 64 then Some (millis 500 * 2 ^ n) else None)"
proof -
  have d: "(2::nat) ^ 52 * 2 ^ n * 10 ^ 9 = 2 ^ 53 * (millis 500 * 2 ^ n)"
    by (simp add: millis_def)
  have r: "round_div ((2::nat) ^ 52 * 2 ^ n * 10 ^ 9) (2 ^ 53) = millis 500 * 2 ^ n"
    unfolding d by (rule round_div_mult) simp
  have cmp: "(2::nat) ^ 64 * 2 ^ 53 \<le> 2 ^ 52 * 2 ^ n \<longleftrightarrow> \<not> n \<le> 64"
    unfolding power_add [symmetric] by (subst power_increasing_iff) auto
  have small: "millis 500 * 2 ^ n < 2 ^ 64 * 10 ^ 9" if "n \<le> 64"
    using power_increasing [OF that, of "2::nat"] by (simp add: millis_def)
  show ?thesis
  proof (cases "n \<le> 64")
    case True
    then show ?thesis
      unfolding mul_pow2_def half_second prod.case cmp r Let_def using small [OF True] by (simp only: if_True) simp
  next
    case False
    then show ?thesis
      unfolding mul_pow2_def half_second prod.case cmp r Let_def by (simp only: if_True not_False_eq_True) simp
  qed
qed

lemma panics_late:
  assumes "list_all (keeps_failing config) as" and "cfg_retry_base_delay config = millis 500"
    and "65 < unat (cfg_max_retries config)" and "n + k = 65" and "length as = Suc k"
  shows "\<exists>delays. stream_with_retry config n as False = Some (delays, False, Panic) \<and> length delays = k"
  using assms
proof (induction k arbitrary: n as)
  case 0
  then obtain a where as: "as = [a]" by (cases as) auto
  have "keeps_failing config a" using 0 as by simp
  then show ?case
    by (rule keeps_failing_step [of config a n "[]"])
      (use 0 as in \<open>auto simp: backoff_half_second\<close>)
next
  case (Suc k)
  then obtain a as' where as: "as = a # as'" by (cases as) auto
  obtain ds where ds: "stream_with_retry config (Suc n) as' False = Some (ds, False, Panic)" "length ds = k"
    using Suc.IH [of as' "Suc n"] Suc.prems as by auto
  have "keeps_failing config a" using Suc.prems as by simp
  then show ?case
    by (rule keeps_failing_step [of config a n as'])
      (use Suc.prems ds as in \<open>auto simp: backoff_half_second\<close>)
qed

section \<open>Properties\<close>

text \<open>
  Establishing the stream retries at most \<open>max_retries\<close> times, and every pause is at most
  \<open>retry_max_delay\<close> (a server's \<open>Retry-After\<close> included).  Each attempt before the last failed
  with an error that is not permanent.  The stream it returns is the one the last attempt
  established.  The error it returns is a permanent one (a cancellation among them), or the
  retries are used up.
\<close>

theorem retry_policy:
  assumes "stream_with_retry config 0 as c = Some (delays, known, r)"
  shows "length delays \<le> unat (cfg_max_retries config)
    \<and> list_all (\<lambda>d. d \<le> cfg_retry_max_delay config) delays
    \<and> list_all (\<lambda>a. \<exists>e. attempt_error config a = Some e \<and> retry_class e \<noteq> Permanent)
        (take (length delays) as)
    \<and> (\<forall>stream. r = Ok stream \<longrightarrow>
         length delays < length as \<and> at_outcome (as ! length delays) = EsStream stream)
    \<and> (\<forall>e. r = Err e \<longrightarrow> retry_class e = Permanent \<or> length delays = unat (cfg_max_retries config))"
  using retry_delays [OF assms] by simp

text \<open>Two failures, one of them rate limited for a minute, and then a stream.\<close>

lemma retry_policy_witness:
  "\<exists>r. stream_with_retry (default_config :: unit LoopConfig) 0
        [\<lparr>at_outcome = EsError (PeHttpStatus 503 [] None), at_cancelled = False, at_sleep_cancelled = False\<rparr>,
         \<lparr>at_outcome = EsError (PeHttpStatus 429 [] (Some (millis 60000))), at_cancelled = False,
           at_sleep_cancelled = False\<rparr>,
         \<lparr>at_outcome = EsStream [], at_cancelled = False, at_sleep_cancelled = False\<rparr>] False
      = Some ([millis 500, millis 30000], False, r)
    \<and> (\<forall>stream. r = Ok stream \<longrightarrow> stream = [])"
proof -
  let ?as = "[\<lparr>at_outcome = EsError (PeHttpStatus 503 [] None), at_cancelled = False, at_sleep_cancelled = False\<rparr>,
         \<lparr>at_outcome = EsError (PeHttpStatus 429 [] (Some (millis 60000))), at_cancelled = False,
           at_sleep_cancelled = False\<rparr>,
         \<lparr>at_outcome = EsStream [], at_cancelled = False, at_sleep_cancelled = False\<rparr>] :: attempt list"
  have run: "stream_with_retry (default_config :: unit LoopConfig) 0 ?as False
      = Some ([millis 500, millis 30000], False, Ok [])"
    unfolding stream_with_retry.simps default_config_def
    by (simp add: backoff_half_second Let_def) (simp add: millis_def)
  show ?thesis
    using run retry_policy [OF run] by (intro exI [of _ "Ok []"]) simp
qed

text \<open>
  With the default configuration a provider that keeps failing with retryable errors is
  tried four times, with pauses of 500 ms, 1 s and 2 s, and the last error is returned.
\<close>

theorem default_backoff:
  assumes "list_all (keeps_failing (default_config :: 'w LoopConfig)) [a, b, c, d]"
    and "attempt_error (default_config :: 'w LoopConfig) d = Some e"
  shows "stream_with_retry (default_config :: 'w LoopConfig) 0 (a # b # c # d # rest) False
     = Some ([millis 500, millis 1000, millis 2000], False, Err e)"
proof -
  let ?c = "default_config :: 'w LoopConfig"
  have cfg: "cfg_max_retries ?c = 3" "cfg_retry_base_delay ?c = millis 500"
    "cfg_retry_max_delay ?c = millis 30000" by (simp_all add: default_config_def)
  have m: "mul_pow2 (millis 500) 0 = Some (millis 500)" "mul_pow2 (millis 500) (Suc 0) = Some (millis 1000)"
    "mul_pow2 (millis 500) (Suc (Suc 0)) = Some (millis 2000)"
    unfolding backoff_half_second by (simp_all add: millis_def)
  have k: "keeps_failing ?c a" "keeps_failing ?c b" "keeps_failing ?c c" "keeps_failing ?c d"
    using assms(1) by simp_all
  have 4: "stream_with_retry ?c (Suc (Suc (Suc 0))) (d # rest) False = Some ([], False, Err e)"
    by (rule keeps_failing_step [OF k(4), of "Suc (Suc (Suc 0))" rest]) (use assms(2) cfg in simp)
  have 3: "stream_with_retry ?c (Suc (Suc 0)) (c # d # rest) False = Some ([millis 2000], False, Err e)"
    by (rule keeps_failing_step [OF k(3), of "Suc (Suc 0)" "d # rest"])
      (use 4 cfg m in \<open>simp add: millis_def\<close>)
  have 2: "stream_with_retry ?c (Suc 0) (b # c # d # rest) False
      = Some ([millis 1000, millis 2000], False, Err e)"
    by (rule keeps_failing_step [OF k(2), of "Suc 0" "c # d # rest"])
      (use 3 cfg m in \<open>simp add: millis_def\<close>)
  show ?thesis
    by (rule keeps_failing_step [OF k(1), of 0 "b # c # d # rest"])
      (use 2 cfg m in \<open>simp add: millis_def\<close>)
qed

definition failing :: "string \<Rightarrow> attempt" where
  "failing s = \<lparr>at_outcome = EsError (PeNetwork s), at_cancelled = False, at_sleep_cancelled = False\<rparr>"

lemma default_backoff_witness:
  "stream_with_retry (default_config :: unit LoopConfig) 0
     [failing ''a'', failing ''b'', failing ''c'', failing ''d''] False
   = Some ([millis 500, millis 1000, millis 2000], False, Err (PeNetwork ''d''))"
  by (rule default_backoff)
    (simp_all add: keeps_failing_def attempt_error_def failing_def default_config_def)

text \<open>
  The cap on a pause comes after the multiplication.  With the default base of 500 ms and
  rest than 65 retries allowed, a provider that keeps failing makes the 66th failure panic,
  although every pause is capped.
\<close>

theorem retry_overflow_panics:
  assumes "list_all (keeps_failing config) as" and "length as = 66"
    and "cfg_retry_base_delay config = millis 500" and "65 < unat (cfg_max_retries config)"
  shows "\<exists>delays. stream_with_retry config 0 as False = Some (delays, False, Panic) \<and> length delays = 65"
  by (rule panics_late) (use assms in simp_all)

lemma retry_overflow_panics_witness:
  "\<exists>delays. stream_with_retry ((default_config :: unit LoopConfig)\<lparr>cfg_max_retries := 100\<rparr>) 0
     (replicate 66 (failing [])) False = Some (delays, False, Panic) \<and> length delays = 65"
  by (rule retry_overflow_panics)
    (simp_all add: list_all_iff keeps_failing_def attempt_error_def failing_def default_config_def)

text \<open>
  A turn cannot end well by itself.  Its assistant message is one that a \<open>Done\<close> event of
  an established stream delivered, or its stop reason is \<open>Error\<close> or \<open>Aborted\<close>; an aborted
  turn never reports another stop reason.  The turn leaves the transcript, the snapshot and
  the world alone, sends one request, and persists at most its message.  No command is lost:
  steering, follow-ups and other commands that arrive meanwhile are pending afterwards.
\<close>

theorem turn_completion:
  assumes "stream_turn config request as late s = Some (Ok (turn, s'))"
  shows "(delivered_by as (tu_assistant_message turn)
       \<or> am_stop_reason (tu_assistant_message turn) \<in> {Some StopError, Some StopAborted})
    \<and> (tu_aborted turn \<longrightarrow> am_stop_reason (tu_assistant_message turn) = Some StopAborted)
    \<and> st_transcript s' = st_transcript s \<and> st_snapshot s' = st_snapshot s
    \<and> st_requests s' = st_requests s @ [request] \<and> kept s s'
    \<and> (\<exists>saved. recorded (st_events s') = recorded (st_events s)
         @ (if saved then [Assistant (tu_assistant_message turn)] else [])
       \<and> (saved \<or> am_stop_reason (tu_assistant_message turn) \<in> {Some StopError, Some StopAborted}))"
  using stream_turn_spec [OF assms] by blast

text \<open>A stream that ends after half a word while a steering message arrives.\<close>

definition demo_state :: "unit RunState" where
  "demo_state =
     \<lparr>st_transcript = [user_text ''hi''], st_queue = [], st_rx = [], st_events = [],
      st_snapshot = \<lparr>as_system_prompt = [], as_model = None, as_thinking_level = ThOff,
        as_messages = [user_text ''hi''], as_is_streaming = False, as_streaming_message = None,
        as_pending_tool_calls = [], as_error_message = None\<rparr>,
      st_signal = False, st_requests = [], st_sent = [], st_world = ()\<rparr>"

definition demo_request :: ProviderRequest where
  "demo_request =
     \<lparr>req_model = \<lparr>model_id = ''m'', model_context_window = 8192\<rparr>,
      req_context = \<lparr>ctx_system_prompt = [], ctx_messages = [user_text ''hi''], ctx_tools = []\<rparr>,
      req_thinking_level = ThOff, req_session_id = None\<rparr>"

definition demo_attempts :: "attempt list" where
  "demo_attempts =
     [\<lparr>at_outcome = EsStream
         [\<lparr>tp_arrived = [Steer (user_text ''no'')], tp_item = PollEvent (TextDelta ''he'')\<rparr>,
          \<lparr>tp_arrived = [], tp_item = PollEnd\<rparr>],
       at_cancelled = False, at_sleep_cancelled = False\<rparr>]"

lemma turn_completion_witness:
  "\<exists>turn s'. stream_turn default_config demo_request demo_attempts False demo_state = Some (Ok (turn, s'))
     \<and> am_content (tu_assistant_message turn) = [AssistantText ''he'']
     \<and> \<not> delivered_by demo_attempts (tu_assistant_message turn)
     \<and> am_stop_reason (tu_assistant_message turn) \<in> {Some StopError, Some StopAborted}
     \<and> kept demo_state s' \<and> st_queue s' = [Steer (user_text ''no'')]"
proof -
  obtain turn s' where run:
      "stream_turn default_config demo_request demo_attempts False demo_state = Some (Ok (turn, s'))"
    and content: "am_content (tu_assistant_message turn) = [AssistantText ''he'']"
    and queue: "st_queue s' = [Steer (user_text ''no'')]"
    by (simp add: stream_turn_def demo_attempts_def demo_request_def demo_state_def Let_def
        drain_commands_spec map_filter_simps turn_acc_new_def finalize_def take_current_def
        build_assistant_def blank_message_def)
  moreover have "\<not> delivered_by demo_attempts m" for m
    by (auto simp: delivered_by_def demo_attempts_def)
  ultimately show ?thesis using turn_completion [OF run] by blast
qed

end
