(* ===== verification/Run_Loop.thy ===== *)
theory Run_Loop
  imports Turn
begin

text \<open>
  The run loop: preparing the messages of a request (\<open>core/runtime/context_prep.rs\<close>), closing
  a turn (\<open>core/runtime/step.rs\<close>) and \<open>run_agent_loop\<close> (\<open>core/runtime/mod.rs\<close>).

  A run is driven by a script with one entry per turn: the outcomes of establishing and
  polling the stream, the schedule of concurrent tools, whether the token is set when the
  request is prepared and when tools are called, and the commands that have arrived when the
  turn is closed.  \<open>show_params\<close> is the \<open>Debug\<close> text of a tool's parameters.
\<close>

record turn_env =
  en_prepare_cancelled :: bool
  en_attempts :: "attempt list"
  en_late_cancelled :: bool
  en_tools_cancelled :: bool
  en_schedule :: "nat list"
  en_boundary :: "AgentCommand list"

type_synonym show_params = "json option \<Rightarrow> string"

section \<open>Preparing a request (context_prep.rs)\<close>

definition tool_schemas :: "show_params \<Rightarrow> 'w Tool list \<Rightarrow> string" where
  "tool_schemas show_params tools =
     concat (map (\<lambda>t. tl_name t @ tl_description t @ show_params (tl_parameters t)) tools)"

definition apply_final_projection ::
    "show_params \<Rightarrow> 'w LoopConfig \<Rightarrow> 'w Tool list \<Rightarrow> string \<Rightarrow> bool \<Rightarrow> Message list \<Rightarrow> Message list" where
  "apply_final_projection show_params config tools system_prompt cancelled msgs =
     (case cfg_transform_context config of
        Some hook \<Rightarrow> hook msgs cancelled
      | None \<Rightarrow>
          budget_truncate
            (budget_with_overhead (model_context_window (cfg_model config)) system_prompt
               (tool_schemas show_params tools)
               (cp_reserve_output_tokens (cfg_compaction config))
               (cp_protocol_wrapper_tokens (cfg_compaction config)))
            msgs)"

definition commit_compaction :: "CompactionCommit \<Rightarrow> 'w RunState \<Rightarrow> 'w RunState" where
  "commit_compaction c s =
     (let summary_msg = user_text (cc_summary c);
          s1 = s\<lparr>st_transcript := summary_msg # drop (cc_keep_from c) (st_transcript s)\<rparr>
      in update_snapshot None (emit_event (MessageEnd summary_msg) s1))"

definition aborted_message :: AssistantMessage where
  "aborted_message =
     \<lparr>am_content = [], am_model = None, am_usage = None, am_stop_reason = Some StopAborted,
      am_error_message = None, am_timestamp = 0\<rparr>"

definition send_aborted_turn_end :: "'w RunState \<Rightarrow> 'w RunState" where
  "send_aborted_turn_end s = emit_event (TurnEnd aborted_message []) s"

text \<open>\<open>Inl ()\<close> is \<open>PreparedRequest::Aborted\<close>; \<open>None\<close> is a compactor that does not answer.\<close>

definition prepare_request_messages ::
    "show_params \<Rightarrow> 'w LoopConfig \<Rightarrow> 'w Tool list \<Rightarrow> string \<Rightarrow> bool \<Rightarrow> 'w RunState
       \<Rightarrow> ((unit + Message list) \<times> 'w RunState) option" where
  "prepare_request_messages show_params config tools system_prompt cancelled s =
     (let project = apply_final_projection show_params config tools system_prompt cancelled in
      case cfg_compactor config of
        None \<Rightarrow> Some (Inr (project (st_transcript s)), s)
      | Some compactor \<Rightarrow>
          (case plan_context (st_transcript s) (cfg_compaction config) (compactor (st_world s)) of
             None \<Rightarrow> None
           | Some (Inl CeCancelled) \<Rightarrow> Some (Inl (), s)
           | Some (Inl _) \<Rightarrow> Some (Inr (project (st_transcript s)), s)
           | Some (Inr prepared) \<Rightarrow>
               Some (Inr (project (pc_request_messages prepared)),
                     case pc_commit prepared of None \<Rightarrow> s | Some c \<Rightarrow> commit_compaction c s)))"

definition build_request_with_messages ::
    "'w LoopConfig \<Rightarrow> 'w Tool list \<Rightarrow> string \<Rightarrow> ThinkingLevel \<Rightarrow> Message list \<Rightarrow> ProviderRequest" where
  "build_request_with_messages config tools system_prompt thinking msgs =
     \<lparr>req_model = cfg_model config,
      req_context = \<lparr>ctx_system_prompt = system_prompt,
                     ctx_messages = cfg_convert_to_llm config msgs,
                     ctx_tools = tool_specs tools\<rparr>,
      req_thinking_level = thinking,
      req_session_id = None\<rparr>"

section \<open>Closing a turn (step.rs)\<close>

datatype LoopStep = Break bool | StepContinue nat

text \<open>Each message is followed by a drain; \<open>arrivals\<close> gives what arrived before each.\<close>

fun append_initial_messages ::
    "Message list \<Rightarrow> AgentCommand list list \<Rightarrow> 'w RunState \<Rightarrow> bool \<times> 'w RunState" where
  "append_initial_messages [] arrivals s = (False, s)"
| "append_initial_messages (msg # msgs) arrivals s =
     (case drain_commands
             (arrive (case arrivals of [] \<Rightarrow> [] | a # _ \<Rightarrow> a) (append_user_message msg s)) of
        (d, s1) \<Rightarrow>
          (let s2 = requeue d s1 in
           if d_aborted d \<or> d_shutdown d then (d_shutdown d, s2)
           else append_initial_messages msgs (tl arrivals) s2))"

definition no_tool_step ::
    "AgentCommand list \<Rightarrow> AssistantMessage \<Rightarrow> 'w RunState \<Rightarrow> LoopStep \<times> 'w RunState" where
  "no_tool_step boundary assistant_msg s0 =
     (case collect_pending (arrive boundary (emit_event (TurnEnd assistant_msg []) s0)) of
        (d, s) \<Rightarrow>
          (let consumed = length (d_steer d) + length (d_followup d) in
           if d_aborted d \<or> d_shutdown d then (Break (d_shutdown d), s)
           else if d_steer d \<noteq> [] then
             (StepContinue consumed,
              append_user_messages (d_steer d)
                (s\<lparr>st_queue := st_queue s @ map FollowUp (d_followup d)\<rparr>))
           else if d_followup d \<noteq> [] then
             (StepContinue consumed, append_user_messages (d_followup d) s)
           else (Break False, s)))"

definition plugin_stop :: "'w LoopConfig \<Rightarrow> 'w RunState \<Rightarrow> bool \<times> 'w RunState" where
  "plugin_stop config s =
     (case cfg_hooks config of
        None \<Rightarrow> (False, s)
      | Some hooks \<Rightarrow>
          (case hk_should_stop_after_turn hooks (hook_context_new (st_transcript s)) (st_world s) of
             (r, w) \<Rightarrow> (r = Some True, s\<lparr>st_world := w\<rparr>)))"

definition closure_stop ::
    "'w LoopConfig \<Rightarrow> AssistantMessage \<Rightarrow> ToolResultMessage list \<Rightarrow> bool" where
  "closure_stop config a trs =
     (case cfg_should_stop_after_turn config of None \<Rightarrow> False | Some hook \<Rightarrow> hook a trs)"

definition plugin_prepare ::
    "'w LoopConfig \<Rightarrow> AssistantMessage \<Rightarrow> ToolResultMessage list \<Rightarrow> 'w RunState \<Rightarrow> 'w RunState" where
  "plugin_prepare config a trs s =
     (case cfg_hooks config of
        None \<Rightarrow> s
      | Some hooks \<Rightarrow>
          (case hk_prepare_next_turn hooks (hook_context_new (st_transcript s)) a trs (st_world s) of
             (Inr msgs, w) \<Rightarrow> append_user_messages msgs (s\<lparr>st_world := w\<rparr>)
           | (Inl _, w) \<Rightarrow> s\<lparr>st_world := w\<rparr>))"

definition closure_prepare ::
    "'w LoopConfig \<Rightarrow> AssistantMessage \<Rightarrow> ToolResultMessage list \<Rightarrow> 'w RunState \<Rightarrow> 'w RunState" where
  "closure_prepare config a trs s =
     (case cfg_prepare_next_turn config of
        None \<Rightarrow> s
      | Some hook \<Rightarrow> append_user_messages (hook a trs) s)"

definition close_tool_turn ::
    "'w LoopConfig \<Rightarrow> AgentCommand list \<Rightarrow> AssistantMessage \<Rightarrow> ToolResultMessage list \<Rightarrow> 'w RunState
       \<Rightarrow> LoopStep \<times> 'w RunState" where
  "close_tool_turn config boundary a trs s0 =
     (case plugin_stop config s0 of
        (stop, s1) \<Rightarrow>
          if stop \<or> closure_stop config a trs then (Break False, arrive boundary s1)
          else
            (case drain_commands
                    (arrive boundary (closure_prepare config a trs (plugin_prepare config a trs s1))) of
               (d, s2) \<Rightarrow>
                 if d_aborted d \<or> d_shutdown d then (Break (d_shutdown d), s2)
                 else (StepContinue 0, requeue d s2)))"

definition tool_step ::
    "json_parser \<Rightarrow> 'w LoopConfig \<Rightarrow> 'w Tool list \<Rightarrow> turn_env \<Rightarrow> TurnResult \<Rightarrow> 'w RunState
       \<Rightarrow> (LoopStep \<times> 'w RunState) option" where
  "tool_step parse config tools env turn s =
     (let a = tu_assistant_message turn in
      case execute_tool_calls parse config tools (st_transcript s) (tu_tool_calls turn)
             (am_stop_reason a) (st_signal s \<or> en_tools_cancelled env) (en_schedule env) (st_world s) of
        None \<Rightarrow> None
      | Some (events, w, trs, _) \<Rightarrow>
          (let s1 = s\<lparr>st_events := st_events s @ events, st_world := w,
                      st_transcript := st_transcript s @ map ToolResult trs\<rparr>
           in Some (close_tool_turn config (en_boundary env) a trs
                      (emit_event (TurnEnd a trs) (update_snapshot None s1)))))"

section \<open>The loop (mod.rs)\<close>

record RunOutcome =
  ro_shutdown :: bool
  ro_consumed :: nat

definition push_assistant_message :: "TurnResult \<Rightarrow> 'w RunState \<Rightarrow> 'w RunState" where
  "push_assistant_message turn s =
     (let a = tu_assistant_message turn in
      update_snapshot (am_error_message a) (push_message (Assistant a) s))"

text \<open>
  One pass of the loop body.  \<open>Err\<close> does not occur; \<open>Panic\<close> is the backoff's overflow.
\<close>

definition run_turn ::
    "show_params \<Rightarrow> json_parser \<Rightarrow> 'w LoopConfig \<Rightarrow> 'w Tool list \<Rightarrow> string \<Rightarrow> ThinkingLevel
       \<Rightarrow> turn_env \<Rightarrow> 'w RunState \<Rightarrow> (unit, LoopStep \<times> 'w RunState) outcome option" where
  "run_turn show_params parse config tools system_prompt thinking env s0 =
     (case prepare_request_messages show_params config tools system_prompt
             (st_signal s0 \<or> en_prepare_cancelled env) (emit_event TurnStart s0) of
        None \<Rightarrow> None
      | Some (Inl (), s1) \<Rightarrow>
          Some (Ok (Break False, send_aborted_turn_end s1))
      | Some (Inr msgs, s1) \<Rightarrow>
          (let request = build_request_with_messages config tools system_prompt thinking msgs in
           case stream_turn config request (en_attempts env) (en_late_cancelled env) s1 of
             None \<Rightarrow> None
           | Some Panic \<Rightarrow> Some Panic
           | Some (Err e) \<Rightarrow> Some (Err e)
           | Some (Ok (turn, s2)) \<Rightarrow>
               (let s3 = push_assistant_message turn s2 in
                if tu_aborted turn then
                  Some (Ok (Break False, emit_event (TurnEnd (tu_assistant_message turn) []) s3))
                else if tu_tool_calls turn = [] then
                  Some (Ok (no_tool_step (en_boundary env) (tu_assistant_message turn) s3))
                else
                  map_option Ok (tool_step parse config tools env turn s3))))"

fun run_loop ::
    "show_params \<Rightarrow> json_parser \<Rightarrow> 'w LoopConfig \<Rightarrow> 'w Tool list \<Rightarrow> string \<Rightarrow> ThinkingLevel
       \<Rightarrow> turn_env list \<Rightarrow> nat \<Rightarrow> 'w RunState
       \<Rightarrow> (unit, RunOutcome \<times> 'w RunState) outcome option" where
  "run_loop show_params parse config tools system_prompt thinking [] consumed s = None"
| "run_loop show_params parse config tools system_prompt thinking (env # envs) consumed s =
     (case run_turn show_params parse config tools system_prompt thinking env s of
        None \<Rightarrow> None
      | Some Panic \<Rightarrow> Some Panic
      | Some (Err e) \<Rightarrow> Some (Err e)
      | Some (Ok (Break shutdown, s')) \<Rightarrow>
          Some (Ok (\<lparr>ro_shutdown = shutdown, ro_consumed = consumed\<rparr>, s'))
      | Some (Ok (StepContinue c, s')) \<Rightarrow>
          run_loop show_params parse config tools system_prompt thinking envs (consumed + c) s')"

text \<open>
  A run starts with a fresh token, set already when the shutdown token is.  \<open>arrivals\<close> is
  what arrives while the initial messages are appended.
\<close>

definition run_agent_loop ::
    "show_params \<Rightarrow> json_parser \<Rightarrow> 'w LoopConfig \<Rightarrow> 'w Tool list \<Rightarrow> string \<Rightarrow> ThinkingLevel
       \<Rightarrow> bool \<Rightarrow> AgentCommand list list \<Rightarrow> turn_env list \<Rightarrow> Message list \<Rightarrow> 'w RunState
       \<Rightarrow> (unit, RunOutcome \<times> 'w RunState) outcome option" where
  "run_agent_loop show_params parse config tools system_prompt thinking shut arrivals envs initial s0 =
     (case append_initial_messages initial arrivals (s0\<lparr>st_signal := shut\<rparr>) of
        (shutdown, s1) \<Rightarrow>
          (let s2 = emit_event AgentStart s1;
               finish = (\<lambda>(outcome, s). (outcome, emit_event (AgentEnd (st_transcript s)) s))
           in if shutdown then Some (Ok (finish (\<lparr>ro_shutdown = True, ro_consumed = 0\<rparr>, s2)))
              else
                (case run_loop show_params parse config tools system_prompt thinking envs 0 s2 of
                   None \<Rightarrow> None
                 | Some Panic \<Rightarrow> Some Panic
                 | Some (Err e) \<Rightarrow> Some (Err e)
                 | Some (Ok r) \<Rightarrow> Some (Ok (finish r)))))"

end
