(* ===== verification/Run_Facts.thy ===== *)
theory Run_Facts
  imports Run_Loop
begin

text \<open>
  What a run keeps: tool calls and their results stay together in the transcript and in every
  request, the log that recorders write agrees with the transcript, the snapshot shows the
  transcript, and commands are neither lost nor counted wrongly.  Each invariant is proved
  for a turn and carried along the loop by one induction.
\<close>

section \<open>Calls and their results\<close>

text \<open>
  \<open>owed ids ms\<close> reads \<open>ms\<close> while the calls \<open>ids\<close> wait for their results: a result answers the
  first waiting call, and no other message may come before all are answered.  The value is
  the calls that wait at the end.
\<close>

fun owed :: "string list \<Rightarrow> Message list \<Rightarrow> string list option" where
  "owed ids [] = Some ids"
| "owed ids (User u # ms) = (if ids = [] then owed [] ms else None)"
| "owed ids (Assistant a # ms) =
     (if ids = [] then owed (map tc_id (extract_tool_calls a)) ms else None)"
| "owed ids (ToolResult r # ms) =
     (case ids of [] \<Rightarrow> None | i # rest \<Rightarrow> if trm_tool_call_id r = i then owed rest ms else None)"

definition paired :: "Message list \<Rightarrow> bool" where
  "paired ms = (owed [] ms = Some [])"

lemma owed_append: "owed ids (xs @ ys) = Option.bind (owed ids xs) (\<lambda>rest. owed rest ys)"
  by (induction ids xs rule: owed.induct) (auto split: list.split)

lemma paired_Nil [simp]: "paired []"
  by (simp add: paired_def)

lemma owed_user: "is_user m \<Longrightarrow> owed ids (m # ms) = (if ids = [] then owed [] ms else None)"
  by (cases m) auto

lemma owed_users: "list_all is_user us \<Longrightarrow> owed [] us = Some []"
  by (induction us) (auto simp: owed_user)

lemma paired_append_users: "paired ms \<Longrightarrow> list_all is_user us \<Longrightarrow> paired (ms @ us)"
  by (simp add: paired_def owed_append owed_users)

lemma paired_user_Cons: "is_user m \<Longrightarrow> paired (m # ms) = paired ms"
  by (simp add: paired_def owed_user)

lemma owed_results: "map trm_tool_call_id trs = ids \<Longrightarrow> owed ids (map ToolResult trs) = Some []"
  by (induction trs arbitrary: ids) auto

lemma paired_turn:
  "paired ms \<Longrightarrow> map trm_tool_call_id trs = map tc_id (extract_tool_calls a)
   \<Longrightarrow> paired (ms @ Assistant a # map ToolResult trs)"
  by (simp add: paired_def owed_append owed_results)

text \<open>A cut at a user message cuts between turns.\<close>

lemma paired_drop:
  assumes "paired ms" and "k = 0 \<or> k < length ms \<and> is_user (ms ! k)"
  shows "paired (drop k ms)"
proof (cases "k = 0")
  case False
  then have "drop k ms = ms ! k # drop (Suc k) ms" and u: "is_user (ms ! k)"
    using assms(2) by (auto simp: Cons_nth_drop_Suc)
  moreover obtain rest where "owed rest (drop k ms) = Some []"
    using assms(1) owed_append [of "[]" "take k ms" "drop k ms"]
    by (cases "owed [] (take k ms)") (auto simp: paired_def)
  ultimately show ?thesis by (auto simp: paired_def owed_user split: if_splits)
qed (use assms in simp)

section \<open>Preparing a request\<close>

definition user_cut :: "Message list \<Rightarrow> Message list \<Rightarrow> bool" where
  "user_cut ms xs = (\<exists>k. xs = drop k ms \<and> (k = 0 \<or> k < length ms \<and> is_user (ms ! k)))"

lemma user_cut_refl: "user_cut ms ms"
  unfolding user_cut_def by (rule exI [of _ 0]) simp

lemma user_cut_trans:
  assumes "user_cut ms xs" and "user_cut xs ys"
  shows "user_cut ms ys"
proof -
  obtain k j where "xs = drop k ms" "k = 0 \<or> k < length ms \<and> is_user (ms ! k)"
    and "ys = drop j xs" "j = 0 \<or> j < length xs \<and> is_user (xs ! j)"
    using assms unfolding user_cut_def by blast
  then show ?thesis
    unfolding user_cut_def by (intro exI [of _ "k + j"]) (auto simp: add.commute)
qed

lemma user_cut_truncate: "user_cut ms (truncate_to_budget_with_overhead ms mx fo)"
  using truncate_cut [of ms mx fo] by (simp add: user_cut_def)

lemma paired_user_cut: "paired ms \<Longrightarrow> user_cut ms xs \<Longrightarrow> paired xs"
  by (auto simp: user_cut_def intro: paired_drop)

text \<open>The messages of a request are a cut of the transcript as it is after the preparation.\<close>

definition compacted :: "'w RunState \<Rightarrow> 'w RunState \<Rightarrow> CompactionCommit \<Rightarrow> bool" where
  "compacted s s' c =
     (cc_keep_from c < length (st_transcript s) \<and> is_user (st_transcript s ! cc_keep_from c)
      \<and> s' = commit_compaction c s)"

lemma plan_context_cut:
  assumes "plan_context transcript policy compactor = Some (Inr p)"
  shows "case pc_commit p of
      None \<Rightarrow> user_cut transcript (pc_request_messages p)
    | Some c \<Rightarrow> cc_keep_from c < length transcript \<and> is_user (transcript ! cc_keep_from c)
        \<and> pc_request_messages p = user_text (cc_summary c) # drop (cc_keep_from c) transcript"
  using assms user_cut_truncate [of transcript "cp_budget_tokens policy" 0]
    compute_split_props [of transcript "cp_keep_recent policy"]
  by (auto simp: plan_context_def Let_def truncate_to_budget_def user_cut_refl
      split: if_splits option.splits sum.splits CompactionError.splits)

lemma prepare_spec:
  assumes "prepare_request_messages show_params config tools sp cancelled s = Some (r, s')"
  shows "(s' = s \<or> (\<exists>c. compacted s s' c)) \<and> (r = Inl () \<longrightarrow> s' = s)
    \<and> (\<forall>msgs. r = Inr msgs \<longrightarrow> cfg_transform_context config = None \<longrightarrow> user_cut (st_transcript s') msgs)"
proof (cases "cfg_compactor config")
  case None
  then show ?thesis
    using assms user_cut_truncate
    by (auto simp: prepare_request_messages_def apply_final_projection_def budget_truncate_def Let_def)
next
  case (Some compactor)
  have cut: "user_cut ms (apply_final_projection show_params config tools sp cancelled ms)"
    if "cfg_transform_context config = None" for ms
    using that user_cut_truncate by (simp add: apply_final_projection_def budget_truncate_def)
  show ?thesis
  proof (cases "plan_context (st_transcript s) (cfg_compaction config) (compactor (st_world s))")
    case None
    then show ?thesis using Some assms by (simp add: prepare_request_messages_def Let_def)
  next
    case (Some x)
    note plan = Some
    show ?thesis
    proof (cases x)
      case (Inl e)
      then show ?thesis
        using plan \<open>cfg_compactor config = Some compactor\<close> assms cut
        by (cases e) (auto simp: prepare_request_messages_def Let_def)
    next
      case (Inr p)
      have r: "r = Inr (apply_final_projection show_params config tools sp cancelled (pc_request_messages p))"
        and s': "s' = (case pc_commit p of None \<Rightarrow> s | Some c \<Rightarrow> commit_compaction c s)"
        using Inr plan \<open>cfg_compactor config = Some compactor\<close> assms
        by (auto simp: prepare_request_messages_def Let_def)
      note pc = plan_context_cut [OF plan [unfolded Inr]]
      show ?thesis
      proof (cases "pc_commit p")
        case None
        then show ?thesis using r s' pc cut user_cut_trans by fastforce
      next
        case (Some c)
        have "compacted s s' c"
          using s' Some pc by (simp add: compacted_def)
        moreover have "st_transcript s' = pc_request_messages p"
          using s' Some pc by (simp add: commit_compaction_def Let_def)
        ultimately show ?thesis using r cut [of "pc_request_messages p"] by auto
      qed
    qed
  qed
qed

lemma compacted_frame:
  assumes "compacted s s' c"
  shows "st_transcript s' = user_text (cc_summary c) # drop (cc_keep_from c) (st_transcript s)"
    and "recorded (st_events s') = recorded (st_events s) @ [user_text (cc_summary c)]"
    and "st_queue s' = st_queue s" and "st_rx s' = st_rx s" and "st_sent s' = st_sent s"
    and "st_requests s' = st_requests s" and "st_world s' = st_world s" and "synced s'"
    and "st_signal s' = st_signal s"
  using assms by (auto simp: compacted_def commit_compaction_def Let_def synced_def)

lemma paired_compacted: "compacted s s' c \<Longrightarrow> paired (st_transcript s) \<Longrightarrow> paired (st_transcript s')"
  using compacted_frame(1) [of s s' c] paired_drop [of "st_transcript s" "cc_keep_from c"]
  by (auto simp: compacted_def paired_user_Cons)

section \<open>Commands: where they come from and how they are counted\<close>

fun user_command :: "AgentCommand \<Rightarrow> bool" where
  "user_command (Prompt ms) = list_all is_user ms"
| "user_command (Steer m) = is_user m"
| "user_command (FollowUp m) = is_user m"
| "user_command _ = True"

text \<open>Every pending command is one that was sent.\<close>

definition known :: "'w RunState \<Rightarrow> bool" where
  "known s = (set (pending s) \<subseteq> set (st_sent s))"

definition calm :: "AgentCommand list \<Rightarrow> bool" where
  "calm cmds = list_all (\<lambda>c. \<not> is_control c) cmds"

lemma calm_simps [simp]:
  "calm []" "calm (xs @ ys) = (calm xs \<and> calm ys)" "calm (c # cs) = (\<not> is_control c \<and> calm cs)"
  by (simp_all add: calm_def)

lemma calm_no_abort: "calm cmds \<Longrightarrow> Abort \<notin> set cmds \<and> Shutdown \<notin> set cmds"
  by (auto simp: calm_def list_all_iff)

text \<open>
  From \<open>s\<close> to \<open>s'\<close> each steering message or follow-up that was pending or arrived is still
  pending or counted in \<open>n\<close>.
\<close>

definition balanced :: "nat \<Rightarrow> 'w RunState \<Rightarrow> 'w RunState \<Rightarrow> bool" where
  "balanced n s s' =
     (n + injected (pending s') + injected (st_sent s) = injected (pending s) + injected (st_sent s'))"

lemma balanced_trans: "balanced m s s' \<Longrightarrow> balanced n s' s'' \<Longrightarrow> balanced (m + n) s s''"
  by (simp add: balanced_def)

lemma kept_balanced: "kept s s' \<Longrightarrow> balanced 0 s s'"
  unfolding kept_def balanced_def by (auto simp flip: length_injected)

lemma collect_pending_spec:
  "collect_pending s =
     (\<lparr>d_aborted = Abort \<in> set (st_rx s), d_shutdown = Shutdown \<in> set (st_rx s),
       d_steer = List.map_filter steer_of (st_rx s) @ List.map_filter steer_of (st_queue s),
       d_followup = List.map_filter followup_of (st_rx s) @ List.map_filter followup_of (st_queue s)\<rparr>,
      s\<lparr>st_rx := [],
        st_queue := filter (\<lambda>c. \<not> is_injected c) (st_queue s) @ filter plain (st_rx s),
        st_signal := st_signal s \<or> Abort \<in> set (st_rx s) \<or> Shutdown \<in> set (st_rx s)\<rparr>)"
  by (simp add: collect_pending_def drain_commands_spec collect_loop_spec map_filter_plain)

lemma calm_subset: "calm ys \<Longrightarrow> set xs \<subseteq> set ys \<Longrightarrow> calm xs"
  by (auto simp: calm_def list_all_iff)

definition no_followup :: "AgentCommand list \<Rightarrow> bool" where
  "no_followup cmds = (List.map_filter followup_of cmds = [])"

lemma no_followup_iff: "no_followup cmds \<longleftrightarrow> (\<forall>m. FollowUp m \<notin> set cmds)"
  unfolding no_followup_def mem_followup [symmetric] by (cases "List.map_filter followup_of cmds") auto

lemma no_followup_append [simp]: "no_followup (xs @ ys) = (no_followup xs \<and> no_followup ys)"
  by (simp add: no_followup_def)

lemma no_followup_subset: "no_followup ys \<Longrightarrow> set xs \<subseteq> set ys \<Longrightarrow> no_followup xs"
  by (auto simp: no_followup_iff)

text \<open>What a step adds to the transcript and to the recorded log, with the rest of its frame.\<close>

definition added_by :: "'w RunState \<Rightarrow> 'w RunState \<Rightarrow> Message list \<Rightarrow> Message list \<Rightarrow> bool" where
  "added_by s s' added saved =
     (st_transcript s' = st_transcript s @ added
      \<and> recorded (st_events s') = recorded (st_events s) @ saved
      \<and> (synced s \<longrightarrow> synced s'))"

lemma added_by_trans:
  "added_by s s' a b \<Longrightarrow> added_by s' s'' c d \<Longrightarrow> added_by s s'' (a @ c) (b @ d)"
  by (simp add: added_by_def)

text \<open>Commands that a step takes from those that were pending or arrived.\<close>

definition takes :: "AgentCommand list \<Rightarrow> 'w RunState \<Rightarrow> 'w RunState \<Rightarrow> bool" where
  "takes b s s' =
     (st_sent s' = st_sent s @ b
      \<and> set (pending s') \<subseteq> set (pending s @ b)
      \<and> filter plain (pending s') = filter plain (pending s @ b))"

lemma kept_takes: "kept s s' \<Longrightarrow> \<exists>b. takes b s s'"
  unfolding kept_def takes_def by blast

lemma takes_same: "st_sent s' = st_sent s \<Longrightarrow> pending s' = pending s \<Longrightarrow> takes [] s s'"
  by (simp add: takes_def)

lemma takes_trans: "takes b s s' \<Longrightarrow> takes c s' s'' \<Longrightarrow> takes (b @ c) s s''"
  unfolding takes_def by (simp add: subset_iff) blast

lemma takes_known: "takes b s s' \<Longrightarrow> known s \<Longrightarrow> known s'"
  by (auto simp: takes_def known_def)

lemma added_by_users:
  "added_by s (append_user_messages ms s) ms ms"
  by (simp add: added_by_def synced_append_user_messages)

section \<open>Closing a turn\<close>

lemma injected_filtered [simp]:
  "injected (filter (\<lambda>c. \<not> is_injected c) xs) = 0" "injected (filter plain xs) = 0"
  by (simp_all add: injected_def filter_empty_conv)

lemma filter_plain_not_injected [simp]:
  "filter (\<lambda>c. \<not> is_injected c \<and> plain c) xs = filter plain xs"
  by (induction xs) auto

text \<open>The steering messages and follow-ups a boundary finds, and the state without them.\<close>

definition boundary_steer :: "AgentCommand list \<Rightarrow> 'w RunState \<Rightarrow> Message list" where
  "boundary_steer b s = List.map_filter steer_of (st_rx s @ b) @ List.map_filter steer_of (st_queue s)"

definition boundary_follow :: "AgentCommand list \<Rightarrow> 'w RunState \<Rightarrow> Message list" where
  "boundary_follow b s = List.map_filter followup_of (st_rx s @ b) @ List.map_filter followup_of (st_queue s)"

definition boundary_queue :: "AgentCommand list \<Rightarrow> 'w RunState \<Rightarrow> AgentCommand list" where
  "boundary_queue b s = filter (\<lambda>c. \<not> is_injected c) (st_queue s) @ filter plain (st_rx s @ b)"

definition boundary_state :: "AgentCommand list \<Rightarrow> AssistantMessage \<Rightarrow> 'w RunState \<Rightarrow> 'w RunState" where
  "boundary_state b a s = (arrive b (emit_event (TurnEnd a []) s))
    \<lparr>st_rx := [], st_queue := boundary_queue b s,
     st_signal := st_signal s \<or> Abort \<in> set (st_rx s @ b) \<or> Shutdown \<in> set (st_rx s @ b)\<rparr>"

lemma boundary_state_frame [simp]:
  "st_transcript (boundary_state b a s) = st_transcript s"
  "recorded (st_events (boundary_state b a s)) = recorded (st_events s)"
  "st_sent (boundary_state b a s) = st_sent s @ b" "st_rx (boundary_state b a s) = []"
  "st_queue (boundary_state b a s) = boundary_queue b s"
  "st_requests (boundary_state b a s) = st_requests s" "st_snapshot (boundary_state b a s) = st_snapshot s"
  by (simp_all add: boundary_state_def)

lemma no_tool_step_eq:
  "no_tool_step b a s =
      (if Abort \<in> set (st_rx s @ b) \<or> Shutdown \<in> set (st_rx s @ b)
       then (Break (Shutdown \<in> set (st_rx s @ b)), boundary_state b a s)
       else if boundary_steer b s \<noteq> [] then
         (StepContinue (length (boundary_steer b s) + length (boundary_follow b s)),
          append_user_messages (boundary_steer b s)
            ((boundary_state b a s)\<lparr>st_queue := boundary_queue b s @ map FollowUp (boundary_follow b s)\<rparr>))
       else if boundary_follow b s \<noteq> [] then
         (StepContinue (length (boundary_steer b s) + length (boundary_follow b s)),
          append_user_messages (boundary_follow b s) (boundary_state b a s))
       else (Break False, boundary_state b a s))"
  by (simp add: no_tool_step_def collect_pending_spec boundary_state_def boundary_queue_def
      boundary_steer_def boundary_follow_def Let_def)

lemma no_tool_step_cases [consumes 1, case_names stop steer follow idle]:
  assumes "no_tool_step b a s = (step, s')"
  obtains "step = Break (Shutdown \<in> set (st_rx s @ b))" "s' = boundary_state b a s"
      "Abort \<in> set (st_rx s @ b) \<or> Shutdown \<in> set (st_rx s @ b)"
    | "step = StepContinue (length (boundary_steer b s) + length (boundary_follow b s))"
      "s' = append_user_messages (boundary_steer b s)
         ((boundary_state b a s)\<lparr>st_queue := boundary_queue b s @ map FollowUp (boundary_follow b s)\<rparr>)"
      "boundary_steer b s \<noteq> []"
    | "step = StepContinue (length (boundary_steer b s) + length (boundary_follow b s))" "boundary_steer b s = []"
      "s' = append_user_messages (boundary_follow b s) (boundary_state b a s)"
    | "step = Break False" "s' = boundary_state b a s" "boundary_steer b s = []" "boundary_follow b s = []"
  using assms unfolding no_tool_step_eq by (auto split: if_splits)

text \<open>How the parts of a boundary relate to the pending commands.\<close>

lemma boundary_parts:
  "injected (pending s @ b) = length (boundary_steer b s) + length (boundary_follow b s)"
  "filter plain (boundary_queue b s) = filter plain (pending s @ b)"
  "injected (boundary_queue b s) = 0" "set (boundary_queue b s) \<subseteq> set (pending s @ b)"
  "set (boundary_steer b s) = {m. Steer m \<in> set (pending s @ b)}"
  "set (boundary_follow b s) = {m. FollowUp m \<in> set (pending s @ b)}"
proof -
  show "injected (pending s @ b) = length (boundary_steer b s) + length (boundary_follow b s)"
    using length_injected [of "st_rx s @ b"] length_injected [of "st_queue s"]
    by (simp add: pending_def boundary_steer_def boundary_follow_def)
qed (auto simp: boundary_queue_def boundary_steer_def boundary_follow_def pending_def)

lemma no_tool_step_spec:
  assumes "no_tool_step b a s = (step, s')"
  shows "(\<exists>us. added_by s s' us us
            \<and> (\<forall>m \<in> set us. Steer m \<in> set (pending s @ b) \<or> FollowUp m \<in> set (pending s @ b)))"
    and "takes b s s'" and "st_requests s' = st_requests s"
    and "calm (pending s @ b) \<Longrightarrow> no_followup (pending s @ b)
      \<Longrightarrow> balanced (case step of Break _ \<Rightarrow> 0 | StepContinue c \<Rightarrow> c) s s'"
proof -
  let ?s1 = "boundary_state b a s"
  have sync: "synced s \<Longrightarrow> synced ?s1" "synced s \<Longrightarrow> synced (?s1\<lparr>st_queue := q\<rparr>)" for q
    by (simp_all add: synced_def)
  show "\<exists>us. added_by s s' us us
            \<and> (\<forall>m \<in> set us. Steer m \<in> set (pending s @ b) \<or> FollowUp m \<in> set (pending s @ b))"
    using assms
  proof (cases rule: no_tool_step_cases)
    case steer
    then show ?thesis
      using sync boundary_parts(5) [of b s]
      by (intro exI [of _ "boundary_steer b s"]) (auto simp: added_by_def synced_append_user_messages)
  next
    case follow
    then show ?thesis
      using sync boundary_parts(6) [of b s]
      by (intro exI [of _ "boundary_follow b s"]) (auto simp: added_by_def synced_append_user_messages)
  qed (use sync in \<open>auto simp: added_by_def intro: exI [of _ "[]"]\<close>)
  show "takes b s s'"
    unfolding takes_def
    using assms by (cases rule: no_tool_step_cases) (use boundary_parts(2,4,6) [of b s] in \<open>auto simp: pending_def\<close>)
  show "st_requests s' = st_requests s"
    using assms by (cases rule: no_tool_step_cases) simp_all
  show "balanced (case step of Break _ \<Rightarrow> 0 | StepContinue c \<Rightarrow> c) s s'"
    if "calm (pending s @ b)" "no_followup (pending s @ b)"
  proof -
    have "boundary_follow b s = []"
      using that(2) boundary_parts(6) [of b s] by (auto simp: no_followup_iff)
    moreover have "Abort \<notin> set (st_rx s @ b) \<and> Shutdown \<notin> set (st_rx s @ b)"
      using calm_no_abort [OF that(1)] by (simp add: pending_def)
    ultimately show ?thesis
      using boundary_parts(1) [of s b] boundary_parts(3) [of b s] unfolding balanced_def
      by (cases rule: no_tool_step_cases [OF assms]) (auto simp: pending_def)
  qed
qed

text \<open>Hooks that only inject user messages.\<close>

definition user_hooks :: "'w LoopConfig \<Rightarrow> bool" where
  "user_hooks config =
     ((\<forall>hooks ctx a trs w msgs w'. cfg_hooks config = Some hooks
         \<longrightarrow> hk_prepare_next_turn hooks ctx a trs w = (Inr msgs, w') \<longrightarrow> list_all is_user msgs)
      \<and> (\<forall>hook a trs. cfg_prepare_next_turn config = Some hook \<longrightarrow> list_all is_user (hook a trs)))"

lemma plugin_stop_frame:
  assumes "plugin_stop config s = (stop, s')"
  shows "\<exists>w. s' = s\<lparr>st_world := w\<rparr>"
proof -
  have "\<exists>w. s = s\<lparr>st_world := w\<rparr>" by (rule exI [of _ "st_world s"]) simp
  then show ?thesis
    using assms by (auto simp: plugin_stop_def split: option.splits prod.splits)
qed

text \<open>The hooks append messages and change the world, nothing else.\<close>

definition injects :: "'w RunState \<Rightarrow> 'w RunState \<Rightarrow> Message list \<Rightarrow> bool" where
  "injects s s' us = (\<exists>w. s' = append_user_messages us (s\<lparr>st_world := w\<rparr>))"

lemma injects_none: "injects s (s\<lparr>st_world := w\<rparr>) []"
  unfolding injects_def by auto

lemma append_user_messages_append:
  "append_user_messages (us @ vs) s = append_user_messages vs (append_user_messages us s)"
  by (simp add: append_user_messages_def)

lemma append_user_message_world:
  "(append_user_message m s)\<lparr>st_world := w\<rparr> = append_user_message m (s\<lparr>st_world := w\<rparr>)"
  by (cases s) (simp add: append_user_message_def emit_event_def update_snapshot_def push_message_def)

lemma append_user_messages_world:
  "(append_user_messages us s)\<lparr>st_world := w\<rparr> = append_user_messages us (s\<lparr>st_world := w\<rparr>)"
  by (induction us arbitrary: s) (simp_all add: append_user_message_world)

lemma injects_trans: "injects s s' us \<Longrightarrow> injects s' s'' vs \<Longrightarrow> injects s s'' (us @ vs)"
  unfolding injects_def by (auto simp: append_user_messages_append append_user_messages_world)

lemma injects_refl: "injects s s []"
  using injects_none [of s "st_world s"] by simp

lemma plugin_prepare_injects:
  "\<exists>us. injects s (plugin_prepare config a trs s) us \<and> (user_hooks config \<longrightarrow> list_all is_user us)"
proof (cases "cfg_hooks config")
  case None
  then show ?thesis
    using injects_refl [of s] by (intro exI [of _ "[]"]) (simp add: plugin_prepare_def)
next
  case (Some hooks)
  obtain r w where h: "hk_prepare_next_turn hooks (hook_context_new (st_transcript s)) a trs (st_world s) = (r, w)"
    by (cases "hk_prepare_next_turn hooks (hook_context_new (st_transcript s)) a trs (st_world s)")
  show ?thesis
  proof (cases r)
    case (Inl e)
    then show ?thesis
      using Some h injects_none [of s w] by (auto simp: plugin_prepare_def intro!: exI [of _ "[]"])
  next
    case (Inr msgs)
    have "user_hooks config \<Longrightarrow> list_all is_user msgs"
      using Some h Inr unfolding user_hooks_def by blast
    then show ?thesis
      using Some h Inr by (intro exI [of _ msgs]) (auto simp: plugin_prepare_def injects_def)
  qed
qed

lemma closure_prepare_injects:
  "\<exists>us. injects s (closure_prepare config a trs s) us \<and> (user_hooks config \<longrightarrow> list_all is_user us)"
proof (cases "cfg_prepare_next_turn config")
  case None
  then show ?thesis
    using injects_refl [of s] by (intro exI [of _ "[]"]) (simp add: closure_prepare_def)
next
  case (Some hook)
  have "injects s (append_user_messages (hook a trs) s) (hook a trs)"
    unfolding injects_def by (rule exI [of _ "st_world s"]) simp
  with Some show ?thesis
    by (intro exI [of _ "hook a trs"]) (auto simp: closure_prepare_def user_hooks_def)
qed

lemma injects_frame:
  assumes "injects s s' us"
  shows "added_by s s' us us" "pending s' = pending s" "st_sent s' = st_sent s"
    "st_requests s' = st_requests s" "st_rx s' = st_rx s" "st_queue s' = st_queue s"
proof -
  obtain w where w: "s' = append_user_messages us (s\<lparr>st_world := w\<rparr>)"
    using assms by (auto simp: injects_def)
  show "added_by s s' us us"
    using added_by_users [of "s\<lparr>st_world := w\<rparr>" us] by (simp add: w added_by_def synced_def)
qed (use assms in \<open>auto simp: injects_def pending_def\<close>)

lemma close_tool_turn_spec:
  assumes "close_tool_turn config b a trs s = (step, s')"
  shows "\<exists>us. added_by s s' us us \<and> (user_hooks config \<longrightarrow> list_all is_user us)"
    and "takes b s s'" and "st_requests s' = st_requests s"
    and "calm (pending s @ b) \<Longrightarrow> balanced (case step of Break _ \<Rightarrow> 0 | StepContinue c \<Rightarrow> c) s s'"
proof -
  obtain stop s1 where p: "plugin_stop config s = (stop, s1)" by (cases "plugin_stop config s")
  then obtain w where s1: "s1 = s\<lparr>st_world := w\<rparr>" using plugin_stop_frame by blast
  let ?s2 = "plugin_prepare config a trs s1" let ?s3 = "closure_prepare config a trs ?s2"
  obtain us vs where us: "injects s1 ?s2 us" "user_hooks config \<longrightarrow> list_all is_user us"
    and vs: "injects ?s2 ?s3 vs" "user_hooks config \<longrightarrow> list_all is_user vs"
    using plugin_prepare_injects closure_prepare_injects by metis
  have i: "injects s ?s3 (us @ vs)"
    using injects_trans [OF injects_none [of s w, folded s1] injects_trans [OF us(1) vs(1)]] by simp
  note f = injects_frame [OF i]
  have run: "close_tool_turn config b a trs s =
      (if stop \<or> closure_stop config a trs then (Break False, arrive b s1)
       else case drain_commands (arrive b ?s3) of
              (d, s4) \<Rightarrow> if d_aborted d \<or> d_shutdown d then (Break (d_shutdown d), s4)
                        else (StepContinue 0, requeue d s4))"
    by (simp add: close_tool_turn_def p)
  consider (stop) "step = Break False" "s' = arrive b s1"
    | (abort) "s' = snd (drain_commands (arrive b ?s3))" "\<not> calm (pending s @ b)"
    | (go) "step = StepContinue 0"
        "s' = requeue (fst (drain_commands (arrive b ?s3))) (snd (drain_commands (arrive b ?s3)))"
    using assms f calm_no_abort [of "pending s @ b"] unfolding run
    by (auto simp: drain_commands_spec pending_def split: if_splits)
  note cases = this
  show "\<exists>us. added_by s s' us us \<and> (user_hooks config \<longrightarrow> list_all is_user us)"
  proof (cases rule: cases)
    case stop
    then show ?thesis by (intro exI [of _ "[]"]) (simp add: added_by_def synced_def s1)
  qed (use f us(2) vs(2) in
      \<open>auto simp: added_by_def synced_def drain_commands_spec intro!: exI [of _ "us @ vs"]\<close>)
  show "takes b s s'"
    unfolding takes_def
    by (cases rule: cases)
      (use f in \<open>auto simp: s1 pending_def drain_commands_spec mem_steer mem_followup\<close>)
  show "st_requests s' = st_requests s"
    by (cases rule: cases) (use f in \<open>simp_all add: s1 drain_commands_spec\<close>)
  show "balanced (case step of Break _ \<Rightarrow> 0 | StepContinue c \<Rightarrow> c) s s'" if "calm (pending s @ b)"
  proof (cases rule: cases)
    case stop
    then show ?thesis by (simp add: balanced_def s1 pending_def)
  next
    case go
    have "balanced 0 (arrive b ?s3) s'"
      unfolding go by (rule kept_balanced [OF kept_drain])
    then show ?thesis using go(1) f by (simp add: balanced_def pending_def)
  qed (use that in simp)
qed

section \<open>Tools\<close>

lemma own_mem: "e \<in> set elog \<Longrightarrow> snd e \<in> set (own (fst e) elog)"
  by (auto simp: own_def)

lemma tool_event_unrecorded:
  "message_end (start_event tc args) = None" "message_end (update_event tc args r) = None"
  "message_end (end_event tc r') = None"
  by (simp_all add: start_event_def update_event_def end_event_def)

lemma recorded_none: "list_all (\<lambda>e. message_end e = None) es \<Longrightarrow> recorded es = []"
  by (induction es) simp_all

text \<open>Tool execution sends no \<open>MessageEnd\<close>.\<close>

lemma executed_unrecorded:
  assumes "execute_tool_calls parse config tools transcript tcs stop_reason cancelled sch w
     = Some (es, w', msgs, rest)"
  shows "recorded es = []"
proof (cases "stop_reason = Some StopLength \<and> tcs \<noteq> []")
  case True
  have "list_all (\<lambda>e. message_end e = None) (fst (synthesize_truncated_results parse tcs))"
    by (induction tcs) (auto simp: tool_event_unrecorded split: prod.splits)
  then show ?thesis
    using True assms by (auto simp: execute_tool_calls_def recorded_none split: prod.splits)
next
  case False
  obtain ps w1 elog w2 rs r where "prepare_calls parse config tools transcript tcs w = (ps, w1)" and
    e: "execute_prepared sch (cfg_tool_execution config) ps cancelled w1 = Some (elog, w2, rs, r)"
    and es: "es = map snd elog"
    using assms False by (auto simp: execute_tool_calls_def split: option.splits prod.splits)
  have "message_end (snd x) = None" if "x \<in> set elog" for x
  proof -
    have "fst x < length ps" and "bracketed (ps ! fst x) (own (fst x) elog) (rs ! fst x)"
      using execute_prepared_answered [OF e] that by auto
    then show ?thesis
      using own_mem [OF that] by (auto simp: bracketed_def Let_def tool_event_unrecorded)
  qed
  then show ?thesis
    unfolding es by (intro recorded_none) (auto simp: list_all_iff)
qed

lemma tool_step_spec:
  assumes "tool_step parse config tools env turn s = Some (step, s')"
  shows "\<exists>trs us. added_by s s' (map ToolResult trs @ us) us
      \<and> map trm_tool_call_id trs = map tc_id (tu_tool_calls turn)
      \<and> (user_hooks config \<longrightarrow> list_all is_user us)"
    and "takes (en_boundary env) s s'" and "st_requests s' = st_requests s"
    and "calm (pending s @ en_boundary env)
      \<Longrightarrow> balanced (case step of Break _ \<Rightarrow> 0 | StepContinue c \<Rightarrow> c) s s'"
proof -
  obtain es w trs r where
    x: "execute_tool_calls parse config tools (st_transcript s) (tu_tool_calls turn)
          (am_stop_reason (tu_assistant_message turn)) (st_signal s \<or> en_tools_cancelled env)
          (en_schedule env) (st_world s) = Some (es, w, trs, r)"
    using assms by (auto simp: tool_step_def Let_def split: option.splits prod.splits)
  let ?a = "tu_assistant_message turn"
  let ?s1 = "s\<lparr>st_events := st_events s @ es, st_world := w,
                st_transcript := st_transcript s @ map ToolResult trs\<rparr>"
  let ?s2 = "emit_event (TurnEnd ?a trs) (update_snapshot None ?s1)"
  have run: "close_tool_turn config (en_boundary env) ?a trs ?s2 = (step, s')"
    using assms x by (simp add: tool_step_def Let_def)
  note c = close_tool_turn_spec [OF run]
  have a: "added_by s ?s2 (map ToolResult trs) []"
    using executed_unrecorded [OF x] by (simp add: added_by_def synced_def)
  have p: "pending ?s2 = pending s" by (simp add: pending_def)
  obtain us where us: "added_by ?s2 s' us us" "user_hooks config \<longrightarrow> list_all is_user us"
    using c(1) by blast
  show "\<exists>trs us. added_by s s' (map ToolResult trs @ us) us
      \<and> map trm_tool_call_id trs = map tc_id (tu_tool_calls turn)
      \<and> (user_hooks config \<longrightarrow> list_all is_user us)"
    using added_by_trans [OF a us(1)] us(2) executed_ids [OF x] by auto
  show "takes (en_boundary env) s s'" using c(2) p by (simp add: takes_def)
  show "st_requests s' = st_requests s" using c(3) by simp
  show "balanced (case step of Break _ \<Rightarrow> 0 | StepContinue c \<Rightarrow> c) s s'"
    if "calm (pending s @ en_boundary env)"
    using c(4) that p by (simp add: balanced_def)
qed

section \<open>One pass of the loop\<close>

lemma compacted_takes: "compacted s s' c \<Longrightarrow> takes [] s s' \<and> balanced 0 s s'"
  using compacted_frame [of s s' c] by (simp add: takes_def balanced_def pending_def)

lemma run_turn_cases:
  assumes "run_turn show_params parse config tools sp th env s = Some (Ok (step, s'))"
  obtains (cancelled) "step = Break False" "s' = send_aborted_turn_end (emit_event TurnStart s)"
  | (turn) s1 msgs turn s2 where
      "s1 = emit_event TurnStart s \<or> (\<exists>c. compacted (emit_event TurnStart s) s1 c \<and> cfg_compactor config \<noteq> None)"
      "cfg_transform_context config = None \<longrightarrow> user_cut (st_transcript s1) msgs"
      "stream_turn config (build_request_with_messages config tools sp th msgs) (en_attempts env)
         (en_late_cancelled env) s1 = Some (Ok (turn, s2))"
      "(tu_aborted turn \<and> step = Break False
          \<and> s' = emit_event (TurnEnd (tu_assistant_message turn) []) (push_assistant_message turn s2))
       \<or> (\<not> tu_aborted turn \<and> tu_tool_calls turn = []
          \<and> no_tool_step (en_boundary env) (tu_assistant_message turn) (push_assistant_message turn s2) = (step, s'))
       \<or> (\<not> tu_aborted turn
          \<and> tool_step parse config tools env turn (push_assistant_message turn s2) = Some (step, s'))"
proof -
  let ?s0 = "emit_event TurnStart s"
  obtain r s1 where prep: "prepare_request_messages show_params config tools sp
      (st_signal s \<or> en_prepare_cancelled env) ?s0 = Some (r, s1)"
    using assms by (auto simp: run_turn_def split: option.splits)
  note ps = prepare_spec [OF prep]
  have nc: "cfg_compactor config = None \<Longrightarrow> s1 = ?s0"
    using prep by (auto simp: prepare_request_messages_def Let_def)
  show thesis
  proof (cases r)
    case (Inl u)
    then have "r = Inl ()" by simp
    moreover from this have "s1 = ?s0" using ps by blast
    ultimately have "step = Break False \<and> s' = send_aborted_turn_end ?s0"
      using assms prep by (simp add: run_turn_def split: unit.splits)
    then show thesis using cancelled by blast
  next
    case (Inr msgs)
    let ?req = "build_request_with_messages config tools sp th msgs"
    obtain t s2 where t: "stream_turn config ?req (en_attempts env) (en_late_cancelled env) s1 = Some (Ok (t, s2))"
      using assms prep Inr
      by (auto simp: run_turn_def Let_def split: option.splits outcome.splits)
    let ?s3 = "push_assistant_message t s2"
    have tail: "(if tu_aborted t then
          Some (Ok (Break False, emit_event (TurnEnd (tu_assistant_message t) []) ?s3))
        else if tu_tool_calls t = [] then
          Some (Ok (no_tool_step (en_boundary env) (tu_assistant_message t) ?s3))
        else map_option Ok (tool_step parse config tools env t ?s3))
      = Some (Ok (step, s') :: (unit, LoopStep \<times> 'a RunState) outcome)"
      using assms prep Inr t by (simp add: run_turn_def Let_def)
    have before: "s1 = ?s0 \<or> (\<exists>c. compacted ?s0 s1 c \<and> cfg_compactor config \<noteq> None)"
      using ps nc by blast
    have sent: "cfg_transform_context config = None \<longrightarrow> user_cut (st_transcript s1) msgs"
      using ps Inr by blast
    show thesis
      by (rule turn [OF before sent t]) (use tail in \<open>simp split: if_splits\<close>)
  qed
qed

text \<open>The frame of the push that follows a turn.\<close>

lemma push_assistant_frame:
  "st_transcript (push_assistant_message t s) = st_transcript s @ [Assistant (tu_assistant_message t)]"
  "st_queue (push_assistant_message t s) = st_queue s" "st_rx (push_assistant_message t s) = st_rx s"
  "st_events (push_assistant_message t s) = st_events s"
  "st_requests (push_assistant_message t s) = st_requests s"
  "st_sent (push_assistant_message t s) = st_sent s" "st_world (push_assistant_message t s) = st_world s"
  "synced (push_assistant_message t s)"
  by (simp_all add: push_assistant_message_def Let_def synced_def)

text \<open>
  The log a recorder keeps of the messages a run adds: tool results are left out, and so may
  be an assistant message whose turn failed.
\<close>

fun failed :: "Message \<Rightarrow> bool" where
  "failed (Assistant a) = (am_stop_reason a \<in> {Some StopError, Some StopAborted})"
| "failed _ = False"

inductive logged :: "Message list \<Rightarrow> Message list \<Rightarrow> bool" where
  log_nil: "logged [] []"
| log_saved: "logged ms ls \<Longrightarrow> \<not> is_tool_result m \<Longrightarrow> logged (m # ms) (m # ls)"
| log_unsaved: "logged ms ls \<Longrightarrow> is_tool_result m \<or> failed m \<Longrightarrow> logged (m # ms) ls"

lemma logged_append: "logged ms ls \<Longrightarrow> logged ms' ls' \<Longrightarrow> logged (ms @ ms') (ls @ ls')"
  by (induction rule: logged.induct) (auto intro: logged.intros)

lemma logged_results: "logged (map ToolResult trs) []"
  by (induction trs) (auto intro: logged.intros)

lemma logged_users: "list_all is_user us \<Longrightarrow> logged us us"
  by (induction us) (auto intro: logged.intros)

text \<open>
  The turn as seen from its ends: what it sent, what it added to the transcript and to the
  log, and what it took from the channel.
\<close>

definition dangling :: "Message list \<Rightarrow> bool" where
  "dangling ms =
     (\<exists>before a. ms = before @ [Assistant a] \<and> paired before \<and> am_stop_reason a = Some StopAborted)"

definition requests_paired :: "'w RunState \<Rightarrow> bool" where
  "requests_paired s = list_all (\<lambda>q. paired (ctx_messages (req_context q))) (st_requests s)"

abbreviation counted :: "LoopStep \<Rightarrow> nat" where
  "counted step \<equiv> (case step of Break _ \<Rightarrow> 0 | StepContinue c \<Rightarrow> c)"

lemma closing_spec:
  assumes "(\<not> tu_aborted turn \<and> tu_tool_calls turn = []
          \<and> no_tool_step (en_boundary env) (tu_assistant_message turn) s = (step, s'))
       \<or> (\<not> tu_aborted turn \<and> tool_step parse config tools env turn s = Some (step, s'))"
    and "tu_tool_calls turn = extract_tool_calls (tu_assistant_message turn)"
  shows "takes (en_boundary env) s s'" and "st_requests s' = st_requests s"
    and "known s \<Longrightarrow> calm (st_sent s') \<Longrightarrow> no_followup (st_sent s') \<Longrightarrow> balanced (counted step) s s'"
    and "\<exists>trs us. added_by s s' (map ToolResult trs @ us) us
      \<and> map trm_tool_call_id trs = map tc_id (extract_tool_calls (tu_assistant_message turn))
      \<and> (user_hooks config \<and> known s \<and> list_all user_command (st_sent s') \<longrightarrow> list_all is_user us)"
proof -
  have ends: "takes (en_boundary env) s s' \<and> st_requests s' = st_requests s
    \<and> (calm (pending s @ en_boundary env) \<and> no_followup (pending s @ en_boundary env)
         \<longrightarrow> balanced (counted step) s s')"
    using assms(1)
  proof
    assume "\<not> tu_aborted turn \<and> tu_tool_calls turn = []
      \<and> no_tool_step (en_boundary env) (tu_assistant_message turn) s = (step, s')"
    then show ?thesis
      using no_tool_step_spec(2-4) [of "en_boundary env" "tu_assistant_message turn" s step s'] by simp
  next
    assume "\<not> tu_aborted turn \<and> tool_step parse config tools env turn s = Some (step, s')"
    then show ?thesis
      using tool_step_spec(2-4) [of parse config tools env turn s step s'] by simp
  qed
  then show "takes (en_boundary env) s s'" "st_requests s' = st_requests s" by simp_all
  have sub: "known s \<Longrightarrow> set (pending s @ en_boundary env) \<subseteq> set (st_sent s')"
    using ends by (auto simp: takes_def known_def)
  then show "known s \<Longrightarrow> calm (st_sent s') \<Longrightarrow> no_followup (st_sent s') \<Longrightarrow> balanced (counted step) s s'"
    using ends by (simp add: calm_subset no_followup_subset)
  show "\<exists>trs us. added_by s s' (map ToolResult trs @ us) us
      \<and> map trm_tool_call_id trs = map tc_id (extract_tool_calls (tu_assistant_message turn))
      \<and> (user_hooks config \<and> known s \<and> list_all user_command (st_sent s') \<longrightarrow> list_all is_user us)"
    using assms(1)
  proof
    assume n: "\<not> tu_aborted turn \<and> tu_tool_calls turn = []
      \<and> no_tool_step (en_boundary env) (tu_assistant_message turn) s = (step, s')"
    then obtain us where "added_by s s' us us"
      "\<forall>m \<in> set us. Steer m \<in> set (pending s @ en_boundary env) \<or> FollowUp m \<in> set (pending s @ en_boundary env)"
      using no_tool_step_spec(1) [of "en_boundary env" "tu_assistant_message turn" s step s'] by blast
    moreover from this have "list_all is_user us" if "known s" "list_all user_command (st_sent s')"
      using sub [OF that(1)] that(2) unfolding list_all_iff by (metis subsetD user_command.simps(2,3))
    ultimately show ?thesis
      using n assms(2) by (intro exI [of _ "[]"] exI [of _ us]) auto
  next
    assume "\<not> tu_aborted turn \<and> tool_step parse config tools env turn s = Some (step, s')"
    then show ?thesis
      using tool_step_spec(1) [of parse config tools env turn s step s'] assms(2) by auto
  qed
qed

text \<open>The turn: from the state before \<open>TurnStart\<close> to the state in which it is closed.\<close>

lemma turn_middle:
  assumes "s1 = emit_event TurnStart s \<or> (\<exists>c. compacted (emit_event TurnStart s) s1 c \<and> cfg_compactor config \<noteq> None)"
    and "cfg_transform_context config = None \<longrightarrow> user_cut (st_transcript s1) msgs"
    and "stream_turn config (build_request_with_messages config tools sp th msgs) as late s1 = Some (Ok (turn, s2))"
  shows "\<exists>b. takes b s (push_assistant_message turn s2)"
    and "balanced 0 s (push_assistant_message turn s2)"
    and "paired (st_transcript s)
      \<Longrightarrow> \<exists>before. st_transcript (push_assistant_message turn s2) = before @ [Assistant (tu_assistant_message turn)]
            \<and> paired before"
    and "paired (st_transcript s) \<Longrightarrow> requests_paired s \<Longrightarrow> cfg_transform_context config = None
      \<Longrightarrow> cfg_convert_to_llm config = default_convert_to_llm
      \<Longrightarrow> requests_paired (push_assistant_message turn s2)"
    and "cfg_compactor config = None
      \<Longrightarrow> \<exists>saved. added_by s (push_assistant_message turn s2) [Assistant (tu_assistant_message turn)] saved
            \<and> (saved = [Assistant (tu_assistant_message turn)] \<or>
               saved = [] \<and> failed (Assistant (tu_assistant_message turn)))"
proof -
  let ?s3 = "push_assistant_message turn s2" and ?m = "Assistant (tu_assistant_message turn)"
  note st = stream_turn_spec [OF assms(3)]
  have first: "takes [] s s1 \<and> balanced 0 s s1"
    using assms(1) compacted_takes [of "emit_event TurnStart s" s1]
    by (auto simp: takes_def balanced_def pending_def)
  obtain b where b: "takes b s1 s2" using st kept_takes by blast
  have last: "takes [] s2 ?s3 \<and> balanced 0 s2 ?s3"
    by (simp add: takes_def balanced_def pending_def push_assistant_frame)
  show "\<exists>b. takes b s ?s3"
    using takes_trans [OF conjunct1 [OF first] takes_trans [OF b conjunct1 [OF last]]] by blast
  show "balanced 0 s ?s3"
    using first last st kept_balanced [of s1 s2] by (auto simp: balanced_def)
  have p1: "paired (st_transcript s1)" if "paired (st_transcript s)"
    using assms(1) that paired_compacted [of "emit_event TurnStart s" s1] by auto
  then show "\<exists>before. st_transcript ?s3 = before @ [?m] \<and> paired before" if "paired (st_transcript s)"
    using that st by (simp add: push_assistant_frame)
  show "requests_paired ?s3" if "paired (st_transcript s)" "requests_paired s"
    "cfg_transform_context config = None" "cfg_convert_to_llm config = default_convert_to_llm"
  proof -
    have "st_requests s1 = st_requests s"
      using assms(1) compacted_frame(6) [of "emit_event TurnStart s" s1] by auto
    moreover have "paired msgs" using assms(2) that p1 paired_user_cut by blast
    ultimately show ?thesis
      using st that
      by (simp add: requests_paired_def push_assistant_frame build_request_with_messages_def
          default_convert_to_llm_def)
  qed
  show "\<exists>saved. added_by s ?s3 [?m] saved \<and> (saved = [?m] \<or> saved = [] \<and> failed ?m)"
    if "cfg_compactor config = None"
  proof -
    have s1: "s1 = emit_event TurnStart s" using assms(1) that by blast
    obtain saved where "recorded (st_events s2) = recorded (st_events s1) @ (if saved then [?m] else [])"
      and f: "saved \<or> failed ?m"
      using st by auto
    then have "added_by s ?s3 [?m] (if saved then [?m] else [])"
      using st s1 by (simp add: added_by_def push_assistant_frame)
    then show ?thesis
      using f by (intro exI [of _ "if saved then [?m] else []"]) auto
  qed
qed

lemma takes_sent: "takes b s s' \<Longrightarrow> list_all P (st_sent s') \<Longrightarrow> list_all P (st_sent s)"
  by (auto simp: takes_def list_all_iff)

lemma takes_calm: "takes b s s' \<Longrightarrow> calm (st_sent s') \<Longrightarrow> calm (st_sent s)"
  unfolding calm_def by (rule takes_sent)

lemma takes_no_followup: "takes b s s' \<Longrightarrow> no_followup (st_sent s') \<Longrightarrow> no_followup (st_sent s)"
  by (auto simp: takes_def no_followup_iff)

text \<open>The conditions under which commands and hooks only bring user messages.\<close>

definition user_run :: "'w LoopConfig \<Rightarrow> 'w RunState \<Rightarrow> 'w RunState \<Rightarrow> bool" where
  "user_run config s s' = (user_hooks config \<and> known s \<and> list_all user_command (st_sent s'))"

lemma user_run_split:
  "user_run config s s'' \<Longrightarrow> takes b s s' \<Longrightarrow> takes c s' s'' \<Longrightarrow> user_run config s s' \<and> user_run config s' s''"
  using takes_sent takes_known by (auto simp: user_run_def)

definition default_projection :: "'w LoopConfig \<Rightarrow> bool" where
  "default_projection config =
     (cfg_transform_context config = None \<and> cfg_convert_to_llm config = default_convert_to_llm)"

lemma run_turn_spec:
  assumes "run_turn show_params parse config tools sp th env s = Some (Ok (step, s'))"
  shows "\<exists>b. takes b s s'"
    and "known s \<Longrightarrow> calm (st_sent s') \<Longrightarrow> no_followup (st_sent s') \<Longrightarrow> balanced (counted step) s s'"
    and "user_run config s s' \<Longrightarrow> paired (st_transcript s) \<Longrightarrow>
      paired (st_transcript s') \<or> (\<exists>b. step = Break b) \<and> dangling (st_transcript s')"
    and "default_projection config \<Longrightarrow> paired (st_transcript s) \<Longrightarrow> requests_paired s \<Longrightarrow> requests_paired s'"
    and "user_run config s s' \<Longrightarrow> cfg_compactor config = None \<Longrightarrow>
      \<exists>added saved. added_by s s' added saved \<and> logged added saved"
    and "synced s \<Longrightarrow> synced s'"
proof -
  have all: "(\<exists>b. takes b s s')
    \<and> (known s \<longrightarrow> calm (st_sent s') \<longrightarrow> no_followup (st_sent s') \<longrightarrow> balanced (counted step) s s')
    \<and> (user_run config s s' \<longrightarrow> paired (st_transcript s) \<longrightarrow>
         paired (st_transcript s') \<or> (\<exists>b. step = Break b) \<and> dangling (st_transcript s'))
    \<and> (default_projection config \<longrightarrow> paired (st_transcript s) \<longrightarrow> requests_paired s \<longrightarrow> requests_paired s')
    \<and> (user_run config s s' \<longrightarrow> cfg_compactor config = None \<longrightarrow>
         (\<exists>added saved. added_by s s' added saved \<and> logged added saved))
    \<and> (synced s \<longrightarrow> synced s')"
    using assms
  proof (cases rule: run_turn_cases)
    case cancelled
    then have "takes [] s s'" "balanced 0 s s'" "st_transcript s' = st_transcript s"
      "st_requests s' = st_requests s" "added_by s s' [] []"
      by (simp_all add: send_aborted_turn_end_def takes_def balanced_def pending_def added_by_def synced_def)
    then show ?thesis
      using cancelled(1) log_nil by (auto simp: requests_paired_def added_by_def)
  next
    case (turn s1 msgs turn s2)
    let ?s3 = "push_assistant_message turn s2" and ?a = "tu_assistant_message turn"
    note mid = turn_middle [OF turn(1-3)]
    note st = stream_turn_spec [OF turn(3)]
    obtain b where b: "takes b s ?s3" using mid(1) by blast
    have logs: "logged [Assistant ?a] saved" if "saved = [Assistant ?a] \<or> saved = [] \<and> failed (Assistant ?a)" for saved
      using that by (auto intro: logged.intros)
    from turn(4) show ?thesis
    proof
      assume ab: "tu_aborted turn \<and> step = Break False \<and> s' = emit_event (TurnEnd ?a []) ?s3"
      then have same: "takes [] ?s3 s'" "balanced 0 ?s3 s'" "st_transcript s' = st_transcript ?s3"
        "st_requests s' = st_requests ?s3" "added_by ?s3 s' [] []"
        by (simp_all add: takes_def balanced_def pending_def added_by_def synced_def)
      have "dangling (st_transcript s')" if "paired (st_transcript s)"
        using mid(3) [OF that] st ab same(3) by (auto simp: dangling_def)
      moreover have "\<exists>added saved. added_by s s' added saved \<and> logged added saved" if "cfg_compactor config = None"
        using mid(5) [OF that] added_by_trans [OF _ same(5)] logs by fastforce
      moreover have "synced s'" using same(5) by (simp add: added_by_def push_assistant_frame)
      ultimately show ?thesis
        using ab takes_trans [OF b same(1)] balanced_trans [OF mid(2) same(2)] same(4) mid(4)
        by (auto simp: requests_paired_def default_projection_def)
    next
      assume c: "(\<not> tu_aborted turn \<and> tu_tool_calls turn = []
          \<and> no_tool_step (en_boundary env) ?a ?s3 = (step, s'))
        \<or> (\<not> tu_aborted turn \<and> tool_step parse config tools env turn ?s3 = Some (step, s'))"
      have tc: "tu_tool_calls turn = extract_tool_calls ?a" using st by blast
      note close = closing_spec [OF c tc]
      obtain trs us where add: "added_by ?s3 s' (map ToolResult trs @ us) us"
        and ids: "map trm_tool_call_id trs = map tc_id (extract_tool_calls ?a)"
        and us: "user_hooks config \<and> known ?s3 \<and> list_all user_command (st_sent s') \<longrightarrow> list_all is_user us"
        using close(4) by blast
      have k: "known s \<Longrightarrow> known ?s3" using takes_known [OF b] .
      then have user: "list_all is_user us" if "user_run config s s'"
        using us that by (simp add: user_run_def)
      have "balanced (counted step) s s'" if "known s" "calm (st_sent s')" "no_followup (st_sent s')"
        using balanced_trans [OF mid(2) close(3)] that k by simp
      moreover have "paired (st_transcript s')"
        if ur: "user_run config s s'" and pt: "paired (st_transcript s)"
      proof -
        obtain before where "st_transcript ?s3 = before @ [Assistant ?a]" "paired before"
          using mid(3) [OF pt] by blast
        then have "st_transcript s' = (before @ Assistant ?a # map ToolResult trs) @ us"
          and pb: "paired (before @ Assistant ?a # map ToolResult trs)"
          using add paired_turn [OF _ ids] by (simp_all add: added_by_def)
        then show ?thesis using paired_append_users [OF pb user [OF ur]] by (simp only:)
      qed
      moreover have "requests_paired s'" if "default_projection config" "paired (st_transcript s)" "requests_paired s"
        using mid(4) that close(2) by (simp add: default_projection_def requests_paired_def)
      moreover have "\<exists>added saved. added_by s s' added saved \<and> logged added saved"
        if ur: "user_run config s s'" and nc: "cfg_compactor config = None"
      proof -
        obtain saved where s: "added_by s ?s3 [Assistant ?a] saved"
          "saved = [Assistant ?a] \<or> saved = [] \<and> failed (Assistant ?a)"
          using mid(5) [OF nc] by blast
        have "logged ([Assistant ?a] @ map ToolResult trs @ us) (saved @ us)"
          using logged_append [OF logs [OF s(2)] logged_append [OF logged_results logged_users [OF user [OF ur]]]]
          by simp
        then show ?thesis using added_by_trans [OF s(1) add] by blast
      qed
      moreover have "synced s'" using add by (simp add: added_by_def push_assistant_frame)
      ultimately show ?thesis using takes_trans [OF b close(1)] by blast
    qed
  qed
  show "\<exists>b. takes b s s'"
    and "known s \<Longrightarrow> calm (st_sent s') \<Longrightarrow> no_followup (st_sent s') \<Longrightarrow> balanced (counted step) s s'"
    and "user_run config s s' \<Longrightarrow> paired (st_transcript s) \<Longrightarrow>
      paired (st_transcript s') \<or> (\<exists>b. step = Break b) \<and> dangling (st_transcript s')"
    and "default_projection config \<Longrightarrow> paired (st_transcript s) \<Longrightarrow> requests_paired s \<Longrightarrow> requests_paired s'"
    and "user_run config s s' \<Longrightarrow> cfg_compactor config = None \<Longrightarrow>
      \<exists>added saved. added_by s s' added saved \<and> logged added saved"
    and "synced s \<Longrightarrow> synced s'"
    using all by simp_all
qed

section \<open>The loop\<close>

text \<open>
  The invariant rule of the loop: \<open>I\<close> holds before each pass, with the count of consumed
  commands so far, and \<open>Q\<close> when a pass leaves the loop.
\<close>

lemma run_loop_invariant:
  assumes "run_loop show_params parse config tools sp th envs n s = Some (Ok (out, s'))"
    and "I n s"
    and "\<And>env n s c s'. run_turn show_params parse config tools sp th env s = Some (Ok (StepContinue c, s'))
           \<Longrightarrow> I n s \<Longrightarrow> I (n + c) s'"
    and "\<And>env n s b s'. run_turn show_params parse config tools sp th env s = Some (Ok (Break b, s'))
           \<Longrightarrow> I n s \<Longrightarrow> Q n s'"
  shows "Q (ro_consumed out) s'"
  using assms(1,2)
proof (induction envs arbitrary: n s)
  case (Cons env envs)
  obtain step s1 where turn: "run_turn show_params parse config tools sp th env s = Some (Ok (step, s1))"
    using Cons.prems(1) by (auto split: option.splits outcome.splits)
  show ?case
  proof (cases step)
    case (Break b)
    then show ?thesis using Cons.prems turn assms(4) [of env s b s1 n] by auto
  next
    case (StepContinue c)
    then show ?thesis using Cons.prems turn assms(3) [of env s c s1 n] Cons.IH [of "n + c" s1] by simp
  qed
qed simp

lemma run_loop_takes:
  assumes "run_loop show_params parse config tools sp th envs n s = Some (Ok (out, s'))"
  shows "\<exists>b. takes b s s'"
proof -
  have "takes [] s s" by (rule takes_same) simp_all
  then show ?thesis
    by (intro run_loop_invariant [OF assms, of "\<lambda>_ t. \<exists>b. takes b s t" "\<lambda>_ t. \<exists>b. takes b s t"])
      (blast dest: run_turn_spec(1) intro: takes_trans)+
qed

text \<open>
  The rule again for invariants that need to know what is sent later: each pass is one of a
  run whose commands all are among those sent at the end.
\<close>

lemma run_loop_within:
  assumes "run_loop show_params parse config tools sp th envs n s = Some (Ok (out, s'))"
    and "I n s"
    and "\<And>env n s c t b. run_turn show_params parse config tools sp th env s = Some (Ok (StepContinue c, t))
           \<Longrightarrow> takes b t s' \<Longrightarrow> I n s \<Longrightarrow> I (n + c) t"
    and "\<And>env n s b. run_turn show_params parse config tools sp th env s = Some (Ok (Break b, s'))
           \<Longrightarrow> I n s \<Longrightarrow> Q n"
  shows "Q (ro_consumed out)"
  using assms(1,2)
proof (induction envs arbitrary: n s)
  case (Cons env envs)
  obtain step s1 where turn: "run_turn show_params parse config tools sp th env s = Some (Ok (step, s1))"
    using Cons.prems(1) by (auto split: option.splits outcome.splits)
  show ?case
  proof (cases step)
    case (Break b)
    then show ?thesis using Cons.prems turn assms(4) [of env s b n] by auto
  next
    case (StepContinue c)
    then have rest: "run_loop show_params parse config tools sp th envs (n + c) s1 = Some (Ok (out, s'))"
      using Cons.prems turn by simp
    then obtain b where "takes b s1 s'" using run_loop_takes by blast
    then show ?thesis
      using Cons.prems(2) turn StepContinue assms(3) [of env s c s1 b n] Cons.IH [OF rest] by simp
  qed
qed simp

section \<open>The run\<close>

lemma append_initial_spec:
  assumes "append_initial_messages msgs arrivals s = (shutdown, s')"
  shows "(\<exists>k. added_by s s' (take k msgs) (take k msgs)) \<and> kept s s' \<and> st_requests s' = st_requests s"
  using assms
proof (induction msgs arbitrary: arrivals s)
  case Nil
  then show ?case by (auto simp: added_by_def kept_same)
next
  case (Cons m msgs)
  let ?s1 = "arrive (case arrivals of [] \<Rightarrow> [] | a # _ \<Rightarrow> a) (append_user_message m s)"
  obtain d s2 where d: "drain_commands ?s1 = (d, s2)" by (cases "drain_commands ?s1")
  let ?s3 = "requeue d s2"
  have a: "added_by s ?s3 [m] [m]"
    using d synced_append_user_messages [of s "[m]"]
    by (auto simp: added_by_def drain_commands_spec append_user_message_single synced_def
        simp del: append_user_messages_simps)
  have "kept s (append_user_message m s)"
    by (rule kept_same) (simp_all add: append_user_message_single pending_def del: append_user_messages_simps)
  then have k: "kept s ?s3"
    using kept_trans [OF kept_trans [OF _ kept_arrive] kept_drain] d by (metis fst_conv snd_conv)
  have r: "st_requests ?s3 = st_requests s"
    using d by (auto simp: drain_commands_spec append_user_message_single simp del: append_user_messages_simps)
  show ?case
  proof (cases "d_aborted d \<or> d_shutdown d")
    case True
    then have "s' = ?s3" using Cons.prems d by (simp add: Let_def)
    then show ?thesis using a k r by (auto intro: exI [of _ "Suc 0"])
  next
    case False
    then have rest: "append_initial_messages msgs (tl arrivals) ?s3 = (shutdown, s')"
      using Cons.prems d by (simp add: Let_def)
    then obtain j where "added_by ?s3 s' (take j msgs) (take j msgs)" and k': "kept ?s3 s'"
      and r': "st_requests s' = st_requests ?s3"
      using Cons.IH by blast
    then have "added_by s s' (take (Suc j) (m # msgs)) (take (Suc j) (m # msgs))"
      using added_by_trans [OF a] by fastforce
    then have "\<exists>k. added_by s s' (take k (m # msgs)) (take k (m # msgs))" by (rule exI)
    then show ?thesis using kept_trans [OF k k'] r r' by auto
  qed
qed

text \<open>A run is its initial messages, its loop and two events.\<close>

lemma run_agent_loop_cases:
  assumes "run_agent_loop show_params parse config tools sp th shut arrivals envs initial s0 = Some (Ok (out, s'))"
  obtains k s1 where "added_by s0 s1 (take k initial) (take k initial)" "kept s0 s1"
    "st_requests s1 = st_requests s0"
    and "(ro_consumed out = 0 \<and> s' = emit_event (AgentEnd (st_transcript s1)) s1)
       \<or> (\<exists>s2. run_loop show_params parse config tools sp th envs 0 s1 = Some (Ok (out, s2))
            \<and> s' = emit_event (AgentEnd (st_transcript s2)) s2)"
proof -
  obtain sh t where t: "append_initial_messages initial arrivals (s0\<lparr>st_signal := shut\<rparr>) = (sh, t)"
    by (cases "append_initial_messages initial arrivals (s0\<lparr>st_signal := shut\<rparr>)")
  note a = append_initial_spec [OF t]
  then obtain k where k: "added_by (s0\<lparr>st_signal := shut\<rparr>) t (take k initial) (take k initial)" by blast
  let ?s1 = "emit_event AgentStart t"
  have "kept s0 (s0\<lparr>st_signal := shut\<rparr>)" "kept t ?s1"
    by (simp_all add: kept_same pending_def)
  then have "kept s0 ?s1" using a kept_trans by blast
  moreover have "added_by s0 ?s1 (take k initial) (take k initial)"
    using k by (simp add: added_by_def synced_def)
  moreover have "st_requests ?s1 = st_requests s0" using a by simp
  moreover have "(ro_consumed out = 0 \<and> s' = emit_event (AgentEnd (st_transcript ?s1)) ?s1)
       \<or> (\<exists>s2. run_loop show_params parse config tools sp th envs 0 ?s1 = Some (Ok (out, s2))
            \<and> s' = emit_event (AgentEnd (st_transcript s2)) s2)"
    using assms t
    by (auto simp: run_agent_loop_def Let_def split: if_splits option.splits outcome.splits)
  ultimately show thesis using that by blast
qed

lemma end_takes: "takes [] s (emit_event e s)"
  by (rule takes_same) (simp_all add: pending_def)

lemma run_takes:
  assumes "run_agent_loop show_params parse config tools sp th shut arrivals envs initial s0 = Some (Ok (out, s'))"
  shows "\<exists>b. takes b s0 s'"
  using assms
proof (rule run_agent_loop_cases)
  fix k s1
  assume "kept s0 s1"
    and e: "(ro_consumed out = 0 \<and> s' = emit_event (AgentEnd (st_transcript s1)) s1)
       \<or> (\<exists>s2. run_loop show_params parse config tools sp th envs 0 s1 = Some (Ok (out, s2))
            \<and> s' = emit_event (AgentEnd (st_transcript s2)) s2)"
  then obtain b where "takes b s0 s1" using kept_takes by blast
  then show ?thesis
    using e run_loop_takes takes_trans end_takes by metis
qed

text \<open>
  The invariants of a run, lifted from the pass.  Each lemma takes the run apart, starts from
  the state after the initial messages and applies one of the two rules of the loop.
\<close>

lemma loop_synced:
  assumes "run_loop show_params parse config tools sp th envs n s = Some (Ok (out, s'))" and "synced s"
  shows "synced s'"
  by (rule run_loop_invariant [OF assms(1), of "\<lambda>_. synced" "\<lambda>_. synced"])
    (auto simp: assms(2) dest: run_turn_spec(6))

lemma loop_pairing:
  assumes run: "run_loop show_params parse config tools sp th envs n s = Some (Ok (out, s'))"
    and "user_run config s s'" and "paired (st_transcript s)"
  shows "paired (st_transcript s') \<or> dangling (st_transcript s')"
proof -
  have "(\<lambda>_. paired (st_transcript s') \<or> dangling (st_transcript s')) (ro_consumed out)"
  proof (rule run_loop_within [OF run, of "\<lambda>_ t. user_run config t s' \<and> paired (st_transcript t)"])
    show "user_run config s s' \<and> paired (st_transcript s)" using assms by simp
  next
    fix env n t c u b
    assume turn: "run_turn show_params parse config tools sp th env t = Some (Ok (StepContinue c, u))"
      and b: "takes b u s'" and I: "user_run config t s' \<and> paired (st_transcript t)"
    obtain a where "takes a t u" using run_turn_spec(1) [OF turn] by blast
    with I b have "user_run config t u" "user_run config u s'" using user_run_split by blast+
    then show "user_run config u s' \<and> paired (st_transcript u)"
      using run_turn_spec(3) [OF turn] I by auto
  next
    fix env n t b
    assume turn: "run_turn show_params parse config tools sp th env t = Some (Ok (Break b, s'))"
      and I: "user_run config t s' \<and> paired (st_transcript t)"
    show "paired (st_transcript s') \<or> dangling (st_transcript s')"
      using run_turn_spec(3) [OF turn] I by blast
  qed
  then show ?thesis .
qed

lemma loop_requests:
  assumes run: "run_loop show_params parse config tools sp th envs n s = Some (Ok (out, s'))"
    and "user_run config s s'" and "paired (st_transcript s)" and "requests_paired s"
    and proj: "default_projection config"
  shows "requests_paired s'"
proof -
  have "(\<lambda>_. requests_paired s') (ro_consumed out)"
  proof (rule run_loop_within [OF run,
        of "\<lambda>_ t. user_run config t s' \<and> paired (st_transcript t) \<and> requests_paired t"])
    show "user_run config s s' \<and> paired (st_transcript s) \<and> requests_paired s" using assms by simp
  next
    fix env n t c u b
    assume turn: "run_turn show_params parse config tools sp th env t = Some (Ok (StepContinue c, u))"
      and b: "takes b u s'" and I: "user_run config t s' \<and> paired (st_transcript t) \<and> requests_paired t"
    obtain a where "takes a t u" using run_turn_spec(1) [OF turn] by blast
    with I b have "user_run config t u" "user_run config u s'" using user_run_split by blast+
    then show "user_run config u s' \<and> paired (st_transcript u) \<and> requests_paired u"
      using run_turn_spec(3,4) [OF turn] I proj by auto
  next
    fix env n t b
    assume turn: "run_turn show_params parse config tools sp th env t = Some (Ok (Break b, s'))"
      and I: "user_run config t s' \<and> paired (st_transcript t) \<and> requests_paired t"
    show "requests_paired s'"
      using run_turn_spec(4) [OF turn proj] I by blast
  qed
  then show ?thesis .
qed

lemma loop_balanced:
  assumes run: "run_loop show_params parse config tools sp th envs n s = Some (Ok (out, s'))"
    and "known s" and "calm (st_sent s')" and "no_followup (st_sent s')"
  shows "balanced (ro_consumed out - n) s s' \<and> n \<le> ro_consumed out"
proof -
  have zero: "balanced 0 s s" by (simp add: balanced_def)
  let ?I = "\<lambda>m t. known t \<and> n \<le> m \<and> balanced (m - n) s t"
  have "(\<lambda>m. n \<le> m \<and> balanced (m - n) s s') (ro_consumed out)"
  proof (rule run_loop_within [OF run, of ?I])
    show "?I n s" using assms zero by simp
  next
    fix env m t c u b
    assume turn: "run_turn show_params parse config tools sp th env t = Some (Ok (StepContinue c, u))"
      and b: "takes b u s'" and I: "?I m t"
    have "calm (st_sent u)" "no_followup (st_sent u)"
      using takes_calm [OF b] takes_no_followup [OF b] assms(3,4) by simp_all
    then have "balanced c t u" using run_turn_spec(2) [OF turn] I by simp
    then show "?I (m + c) u"
      using run_turn_spec(1) [OF turn] takes_known I balanced_trans [of "m - n" s t c u]
      by auto
  next
    fix env m t b
    assume turn: "run_turn show_params parse config tools sp th env t = Some (Ok (Break b, s'))"
      and I: "?I m t"
    then have "balanced 0 t s'" using run_turn_spec(2) [OF turn] assms(3,4) by simp
    then show "n \<le> m \<and> balanced (m - n) s s'" using I balanced_trans [of "m - n" s t 0 s'] by simp
  qed
  then show ?thesis by simp
qed

lemma loop_logged:
  assumes run: "run_loop show_params parse config tools sp th envs n s = Some (Ok (out, s'))"
    and "user_run config s s'" and nc: "cfg_compactor config = None"
  shows "\<exists>added saved. added_by s s' added saved \<and> logged added saved"
proof -
  let ?L = "\<lambda>t. \<exists>added saved. added_by s t added saved \<and> logged added saved"
  have join: "?L u" if "?L t" "\<exists>added saved. added_by t u added saved \<and> logged added saved" for t u
    using that added_by_trans logged_append by blast
  have start: "?L s" using log_nil by (intro exI [of _ "[]"]) (simp add: added_by_def)
  have "(\<lambda>_. ?L s') (ro_consumed out)"
  proof (rule run_loop_within [OF run, of "\<lambda>_ t. user_run config t s' \<and> ?L t"])
    show "user_run config s s' \<and> ?L s" using assms start by simp
  next
    fix env n t c u b
    assume turn: "run_turn show_params parse config tools sp th env t = Some (Ok (StepContinue c, u))"
      and b: "takes b u s'" and I: "user_run config t s' \<and> ?L t"
    obtain a where "takes a t u" using run_turn_spec(1) [OF turn] by blast
    with I b have "user_run config t u" "user_run config u s'" using user_run_split by blast+
    then show "user_run config u s' \<and> ?L u"
      using run_turn_spec(5) [OF turn _ nc] I join by blast
  next
    fix env n t b
    assume turn: "run_turn show_params parse config tools sp th env t = Some (Ok (Break b, s'))"
      and I: "user_run config t s' \<and> ?L t"
    show "?L s'" using run_turn_spec(5) [OF turn _ nc] I join by blast
  qed
  then show ?thesis .
qed

end
