(* ===== verification/Run_Properties.thy ===== *)
theory Run_Properties
  imports Run_Facts
begin

text \<open>
  What a whole run keeps, as theorems about \<open>run_agent_loop\<close>, and the runs on which the code
  falls short of what it promises.
\<close>

section \<open>A run to try\<close>

text \<open>
  A prompt, a turn that calls a tool nobody provides while a steering message arrives, a turn
  that answers, and one that answers the steering message.
\<close>

definition says :: "AssistantContent list \<Rightarrow> StopReason \<Rightarrow> AssistantMessage" where
  "says content reason =
     \<lparr>am_content = content, am_model = None, am_usage = None, am_stop_reason = Some reason,
      am_error_message = None, am_timestamp = 0\<rparr>"

definition streams :: "turn_poll list \<Rightarrow> AgentCommand list \<Rightarrow> turn_env" where
  "streams polls boundary =
     \<lparr>en_prepare_cancelled = False,
      en_attempts = [\<lparr>at_outcome = EsStream polls, at_cancelled = False, at_sleep_cancelled = False\<rparr>],
      en_late_cancelled = False, en_tools_cancelled = False, en_schedule = [], en_boundary = boundary\<rparr>"

definition delivers :: "AssistantMessage \<Rightarrow> AgentCommand list \<Rightarrow> turn_env" where
  "delivers m boundary = streams [\<lparr>tp_arrived = [], tp_item = PollEvent (Done m)\<rparr>] boundary"

definition idle_state :: "unit RunState" where
  "idle_state =
     \<lparr>st_transcript = [], st_queue = [], st_rx = [], st_events = [],
      st_snapshot = initial_snapshot \<lparr>ac_system_prompt = [], ac_model = None, ac_thinking_level = ThOff\<rparr> [],
      st_signal = False, st_requests = [], st_sent = [], st_world = ()\<rparr>"

text \<open>What a turn does whose provider delivers its message at once.\<close>

definition asked :: "'w RunState \<Rightarrow> ProviderRequest \<Rightarrow> AssistantMessage \<Rightarrow> 'w RunState" where
  "asked s req m =
     s\<lparr>st_requests := st_requests s @ [req],
       st_events := st_events s
         @ [TurnStart, MessageStart (Assistant (blank_message (model_id (req_model req)) [])),
            MessageEnd (Assistant m)]\<rparr>"

lemma stream_delivers_at_once:
  assumes "st_rx s = []"
  shows "stream_turn config req (en_attempts (delivers m b)) late (emit_event TurnStart s)
    = Some (Ok (\<lparr>tu_assistant_message = m, tu_tool_calls = extract_tool_calls m, tu_aborted = False\<rparr>,
                asked s req m))"
  using assms
  by (cases s) (simp add: stream_turn_def delivers_def streams_def Let_def drain_commands_spec
      map_filter_simps turn_acc_new_def finalize_done [of _ m] asked_def emit_event_def requeue_def
      arrive_def)

lemma prepare_default:
  "prepare_request_messages show_params default_config tools sp cancelled s
     = Some (Inr (apply_final_projection show_params default_config tools sp cancelled (st_transcript s)), s)"
  by (simp add: prepare_request_messages_def default_config_def Let_def)

lemma boundary_delivers [simp]: "en_boundary (delivers m b) = b"
  by (simp add: delivers_def streams_def)

text \<open>The request of a turn under the default configuration.\<close>

definition default_request :: "string \<Rightarrow> ThinkingLevel \<Rightarrow> Message list \<Rightarrow> ProviderRequest" where
  "default_request sp th ms =
     build_request_with_messages (default_config :: unit LoopConfig) [] sp th
       (budget_truncate (budget_with_overhead 8192 sp [] 1024 128) ms)"

lemma default_asks:
  "build_request_with_messages default_config [] sp th
     (apply_final_projection show_params default_config [] sp cancelled ms) = default_request sp th ms"
  by (simp add: default_request_def build_request_with_messages_def apply_final_projection_def
      default_config_def default_policy_def tool_schemas_def tool_specs_def)

lemma delivered_turn:
  assumes "st_rx s = []"
  shows "run_turn show_params parse default_config [] sp th (delivers m b) s =
     (let t = \<lparr>tu_assistant_message = m, tu_tool_calls = extract_tool_calls m, tu_aborted = False\<rparr>;
          s3 = push_assistant_message t (asked s (default_request sp th (st_transcript s)) m)
      in if extract_tool_calls m = [] then Some (Ok (no_tool_step b m s3))
         else map_option Ok (tool_step parse default_config [] (delivers m b) t s3))"
  using stream_delivers_at_once [OF assms, of default_config _ m b]
  by (simp add: run_turn_def prepare_default default_asks Let_def)

definition call_of :: "string \<Rightarrow> ToolCall" where
  "call_of i = \<lparr>tc_id = i, tc_name = ''t'', tc_arguments = ''1''\<rparr>"

definition calls :: "string \<Rightarrow> AssistantMessage" where
  "calls i = says [AssistantToolCall (call_of i)] StopCompleted"

definition unknown_result :: "string \<Rightarrow> ToolResultMessage" where
  "unknown_result i = result_message (call_of i) (tool_result_error ''unknown tool: t'')"

text \<open>The visible parts of the state after a text, and after a call of an unknown tool.\<close>

lemma says_text_turn:
  assumes "st_rx s = []"
  shows "\<exists>s'. run_turn show_params parse default_config [] sp th (delivers (says [AssistantText x] r) b) s
      = Some (Ok (no_tool_step b (says [AssistantText x] r) s'))
    \<and> st_transcript s' = st_transcript s @ [Assistant (says [AssistantText x] r)]
    \<and> recorded (st_events s') = recorded (st_events s) @ [Assistant (says [AssistantText x] r)]
    \<and> st_rx s' = [] \<and> st_queue s' = st_queue s \<and> st_sent s' = st_sent s
    \<and> st_requests s' = st_requests s @ [default_request sp th (st_transcript s)]"
proof -
  have "extract_tool_calls (says [AssistantText x] r) = []"
    by (simp add: extract_tool_calls_def says_def map_filter_simps)
  then show ?thesis
    using delivered_turn [OF assms, of show_params parse sp th "says [AssistantText x] r" b] assms
    by (intro exI conjI) (simp add: Let_def, simp_all add: push_assistant_frame asked_def)
qed

lemma calls_turn:
  assumes "st_rx s = []" and "calm b"
  shows "\<exists>s'. run_turn show_params demo_parse default_config [] sp th (delivers (calls i) b) s
      = Some (Ok (StepContinue 0, s'))
    \<and> st_transcript s' = st_transcript s @ [Assistant (calls i), ToolResult (unknown_result i)]
    \<and> recorded (st_events s') = recorded (st_events s) @ [Assistant (calls i)]
    \<and> st_rx s' = [] \<and> st_sent s' = st_sent s @ b
    \<and> st_queue s' = st_queue s @ filter plain b @ map Steer (List.map_filter steer_of b)
        @ map FollowUp (List.map_filter followup_of b)
    \<and> length (st_requests s') = Suc (length (st_requests s))"
proof -
  have tc: "extract_tool_calls (calls i) = [call_of i]"
    by (simp add: extract_tool_calls_def calls_def says_def map_filter_simps)
  let ?req = "default_request sp th (st_transcript s)"
  have run: "run_turn show_params demo_parse default_config [] sp th (delivers (calls i) b) s =
     map_option Ok (tool_step demo_parse default_config [] (delivers (calls i) b)
       \<lparr>tu_assistant_message = calls i, tu_tool_calls = [call_of i], tu_aborted = False\<rparr>
       (push_assistant_message \<lparr>tu_assistant_message = calls i, tu_tool_calls = [call_of i],
          tu_aborted = False\<rparr> (asked s ?req (calls i))))"
    using delivered_turn [OF assms(1), of show_params demo_parse sp th "calls i" b]
    by (simp add: Let_def tc)
  let ?s3 = "push_assistant_message \<lparr>tu_assistant_message = calls i, tu_tool_calls = [call_of i],
          tu_aborted = False\<rparr> (asked s ?req (calls i))"
  have ex: "\<exists>es. execute_tool_calls demo_parse (default_config :: 'a LoopConfig) [] ts [call_of i]
      (am_stop_reason (calls i)) c [] w
    = Some (es, w, [unknown_result i], []) \<and> recorded es = []" for ts c w
    by (simp add: demo_defs calls_def says_def unknown_result_def call_of_def )
  have sched: "en_schedule (delivers (calls i) b) = []" by (simp add: delivers_def streams_def)
  have stop: "plugin_stop default_config t = (False, t)" "closure_stop default_config a trs = False"
    "closure_prepare default_config a trs (plugin_prepare default_config a trs t) = t" for t :: "'a RunState" and a trs
    by (simp_all add: plugin_stop_def closure_stop_def closure_prepare_def plugin_prepare_def default_config_def)
  obtain es where es: "execute_tool_calls demo_parse default_config [] (st_transcript ?s3) [call_of i]
      (am_stop_reason (calls i)) (st_signal ?s3 \<or> en_tools_cancelled (delivers (calls i) b)) [] (st_world ?s3)
    = Some (es, st_world ?s3, [unknown_result i], [])" "recorded es = []"
    using ex by blast
  let ?s4 = "emit_event (TurnEnd (calls i) [unknown_result i]) (update_snapshot None
    (?s3\<lparr>st_events := st_events ?s3 @ es, st_world := st_world ?s3,
         st_transcript := st_transcript ?s3 @ [ToolResult (unknown_result i)]\<rparr>))"
  let ?s5 = "requeue (fst (drain_commands (arrive b ?s4))) (snd (drain_commands (arrive b ?s4)))"
  have close: "close_tool_turn default_config b (calls i) [unknown_result i] ?s4 = (StepContinue 0, ?s5)"
    using calm_no_abort [OF assms(2)] assms(1)
    by (simp add: close_tool_turn_def stop drain_commands_spec push_assistant_frame asked_def)
  have "run_turn show_params demo_parse default_config [] sp th (delivers (calls i) b) s
      = Some (Ok (StepContinue 0, ?s5))"
    unfolding run using close by (simp add: tool_step_def sched es(1) Let_def)
  then show ?thesis
    using es(2) assms(1)
    by (intro exI [of _ ?s5] conjI)
      (simp_all add: drain_commands_spec push_assistant_frame asked_def)
qed

lemma truncate_small:
  "estimate_total ms fo \<le> mx \<Longrightarrow> truncate_to_budget_with_overhead ms mx fo = ms"
  by (simp add: truncate_to_budget_with_overhead_def)

text \<open>The demonstration run, from an idle agent.\<close>

definition demo_envs :: "turn_env list" where
  "demo_envs =
     [delivers (calls ''c'') [Steer (user_text ''b'')],
      delivers (says [AssistantText ''y''] StopCompleted) [],
      delivers (says [AssistantText ''z''] StopCompleted) []]"

definition run_demo ::
    "turn_env list \<Rightarrow> Message list \<Rightarrow> unit RunState \<Rightarrow> (unit, RunOutcome \<times> unit RunState) outcome option" where
  "run_demo envs initial s =
     run_agent_loop (\<lambda>_. []) demo_parse default_config [] [] ThOff False [] envs initial s"

lemma demo_run:
  "\<exists>s'. run_demo demo_envs [user_text ''a''] idle_state = Some (Ok (\<lparr>ro_shutdown = False, ro_consumed = 1\<rparr>, s'))
     \<and> st_transcript s' = [user_text ''a'', Assistant (calls ''c''), ToolResult (unknown_result ''c''),
          Assistant (says [AssistantText ''y''] StopCompleted), user_text ''b'',
          Assistant (says [AssistantText ''z''] StopCompleted)]
     \<and> recorded (st_events s') = [user_text ''a'', Assistant (calls ''c''),
          Assistant (says [AssistantText ''y''] StopCompleted), user_text ''b'',
          Assistant (says [AssistantText ''z''] StopCompleted)]
     \<and> length (st_requests s') = 3 \<and> st_sent s' = [Steer (user_text ''b'')] \<and> pending s' = []"
proof -
  let ?y = "says [AssistantText ''y''] StopCompleted" and ?z = "says [AssistantText ''z''] StopCompleted"
  let ?run = "run_turn (\<lambda>_. []) demo_parse (default_config :: unit LoopConfig) [] [] ThOff"
  let ?s0 = "emit_event AgentStart (append_user_message (user_text ''a'') idle_state)"
  have start: "append_initial_messages [user_text ''a''] [] (idle_state\<lparr>st_signal := False\<rparr>)
      = (False, append_user_message (user_text ''a'') idle_state)"
    by (simp add: idle_state_def drain_commands_spec map_filter_simps arrive_def requeue_def
        append_user_message_def emit_event_def push_message_def update_snapshot_def)
  have i: "st_rx ?s0 = []" "st_queue ?s0 = []" "st_transcript ?s0 = [user_text ''a'']"
    "recorded (st_events ?s0) = [user_text ''a'']" "st_requests ?s0 = []" "st_sent ?s0 = []"
    by (simp_all add: idle_state_def append_user_message_single del: append_user_messages_simps)
  obtain s1 where t1: "?run (delivers (calls ''c'') [Steer (user_text ''b'')]) ?s0
      = Some (Ok (StepContinue 0, s1))"
    and s1: "st_transcript s1 = [user_text ''a'', Assistant (calls ''c''), ToolResult (unknown_result ''c'')]"
      "recorded (st_events s1) = [user_text ''a'', Assistant (calls ''c'')]"
      "st_rx s1 = []" "st_sent s1 = [Steer (user_text ''b'')]" "st_queue s1 = [Steer (user_text ''b'')]"
      "length (st_requests s1) = 1"
    using calls_turn [OF i(1), of "[Steer (user_text ''b'')]" "\<lambda>_. []" "[]" ThOff "''c''"] i
    by (auto simp: map_filter_simps)
  obtain s2 where t2: "?run (delivers ?y []) s1 = Some (Ok (no_tool_step [] ?y s2))"
    and s2: "st_transcript s2 = st_transcript s1 @ [Assistant ?y]"
      "recorded (st_events s2) = recorded (st_events s1) @ [Assistant ?y]"
      "st_rx s2 = []" "st_queue s2 = st_queue s1" "st_sent s2 = st_sent s1" "length (st_requests s2) = 2"
    using says_text_turn [OF s1(3), of "\<lambda>_. []" demo_parse "[]" ThOff "''y''" StopCompleted "[]"] s1 by auto
  obtain s3 where n2: "no_tool_step [] ?y s2 = (StepContinue 1, s3)"
    and s3: "st_transcript s3 = st_transcript s2 @ [user_text ''b'']"
      "recorded (st_events s3) = recorded (st_events s2) @ [user_text ''b'']"
      "st_rx s3 = []" "st_queue s3 = []" "st_sent s3 = st_sent s1" "length (st_requests s3) = 2"
    using s1 s2 by (simp add: no_tool_step_def collect_pending_spec map_filter_simps
        append_user_message_single del: append_user_messages_simps)
  obtain s4 where t3: "?run (delivers ?z []) s3 = Some (Ok (no_tool_step [] ?z s4))"
    and s4: "st_transcript s4 = st_transcript s3 @ [Assistant ?z]"
      "recorded (st_events s4) = recorded (st_events s3) @ [Assistant ?z]"
      "st_rx s4 = []" "st_queue s4 = []" "st_sent s4 = st_sent s3" "length (st_requests s4) = 3"
    using says_text_turn [OF s3(3), of "\<lambda>_. []" demo_parse "[]" ThOff "''z''" StopCompleted "[]"] s3 by auto
  obtain s5 where n3: "no_tool_step [] ?z s4 = (Break False, s5)"
    and s5: "st_transcript s5 = st_transcript s4" "recorded (st_events s5) = recorded (st_events s4)"
      "st_rx s5 = []" "st_queue s5 = []" "st_sent s5 = st_sent s4" "length (st_requests s5) = 3"
    using s4 by (simp add: no_tool_step_def collect_pending_spec map_filter_simps)
  have "run_demo demo_envs [user_text ''a''] idle_state
      = Some (Ok (\<lparr>ro_shutdown = False, ro_consumed = 1\<rparr>, emit_event (AgentEnd (st_transcript s5)) s5))"
    unfolding run_demo_def run_agent_loop_def start
    by (simp add: demo_envs_def Let_def t1 t2 n2 t3 n3)
  then show ?thesis
    by (intro exI conjI, assumption) (simp_all add: s1 s2 s3 s4 s5 pending_def)
qed

section \<open>Properties\<close>

text \<open>
  C2: Tool calls stay answered.  If the transcript is one in which every call is followed by
  its results, in order, before anything else, then so is the transcript after a run, unless
  the run was aborted and ends with the assistant message of the aborted turn.  With the
  default projection every request the run sent is such a list too, however the transcript
  was compacted and truncated for it.
\<close>

theorem run_pairing:
  assumes "run_agent_loop show_params parse config tools sp th shut arrivals envs initial s0 = Some (Ok (out, s'))"
    and "user_run config s0 s'" and "list_all is_user initial" and "paired (st_transcript s0)"
  shows "(paired (st_transcript s') \<or> dangling (st_transcript s'))
    \<and> (default_projection config \<longrightarrow> requests_paired s0 \<longrightarrow> requests_paired s')"
  using assms(1)
proof (rule run_agent_loop_cases)
  fix k s1
  assume add: "added_by s0 s1 (take k initial) (take k initial)" and kept: "kept s0 s1"
    and req: "st_requests s1 = st_requests s0"
    and e: "(ro_consumed out = 0 \<and> s' = emit_event (AgentEnd (st_transcript s1)) s1)
       \<or> (\<exists>s2. run_loop show_params parse config tools sp th envs 0 s1 = Some (Ok (out, s2))
            \<and> s' = emit_event (AgentEnd (st_transcript s2)) s2)"
  have p1: "paired (st_transcript s1)"
    using add paired_append_users [OF assms(4), of "take k initial"] assms(3)
    by (auto simp: added_by_def list_all_iff dest: in_set_takeD)
  obtain b where b: "takes b s0 s1" using kept kept_takes by blast
  from e show ?thesis
  proof
    assume "ro_consumed out = 0 \<and> s' = emit_event (AgentEnd (st_transcript s1)) s1"
    then show ?thesis using p1 req by (simp add: requests_paired_def)
  next
    assume "\<exists>s2. run_loop show_params parse config tools sp th envs 0 s1 = Some (Ok (out, s2))
            \<and> s' = emit_event (AgentEnd (st_transcript s2)) s2"
    then obtain s2 where loop: "run_loop show_params parse config tools sp th envs 0 s1 = Some (Ok (out, s2))"
      and s': "s' = emit_event (AgentEnd (st_transcript s2)) s2" by blast
    obtain c where "takes c s1 s2" using run_loop_takes [OF loop] by blast
    then have u: "user_run config s1 s2"
      using user_run_split [of config s0 s2 b s1 c] assms(2) b s' by (simp add: user_run_def)
    show ?thesis
      using loop_pairing [OF loop u p1] loop_requests [OF loop u p1] req s'
      by (auto simp: requests_paired_def)
  qed
qed

lemma run_pairing_witness:
  "\<exists>out s'. run_demo demo_envs [user_text ''a''] idle_state = Some (Ok (out, s'))
     \<and> length (st_requests s') = 3 \<and> requests_paired s'
     \<and> (paired (st_transcript s') \<or> dangling (st_transcript s'))"
proof -
  obtain out s' where run: "run_demo demo_envs [user_text ''a''] idle_state = Some (Ok (out, s'))"
    and req: "length (st_requests s') = 3" and sent: "st_sent s' = [Steer (user_text ''b'')]"
    using demo_run by blast
  have u: "user_run default_config idle_state s'"
    by (simp add: user_run_def user_hooks_def default_config_def known_def pending_def idle_state_def sent)
  have t: "paired (st_transcript idle_state)" and r: "requests_paired idle_state"
    by (simp_all add: idle_state_def requests_paired_def)
  have "default_projection default_config" by (simp add: default_projection_def default_config_def)
  then show ?thesis
    using run_pairing [OF run [unfolded run_demo_def] u _ t] r run req by auto
qed

text \<open>
  C25: What is persisted.  In a run without a compactor (one would rewrite the transcript in the
  middle of the run) whose input and injected messages are user messages, a recorder that writes the
  messages of \<open>MessageEnd\<close> events writes, in order, the messages the run adds to the transcript,
  except the tool results, none of which is ever written, and assistant messages of failed
  turns.  If the watched snapshot showed the transcript when the run began, it does when it ends.
\<close>

theorem run_log:
  assumes "run_agent_loop show_params parse config tools sp th shut arrivals envs initial s0 = Some (Ok (out, s'))"
    and "user_run config s0 s'" and "list_all is_user initial" and "cfg_compactor config = None"
  shows "\<exists>added saved. st_transcript s' = st_transcript s0 @ added
      \<and> recorded (st_events s') = recorded (st_events s0) @ saved \<and> logged added saved
      \<and> (synced s0 \<longrightarrow> synced s')"
  using assms(1)
proof (rule run_agent_loop_cases)
  fix k s1
  assume add: "added_by s0 s1 (take k initial) (take k initial)" and kept: "kept s0 s1"
    and e: "(ro_consumed out = 0 \<and> s' = emit_event (AgentEnd (st_transcript s1)) s1)
       \<or> (\<exists>s2. run_loop show_params parse config tools sp th envs 0 s1 = Some (Ok (out, s2))
            \<and> s' = emit_event (AgentEnd (st_transcript s2)) s2)"
  have l1: "logged (take k initial) (take k initial)"
    using assms(3) by (intro logged_users) (auto simp: list_all_iff dest: in_set_takeD)
  obtain b where b: "takes b s0 s1" using kept kept_takes by blast
  from e show ?thesis
  proof
    assume "ro_consumed out = 0 \<and> s' = emit_event (AgentEnd (st_transcript s1)) s1"
    then show ?thesis using add l1 by (auto simp: added_by_def synced_def)
  next
    assume "\<exists>s2. run_loop show_params parse config tools sp th envs 0 s1 = Some (Ok (out, s2))
            \<and> s' = emit_event (AgentEnd (st_transcript s2)) s2"
    then obtain s2 where loop: "run_loop show_params parse config tools sp th envs 0 s1 = Some (Ok (out, s2))"
      and s': "s' = emit_event (AgentEnd (st_transcript s2)) s2" by blast
    obtain c where "takes c s1 s2" using run_loop_takes [OF loop] by blast
    then have u: "user_run config s1 s2"
      using user_run_split [of config s0 s2 b s1 c] assms(2) b s' by (simp add: user_run_def)
    obtain added saved where a: "added_by s1 s2 added saved" "logged added saved"
      using loop_logged [OF loop u assms(4)] by blast
    have "added_by s0 s' (take k initial @ added) (take k initial @ saved)"
      using added_by_trans [OF add a(1)] s' by (simp add: added_by_def synced_def)
    then show ?thesis using logged_append [OF l1 a(2)] by (auto simp: added_by_def)
  qed
qed

lemma run_log_witness:
  "\<exists>out s' added saved. run_demo demo_envs [user_text ''a''] idle_state = Some (Ok (out, s'))
     \<and> length added = 6 \<and> length saved = 5 \<and> logged added saved"
proof -
  obtain out s' where run: "run_demo demo_envs [user_text ''a''] idle_state = Some (Ok (out, s'))"
    and sent: "st_sent s' = [Steer (user_text ''b'')]" and len: "length (st_transcript s') = 6"
      "length (recorded (st_events s')) = 5"
    using demo_run by force
  have u: "user_run default_config idle_state s'"
    by (simp add: user_run_def user_hooks_def default_config_def known_def pending_def idle_state_def sent)
  have "st_transcript idle_state = []" "recorded (st_events idle_state) = []"
    by (simp_all add: idle_state_def)
  moreover have "cfg_compactor (default_config :: unit LoopConfig) = None" by (simp add: default_config_def)
  ultimately show ?thesis
    using run_log [OF run [unfolded run_demo_def] u] run len by fastforce
qed

text \<open>The snapshot and the balance of commands, for a whole run.\<close>

lemma run_synced:
  assumes "run_agent_loop show_params parse config tools sp th shut arrivals envs initial s0 = Some (Ok (out, s'))"
    and "synced s0"
  shows "synced s'"
  using assms(1)
proof (rule run_agent_loop_cases)
  fix k s1
  assume "added_by s0 s1 (take k initial) (take k initial)"
    and e: "(ro_consumed out = 0 \<and> s' = emit_event (AgentEnd (st_transcript s1)) s1)
       \<or> (\<exists>s2. run_loop show_params parse config tools sp th envs 0 s1 = Some (Ok (out, s2))
            \<and> s' = emit_event (AgentEnd (st_transcript s2)) s2)"
  then have "synced s1" using assms(2) by (simp add: added_by_def)
  then show ?thesis using e loop_synced by (auto simp: synced_def) blast
qed

lemma run_balanced:
  assumes "run_agent_loop show_params parse config tools sp th shut arrivals envs initial s0 = Some (Ok (out, s'))"
    and "known s0" and "calm (st_sent s')" and "no_followup (st_sent s')"
  shows "balanced (ro_consumed out) s0 s'"
  using assms(1)
proof (rule run_agent_loop_cases)
  fix k s1
  assume kept: "kept s0 s1"
    and e: "(ro_consumed out = 0 \<and> s' = emit_event (AgentEnd (st_transcript s1)) s1)
       \<or> (\<exists>s2. run_loop show_params parse config tools sp th envs 0 s1 = Some (Ok (out, s2))
            \<and> s' = emit_event (AgentEnd (st_transcript s2)) s2)"
  obtain b where b: "takes b s0 s1" using kept kept_takes by blast
  then have k1: "known s1" using assms(2) takes_known by blast
  from e show ?thesis
  proof
    assume "ro_consumed out = 0 \<and> s' = emit_event (AgentEnd (st_transcript s1)) s1"
    then show ?thesis using kept_balanced [OF kept] by (simp add: balanced_def pending_def)
  next
    assume "\<exists>s2. run_loop show_params parse config tools sp th envs 0 s1 = Some (Ok (out, s2))
            \<and> s' = emit_event (AgentEnd (st_transcript s2)) s2"
    then obtain s2 where loop: "run_loop show_params parse config tools sp th envs 0 s1 = Some (Ok (out, s2))"
      and s': "s' = emit_event (AgentEnd (st_transcript s2)) s2" by blast
    have "balanced (ro_consumed out) s1 s2"
      using loop_balanced [OF loop k1] assms(3,4) s' by simp
    then show ?thesis
      using balanced_trans [OF kept_balanced [OF kept]] s' by (simp add: balanced_def pending_def)
  qed
qed

text \<open>
  Commands during a run.  Commands other than steering, follow-ups, \<open>Abort\<close> and
  \<open>Shutdown\<close> are pending after the run in the order they arrived.  If nothing but such
  commands and steering messages was sent, every steering message is either still pending or
  counted in the outcome, once.
\<close>

theorem run_accounting:
  assumes "run_agent_loop show_params parse config tools sp th shut arrivals envs initial s0 = Some (Ok (out, s'))"
    and "known s0"
  shows "\<exists>arr. st_sent s' = st_sent s0 @ arr
      \<and> filter plain (pending s') = filter plain (pending s0 @ arr) \<and> known s'
      \<and> (calm (st_sent s') \<and> no_followup (st_sent s') \<longrightarrow>
           ro_consumed out + injected (pending s') = injected (pending s0 @ arr))"
proof -
  obtain arr where "takes arr s0 s'" using run_takes [OF assms(1)] by blast
  then show ?thesis
    using run_balanced [OF assms] takes_known [of arr s0 s'] assms(2)
    by (auto simp: takes_def balanced_def)
qed

lemma run_accounting_witness:
  "\<exists>out s'. run_demo demo_envs [user_text ''a''] idle_state = Some (Ok (out, s'))
     \<and> st_sent s' = [Steer (user_text ''b'')] \<and> ro_consumed out + injected (pending s') = 1"
proof -
  obtain out s' where run: "run_demo demo_envs [user_text ''a''] idle_state = Some (Ok (out, s'))"
    and sent: "st_sent s' = [Steer (user_text ''b'')]"
    using demo_run by blast
  have "known idle_state" "pending idle_state = []" "st_sent idle_state = []"
    by (simp_all add: known_def pending_def idle_state_def)
  moreover have "calm (st_sent s')" "no_followup (st_sent s')"
    by (simp_all add: sent no_followup_def map_filter_simps)
  ultimately show ?thesis
    using run_accounting [OF run [unfolded run_demo_def]] run sent by (auto simp: injected_def)
qed

text \<open>
  The count at a boundary, exactly.  When the run goes on after a turn without tools, each
  steering message and follow-up that was pending is counted or still pending; but if there
  is a steering message among them, the follow-ups are put back and counted all the same, so
  that they will be counted twice.  When the run ends there, because nothing was pending or
  because an \<open>Abort\<close> came, whatever was pending is gone, neither in the transcript nor counted.
\<close>

theorem boundary_accounting:
  assumes "no_tool_step b a s = (step, s')"
  shows "case step of
      StepContinue c \<Rightarrow>
        c + injected (pending s') = injected (pending s @ b)
          + (if \<exists>m. Steer m \<in> set (pending s @ b)
             then length (List.map_filter followup_of (pending s @ b)) else 0)
    | Break _ \<Rightarrow> injected (pending s') = 0 \<and> st_transcript s' = st_transcript s"
proof -
  have some: "boundary_steer b s \<noteq> [] \<longleftrightarrow> (\<exists>m. Steer m \<in> set (pending s @ b))"
    unfolding set_empty [symmetric] boundary_parts(5) by auto
  have follow: "length (boundary_follow b s) = length (List.map_filter followup_of (pending s @ b))"
    by (simp add: boundary_follow_def pending_def)
  show ?thesis
    using boundary_parts(1) [of s b] boundary_parts(3) [of b s] some follow
    by (cases rule: no_tool_step_cases [OF assms]) (simp_all add: pending_def)
qed

lemma boundary_accounting_witness:
  "\<exists>s'. no_tool_step [Steer (user_text ''b''), FollowUp (user_text ''c'')] (calls ''x'') idle_state
       = (StepContinue 2, s')
     \<and> st_transcript s' = [user_text ''b''] \<and> 2 + injected (pending s') = 3"
proof -
  obtain s' where run: "no_tool_step [Steer (user_text ''b''), FollowUp (user_text ''c'')] (calls ''x'') idle_state
       = (StepContinue 2, s')" and "st_transcript s' = [user_text ''b'']"
    by (simp add: no_tool_step_def collect_pending_spec map_filter_simps idle_state_def
        append_user_message_single del: append_user_messages_simps)
  then show ?thesis
    using boundary_accounting [OF run] by (auto simp: injected_def pending_def idle_state_def map_filter_simps)
qed

text \<open>A model that starts a call and is cut off.\<close>

definition cut_off :: turn_env where
  "cut_off =
     streams [\<lparr>tp_arrived = [], tp_item = PollEvent (ToolCallStart ''c'' ''t'' ''{'')\<rparr>,
              \<lparr>tp_arrived = [], tp_item = PollCancelled\<rparr>] []"

definition cut_message :: AssistantMessage where
  "cut_message =
     (blank_message ''default'' [AssistantToolCall \<lparr>tc_id = ''c'', tc_name = ''t'', tc_arguments = ''{''\<rparr>])
       \<lparr>am_stop_reason := Some StopAborted\<rparr>"

lemma cut_off_turn:
  assumes "st_rx s = []"
  shows "\<exists>s'. run_turn show_params parse default_config [] sp th cut_off s = Some (Ok (Break False, s'))
    \<and> st_transcript s' = st_transcript s @ [Assistant cut_message] \<and> st_rx s' = []
    \<and> st_queue s' = st_queue s"
proof -
  have "\<exists>s2. stream_turn (default_config :: 'a LoopConfig) req (en_attempts cut_off) late (emit_event TurnStart s)
      = Some (Ok (\<lparr>tu_assistant_message = cut_message,
            tu_tool_calls = extract_tool_calls cut_message, tu_aborted = True\<rparr>, s2))
    \<and> st_transcript s2 = st_transcript s \<and> st_rx s2 = [] \<and> st_queue s2 = st_queue s"
    if "model_id (req_model req) = ''default''" for req late
    using assms that
    by (simp add: stream_turn_def cut_off_def streams_def Let_def drain_commands_spec map_filter_simps
        turn_acc_new_def take_current_def finalize_def build_assistant_def cut_message_def)
  moreover have "model_id (req_model (default_request sp th ms)) = ''default''" for ms
    by (simp add: default_request_def build_request_with_messages_def default_config_def)
  ultimately obtain s2 where
    "stream_turn (default_config :: 'a LoopConfig) (default_request sp th (st_transcript s)) (en_attempts cut_off)
        (en_late_cancelled cut_off) (emit_event TurnStart s)
      = Some (Ok (\<lparr>tu_assistant_message = cut_message,
            tu_tool_calls = extract_tool_calls cut_message, tu_aborted = True\<rparr>, s2))"
    "st_transcript s2 = st_transcript s" "st_rx s2 = []" "st_queue s2 = st_queue s" by blast
  then show ?thesis
    by (simp add: run_turn_def prepare_default default_asks Let_def push_assistant_frame)
qed

lemma initial_message:
  assumes "st_rx s = []"
  shows "append_initial_messages [m] [] s = (False, append_user_message m s)"
  using assms
  by (cases s) (simp add: drain_commands_spec map_filter_simps arrive_def requeue_def
      append_user_message_def emit_event_def push_message_def update_snapshot_def)

definition run_start :: "Message \<Rightarrow> 'w RunState \<Rightarrow> 'w RunState" where
  "run_start m s = emit_event AgentStart (append_user_message m (s\<lparr>st_signal := False\<rparr>))"

lemma run_start_simps:
  "st_transcript (run_start m s) = st_transcript s @ [m]" "st_rx (run_start m s) = st_rx s"
  "st_queue (run_start m s) = st_queue s" "st_sent (run_start m s) = st_sent s"
  by (simp_all add: run_start_def append_user_message_single del: append_user_messages_simps)

lemma run_demo_single:
  assumes "st_rx s = []"
  shows "run_demo [env] [m] s =
     (case run_turn (\<lambda>_. []) demo_parse default_config [] [] ThOff env (run_start m s) of
        Some (Ok (Break b, t)) \<Rightarrow>
          Some (Ok (\<lparr>ro_shutdown = b, ro_consumed = 0\<rparr>, emit_event (AgentEnd (st_transcript t)) t))
      | Some Panic \<Rightarrow> Some Panic | Some (Err e) \<Rightarrow> Some (Err e) | _ \<Rightarrow> None)"
  using assms initial_message [of "s\<lparr>st_signal := False\<rparr>" m]
  by (auto simp: run_demo_def run_agent_loop_def run_start_def Let_def
      split: option.split outcome.split prod.split LoopStep.split)

text \<open>A run of one turn that answers with a text while plain commands arrive.\<close>

lemma text_run:
  assumes "st_rx s = []" and "st_queue s = []" and "list_all plain b"
  shows "\<exists>s'. run_demo [delivers (says [AssistantText x] r) b] [m] s
      = Some (Ok (\<lparr>ro_shutdown = False, ro_consumed = 0\<rparr>, s'))
    \<and> st_transcript s' = st_transcript s @ [m, Assistant (says [AssistantText x] r)]
    \<and> st_sent s' = st_sent s @ b \<and> st_queue s' = b \<and> st_rx s' = []"
proof -
  let ?y = "says [AssistantText x] r"
  have none: "List.map_filter steer_of b = []" "List.map_filter followup_of b = []" "filter plain b = b"
    and calm: "Abort \<notin> set b" "Shutdown \<notin> set b"
    using assms(3) map_filter_plain [of b] by (auto simp: list_all_iff filter_id_conv)
  have rx: "st_rx (run_start m s) = []" using assms(1) by (simp add: run_start_simps)
  obtain t where t: "run_turn (\<lambda>_. []) demo_parse default_config [] [] ThOff (delivers ?y b) (run_start m s)
      = Some (Ok (no_tool_step b ?y t))"
    and s2: "st_rx t = []" "st_queue t = []" "st_sent t = st_sent s"
      "st_transcript t = st_transcript s @ [m, Assistant ?y]"
    using says_text_turn [OF rx, of "\<lambda>_. []" demo_parse "[]" ThOff x r b] assms
    unfolding run_start_simps by auto
  obtain t3 where t3: "no_tool_step b ?y t = (Break False, t3)" "st_sent t3 = st_sent s @ b"
    "st_queue t3 = b" "st_rx t3 = []" "st_transcript t3 = st_transcript t"
    using s2 none calm by (simp add: no_tool_step_def collect_pending_spec map_filter_simps)
  show ?thesis
    using run_demo_single [OF assms(1), of "delivers ?y b" m] t t3 s2 by simp
qed

text \<open>
  An aborted turn leaves its calls unanswered.  The model starts a call, the token is
  cancelled, and the transcript ends with the call; the next prompt sends it to the provider
  with a user message where the result should be.
\<close>

theorem aborted_call_unanswered:
  "\<exists>out s1 s2. run_demo [cut_off] [user_text ''a''] idle_state = Some (Ok (out, s1))
     \<and> st_transcript s1 = [user_text ''a'', Assistant cut_message] \<and> \<not> paired (st_transcript s1)
     \<and> run_demo [delivers (says [AssistantText ''y''] StopCompleted) []] [user_text ''b''] s1 = Some (Ok (out, s2))
     \<and> ctx_messages (req_context (last (st_requests s2)))
         = [user_text ''a'', Assistant cut_message, user_text ''b'']
     \<and> \<not> requests_paired s2"
proof -
  let ?y = "says [AssistantText ''y''] StopCompleted"
  let ?cut = "[user_text ''a'', Assistant cut_message]"
  let ?out = "\<lparr>ro_shutdown = False, ro_consumed = 0\<rparr>"
  let ?start = run_start
  note st = run_start_simps and run = run_demo_single
  have i: "st_rx idle_state = []" "st_queue idle_state = []" "st_transcript idle_state = []"
    by (simp_all add: idle_state_def)
  obtain t1 where t1: "run_turn (\<lambda>_. []) demo_parse default_config [] [] ThOff cut_off (?start (user_text ''a'') idle_state)
      = Some (Ok (Break False, t1))" "st_transcript t1 = ?cut" "st_rx t1 = []" "st_queue t1 = []"
    using cut_off_turn [of "?start (user_text ''a'') idle_state" "\<lambda>_. []" demo_parse "[]" ThOff] i unfolding st by auto
  let ?s1 = "emit_event (AgentEnd ?cut) t1"
  have r1: "run_demo [cut_off] [user_text ''a''] idle_state = Some (Ok (?out, ?s1))"
    using run [OF i(1)] t1 by simp
  let ?ms = "?cut @ [user_text ''b'']"
  have rx: "st_rx (?start (user_text ''b'') ?s1) = []" using t1 by (simp add: st)
  obtain t2 where t2: "run_turn (\<lambda>_. []) demo_parse default_config [] [] ThOff (delivers ?y []) (?start (user_text ''b'') ?s1)
      = Some (Ok (no_tool_step [] ?y t2))"
    and s2: "st_rx t2 = []" "st_queue t2 = []"
      "st_requests t2 = st_requests (?start (user_text ''b'') ?s1) @ [default_request [] ThOff ?ms]"
    using says_text_turn [OF rx, of "\<lambda>_. []" demo_parse "[]" ThOff "''y''" StopCompleted "[]"] t1
    unfolding st by auto
  obtain t3 where t3: "no_tool_step [] ?y t2 = (Break False, t3)" "st_requests t3 = st_requests t2"
    using s2 by (simp add: no_tool_step_def collect_pending_spec map_filter_simps)
  let ?s2 = "emit_event (AgentEnd (st_transcript t3)) t3"
  have r2: "run_demo [delivers ?y []] [user_text ''b''] ?s1 = Some (Ok (?out, ?s2))"
    using run [of ?s1] t1 t2 t3 by simp
  have fits: "budget_truncate (budget_with_overhead 8192 [] [] 1024 128) ?ms = ?ms"
    unfolding budget_truncate_def
    by (rule truncate_small)
      (simp add: estimate_total_def last_usage_def sum_estimates_def estimate_tokens_def user_text_def
        cut_message_def blank_message_def budget_with_overhead_def budget_available_def
        saturating_add32_def saturating_sub32_def clamp_u32_def)
  have req: "ctx_messages (req_context (last (st_requests ?s2))) = ?ms"
    using t3 s2 fits
    by (simp add: default_request_def build_request_with_messages_def default_config_def default_convert_to_llm_def)
  have bad: "\<not> paired ?cut" "\<not> paired ?ms"
    by (simp_all add: paired_def user_text_def cut_message_def blank_message_def extract_tool_calls_def map_filter_simps)
  have "\<not> requests_paired ?s2"
    using t3 s2 req bad(2) by (auto simp: requests_paired_def)
  then show ?thesis using r1 r2 req bad(1) t1(2) by auto
qed

end
