(* ===== verification/Agent_Runtime.thy ===== *)
theory Agent_Runtime
  imports Run_Properties
begin

text \<open>
  The agent as its clients see it: the runtime task that owns the state and works through the
  commands (\<open>core/agent_runtime.rs\<close>), and the handle that sends commands and waits for the
  counters to meet (\<open>core/agent.rs\<close>).

  The task is driven by a script with one entry per iteration: what arrived before it looks
  for a command, whether the shutdown token is set at its checks, and the script of the run
  the command starts, if it starts one.  Counters are natural numbers; the code's \<open>u64\<close> would
  wrap after \<open>2^64\<close> commands.
\<close>

section \<open>Errors and the handle (agent.rs)\<close>

datatype AgentError =
    AeBusy
  | AeInvalidState
  | AeIo string
  | AeSerialization string
  | AeOther string
  | AeSendError string

text \<open>\<open>impl PartialEq\<close>: the text of I/O and serialization errors is not compared.\<close>

fun agent_error_eq :: "AgentError \<Rightarrow> AgentError \<Rightarrow> bool" where
  "agent_error_eq AeBusy AeBusy = True"
| "agent_error_eq AeInvalidState AeInvalidState = True"
| "agent_error_eq (AeIo _) (AeIo _) = True"
| "agent_error_eq (AeSerialization _) (AeSerialization _) = True"
| "agent_error_eq (AeOther a) (AeOther b) = (a = b)"
| "agent_error_eq (AeSendError a) (AeSendError b) = (a = b)"
| "agent_error_eq _ _ = False"

text \<open>\<open>impl Serialize\<close> and \<open>impl Deserialize\<close>: every error comes back as \<open>Other\<close>.\<close>

fun agent_error_serialize :: "AgentError \<Rightarrow> string" where
  "agent_error_serialize AeBusy = ''Busy''"
| "agent_error_serialize AeInvalidState = ''InvalidState''"
| "agent_error_serialize (AeIo e) = ''Io: '' @ e"
| "agent_error_serialize (AeSerialization e) = ''Serialization: '' @ e"
| "agent_error_serialize (AeOther s) = ''Other: '' @ s"
| "agent_error_serialize (AeSendError s) = ''SendError: '' @ s"

definition agent_error_deserialize :: "string \<Rightarrow> AgentError" where
  "agent_error_deserialize s = AeOther s"

text \<open>The \<open>Display\<close> text of an error.\<close>

fun agent_error_text :: "AgentError \<Rightarrow> string" where
  "agent_error_text AeBusy = ''Agent is busy''"
| "agent_error_text AeInvalidState = ''Invalid agent state''"
| "agent_error_text (AeIo e) = ''IO error: '' @ e"
| "agent_error_text (AeSerialization e) = ''Serialization error: '' @ e"
| "agent_error_text (AeOther s) = ''Other error: '' @ s"
| "agent_error_text (AeSendError s) = ''Send error: '' @ s"

record 'w Agent =
  ag_run :: "'w RunState"
  ag_processed :: nat
  ag_exited :: bool

text \<open>The handle's \<open>sent\<close> counter: every command but \<open>Abort\<close>.\<close>

definition ag_sent :: "'w Agent \<Rightarrow> nat" where
  "ag_sent ag = length (filter (\<lambda>c. c \<noteq> Abort) (st_sent (ag_run ag)))"

definition channel_capacity :: nat where
  "channel_capacity = 100"

text \<open>
  The sending operations but \<open>abort\<close>: the command goes into the channel when there is room
  (\<open>None\<close>: the caller waits) and is counted.  A closed channel is an error.
\<close>

definition handle_send :: "AgentCommand \<Rightarrow> 'w Agent \<Rightarrow> (AgentError + 'w Agent) option" where
  "handle_send cmd ag =
     (if ag_exited ag then Some (Inl (AeSendError ''channel closed''))
      else if length (st_rx (ag_run ag)) < channel_capacity
      then Some (Inr (ag\<lparr>ag_run := arrive [cmd] (ag_run ag)\<rparr>))
      else None)"

text \<open>\<open>abort\<close> does not wait and is not counted: \<open>try_send\<close> drops it when the channel is full.\<close>

definition handle_abort :: "'w Agent \<Rightarrow> 'w Agent" where
  "handle_abort ag =
     (if \<not> ag_exited ag \<and> length (st_rx (ag_run ag)) < channel_capacity
      then ag\<lparr>ag_run := arrive [Abort] (ag_run ag)\<rparr> else ag)"

definition spawn_with_transcript :: "AgentConfig \<Rightarrow> 'w \<Rightarrow> Message list \<Rightarrow> 'w Agent" where
  "spawn_with_transcript config w transcript =
     \<lparr>ag_run =
        \<lparr>st_transcript = transcript, st_queue = [], st_rx = [], st_events = [],
         st_snapshot = initial_snapshot config transcript, st_signal = False, st_requests = [],
         st_sent = [], st_world = w\<rparr>,
      ag_processed = 0, ag_exited = False\<rparr>"

text \<open>
  Waiting for a watch channel: at each wake-up the value seen, whether the deadline has
  passed, and how the next wait ends.  \<open>done\<close> is the condition waited for.
\<close>

datatype wake = WakeChanged | WakeClosed | WakeTimeout

fun wait_watch :: "('v \<Rightarrow> bool) \<Rightarrow> string \<Rightarrow> ('v \<times> bool \<times> wake) list \<Rightarrow> (AgentError + unit) option" where
  "wait_watch finished what [] = None"
| "wait_watch finished what ((v, late, w) # ws) =
     (if finished v then Some (Inr ())
      else if late then Some (Inl (AeOther (what @ '' timeout'')))
      else
        (case w of
           WakeChanged \<Rightarrow> wait_watch finished what ws
         | WakeClosed \<Rightarrow> Some (Inl (AeOther (what @ '' channel closed'')))
         | WakeTimeout \<Rightarrow> Some (Inl (AeOther (what @ '' timeout'')))))"

definition wait_processed ::
    "string \<Rightarrow> ((nat \<times> nat) \<times> bool \<times> wake) list \<Rightarrow> (AgentError + unit) option" where
  "wait_processed = wait_watch (\<lambda>(processed, sent). sent \<le> processed)"

definition wait_flag :: "string \<Rightarrow> (bool \<times> bool \<times> wake) list \<Rightarrow> (AgentError + unit) option" where
  "wait_flag = wait_watch (\<lambda>flag. flag)"

section \<open>The runtime task (agent_runtime.rs)\<close>

record iteration =
  it_arrived :: "AgentCommand list"
  it_shutdown_before :: bool
  it_shutdown_wait :: bool
  it_shutdown_run :: bool
  it_arrivals :: "AgentCommand list list"
  it_envs :: "turn_env list"

record 'w Runtime =
  rt_show :: show_params
  rt_parse :: json_parser
  rt_tools :: "'w Tool list"
  rt_loop_config :: "'w LoopConfig"
  rt_config :: AgentConfig

definition run_with_initial ::
    "'w Runtime \<Rightarrow> iteration \<Rightarrow> Message list \<Rightarrow> 'w RunState
       \<Rightarrow> (unit, (bool \<times> nat) \<times> 'w RunState) outcome option" where
  "run_with_initial rt it initial s =
     (case run_agent_loop (rt_show rt) (rt_parse rt) (rt_loop_config rt) (rt_tools rt)
             (ac_system_prompt (rt_config rt)) (ac_thinking_level (rt_config rt))
             (it_shutdown_run it) (it_arrivals it) (it_envs it) initial s of
        None \<Rightarrow> None
      | Some Panic \<Rightarrow> Some Panic
      | Some (Err e) \<Rightarrow> Some (Err e)
      | Some (Ok (outcome, s')) \<Rightarrow> Some (Ok ((ro_shutdown outcome, ro_consumed outcome), s')))"

definition reset_state :: "'w RunState \<Rightarrow> 'w RunState" where
  "reset_state s =
     s\<lparr>st_transcript := [], st_queue := [],
       st_snapshot := (st_snapshot s)
         \<lparr>as_messages := [], as_pending_tool_calls := [], as_error_message := None\<rparr>\<rparr>"

fun process_command ::
    "'w Runtime \<Rightarrow> iteration \<Rightarrow> AgentCommand \<Rightarrow> 'w RunState
       \<Rightarrow> (unit, (bool \<times> nat) \<times> 'w RunState) outcome option" where
  "process_command rt it (Prompt msgs) s = run_with_initial rt it msgs s"
| "process_command rt it (Steer msg) s = run_with_initial rt it [msg] s"
| "process_command rt it (FollowUp msg) s = run_with_initial rt it [msg] s"
| "process_command rt it Continue s = run_with_initial rt it [] s"
| "process_command rt it Abort s = Some (Ok ((False, 0), s))"
| "process_command rt it Reset s = Some (Ok ((False, length (st_queue s)), reset_state s))"
| "process_command rt it Shutdown s = Some (Ok ((True, 0), s))"

text \<open>The local queue first, then the channel.\<close>

definition next_command :: "'w RunState \<Rightarrow> (AgentCommand \<times> 'w RunState) option" where
  "next_command s =
     (case st_queue s of
        cmd # rest \<Rightarrow> Some (cmd, s\<lparr>st_queue := rest\<rparr>)
      | [] \<Rightarrow>
          (case st_rx s of
             cmd # rest \<Rightarrow> Some (cmd, s\<lparr>st_rx := rest\<rparr>)
           | [] \<Rightarrow> None))"

text \<open>
  The loop of \<open>spawn_runtime\<close>.  \<open>handled\<close> lists the commands taken, for the statements.  A
  script that ends leaves the task in its loop.  An empty channel waits until a command
  arrives, or until the shutdown token is set or every handle is gone (\<open>it_shutdown_wait\<close>);
  with a command in the channel and the token set, \<open>select!\<close> may take either.
\<close>

fun runtime_loop ::
    "'w Runtime \<Rightarrow> iteration list \<Rightarrow> AgentCommand list \<Rightarrow> 'w Agent
       \<Rightarrow> (unit, AgentCommand list \<times> 'w Agent) outcome option" where
  "runtime_loop rt [] handled ag = Some (Ok (handled, ag))"
| "runtime_loop rt (it # its) handled ag =
     (let s = arrive (it_arrived it) (ag_run ag);
          here = ag\<lparr>ag_run := s\<rparr>
      in if it_shutdown_before it then Some (Ok (handled, here\<lparr>ag_exited := True\<rparr>))
         else if st_queue s = [] \<and> it_shutdown_wait it
         then Some (Ok (handled, here\<lparr>ag_exited := True\<rparr>))
         else
           (case next_command s of
              None \<Rightarrow> runtime_loop rt its handled here
            | Some (cmd, s1) \<Rightarrow>
                (case process_command rt it cmd s1 of
                   None \<Rightarrow> None
                 | Some Panic \<Rightarrow> Some Panic
                 | Some (Err e) \<Rightarrow> Some (Err e)
                 | Some (Ok ((shutdown, extra), s2)) \<Rightarrow>
                     (let after = here\<lparr>ag_run := s2, ag_processed := ag_processed ag + 1 + extra\<rparr>
                      in if shutdown then Some (Ok (handled @ [cmd], after\<lparr>ag_exited := True\<rparr>))
                         else runtime_loop rt its (handled @ [cmd]) after))))"

section \<open>Lemmas\<close>

lemma next_command_spec:
  assumes "next_command s = Some (cmd, s1)"
  shows "pending s = cmd # pending s1" "st_sent s1 = st_sent s" "st_transcript s1 = st_transcript s"
    "st_snapshot s1 = st_snapshot s" "st_requests s1 = st_requests s"
  using assms by (auto simp: next_command_def pending_def split: list.splits)

lemma length_pending:
  "calm cmds \<Longrightarrow> length cmds = length (filter plain cmds) + injected cmds"
  by (induction cmds) (auto simp: injected_def)

text \<open>A run as a step of the runtime: what becomes of the commands.\<close>

definition agent_inv :: "AgentCommand list \<Rightarrow> 'w Agent \<Rightarrow> bool" where
  "agent_inv handled ag =
     (let s = ag_run ag in
      known s \<and> synced s
      \<and> (calm (st_sent s) \<and> no_followup (st_sent s) \<longrightarrow>
           ag_processed ag + length (pending s) = length (st_sent s))
      \<and> (Reset \<notin> set (st_sent s) \<longrightarrow>
           filter plain handled @ filter plain (pending s) = filter plain (st_sent s)))"

lemma run_with_initial_spec:
  assumes "run_with_initial rt it initial s = Some (Ok ((shutdown, extra), s'))"
  shows "\<exists>arr. takes arr s s'"
    and "known s \<Longrightarrow> calm (st_sent s') \<Longrightarrow> no_followup (st_sent s') \<Longrightarrow> balanced extra s s'"
    and "synced s \<Longrightarrow> synced s'"
proof -
  obtain outcome where run: "run_agent_loop (rt_show rt) (rt_parse rt) (rt_loop_config rt) (rt_tools rt)
             (ac_system_prompt (rt_config rt)) (ac_thinking_level (rt_config rt))
             (it_shutdown_run it) (it_arrivals it) (it_envs it) initial s = Some (Ok (outcome, s'))"
    and extra: "extra = ro_consumed outcome"
    using assms by (auto simp: run_with_initial_def split: option.splits outcome.splits)
  show "\<exists>arr. takes arr s s'" by (rule run_takes [OF run])
  show "known s \<Longrightarrow> calm (st_sent s') \<Longrightarrow> no_followup (st_sent s') \<Longrightarrow> balanced extra s s'"
    unfolding extra by (rule run_balanced [OF run])
  show "synced s \<Longrightarrow> synced s'" by (rule run_synced [OF run])
qed

lemma process_command_cases:
  assumes "process_command rt it cmd s = Some (Ok ((shutdown, extra), s'))"
  obtains (run) initial where "run_with_initial rt it initial s = Some (Ok ((shutdown, extra), s'))"
    | (control) "is_control cmd" "s' = s"
    | (reset) "cmd = Reset" "extra = length (st_queue s)" "s' = reset_state s"
  using assms by (cases cmd) auto

lemma process_command_inv:
  assumes step: "process_command rt it cmd s1 = Some (Ok ((shutdown, extra), s2))"
    and inv: "agent_inv handled ag" and nxt: "next_command (ag_run ag) = Some (cmd, s1)"
  shows "agent_inv (handled @ [cmd]) (ag\<lparr>ag_run := s2, ag_processed := ag_processed ag + 1 + extra\<rparr>)"
proof -
  note n = next_command_spec [OF nxt]
  have cmd: "cmd \<in> set (st_sent s1)" and k1: "known s1" and y1: "synced s1"
    using inv n by (auto simp: agent_inv_def known_def synced_def Let_def)
  have acc: "calm (st_sent s1) \<Longrightarrow> no_followup (st_sent s1)
      \<Longrightarrow> ag_processed ag + 1 + length (pending s1) = length (st_sent s1)"
    and fifo: "Reset \<notin> set (st_sent s1) \<Longrightarrow>
      filter plain (handled @ [cmd]) @ filter plain (pending s1) = filter plain (st_sent s1)"
    using inv n by (auto simp: agent_inv_def Let_def)
  show ?thesis
    using step
  proof (cases rule: process_command_cases)
    case (run initial)
    note r = run_with_initial_spec [OF run]
    obtain arr where arr: "takes arr s1 s2" using r(1) by blast
    have "ag_processed ag + 1 + extra + length (pending s2) = length (st_sent s2)"
      if c: "calm (st_sent s2)" and f: "no_followup (st_sent s2)"
    proof -
      have "set (pending s2) \<subseteq> set (st_sent s2)" "set (pending s1 @ arr) \<subseteq> set (st_sent s2)"
        using takes_known [OF arr k1] k1 arr by (auto simp: known_def takes_def)
      then have "calm (pending s2)" "calm (pending s1 @ arr)" using calm_subset [OF c] by blast+
      then have "length (pending s2) = length (filter plain (pending s1 @ arr)) + injected (pending s2)"
        and "length (pending s1 @ arr) = length (filter plain (pending s1 @ arr)) + injected (pending s1 @ arr)"
        using arr length_pending [of "pending s2"] length_pending [of "pending s1 @ arr"]
        by (simp_all add: takes_def)
      moreover have "extra + injected (pending s2) = injected (pending s1 @ arr)"
        using r(2) [OF k1 c f] arr by (simp add: balanced_def takes_def)
      ultimately have "extra + length (pending s2) = length (pending s1) + length arr"
        by (simp del: filter_append)
      then show ?thesis
        using acc takes_calm [OF arr c] takes_no_followup [OF arr f] arr by (simp add: takes_def)
    qed
    moreover have "filter plain (handled @ [cmd]) @ filter plain (pending s2) = filter plain (st_sent s2)"
      if "Reset \<notin> set (st_sent s2)"
      using fifo that arr by (simp add: takes_def)
    ultimately show ?thesis
      using takes_known [OF arr k1] r(3) [OF y1] by (simp add: agent_inv_def Let_def)
  next
    case control
    then have "\<not> calm (st_sent s1)" using cmd by (auto simp: calm_def list_all_iff)
    then show ?thesis using control k1 y1 fifo by (simp add: agent_inv_def Let_def)
  next
    case reset
    have q: "pending s1 = st_queue s1 @ pending (reset_state s1)" "st_sent (reset_state s1) = st_sent s1"
      by (simp_all add: pending_def reset_state_def)
    have "Reset \<in> set (st_sent s1)" using cmd reset by simp
    then show ?thesis
      using reset k1 acc q by (auto simp: agent_inv_def known_def synced_def reset_state_def Let_def pending_def)
  qed
qed

lemma runtime_loop_inv:
  assumes "runtime_loop rt its handled ag = Some (Ok (handled', ag'))" and "agent_inv handled ag"
  shows "agent_inv handled' ag'"
  using assms
proof (induction its arbitrary: handled ag)
  case (Cons it its)
  let ?here = "ag\<lparr>ag_run := arrive (it_arrived it) (ag_run ag)\<rparr>"
  have here: "agent_inv handled ?here" "agent_inv handled (?here\<lparr>ag_exited := True\<rparr>)"
    using Cons.prems(2) by (auto simp: agent_inv_def known_def synced_def pending_def Let_def)
  show ?case
  proof (cases "it_shutdown_before it \<or> st_queue (ag_run ?here) = [] \<and> it_shutdown_wait it")
    case True
    then show ?thesis using Cons.prems(1) here by (auto simp: Let_def split: if_splits)
  next
    case False
    then have go: "it_shutdown_before it = False" "(st_queue (ag_run ag) = [] \<and> it_shutdown_wait it) = False"
      by auto
    show ?thesis
    proof (cases "next_command (ag_run ?here)")
      case None
      then show ?thesis using Cons.prems(1) here(1) Cons.IH [of handled ?here] by (simp add: Let_def go)
    next
      case (Some x)
      obtain cmd s1 where x: "x = (cmd, s1)" by (cases x)
      obtain shutdown extra s2 where
        p: "process_command rt it cmd s1 = Some (Ok ((shutdown, extra), s2))"
        using Cons.prems(1) Some x by (auto simp: Let_def go split: option.splits outcome.splits)
      let ?after = "?here\<lparr>ag_run := s2, ag_processed := ag_processed ?here + 1 + extra\<rparr>"
      have after: "agent_inv (handled @ [cmd]) ?after"
        by (rule process_command_inv [OF p here(1)]) (use Some x in simp)
      then have "agent_inv (handled @ [cmd]) (?after\<lparr>ag_exited := True\<rparr>)" by (simp add: agent_inv_def)
      then show ?thesis
        using Cons.prems(1) Some x p after Cons.IH [of "handled @ [cmd]" ?after]
        by (auto simp: Let_def go split: if_splits)
    qed
  qed
qed simp

lemma spawned_inv: "agent_inv [] (spawn_with_transcript config w transcript)"
  by (simp add: agent_inv_def spawn_with_transcript_def known_def synced_def pending_def initial_snapshot_def)

section \<open>Properties\<close>


text \<open>
  C39: Order and visibility.  As long as no \<open>Reset\<close> is sent (one drops the prompts that are queued), the
  prompts and continuations handled and those pending are the ones sent, in their order, none lost and
  none twice.  With or without a \<open>Reset\<close>, whenever the task looks for a command,
  and when it has exited, the watched snapshot shows the transcript.
\<close>

theorem agent_order:
  assumes "runtime_loop rt its [] (spawn_with_transcript config w transcript) = Some (Ok (handled, ag))"
  shows "(Reset \<notin> set (st_sent (ag_run ag)) \<longrightarrow>
       filter plain handled @ filter plain (pending (ag_run ag)) = filter plain (st_sent (ag_run ag)))
    \<and> as_messages (st_snapshot (ag_run ag)) = st_transcript (ag_run ag)"
  using runtime_loop_inv [OF assms spawned_inv] by (simp add: agent_inv_def synced_def Let_def)

text \<open>A prompt, answered while another one arrives.\<close>

definition demo_runtime :: "unit Runtime" where
  "demo_runtime =
     \<lparr>rt_show = (\<lambda>_. []), rt_parse = demo_parse, rt_tools = [], rt_loop_config = default_config,
      rt_config = \<lparr>ac_system_prompt = [], ac_model = None, ac_thinking_level = ThOff\<rparr>\<rparr>"

definition quiet :: "AgentCommand list \<Rightarrow> turn_env list \<Rightarrow> iteration" where
  "quiet cmds envs =
     \<lparr>it_arrived = cmds, it_shutdown_before = False, it_shutdown_wait = False,
      it_shutdown_run = False, it_arrivals = [], it_envs = envs\<rparr>"

definition demo_agent :: "unit Agent" where
  "demo_agent = spawn_with_transcript (rt_config demo_runtime) () []"

definition demo_script :: "iteration list" where
  "demo_script =
     [quiet [Prompt [user_text ''a'']]
        [delivers (says [AssistantText ''y''] StopCompleted) [Prompt [user_text ''b'']]]]"

lemma demo_loop:
  "\<exists>ag. runtime_loop demo_runtime demo_script [] demo_agent = Some (Ok ([Prompt [user_text ''a'']], ag))
     \<and> ag_processed ag = 1 \<and> st_sent (ag_run ag) = [Prompt [user_text ''a''], Prompt [user_text ''b'']]
     \<and> pending (ag_run ag) = [Prompt [user_text ''b'']]"
proof -
  let ?s = "idle_state\<lparr>st_sent := [Prompt [user_text ''a'']]\<rparr>"
  let ?envs = "[delivers (says [AssistantText ''y''] StopCompleted) [Prompt [user_text ''b'']]]"
  have start: "ag_run demo_agent = idle_state" "ag_processed demo_agent = 0"
    by (simp_all add: demo_agent_def spawn_with_transcript_def demo_runtime_def idle_state_def)
  have nxt: "next_command (arrive [Prompt [user_text ''a'']] idle_state) = Some (Prompt [user_text ''a''], ?s)"
    and q: "st_queue idle_state = []"
    by (simp_all add: next_command_def arrive_def idle_state_def)
  obtain s' where run: "run_demo ?envs [user_text ''a''] ?s
      = Some (Ok (\<lparr>ro_shutdown = False, ro_consumed = 0\<rparr>, s'))"
    and s': "st_sent s' = [Prompt [user_text ''a''], Prompt [user_text ''b'']]"
      "st_queue s' = [Prompt [user_text ''b'']]" "st_rx s' = []"
    using text_run [of ?s "[Prompt [user_text ''b'']]" "''y''" StopCompleted "user_text ''a''"]
    by (auto simp: idle_state_def)
  have p: "process_command demo_runtime (quiet [Prompt [user_text ''a'']] ?envs) (Prompt [user_text ''a'']) ?s
      = Some (Ok ((False, 0), s'))"
    using run by (simp add: run_with_initial_def demo_runtime_def quiet_def run_demo_def)
  show ?thesis
    using nxt p s'
    by (simp add: demo_script_def start q Let_def pending_def) (simp add: quiet_def start)
qed


lemma agent_order_witness:
  "\<exists>ag. runtime_loop demo_runtime demo_script [] demo_agent = Some (Ok ([Prompt [user_text ''a'']], ag))
     \<and> filter plain [Prompt [user_text ''a'']] @ filter plain (pending (ag_run ag))
        = [Prompt [user_text ''a''], Prompt [user_text ''b'']]
     \<and> as_messages (st_snapshot (ag_run ag)) = st_transcript (ag_run ag)"
proof -
  obtain ag where run: "runtime_loop demo_runtime demo_script [] demo_agent
      = Some (Ok ([Prompt [user_text ''a'']], ag))"
    and sent: "st_sent (ag_run ag) = [Prompt [user_text ''a''], Prompt [user_text ''b'']]"
    using demo_loop by blast
  from agent_order [OF run [unfolded demo_agent_def]] show ?thesis
    using run sent by auto
qed

text \<open>
  An \<open>Abort\<close> with nothing to abort unsettles the counters.  It is handled, and counted as
  processed, but was not counted as sent; so after the next prompt \<open>wait_for_idle\<close> returns
  at once, with the prompt still pending.
\<close>

theorem idle_abort_miscounted:
  "\<exists>ag ag'. runtime_loop rt [quiet [Abort] []] [] (spawn_with_transcript config w transcript) = Some (Ok ([Abort], ag))
     \<and> handle_send (Prompt msgs) ag = Some (Inr ag')
     \<and> pending (ag_run ag') = [Prompt msgs]
     \<and> wait_processed ''wait_for_idle'' [((ag_processed ag', ag_sent ag'), False, WakeChanged)] = Some (Inr ())"
  by (simp add: spawn_with_transcript_def quiet_def Let_def next_command_def arrive_def handle_send_def
      channel_capacity_def pending_def wait_processed_def ag_sent_def)

end
