(* ===== verification/Server.thy ===== *)
theory Server
  imports Resume Agent_Runtime "HOL-Library.List_Lexorder" "HOL-Library.Char_ord"
begin

text \<open>
  The session registry and the lanes of \<open>server/mod.rs\<close>, \<open>lane.rs\<close>, \<open>lane_ops.rs\<close> and
  \<open>lane_recovery.rs\<close>.  The registry is behind one mutex that is never held across an await,
  so an operation is a sequence of sections that each run at once; \<open>client_step\<close> runs one
  section, and operations of several clients interleave between sections.

  An \<open>Arc\<close> is an index into the lists of storages and of tasks.  A task is what a spawn
  creates: the agent, the lane writer and the bridge that records the agent's events.
  Generations and session numbers are natural numbers; the code's \<open>u64\<close> would wrap after
  \<open>2^64\<close> of them.
\<close>

section \<open>State\<close>

record 's backend =
  be_append :: "'s append_op"
  be_put_head :: "'s put_head_op"
  be_load :: "'s load_op"
  be_heads :: "'s heads_op"

text \<open>A storage with or without persisted lane heads.\<close>

record 's SessionStorageBundle =
  sb_storage :: 's
  sb_has_heads :: bool

definition from_backend :: "'s \<Rightarrow> 's SessionStorageBundle" where
  "from_backend s = \<lparr>sb_storage = s, sb_has_heads = True\<rparr>"

definition message_only :: "'s \<Rightarrow> 's SessionStorageBundle" where
  "message_only s = \<lparr>sb_storage = s, sb_has_heads = False\<rparr>"

record LaneRuntime =
  lr_handle :: nat
  lr_generation :: nat

record SessionState =
  ses_storage :: nat
  ses_lanes :: "LaneId \<rightharpoonup> LaneRuntime"

text \<open>
  What became of the handle of a task: it is in use, its stop has timed out (\<open>shutdown\<close> consumed it),
  or it was dropped without having been told to stop.
\<close>

datatype stop_state = InUse | StopTimedOut | NeverStopped

record 'w lane_task =
  tk_storage :: nat
  tk_writer :: LaneWriter
  tk_agent :: "'w Agent"
  tk_seen :: nat
  tk_stop :: stop_state

record ('s, 'w) ServerInner =
  sv_sessions :: "SessionId \<rightharpoonup> SessionState"
  sv_runtime_factory :: "(AgentConfig \<times> 'w) option"
  sv_storage_factory :: "(string \<Rightarrow> 's) option"
  sv_bundle_factory :: "(string \<Rightarrow> 's SessionStorageBundle) option"
  sv_next_session_id :: nat
  sv_next_generation :: nat
  sv_storages :: "(bool \<times> 's SharedSessionStorage) list"
  sv_tasks :: "'w lane_task list"

definition server_new :: "('s, 'w) ServerInner" where
  "server_new =
     \<lparr>sv_sessions = Map.empty, sv_runtime_factory = None, sv_storage_factory = None,
      sv_bundle_factory = None, sv_next_session_id = 1, sv_next_generation = 1,
      sv_storages = [], sv_tasks = []\<rparr>"

text \<open>\<open>OnceLock::set\<close>: only the first call counts.\<close>

definition set_once :: "'a \<Rightarrow> 'a option \<Rightarrow> 'a option" where
  "set_once x slot = (case slot of None \<Rightarrow> Some x | Some y \<Rightarrow> Some y)"

definition with_runtime_factory :: "AgentConfig \<times> 'w \<Rightarrow> ('s, 'w) ServerInner \<Rightarrow> ('s, 'w) ServerInner" where
  "with_runtime_factory f sv = sv\<lparr>sv_runtime_factory := set_once f (sv_runtime_factory sv)\<rparr>"

definition with_storage_factory :: "(string \<Rightarrow> 's) \<Rightarrow> ('s, 'w) ServerInner \<Rightarrow> ('s, 'w) ServerInner" where
  "with_storage_factory f sv = sv\<lparr>sv_storage_factory := set_once f (sv_storage_factory sv)\<rparr>"

definition with_storage_bundle_factory ::
    "(string \<Rightarrow> 's SessionStorageBundle) \<Rightarrow> ('s, 'w) ServerInner \<Rightarrow> ('s, 'w) ServerInner" where
  "with_storage_bundle_factory f sv = sv\<lparr>sv_bundle_factory := set_once f (sv_bundle_factory sv)\<rparr>"

section \<open>Sessions (mod.rs)\<close>

text \<open>The section that checks for a duplicate and inserts the session.\<close>

definition register_session ::
    "SessionId \<Rightarrow> bool \<times> 's SharedSessionStorage \<Rightarrow> ('s, 'w) ServerInner
       \<Rightarrow> (ServerError + unit) \<times> ('s, 'w) ServerInner" where
  "register_session sid st sv =
     (if sv_sessions sv sid \<noteq> None then (Inl (SvDuplicateSession sid), sv)
      else (Inr (), sv\<lparr>sv_storages := sv_storages sv @ [st],
              sv_sessions := (sv_sessions sv)(sid \<mapsto>
                \<lparr>ses_storage = length (sv_storages sv), ses_lanes = Map.empty\<rparr>)\<rparr>))"

definition create_session_with_head_store ::
    "SessionId \<Rightarrow> 's \<Rightarrow> bool \<Rightarrow> ('s, 'w) ServerInner \<Rightarrow> (ServerError + unit) \<times> ('s, 'w) ServerInner" where
  "create_session_with_head_store sid storage has_heads sv =
     register_session sid (has_heads, shared_new storage) sv"

definition create_session ::
    "SessionId \<Rightarrow> 's \<Rightarrow> ('s, 'w) ServerInner \<Rightarrow> (ServerError + unit) \<times> ('s, 'w) ServerInner" where
  "create_session sid storage sv = create_session_with_head_store sid storage False sv"

text \<open>\<open>storage.load()\<close> runs before the lock is taken; the tree is dropped.\<close>

definition load_session_with_head_store ::
    "'s backend \<Rightarrow> SessionId \<Rightarrow> 's \<Rightarrow> bool \<Rightarrow> ('s, 'w) ServerInner
       \<Rightarrow> (ServerError, unit) outcome \<times> ('s, 'w) ServerInner" where
  "load_session_with_head_store be sid storage has_heads sv =
     (case be_load be storage of
        (Err e, _) \<Rightarrow> (Err (SvSession e), sv)
      | (Panic, _) \<Rightarrow> (Panic, sv)
      | (Ok _, storage) \<Rightarrow>
          (case register_session sid (has_heads, shared_new storage) sv of
             (Inl e, sv) \<Rightarrow> (Err e, sv)
           | (Inr _, sv) \<Rightarrow> (Ok (), sv)))"

definition load_session ::
    "'s backend \<Rightarrow> SessionId \<Rightarrow> 's \<Rightarrow> ('s, 'w) ServerInner
       \<Rightarrow> (ServerError, unit) outcome \<times> ('s, 'w) ServerInner" where
  "load_session be sid storage sv = load_session_with_head_store be sid storage False sv"

definition list_sessions :: "('s, 'w) ServerInner \<Rightarrow> SessionId list" where
  "list_sessions sv = sorted_list_of_set (dom (sv_sessions sv))"

definition allocate_session_id :: "('s, 'w) ServerInner \<Rightarrow> SessionId \<times> ('s, 'w) ServerInner" where
  "allocate_session_id sv =
     (show_nat (sv_next_session_id sv), sv\<lparr>sv_next_session_id := sv_next_session_id sv + 1\<rparr>)"

definition create_session_from_factory ::
    "SessionId \<Rightarrow> ('s, 'w) ServerInner \<Rightarrow> (ServerError + unit) \<times> ('s, 'w) ServerInner" where
  "create_session_from_factory sid sv =
     (case sv_storage_factory sv of
        None \<Rightarrow> (Inl (SvProtocol ''no storage factory''), sv)
      | Some factory \<Rightarrow> create_session sid (factory sid) sv)"

definition load_session_from_factory ::
    "'s backend \<Rightarrow> SessionId \<Rightarrow> ('s, 'w) ServerInner \<Rightarrow> (ServerError, unit) outcome \<times> ('s, 'w) ServerInner" where
  "load_session_from_factory be sid sv =
     (case sv_storage_factory sv of
        None \<Rightarrow> (Err (SvProtocol ''no storage factory''), sv)
      | Some factory \<Rightarrow> load_session be sid (factory sid) sv)"

section \<open>Sections of a spawn (lane.rs)\<close>

text \<open>What is spawned: \<open>lj_from\<close> is the source of a fork, \<open>lj_own_session\<close> marks the
  transaction that registered the session itself.\<close>

record 'w lane_job =
  lj_session :: SessionId
  lj_lane :: LaneId
  lj_from :: "LaneId option"
  lj_config :: AgentConfig
  lj_world :: 'w
  lj_transcript :: "Message list"
  lj_head :: "NodeId option"
  lj_persist :: bool
  lj_own_session :: bool

text \<open>The first check of \<open>spawn_lane_with\<close>: the storage of the session.\<close>

definition spawn_check :: "SessionId \<Rightarrow> LaneId \<Rightarrow> ('s, 'w) ServerInner \<Rightarrow> ServerError + nat" where
  "spawn_check session_id lane_id sv =
     (case sv_sessions sv session_id of
        None \<Rightarrow> Inl (SvSessionNotFound session_id)
      | Some session \<Rightarrow>
          if ses_lanes session lane_id \<noteq> None then Inl (SvLaneAlreadyExists lane_id)
          else Inr (ses_storage session))"

text \<open>The first check of \<open>fork_lane\<close>: also the handle of the source lane.\<close>

definition fork_check ::
    "SessionId \<Rightarrow> LaneId \<Rightarrow> LaneId \<Rightarrow> ('s, 'w) ServerInner \<Rightarrow> ServerError + nat \<times> nat" where
  "fork_check session_id from_lane new_lane sv =
     (case sv_sessions sv session_id of
        None \<Rightarrow> Inl (SvSessionNotFound session_id)
      | Some session \<Rightarrow>
          if ses_lanes session new_lane \<noteq> None then Inl (SvLaneAlreadyExists new_lane)
          else case ses_lanes session from_lane of
                 None \<Rightarrow> Inl (SvLaneNotFound from_lane)
               | Some lane \<Rightarrow> Inr (ses_storage session, lr_handle lane))"

text \<open>The runtime, its writer and its bridge are started.\<close>

definition start_task ::
    "'w lane_job \<Rightarrow> nat \<Rightarrow> NodeId option \<Rightarrow> ('s, 'w) ServerInner \<Rightarrow> nat \<times> ('s, 'w) ServerInner" where
  "start_task job storage head sv =
     (length (sv_tasks sv),
      sv\<lparr>sv_tasks := sv_tasks sv @
           [\<lparr>tk_storage = storage, tk_writer = \<lparr>lw_lane_id = lj_lane job, lw_head = head\<rparr>,
             tk_agent = spawn_with_transcript (lj_config job) (lj_world job) (lj_transcript job),
             tk_seen = 0, tk_stop = InUse\<rparr>]\<rparr>)"

text \<open>The insertion, and the second checks of \<open>spawn_lane_with\<close> and \<open>fork_lane\<close>.\<close>

definition insert_lane ::
    "SessionId \<Rightarrow> LaneId \<Rightarrow> nat \<Rightarrow> SessionState \<Rightarrow> ('s, 'w) ServerInner \<Rightarrow> nat \<times> ('s, 'w) ServerInner" where
  "insert_lane session_id lane_id handle session sv =
     (let generation = sv_next_generation sv in
      (generation,
       sv\<lparr>sv_next_generation := generation + 1,
          sv_sessions := (sv_sessions sv)(session_id \<mapsto>
            session\<lparr>ses_lanes := (ses_lanes session)(lane_id \<mapsto>
              \<lparr>lr_handle = handle, lr_generation = generation\<rparr>)\<rparr>)\<rparr>))"

definition spawn_register ::
    "SessionId \<Rightarrow> LaneId \<Rightarrow> nat \<Rightarrow> ('s, 'w) ServerInner \<Rightarrow> (ServerError + nat) \<times> ('s, 'w) ServerInner" where
  "spawn_register session_id lane_id handle sv =
     (case sv_sessions sv session_id of
        None \<Rightarrow> (Inl (SvSessionNotFound session_id), sv)
      | Some session \<Rightarrow>
          if ses_lanes session lane_id \<noteq> None then (Inl (SvLaneAlreadyExists lane_id), sv)
          else (case insert_lane session_id lane_id handle session sv of (g, sv) \<Rightarrow> (Inr g, sv)))"

definition fork_register ::
    "SessionId \<Rightarrow> LaneId \<Rightarrow> LaneId \<Rightarrow> nat \<Rightarrow> ('s, 'w) ServerInner
       \<Rightarrow> (ServerError + nat) \<times> ('s, 'w) ServerInner" where
  "fork_register session_id from_lane new_lane handle sv =
     (case sv_sessions sv session_id of
        None \<Rightarrow> (Inl (SvSessionNotFound session_id), sv)
      | Some session \<Rightarrow>
          if ses_lanes session new_lane \<noteq> None then (Inl (SvLaneAlreadyExists new_lane), sv)
          else if ses_lanes session from_lane = None then (Inl (SvLaneNotFound from_lane), sv)
          else (case insert_lane session_id new_lane handle session sv of (g, sv) \<Rightarrow> (Inr g, sv)))"

definition register_lane ::
    "'w lane_job \<Rightarrow> nat \<Rightarrow> ('s, 'w) ServerInner \<Rightarrow> (ServerError + nat) \<times> ('s, 'w) ServerInner" where
  "register_lane job handle sv =
     (case lj_from job of
        None \<Rightarrow> spawn_register (lj_session job) (lj_lane job) handle sv
      | Some from_lane \<Rightarrow> fork_register (lj_session job) from_lane (lj_lane job) handle sv)"

definition head_store :: "'s backend \<Rightarrow> bool \<Rightarrow> 's put_head_op option" where
  "head_store be has_heads = (if has_heads then Some (be_put_head be) else None)"

text \<open>An operation on the storage behind an index.\<close>

definition at_storage ::
    "nat \<Rightarrow> (bool \<Rightarrow> 's SharedSessionStorage \<Rightarrow> 'r \<times> 's SharedSessionStorage) \<Rightarrow> ('s, 'w) ServerInner
       \<Rightarrow> 'r \<times> ('s, 'w) ServerInner" where
  "at_storage a f sv =
     (case sv_storages sv ! a of
        (has_heads, sh) \<Rightarrow>
          (case f has_heads sh of
             (r, sh) \<Rightarrow> (r, sv\<lparr>sv_storages := (sv_storages sv)[a := (has_heads, sh)]\<rparr>)))"

definition remove_lane_if_generation ::
    "SessionId \<Rightarrow> LaneId \<Rightarrow> nat \<Rightarrow> ('s, 'w) ServerInner \<Rightarrow> ('s, 'w) ServerInner" where
  "remove_lane_if_generation sid lane_id generation sv =
     (case sv_sessions sv sid of
        None \<Rightarrow> sv
      | Some session \<Rightarrow>
          (case ses_lanes session lane_id of
             None \<Rightarrow> sv
           | Some lane \<Rightarrow>
               if lr_generation lane = generation
               then sv\<lparr>sv_sessions := (sv_sessions sv)(sid \<mapsto>
                      session\<lparr>ses_lanes := (ses_lanes session)(lane_id := None)\<rparr>)\<rparr>
               else sv))"

text \<open>
  \<open>AgentHandle::shutdown\<close>: the runtime exits, possibly after a last few events
  (\<open>Some final\<close>), or the wait times out and the handle is dropped.
\<close>

definition update_task :: "nat \<Rightarrow> ('w lane_task \<Rightarrow> 'w lane_task) \<Rightarrow> ('s, 'w) ServerInner \<Rightarrow> ('s, 'w) ServerInner" where
  "update_task h f sv = sv\<lparr>sv_tasks := (sv_tasks sv)[h := f (sv_tasks sv ! h)]\<rparr>"

definition shutdown_handle ::
    "'w Agent option \<Rightarrow> nat \<Rightarrow> ('s, 'w) ServerInner \<Rightarrow> (AgentError + unit) \<times> ('s, 'w) ServerInner" where
  "shutdown_handle final h sv =
     (if ag_exited (tk_agent (sv_tasks sv ! h)) then (Inr (), sv)
      else case final of
             Some ag \<Rightarrow> (Inr (), update_task h (\<lambda>t. t\<lparr>tk_agent := ag\<lparr>ag_exited := True\<rparr>\<rparr>) sv)
           | None \<Rightarrow> (Inl (AeOther ''shutdown timeout''), update_task h (\<lambda>t. t\<lparr>tk_stop := StopTimedOut\<rparr>) sv))"

text \<open>\<open>cleanup_handle\<close> only logs a failed shutdown.\<close>

definition cleanup_handle :: "'w Agent option \<Rightarrow> nat \<Rightarrow> ('s, 'w) ServerInner \<Rightarrow> ('s, 'w) ServerInner" where
  "cleanup_handle final h sv = snd (shutdown_handle final h sv)"

definition remove_session_if_empty :: "SessionId \<Rightarrow> ('s, 'w) ServerInner \<Rightarrow> ('s, 'w) ServerInner" where
  "remove_session_if_empty sid sv =
     (case sv_sessions sv sid of
        None \<Rightarrow> sv
      | Some session \<Rightarrow>
          if dom (ses_lanes session) = {} then sv\<lparr>sv_sessions := (sv_sessions sv)(sid := None)\<rparr> else sv)"

section \<open>The bridge (lane.rs)\<close>

text \<open>
  One iteration of the task of \<open>spawn_bridge\<close>: the next event of the agent, or, when more
  than \<open>capacity\<close> events wait in the broadcast channel, a gap.
\<close>

definition waiting :: "'w lane_task \<Rightarrow> nat" where
  "waiting t = length (st_events (ag_run (tk_agent t))) - tk_seen t"

definition bridge_recv :: "'s backend \<Rightarrow> nat \<Rightarrow> nat \<Rightarrow> ('s, 'w) ServerInner \<Rightarrow> ('s, 'w) ServerInner" where
  "bridge_recv be capacity h sv =
     (let t = sv_tasks sv ! h; events = st_events (ag_run (tk_agent t)) in
      if waiting t = 0 then sv
      else if capacity < waiting t
      then update_task h (\<lambda>t. t\<lparr>tk_seen := length events - capacity\<rparr>) sv
      else
        (let sv = update_task h (\<lambda>t. t\<lparr>tk_seen := tk_seen t + 1\<rparr>) sv in
         case events ! tk_seen t of
           MessageEnd message \<Rightarrow>
             (case at_storage (tk_storage t)
                     (\<lambda>has_heads sh.
                        case writer_append (be_append be) (head_store be has_heads) message (tk_writer t) sh of
                          (r, w, sh) \<Rightarrow> ((r, w), sh)) sv of
                ((_, w), sv) \<Rightarrow> update_task h (\<lambda>t. t\<lparr>tk_writer := w\<rparr>) sv)
         | _ \<Rightarrow> sv))"

section \<open>Routing (lane\_ops.rs)\<close>

definition get_lane :: "SessionId \<Rightarrow> LaneId \<Rightarrow> ('s, 'w) ServerInner \<Rightarrow> ServerError + nat" where
  "get_lane sid lane_id sv =
     (case sv_sessions sv sid of
        None \<Rightarrow> Inl (SvSessionNotFound sid)
      | Some session \<Rightarrow>
          (case ses_lanes session lane_id of
             None \<Rightarrow> Inl (SvLaneNotFound lane_id)
           | Some lane \<Rightarrow> Inr (lr_handle lane)))"

text \<open>\<open>None\<close>: the caller waits for room in the command channel.\<close>

definition route_command ::
    "AgentCommand \<Rightarrow> SessionId \<Rightarrow> LaneId \<Rightarrow> ('s, 'w) ServerInner
       \<Rightarrow> ((ServerError + unit) \<times> ('s, 'w) ServerInner) option" where
  "route_command cmd sid lane_id sv =
     (case get_lane sid lane_id sv of
        Inl e \<Rightarrow> Some (Inl e, sv)
      | Inr h \<Rightarrow>
          (case handle_send cmd (tk_agent (sv_tasks sv ! h)) of
             None \<Rightarrow> None
           | Some (Inl e) \<Rightarrow> Some (Inl (SvAgent (agent_error_text e)), sv)
           | Some (Inr ag) \<Rightarrow> Some (Inr (), update_task h (\<lambda>t. t\<lparr>tk_agent := ag\<rparr>) sv)))"

definition server_prompt ::
    "SessionId \<Rightarrow> LaneId \<Rightarrow> Message list \<Rightarrow> ('s, 'w) ServerInner
       \<Rightarrow> ((ServerError + unit) \<times> ('s, 'w) ServerInner) option" where
  "server_prompt sid lane_id messages = route_command (Prompt messages) sid lane_id"

definition server_continue ::
    "SessionId \<Rightarrow> LaneId \<Rightarrow> ('s, 'w) ServerInner \<Rightarrow> ((ServerError + unit) \<times> ('s, 'w) ServerInner) option" where
  "server_continue = route_command Continue"

definition server_reset ::
    "SessionId \<Rightarrow> LaneId \<Rightarrow> ('s, 'w) ServerInner \<Rightarrow> ((ServerError + unit) \<times> ('s, 'w) ServerInner) option" where
  "server_reset = route_command Reset"

definition server_abort ::
    "SessionId \<Rightarrow> LaneId \<Rightarrow> ('s, 'w) ServerInner \<Rightarrow> (ServerError + unit) \<times> ('s, 'w) ServerInner" where
  "server_abort sid lane_id sv =
     (case get_lane sid lane_id sv of
        Inl e \<Rightarrow> (Inl e, sv)
      | Inr h \<Rightarrow> (Inr (), update_task h (\<lambda>t. t\<lparr>tk_agent := handle_abort (tk_agent t)\<rparr>) sv))"

definition server_snapshot :: "SessionId \<Rightarrow> LaneId \<Rightarrow> ('s, 'w) ServerInner \<Rightarrow> AgentSnapshot option" where
  "server_snapshot sid lane_id sv =
     Option.bind (sv_sessions sv sid) (\<lambda>session.
       Option.bind (ses_lanes session lane_id) (\<lambda>lane.
         Some (st_snapshot (ag_run (tk_agent (sv_tasks sv ! lr_handle lane))))))"

text \<open>A receiver is the task it listens to and the number of events already sent.\<close>

definition server_subscribe :: "SessionId \<Rightarrow> LaneId \<Rightarrow> ('s, 'w) ServerInner \<Rightarrow> (nat \<times> nat) option" where
  "server_subscribe sid lane_id sv =
     Option.bind (sv_sessions sv sid) (\<lambda>session.
       Option.bind (ses_lanes session lane_id) (\<lambda>lane.
         Some (lr_handle lane, length (st_events (ag_run (tk_agent (sv_tasks sv ! lr_handle lane)))))))"

end
