(* ===== verification/Server_Steps.thy ===== *)
theory Server_Steps
  imports Server
begin

text \<open>
  The operations of the server as sequences of sections, and all their interleavings: the
  spawn, fork and resume of lanes (\<open>server/lane.rs\<close>, \<open>lane_recovery.rs\<close>) and the shutdown
  (\<open>lane_ops.rs\<close>), each a program counter that \<open>client_step\<close> advances by one section.
\<close>

section \<open>Operations\<close>

text \<open>The jobs the entry points start.\<close>

definition spawn_lane :: "SessionId \<Rightarrow> LaneId \<Rightarrow> AgentConfig \<Rightarrow> 'w \<Rightarrow> 'w lane_job" where
  "spawn_lane sid lane_id config runtime =
     \<lparr>lj_session = sid, lj_lane = lane_id, lj_from = None, lj_config = config, lj_world = runtime,
      lj_transcript = [], lj_head = None, lj_persist = True, lj_own_session = False\<rparr>"

definition spawn_lane_resumed ::
    "SessionId \<Rightarrow> LaneId \<Rightarrow> AgentConfig \<Rightarrow> 'w \<Rightarrow> Message list \<Rightarrow> NodeId option \<Rightarrow> 'w lane_job" where
  "spawn_lane_resumed sid lane_id config runtime transcript head =
     \<lparr>lj_session = sid, lj_lane = lane_id, lj_from = None, lj_config = config, lj_world = runtime,
      lj_transcript = transcript, lj_head = head, lj_persist = False, lj_own_session = False\<rparr>"

definition fork_lane :: "SessionId \<Rightarrow> LaneId \<Rightarrow> LaneId \<Rightarrow> AgentConfig \<Rightarrow> 'w \<Rightarrow> 'w lane_job" where
  "fork_lane sid from_lane new_lane config runtime =
     \<lparr>lj_session = sid, lj_lane = new_lane, lj_from = Some from_lane, lj_config = config,
      lj_world = runtime, lj_transcript = [], lj_head = None, lj_persist = True, lj_own_session = False\<rparr>"

definition spawn_lane_from_factory ::
    "SessionId \<Rightarrow> LaneId \<Rightarrow> ('s, 'w) ServerInner \<Rightarrow> ServerError + 'w lane_job" where
  "spawn_lane_from_factory sid lane_id sv =
     (case sv_runtime_factory sv of
        None \<Rightarrow> Inl (SvProtocol ''no runtime factory'')
      | Some (config, runtime) \<Rightarrow> Inr (spawn_lane sid lane_id config runtime))"

text \<open>Where an operation stands.\<close>

datatype ('s, 'w) pc =
    PcResume SessionId LaneId "NodeId option"
  | PcResumeRead SessionId LaneId "NodeId option" AgentConfig 'w nat
  | PcLoad SessionId LaneId "NodeId option"
  | PcLoadRegister "bool \<times> 's SharedSessionStorage" "'w lane_job"
  | PcCheck "'w lane_job"
  | PcFork "'w lane_job" nat nat
  | PcStart "'w lane_job" nat "NodeId option"
  | PcRegister "'w lane_job" nat "NodeId option" nat
  | PcPersist "'w lane_job" nat "NodeId option" nat nat
  | PcRemove "'w lane_job" nat nat ServerError
  | PcCleanup "'w lane_job" nat ServerError
  | PcRollback SessionId ServerError
  | PcDrain
  | PcStop "nat list" "nat list"
  | PcJoin "nat list" "nat list"
  | PcClosed "nat list"
  | PcDone "ServerError + unit"
  | PcPanic

text \<open>The outcome of a read of the storage: the head and transcript to resume at.\<close>

definition resumed_at ::
    "LaneId \<Rightarrow> NodeId option \<Rightarrow> (SessionError, SessionTree \<times> (LaneId \<rightharpoonup> NodeId option)) outcome
       \<Rightarrow> (ServerError, NodeId option \<times> Message list) outcome" where
  "resumed_at lane_id head r =
     (case r of
        Err e \<Rightarrow> Err (SvSession e)
      | Panic \<Rightarrow> Panic
      | Ok (tree, heads) \<Rightarrow>
          (case resolve_resume_head tree head (heads lane_id) of
             None \<Rightarrow> Panic
           | Some (Inl e) \<Rightarrow> Err e
           | Some (Inr target) \<Rightarrow> Ok target))"

text \<open>The bundle factory first, then the plain one.\<close>

definition storage_for :: "SessionId \<Rightarrow> ('s, 'w) ServerInner \<Rightarrow> ServerError + bool \<times> 's SharedSessionStorage" where
  "storage_for sid sv =
     (case sv_bundle_factory sv of
        Some bundle_factory \<Rightarrow>
          (let bundle = bundle_factory sid in Inr (sb_has_heads bundle, shared_new (sb_storage bundle)))
      | None \<Rightarrow>
          (case sv_storage_factory sv of
             Some factory \<Rightarrow> Inr (False, shared_new (factory sid))
           | None \<Rightarrow> Inl (SvProtocol
               ''no storage factory (set with_storage_factory or with_storage_bundle_factory)'')))"

text \<open>What the environment decides: how a shutdown of a handle ends, and the order in which
  the registry is drained.\<close>

record 'w env =
  en_final :: "'w Agent option"
  en_order :: "nat list"

definition spawn_failed :: "'w lane_job \<Rightarrow> ServerError \<Rightarrow> ('s, 'w) pc" where
  "spawn_failed job e = (if lj_own_session job then PcRollback (lj_session job) e else PcDone (Inl e))"

definition abandon :: "nat list \<Rightarrow> ('s, 'w) ServerInner \<Rightarrow> ('s, 'w) ServerInner" where
  "abandon hs sv = fold (\<lambda>h. update_task h (\<lambda>t. t\<lparr>tk_stop := (if tk_stop t = InUse then NeverStopped else tk_stop t)\<rparr>)) hs sv"

text \<open>The bridge of a lane has ended: no more events can come and all have been received.\<close>

definition bridge_finished :: "'w lane_task \<Rightarrow> bool" where
  "bridge_finished t = (ag_exited (tk_agent t) \<and> waiting t = 0)"

definition heads_op :: "'s backend \<Rightarrow> bool \<Rightarrow> 's heads_op option" where
  "heads_op be has_heads = (if has_heads then Some (be_heads be) else None)"

definition resume_step ::
    "'s backend \<Rightarrow> ('s, 'w) pc \<Rightarrow> ('s, 'w) ServerInner \<Rightarrow> ('s, 'w) pc \<times> ('s, 'w) ServerInner" where
  "resume_step be pc sv =
     (case pc of
        PcResume sid lane_id head \<Rightarrow>
          (case sv_runtime_factory sv of
             None \<Rightarrow> (PcDone (Inl (SvProtocol ''no runtime factory'')), sv)
           | Some (config, runtime) \<Rightarrow>
               (case sv_sessions sv sid of
                  None \<Rightarrow> (PcDone (Inl (SvSessionNotFound sid)), sv)
                | Some session \<Rightarrow>
                    (PcResumeRead sid lane_id head config runtime (ses_storage session), sv)))
      | PcResumeRead sid lane_id head config runtime a \<Rightarrow>
          (case at_storage a (\<lambda>has_heads. snapshot (be_load be) (heads_op be has_heads)) sv of
             (r, sv) \<Rightarrow>
               (case resumed_at lane_id head r of
                  Panic \<Rightarrow> (PcPanic, sv)
                | Err e \<Rightarrow> (PcDone (Inl e), sv)
                | Ok (head, transcript) \<Rightarrow>
                    (PcCheck (spawn_lane_resumed sid lane_id config runtime transcript head), sv)))
      | _ \<Rightarrow> (pc, sv))"

definition load_and_resume_step ::
    "'s backend \<Rightarrow> ('s, 'w) pc \<Rightarrow> ('s, 'w) ServerInner \<Rightarrow> ('s, 'w) pc \<times> ('s, 'w) ServerInner" where
  "load_and_resume_step be pc sv =
     (case pc of
        PcLoad sid lane_id head \<Rightarrow>
          (case storage_for sid sv of
             Inl e \<Rightarrow> (PcDone (Inl e), sv)
           | Inr (has_heads, sh) \<Rightarrow>
               (case snapshot (be_load be) (heads_op be has_heads) sh of
                  (r, sh) \<Rightarrow>
                    (case resumed_at lane_id head r of
                       Panic \<Rightarrow> (PcPanic, sv)
                     | Err e \<Rightarrow> (PcDone (Inl e), sv)
                     | Ok (head, transcript) \<Rightarrow>
                         (case sv_runtime_factory sv of
                            None \<Rightarrow> (PcDone (Inl (SvProtocol ''no runtime factory'')), sv)
                          | Some (config, runtime) \<Rightarrow>
                              (PcLoadRegister (has_heads, sh)
                                 ((spawn_lane_resumed sid lane_id config runtime transcript head)
                                    \<lparr>lj_own_session := True\<rparr>), sv)))))
      | PcLoadRegister st job \<Rightarrow>
          (case register_session (lj_session job) st sv of
             (Inl e, sv) \<Rightarrow> (PcDone (Inl e), sv)
           | (Inr _, sv) \<Rightarrow> (PcCheck job, sv))
      | PcRollback sid e \<Rightarrow> (PcDone (Inl e), remove_session_if_empty sid sv)
      | _ \<Rightarrow> (pc, sv))"

definition fork_step ::
    "('s, 'w) pc \<Rightarrow> ('s, 'w) ServerInner \<Rightarrow> ('s, 'w) pc \<times> ('s, 'w) ServerInner" where
  "fork_step pc sv =
     (case pc of
        PcCheck job \<Rightarrow>
          (case fork_check (lj_session job) (the (lj_from job)) (lj_lane job) sv of
             Inl e \<Rightarrow> (spawn_failed job e, sv)
           | Inr (a, source) \<Rightarrow> (PcFork job a source, sv))
      | PcFork job a source \<Rightarrow> (PcStart job a (lw_head (tk_writer (sv_tasks sv ! source))), sv)
      | _ \<Rightarrow> (pc, sv))"

text \<open>After the first check, a fork takes the steps of a spawn.\<close>

definition spawn_step ::
    "'s backend \<Rightarrow> 'w env \<Rightarrow> ('s, 'w) pc \<Rightarrow> ('s, 'w) ServerInner \<Rightarrow> ('s, 'w) pc \<times> ('s, 'w) ServerInner" where
  "spawn_step be env pc sv =
     (case pc of
        PcCheck job \<Rightarrow>
          (case spawn_check (lj_session job) (lj_lane job) sv of
             Inl e \<Rightarrow> (spawn_failed job e, sv)
           | Inr a \<Rightarrow> (PcStart job a (lj_head job), sv))
      | PcStart job a head \<Rightarrow> (case start_task job a head sv of (h, sv) \<Rightarrow> (PcRegister job a head h, sv))
      | PcRegister job a head h \<Rightarrow>
          (case register_lane job h sv of
             (Inl e, sv) \<Rightarrow> (PcCleanup job h e, sv)
           | (Inr generation, sv) \<Rightarrow>
               (if lj_persist job then PcPersist job a head h generation else PcDone (Inr ()), sv))
      | PcPersist job a head h generation \<Rightarrow>
          (case at_storage a
                  (\<lambda>has_heads. persist_initial_head (head_store be has_heads) (lj_lane job) head) sv of
             (Inr _, sv) \<Rightarrow> (PcDone (Inr ()), sv)
           | (Inl e, sv) \<Rightarrow> (PcRemove job h generation (SvSession e), sv))
      | PcRemove job h generation e \<Rightarrow>
          (PcCleanup job h e, remove_lane_if_generation (lj_session job) (lj_lane job) generation sv)
      | PcCleanup job h e \<Rightarrow> (spawn_failed job e, cleanup_handle (en_final env) h sv)
      | _ \<Rightarrow> (pc, sv))"

definition shutdown_step ::
    "'w env \<Rightarrow> ('s, 'w) pc \<Rightarrow> ('s, 'w) ServerInner \<Rightarrow> ('s, 'w) pc \<times> ('s, 'w) ServerInner" where
  "shutdown_step env pc sv =
     (case pc of
        PcDrain \<Rightarrow> (PcStop (en_order env) (en_order env), sv\<lparr>sv_sessions := Map.empty\<rparr>)
      | PcStop [] all \<Rightarrow> (PcJoin all all, sv)
      | PcStop (h # todo) all \<Rightarrow>
          (case shutdown_handle (en_final env) h sv of
             (Inr _, sv) \<Rightarrow> (PcStop todo all, sv)
           | (Inl e, sv) \<Rightarrow> (PcDone (Inl (SvAgent (agent_error_text e))), abandon todo sv))
      | PcJoin [] all \<Rightarrow> (PcClosed all, sv)
      | PcJoin (h # todo) all \<Rightarrow>
          (if bridge_finished (sv_tasks sv ! h) then (PcJoin todo all, sv) else (pc, sv))
      | _ \<Rightarrow> (pc, sv))"

definition client_step ::
    "'s backend \<Rightarrow> 'w env \<Rightarrow> ('s, 'w) pc \<Rightarrow> ('s, 'w) ServerInner \<Rightarrow> ('s, 'w) pc \<times> ('s, 'w) ServerInner" where
  "client_step be env pc sv =
     (case pc of
        PcResume _ _ _ \<Rightarrow> resume_step be pc sv
      | PcResumeRead _ _ _ _ _ _ \<Rightarrow> resume_step be pc sv
      | PcLoad _ _ _ \<Rightarrow> load_and_resume_step be pc sv
      | PcLoadRegister _ _ \<Rightarrow> load_and_resume_step be pc sv
      | PcRollback _ _ \<Rightarrow> load_and_resume_step be pc sv
      | PcCheck job \<Rightarrow> if lj_from job = None then spawn_step be env pc sv else fork_step pc sv
      | PcFork _ _ _ \<Rightarrow> fork_step pc sv
      | PcDrain \<Rightarrow> shutdown_step env pc sv
      | PcStop _ _ \<Rightarrow> shutdown_step env pc sv
      | PcJoin _ _ \<Rightarrow> shutdown_step env pc sv
      | _ \<Rightarrow> spawn_step be env pc sv)"

section \<open>Interleavings\<close>

type_synonym ('s, 'w) system = "(nat \<Rightarrow> ('s, 'w) pc) \<times> ('s, 'w) ServerInner"

definition reg :: "('s, 'w) ServerInner \<Rightarrow> SessionId \<Rightarrow> LaneId \<Rightarrow> nat \<Rightarrow> nat \<Rightarrow> bool" where
  "reg sv sid l h g =
     (\<exists>session. sv_sessions sv sid = Some session \<and>
        ses_lanes session l = Some \<lparr>lr_handle = h, lr_generation = g\<rparr>)"

definition registered :: "('s, 'w) ServerInner \<Rightarrow> nat set" where
  "registered sv = {h. \<exists>sid l g. reg sv sid l h g}"

text \<open>
  The events of an agent only grow, and it does not exit by itself while its handle is in use.
  An agent whose handle was given up may end sooner or later.
\<close>

definition evolves :: "'w Agent \<Rightarrow> 'w Agent \<Rightarrow> bool" where
  "evolves ag ag' =
     ((\<exists>es. st_events (ag_run ag') = st_events (ag_run ag) @ es) \<and> ag_exited ag' = ag_exited ag)"

fun idle :: "('s, 'w) pc \<Rightarrow> bool" where
  "idle (PcDone _) = True" | "idle (PcClosed _) = True" | "idle _ = False"

fun entry :: "('s, 'w) pc \<Rightarrow> bool" where
  "entry (PcCheck job) = (\<not> lj_own_session job)"
| "entry (PcResume _ _ _) = True" | "entry (PcLoad _ _ _) = True" | "entry PcDrain = True"
| "entry _ = False"

inductive sys_step :: "'s backend \<Rightarrow> nat \<Rightarrow> ('s, 'w) system \<Rightarrow> ('s, 'w) system \<Rightarrow> bool" for be capacity where
  client: "client_step be env (pcs c) sv = (pc', sv') \<Longrightarrow>
    (pcs c = PcDrain \<Longrightarrow> distinct (en_order env) \<and> set (en_order env) = registered sv) \<Longrightarrow>
    sys_step be capacity (pcs, sv) (pcs(c := pc'), sv')"
| begin_op: "idle (pcs c) \<Longrightarrow> entry pc \<Longrightarrow> sys_step be capacity (pcs, sv) (pcs(c := pc), sv)"
| session: "register_session sid st sv = (r, sv') \<Longrightarrow> sys_step be capacity (pcs, sv) (pcs, sv')"
| agent: "h < length (sv_tasks sv) \<Longrightarrow> \<not> ag_exited (tk_agent (sv_tasks sv ! h)) \<Longrightarrow>
    evolves (tk_agent (sv_tasks sv ! h)) ag \<Longrightarrow>
    sys_step be capacity (pcs, sv) (pcs, update_task h (\<lambda>t. t\<lparr>tk_agent := ag\<rparr>) sv)"
| agent_ends: "h < length (sv_tasks sv) \<Longrightarrow> \<not> ag_exited (tk_agent (sv_tasks sv ! h)) \<Longrightarrow>
    tk_stop (sv_tasks sv ! h) \<noteq> InUse \<Longrightarrow> evolves (tk_agent (sv_tasks sv ! h)) ag \<Longrightarrow>
    sys_step be capacity (pcs, sv) (pcs, update_task h (\<lambda>t. t\<lparr>tk_agent := ag\<lparr>ag_exited := True\<rparr>\<rparr>) sv)"
| bridge: "h < length (sv_tasks sv) \<Longrightarrow> sys_step be capacity (pcs, sv) (pcs, bridge_recv be capacity h sv)"
| allocate: "sys_step be capacity (pcs, sv) (pcs, snd (allocate_session_id sv))"

inductive reachable :: "'s backend \<Rightarrow> nat \<Rightarrow> ('s, 'w) system \<Rightarrow> bool" for be capacity where
  start: "\<forall>c. idle (pcs c) \<and> (\<forall>hs. pcs c \<noteq> PcClosed hs) \<Longrightarrow> sv_sessions sv = Map.empty \<Longrightarrow> sv_tasks sv = [] \<Longrightarrow>
    reachable be capacity (pcs, sv)"
| step: "reachable be capacity st \<Longrightarrow> sys_step be capacity st st' \<Longrightarrow> reachable be capacity st'"

section \<open>Ownership\<close>

lemmas step_defs = client_step_def resume_step_def load_and_resume_step_def fork_step_def spawn_step_def
  shutdown_step_def

definition released :: "'w lane_task \<Rightarrow> bool" where
  "released t = (ag_exited (tk_agent t) \<or> tk_stop t \<noteq> InUse)"

text \<open>Tasks that only the operation holds, started and never registered, and the handle and
  generation under which a client registered its task.\<close>

fun holds :: "('s, 'w) pc \<Rightarrow> nat set" where
  "holds (PcRegister _ _ _ h) = {h}"
| "holds (PcCleanup _ h _) = {h}"
| "holds (PcStop todo _) = set todo"
| "holds _ = {}"

fun fresh :: "('s, 'w) pc \<Rightarrow> nat set" where
  "fresh (PcRegister _ _ _ h) = {h}"
| "fresh _ = {}"

fun claims :: "('s, 'w) pc \<Rightarrow> (nat \<times> nat \<times> SessionId \<times> LaneId) set" where
  "claims (PcPersist job _ _ h g) = {(h, g, lj_session job, lj_lane job)}"
| "claims (PcRemove job h g _) = {(h, g, lj_session job, lj_lane job)}"
| "claims _ = {}"

definition registry_ok :: "('s, 'w) ServerInner \<Rightarrow> bool" where
  "registry_ok sv =
     ((\<forall>sid l h g. reg sv sid l h g \<longrightarrow>
         h < length (sv_tasks sv) \<and> g < sv_next_generation sv \<and> \<not> released (sv_tasks sv ! h)) \<and>
      (\<forall>sid l h g sid' l' h' g'. reg sv sid l h g \<longrightarrow> reg sv sid' l' h' g' \<longrightarrow> h = h' \<or> g = g' \<longrightarrow>
         sid = sid' \<and> l = l' \<and> h = h' \<and> g = g'))"

definition claim_ok :: "('s, 'w) ServerInner \<Rightarrow> nat \<times> nat \<times> SessionId \<times> LaneId \<Rightarrow> bool" where
  "claim_ok sv x = (case x of (h, g, sid, l) \<Rightarrow>
     h < length (sv_tasks sv) \<and> g < sv_next_generation sv \<and>
     (\<forall>sid' l' h' g'. reg sv sid' l' h' g' \<longrightarrow> h = h' \<or> g = g' \<longrightarrow>
        sid = sid' \<and> l = l' \<and> h = h' \<and> g = g'))"

definition pc_ok :: "('s, 'w) pc \<Rightarrow> ('s, 'w) ServerInner \<Rightarrow> bool" where
  "pc_ok pc sv =
     ((\<forall>h \<in> holds pc. h < length (sv_tasks sv) \<and> h \<notin> registered sv) \<and>
      (\<forall>h \<in> fresh pc. \<not> released (sv_tasks sv ! h)) \<and> (\<forall>x \<in> claims pc. claim_ok sv x))"

definition owned :: "('s, 'w) system \<Rightarrow> bool" where
  "owned st = (case st of (pcs, sv) \<Rightarrow>
     registry_ok sv \<and> (\<forall>c. pc_ok (pcs c) sv) \<and>
     (\<forall>c c'. c \<noteq> c' \<longrightarrow> fresh (pcs c) \<inter> (holds (pcs c') \<union> fst ` claims (pcs c')) = {}) \<and>
     (\<forall>h < length (sv_tasks sv). h \<in> registered sv \<or> released (sv_tasks sv ! h) \<or> (\<exists>c. h \<in> holds (pcs c))))"

text \<open>What the operations on the state do to the registry.\<close>

lemma update_task_simps [simp]:
  "reg (update_task h f sv) = reg sv" "sv_next_generation (update_task h f sv) = sv_next_generation sv"
  "length (sv_tasks (update_task h f sv)) = length (sv_tasks sv)"
  "sv_sessions (update_task h f sv) = sv_sessions sv"
  by (auto simp: update_task_def reg_def fun_eq_iff)

lemma update_task_nth:
  "k < length (sv_tasks sv) \<Longrightarrow>
     sv_tasks (update_task h f sv) ! k = (if k = h then f (sv_tasks sv ! h) else sv_tasks sv ! k)"
  by (simp add: update_task_def nth_list_update)

lemma at_storage_frame:
  assumes "at_storage a f sv = (r, sv')"
  shows "reg sv' = reg sv" "sv_next_generation sv' = sv_next_generation sv" "sv_tasks sv' = sv_tasks sv"
    "sv_sessions sv' = sv_sessions sv"
  using assms by (auto simp: at_storage_def reg_def fun_eq_iff split: prod.splits)

lemma at_storage_snd [simp]:
  "reg (snd (at_storage a f sv)) = reg sv"
  "sv_next_generation (snd (at_storage a f sv)) = sv_next_generation sv"
  "sv_tasks (snd (at_storage a f sv)) = sv_tasks sv"
  using at_storage_frame [of a f sv "fst (at_storage a f sv)" "snd (at_storage a f sv)"] by simp_all

lemma register_session_frame:
  assumes "register_session sid st sv = (r, sv')"
  shows "reg sv' = reg sv" "sv_next_generation sv' = sv_next_generation sv" "sv_tasks sv' = sv_tasks sv"
  using assms by (auto simp: register_session_def reg_def fun_eq_iff split: if_splits)

lemma start_task_frame:
  assumes "start_task job a head sv = (h, sv')"
  shows "reg sv' = reg sv" "sv_next_generation sv' = sv_next_generation sv" "h = length (sv_tasks sv)"
    "length (sv_tasks sv') = Suc h" "k < h \<Longrightarrow> sv_tasks sv' ! k = sv_tasks sv ! k"
  using assms by (auto simp: start_task_def reg_def fun_eq_iff nth_append)

lemma register_lane_Inl: "register_lane job h sv = (Inl e, sv') \<Longrightarrow> sv' = sv"
  by (auto simp: register_lane_def spawn_register_def fork_register_def split: option.splits if_splits prod.splits)

lemma register_lane_Inr:
  assumes "register_lane job h sv = (Inr g, sv')"
  shows "g = sv_next_generation sv" "sv_next_generation sv' = Suc g" "sv_tasks sv' = sv_tasks sv"
    and "reg sv' sid l h' g' \<longleftrightarrow> reg sv sid l h' g' \<or>
      sid = lj_session job \<and> l = lj_lane job \<and> h' = h \<and> g' = g"
proof -
  obtain session where s: "sv_sessions sv (lj_session job) = Some session" "ses_lanes session (lj_lane job) = None"
    and i: "insert_lane (lj_session job) (lj_lane job) h session sv = (g, sv')"
    using assms by (auto simp: register_lane_def spawn_register_def fork_register_def
        split: option.splits if_splits prod.splits)
  show "g = sv_next_generation sv" "sv_next_generation sv' = Suc g" "sv_tasks sv' = sv_tasks sv"
    using i by (auto simp: insert_lane_def Let_def)
  show "reg sv' sid l h' g' \<longleftrightarrow> reg sv sid l h' g' \<or>
      sid = lj_session job \<and> l = lj_lane job \<and> h' = h \<and> g' = g"
    using i s by (auto simp: insert_lane_def Let_def reg_def split: if_splits)
qed

lemma remove_lane_frame:
  "reg (remove_lane_if_generation sid l g sv) sid' l' h' g' \<longleftrightarrow>
     reg sv sid' l' h' g' \<and> \<not> (sid' = sid \<and> l' = l \<and> g' = g)"
  "sv_next_generation (remove_lane_if_generation sid l g sv) = sv_next_generation sv"
  "sv_tasks (remove_lane_if_generation sid l g sv) = sv_tasks sv"
  by (auto simp: remove_lane_if_generation_def reg_def split: option.splits if_splits)

lemma remove_session_frame:
  "reg (remove_session_if_empty sid sv) = reg sv"
  "sv_next_generation (remove_session_if_empty sid sv) = sv_next_generation sv"
  "sv_tasks (remove_session_if_empty sid sv) = sv_tasks sv"
  by (auto simp: remove_session_if_empty_def reg_def fun_eq_iff split: option.splits if_splits)

lemma shutdown_handle_frame:
  assumes "shutdown_handle final h sv = (r, sv')"
  shows "reg sv' = reg sv" "sv_next_generation sv' = sv_next_generation sv"
    "length (sv_tasks sv') = length (sv_tasks sv)"
    "k \<noteq> h \<Longrightarrow> k < length (sv_tasks sv) \<Longrightarrow> sv_tasks sv' ! k = sv_tasks sv ! k"
    "h < length (sv_tasks sv) \<Longrightarrow> released (sv_tasks sv' ! h)"
    "ag_exited (tk_agent (sv_tasks sv ! h)) \<Longrightarrow> sv' = sv"
    "r = Inr u \<Longrightarrow> h < length (sv_tasks sv) \<Longrightarrow> ag_exited (tk_agent (sv_tasks sv' ! h))"
  using assms by (auto simp: shutdown_handle_def update_task_nth released_def split: if_splits option.splits)

lemma shutdown_handle_released:
  assumes "shutdown_handle final h sv = (r, sv')" and "h < length (sv_tasks sv)" and "k < length (sv_tasks sv)"
  shows "released (sv_tasks sv' ! k) \<longleftrightarrow> released (sv_tasks sv ! k) \<or> k = h"
  using shutdown_handle_frame(4,5) [OF assms(1)] assms(2,3) by (cases "k = h") auto

lemma abandon_frame:
  "reg (abandon hs sv) = reg sv" "sv_next_generation (abandon hs sv) = sv_next_generation sv"
  "length (sv_tasks (abandon hs sv)) = length (sv_tasks sv)"
  "k < length (sv_tasks sv) \<Longrightarrow> sv_tasks (abandon hs sv) ! k =
     (sv_tasks sv ! k)\<lparr>tk_stop :=
        (if k \<in> set hs \<and> tk_stop (sv_tasks sv ! k) = InUse then NeverStopped else tk_stop (sv_tasks sv ! k))\<rparr>"
  by (induction hs arbitrary: sv) (auto simp: abandon_def update_task_nth)

lemma bridge_recv_frame:
  "reg (bridge_recv be capacity h sv) = reg sv"
  "sv_next_generation (bridge_recv be capacity h sv) = sv_next_generation sv"
  "length (sv_tasks (bridge_recv be capacity h sv)) = length (sv_tasks sv)"
  "k < length (sv_tasks sv) \<Longrightarrow> tk_agent (sv_tasks (bridge_recv be capacity h sv) ! k) = tk_agent (sv_tasks sv ! k)"
  "k < length (sv_tasks sv) \<Longrightarrow> tk_stop (sv_tasks (bridge_recv be capacity h sv) ! k) = tk_stop (sv_tasks sv ! k)"
  "k < length (sv_tasks sv) \<Longrightarrow> waiting (sv_tasks sv ! k) = 0 \<Longrightarrow>
     waiting (sv_tasks (bridge_recv be capacity h sv) ! k) = 0"
  by (auto simp: bridge_recv_def Let_def update_task_nth waiting_def case_prod_beta split: AgentEvent.splits)

text \<open>Steps that add no registration keep the registry and everybody's place.\<close>

definition shrinks :: "('s, 'w) ServerInner \<Rightarrow> ('s, 'w) ServerInner \<Rightarrow> bool" where
  "shrinks sv sv' =
     ((\<forall>sid l h g. reg sv' sid l h g \<longrightarrow> reg sv sid l h g) \<and>
      sv_next_generation sv' = sv_next_generation sv \<and> length (sv_tasks sv) \<le> length (sv_tasks sv'))"

lemma registry_shrink:
  assumes "registry_ok sv" and "shrinks sv sv'"
    and "\<And>h. h \<in> registered sv \<Longrightarrow> released (sv_tasks sv' ! h) \<Longrightarrow> released (sv_tasks sv ! h)"
  shows "registry_ok sv'"
  using assms unfolding registry_ok_def shrinks_def registered_def
  by (metis (mono_tags, lifting) mem_Collect_eq order_less_le_trans)

lemma claim_okI:
  assumes "h < length (sv_tasks sv)" and "g < sv_next_generation sv"
    and "\<And>sid' l' h' g'. reg sv sid' l' h' g' \<Longrightarrow> h = h' \<or> g = g' \<Longrightarrow>
      sid = sid' \<and> l = l' \<and> h = h' \<and> g = g'"
  shows "claim_ok sv (h, g, sid, l)"
  using assms unfolding claim_ok_def by blast

lemma claim_okD:
  assumes "claim_ok sv (h, g, sid, l)"
  shows "h < length (sv_tasks sv)" "g < sv_next_generation sv"
    and "reg sv sid' l' h' g' \<Longrightarrow> h = h' \<or> g = g' \<Longrightarrow> sid = sid' \<and> l = l' \<and> h = h' \<and> g = g'"
  using assms unfolding claim_ok_def prod.case by blast+

lemma claim_shrink: "claim_ok sv x \<Longrightarrow> shrinks sv sv' \<Longrightarrow> claim_ok sv' x"
proof (cases x)
  case (fields h g sid l)
  assume "claim_ok sv x" and sh: "shrinks sv sv'"
  then have c: "claim_ok sv (h, g, sid, l)" using fields by simp
  show ?thesis unfolding fields
  proof (rule claim_okI)
    fix sid' l' h' g' assume "reg sv' sid' l' h' g'" and "h = h' \<or> g = g'"
    then show "sid = sid' \<and> l = l' \<and> h = h' \<and> g = g'"
      using sh claim_okD(3) [OF c] unfolding shrinks_def by blast
  qed (use claim_okD [OF c] sh in \<open>auto simp: shrinks_def\<close>)
qed

lemma pc_shrink:
  assumes "pc_ok pc sv" and "shrinks sv sv'"
    and "\<And>h. h \<in> fresh pc \<Longrightarrow> released (sv_tasks sv' ! h) \<Longrightarrow> released (sv_tasks sv ! h)"
  shows "pc_ok pc sv'"
proof -
  have "registered sv' \<subseteq> registered sv" "length (sv_tasks sv) \<le> length (sv_tasks sv')"
    using assms(2) unfolding shrinks_def registered_def by blast+
  then show ?thesis using assms(1,3) claim_shrink [OF _ assms(2)] by (fastforce simp: pc_ok_def)
qed

lemma fresh_holds: "fresh pc \<subseteq> holds pc"
  by (cases pc) auto

lemma ownedD:
  assumes "owned (pcs, sv)"
  shows "registry_ok sv" "pc_ok (pcs c) sv"
    and "c \<noteq> c' \<Longrightarrow> fresh (pcs c) \<inter> (holds (pcs c') \<union> fst ` claims (pcs c')) = {}"
    and "h < length (sv_tasks sv) \<Longrightarrow>
      h \<in> registered sv \<or> released (sv_tasks sv ! h) \<or> (\<exists>c. h \<in> holds (pcs c))"
  using assms by (auto simp: owned_def)

lemma ownedI:
  assumes "registry_ok sv'" "pc_ok pc' sv'" and "\<And>d. d \<noteq> c \<Longrightarrow> pc_ok (pcs d) sv'"
    and "\<And>d. d \<noteq> c \<Longrightarrow> fresh (pcs d) \<inter> (holds pc' \<union> fst ` claims pc') = {}"
    and "\<And>d. d \<noteq> c \<Longrightarrow> fresh pc' \<inter> (holds (pcs d) \<union> fst ` claims (pcs d)) = {}"
    and "\<And>d d'. d \<noteq> d' \<Longrightarrow> fresh (pcs d) \<inter> (holds (pcs d') \<union> fst ` claims (pcs d')) = {}"
    and "\<And>h. h < length (sv_tasks sv') \<Longrightarrow>
      h \<in> registered sv' \<or> released (sv_tasks sv' ! h) \<or> h \<in> holds pc' \<or> (\<exists>d. d \<noteq> c \<and> h \<in> holds (pcs d))"
  shows "owned (pcs(c := pc'), sv')"
proof -
  have "\<exists>d. h \<in> holds ((pcs(c := pc')) d)" if "h \<in> holds pc' \<or> (\<exists>d. d \<noteq> c \<and> h \<in> holds (pcs d))" for h
    using that by auto
  then have cov: "\<forall>h < length (sv_tasks sv'). h \<in> registered sv' \<or> released (sv_tasks sv' ! h) \<or>
      (\<exists>d. h \<in> holds ((pcs(c := pc')) d))"
    using assms(7) by blast
  have "\<forall>d. pc_ok ((pcs(c := pc')) d) sv'" using assms(2,3) by simp
  moreover have "\<forall>d d'. d \<noteq> d' \<longrightarrow> fresh ((pcs(c := pc')) d) \<inter>
      (holds ((pcs(c := pc')) d') \<union> fst ` claims ((pcs(c := pc')) d')) = {}"
    using assms(4-6) by simp
  ultimately show ?thesis using cov assms(1) by (simp add: owned_def)
qed

lemma held_unregistered: "pc_ok pc sv \<Longrightarrow> h \<in> holds pc \<Longrightarrow> h < length (sv_tasks sv) \<and> h \<notin> registered sv"
  by (simp add: pc_ok_def)

lemma owned_shrink:
  assumes own: "owned (pcs, sv)" and sh: "shrinks sv sv'" and pc': "pc_ok pc' sv'"
    and fr': "fresh pc' = {}" and cl: "fst ` claims pc' \<subseteq> fst ` claims (pcs c)"
    and hold: "\<And>h. h \<in> holds pc' \<Longrightarrow> h \<in> holds (pcs c) \<or> h \<in> fst ` claims (pcs c) \<or> h \<in> registered sv"
    and rel: "\<And>h. h < length (sv_tasks sv) \<Longrightarrow> released (sv_tasks sv' ! h) \<Longrightarrow>
           released (sv_tasks sv ! h) \<or> h \<in> holds (pcs c)"
    and cov: "\<And>h. h < length (sv_tasks sv') \<Longrightarrow> h < length (sv_tasks sv) \<and>
           (released (sv_tasks sv ! h) \<longrightarrow> released (sv_tasks sv' ! h)) \<and>
           (h \<in> registered sv \<or> h \<in> holds (pcs c) \<longrightarrow>
             h \<in> registered sv' \<or> released (sv_tasks sv' ! h) \<or> h \<in> holds pc')"
  shows "owned (pcs(c := pc'), sv')"
proof -
  note o = ownedD [OF own]
  have h': "h < length (sv_tasks sv)" if "h \<in> registered sv" for h
    using that o(1) by (auto simp: registry_ok_def registered_def)
  have un: "fresh (pcs d) \<inter> registered sv = {}" for d
    using held_unregistered [OF o(2) [of d]] fresh_holds by blast
  show ?thesis
  proof (rule ownedI)
    show "registry_ok sv'"
      using rel h' held_unregistered [OF o(2) [of c]] by (intro registry_shrink [OF o(1) sh]) blast
    show "pc_ok (pcs d) sv'" if "d \<noteq> c" for d
      using rel o(3) [OF that] held_unregistered [OF o(2) [of d]] fresh_holds
      by (intro pc_shrink [OF o(2) sh]) blast
    show "fresh (pcs d) \<inter> (holds pc' \<union> fst ` claims pc') = {}" if "d \<noteq> c" for d
      using o(3) [OF that] un [of d] cl hold by blast
    show "h \<in> registered sv' \<or> released (sv_tasks sv' ! h) \<or> h \<in> holds pc' \<or>
        (\<exists>d. d \<noteq> c \<and> h \<in> holds (pcs d))" if "h < length (sv_tasks sv')" for h
    proof -
      have "h \<in> registered sv \<or> released (sv_tasks sv ! h) \<or> (\<exists>d. h \<in> holds (pcs d))"
        using o(4) cov [OF that] by blast
      then show ?thesis using cov [OF that] by auto
    qed
  qed (use pc' fr' o(3) in auto)
qed

definition same_registry :: "('s, 'w) ServerInner \<Rightarrow> ('s, 'w) ServerInner \<Rightarrow> bool" where
  "same_registry sv sv' =
     (reg sv' = reg sv \<and> sv_next_generation sv' = sv_next_generation sv \<and> sv_tasks sv' = sv_tasks sv)"

lemma same_registry_simps [simp]:
  "same_registry sv sv" "same_registry sv (remove_session_if_empty sid sv)"
  by (simp_all add: same_registry_def remove_session_frame)

lemma same_registryD:
  "at_storage a f sv = (r, sv') \<Longrightarrow> same_registry sv sv'"
  "register_session sid st sv = (q, sv') \<Longrightarrow> same_registry sv sv'"
  using at_storage_frame [of a f sv r sv'] register_session_frame [of sid st sv q sv']
  by (simp_all add: same_registry_def)

lemma owned_quiet:
  assumes own: "owned (pcs, sv)" and r: "reg sv' = reg sv"
    and g: "sv_next_generation sv' = sv_next_generation sv"
    and t: "sv_tasks sv' = sv_tasks sv" and h: "holds (pcs c) = {}"
    and h': "holds pc' = {}" "fresh pc' = {}" and cl: "claims pc' \<subseteq> claims (pcs c)"
  shows "owned (pcs(c := pc'), sv')"
proof (rule owned_shrink [OF own])
  have r': "registered sv' = registered sv" using r by (simp add: registered_def)
  have "claim_ok sv' = claim_ok sv" using r g t by (simp add: claim_ok_def fun_eq_iff)
  then show "pc_ok pc' sv'" using ownedD(2) [OF own, of c] h' cl unfolding pc_ok_def by auto
  show "shrinks sv sv'" using r g t by (simp add: shrinks_def)
  show "fst ` claims pc' \<subseteq> fst ` claims (pcs c)" using cl by blast
  fix k assume "k < length (sv_tasks sv')"
  then show "k < length (sv_tasks sv) \<and> (released (sv_tasks sv ! k) \<longrightarrow> released (sv_tasks sv' ! k)) \<and>
      (k \<in> registered sv \<or> k \<in> holds (pcs c) \<longrightarrow>
        k \<in> registered sv' \<or> released (sv_tasks sv' ! k) \<or> k \<in> holds pc')"
    using r' t h by simp
qed (use h' t in auto)

lemma owned_same:
  assumes "owned (pcs, sv)" and "same_registry sv sv'" and "holds (pcs c) = {}" "holds pc' = {}" "fresh pc' = {}"
    and "claims pc' \<subseteq> claims (pcs c)"
  shows "owned (pcs(c := pc'), sv')"
  using owned_quiet [OF assms(1)] assms(2-) by (simp add: same_registry_def)

lemma spawn_failed_quiet [simp]:
  "holds (spawn_failed job e) = {}" "fresh (spawn_failed job e) = {}" "claims (spawn_failed job e) = {}"
  by (simp_all add: spawn_failed_def)

lemma owned_start:
  assumes own: "owned (pcs, sv)" and s: "start_task job a head sv = (h, sv')" and none: "holds (pcs c) = {}"
  shows "owned (pcs(c := PcRegister job a head h), sv')"
proof -
  note f = start_task_frame [OF s] and o = ownedD [OF own]
  have r: "registered sv' = registered sv" using f(1) by (simp add: registered_def)
  have sh: "shrinks sv sv'" using f by (simp add: shrinks_def)
  have new: "h \<notin> holds (pcs d)" "h \<notin> fst ` claims (pcs d)" for d
    using o(2) [of d] f(3) by (fastforce simp: pc_ok_def claim_ok_def)+
  have nr: "h \<notin> registered sv" using o(1) f(3) by (auto simp: registry_ok_def registered_def)
  have old: "released (sv_tasks sv' ! k) \<longleftrightarrow> released (sv_tasks sv ! k)" if "k < length (sv_tasks sv)" for k
    using f(3,5) that by simp
  show ?thesis
  proof (rule ownedI)
    show "registry_ok sv'"
      using old o(1) by (intro registry_shrink [OF o(1) sh]) (auto simp: registry_ok_def registered_def)
    show "pc_ok (pcs d) sv'" for d
      using old held_unregistered [OF o(2) [of d]] fresh_holds by (intro pc_shrink [OF o(2) sh]) blast
    show "pc_ok (PcRegister job a head h) sv'"
      using nr f(4) r s by (auto simp: pc_ok_def start_task_def released_def spawn_with_transcript_def)
    show "fresh (pcs d) \<inter> (holds (PcRegister job a head h) \<union> fst ` claims (PcRegister job a head h)) = {}" for d
      using new(1) [of d] fresh_holds [of "pcs d"] by auto
    show "fresh (PcRegister job a head h) \<inter> (holds (pcs d) \<union> fst ` claims (pcs d)) = {}" for d
      using new [of d] by auto
    show "k \<in> registered sv' \<or> released (sv_tasks sv' ! k) \<or> k \<in> holds (PcRegister job a head h) \<or>
        (\<exists>d. d \<noteq> c \<and> k \<in> holds (pcs d))" if "k < length (sv_tasks sv')" for k
    proof (cases "k = h")
      case False
      then have "k < length (sv_tasks sv)" using that f(3,4) by simp
      then show ?thesis using o(4) [of k] old [of k] r none by auto
    qed simp
  qed (use o(3) in auto)
qed

lemma owned_register:
  assumes own: "owned (pcs, sv)" and pc: "pcs c = PcRegister job a head h"
    and s: "register_lane job h sv = (Inr g, sv')"
    and pc': "pc' = PcPersist job a head h g \<or> pc' = PcDone (Inr ())"
  shows "owned (pcs(c := pc'), sv')"
proof -
  note f = register_lane_Inr [OF s] and o = ownedD [OF own]
  have r: "registered sv' = insert h (registered sv)" by (auto simp: registered_def f(4))
  have h: "h < length (sv_tasks sv)" "h \<notin> registered sv" "\<not> released (sv_tasks sv ! h)"
    using o(2) [of c] pc by (auto simp: pc_ok_def)
  then have new: "\<not> reg sv sid l h g'" for sid l g' by (auto simp: registered_def)
  have other: "h \<notin> holds (pcs d)" "h \<notin> fst ` claims (pcs d)" if "d \<noteq> c" for d
    using o(3) [of c d] that pc by auto
  have lt: "reg sv sid l h' g' \<Longrightarrow> g' < g" for sid l h' g'
    using o(1) f(1) by (auto simp: registry_ok_def)
  have pcd: "pc_ok (pcs d) sv'" if "d \<noteq> c" for d
  proof -
    have "claim_ok sv' x" if x: "x \<in> claims (pcs d)" for x
    proof -
      obtain h1 g1 sid l where e: "x = (h1, g1, sid, l)" by (cases x)
      have "claim_ok sv (h1, g1, sid, l)" using o(2) [of d] x e by (simp add: pc_ok_def)
      note k = claim_okD [OF this]
      have ne: "h1 \<noteq> h" using other(2) [OF \<open>d \<noteq> c\<close>] x e by force
      show ?thesis unfolding e
      proof (rule claim_okI)
        fix sid' l' h' g' assume "reg sv' sid' l' h' g'" and eq: "h1 = h' \<or> g1 = g'"
        then have "reg sv sid' l' h' g'" using ne k(2) f(1) unfolding f(4) by blast
        then show "sid = sid' \<and> l = l' \<and> h1 = h' \<and> g1 = g'" using k(3) eq by blast
      qed (use k f in auto)
    qed
    then show ?thesis using o(2) [of d] other(1) [OF that] f(3) r by (auto simp: pc_ok_def)
  qed
  show ?thesis
  proof (rule ownedI)
    have "h1 < length (sv_tasks sv') \<and> g1 < sv_next_generation sv' \<and> \<not> released (sv_tasks sv' ! h1)"
      if "reg sv' sid1 l1 h1 g1" for sid1 l1 h1 g1
      using that o(1) h f(1-3) by (fastforce simp: registry_ok_def f(4))
    moreover have "sid1 = sid2 \<and> l1 = l2 \<and> h1 = h2 \<and> g1 = g2"
      if "reg sv' sid1 l1 h1 g1" "reg sv' sid2 l2 h2 g2" "h1 = h2 \<or> g1 = g2" for sid1 l1 h1 g1 sid2 l2 h2 g2
    proof -
      have "sid1 = sid2 \<and> l1 = l2 \<and> h1 = h2 \<and> g1 = g2" if "reg sv sid1 l1 h1 g1" "reg sv sid2 l2 h2 g2"
        using that \<open>h1 = h2 \<or> g1 = g2\<close> o(1) unfolding registry_ok_def by blast
      then show ?thesis using that new lt unfolding f(4) by blast
    qed
    ultimately show "registry_ok sv'" unfolding registry_ok_def by blast
    have "claim_ok sv' (h, g, lj_session job, lj_lane job)"
    proof (rule claim_okI)
      fix sid' l' h' g' assume "reg sv' sid' l' h' g'" and "h = h' \<or> g = g'"
      then show "lj_session job = sid' \<and> lj_lane job = l' \<and> h = h' \<and> g = g'"
        using new lt unfolding f(4) by blast
    qed (use h f in auto)
    then show "pc_ok pc' sv'" using pc' by (auto simp: pc_ok_def)
    show "fresh (pcs d) \<inter> (holds pc' \<union> fst ` claims pc') = {}" if "d \<noteq> c" for d
      using pc' other(1) [OF that] fresh_holds [of "pcs d"] by auto
    show "k \<in> registered sv' \<or> released (sv_tasks sv' ! k) \<or> k \<in> holds pc' \<or>
        (\<exists>d. d \<noteq> c \<and> k \<in> holds (pcs d))" if "k < length (sv_tasks sv')" for k
    proof -
      have "k \<in> registered sv \<or> released (sv_tasks sv ! k) \<or> (\<exists>d. k \<in> holds (pcs d))"
        using o(4) that f(3) by simp
      moreover have "holds (pcs c) = {h}" using pc by simp
      ultimately show ?thesis using f(3) r by auto
    qed
  qed (use pc' o(3) pcd in auto)
qed

lemma owned_remove:
  assumes own: "owned (pcs, sv)" and pc: "pcs c = PcRemove job h g e"
  shows "owned (pcs(c := PcCleanup job h e),
    remove_lane_if_generation (lj_session job) (lj_lane job) g sv)" (is "owned (_, ?sv)")
proof (rule owned_shrink [OF own])
  have c: "claim_ok sv (h, g, lj_session job, lj_lane job)"
    using ownedD(2) [OF own, of c] pc by (simp add: pc_ok_def)
  have gone: "\<not> reg ?sv sid l h g'" for sid l g'
    using claim_okD(3) [OF c] unfolding remove_lane_frame by blast
  then show "pc_ok (PcCleanup job h e) ?sv"
    using claim_okD(1) [OF c] by (simp add: pc_ok_def registered_def remove_lane_frame(3))
  show "shrinks sv ?sv" by (simp add: shrinks_def remove_lane_frame)
  fix k assume "k < length (sv_tasks ?sv)"
  moreover have "k \<in> registered sv \<Longrightarrow> k \<in> registered ?sv \<or> k = h"
    using claim_okD(3) [OF c] unfolding registered_def mem_Collect_eq remove_lane_frame by metis
  ultimately show "k < length (sv_tasks sv) \<and> (released (sv_tasks sv ! k) \<longrightarrow> released (sv_tasks ?sv ! k)) \<and>
      (k \<in> registered sv \<or> k \<in> holds (pcs c) \<longrightarrow>
        k \<in> registered ?sv \<or> released (sv_tasks ?sv ! k) \<or> k \<in> holds (PcCleanup job h e))"
    using pc by (auto simp: remove_lane_frame)
qed (use pc in \<open>auto simp: remove_lane_frame\<close>)

text \<open>A held task is shut down; the rest of what the client held stays held.\<close>

lemma owned_release:
  assumes own: "owned (pcs, sv)" and r: "reg sv' = reg sv"
    and g: "sv_next_generation sv' = sv_next_generation sv" and len: "length (sv_tasks sv') = length (sv_tasks sv)"
    and hold: "holds pc' \<subseteq> holds (pcs c)" and fr: "fresh pc' = {}" "claims pc' = {}"
    and old: "\<And>k. k < length (sv_tasks sv) \<Longrightarrow> released (sv_tasks sv ! k) \<Longrightarrow> released (sv_tasks sv' ! k)"
    and new: "\<And>k. k < length (sv_tasks sv) \<Longrightarrow> released (sv_tasks sv' ! k) \<Longrightarrow>
      released (sv_tasks sv ! k) \<or> k \<in> holds (pcs c)"
    and rel: "\<And>k. k < length (sv_tasks sv) \<Longrightarrow> k \<in> holds (pcs c) - holds pc' \<Longrightarrow> released (sv_tasks sv' ! k)"
  shows "owned (pcs(c := pc'), sv')"
proof (rule owned_shrink [OF own])
  have r': "registered sv' = registered sv" using r by (simp add: registered_def)
  show "pc_ok pc' sv'" using ownedD(2) [OF own, of c] hold fr unfolding pc_ok_def r' len by auto
  show "shrinks sv sv'" using r g len by (simp add: shrinks_def)
  fix k assume "k < length (sv_tasks sv')"
  then show "k < length (sv_tasks sv) \<and> (released (sv_tasks sv ! k) \<longrightarrow> released (sv_tasks sv' ! k)) \<and>
      (k \<in> registered sv \<or> k \<in> holds (pcs c) \<longrightarrow>
        k \<in> registered sv' \<or> released (sv_tasks sv' ! k) \<or> k \<in> holds pc')"
    using r' len old rel by auto
qed (use hold fr new in auto)

lemma owned_drain:
  assumes own: "owned (pcs, sv)" and pc: "pcs c = PcDrain" and o: "set order = registered sv"
  shows "owned (pcs(c := PcStop order all), sv\<lparr>sv_sessions := Map.empty\<rparr>)" (is "owned (_, ?sv)")
proof (rule owned_shrink [OF own])
  have none: "\<not> reg ?sv sid l h g" for sid l h g by (simp add: reg_def)
  have "h < length (sv_tasks sv)" if "h \<in> registered sv" for h
    using that ownedD(1) [OF own] by (auto simp: registry_ok_def registered_def)
  then show "pc_ok (PcStop order all) ?sv" using o none by (simp add: pc_ok_def registered_def)
  show "shrinks sv ?sv" by (simp add: shrinks_def none)
qed (use pc o in auto)

lemma owned_client_moves:
  assumes own: "owned (pcs, sv)" and st: "client_step be env (pcs c) sv = (pc', sv')"
    and ne: "\<not> (pc' = pcs c \<and> sv' = sv)"
    and dr: "pcs c = PcDrain \<Longrightarrow> set (en_order env) = registered sv"
  shows "owned (pcs(c := pc'), sv')"
proof (cases "pcs c")
  case (PcStart job a head)
  then obtain h where "start_task job a head sv = (h, sv')" "pc' = PcRegister job a head h"
    using st by (auto simp: client_step_def spawn_step_def split: prod.splits)
  then show ?thesis using owned_start [OF own] PcStart by simp
next
  case (PcRegister job a head h)
  show ?thesis
  proof (cases "register_lane job h sv")
    case (Pair r sv1)
    show ?thesis
    proof (cases r)
      case (Inl e)
      then have "sv' = sv" "pc' = PcCleanup job h e"
        using st PcRegister Pair register_lane_Inl by (auto simp: client_step_def spawn_step_def)
      then show ?thesis using PcRegister by (intro owned_release [OF own]) auto
    next
      case (Inr g)
      then show ?thesis
        using st PcRegister Pair owned_register [OF own PcRegister]
        by (auto simp: client_step_def spawn_step_def split: if_splits)
    qed
  qed
next
  case (PcRemove job h g e)
  then show ?thesis using st owned_remove [OF own PcRemove] by (auto simp: client_step_def spawn_step_def)
next
  case (PcCleanup job h e)
  then obtain r where r: "shutdown_handle (en_final env) h sv = (r, sv')" "pc' = spawn_failed job e"
    using st by (cases "shutdown_handle (en_final env) h sv")
      (auto simp: client_step_def spawn_step_def cleanup_handle_def)
  note f = shutdown_handle_frame [OF r(1)]
  have "h < length (sv_tasks sv)" using ownedD(2) [OF own, of c] PcCleanup by (simp add: pc_ok_def)
  note rel = shutdown_handle_released [OF r(1) this]
  show ?thesis using PcCleanup r(2) f(1-3) rel by (intro owned_release [OF own]) auto
next
  case PcDrain
  then show ?thesis
    using st owned_drain [OF own PcDrain dr] by (auto simp: client_step_def shutdown_step_def)
next
  case (PcStop todo all)
  show ?thesis
  proof (cases todo)
    case Nil
    then show ?thesis using st PcStop by (auto simp: client_step_def shutdown_step_def intro!: owned_quiet [OF own])
  next
    case (Cons h rest)
    then obtain r sv1 where r: "shutdown_handle (en_final env) h sv = (r, sv1)" by force
    note f = shutdown_handle_frame [OF r]
    have len: "h < length (sv_tasks sv)" "\<And>k. k \<in> set rest \<Longrightarrow> k < length (sv_tasks sv)"
      using ownedD(2) [OF own, of c] PcStop Cons by (auto simp: pc_ok_def)
    note rel = shutdown_handle_released [OF r len(1)]
    show ?thesis
    proof (cases r)
      case (Inl e)
      then have "pc' = PcDone (Inl (SvAgent (agent_error_text e)))" "sv' = abandon rest sv1"
        using st PcStop Cons r by (auto simp: client_step_def shutdown_step_def)
      moreover have "released (sv_tasks (abandon rest sv1) ! k) \<longleftrightarrow> released (sv_tasks sv ! k) \<or> k \<in> set todo"
        if "k < length (sv_tasks sv)" for k
        using abandon_frame(4) [of k sv1 rest] rel [OF that] that f(3) Cons by (auto simp: released_def)
      ultimately show ?thesis using PcStop Cons f(1-3) abandon_frame(1-3) [of rest sv1]
        by (intro owned_release [OF own]) auto
    next
      case (Inr u)
      then have "pc' = PcStop rest all" "sv' = sv1"
        using st PcStop Cons r by (auto simp: client_step_def shutdown_step_def)
      then show ?thesis using PcStop Cons f(1-3) rel by (intro owned_release [OF own]) auto
    qed
  qed
qed (use st ne in \<open>auto simp: client_step_def resume_step_def load_and_resume_step_def fork_step_def
      spawn_step_def shutdown_step_def split: option.splits sum.splits prod.splits outcome.splits list.splits if_splits
      dest: same_registryD intro!: owned_same [OF own]\<close>)

lemma owned_client:
  assumes "owned (pcs, sv)" and "client_step be env (pcs c) sv = (pc', sv')"
    and "pcs c = PcDrain \<Longrightarrow> set (en_order env) = registered sv"
  shows "owned (pcs(c := pc'), sv')"
proof (cases "pc' = pcs c \<and> sv' = sv")
  case True
  then show ?thesis using assms(1) by (simp add: fun_upd_idem)
next
  case False
  then show ?thesis using owned_client_moves [OF assms(1,2)] assms(3) by blast
qed

text \<open>Steps of the environment: the registry and what everybody holds stay as they are.\<close>

lemma owned_environment:
  assumes own: "owned (pcs, sv)" and r: "reg sv' = reg sv"
    and g: "sv_next_generation sv' = sv_next_generation sv" and len: "length (sv_tasks sv') = length (sv_tasks sv)"
    and rel: "\<And>k. k < length (sv_tasks sv) \<Longrightarrow> released (sv_tasks sv' ! k) \<longleftrightarrow> released (sv_tasks sv ! k)"
  shows "owned (pcs, sv')"
proof -
  note o = ownedD [OF own]
  have sh: "shrinks sv sv'" using r g len by (simp add: shrinks_def)
  have r': "registered sv' = registered sv" using r by (simp add: registered_def)
  have "registry_ok sv'"
    using rel o(1) by (intro registry_shrink [OF o(1) sh]) (auto simp: registry_ok_def registered_def)
  moreover have "pc_ok (pcs d) sv'" for d
    using rel held_unregistered [OF o(2) [of d]] fresh_holds by (intro pc_shrink [OF o(2) sh]) blast
  ultimately show ?thesis using o(3,4) rel r' len unfolding owned_def by simp
qed

lemma owned_step:
  assumes "sys_step be capacity st st'" and "owned st"
  shows "owned st'"
  using assms
proof (cases rule: sys_step.cases)
  case (client env pcs c sv pc' sv')
  then show ?thesis using owned_client [of pcs sv be env c pc' sv'] assms(2) by simp
next
  case (begin_op pcs c pc sv)
  have "holds (pcs c) = {}" using begin_op(3) by (cases "pcs c") auto
  moreover have "holds pc = {}" "fresh pc = {}" "claims pc = {}" using begin_op(4) by (cases pc; simp)+
  ultimately show ?thesis using begin_op assms(2) by (auto intro!: owned_same)
next
  case (session sid st0 sv r sv' pcs)
  then show ?thesis using assms(2) register_session_frame [of sid st0 sv r sv']
    by (auto intro!: owned_environment [of pcs sv])
next
  case (agent h sv ag pcs)
  then show ?thesis using assms(2)
    by (auto simp: update_task_nth released_def evolves_def split: if_splits
        intro!: owned_environment [of pcs sv])
next
  case (agent_ends h sv ag pcs)
  then show ?thesis using assms(2)
    by (auto simp: update_task_nth released_def split: if_splits intro!: owned_environment [of pcs sv])
next
  case (bridge h sv pcs)
  then show ?thesis using assms(2)
    by (auto simp: bridge_recv_frame released_def intro!: owned_environment [of pcs sv])
next
  case (allocate pcs sv)
  then show ?thesis using assms(2)
    by (auto simp: allocate_session_id_def reg_def fun_eq_iff intro!: owned_environment [of pcs sv])
qed

lemma idle_holds: "idle pc \<Longrightarrow> holds pc = {} \<and> fresh pc = {} \<and> claims pc = {}"
  by (cases pc) auto

lemma owned_reachable: "reachable be capacity st \<Longrightarrow> owned st"
proof (induction rule: reachable.induct)
  case (start pcs sv)
  have "\<not> reg sv sid l h g" for sid l h g using start(2) by (simp add: reg_def)
  moreover have "holds (pcs c) = {}" "fresh (pcs c) = {}" "claims (pcs c) = {}" for c
    using start(1) idle_holds by blast+
  ultimately show ?case using start(3) by (simp add: owned_def registry_ok_def pc_ok_def registered_def)
next
  case (step st st')
  then show ?case using owned_step by blast
qed

text \<open>A handle is dropped without a stop only by a shutdown that another handle's stop has failed.\<close>

definition stops_ok :: "('s, 'w) ServerInner \<Rightarrow> bool" where
  "stops_ok sv =
     (\<forall>h < length (sv_tasks sv). tk_stop (sv_tasks sv ! h) = NeverStopped \<longrightarrow>
        (\<exists>k < length (sv_tasks sv). tk_stop (sv_tasks sv ! k) = StopTimedOut))"

lemma stops_ok_same:
  assumes "stops_ok sv" "length (sv_tasks sv') = length (sv_tasks sv)"
    "\<And>k. k < length (sv_tasks sv) \<Longrightarrow> tk_stop (sv_tasks sv' ! k) = tk_stop (sv_tasks sv ! k)"
  shows "stops_ok sv'"
  using assms unfolding stops_ok_def by metis

lemma stops_ok_tasks: "stops_ok sv \<Longrightarrow> sv_tasks sv' = sv_tasks sv \<Longrightarrow> stops_ok sv'"
  by (rule stops_ok_same) simp_all

lemma stops_ok_started: "stops_ok sv \<Longrightarrow> start_task job a head sv = (h, sv') \<Longrightarrow> stops_ok sv'"
  unfolding stops_ok_def start_task_def by (fastforce simp: nth_append less_Suc_eq)

lemma shutdown_handle_stops:
  assumes "stops_ok sv" "shutdown_handle final h sv = (r, sv')" "h < length (sv_tasks sv)"
  shows "stops_ok sv'" "r = Inl e \<Longrightarrow> tk_stop (sv_tasks sv' ! h) = StopTimedOut"
proof -
  have "tk_stop (sv_tasks sv' ! k) = tk_stop (sv_tasks sv ! k) \<or> tk_stop (sv_tasks sv' ! k) = StopTimedOut"
    if "k < length (sv_tasks sv)" for k
    using assms(2) that by (auto simp: shutdown_handle_def update_task_nth split: if_splits option.splits)
  then show "stops_ok sv'"
    using assms(1) unfolding stops_ok_def shutdown_handle_frame(3) [OF assms(2)] by (metis stop_state.distinct(5))
  show "r = Inl e \<Longrightarrow> tk_stop (sv_tasks sv' ! h) = StopTimedOut"
    using assms(2,3) by (auto simp: shutdown_handle_def update_task_nth split: if_splits option.splits)
qed

lemma stops_ok_abandon:
  assumes "h < length (sv_tasks sv)" "tk_stop (sv_tasks sv ! h) = StopTimedOut"
  shows "stops_ok (abandon hs sv)"
  using assms unfolding stops_ok_def by (auto simp: abandon_frame intro!: exI [of _ h])

lemma client_stops:
  assumes own: "owned (pcs, sv)" and ok: "stops_ok sv" and st: "client_step be env (pcs c) sv = (pc', sv')"
  shows "stops_ok sv'"
proof (cases "pcs c")
  case (PcStart job a head)
  then show ?thesis using st stops_ok_started [OF ok] by (auto simp: client_step_def spawn_step_def split: prod.splits)
next
  case (PcCleanup job h e)
  then obtain r where r: "shutdown_handle (en_final env) h sv = (r, sv')"
    using st by (cases "shutdown_handle (en_final env) h sv")
      (auto simp: client_step_def spawn_step_def cleanup_handle_def)
  have "h < length (sv_tasks sv)" using ownedD(2) [OF own, of c] PcCleanup by (simp add: pc_ok_def)
  then show ?thesis using shutdown_handle_stops(1) [OF ok r] by blast
next
  case (PcStop todo all)
  show ?thesis
  proof (cases todo)
    case Nil
    then show ?thesis using st PcStop ok by (simp add: client_step_def shutdown_step_def)
  next
    case (Cons h rest)
    then obtain r sv1 where r: "shutdown_handle (en_final env) h sv = (r, sv1)" by force
    have len: "h < length (sv_tasks sv)" using ownedD(2) [OF own, of c] PcStop Cons by (simp add: pc_ok_def)
    note s = shutdown_handle_stops [OF ok r len]
    show ?thesis
    proof (cases r)
      case (Inl e)
      then have "sv' = abandon rest sv1" using st PcStop Cons r by (auto simp: client_step_def shutdown_step_def)
      then show ?thesis using stops_ok_abandon s(2) [OF Inl] len shutdown_handle_frame(3) [OF r] by metis
    next
      case (Inr u)
      then show ?thesis using s(1) st PcStop Cons r by (auto simp: client_step_def shutdown_step_def)
    qed
  qed
next
  case (PcRegister job a head h)
  obtain x sv1 where x: "register_lane job h sv = (x, sv1)" by force
  then have "sv_tasks sv1 = sv_tasks sv" using register_lane_Inl register_lane_Inr(3) by (cases x) blast+
  moreover have "sv' = sv1" using st PcRegister x by (cases x) (auto simp: client_step_def spawn_step_def split: if_splits)
  ultimately show ?thesis using stops_ok_tasks [OF ok] by simp
qed (use st ok in \<open>auto simp: client_step_def resume_step_def load_and_resume_step_def fork_step_def
      spawn_step_def shutdown_step_def remove_lane_frame remove_session_frame split: option.splits sum.splits prod.splits
      outcome.splits list.splits if_splits dest!: at_storage_frame(3) register_session_frame(3) intro: stops_ok_tasks\<close>)

lemma stops_reachable: "reachable be capacity st \<Longrightarrow> stops_ok (snd st)"
proof (induction rule: reachable.induct)
  case (start pcs sv) then show ?case by (simp add: stops_ok_def)
next
  case (step st st')
  note own = owned_reachable [OF step.hyps(1)]
  from step.hyps(2) show ?case
  proof (cases rule: sys_step.cases)
    case (client env pcs c sv pc' sv')
    then show ?thesis using client_stops [of pcs sv be env c pc' sv'] own step.IH by simp
  next
    case (session sid st0 sv r sv' pcs)
    then show ?thesis using step.IH register_session_frame(3) [of sid st0 sv r sv'] by (auto intro: stops_ok_tasks)
  next
    case (agent h sv ag pcs)
    then show ?thesis using step.IH by (auto simp: update_task_nth intro: stops_ok_same)
  next
    case (agent_ends h sv ag pcs)
    then show ?thesis using step.IH by (auto simp: update_task_nth intro: stops_ok_same)
  next
    case (bridge h sv pcs)
    then show ?thesis using step.IH stops_ok_same [OF _ bridge_recv_frame(3,5)] by simp
  next
    case (allocate pcs sv)
    then show ?thesis using step.IH by (auto simp: allocate_session_id_def intro: stops_ok_tasks)
  qed (use step.IH in simp)
qed

text \<open>
  \<open>AgentServer::shutdown\<close> empties the registry first and returns at the first handle whose stop fails:
  the handles after it are dropped, their agents have not been told to stop, and nobody waits for their
  bridges.
\<close>

lemma shutdown_stops_early:
  assumes "en_final env = None" "h < length (sv_tasks sv)" "\<not> ag_exited (tk_agent (sv_tasks sv ! h))"
  shows "\<exists>e sv'. shutdown_step env (PcStop (h # todo) all) sv = (PcDone (Inl e), sv')
    \<and> (\<forall>k \<in> set todo. k < length (sv_tasks sv) \<longrightarrow> k \<noteq> h \<longrightarrow> tk_stop (sv_tasks sv ! k) = InUse \<longrightarrow>
         tk_agent (sv_tasks sv' ! k) = tk_agent (sv_tasks sv ! k) \<and> tk_stop (sv_tasks sv' ! k) = NeverStopped)"
  using assms by (simp add: shutdown_step_def shutdown_handle_def abandon_frame update_task_nth)

section \<open>Properties\<close>

text \<open>
  C4: lanes under concurrent clients.  Whatever spawns, forks, resumes, rollbacks and
  shutdowns interleave, a registered lane has a running agent that no other registration
  shares, and generations of registered lanes differ, so no rollback ever stops or removes the lane of
  somebody else.  Once all operations have ended, every task that was started is registered, has
  exited, or its handle was given up: its stop timed out, or a shutdown that had met such a
  time-out dropped it.  So as long as every agent ends within the time its stop is given, no agent is
  left running outside the registry.
\<close>

theorem server_lanes:
  assumes "reachable be capacity (pcs, sv)"
  shows "(\<forall>sid l h g. reg sv sid l h g \<longrightarrow>
        \<not> ag_exited (tk_agent (sv_tasks sv ! h)) \<and> tk_stop (sv_tasks sv ! h) = InUse \<and>
        (\<forall>sid' l' h' g'. reg sv sid' l' h' g' \<and> (h = h' \<or> g = g') \<longrightarrow> sid = sid' \<and> l = l'))
    \<and> ((\<forall>c. idle (pcs c)) \<longrightarrow>
         (\<forall>h < length (sv_tasks sv).
            h \<in> registered sv \<or> ag_exited (tk_agent (sv_tasks sv ! h)) \<or> tk_stop (sv_tasks sv ! h) \<noteq> InUse))
    \<and> ((\<forall>c. idle (pcs c)) \<and> (\<forall>h < length (sv_tasks sv). tk_stop (sv_tasks sv ! h) \<noteq> StopTimedOut) \<longrightarrow>
         (\<forall>h < length (sv_tasks sv). h \<in> registered sv \<or> ag_exited (tk_agent (sv_tasks sv ! h))))"
proof -
  note o = ownedD [OF owned_reachable [OF assms]]
  have in_reg: "h \<in> registered sv \<or> released (sv_tasks sv ! h)"
    if "\<forall>c. idle (pcs c)" "h < length (sv_tasks sv)" for h
    using o(4) [OF that(2)] that(1) idle_holds by blast
  have "tk_stop (sv_tasks sv ! h) = InUse"
    if "\<forall>h < length (sv_tasks sv). tk_stop (sv_tasks sv ! h) \<noteq> StopTimedOut" "h < length (sv_tasks sv)" for h
    using stops_reachable [OF assms] that by (cases "tk_stop (sv_tasks sv ! h)") (auto simp: stops_ok_def)
  then have "h \<in> registered sv \<or> ag_exited (tk_agent (sv_tasks sv ! h))"
    if "\<forall>c. idle (pcs c)" "\<forall>h < length (sv_tasks sv). tk_stop (sv_tasks sv ! h) \<noteq> StopTimedOut" "h < length (sv_tasks sv)" for h
    using in_reg [OF that(1,3)] that(2,3) unfolding released_def by metis
  moreover have "\<not> ag_exited (tk_agent (sv_tasks sv ! h)) \<and> tk_stop (sv_tasks sv ! h) = InUse \<and>
      (\<forall>sid' l' h' g'. reg sv sid' l' h' g' \<and> (h = h' \<or> g = g') \<longrightarrow> sid = sid' \<and> l = l')"
    if "reg sv sid l h g" for sid l h g
    using o(1) that unfolding registry_ok_def released_def by blast
  moreover have "h \<in> registered sv \<or> ag_exited (tk_agent (sv_tasks sv ! h)) \<or> tk_stop (sv_tasks sv ! h) \<noteq> InUse"
    if "\<forall>c. idle (pcs c)" "h < length (sv_tasks sv)" for h
    using in_reg [OF that] unfolding released_def .
  ultimately show ?thesis by (intro conjI allI impI) blast+
qed

text \<open>A session in which a lane was spawned.\<close>

definition null_backend :: "unit backend" where
  "null_backend =
     \<lparr>be_append = (\<lambda>p m s. (Inr 0, s)), be_put_head = (\<lambda>l h s. (Inr (), s)),
      be_load = (\<lambda>s. (Ok \<lparr>st_session_id = [], st_root = None, st_nodes = []\<rparr>, s)),
      be_heads = (\<lambda>s. (Inr Map.empty, s))\<rparr>"

definition demo_cfg :: AgentConfig where
  "demo_cfg = \<lparr>ac_system_prompt = [], ac_model = None, ac_thinking_level = ThOff\<rparr>"

definition demo_env :: "unit env" where
  "demo_env = \<lparr>en_final = Some (spawn_with_transcript demo_cfg () []), en_order = []\<rparr>"

definition demo_session :: "(unit, unit) ServerInner" where
  "demo_session = snd (create_session ''s'' () server_new)"

fun run_client ::
    "'s backend \<Rightarrow> 'w env \<Rightarrow> nat \<Rightarrow> ('s, 'w) pc \<times> ('s, 'w) ServerInner \<Rightarrow> ('s, 'w) pc \<times> ('s, 'w) ServerInner" where
  "run_client be env 0 st = st"
| "run_client be env (Suc n) (pc, sv) = run_client be env n (client_step be env pc sv)"

lemma run_client_reachable:
  assumes "reachable be capacity (pcs, sv)" and "pcs c = pc" and "run_client be env n (pc, sv) = (pc', sv')"
    and "\<And>k sv1. k < n \<Longrightarrow> run_client be env k (pc, sv) \<noteq> (PcDrain, sv1)"
  shows "reachable be capacity (pcs(c := pc'), sv')"
  using assms
proof (induction n arbitrary: pcs pc sv)
  case 0
  then show ?case by (simp add: fun_upd_idem)
next
  case (Suc n)
  obtain pc1 sv1 where s: "client_step be env (pcs c) sv = (pc1, sv1)" by force
  have "pcs c \<noteq> PcDrain" using Suc.prems(2) Suc.prems(4) [of 0 sv] by auto
  then have r: "reachable be capacity (pcs(c := pc1), sv1)"
    using sys_step.client [of be env pcs c sv pc1 sv1] s reachable.step [OF Suc.prems(1)] by blast
  have "run_client be env k (pc1, sv1) \<noteq> (PcDrain, sv2)" if "k < n" for k sv2
    using Suc.prems(4) [of "Suc k" sv2] that s Suc.prems(2) by simp
  moreover have "(pcs(c := pc1)) c = pc1" "run_client be env n (pc1, sv1) = (pc', sv')"
    using Suc.prems(2,3) s by simp_all
  ultimately have "reachable be capacity ((pcs(c := pc1))(c := pc'), sv')"
    by (intro Suc.IH [OF r, of pc1])
  then show ?case by (simp only: fun_upd_upd)
qed

lemma demo_session_reachable: "reachable null_backend 100 (\<lambda>_. PcDone (Inr ()), demo_session)"
proof -
  have "reachable null_backend 100 (\<lambda>_. PcDone (Inr ()), server_new :: (unit, unit) ServerInner)"
    by (rule reachable.start) (simp_all add: server_new_def)
  moreover have "register_session ''s'' (False, shared_new ()) (server_new :: (unit, unit) ServerInner)
      = (Inr (), demo_session)"
    by (simp add: demo_session_def create_session_def create_session_with_head_store_def
        register_session_def server_new_def)
  ultimately show ?thesis using reachable.step sys_step.session by blast
qed

lemmas spawn_simps = client_step_def spawn_step_def fork_step_def spawn_check_def fork_check_def start_task_def
  register_lane_def spawn_register_def fork_register_def insert_lane_def at_storage_def persist_initial_head_def
  head_store_def spawn_lane_def fork_lane_def Let_def

lemma demo_spawn:
  "\<exists>sv'. run_client null_backend demo_env 4 (PcCheck (spawn_lane ''s'' ''l'' demo_cfg ()), demo_session)
      = (PcDone (Inr ()), sv') \<and> reg sv' ''s'' ''l'' 0 1 \<and> length (sv_tasks sv') = 1"
  by (simp add: numeral_eq_Suc spawn_simps demo_session_def create_session_def create_session_with_head_store_def
      register_session_def server_new_def shared_new_def reg_def)

lemma reachable_begin:
  "reachable be capacity (pcs, sv) \<Longrightarrow> idle (pcs c) \<Longrightarrow> entry pc \<Longrightarrow> reachable be capacity (pcs(c := pc), sv)"
  using reachable.step sys_step.begin_op by blast

lemma less_4_cases: "k < 4 \<Longrightarrow> k = 0 \<or> k = 1 \<or> k = 2 \<or> k = (3 :: nat)"
  by auto

lemma demo_spawn_reachable:
  "\<exists>pcs (sv' :: (unit, unit) ServerInner). reachable null_backend 100 (pcs, sv') \<and> (\<forall>c. idle (pcs c)) \<and>
     reg sv' ''s'' ''l'' 0 1 \<and> length (sv_tasks sv') = 1"
proof -
  let ?job = "spawn_lane ''s'' ''l'' demo_cfg ()"
  let ?pcs = "(\<lambda>_. PcDone (Inr ())) (0 := PcCheck ?job)"
  obtain sv' where run: "run_client null_backend demo_env 4 (PcCheck ?job, demo_session) = (PcDone (Inr ()), sv')"
    and sv': "reg sv' ''s'' ''l'' 0 1" "length (sv_tasks sv') = 1"
    using demo_spawn by blast
  have r: "reachable null_backend 100 (?pcs, demo_session)"
    by (intro reachable_begin demo_session_reachable) (simp_all add: spawn_lane_def)
  have "run_client null_backend demo_env k (PcCheck ?job, demo_session) \<noteq> (PcDrain, sv1)" if "k < 4" for k sv1
    using less_4_cases [OF that]
    by (elim disjE) (simp_all add: numeral_eq_Suc spawn_simps demo_session_def create_session_def
        create_session_with_head_store_def register_session_def server_new_def shared_new_def)
  then have r': "reachable null_backend 100 (?pcs(0 := PcDone (Inr ())), sv')"
    using run_client_reachable [OF r _ run, of 0] by simp
  moreover have "\<forall>c. idle ((?pcs(0 := PcDone (Inr ()))) c)" by simp
  ultimately show ?thesis
    using sv' by (intro exI [of _ "?pcs(0 := PcDone (Inr ()))"] exI [of _ sv'] conjI)
qed

theorem server_lanes_witness:
  "\<exists>pcs (sv :: (unit, unit) ServerInner). reachable null_backend 100 (pcs, sv) \<and> reg sv ''s'' ''l'' 0 1 \<and> \<not> released (sv_tasks sv ! 0) \<and>
     registered sv = {0}"
proof -
  obtain pcs and sv :: "(unit, unit) ServerInner" where r: "reachable null_backend 100 (pcs, sv)" and i: "\<forall>c. idle (pcs c)"
    and sv: "reg sv ''s'' ''l'' 0 1" "length (sv_tasks sv) = 1"
    using demo_spawn_reachable by blast
  have "h = 0" if "h \<in> registered sv" for h
    using that owned_reachable [OF r] sv(2) by (auto simp: owned_def registry_ok_def registered_def)
  moreover have "0 \<in> registered sv" using sv(1) by (auto simp: registered_def)
  ultimately have "registered sv = {0}" by blast
  moreover have "\<not> released (sv_tasks sv ! 0)"
    using server_lanes [OF r, THEN conjunct1, rule_format, OF sv(1)] by (simp add: released_def)
  ultimately show ?thesis using r sv(1) by (intro exI [of _ pcs] exI [of _ sv] conjI)
qed

end
