(* ===== verification/Remote_Codec.thy ===== *)
theory Remote_Codec
  imports Jsonl
begin

text \<open>
  The frames of \<open>remote/codec.rs\<close>, shared by the remote protocol and the session server:
  one message is one line of JSON.  The JSON codec of a message type is a pair of parameters;
  a byte stream is the list of what successive reads return, where an empty read is the end
  of the stream and an exhausted list means that the reader still waits.
\<close>

section \<open>Whitespace\<close>

text \<open>The characters of \<open>char::is_whitespace\<close>, as UTF-8.\<close>

definition whitespace :: "string list" where
  "whitespace =
     [[CHR 0x09], [CHR 0x0A], [CHR 0x0B], [CHR 0x0C], [CHR 0x0D], [CHR 0x20],
      [CHR 0xC2, CHR 0x85], [CHR 0xC2, CHR 0xA0], [CHR 0xE1, CHR 0x9A, CHR 0x80]]
     @ map (\<lambda>c. [CHR 0xE2, CHR 0x80, c])
         [CHR 0x80, CHR 0x81, CHR 0x82, CHR 0x83, CHR 0x84, CHR 0x85, CHR 0x86, CHR 0x87, CHR 0x88,
          CHR 0x89, CHR 0x8A, CHR 0xA8, CHR 0xA9, CHR 0xAF]
     @ [[CHR 0xE2, CHR 0x81, CHR 0x9F], [CHR 0xE3, CHR 0x80, CHR 0x80]]"

text \<open>Removes leading occurrences of the words in a list; \<open>str::trim\<close> does so at both ends.\<close>

function strip_words :: "string list \<Rightarrow> string \<Rightarrow> string" where
  "strip_words ws s =
     (case find (\<lambda>w. w \<noteq> [] \<and> prefix w s) ws of
        None \<Rightarrow> s
      | Some w \<Rightarrow> strip_words ws (drop (length w) s))"
  by pat_completeness auto
termination
  by (relation "measure (length \<circ> snd)") (auto simp: find_Some_iff prefix_def)

declare strip_words.simps [simp del]

definition trim :: "string \<Rightarrow> string" where
  "trim s = rev (strip_words (map rev whitespace) (rev (strip_words whitespace s)))"

section \<open>Encoding and decoding\<close>

datatype RemoteError =
    ReIo string
  | ReSerde string
  | ReProtocol string
  | ReCommand string
  | ReTimeout

fun remote_error_text :: "RemoteError \<Rightarrow> string" where
  "remote_error_text (ReIo e) = ''io error: '' @ e"
| "remote_error_text (ReSerde e) = ''serialize error: '' @ e"
| "remote_error_text (ReProtocol s) = ''protocol error: '' @ s"
| "remote_error_text (ReCommand s) = ''command error: '' @ s"
| "remote_error_text ReTimeout = ''request timeout''"

type_synonym 'm frame_ser = "'m \<Rightarrow> string + string"
type_synonym 'm frame_de = "string \<Rightarrow> string + 'm"

definition encode_line :: "'m frame_ser \<Rightarrow> 'm \<Rightarrow> RemoteError + string" where
  "encode_line ser msg =
     (case ser msg of Inl e \<Rightarrow> Inl (ReSerde e) | Inr bytes \<Rightarrow> Inr (bytes @ [nl]))"

definition decode_line :: "'m frame_de \<Rightarrow> string \<Rightarrow> RemoteError + 'm option" where
  "decode_line de line =
     (let trimmed = trim line in
      if trimmed = [] then Inr None
      else case de trimmed of
             Inl e \<Rightarrow> Inl (ReProtocol (''invalid frame: '' @ e))
           | Inr msg \<Rightarrow> Inr (Some msg))"

section \<open>The reader\<close>

datatype read = ReadBytes string | ReadError string

text \<open>The bytes buffered, what the next reads return, and whether the peer has closed.\<close>

record LineReader =
  rd_buffer :: string
  rd_reads :: "read list"
  rd_eof :: bool

definition line_reader_new :: "read list \<Rightarrow> bool \<Rightarrow> LineReader" where
  "line_reader_new reads eof = \<lparr>rd_buffer = [], rd_reads = reads, rd_eof = eof\<rparr>"

text \<open>The first line with its newline, and the rest.\<close>

fun take_line :: "string \<Rightarrow> (string \<times> string) option" where
  "take_line [] = None"
| "take_line (c # s) =
     (if c = nl then Some ([c], s) else map_option (apfst (Cons c)) (take_line s))"

text \<open>
  \<open>AsyncBufReadExt::read_line\<close>: the bytes up to and including the next newline, or those
  that are left at the end of the stream.  \<open>None\<close>: no newline yet and the peer is silent.
\<close>

fun read_until :: "bool \<Rightarrow> string \<Rightarrow> read list \<Rightarrow> ((string + string) \<times> LineReader) option" where
  "read_until eof buffer reads =
     (case take_line buffer of
        Some (line, rest) \<Rightarrow> Some (Inr line, \<lparr>rd_buffer = rest, rd_reads = reads, rd_eof = eof\<rparr>)
      | None \<Rightarrow>
          (case reads of
             [] \<Rightarrow> if eof then Some (Inr buffer, line_reader_new [] True) else None
           | ReadError e # reads \<Rightarrow> Some (Inl e, line_reader_new reads eof)
           | ReadBytes bytes # reads \<Rightarrow> read_until eof (buffer @ bytes) reads))"

declare read_until.simps [simp del]

definition read_line :: "LineReader \<Rightarrow> ((RemoteError + string) \<times> LineReader) option" where
  "read_line rd =
     (case read_until (rd_eof rd) (rd_buffer rd) (rd_reads rd) of
        None \<Rightarrow> None
      | Some (Inl e, rd) \<Rightarrow> Some (Inl (ReIo e), rd)
      | Some (Inr line, rd) \<Rightarrow>
          if utf8_valid line then Some (Inr line, rd)
          else Some (Inl (ReIo ''stream did not contain valid UTF-8''), rd))"

fun read_size :: "read \<Rightarrow> nat" where
  "read_size (ReadBytes s) = length s"
| "read_size (ReadError e) = 0"

definition reader_size :: "LineReader \<Rightarrow> nat" where
  "reader_size rd = length (rd_buffer rd) + sum_list (map read_size (rd_reads rd))"

lemma take_line_Some: "take_line s = Some (line, rest) \<Longrightarrow> line \<noteq> [] \<and> s = line @ rest"
  by (induction s arbitrary: line) (auto split: if_splits)

lemma read_until_shrinks:
  "read_until eof buffer reads = Some (Inr line, rd) \<Longrightarrow>
     reader_size rd + length line \<le> length buffer + sum_list (map read_size reads)"
proof (induction reads arbitrary: buffer)
  case Nil
  then show ?case
    by (auto simp: read_until.simps [of _ buffer] reader_size_def line_reader_new_def
        dest: take_line_Some split: option.splits if_splits)
next
  case (Cons r reads)
  then show ?case
    by (cases r) (fastforce simp: read_until.simps [of _ buffer] reader_size_def dest: take_line_Some
        split: option.splits)+
qed

lemma read_line_shrinks: "read_line rd = Some (Inr line, rd') \<Longrightarrow> reader_size rd' + length line \<le> reader_size rd"
  using read_until_shrinks [of "rd_eof rd" "rd_buffer rd" "rd_reads rd"]
  by (fastforce simp: read_line_def reader_size_def split: option.splits prod.splits sum.splits if_splits)

lemma read_line_decreases:
  "read_line rd = Some (Inr line, rd') \<Longrightarrow> line \<noteq> [] \<Longrightarrow> reader_size rd' < reader_size rd"
  using read_line_shrinks [of rd line rd'] by (cases line) auto

text \<open>\<open>LineReader::next\<close>: blank lines are skipped, \<open>Inr None\<close> is the end of the stream.\<close>

function next_frame :: "'m frame_de \<Rightarrow> LineReader \<Rightarrow> ((RemoteError + 'm option) \<times> LineReader) option" where
  "next_frame de rd =
     (case read_line rd of
        None \<Rightarrow> None
      | Some (Inl e, rd) \<Rightarrow> Some (Inl e, rd)
      | Some (Inr line, rd) \<Rightarrow>
          if line = [] then Some (Inr None, rd)
          else case decode_line de line of
                 Inl e \<Rightarrow> Some (Inl e, rd)
               | Inr (Some msg) \<Rightarrow> Some (Inr (Some msg), rd)
               | Inr None \<Rightarrow> next_frame de rd)"
  by pat_completeness auto
termination
  by (relation "measure (reader_size \<circ> snd)") (auto simp: read_line_decreases)

declare next_frame.simps [simp del]

lemma next_frame_decreases:
  "next_frame de rd = Some (Inr (Some msg), rd') \<Longrightarrow> reader_size rd' < reader_size rd"
proof (induction de rd rule: next_frame.induct)
  case (1 de rd)
  obtain r rd1 where r: "read_line rd = Some (r, rd1)"
    using "1.prems" by (auto simp: next_frame.simps [of de rd] split: option.splits)
  show ?case
    using 1 r read_line_decreases [of rd _ rd1]
    by (cases r) (fastforce simp: next_frame.simps [of de rd] split: if_splits sum.splits option.splits)+
qed

text \<open>The read loops of both peers: every message up to the end of the stream or an error.\<close>

function read_all :: "'m frame_de \<Rightarrow> LineReader \<Rightarrow> ('m list \<times> RemoteError option) option" where
  "read_all de rd =
     (case next_frame de rd of
        None \<Rightarrow> None
      | Some (Inl e, _) \<Rightarrow> Some ([], Some e)
      | Some (Inr None, _) \<Rightarrow> Some ([], None)
      | Some (Inr (Some msg), rd) \<Rightarrow> map_option (apfst (Cons msg)) (read_all de rd))"
  by pat_completeness auto
termination
  by (relation "measure (reader_size \<circ> snd)") (auto simp: next_frame_decreases)

declare read_all.simps [simp del]

section \<open>The reader and the lines of the stream\<close>

text \<open>What a byte string means, independent of how it was cut into reads.\<close>

fun frames :: "'m frame_de \<Rightarrow> string list \<Rightarrow> 'm list \<times> RemoteError option" where
  "frames de [] = ([], None)"
| "frames de (line # lines) =
     (if \<not> utf8_valid line then ([], Some (ReIo ''stream did not contain valid UTF-8''))
      else case decode_line de line of
             Inl e \<Rightarrow> ([], Some e)
           | Inr None \<Rightarrow> frames de lines
           | Inr (Some msg) \<Rightarrow> apfst (Cons msg) (frames de lines))"

definition represents :: "LineReader \<Rightarrow> string \<Rightarrow> bool" where
  "represents rd s \<longleftrightarrow>
     rd_eof rd \<and> (\<exists>cs. rd_reads rd = map ReadBytes cs \<and> s = rd_buffer rd @ concat cs)"

lemma take_line_while:
  "take_line s =
     (case dropWhile (\<lambda>c. c \<noteq> nl) s of
        [] \<Rightarrow> None
      | _ # rest \<Rightarrow> Some (takeWhile (\<lambda>c. c \<noteq> nl) s @ [nl], rest))"
  by (induction s) (auto simp del: dropWhile_eq_Nil_conv split: list.splits)

lemma raw_lines_take_line:
  "raw_lines s =
     (if s = [] then []
      else case take_line s of None \<Rightarrow> [s] | Some (line, rest) \<Rightarrow> line # raw_lines rest)"
  unfolding take_line_while raw_lines.simps [of s]
  by (simp del: dropWhile_eq_Nil_conv split: list.splits)

lemma take_line_append: "take_line s = Some (line, rest) \<Longrightarrow> take_line (s @ t) = Some (line, rest @ t)"
  by (induction s arbitrary: line) (auto split: if_splits)

lemma read_until_bytes:
  "\<exists>line rd rest. read_until True buffer (map ReadBytes cs) = Some (Inr line, rd) \<and> represents rd rest
     \<and> raw_lines (buffer @ concat cs) = (if line = [] then [] else line # raw_lines rest)"
proof (induction cs arbitrary: buffer)
  case Nil
  have "represents (line_reader_new [] True) []" and "raw_lines [] = []"
    by (simp_all add: represents_def line_reader_new_def raw_lines.simps)
  moreover have "represents \<lparr>rd_buffer = rest, rd_reads = [], rd_eof = True\<rparr> rest" for rest
    by (simp add: represents_def)
  ultimately show ?case
    using raw_lines_take_line [of buffer] take_line_Some [of buffer]
    by (cases "take_line buffer") (auto simp: read_until.simps [of _ buffer], blast)
next
  case (Cons c cs)
  show ?case
  proof (cases "take_line buffer")
    case None
    then show ?thesis using Cons [of "buffer @ c"] by (simp add: read_until.simps [of _ buffer])
  next
    case (Some r)
    obtain line rest where r: "take_line buffer = Some (line, rest)" using Some by (cases r) simp
    moreover have "represents \<lparr>rd_buffer = rest, rd_reads = map ReadBytes (c # cs), rd_eof = True\<rparr>
        (rest @ concat (c # cs))"
      unfolding represents_def by (intro conjI exI [of _ "c # cs"]) simp_all
    moreover have "read_until True buffer (map ReadBytes (c # cs)) =
        Some (Inr line, \<lparr>rd_buffer = rest, rd_reads = map ReadBytes (c # cs), rd_eof = True\<rparr>)"
      using r by (simp add: read_until.simps [of _ buffer])
    moreover have "raw_lines (buffer @ concat (c # cs)) = line # raw_lines (rest @ concat (c # cs))"
      using raw_lines_take_line [of "buffer @ concat (c # cs)"] take_line_append [OF r, of "concat (c # cs)"]
        take_line_Some [OF r] by simp
    ultimately show ?thesis using take_line_Some [OF r] by metis
  qed
qed

lemma read_line_bytes:
  assumes "represents rd s"
  obtains line rd' rest where
    "read_line rd = (if utf8_valid line then Some (Inr line, rd')
       else Some (Inl (ReIo ''stream did not contain valid UTF-8''), rd'))"
    "represents rd' rest" "raw_lines s = (if line = [] then [] else line # raw_lines rest)"
proof -
  obtain cs where cs: "rd_eof rd" "rd_reads rd = map ReadBytes cs" "s = rd_buffer rd @ concat cs"
    using assms by (auto simp: represents_def)
  show thesis
    using read_until_bytes [of "rd_buffer rd" cs] cs that by (auto simp: read_line_def)
qed

lemma next_frame_bytes:
  "represents rd s \<Longrightarrow>
     (case next_frame de rd of
        None \<Rightarrow> False
      | Some (Inl e, _) \<Rightarrow> frames de (raw_lines s) = ([], Some e)
      | Some (Inr None, _) \<Rightarrow> frames de (raw_lines s) = ([], None)
      | Some (Inr (Some msg), rd') \<Rightarrow> \<exists>s'. represents rd' s'
          \<and> frames de (raw_lines s) = apfst (Cons msg) (frames de (raw_lines s')))"
proof (induction de rd arbitrary: s rule: next_frame.induct)
  case (1 de rd)
  obtain line rd' rest where step: "read_line rd = (if utf8_valid line then Some (Inr line, rd')
       else Some (Inl (ReIo ''stream did not contain valid UTF-8''), rd'))"
    and rest: "represents rd' rest" "raw_lines s = (if line = [] then [] else line # raw_lines rest)"
    using read_line_bytes [OF "1.prems"] .
  show ?case
  proof (cases "utf8_valid line \<and> line \<noteq> [] \<and> decode_line de line = Inr None")
    case True
    then have "read_line rd = Some (Inr line, rd')" using step by simp
    moreover have eq: "frames de (raw_lines s) = frames de (raw_lines rest)" using True rest by simp
    ultimately show ?thesis
      unfolding eq
      using "1.IH" [OF _ refl refl _ _ refl rest(1)] True by (simp add: next_frame.simps [of de rd])
  next
    case False
    then show ?thesis
      using step rest by (auto simp: next_frame.simps [of de rd] split: sum.splits option.splits)
  qed
qed

lemma read_all_bytes: "represents rd s \<Longrightarrow> read_all de rd = Some (frames de (raw_lines s))"
proof (induction de rd arbitrary: s rule: read_all.induct)
  case (1 de rd)
  obtain r rd' where r: "next_frame de rd = Some (r, rd')"
    using next_frame_bytes [OF "1.prems", of de] by (cases "next_frame de rd") auto
  show ?case
  proof (cases "\<exists>msg. r = Inr (Some msg)")
    case True
    then obtain msg s' where step: "r = Inr (Some msg)" "represents rd' s'"
        "frames de (raw_lines s) = apfst (Cons msg) (frames de (raw_lines s'))"
      using next_frame_bytes [OF "1.prems", of de] r by auto
    then have "read_all de rd' = Some (frames de (raw_lines s'))" using "1.IH" r by blast
    with step r show ?thesis by (simp add: read_all.simps [of de rd])
  next
    case False
    then show ?thesis
      using next_frame_bytes [OF "1.prems", of de] r
      by (auto simp: read_all.simps [of de rd] split: option.splits sum.splits)
  qed
qed

section \<open>Whole frames only\<close>

text \<open>
  What the frames rely on: a message is printed on one line as an object, is read back from
  it, and no proper prefix of it can be read.
\<close>

definition frame_codec :: "'m frame_ser \<Rightarrow> 'm frame_de \<Rightarrow> bool" where
  "frame_codec ser de \<longleftrightarrow>
     (\<forall>m j. ser m = Inr j \<longrightarrow>
        nl \<notin> set j \<and> utf8_valid j \<and> (\<exists>body. j = CHR ''{'' # body @ [CHR ''}'']) \<and> de j = Inr m
        \<and> (\<forall>p. strict_prefix p j \<longrightarrow> (\<exists>e. de p = Inl e)))"

lemma strip_words_id: "(\<And>w. w \<in> set ws \<Longrightarrow> w \<noteq> [] \<Longrightarrow> \<not> prefix w s) \<Longrightarrow> strip_words ws s = s"
  by (auto simp: strip_words.simps [of ws s] find_Some_iff split: option.splits)

lemma strip_words_suffix: "suffix (strip_words ws s) s"
proof (induction ws s rule: strip_words.induct)
  case (1 ws s)
  show ?case
  proof (cases "find (\<lambda>w. w \<noteq> [] \<and> prefix w s) ws")
    case (Some w)
    then show ?thesis
      using "1.IH" [OF Some] suffix_drop suffix_order.trans by (simp add: strip_words.simps [of ws s]) blast
  qed (simp add: strip_words.simps [of ws s])
qed

lemma strip_words_nonempty:
  "s \<noteq> [] \<Longrightarrow> (\<And>w. w \<in> set ws \<Longrightarrow> last s \<notin> set w) \<Longrightarrow> strip_words ws s \<noteq> []"
proof (induction ws s rule: strip_words.induct)
  case (1 ws s)
  show ?case
  proof (cases "find (\<lambda>w. w \<noteq> [] \<and> prefix w s) ws")
    case (Some w)
    then obtain t where w: "w \<in> set ws" "s = w @ t" by (auto simp: find_Some_iff prefix_def)
    have "t \<noteq> []" using "1.prems" w by (metis append_Nil2 last_in_set)
    moreover have "strip_words ws s = strip_words ws t"
      by (subst strip_words.simps) (use Some w in simp)
    ultimately show ?thesis using "1.IH" [OF Some] "1.prems"(2) w by simp
  qed (simp add: strip_words.simps [of ws s] "1.prems")
qed

lemma whitespace_no_brace: "w \<in> set whitespace \<Longrightarrow> CHR ''{'' \<notin> set w \<and> CHR ''}'' \<notin> set w"
  unfolding whitespace_def by auto

lemma trim_start_brace: "strip_words whitespace (CHR ''{'' # s) = CHR ''{'' # s"
  by (rule strip_words_id) (auto simp: prefix_Cons dest: whitespace_no_brace)

lemma trim_open:
  assumes "s = CHR ''{'' # t"
  shows "trim s \<noteq> [] \<and> prefix (trim s) s"
proof -
  have "strip_words (map rev whitespace) (rev s) \<noteq> []"
    by (rule strip_words_nonempty) (auto simp: assms dest: whitespace_no_brace)
  moreover have "suffix (strip_words (map rev whitespace) (rev s)) (rev s)"
    by (rule strip_words_suffix)
  ultimately show ?thesis
    by (simp add: trim_def assms trim_start_brace suffix_to_prefix)
qed

lemma trim_end_brace:
  "strip_words (map rev whitespace) (CHR ''}'' # s) = CHR ''}'' # s"
  by (rule strip_words_id) (auto simp: prefix_Cons dest!: whitespace_no_brace) 

lemma trim_frame: "trim (CHR ''{'' # body @ [CHR ''}'']) = CHR ''{'' # body @ [CHR ''}'']"
  by (simp add: trim_def trim_start_brace trim_end_brace)

lemma trim_frame_line: "trim (CHR ''{'' # body @ [CHR ''}'', nl]) = CHR ''{'' # body @ [CHR ''}'']"
proof -
  have "strip_words (map rev whitespace) (nl # CHR ''}'' # rev body @ [CHR ''{''])
      = strip_words (map rev whitespace) (CHR ''}'' # rev body @ [CHR ''{''])"
    by (subst strip_words.simps) (simp add: whitespace_def nl_def)
  then show ?thesis by (simp add: trim_def trim_start_brace trim_end_brace)
qed

lemma decode_frame:
  assumes "frame_codec ser de" "ser m = Inr j"
  shows "decode_line de (j @ [nl]) = Inr (Some m)" "decode_line de j = Inr (Some m)"
    "utf8_valid (j @ [nl])" "utf8_valid j"
proof -
  obtain body where j: "j = CHR ''{'' # body @ [CHR ''}'']" "de j = Inr m" "utf8_valid j"
    using assms unfolding frame_codec_def by blast
  then show "decode_line de (j @ [nl]) = Inr (Some m)" "decode_line de j = Inr (Some m)"
    by (simp_all add: decode_line_def trim_frame trim_frame_line)
  show "utf8_valid (j @ [nl])" "utf8_valid j"
    using j(3) by (simp_all add: utf8_valid_append utf8_valid_ascii nl_def)
qed

lemma decode_cut:
  assumes "frame_codec ser de" "ser m = Inr j" "strict_prefix p j" "p \<noteq> []"
  shows "\<exists>e. decode_line de p = Inl e"
proof -
  obtain body where "j = CHR ''{'' # body @ [CHR ''}'']" using assms unfolding frame_codec_def by blast
  then obtain t where "p = CHR ''{'' # t" using assms(3,4) by (cases p) (auto simp: strict_prefix_def)
  then have "trim p \<noteq> []" and "strict_prefix (trim p) j"
    using trim_open [of p t] assms(3) by (auto intro: prefix_order.le_less_trans)
  moreover obtain e where "de (trim p) = Inl e" using assms(1,2) calculation unfolding frame_codec_def by blast
  ultimately show ?thesis by (simp add: decode_line_def)
qed

lemma encode_lines:
  "map (encode_line ser) ms = map Inr lines \<longleftrightarrow>
     (\<exists>js. map ser ms = map Inr js \<and> lines = map (\<lambda>j. j @ [nl]) js)"
proof (induction ms arbitrary: lines)
  case (Cons m ms)
  then show ?case
    by (cases lines) (auto simp: encode_line_def Cons_eq_map_conv split: sum.splits)
qed auto

lemma raw_lines_frames:
  "\<forall>j \<in> set js. nl \<notin> set j \<Longrightarrow>
     raw_lines (concat (map (\<lambda>j. j @ [nl]) js) @ t) = map (\<lambda>j. j @ [nl]) js @ raw_lines t"
  by (induction js) (auto simp: raw_lines_line)

lemma frames_append:
  assumes "frame_codec ser de"
  shows "map ser ms = map Inr js \<Longrightarrow>
     frames de (map (\<lambda>j. j @ [nl]) js @ lines) = apfst ((@) ms) (frames de lines)"
proof (induction ms arbitrary: js)
  case (Cons m ms)
  then obtain j js' where "js = j # js'" "ser m = Inr j" "map ser ms = map Inr js'" by (cases js) auto
  then show ?case
    using Cons.IH decode_frame [OF assms, of m j] by (cases "frames de lines") simp
qed (simp add: apfst_def map_prod_def)

lemma prefix_concat:
  "prefix p (concat ls) \<Longrightarrow>
     \<exists>k q. k \<le> length ls \<and> p = concat (take k ls) @ q \<and> (q = [] \<or> k < length ls \<and> strict_prefix q (ls ! k))"
proof (induction ls arbitrary: p)
  case (Cons l ls)
  show ?case
  proof (cases "prefix l p")
    case True
    then obtain p' where p': "p = l @ p'" "prefix p' (concat ls)" using Cons.prems by (auto simp: prefix_def)
    then obtain k q where "k \<le> length ls" "p' = concat (take k ls) @ q"
      "q = [] \<or> k < length ls \<and> strict_prefix q (ls ! k)"
      using Cons.IH by blast
    then show ?thesis using p' by (intro exI [of _ "Suc k"] exI [of _ q]) auto
  next
    case False
    then have "strict_prefix p l" using Cons.prems by (auto simp: prefix_append strict_prefix_def)
    then show ?thesis by (intro exI [of _ 0] exI [of _ p]) auto
  qed
qed simp

text \<open>
  C27: A message stream that is cut anywhere and arrives in arbitrary pieces delivers whole
  messages only, in order: those whose line arrived, and the last one also when only its
  newline is missing.  The reader ends without an error exactly when no message was cut, so
  a stream that arrives completely is read back as it was written.
\<close>

theorem frames_whole:
  assumes codec: "frame_codec ser de" and sent: "map (encode_line ser) ms = map Inr lines"
    and arrived: "prefix (concat cs) (concat lines)"
  shows "\<exists>k err. k \<le> length ms
     \<and> read_all de (line_reader_new (map ReadBytes cs) True) = Some (take k ms, err)
     \<and> (case err of
          None \<Rightarrow> concat cs = concat (take k lines) \<or> concat cs @ [nl] = concat (take k lines)
        | Some _ \<Rightarrow> k < length ms \<and> (\<exists>q. q \<noteq> [] \<and> concat cs = concat (take k lines) @ q
                     \<and> strict_prefix q (butlast (lines ! k))))"
proof -
  obtain js where js: "map ser ms = map Inr js" "lines = map (\<lambda>j. j @ [nl]) js"
    using sent by (auto simp: encode_lines)
  have len: "length lines = length ms" "length js = length ms" using js by (metis length_map)+
  have nl: "\<forall>j \<in> set js. nl \<notin> set j" 
    using codec js(1) unfolding frame_codec_def by (metis (no_types, lifting) imageE imageI list.set_map)
  obtain k q where k: "k \<le> length lines" "concat cs = concat (take k lines) @ q"
      "q = [] \<or> k < length lines \<and> strict_prefix q (lines ! k)"
    using prefix_concat [OF arrived] by blast
  have taken: "take k lines = map (\<lambda>j. j @ [nl]) (take k js)" "map ser (take k ms) = map Inr (take k js)"
    using js by (simp_all add: take_map [symmetric])
  have "represents (line_reader_new (map ReadBytes cs) True) (concat cs)"
    by (auto simp: represents_def line_reader_new_def)
  then have read: "read_all de (line_reader_new (map ReadBytes cs) True) =
      Some (apfst ((@) (take k ms)) (frames de (raw_lines q)))"
    using raw_lines_frames [of "take k js" q] nl in_set_takeD [of _ k js]
    by (simp add: read_all_bytes k(2) taken(1) frames_append [OF codec taken(2)])
  show ?thesis
  proof (cases "q = []")
    case True
    then show ?thesis using read k len by (intro exI [of _ k] exI [of _ None]) simp
  next
    case False
    then have "k < length ms" "strict_prefix q (js ! k @ [nl])" using k len js by auto
    then have j: "ser (ms ! k) = Inr (js ! k)" "prefix q (js ! k)"
      using arg_cong [OF js(1), of "\<lambda>xs. xs ! k"] len by (auto simp: strict_prefix_def)
    then have one: "raw_lines q = [q]"
      using False nl \<open>k < length ms\<close> len raw_lines_last by (metis nth_mem set_mono_prefix subset_iff)
    show ?thesis
    proof (cases "q = js ! k")
      case True
      then show ?thesis
        using read k one decode_frame [OF codec j(1)] \<open>k < length ms\<close> js len
        by (intro exI [of _ "Suc k"] exI [of _ None]) (simp add: take_Suc_conv_app_nth)
    next
      case cut: False
      then obtain e where "frames de [q] = ([], Some e)"
        using decode_cut [OF codec j(1) _ False] j(2) by (cases "utf8_valid q") (auto simp: strict_prefix_def)
      moreover have "strict_prefix q (butlast (lines ! k))"
        using j(2) cut js(2) \<open>k < length ms\<close> len by (simp add: strict_prefix_def)
      ultimately show ?thesis
        using read k one \<open>k < length ms\<close> False by (intro exI [of _ k] exI [of _ "Some e"]) simp
    qed
  qed
qed

definition frame_demo_ser :: "unit frame_ser" where
  "frame_demo_ser _ = Inr ''{}''"

definition frame_demo_de :: "unit frame_de" where
  "frame_demo_de s = (if s = ''{}'' then Inr () else Inl ''EOF while parsing an object'')"

lemma frame_demo_codec: "frame_codec frame_demo_ser frame_demo_de"
  by (auto simp: frame_codec_def frame_demo_ser_def frame_demo_de_def nl_def utf8_valid_ascii byte_def strict_prefix_def)

lemma frames_whole_witness:
  "\<exists>e. read_all frame_demo_de (line_reader_new (map ReadBytes [''{'', ''}'', [nl] @ ''{'']) True) = Some ([()], Some e)"
proof -
  let ?cs = "[''{'', ''}'', [nl] @ ''{'']" and ?lines = "[''{}'' @ [nl], ''{}'' @ [nl]]"
  have sent: "map (encode_line frame_demo_ser) [(), ()] = map Inr ?lines"
    by (simp add: encode_line_def frame_demo_ser_def)
  have "prefix (concat ?cs) (concat ?lines)" by simp
  from frames_whole [OF frame_demo_codec sent this] show ?thesis
  proof (elim exE conjE)
    fix k err
    assume k: "k \<le> length [(), ()]"
      and r: "read_all frame_demo_de (line_reader_new (map ReadBytes ?cs) True) = Some (take k [(), ()], err)"
      and c: "case err of
         None \<Rightarrow> concat ?cs = concat (take k ?lines) \<or> concat ?cs @ [nl] = concat (take k ?lines)
       | Some _ \<Rightarrow> k < length [(), ()] \<and> (\<exists>q. q \<noteq> [] \<and> concat ?cs = concat (take k ?lines) @ q
                    \<and> strict_prefix q (butlast (?lines ! k)))"
    from k have "k = 0 \<or> k = 1 \<or> k = 2" by auto
    then show ?thesis
      using r c by (auto simp: nl_def strict_prefix_def prefix_Cons split: option.splits)
  qed
qed

end
