(* ===== verification/Transport.thy ===== *)
theory Transport
  imports Server_Steps Remote_Codec
begin

text \<open>
  The wire protocol of the session server (\<open>server/protocol.rs\<close>) and the connections that
  serve it (\<open>server/transport.rs\<close>).  A connection is client number \<open>c\<close> of the server: the
  requests that spawn, fork or shut down start an operation of \<open>client_step\<close> and wait for its
  result, the others run in one section.  One forwarder per subscription copies the events of
  a lane into the queue of the connection's writer; \<open>cn_out\<close> is everything sent into that
  queue, and \<open>cn_handled\<close> logs the requests dispatched.
\<close>

section \<open>Protocol\<close>

datatype ServerRequest =
    SqCreateSession nat "SessionId option"
  | SqLoadSession nat SessionId
  | SqListSessions nat
  | SqSpawnLane nat SessionId LaneId
  | SqForkLane nat SessionId LaneId LaneId
  | SqPrompt nat SessionId LaneId "Message list"
  | SqContinue nat SessionId LaneId
  | SqAbort nat SessionId LaneId
  | SqReset nat SessionId LaneId
  | SqGetSnapshot nat SessionId LaneId
  | SqSubscribe nat SessionId LaneId
  | SqUnsubscribe nat SessionId LaneId
  | SqShutdown nat

fun server_request_id :: "ServerRequest \<Rightarrow> nat" where
  "server_request_id (SqCreateSession i _) = i"
| "server_request_id (SqLoadSession i _) = i"
| "server_request_id (SqListSessions i) = i"
| "server_request_id (SqSpawnLane i _ _) = i"
| "server_request_id (SqForkLane i _ _ _) = i"
| "server_request_id (SqPrompt i _ _ _) = i"
| "server_request_id (SqContinue i _ _) = i"
| "server_request_id (SqAbort i _ _) = i"
| "server_request_id (SqReset i _ _) = i"
| "server_request_id (SqGetSnapshot i _ _) = i"
| "server_request_id (SqSubscribe i _ _) = i"
| "server_request_id (SqUnsubscribe i _ _) = i"
| "server_request_id (SqShutdown i) = i"

datatype ServerMessage =
    SmResponse nat "string + json"
  | SmSessionList nat "SessionId list"
  | SmSnapshot SessionId LaneId AgentSnapshot
  | SmEvent SessionId LaneId AgentEvent

text \<open>\<open>result_value_string\<close>: a value and an error text are told apart by their key.\<close>

fun value_string_serialize :: "string + json \<Rightarrow> json" where
  "value_string_serialize (Inr v) = JObject [(''ok'', v)]"
| "value_string_serialize (Inl s) = JObject [(''err'', JString s)]"

definition value_string_deserialize :: "json \<Rightarrow> (string + json) option" where
  "value_string_deserialize v =
     (if is_object v
      then (case jget v ''ok'' of
              Some inner \<Rightarrow> Some (Inr inner)
            | None \<Rightarrow> (case get_str v ''err'' of Some s \<Rightarrow> Some (Inl s) | None \<Rightarrow> None))
      else None)"

text \<open>The \<open>Display\<close> texts of the errors a response carries.\<close>

fun session_error_text :: "SessionError \<Rightarrow> string" where
  "session_error_text (SeIo e) = ''io error: '' @ e"
| "session_error_text (SeSerde e) = ''serialize error: '' @ e"
| "session_error_text (SeDuplicateNode i) = ''duplicate node id: '' @ show_nat (unat i)"
| "session_error_text (SeParentNotFound i) = ''parent node not found: '' @ show_nat (unat i)"
| "session_error_text SeMultipleRoots = ''multiple roots not allowed''"
| "session_error_text SeCycle = ''cycle detected''"
| "session_error_text SeIdExhausted = ''node id cursor exhausted''"
| "session_error_text (SeFileLock e) = ''file lock error: '' @ e"

fun server_error_text :: "ServerError \<Rightarrow> string" where
  "server_error_text (SvSessionNotFound s) = ''session not found: '' @ s"
| "server_error_text (SvLaneNotFound l) = ''lane not found: '' @ l"
| "server_error_text (SvLaneAlreadyExists l) = ''lane already exists: '' @ l"
| "server_error_text (SvDuplicateSession s) = ''duplicate session: '' @ s"
| "server_error_text (SvSession e) = ''session error: '' @ session_error_text e"
| "server_error_text (SvAgent s) = ''agent error: '' @ s"
| "server_error_text (SvIo e) = ''io error: '' @ e"
| "server_error_text (SvProtocol s) = ''protocol error: '' @ s"

section \<open>Connections\<close>

text \<open>A forwarder: the lane it was started for, the task it listens to and its position.\<close>

record forwarder =
  fw_session :: SessionId
  fw_lane :: LaneId
  fw_task :: nat
  fw_seen :: nat
  fw_live :: bool

text \<open>What a dispatch waits for: its operation, or the exit of an old forwarder.\<close>

datatype conn_job =
    JobNone
  | JobOp nat bool
  | JobSubscribe nat SessionId LaneId nat nat

record Connection =
  cn_subs :: "SessionId \<times> LaneId \<rightharpoonup> nat"
  cn_forwarders :: "forwarder list"
  cn_out :: "ServerMessage list"
  cn_writer_ok :: bool
  cn_handled :: "ServerRequest list"
  cn_job :: conn_job
  cn_ended :: "(ServerError, unit) outcome option"

definition connection_new :: Connection where
  "connection_new =
     \<lparr>cn_subs = Map.empty, cn_forwarders = [], cn_out = [], cn_writer_ok = True, cn_handled = [],
      cn_job = JobNone, cn_ended = None\<rparr>"

definition send_msg :: "ServerMessage \<Rightarrow> Connection \<Rightarrow> (ServerError + unit) \<times> Connection" where
  "send_msg msg cn =
     (if cn_writer_ok cn then (Inr (), cn\<lparr>cn_out := cn_out cn @ [msg]\<rparr>)
      else (Inl (SvProtocol ''write channel closed''), cn))"

text \<open>The reply that ends a dispatch, and what the read loop makes of the outcome.\<close>

definition loop_end :: "(ServerError, unit) outcome \<Rightarrow> Connection \<Rightarrow> Connection" where
  "loop_end r cn = cn\<lparr>cn_ended := Some r, cn_job := JobNone\<rparr>"

definition reply :: "bool \<Rightarrow> ServerMessage \<Rightarrow> Connection \<Rightarrow> Connection" where
  "reply goon msg cn =
     (case send_msg msg cn of
        (Inl e, cn) \<Rightarrow> loop_end (Err e) cn
      | (Inr _, cn) \<Rightarrow> if goon then cn\<lparr>cn_job := JobNone\<rparr> else loop_end (Ok ()) cn)"

definition respond :: "bool \<Rightarrow> nat \<Rightarrow> json \<Rightarrow> ServerError + unit \<Rightarrow> Connection \<Rightarrow> Connection" where
  "respond goon i v r cn =
     reply goon (SmResponse i (case r of Inl e \<Rightarrow> Inl (server_error_text e) | Inr _ \<Rightarrow> Inr v)) cn"

section \<open>Dispatch\<close>

definition get_storage_factory :: "('s, 'w) ServerInner \<Rightarrow> ServerError + (string \<Rightarrow> 's)" where
  "get_storage_factory sv =
     (case sv_storage_factory sv of None \<Rightarrow> Inl (SvProtocol ''no storage factory'') | Some f \<Rightarrow> Inr f)"

definition get_runtime :: "('s, 'w) ServerInner \<Rightarrow> ServerError + AgentConfig \<times> 'w" where
  "get_runtime sv =
     (case sv_runtime_factory sv of None \<Rightarrow> Inl (SvProtocol ''no runtime factory'') | Some f \<Rightarrow> Inr f)"

definition dispatch_create ::
    "nat \<Rightarrow> SessionId option \<Rightarrow> Connection \<Rightarrow> ('s, 'w) ServerInner \<Rightarrow> Connection \<times> ('s, 'w) ServerInner" where
  "dispatch_create i session_id cn sv =
     (case (case session_id of Some sid \<Rightarrow> (sid, sv) | None \<Rightarrow> allocate_session_id sv) of
        (sid, sv) \<Rightarrow>
          (case get_storage_factory sv of
             Inl e \<Rightarrow> (loop_end (Err e) cn, sv)
           | Inr factory \<Rightarrow>
               (case create_session sid (factory sid) sv of
                  (r, sv) \<Rightarrow> (respond True i (JString sid) r cn, sv))))"

definition dispatch_load ::
    "'s backend \<Rightarrow> nat \<Rightarrow> SessionId \<Rightarrow> Connection \<Rightarrow> ('s, 'w) ServerInner \<Rightarrow> Connection \<times> ('s, 'w) ServerInner" where
  "dispatch_load be i sid cn sv =
     (case get_storage_factory sv of
        Inl e \<Rightarrow> (loop_end (Err e) cn, sv)
      | Inr factory \<Rightarrow>
          (case load_session be sid (factory sid) sv of
             (Ok _, sv) \<Rightarrow> (respond True i JNull (Inr ()) cn, sv)
           | (Err e, sv) \<Rightarrow> (respond True i JNull (Inl e) cn, sv)
           | (Panic, sv) \<Rightarrow> (loop_end Panic cn, sv)))"

text \<open>Cancelling a forwarder waits for it to exit.\<close>

definition cancel_forwarder :: "SessionId \<times> LaneId \<Rightarrow> Connection \<Rightarrow> Connection" where
  "cancel_forwarder k cn =
     (case cn_subs cn k of
        None \<Rightarrow> cn
      | Some f \<Rightarrow> cn\<lparr>cn_subs := (cn_subs cn)(k := None),
            cn_forwarders := (cn_forwarders cn)[f := (cn_forwarders cn ! f)\<lparr>fw_live := False\<rparr>]\<rparr>)"

definition start_forwarder :: "SessionId \<Rightarrow> LaneId \<Rightarrow> nat \<Rightarrow> nat \<Rightarrow> Connection \<Rightarrow> Connection" where
  "start_forwarder sid lane_id h pos cn =
     cn\<lparr>cn_subs := (cn_subs cn)((sid, lane_id) \<mapsto> length (cn_forwarders cn)),
        cn_forwarders := cn_forwarders cn @
          [\<lparr>fw_session = sid, fw_lane = lane_id, fw_task = h, fw_seen = pos, fw_live = True\<rparr>]\<rparr>"

definition finish_subscribe :: "nat \<Rightarrow> SessionId \<Rightarrow> LaneId \<Rightarrow> nat \<Rightarrow> nat \<Rightarrow> Connection \<Rightarrow> Connection" where
  "finish_subscribe i sid lane_id h pos cn =
     respond True i JNull (Inr ())
       (start_forwarder sid lane_id h pos (cancel_forwarder (sid, lane_id) cn))"

definition lane_missing :: "nat \<Rightarrow> Connection \<Rightarrow> Connection" where
  "lane_missing i cn = reply True (SmResponse i (Inl ''lane not found'')) cn"

text \<open>A routed command; \<open>None\<close>: the dispatch waits for room in the lane's channel.\<close>

definition dispatch_routed ::
    "nat \<Rightarrow> ((ServerError + unit) \<times> ('s, 'w) ServerInner) option \<Rightarrow> Connection
       \<Rightarrow> (Connection \<times> ('s, 'w) ServerInner) option" where
  "dispatch_routed i r cn =
     (case r of None \<Rightarrow> None | Some (r, sv) \<Rightarrow> Some (respond True i JNull r cn, sv))"

text \<open>An operation of the server: it runs as the connection's client.\<close>

definition dispatch_op ::
    "nat \<Rightarrow> bool \<Rightarrow> nat \<Rightarrow> ServerError + ('s, 'w) pc \<Rightarrow> Connection \<Rightarrow> ('s, 'w) system \<Rightarrow> Connection \<times> ('s, 'w) system" where
  "dispatch_op c goon i op cn st =
     (case op of
        Inl e \<Rightarrow> (loop_end (Err e) cn, st)
      | Inr pc \<Rightarrow> (cn\<lparr>cn_job := JobOp i goon\<rparr>, ((fst st)(c := pc), snd st)))"

definition server_dispatch ::
    "'s backend \<Rightarrow> nat \<Rightarrow> ServerRequest \<Rightarrow> Connection \<Rightarrow> ('s, 'w) system
       \<Rightarrow> (Connection \<times> ('s, 'w) system) option" where
  "server_dispatch be c req cn st =
     (case st of (pcs, sv) \<Rightarrow>
        case req of
          SqCreateSession i session_id \<Rightarrow> Some (apsnd (Pair pcs) (dispatch_create i session_id cn sv))
        | SqLoadSession i sid \<Rightarrow> Some (apsnd (Pair pcs) (dispatch_load be i sid cn sv))
        | SqListSessions i \<Rightarrow> Some (reply True (SmSessionList i (list_sessions sv)) cn, st)
        | SqSpawnLane i sid lane_id \<Rightarrow>
            Some (dispatch_op c True i
              (map_sum id (\<lambda>(config, runtime). PcCheck (spawn_lane sid lane_id config runtime)) (get_runtime sv)) cn st)
        | SqForkLane i sid from_lane new_lane \<Rightarrow>
            Some (dispatch_op c True i
              (map_sum id (\<lambda>(config, runtime). PcCheck (fork_lane sid from_lane new_lane config runtime))
                 (get_runtime sv)) cn st)
        | SqPrompt i sid lane_id messages \<Rightarrow>
            map_option (apsnd (Pair pcs)) (dispatch_routed i (server_prompt sid lane_id messages sv) cn)
        | SqContinue i sid lane_id \<Rightarrow>
            map_option (apsnd (Pair pcs)) (dispatch_routed i (server_continue sid lane_id sv) cn)
        | SqAbort i sid lane_id \<Rightarrow>
            map_option (apsnd (Pair pcs)) (dispatch_routed i (Some (server_abort sid lane_id sv)) cn)
        | SqReset i sid lane_id \<Rightarrow>
            map_option (apsnd (Pair pcs)) (dispatch_routed i (server_reset sid lane_id sv) cn)
        | SqGetSnapshot i sid lane_id \<Rightarrow>
            (case server_snapshot sid lane_id sv of
               Some snap \<Rightarrow> Some (reply True (SmSnapshot sid lane_id snap) cn, st)
             | None \<Rightarrow> Some (lane_missing i cn, st))
        | SqSubscribe i sid lane_id \<Rightarrow>
            (case server_subscribe sid lane_id sv of
               Some (h, pos) \<Rightarrow> Some (cn\<lparr>cn_job := JobSubscribe i sid lane_id h pos\<rparr>, st)
             | None \<Rightarrow> Some (lane_missing i cn, st))
        | SqUnsubscribe i sid lane_id \<Rightarrow>
            Some (respond True i JNull (Inr ()) (cancel_forwarder (sid, lane_id) cn), st)
        | SqShutdown i \<Rightarrow> Some (dispatch_op c False i (Inr PcDrain) cn st))"

section \<open>Serving\<close>

text \<open>The dispatch that was waiting goes on: its operation has ended, or the old forwarder has.\<close>

definition op_result :: "('s, 'w) pc \<Rightarrow> (ServerError + unit) option" where
  "op_result pc = (case pc of PcDone r \<Rightarrow> Some r | PcClosed _ \<Rightarrow> Some (Inr ()) | _ \<Rightarrow> None)"

definition resume_dispatch :: "nat \<Rightarrow> Connection \<Rightarrow> ('s, 'w) system \<Rightarrow> Connection option" where
  "resume_dispatch c cn st =
     (case cn_job cn of
        JobNone \<Rightarrow> None
      | JobOp i goon \<Rightarrow> map_option (\<lambda>r. respond goon i JNull r cn) (op_result (fst st c))
      | JobSubscribe i sid lane_id h pos \<Rightarrow> Some (finish_subscribe i sid lane_id h pos cn))"

text \<open>One iteration of a forwarder, as that of a lane's bridge.\<close>

definition forward :: "nat \<Rightarrow> nat \<Rightarrow> Connection \<Rightarrow> ('s, 'w) ServerInner \<Rightarrow> Connection" where
  "forward capacity f cn sv =
     (let fw = cn_forwarders cn ! f; events = st_events (ag_run (tk_agent (sv_tasks sv ! fw_task fw)));
          behind = length events - fw_seen fw;
          to = (\<lambda>fw'. cn\<lparr>cn_forwarders := (cn_forwarders cn)[f := fw']\<rparr>) in
      if \<not> fw_live fw \<or> behind = 0 then cn
      else if capacity < behind then to (fw\<lparr>fw_seen := length events - capacity\<rparr>)
      else (case send_msg (SmEvent (fw_session fw) (fw_lane fw) (events ! fw_seen fw))
                   (to (fw\<lparr>fw_seen := fw_seen fw + 1\<rparr>)) of
              (Inr _, cn) \<Rightarrow> cn
            | (Inl _, _) \<Rightarrow> to (fw\<lparr>fw_live := False\<rparr>)))"

text \<open>What ends the read loop: the end of the stream, a bad frame, or the writer's failure.\<close>

datatype conn_end = EndOfStream | BadFrame RemoteError | WriterFailed

definition conn_end_result :: "conn_end \<Rightarrow> (ServerError, unit) outcome" where
  "conn_end_result e =
     (case e of
        EndOfStream \<Rightarrow> Ok ()
      | BadFrame e \<Rightarrow> Err (SvProtocol (remote_error_text e))
      | WriterFailed \<Rightarrow> Err (SvProtocol ''writer failed''))"

text \<open>After the loop all subscriptions are cancelled; sessions and lanes stay.\<close>

definition close_connection :: "Connection \<Rightarrow> Connection" where
  "close_connection cn =
     cn\<lparr>cn_subs := Map.empty,
        cn_forwarders := map (\<lambda>fw. fw\<lparr>fw_live := False\<rparr>) (cn_forwarders cn)\<rparr>"

inductive conn_step ::
    "'s backend \<Rightarrow> nat \<Rightarrow> nat \<Rightarrow> Connection \<times> ('s, 'w) system \<Rightarrow> Connection \<times> ('s, 'w) system \<Rightarrow> bool"
  for be capacity c where
  request: "cn_ended cn = None \<Longrightarrow> cn_job cn = JobNone \<Longrightarrow>
    server_dispatch be c req (cn\<lparr>cn_handled := cn_handled cn @ [req]\<rparr>) st = Some (cn', st') \<Longrightarrow>
    conn_step be capacity c (cn, st) (cn', st')"
| resume: "cn_ended cn = None \<Longrightarrow> resume_dispatch c cn st = Some cn' \<Longrightarrow> conn_step be capacity c (cn, st) (cn', st)"
| stop: "cn_ended cn = None \<Longrightarrow> cn_job cn = JobNone \<Longrightarrow> (e = WriterFailed \<Longrightarrow> \<not> cn_writer_ok cn) \<Longrightarrow>
    conn_step be capacity c (cn, st) (loop_end (conn_end_result e) cn, st)"
| cleanup: "cn_ended cn \<noteq> None \<Longrightarrow> conn_step be capacity c (cn, st) (close_connection cn, st)"
| forward: "f < length (cn_forwarders cn) \<Longrightarrow>
    conn_step be capacity c (cn, (pcs, sv)) (forward capacity f cn sv, (pcs, sv))"
| write_failed: "conn_step be capacity c (cn, st) (cn\<lparr>cn_writer_ok := False\<rparr>, st)"
| server: "sys_step be capacity st st' \<Longrightarrow> fst st' c = fst st c \<or> \<not> idle (fst st c) \<Longrightarrow>
    conn_step be capacity c (cn, st) (cn, st')"

inductive conn_reachable ::
    "'s backend \<Rightarrow> nat \<Rightarrow> nat \<Rightarrow> Connection \<times> ('s, 'w) system \<Rightarrow> bool" for be capacity c where
  connect: "reachable be capacity st \<Longrightarrow> idle (fst st c) \<Longrightarrow> conn_reachable be capacity c (connection_new, st)"
| step: "conn_reachable be capacity c s \<Longrightarrow> conn_step be capacity c s s' \<Longrightarrow> conn_reachable be capacity c s'"

section \<open>A connection is a client of the server\<close>

lemma value_string_roundtrip: "value_string_deserialize (value_string_serialize r) = Some r"
  by (cases r) (simp_all add: value_string_deserialize_def get_str_def)

lemma reachable_session:
  "reachable be capacity (pcs, sv) \<Longrightarrow> register_session sid st sv = (r, sv') \<Longrightarrow> reachable be capacity (pcs, sv')"
  by (rule reachable.step [OF _ sys_step.session])

lemma reachable_agent:
  assumes "reachable be capacity (pcs, sv)" "get_lane sid lane_id sv = Inr h"
    "\<not> ag_exited (tk_agent (sv_tasks sv ! h)) \<Longrightarrow> evolves (tk_agent (sv_tasks sv ! h)) (f (tk_agent (sv_tasks sv ! h)))"
    "ag_exited (tk_agent (sv_tasks sv ! h)) \<Longrightarrow> f (tk_agent (sv_tasks sv ! h)) = tk_agent (sv_tasks sv ! h)"
  shows "reachable be capacity (pcs, update_task h (\<lambda>t. t\<lparr>tk_agent := f (tk_agent t)\<rparr>) sv)"
proof -
  obtain session lane where "sv_sessions sv sid = Some session" "ses_lanes session lane_id = Some lane"
      "h = lr_handle lane"
    using assms(2) by (auto simp: get_lane_def split: option.splits)
  then have "reg sv sid lane_id h (lr_generation lane)" by (simp add: reg_def)
  then have h: "h < length (sv_tasks sv)"
    using owned_reachable [OF assms(1)] unfolding owned_def registry_ok_def by blast
  show ?thesis
  proof (cases "ag_exited (tk_agent (sv_tasks sv ! h))")
    case True
    then show ?thesis using assms(1,4) h by (simp add: update_task_def)
  next
    case False
    have "update_task h (\<lambda>t. t\<lparr>tk_agent := f (tk_agent t)\<rparr>) sv =
        update_task h (\<lambda>t. t\<lparr>tk_agent := f (tk_agent (sv_tasks sv ! h))\<rparr>) sv"
      by (simp add: update_task_def)
    then show ?thesis
      using reachable.step [OF assms(1) sys_step.agent [OF h False assms(3) [OF False]]] by simp
  qed
qed

lemma handle_send_evolves: "handle_send cmd ag = Some (Inr ag') \<Longrightarrow> \<not> ag_exited ag \<and> evolves ag ag'"
  by (auto simp: handle_send_def evolves_def split: if_splits)

lemma handle_abort_evolves: "evolves ag (handle_abort ag)" "ag_exited ag \<Longrightarrow> handle_abort ag = ag"
  by (auto simp: handle_abort_def evolves_def)

lemma reachable_route:
  assumes reach: "reachable be capacity (pcs, sv)" and "route_command cmd sid lane_id sv = Some (r, sv')"
  shows "reachable be capacity (pcs, sv')"
proof (cases "get_lane sid lane_id sv")
  case (Inl e) then show ?thesis using assms by (auto simp: route_command_def)
next
  case (Inr h)
  show ?thesis
  proof (cases "handle_send cmd (tk_agent (sv_tasks sv ! h))")
    case (Some a)
    show ?thesis
    proof (cases a)
      case (Inr ag)
      then have "handle_send cmd (tk_agent (sv_tasks sv ! h)) = Some (Inr ag)" using Some by simp
      note ev = handle_send_evolves [OF this]
      have "sv' = update_task h (\<lambda>t. t\<lparr>tk_agent := (\<lambda>_. ag) (tk_agent t)\<rparr>) sv"
        using assms(2) Some Inr \<open>get_lane sid lane_id sv = Inr h\<close> by (simp add: route_command_def)
      then show ?thesis
        using reachable_agent [OF reach \<open>get_lane sid lane_id sv = Inr h\<close>, of "\<lambda>_. ag"] ev by simp
    qed (use assms Some Inr in \<open>auto simp: route_command_def\<close>)
  qed (use assms Inr in \<open>auto simp: route_command_def\<close>)
qed

lemma reachable_abort:
  "reachable be capacity (pcs, sv) \<Longrightarrow> reachable be capacity (pcs, snd (server_abort sid lane_id sv))"
  using reachable_agent [of be capacity pcs sv sid lane_id _ handle_abort] handle_abort_evolves
  by (cases "get_lane sid lane_id sv") (auto simp: server_abort_def)

lemma reachable_create:
  assumes "reachable be capacity (pcs, sv)"
  shows "reachable be capacity (pcs, snd (dispatch_create i session_id cn sv))"
proof -
  obtain sid sv1 where sv1: "(case session_id of Some sid \<Rightarrow> (sid, sv) | None \<Rightarrow> allocate_session_id sv) = (sid, sv1)"
    by fastforce
  have "reachable be capacity (pcs, sv1)"
    using sv1 assms reachable.step [OF assms sys_step.allocate] by (cases session_id) (auto simp: prod_eq_iff)
  then show ?thesis
    using sv1 reachable_session [of be capacity pcs sv1 sid]
    by (auto simp: dispatch_create_def create_session_def create_session_with_head_store_def
        split: sum.splits prod.splits)
qed

lemma reachable_load:
  assumes "reachable be capacity (pcs, sv)"
  shows "reachable be capacity (pcs, snd (dispatch_load be' i sid cn sv))"
  using assms reachable_session [OF assms, of sid]
  by (auto simp: dispatch_load_def load_session_def load_session_with_head_store_def
      split: sum.splits prod.splits outcome.splits)

lemma apsnd_Pair_eq: "apsnd (Pair a) p = (x, (b, y)) \<longleftrightarrow> p = (x, y) \<and> a = b"
  by (cases p) auto

lemma dispatch_reachable:
  assumes reach: "reachable be capacity (pcs, sv)" and idle: "idle (pcs c)"
    and step: "server_dispatch be c req cn (pcs, sv) = Some (cn', (pcs', sv'))"
  shows "reachable be capacity (pcs', sv')"
proof -
  have op: "reachable be capacity (pcs(c := pc), sv)" if "entry pc" for pc
    by (rule reachable.step [OF reach sys_step.begin_op]) (use idle that in auto)
  have entries: "\<not> lj_own_session (spawn_lane sid l config w)" "\<not> lj_own_session (fork_lane sid l l' config w)"
    for sid l l' config and w :: 'b
    by (simp_all add: spawn_lane_def fork_lane_def)
  have create: "dispatch_create i session_id cn sv = (cn', sv') \<Longrightarrow> ?thesis" if "pcs' = pcs" for i session_id
    using reachable_create [OF reach, of i session_id cn] that by simp
  have load: "dispatch_load be i sid cn sv = (cn', sv') \<Longrightarrow> ?thesis" if "pcs' = pcs" for i sid
    using reachable_load [OF reach, of be i sid cn] that by simp
  have abort: "server_abort sid l sv = (r, sv') \<Longrightarrow> ?thesis" if "pcs' = pcs" for sid l r
    using reachable_abort [OF reach, of sid l] that by simp
  have route: "route_command cmd sid l sv = Some (r, sv') \<Longrightarrow> ?thesis" if "pcs' = pcs" for cmd sid l r
    using reachable_route [OF reach, of cmd sid l] that by blast
  show ?thesis
    using step reach op entries create load abort route
    by (cases req)
       (auto simp: server_dispatch_def dispatch_op_def dispatch_routed_def get_runtime_def server_prompt_def
         server_continue_def server_reset_def apsnd_Pair_eq split: option.splits sum.splits prod.splits)
qed

text \<open>While no operation runs, the connection's client is idle.\<close>

lemma reply_job [simp]: "cn_job (reply goon msg cn) = JobNone"
  by (simp add: reply_def send_msg_def loop_end_def)

lemma respond_job [simp]: "cn_job (respond goon i v r cn) = JobNone"
  by (simp add: respond_def)

lemma dispatch_job:
  assumes "server_dispatch be c req cn (pcs, sv) = Some (cn', (pcs', sv'))" "idle (pcs c)"
  shows "(\<exists>i goon. cn_job cn' = JobOp i goon) \<or> idle (pcs' c)"
  using assms
  by (cases req)
     (auto simp: server_dispatch_def dispatch_op_def dispatch_routed_def apsnd_Pair_eq
       split: option.splits sum.splits prod.splits)

lemma forward_frame [simp]:
  "cn_job (forward capacity f cn sv) = cn_job cn" "cn_handled (forward capacity f cn sv) = cn_handled cn"
  "cn_ended (forward capacity f cn sv) = cn_ended cn" "cn_subs (forward capacity f cn sv) = cn_subs cn"
  by (auto simp: forward_def send_msg_def Let_def)

lemma close_frame [simp]:
  "cn_job (close_connection cn) = cn_job cn" "cn_handled (close_connection cn) = cn_handled cn"
  "cn_ended (close_connection cn) = cn_ended cn" "cn_out (close_connection cn) = cn_out cn"
  "cn_writer_ok (close_connection cn) = cn_writer_ok cn"
  by (simp_all add: close_connection_def)

lemma resume_job: "resume_dispatch c cn st = Some cn' \<Longrightarrow> cn_job cn' = JobNone \<and> (cn_job cn \<noteq> JobNone)
    \<and> ((\<exists>i goon. cn_job cn = JobOp i goon) \<longrightarrow> idle (fst st c))"
  by (auto simp: resume_dispatch_def finish_subscribe_def op_result_def split: conn_job.splits pc.splits)

lemma conn_server:
  "conn_reachable be capacity c (cn, st) \<Longrightarrow>
     reachable be capacity st \<and> ((\<exists>i goon. cn_job cn = JobOp i goon) \<or> idle (fst st c))"
proof (induction "(cn, st)" arbitrary: cn st rule: conn_reachable.induct)
  case (connect st) then show ?case by simp
next
  case (step s)
  obtain cn0 pcs0 sv0 where s: "s = (cn0, (pcs0, sv0))" by (cases s) auto
  note ih = step(2) [OF s]
  from step(3) [unfolded s] show ?case
  proof (cases rule: conn_step.cases)
    case (request req)
    then obtain pcs' sv' where "st = (pcs', sv')" by (cases st)
    then show ?thesis using request ih dispatch_reachable dispatch_job by fastforce
  next
    case resume then show ?thesis using ih resume_job [of c cn0 "(pcs0, sv0)" cn] by auto
  next
    case server
    then show ?thesis using ih reachable.step by fastforce
  qed (use ih in \<open>auto simp: loop_end_def\<close>)
qed

section \<open>Replies\<close>

fun is_event :: "ServerMessage \<Rightarrow> bool" where
  "is_event (SmEvent _ _ _) = True"
| "is_event _ = False"

text \<open>Is a message the reply to a request?  The snapshot carries no id, only its lane.\<close>

definition server_reply_to :: "ServerRequest \<Rightarrow> ServerMessage \<Rightarrow> bool" where
  "server_reply_to req msg =
     (case msg of
        SmResponse j _ \<Rightarrow> server_request_id req = j \<and> (\<forall>i. req \<noteq> SqListSessions i)
      | SmSessionList j _ \<Rightarrow> req = SqListSessions j
      | SmSnapshot sid lane_id _ \<Rightarrow> (\<exists>i. req = SqGetSnapshot i sid lane_id)
      | SmEvent _ _ _ \<Rightarrow> False)"

definition owes :: "ServerRequest \<Rightarrow> Connection \<Rightarrow> bool" where
  "owes req cn \<longleftrightarrow>
     (\<exists>reqs. cn_handled cn = reqs @ [req] \<and> list_all2 server_reply_to reqs (filter (\<lambda>m. \<not> is_event m) (cn_out cn)))"

definition paid :: "Connection \<Rightarrow> bool" where
  "paid cn \<longleftrightarrow> list_all2 server_reply_to (cn_handled cn) (filter (\<lambda>m. \<not> is_event m) (cn_out cn))"

text \<open>The job of a dispatch that is under way belongs to its request.\<close>

definition job_of :: "ServerRequest \<Rightarrow> conn_job \<Rightarrow> bool" where
  "job_of req job =
     (case job of
        JobNone \<Rightarrow> False
      | JobOp i _ \<Rightarrow> server_request_id req = i \<and> (\<forall>i. req \<noteq> SqListSessions i)
      | JobSubscribe i sid lane_id _ _ \<Rightarrow> req = SqSubscribe i sid lane_id)"

definition reply_inv :: "Connection \<Rightarrow> bool" where
  "reply_inv cn \<longleftrightarrow>
     cn_job cn = JobNone \<and> paid cn
     \<or> (\<exists>req. owes req cn \<and> cn_ended cn = None \<and> job_of req (cn_job cn))
     \<or> (\<exists>req. owes req cn \<and> cn_ended cn \<noteq> None \<and> cn_job cn = JobNone)"

lemma reply_pays:
  assumes "owes req cn" "server_reply_to req msg"
  shows "reply_inv (reply goon msg cn)"
proof -
  have "\<not> is_event msg" using assms(2) by (cases msg) (simp_all add: server_reply_to_def)
  then show ?thesis
    using assms
    by (cases "cn_writer_ok cn"; cases goon)
       (auto simp: reply_def send_msg_def loop_end_def reply_inv_def owes_def paid_def intro!: list_all2_appendI)
qed

lemma respond_pays:
  assumes "owes req cn" "server_request_id req = i" "\<forall>i. req \<noteq> SqListSessions i"
  shows "reply_inv (respond goon i v r cn)"
  unfolding respond_def using assms by (intro reply_pays) (auto simp: server_reply_to_def split: sum.splits)

lemma loop_end_owes: "owes req cn \<Longrightarrow> reply_inv (loop_end r cn)"
  by (auto simp: reply_inv_def loop_end_def owes_def)

lemma owes_cancel [simp]: "owes req (cancel_forwarder k cn) = owes req cn"
  by (simp add: owes_def cancel_forwarder_def split: option.splits)

lemma owes_start [simp]: "owes req (start_forwarder sid l h pos cn) = owes req cn"
  by (simp add: owes_def start_forwarder_def)

lemma dispatch_pays:
  assumes "owes req cn" "cn_ended cn = None" "server_dispatch be c req cn (pcs, sv) = Some (cn', (pcs', sv'))"
  shows "reply_inv cn'"
proof -
  note pays = respond_pays [OF assms(1)] reply_pays [OF assms(1)] loop_end_owes [OF assms(1)]
  have job: "reply_inv (cn\<lparr>cn_job := job\<rparr>)" if "job_of req job" for job
    using assms(1,2) that by (auto simp: reply_inv_def owes_def)
  have unsub: "reply_inv (respond True i v r (cancel_forwarder k cn))" if "req = SqUnsubscribe i a b" for i v r k a b
    using assms(1) that by (intro respond_pays [of req]) auto
  show ?thesis
    using assms(3) pays job unsub
    by (cases req)
       (auto simp: server_dispatch_def dispatch_op_def dispatch_routed_def dispatch_create_def dispatch_load_def
         lane_missing_def apsnd_Pair_eq server_reply_to_def job_of_def
         split: option.splits sum.splits prod.splits outcome.splits)
qed

lemma resume_pays:
  assumes "reply_inv cn" "cn_ended cn = None" "resume_dispatch c cn st = Some cn'"
  shows "reply_inv cn'"
proof -
  have "cn_job cn \<noteq> JobNone" using assms(3) by (auto simp: resume_dispatch_def)
  then obtain req where req: "owes req cn" "job_of req (cn_job cn)" using assms(1,2) by (auto simp: reply_inv_def)
  then show ?thesis
    using assms(3)
    by (cases "cn_job cn")
       (auto simp: resume_dispatch_def finish_subscribe_def job_of_def intro!: respond_pays [of req])
qed

lemma forward_out: "filter (\<lambda>m. \<not> is_event m) (cn_out (forward capacity f cn sv)) = filter (\<lambda>m. \<not> is_event m) (cn_out cn)"
  by (auto simp: forward_def send_msg_def Let_def)

lemma reply_inv_frame:
  "reply_inv cn \<Longrightarrow> cn_job cn' = cn_job cn \<Longrightarrow> cn_handled cn' = cn_handled cn \<Longrightarrow> cn_ended cn' = cn_ended cn \<Longrightarrow>
     filter (\<lambda>m. \<not> is_event m) (cn_out cn') = filter (\<lambda>m. \<not> is_event m) (cn_out cn) \<Longrightarrow> reply_inv cn'"
  by (simp add: reply_inv_def owes_def paid_def)

lemma reply_inv_reachable: "conn_reachable be capacity c (cn, st) \<Longrightarrow> reply_inv cn"
proof (induction "(cn, st)" arbitrary: cn st rule: conn_reachable.induct)
  case (connect st) then show ?case by (simp add: reply_inv_def paid_def connection_new_def)
next
  case (step s)
  obtain cn0 pcs0 sv0 where s: "s = (cn0, (pcs0, sv0))" by (cases s) auto
  note ih = step(2) [OF s]
  from step(3) [unfolded s] show ?case
  proof (cases rule: conn_step.cases)
    case (request req)
    obtain pcs' sv' where st: "st = (pcs', sv')" by (cases st)
    have "paid cn0" using ih request by (auto simp: reply_inv_def job_of_def)
    then have "owes req (cn0\<lparr>cn_handled := cn_handled cn0 @ [req]\<rparr>)"
      by (simp add: paid_def owes_def)
    moreover have "cn_ended (cn0\<lparr>cn_handled := cn_handled cn0 @ [req]\<rparr>) = None" using request by simp
    ultimately show ?thesis using request(3) unfolding st by (rule dispatch_pays)
  next
    case resume then show ?thesis using ih resume_pays by blast
  next
    case (stop e)
    then have "paid cn0" using ih by (auto simp: reply_inv_def job_of_def)
    then show ?thesis using stop by (auto simp: reply_inv_def loop_end_def paid_def)
  next
    case cleanup then show ?thesis using reply_inv_frame [OF ih, of cn] by simp
  next
    case (forward f)
    then show ?thesis using reply_inv_frame [OF ih, of cn] forward_out [of capacity f cn0 sv0] by simp
  next
    case write_failed then show ?thesis using reply_inv_frame [OF ih, of cn] by simp
  qed (use ih in simp)
qed

section \<open>Subscriptions\<close>

definition forwarder_inv :: "Connection \<Rightarrow> bool" where
  "forwarder_inv cn \<longleftrightarrow>
     (\<forall>f < length (cn_forwarders cn). fw_live (cn_forwarders cn ! f) \<longrightarrow>
        cn_subs cn (fw_session (cn_forwarders cn ! f), fw_lane (cn_forwarders cn ! f)) = Some f)
     \<and> (\<forall>k f. cn_subs cn k = Some f \<longrightarrow> f < length (cn_forwarders cn)
          \<and> (fw_session (cn_forwarders cn ! f), fw_lane (cn_forwarders cn ! f)) = k)"

lemma forwarder_inv_frame:
  "cn_subs cn' = cn_subs cn \<Longrightarrow> cn_forwarders cn' = cn_forwarders cn \<Longrightarrow> forwarder_inv cn' = forwarder_inv cn"
  by (simp add: forwarder_inv_def)

lemma reply_forwarders [simp]: "forwarder_inv (reply goon msg cn) = forwarder_inv cn"
  by (auto simp: reply_def send_msg_def loop_end_def intro!: forwarder_inv_frame)

lemma quiet_forwarders [simp]:
  "forwarder_inv (respond goon i v r cn) = forwarder_inv cn" "forwarder_inv (loop_end r' cn) = forwarder_inv cn"
  "forwarder_inv (cn\<lparr>cn_job := job\<rparr>) = forwarder_inv cn" "forwarder_inv (lane_missing i cn) = forwarder_inv cn"
  by (auto simp: respond_def loop_end_def lane_missing_def intro!: forwarder_inv_frame)

lemma forwarder_invD:
  "forwarder_inv cn \<Longrightarrow> f < length (cn_forwarders cn) \<Longrightarrow> fw_live (cn_forwarders cn ! f) \<Longrightarrow>
     cn_subs cn (fw_session (cn_forwarders cn ! f), fw_lane (cn_forwarders cn ! f)) = Some f"
  "forwarder_inv cn \<Longrightarrow> cn_subs cn k = Some f \<Longrightarrow> f < length (cn_forwarders cn)
     \<and> (fw_session (cn_forwarders cn ! f), fw_lane (cn_forwarders cn ! f)) = k"
  unfolding forwarder_inv_def by blast+

lemma update_inv:
  assumes "forwarder_inv cn" "fw_session fw = fw_session (cn_forwarders cn ! f)"
    "fw_lane fw = fw_lane (cn_forwarders cn ! f)" "fw_live fw \<Longrightarrow> fw_live (cn_forwarders cn ! f)"
  shows "forwarder_inv (cn\<lparr>cn_forwarders := (cn_forwarders cn)[f := fw]\<rparr>)"
proof (cases "f < length (cn_forwarders cn)")
  case True
  then show ?thesis
    using assms forwarder_invD [OF assms(1)] unfolding forwarder_inv_def
    by (simp add: nth_list_update) (metis prod.inject)
qed (use assms(1) in \<open>simp add: list_update_beyond\<close>)

lemma cancel_inv:
  assumes "forwarder_inv cn"
  shows "forwarder_inv (cancel_forwarder k cn)" "cn_subs (cancel_forwarder k cn) k = None"
proof -
  show "forwarder_inv (cancel_forwarder k cn)"
  proof (cases "cn_subs cn k")
    case (Some f)
    let ?fs = "cn_forwarders cn" and ?key = "\<lambda>fw. (fw_session fw, fw_lane fw)"
    let ?fs' = "?fs[f := (?fs ! f)\<lparr>fw_live := False\<rparr>]"
    note f = forwarder_invD(2) [OF assms Some]
    have nth: "?key (?fs' ! j) = ?key (?fs ! j)" "fw_live (?fs' ! j) \<longleftrightarrow> j \<noteq> f \<and> fw_live (?fs ! j)" for j
      using f by (simp_all add: nth_list_update)
    have "((cn_subs cn)(k := None)) (?key (?fs' ! j)) = Some j" if "j < length ?fs" "fw_live (?fs' ! j)" for j
      using that forwarder_invD(1) [OF assms that(1)] Some nth by auto
    moreover have "j < length ?fs \<and> ?key (?fs' ! j) = k'" if "((cn_subs cn)(k := None)) k' = Some j" for k' j
      using that forwarder_invD(2) [OF assms, of k' j] nth(1) by (simp split: if_splits)
    ultimately show ?thesis using Some by (simp add: forwarder_inv_def cancel_forwarder_def)
  qed (use assms in \<open>simp add: cancel_forwarder_def\<close>)
  show "cn_subs (cancel_forwarder k cn) k = None" by (simp add: cancel_forwarder_def split: option.splits)
qed

lemma start_inv:
  "forwarder_inv cn \<Longrightarrow> cn_subs cn (sid, l) = None \<Longrightarrow> forwarder_inv (start_forwarder sid l h pos cn)"
  by (auto simp: start_forwarder_def forwarder_inv_def nth_append less_Suc_eq)

lemma out_forwarders [simp]:
  "forwarder_inv (cn\<lparr>cn_forwarders := fs, cn_out := out\<rparr>) = forwarder_inv (cn\<lparr>cn_forwarders := fs\<rparr>)"
  by (rule forwarder_inv_frame) simp_all

lemma forward_inv: "forwarder_inv cn \<Longrightarrow> forwarder_inv (forward capacity f cn sv)"
  using update_inv [of cn _ f] by (simp add: forward_def send_msg_def Let_def)

lemma close_inv: "forwarder_inv (close_connection cn)"
  by (simp add: close_connection_def forwarder_inv_def)

lemma dispatch_forwarders:
  "forwarder_inv cn \<Longrightarrow> server_dispatch be c req cn (pcs, sv) = Some (cn', (pcs', sv')) \<Longrightarrow> forwarder_inv cn'"
  by (cases req)
     (auto simp: server_dispatch_def dispatch_op_def dispatch_routed_def dispatch_create_def dispatch_load_def
       apsnd_Pair_eq cancel_inv split: option.splits sum.splits prod.splits outcome.splits)

lemma forwarder_inv_reachable: "conn_reachable be capacity c (cn, st) \<Longrightarrow> forwarder_inv cn"
proof (induction "(cn, st)" arbitrary: cn st rule: conn_reachable.induct)
  case (connect st) then show ?case by (simp add: forwarder_inv_def connection_new_def)
next
  case (step s)
  obtain cn0 pcs0 sv0 where s: "s = (cn0, (pcs0, sv0))" by (cases s) auto
  note ih = step(2) [OF s]
  from step(3) [unfolded s] show ?case
  proof (cases rule: conn_step.cases)
    case (request req)
    obtain pcs' sv' where "st = (pcs', sv')" by (cases st)
    moreover have "forwarder_inv (cn0\<lparr>cn_handled := cn_handled cn0 @ [req]\<rparr>)"
      using ih by (simp add: forwarder_inv_def)
    ultimately show ?thesis using request dispatch_forwarders by blast
  next
    case resume
    then show ?thesis
      using ih by (auto simp: resume_dispatch_def finish_subscribe_def cancel_inv start_inv split: conn_job.splits)
  next
    case write_failed then show ?thesis using ih by (simp add: forwarder_inv_def)
  qed (use ih forward_inv close_inv in auto)
qed

section \<open>Properties\<close>

text \<open>
  C6: However requests, operations of other clients, events and failures interleave, each request
  a connection dispatched has exactly one reply in its output, in the order of the requests and of
  the kind its request asks for.  Every reply carries the id of its request, except a snapshot, for which
  the protocol has no id: it names the session and lane of its request.  At most the
  last request has no reply yet, and then its operation is still running or the connection ended.
\<close>

theorem transport_replies:
  assumes "conn_reachable be capacity c (cn, st)"
  shows "\<exists>n. list_all2 server_reply_to (take n (cn_handled cn)) (filter (\<lambda>m. \<not> is_event m) (cn_out cn))
     \<and> (n = length (cn_handled cn) \<and> cn_job cn = JobNone
        \<or> Suc n = length (cn_handled cn) \<and> (cn_job cn \<noteq> JobNone \<longleftrightarrow> cn_ended cn = None))"
  using reply_inv_reachable [OF assms] unfolding reply_inv_def
proof (elim disjE exE conjE)
  assume "cn_job cn = JobNone" "paid cn"
  then show ?thesis by (intro exI [of _ "length (cn_handled cn)"]) (simp add: paid_def)
next
  fix req assume "owes req cn" "cn_ended cn = None" "job_of req (cn_job cn)"
  moreover from this obtain reqs where "cn_handled cn = reqs @ [req]" by (auto simp: owes_def)
  ultimately show ?thesis by (intro exI [of _ "length reqs"]) (auto simp: owes_def job_of_def)
next
  fix req assume "owes req cn" "cn_ended cn \<noteq> None" "cn_job cn = JobNone"
  moreover from this obtain reqs where "cn_handled cn = reqs @ [req]" by (auto simp: owes_def)
  ultimately show ?thesis by (intro exI [of _ "length reqs"]) (auto simp: owes_def)
qed

text \<open>
  C17: A connection is a client of the server: what it does to the sessions and lanes is a run of
  the server's operations, so the guarantees on lanes hold whatever arrives over the wire.  And
  it has at most one live forwarder for each lane, the one its subscription table names.
\<close>

theorem transport_refines:
  assumes "conn_reachable be capacity c (cn, st)"
  shows "reachable be capacity st
     \<and> (\<forall>f < length (cn_forwarders cn). fw_live (cn_forwarders cn ! f) \<longrightarrow>
          cn_subs cn (fw_session (cn_forwarders cn ! f), fw_lane (cn_forwarders cn ! f)) = Some f)"
  using conn_server [OF assms] forwarder_inv_reachable [OF assms] by (simp add: forwarder_inv_def)

lemma reg_subscribe:
  "reg sv sid l h g \<Longrightarrow>
     server_subscribe sid l sv = Some (h, length (st_events (ag_run (tk_agent (sv_tasks sv ! h)))))"
  by (auto simp: reg_def server_subscribe_def)

text \<open>Subscribing to a lane in two sections.\<close>

lemma subscribe_steps:
  assumes reach: "conn_reachable be capacity c (cn, (pcs, sv))" and "cn_ended cn = None" "cn_job cn = JobNone"
    and r: "reg sv sid l h g"
  shows "conn_reachable be capacity c
     (cn\<lparr>cn_handled := cn_handled cn @ [SqSubscribe i sid l],
        cn_job := JobSubscribe i sid l h (length (st_events (ag_run (tk_agent (sv_tasks sv ! h)))))\<rparr>, (pcs, sv))"
  by (rule conn_reachable.step [OF reach], rule conn_step.request [where req = "SqSubscribe i sid l"])
     (use assms(2,3) reg_subscribe [OF r] in \<open>simp_all add: server_dispatch_def\<close>)

lemma resume_subscribe:
  assumes reach: "conn_reachable be capacity c (cn, st)" and "cn_ended cn = None"
    "cn_job cn = JobSubscribe i sid l h pos"
  shows "conn_reachable be capacity c (finish_subscribe i sid l h pos cn, st)"
  by (rule conn_reachable.step [OF reach], rule conn_step.resume) (use assms(2,3) in \<open>simp_all add: resume_dispatch_def\<close>)

text \<open>
  Subscribing again to a lane can deliver an event twice: the new receiver is taken before the
  old forwarder is cancelled, so an event published in between reaches both.
\<close>

theorem resubscribe_duplicates:
  assumes reach: "reachable be capacity (pcs, sv)" and idle: "idle (pcs c)" and r: "reg sv sid l h g"
    and cap: "0 < capacity"
  shows "\<exists>cn sv'. conn_reachable be capacity c (cn, (pcs, sv'))
     \<and> st_events (ag_run (tk_agent (sv_tasks sv' ! h))) = st_events (ag_run (tk_agent (sv_tasks sv ! h))) @ [e]
     \<and> cn_out cn = [SmResponse i (Inr JNull), SmEvent sid l e, SmResponse j (Inr JNull), SmEvent sid l e]"
proof -
  let ?ag = "tk_agent (sv_tasks sv ! h)"
  let ?n = "length (st_events (ag_run ?ag))"
  let ?ag' = "?ag\<lparr>ag_run := (ag_run ?ag)\<lparr>st_events := st_events (ag_run ?ag) @ [e]\<rparr>\<rparr>"
  let ?sv = "update_task h (\<lambda>t. t\<lparr>tk_agent := ?ag'\<rparr>) sv"
  have h: "h < length (sv_tasks sv)" "\<not> ag_exited ?ag"
    using owned_reachable [OF reach] r unfolding owned_def registry_ok_def released_def by blast+
  have ev: "st_events (ag_run (tk_agent (sv_tasks ?sv ! h))) = st_events (ag_run ?ag) @ [e]"
    using h by (simp add: update_task_nth)
  define fw where "fw = \<lparr>fw_session = sid, fw_lane = l, fw_task = h, fw_seen = ?n, fw_live = True\<rparr>"
  define cn1 where "cn1 = connection_new\<lparr>cn_subs := [(sid, l) \<mapsto> 0], cn_forwarders := [fw],
      cn_out := [SmResponse i (Inr JNull)], cn_handled := [SqSubscribe i sid l]\<rparr>"
  have "conn_reachable be capacity c (connection_new, (pcs, sv))"
    using reach idle by (simp add: conn_reachable.connect)
  note s1 = subscribe_steps [OF this _ _ r, of i]
  have r1: "conn_reachable be capacity c (cn1, (pcs, sv))"
    using resume_subscribe [OF s1, of i sid l h ?n]
    by (simp add: connection_new_def finish_subscribe_def cancel_forwarder_def start_forwarder_def respond_def
        reply_def send_msg_def cn1_def fw_def)
  let ?cn2 = "cn1\<lparr>cn_handled := cn_handled cn1 @ [SqSubscribe j sid l], cn_job := JobSubscribe j sid l h ?n\<rparr>"
  have s2: "conn_reachable be capacity c (?cn2, (pcs, sv))"
    by (rule subscribe_steps [OF r1 _ _ r]) (simp_all add: cn1_def connection_new_def)
  have sys: "sys_step be capacity (pcs, sv) (pcs, ?sv)"
    by (rule sys_step.agent) (use h in \<open>simp_all add: evolves_def\<close>)
  have s3: "conn_reachable be capacity c (?cn2, (pcs, ?sv))"
    by (rule conn_reachable.step [OF s2 conn_step.server [OF sys]]) simp
  let ?cn3 = "?cn2\<lparr>cn_forwarders := [fw\<lparr>fw_seen := Suc ?n\<rparr>], cn_out := cn_out cn1 @ [SmEvent sid l e]\<rparr>"
  have "forward capacity 0 ?cn2 ?sv = ?cn3"
    using cap ev by (simp add: forward_def send_msg_def Let_def cn1_def fw_def connection_new_def)
  then have s4: "conn_reachable be capacity c (?cn3, (pcs, ?sv))"
    using conn_reachable.step [OF s3 conn_step.forward [of 0]] by (simp add: cn1_def)
  let ?cn4 = "finish_subscribe j sid l h ?n ?cn3"
  have s5: "conn_reachable be capacity c (?cn4, (pcs, ?sv))"
    by (rule resume_subscribe [OF s4]) (simp_all add: cn1_def connection_new_def)
  have cn4: "cn_forwarders ?cn4 = [fw\<lparr>fw_seen := Suc ?n, fw_live := False\<rparr>, fw]" "cn_writer_ok ?cn4"
      "cn_out ?cn4 = [SmResponse i (Inr JNull), SmEvent sid l e, SmResponse j (Inr JNull)]"
    by (simp_all add: finish_subscribe_def cancel_forwarder_def start_forwarder_def respond_def
        reply_def send_msg_def cn1_def fw_def connection_new_def)
  have "conn_reachable be capacity c (forward capacity 1 ?cn4 ?sv, (pcs, ?sv))"
    by (rule conn_reachable.step [OF s5 conn_step.forward]) (simp add: cn4)
  moreover have "cn_out (forward capacity 1 ?cn4 ?sv) =
      [SmResponse i (Inr JNull), SmEvent sid l e, SmResponse j (Inr JNull), SmEvent sid l e]"
    using cap ev cn4 by (simp add: forward_def send_msg_def Let_def fw_def)
  ultimately show ?thesis using ev by blast
qed

text \<open>A connection that lists the sessions of a server with one session and one lane.\<close>

lemma demo_connection:
  "\<exists>pcs (sv :: (unit, unit) ServerInner) cn. conn_reachable null_backend 100 5 (cn, (pcs, sv))
     \<and> reachable null_backend 100 (pcs, sv) \<and> idle (pcs 5) \<and> reg sv ''s'' ''l'' 0 1
     \<and> cn_handled cn = [SqListSessions 3] \<and> cn_job cn = JobNone \<and> cn_ended cn = None"
proof -
  obtain pcs and sv :: "(unit, unit) ServerInner" where r: "reachable null_backend 100 (pcs, sv)"
    and i: "\<forall>c. idle (pcs c)" and sv: "reg sv ''s'' ''l'' 0 1"
    using demo_spawn_reachable by blast
  let ?cn = "connection_new\<lparr>cn_handled := [SqListSessions 3], cn_out := [SmSessionList 3 (list_sessions sv)]\<rparr>"
  have "conn_reachable null_backend 100 5 (connection_new, (pcs, sv))"
    by (rule conn_reachable.connect) (use r i in simp_all)
  then have "conn_reachable null_backend 100 5 (?cn, (pcs, sv))"
    by (rule conn_reachable.step, intro conn_step.request [where req = "SqListSessions 3"])
       (simp_all add: connection_new_def server_dispatch_def reply_def send_msg_def)
  then show ?thesis using r i sv
    by (intro exI [of _ pcs] exI [of _ sv] exI [of _ ?cn]) (simp add: connection_new_def)
qed

lemma transport_replies_witness:
  "\<exists>cn (st :: (unit, unit) system). conn_reachable null_backend 100 5 (cn, st)
     \<and> (\<exists>m. filter (\<lambda>m. \<not> is_event m) (cn_out cn) = [m] \<and> server_reply_to (SqListSessions 3) m)"
proof -
  obtain pcs and sv :: "(unit, unit) ServerInner" and cn
    where cn: "conn_reachable null_backend 100 5 (cn, (pcs, sv))" "cn_handled cn = [SqListSessions 3]"
      "cn_job cn = JobNone" "cn_ended cn = None"
    using demo_connection by blast
  have "list_all2 server_reply_to [SqListSessions 3] (filter (\<lambda>m. \<not> is_event m) (cn_out cn))"
    using transport_replies [OF cn(1)] cn(2-4) by auto
  then show ?thesis using cn(1) by (auto simp: list_all2_Cons1)
qed

lemma transport_refines_witness:
  "\<exists>cn (st :: (unit, unit) system). conn_reachable null_backend 100 5 (cn, st) \<and> reachable null_backend 100 st
     \<and> cn_handled cn = [SqListSessions 3]"
proof -
  obtain pcs and sv :: "(unit, unit) ServerInner" and cn
    where cn: "conn_reachable null_backend 100 5 (cn, (pcs, sv))" "cn_handled cn = [SqListSessions 3]"
    using demo_connection by blast
  show ?thesis using transport_refines [OF cn(1)] cn by blast
qed

lemma resubscribe_duplicates_witness:
  "\<exists>cn (st :: (unit, unit) system). conn_reachable null_backend 100 5 (cn, st)
     \<and> cn_out cn = [SmResponse 1 (Inr JNull), SmEvent ''s'' ''l'' AgentStart, SmResponse 2 (Inr JNull),
          SmEvent ''s'' ''l'' AgentStart]"
proof -
  obtain pcs and sv :: "(unit, unit) ServerInner"
    where "reachable null_backend 100 (pcs, sv)" "idle (pcs 5)" "reg sv ''s'' ''l'' 0 1"
    using demo_connection by blast
  from resubscribe_duplicates [OF this, of AgentStart 1 2] show ?thesis by auto
qed

end
