(* ===== verification/Remote_Client.thy ===== *)
theory Remote_Client
  imports Remote_Codec Loop_Config
begin

text \<open>
  The messages of the remote protocol (\<open>remote/protocol.rs\<close>) and its client
  (\<open>remote/client.rs\<close>): callers that wait for the reply to their request, one task that reads
  the connection and one that writes it, over shared tables of pending requests.  A caller or
  a task runs in sections between which the others run; a section takes one lock or touches
  one channel.

  A oneshot channel is named by the id of its request.  Ids are natural numbers: the
  code's \<open>u64\<close> would wrap after \<open>2^64\<close> requests.
\<close>

section \<open>Protocol\<close>

datatype RemoteRequest =
    RqPrompt nat "Message list"
  | RqContinue nat
  | RqSteer nat Message
  | RqFollowUp nat Message
  | RqAbort nat
  | RqReset nat
  | RqGetSnapshot nat
  | RqShutdown nat

fun request_id :: "RemoteRequest \<Rightarrow> nat" where
  "request_id (RqPrompt i _) = i"
| "request_id (RqContinue i) = i"
| "request_id (RqSteer i _) = i"
| "request_id (RqFollowUp i _) = i"
| "request_id (RqAbort i) = i"
| "request_id (RqReset i) = i"
| "request_id (RqGetSnapshot i) = i"
| "request_id (RqShutdown i) = i"

datatype RemoteMessage =
    RmSnapshot nat AgentSnapshot
  | RmResponse nat "string + unit"
  | RmEvent AgentEvent

text \<open>\<open>result_unit_string\<close>: success is \<open>null\<close>, an error its text.\<close>

fun unit_string_serialize :: "string + unit \<Rightarrow> json" where
  "unit_string_serialize (Inr _) = JNull"
| "unit_string_serialize (Inl s) = JString s"

fun unit_string_deserialize :: "json \<Rightarrow> (string + unit) option" where
  "unit_string_deserialize JNull = Some (Inr ())"
| "unit_string_deserialize (JString s) = Some (Inl s)"
| "unit_string_deserialize _ = None"

section \<open>State\<close>

datatype 'a oneshot = OsOpen | OsSent 'a | OsDropped

text \<open>A task that has met the end of the connection: the flag is set, then each table is drained.\<close>

datatype task = TkRunning | TkDrainPending | TkDrainSnapshots | TkEnded

record RemoteClient =
  cl_next_id :: nat
  cl_pending :: "nat set"
  cl_pending_snapshots :: "nat set"
  cl_replies :: "nat \<Rightarrow> (string + unit) oneshot"
  cl_snap_replies :: "nat \<Rightarrow> AgentSnapshot oneshot"
  cl_closed :: bool
  cl_queue :: "RemoteRequest list"
  cl_written :: "RemoteRequest list"
  cl_received :: "RemoteMessage list"
  cl_snapshot :: AgentSnapshot
  cl_events :: "AgentEvent list"
  cl_reader :: task
  cl_writer :: task

definition remote_initial_snapshot :: AgentSnapshot where
  "remote_initial_snapshot =
     \<lparr>as_system_prompt = [], as_model = None, as_thinking_level = ThOff, as_messages = [],
      as_is_streaming = False, as_streaming_message = None, as_pending_tool_calls = [],
      as_error_message = None\<rparr>"

definition remote_connect :: RemoteClient where
  "remote_connect =
     \<lparr>cl_next_id = 1, cl_pending = {}, cl_pending_snapshots = {}, cl_replies = (\<lambda>_. OsOpen),
      cl_snap_replies = (\<lambda>_. OsOpen), cl_closed = False, cl_queue = [], cl_written = [],
      cl_received = [], cl_snapshot = remote_initial_snapshot, cl_events = [],
      cl_reader = TkRunning, cl_writer = TkRunning\<rparr>"

section \<open>The read and the write task\<close>

definition resolve_reply :: "nat \<Rightarrow> string + unit \<Rightarrow> RemoteClient \<Rightarrow> RemoteClient" where
  "resolve_reply i r cl =
     (if i \<in> cl_pending cl
      then cl\<lparr>cl_pending := cl_pending cl - {i}, cl_replies := (cl_replies cl)(i := OsSent r)\<rparr>
      else cl)"

definition resolve_snapshot :: "nat \<Rightarrow> AgentSnapshot \<Rightarrow> RemoteClient \<Rightarrow> RemoteClient" where
  "resolve_snapshot i snap cl =
     (if i \<noteq> 0 \<and> i \<in> cl_pending_snapshots cl
      then cl\<lparr>cl_pending_snapshots := cl_pending_snapshots cl - {i},
              cl_snap_replies := (cl_snap_replies cl)(i := OsSent snap)\<rparr>
      else cl)"

definition receive :: "RemoteMessage \<Rightarrow> RemoteClient \<Rightarrow> RemoteClient" where
  "receive msg cl =
     (let cl = cl\<lparr>cl_received := cl_received cl @ [msg]\<rparr> in
      case msg of
        RmResponse i r \<Rightarrow> resolve_reply i r cl
      | RmSnapshot i snap \<Rightarrow> resolve_snapshot i snap (cl\<lparr>cl_snapshot := snap\<rparr>)
      | RmEvent event \<Rightarrow> cl\<lparr>cl_events := cl_events cl @ [event]\<rparr>)"

text \<open>A table is drained: the senders in it are dropped.\<close>

definition drop_senders :: "nat set \<Rightarrow> (nat \<Rightarrow> 'a oneshot) \<Rightarrow> nat \<Rightarrow> 'a oneshot" where
  "drop_senders ids slots = (\<lambda>i. if i \<in> ids then OsDropped else slots i)"

definition drain_pending :: "RemoteClient \<Rightarrow> RemoteClient" where
  "drain_pending cl =
     cl\<lparr>cl_pending := {}, cl_replies := drop_senders (cl_pending cl) (cl_replies cl)\<rparr>"

definition drain_snapshots :: "RemoteClient \<Rightarrow> RemoteClient" where
  "drain_snapshots cl =
     cl\<lparr>cl_pending_snapshots := {},
        cl_snap_replies := drop_senders (cl_pending_snapshots cl) (cl_snap_replies cl)\<rparr>"

text \<open>What \<open>LineReader::next\<close> returns to the read task: a message, or an end or an error (\<open>None\<close>).\<close>

fun reader_step :: "RemoteMessage option \<Rightarrow> RemoteClient \<Rightarrow> RemoteClient" where
  "reader_step frame cl =
     (case cl_reader cl of
        TkRunning \<Rightarrow>
          (case frame of
             Some msg \<Rightarrow> receive msg cl
           | None \<Rightarrow> cl\<lparr>cl_closed := True, cl_reader := TkDrainPending\<rparr>)
      | TkDrainPending \<Rightarrow> (drain_pending cl)\<lparr>cl_reader := TkDrainSnapshots\<rparr>
      | TkDrainSnapshots \<Rightarrow> (drain_snapshots cl)\<lparr>cl_reader := TkEnded\<rparr>
      | TkEnded \<Rightarrow> cl)"

text \<open>\<open>ok\<close>: does the write of the next request succeed?  The write task owns the queue's
  receiver until it ends.\<close>

fun writer_step :: "bool \<Rightarrow> RemoteClient \<Rightarrow> RemoteClient" where
  "writer_step ok cl =
     (case cl_writer cl of
        TkRunning \<Rightarrow>
          (case cl_queue cl of
             [] \<Rightarrow> cl
           | req # reqs \<Rightarrow>
               if ok then cl\<lparr>cl_queue := reqs, cl_written := cl_written cl @ [req]\<rparr>
               else cl\<lparr>cl_queue := reqs, cl_closed := True, cl_writer := TkDrainPending\<rparr>)
      | TkDrainPending \<Rightarrow> (drain_pending cl)\<lparr>cl_writer := TkDrainSnapshots\<rparr>
      | TkDrainSnapshots \<Rightarrow> (drain_snapshots cl)\<lparr>cl_writer := TkEnded\<rparr>
      | TkEnded \<Rightarrow> cl)"

section \<open>Callers\<close>

text \<open>
  A caller holds its request from the moment it has an id.  \<open>RcResult\<close> keeps the request
  to say what the result answers; \<open>abort\<close> returns without waiting.
\<close>

datatype call =
    CallCommand "nat \<Rightarrow> RemoteRequest"
  | CallSnapshot
  | CallAbort

text \<open>The methods of the client.\<close>

definition client_prompt :: "Message list \<Rightarrow> call" where
  "client_prompt messages = CallCommand (\<lambda>i. RqPrompt i messages)"

definition client_continue :: call where
  "client_continue = CallCommand RqContinue"

definition client_steer :: "Message \<Rightarrow> call" where
  "client_steer message = CallCommand (\<lambda>i. RqSteer i message)"

definition client_follow_up :: "Message \<Rightarrow> call" where
  "client_follow_up message = CallCommand (\<lambda>i. RqFollowUp i message)"

definition client_abort :: call where
  "client_abort = CallAbort"

definition client_reset :: call where
  "client_reset = CallCommand RqReset"

definition client_get_snapshot :: call where
  "client_get_snapshot = CallSnapshot"

definition client_shutdown :: call where
  "client_shutdown = CallCommand RqShutdown"

definition well_called :: "call \<Rightarrow> bool" where
  "well_called call \<longleftrightarrow>
     (\<exists>messages. call = client_prompt messages) \<or> call = client_continue \<or> (\<exists>message. call = client_steer message)
     \<or> (\<exists>message. call = client_follow_up message) \<or> call = client_abort \<or> call = client_reset
     \<or> call = client_get_snapshot \<or> call = client_shutdown"

lemmas method_defs = client_prompt_def client_continue_def client_steer_def client_follow_up_def
  client_abort_def client_reset_def client_get_snapshot_def client_shutdown_def

datatype rc_pc =
    RcIdle
  | RcEnter call
  | RcCheck RemoteRequest
  | RcInsert RemoteRequest
  | RcSend RemoteRequest
  | RcUnsent RemoteRequest
  | RcRecheck RemoteRequest
  | RcWithdraw RemoteRequest
  | RcWait RemoteRequest
  | RcExpired RemoteRequest
  | RcResult "RemoteRequest option" "RemoteError + AgentSnapshot option"

definition conn_closed :: RemoteError where
  "conn_closed = ReProtocol ''connection closed''"

definition take_id :: "RemoteClient \<Rightarrow> nat \<times> RemoteClient" where
  "take_id cl = (cl_next_id cl, cl\<lparr>cl_next_id := cl_next_id cl + 1\<rparr>)"

fun wants_snapshot :: "RemoteRequest \<Rightarrow> bool" where
  "wants_snapshot (RqGetSnapshot _) = True"
| "wants_snapshot _ = False"

fun is_abort :: "RemoteRequest \<Rightarrow> bool" where
  "is_abort (RqAbort _) = True"
| "is_abort _ = False"

definition insert_pending :: "RemoteRequest \<Rightarrow> RemoteClient \<Rightarrow> RemoteClient" where
  "insert_pending req cl =
     (if wants_snapshot req
      then cl\<lparr>cl_pending_snapshots := insert (request_id req) (cl_pending_snapshots cl)\<rparr>
      else cl\<lparr>cl_pending := insert (request_id req) (cl_pending cl)\<rparr>)"

definition remove_pending :: "RemoteRequest \<Rightarrow> RemoteClient \<Rightarrow> RemoteClient" where
  "remove_pending req cl =
     (if wants_snapshot req
      then cl\<lparr>cl_pending_snapshots := cl_pending_snapshots cl - {request_id req},
              cl_snap_replies := drop_senders (cl_pending_snapshots cl \<inter> {request_id req}) (cl_snap_replies cl)\<rparr>
      else cl\<lparr>cl_pending := cl_pending cl - {request_id req},
              cl_replies := drop_senders (cl_pending cl \<inter> {request_id req}) (cl_replies cl)\<rparr>)"

text \<open>What the oneshot receiver of a request yields; \<open>None\<close>: nothing yet.\<close>

definition awaited :: "RemoteRequest \<Rightarrow> RemoteClient \<Rightarrow> (RemoteError + AgentSnapshot option) option" where
  "awaited req cl =
     (if wants_snapshot req
      then (case cl_snap_replies cl (request_id req) of
              OsOpen \<Rightarrow> None
            | OsSent snap \<Rightarrow> Some (Inr (Some snap))
            | OsDropped \<Rightarrow> Some (Inl (ReProtocol ''response channel closed'')))
      else (case cl_replies cl (request_id req) of
              OsOpen \<Rightarrow> None
            | OsSent (Inr _) \<Rightarrow> Some (Inr None)
            | OsSent (Inl e) \<Rightarrow> Some (Inl (ReCommand e))
            | OsDropped \<Rightarrow> Some (Inl (ReProtocol ''response channel closed''))))"

text \<open>The entry of a method: the id is taken before the first check for a command and after
  it for \<open>get_snapshot\<close> and \<open>abort\<close>.\<close>

definition enter :: "call \<Rightarrow> RemoteClient \<Rightarrow> rc_pc \<times> RemoteClient" where
  "enter call cl =
     (case call of
        CallCommand mk \<Rightarrow> (case take_id cl of (i, cl) \<Rightarrow> (RcCheck (mk i), cl))
      | CallSnapshot \<Rightarrow>
          if cl_closed cl then (RcResult None (Inl conn_closed), cl)
          else (case take_id cl of (i, cl) \<Rightarrow> (RcInsert (RqGetSnapshot i), cl))
      | CallAbort \<Rightarrow>
          if cl_closed cl then (RcResult None (Inl conn_closed), cl)
          else (case take_id cl of (i, cl) \<Rightarrow> (RcSend (RqAbort i), cl)))"

text \<open>One section of a caller; \<open>None\<close>: it waits.  \<open>late\<close>: the deadline of the wait has passed.\<close>

definition caller_step :: "bool \<Rightarrow> rc_pc \<Rightarrow> RemoteClient \<Rightarrow> (rc_pc \<times> RemoteClient) option" where
  "caller_step late pc cl =
     (case pc of
        RcIdle \<Rightarrow> None
      | RcEnter call \<Rightarrow> Some (enter call cl)
      | RcCheck req \<Rightarrow>
          Some (if cl_closed cl then (RcResult (Some req) (Inl conn_closed), cl) else (RcInsert req, cl))
      | RcInsert req \<Rightarrow> Some (RcSend req, insert_pending req cl)
      | RcSend req \<Rightarrow>
          Some (if cl_writer cl = TkEnded
                then (if is_abort req
                      then (RcResult (Some req) (Inl (ReProtocol ''write channel closed'')), cl)
                      else (RcUnsent req, cl))
                else (RcRecheck req, cl\<lparr>cl_queue := cl_queue cl @ [req]\<rparr>))
      | RcUnsent req \<Rightarrow>
          Some (RcResult (Some req) (Inl (ReProtocol ''write channel closed'')), remove_pending req cl)
      | RcRecheck req \<Rightarrow>
          Some (if is_abort req
                then (RcResult (Some req) (if cl_closed cl then Inl conn_closed else Inr None), cl)
                else if cl_closed cl then (RcWithdraw req, cl) else (RcWait req, cl))
      | RcWithdraw req \<Rightarrow> Some (RcResult (Some req) (Inl conn_closed), remove_pending req cl)
      | RcWait req \<Rightarrow>
          (case awaited req cl of
             Some r \<Rightarrow> Some (RcResult (Some req) r, cl)
           | None \<Rightarrow> if late then Some (RcExpired req, cl) else None)
      | RcExpired req \<Rightarrow> Some (RcResult (Some req) (Inl ReTimeout), remove_pending req cl)
      | RcResult _ _ \<Rightarrow> None)"

section \<open>Interleavings\<close>

type_synonym rc_system = "(nat \<Rightarrow> rc_pc) \<times> RemoteClient"

fun returned :: "rc_pc \<Rightarrow> bool" where
  "returned RcIdle = True"
| "returned (RcResult _ _) = True"
| "returned _ = False"

inductive rc_step :: "rc_system \<Rightarrow> rc_system \<Rightarrow> bool" where
  caller: "caller_step late (pcs c) cl = Some (pc', cl') \<Longrightarrow> rc_step (pcs, cl) (pcs(c := pc'), cl')"
| call: "returned (pcs c) \<Longrightarrow> well_called call \<Longrightarrow> rc_step (pcs, cl) (pcs(c := RcEnter call), cl)"
| reader: "rc_step (pcs, cl) (pcs, reader_step frame cl)"
| writer: "rc_step (pcs, cl) (pcs, writer_step ok cl)"

inductive rc_reachable :: "rc_system \<Rightarrow> bool" where
  start: "rc_reachable (\<lambda>_. RcIdle, remote_connect)"
| step: "rc_reachable s \<Longrightarrow> rc_step s s' \<Longrightarrow> rc_reachable s'"

section \<open>Invariant\<close>

text \<open>The request of a caller; the one it has entered in a table; the one it is about to.\<close>

fun request_of :: "rc_pc \<Rightarrow> RemoteRequest option" where
  "request_of RcIdle = None"
| "request_of (RcEnter _) = None"
| "request_of (RcCheck req) = Some req"
| "request_of (RcInsert req) = Some req"
| "request_of (RcSend req) = Some req"
| "request_of (RcUnsent req) = Some req"
| "request_of (RcRecheck req) = Some req"
| "request_of (RcWithdraw req) = Some req"
| "request_of (RcWait req) = Some req"
| "request_of (RcExpired req) = Some req"
| "request_of (RcResult req _) = req"

fun outside :: "rc_pc \<Rightarrow> bool" where
  "outside (RcCheck _) = True" | "outside (RcInsert _) = True" | "outside (RcEnter _) = True"
| "outside RcIdle = True" | "outside (RcResult _ _) = True" | "outside _ = False"

definition inserted :: "rc_pc \<Rightarrow> RemoteRequest option" where
  "inserted pc =
     (case request_of pc of
        Some req \<Rightarrow> if outside pc \<or> is_abort req then None else Some req
      | None \<Rightarrow> None)"

fun to_insert :: "rc_pc \<Rightarrow> RemoteRequest option" where
  "to_insert (RcCheck req) = Some req"
| "to_insert (RcInsert req) = Some req"
| "to_insert _ = None"

text \<open>The entries of both tables.\<close>

definition entries :: "RemoteClient \<Rightarrow> (bool \<times> nat) set" where
  "entries cl = Pair False ` cl_pending cl \<union> Pair True ` cl_pending_snapshots cl"

definition key :: "RemoteRequest \<Rightarrow> bool \<times> nat" where
  "key req = (wants_snapshot req, request_id req)"

definition in_table :: "RemoteRequest \<Rightarrow> RemoteClient \<Rightarrow> bool" where
  "in_table req cl = (key req \<in> entries cl)"

fun drained_by :: "task \<Rightarrow> RemoteRequest \<Rightarrow> bool" where
  "drained_by TkDrainSnapshots req = (\<not> wants_snapshot req)"
| "drained_by TkEnded req = True"
| "drained_by _ req = False"

definition drained :: "RemoteRequest \<Rightarrow> RemoteClient \<Rightarrow> bool" where
  "drained req cl = (drained_by (cl_reader cl) req \<or> drained_by (cl_writer cl) req)"

text \<open>What a result says about the messages received.\<close>

definition answered :: "RemoteRequest \<Rightarrow> RemoteError + AgentSnapshot option \<Rightarrow> RemoteMessage set \<Rightarrow> bool" where
  "answered req r msgs =
     (case r of
        Inr (Some snap) \<Rightarrow> wants_snapshot req \<and> RmSnapshot (request_id req) snap \<in> msgs
      | Inr None \<Rightarrow> is_abort req \<or> \<not> wants_snapshot req \<and> RmResponse (request_id req) (Inr ()) \<in> msgs
      | Inl (ReCommand e) \<Rightarrow> RmResponse (request_id req) (Inl e) \<in> msgs
      | Inl _ \<Rightarrow> True)"

fun result_ok :: "rc_pc \<Rightarrow> RemoteMessage set \<Rightarrow> bool" where
  "result_ok (RcResult (Some req) r) msgs = answered req r msgs"
| "result_ok _ msgs = True"

definition pc_inv :: "rc_pc \<Rightarrow> RemoteClient \<Rightarrow> bool" where
  "pc_inv pc cl \<longleftrightarrow>
     (\<forall>req. request_of pc = Some req \<longrightarrow> 0 < request_id req \<and> request_id req < cl_next_id cl)
     \<and> (\<forall>req. inserted pc = Some req \<longrightarrow> (awaited req cl = None \<longleftrightarrow> in_table req cl))
     \<and> (\<forall>req. to_insert pc = Some req \<longrightarrow> awaited req cl = None \<and> \<not> in_table req cl \<and> \<not> is_abort req)
     \<and> (\<forall>req. pc = RcWait req \<longrightarrow> drained req cl \<longrightarrow> awaited req cl \<noteq> None)
     \<and> (\<forall>req. pc \<in> {RcUnsent req, RcWithdraw req, RcWait req, RcExpired req} \<longrightarrow> \<not> is_abort req)
     \<and> result_ok pc (set (cl_received cl))
     \<and> (\<forall>call. pc = RcEnter call \<longrightarrow> well_called call)"

definition client_inv :: "RemoteClient \<Rightarrow> bool" where
  "client_inv cl \<longleftrightarrow>
     0 < cl_next_id cl
     \<and> (cl_closed cl \<longleftrightarrow> cl_reader cl \<noteq> TkRunning \<or> cl_writer cl \<noteq> TkRunning)
     \<and> (\<forall>i r. cl_replies cl i = OsSent r \<longrightarrow> RmResponse i r \<in> set (cl_received cl))
     \<and> (\<forall>i snap. cl_snap_replies cl i = OsSent snap \<longrightarrow> RmSnapshot i snap \<in> set (cl_received cl))
     \<and> (\<forall>i \<ge> cl_next_id cl. cl_replies cl i = OsOpen \<and> cl_snap_replies cl i = OsOpen
          \<and> i \<notin> cl_pending cl \<and> i \<notin> cl_pending_snapshots cl)"

definition rc_inv :: "rc_system \<Rightarrow> bool" where
  "rc_inv s = (case s of (pcs, cl) \<Rightarrow>
     client_inv cl \<and> (\<forall>c. pc_inv (pcs c) cl)
     \<and> (\<forall>c c' req req'. c \<noteq> c' \<longrightarrow> request_of (pcs c) = Some req \<longrightarrow> request_of (pcs c') = Some req' \<longrightarrow>
          request_id req \<noteq> request_id req')
     \<and> (\<forall>k \<in> entries cl. \<exists>c req. inserted (pcs c) = Some req \<and> key req = k))"

text \<open>A change that does not touch the id of a request.\<close>

definition stays :: "nat \<Rightarrow> RemoteClient \<Rightarrow> RemoteClient \<Rightarrow> bool" where
  "stays i cl cl' \<longleftrightarrow>
     (i \<in> cl_pending cl' \<longleftrightarrow> i \<in> cl_pending cl)
     \<and> (i \<in> cl_pending_snapshots cl' \<longleftrightarrow> i \<in> cl_pending_snapshots cl)
     \<and> cl_replies cl' i = cl_replies cl i \<and> cl_snap_replies cl' i = cl_snap_replies cl i"

definition grows :: "RemoteClient \<Rightarrow> RemoteClient \<Rightarrow> bool" where
  "grows cl cl' \<longleftrightarrow>
     cl_next_id cl \<le> cl_next_id cl' \<and> set (cl_received cl) \<subseteq> set (cl_received cl')
     \<and> cl_reader cl' = cl_reader cl \<and> cl_writer cl' = cl_writer cl"

lemma answered_mono: "answered req r msgs \<Longrightarrow> msgs \<subseteq> msgs' \<Longrightarrow> answered req r msgs'"
  by (auto simp: answered_def split: sum.splits option.splits RemoteError.splits)

lemma result_ok_mono: "result_ok pc msgs \<Longrightarrow> msgs \<subseteq> msgs' \<Longrightarrow> result_ok pc msgs'"
  by (cases "(pc, msgs)" rule: result_ok.cases) (auto intro: answered_mono)

lemma stays_awaited: "stays (request_id req) cl cl' \<Longrightarrow>
    awaited req cl' = awaited req cl \<and> in_table req cl' = in_table req cl"
  by (auto simp: stays_def awaited_def in_table_def entries_def key_def)

lemma request_of_kinds:
  "inserted pc = Some req \<Longrightarrow> request_of pc = Some req"
  "to_insert pc = Some req \<Longrightarrow> request_of pc = Some req"
  "request_of (RcWait req) = Some req"
  by (auto simp: inserted_def split: option.splits if_splits) (cases pc; simp)

lemma pc_inv_stays:
  assumes "pc_inv pc cl" and "grows cl cl'"
    and "\<And>req. request_of pc = Some req \<Longrightarrow> stays (request_id req) cl cl'"
  shows "pc_inv pc cl'"
  using assms stays_awaited [of _ cl cl'] request_of_kinds(1,2) [of pc] result_ok_mono
  unfolding pc_inv_def grows_def drained_def
  by (intro conjI allI impI) (fastforce | metis request_of.simps less_le_trans)+

text \<open>What a section of a caller does beside changing its own request.\<close>

definition local_step :: "rc_pc \<Rightarrow> rc_pc \<Rightarrow> RemoteClient \<Rightarrow> RemoteClient \<Rightarrow> bool" where
  "local_step pc pc' cl cl' \<longleftrightarrow>
     grows cl cl'
     \<and> (\<forall>i. (\<forall>req. request_of pc' = Some req \<longrightarrow> request_id req \<noteq> i) \<longrightarrow> stays i cl cl')
     \<and> (request_of pc' = request_of pc
        \<or> request_of pc = None \<and> (\<forall>req. request_of pc' = Some req \<longrightarrow> request_id req = cl_next_id cl))
     \<and> (\<forall>k \<in> entries cl'. k \<in> entries cl \<or> (\<exists>req. inserted pc' = Some req \<and> key req = k))
     \<and> (\<forall>req. inserted pc = Some req \<longrightarrow> inserted pc' = Some req \<or> \<not> in_table req cl')"

lemmas table_defs = in_table_def key_def entries_def
lemmas local_defs = local_step_def grows_def stays_def inserted_def

lemma command_id:
  "well_called (CallCommand mk) \<Longrightarrow> request_id (mk i) = i \<and> \<not> wants_snapshot (mk i) \<and> \<not> is_abort (mk i)"
  by (auto simp: well_called_def method_defs)

lemma enter_ok:
  assumes "enter call cl = (pc', cl')" "client_inv cl" "well_called call"
  shows "client_inv cl' \<and> pc_inv pc' cl' \<and> local_step (RcEnter call) pc' cl cl'"
  using assms command_id [of _ "cl_next_id cl"]
  by (cases call)
     (auto simp: enter_def take_id_def client_inv_def pc_inv_def local_defs awaited_def conn_closed_def
       table_defs split: if_splits)

lemma insert_pending_ok:
  assumes "client_inv cl" "pc_inv (RcInsert req) cl"
  shows "client_inv (insert_pending req cl) \<and> pc_inv (RcSend req) (insert_pending req cl)
     \<and> local_step (RcInsert req) (RcSend req) cl (insert_pending req cl)"
  using assms
  by (auto simp: insert_pending_def client_inv_def pc_inv_def local_defs awaited_def table_defs)

lemma remove_pending_ok:
  assumes "client_inv cl" "pc_inv pc cl" "pc \<in> {RcUnsent req, RcWithdraw req, RcExpired req}"
    "\<forall>s. e \<noteq> ReCommand s"
  shows "client_inv (remove_pending req cl) \<and> pc_inv (RcResult (Some req) (Inl e)) (remove_pending req cl)
     \<and> local_step pc (RcResult (Some req) (Inl e)) cl (remove_pending req cl)"
proof -
  have "answered req (Inl e) msgs" for msgs using assms(4) by (cases e) (simp_all add: answered_def)
  then show ?thesis
    using assms(1-3)
    by (auto simp: remove_pending_def client_inv_def pc_inv_def local_defs table_defs drop_senders_def)
qed

lemma awaited_answered:
  assumes "client_inv cl" "awaited req cl = Some r"
  shows "answered req r (set (cl_received cl))"
  using assms
  by (auto simp: client_inv_def awaited_def answered_def split: if_splits oneshot.splits sum.splits)

lemma queue_frame [simp]:
  "awaited req (cl\<lparr>cl_queue := q\<rparr>) = awaited req cl" "in_table req (cl\<lparr>cl_queue := q\<rparr>) = in_table req cl"
  "entries (cl\<lparr>cl_queue := q\<rparr>) = entries cl"
  by (simp_all add: awaited_def table_defs)

lemma caller_step_ok:
  assumes "caller_step late pc cl = Some (pc', cl')" "client_inv cl" "pc_inv pc cl"
  shows "client_inv cl' \<and> pc_inv pc' cl' \<and> local_step pc pc' cl cl'"
proof (cases pc)
  case RcIdle then show ?thesis using assms by (simp add: caller_step_def)
next
  case (RcEnter call)
  then show ?thesis using assms enter_ok [of call cl pc' cl'] by (simp add: caller_step_def pc_inv_def)
next
  case (RcCheck req)
  then show ?thesis
    using assms by (auto simp: caller_step_def pc_inv_def local_defs answered_def conn_closed_def split: if_splits)
next
  case (RcInsert req) then show ?thesis using assms insert_pending_ok by (auto simp: caller_step_def)
next
  case (RcSend req)
  then show ?thesis
    using assms
    by (auto simp: caller_step_def pc_inv_def client_inv_def local_defs answered_def drained_def
      split: if_splits)
next
  case (RcUnsent req)
  then show ?thesis
    using assms remove_pending_ok [of cl pc req "ReProtocol ''write channel closed''"]
    by (auto simp: caller_step_def)
next
  case (RcRecheck req)
  then show ?thesis
    using assms
    by (auto simp: caller_step_def pc_inv_def client_inv_def local_defs answered_def conn_closed_def drained_def
      split: if_splits)
next
  case (RcWithdraw req)
  then show ?thesis
    using assms remove_pending_ok [of cl pc req conn_closed] by (auto simp: caller_step_def conn_closed_def)
next
  case (RcWait req)
  then show ?thesis
    using assms awaited_answered [of cl req]
    by (auto simp: caller_step_def pc_inv_def local_defs table_defs split: option.splits if_splits)
next
  case (RcExpired req)
  then show ?thesis
    using assms remove_pending_ok [of cl pc req ReTimeout] by (auto simp: caller_step_def)
next
  case (RcResult r s) then show ?thesis using assms by (simp add: caller_step_def)
qed

text \<open>What the tasks do: an entry that leaves a table has its channel resolved.\<close>

definition settles :: "RemoteClient \<Rightarrow> RemoteClient \<Rightarrow> bool" where
  "settles cl cl' \<longleftrightarrow>
     cl_next_id cl' = cl_next_id cl \<and> set (cl_received cl) \<subseteq> set (cl_received cl')
     \<and> (\<forall>req. if in_table req cl' then in_table req cl \<and> awaited req cl' = awaited req cl
              else if in_table req cl then awaited req cl' \<noteq> None else awaited req cl' = awaited req cl)
     \<and> (\<forall>req. drained req cl' \<longrightarrow> drained req cl \<or> \<not> in_table req cl')"

lemma inserted_Wait: "\<not> is_abort req \<Longrightarrow> inserted (RcWait req) = Some req"
  by (simp add: inserted_def)

lemma pc_inv_settles:
  assumes inv: "pc_inv pc cl" and "settles cl cl'"
  shows "pc_inv pc cl'"
proof -
  have table: "if in_table req cl' then in_table req cl \<and> awaited req cl' = awaited req cl
      else if in_table req cl then awaited req cl' \<noteq> None else awaited req cl' = awaited req cl" for req
    using assms(2) unfolding settles_def by blast
  have "awaited req cl' \<noteq> None" if "pc = RcWait req" "drained req cl'" for req
    using that table [of req] inv assms(2) inserted_Wait [of req] unfolding pc_inv_def settles_def
    by (metis insertI1 insertI2)
  then show ?thesis
    using inv assms(2) table result_ok_mono unfolding pc_inv_def settles_def
    by (intro conjI allI impI) (metis | fastforce)+
qed

lemma awaited_sent:
  "cl_replies cl (request_id req) = OsSent r \<Longrightarrow> \<not> wants_snapshot req \<Longrightarrow> awaited req cl \<noteq> None"
  "cl_snap_replies cl (request_id req) = OsSent snap \<Longrightarrow> wants_snapshot req \<Longrightarrow> awaited req cl \<noteq> None"
  by (auto simp: awaited_def split: sum.splits)

lemma settles_trans: "settles cl cl' \<Longrightarrow> settles cl' cl'' \<Longrightarrow> settles cl cl''"
  unfolding settles_def by (intro conjI allI) (metis subset_trans)+

lemma resolve_reply_ok:
  assumes "client_inv cl" "RmResponse i r \<in> set (cl_received cl)"
  shows "settles cl (resolve_reply i r cl)" "client_inv (resolve_reply i r cl)"
    "entries (resolve_reply i r cl) \<subseteq> entries cl"
proof -
  let ?cl = "resolve_reply i r cl"
  show "settles cl ?cl" unfolding settles_def
  proof (intro conjI allI)
    fix req
    show "if in_table req ?cl then in_table req cl \<and> awaited req ?cl = awaited req cl
        else if in_table req cl then awaited req ?cl \<noteq> None else awaited req ?cl = awaited req cl"
      using awaited_sent(1) [of ?cl req r]
      by (cases "request_id req = i"; cases "wants_snapshot req"; cases "i \<in> cl_pending cl")
         (auto simp: resolve_reply_def table_defs awaited_def)
  qed (auto simp: resolve_reply_def drained_def)
  show "client_inv ?cl" "entries ?cl \<subseteq> entries cl"
    using assms by (auto simp: resolve_reply_def client_inv_def entries_def)
qed

lemma resolve_snapshot_ok:
  assumes "client_inv cl" "RmSnapshot i snap \<in> set (cl_received cl)"
  shows "settles cl (resolve_snapshot i snap cl)" "client_inv (resolve_snapshot i snap cl)"
    "entries (resolve_snapshot i snap cl) \<subseteq> entries cl"
proof -
  let ?cl = "resolve_snapshot i snap cl"
  show "settles cl ?cl" unfolding settles_def
  proof (intro conjI allI)
    fix req
    show "if in_table req ?cl then in_table req cl \<and> awaited req ?cl = awaited req cl
        else if in_table req cl then awaited req ?cl \<noteq> None else awaited req ?cl = awaited req cl"
      by (cases "request_id req = i"; cases "wants_snapshot req"; cases "i \<in> cl_pending_snapshots cl")
         (auto simp: resolve_snapshot_def table_defs awaited_def)
  qed (auto simp: resolve_snapshot_def drained_def)
  show "client_inv ?cl" "entries ?cl \<subseteq> entries cl"
    using assms by (auto simp: resolve_snapshot_def client_inv_def entries_def)
qed

text \<open>Changes of fields that the invariant does not depend on.\<close>

lemma settles_frame [simp]:
  "settles cl (cl\<lparr>cl_received := cl_received cl @ ms, cl_snapshot := snap, cl_events := es\<rparr>)"
  "settles cl (cl\<lparr>cl_received := cl_received cl @ ms, cl_events := es\<rparr>)"
  "settles cl (cl\<lparr>cl_received := cl_received cl @ ms, cl_snapshot := snap\<rparr>)"
  "settles cl (cl\<lparr>cl_received := cl_received cl @ ms\<rparr>)"
  by (auto simp: settles_def table_defs awaited_def drained_def)

lemma receive_ok:
  assumes "client_inv cl"
  shows "settles cl (receive msg cl) \<and> client_inv (receive msg cl) \<and> entries (receive msg cl) \<subseteq> entries cl"
proof (cases msg)
  case (RmSnapshot i snap)
  let ?cl = "cl\<lparr>cl_received := cl_received cl @ [msg], cl_snapshot := snap\<rparr>"
  have "client_inv ?cl" "entries ?cl = entries cl" using assms by (auto simp: client_inv_def entries_def)
  then show ?thesis
    using resolve_snapshot_ok [of ?cl i snap] settles_trans [OF settles_frame(3)] RmSnapshot
    by (simp add: receive_def)
next
  case (RmResponse i r)
  let ?cl = "cl\<lparr>cl_received := cl_received cl @ [msg]\<rparr>"
  have "client_inv ?cl" "entries ?cl = entries cl" using assms by (auto simp: client_inv_def entries_def)
  then show ?thesis
    using resolve_reply_ok [of ?cl i r] settles_trans [OF settles_frame(4)] RmResponse
    by (simp add: receive_def)
next
  case (RmEvent e)
  then show ?thesis using assms by (auto simp: receive_def client_inv_def entries_def)
qed

lemma drain_pending_ok:
  assumes "client_inv cl"
  shows "settles cl (drain_pending cl) \<and> client_inv (drain_pending cl) \<and> entries (drain_pending cl) \<subseteq> entries cl"
  using assms
  by (auto simp: drain_pending_def drop_senders_def settles_def client_inv_def table_defs awaited_def drained_def)

lemma drain_snapshots_ok:
  assumes "client_inv cl"
  shows "settles cl (drain_snapshots cl) \<and> client_inv (drain_snapshots cl)
    \<and> entries (drain_snapshots cl) \<subseteq> entries cl"
  using assms
  by (auto simp: drain_snapshots_def drop_senders_def settles_def client_inv_def table_defs awaited_def drained_def)

text \<open>A task moves on after it has drained its table.\<close>

lemma no_entries_after_drain:
  "in_table req (drain_pending cl) \<Longrightarrow> wants_snapshot req"
  "in_table req (drain_snapshots cl) \<Longrightarrow> \<not> wants_snapshot req"
  by (auto simp: drain_pending_def drain_snapshots_def table_defs)

lemma settles_reader: "(\<And>req. drained_by tk req \<Longrightarrow> drained req cl \<or> \<not> in_table req cl) \<Longrightarrow>
    settles cl (cl\<lparr>cl_reader := tk\<rparr>)"
  and settles_writer: "(\<And>req. drained_by tk req \<Longrightarrow> drained req cl \<or> \<not> in_table req cl) \<Longrightarrow>
    settles cl (cl\<lparr>cl_writer := tk\<rparr>)"
  by (auto simp: settles_def table_defs awaited_def drained_def)

lemma task_frame [simp]:
  "entries (cl\<lparr>cl_reader := tk\<rparr>) = entries cl" "entries (cl\<lparr>cl_writer := tk\<rparr>) = entries cl"
  "entries (cl\<lparr>cl_closed := b\<rparr>) = entries cl" "entries (cl\<lparr>cl_written := w\<rparr>) = entries cl"
  by (simp_all add: entries_def)

lemma settles_quiet [simp]:
  "settles cl (cl\<lparr>cl_queue := q, cl_written := w\<rparr>)"
  "settles cl (cl\<lparr>cl_closed := b\<rparr>)" "settles cl (cl\<lparr>cl_queue := q, cl_closed := b\<rparr>)"
  by (simp_all add: settles_def table_defs awaited_def drained_def)

lemma drained_pending [simp]: "drained req (drain_pending cl) = drained req cl"
  by (simp add: drain_pending_def drained_def)

lemma drained_snapshots [simp]: "drained req (drain_snapshots cl) = drained req cl"
  by (simp add: drain_snapshots_def drained_def)

lemma drained_draining:
  "cl_reader cl = TkDrainSnapshots \<or> cl_writer cl = TkDrainSnapshots \<Longrightarrow> \<not> wants_snapshot req \<Longrightarrow> drained req cl"
  by (auto simp: drained_def)

lemma reader_step_ok:
  assumes "client_inv cl"
  shows "settles cl (reader_step frame cl) \<and> client_inv (reader_step frame cl)
    \<and> entries (reader_step frame cl) \<subseteq> entries cl"
proof (cases "cl_reader cl")
  case TkRunning
  show ?thesis
  proof (cases frame)
    case None
    have "settles cl (cl\<lparr>cl_closed := True, cl_reader := TkDrainPending\<rparr>)"
      by (rule settles_trans [OF settles_quiet(2) settles_reader]) simp
    then show ?thesis using None TkRunning assms by (simp add: client_inv_def)
  next
    case (Some msg) then show ?thesis using TkRunning receive_ok [OF assms, of msg] by simp
  qed
next
  case TkDrainPending
  have "settles (drain_pending cl) ((drain_pending cl)\<lparr>cl_reader := TkDrainSnapshots\<rparr>)"
    by (rule settles_reader) (auto dest: no_entries_after_drain)
  then show ?thesis
    using TkDrainPending drain_pending_ok [OF assms] settles_trans
    by (auto simp: client_inv_def drain_pending_def)
next
  case TkDrainSnapshots
  have "settles (drain_snapshots cl) ((drain_snapshots cl)\<lparr>cl_reader := TkEnded\<rparr>)"
    using drained_draining [OF disjI1 [OF TkDrainSnapshots]]
    by (intro settles_reader) (auto dest: no_entries_after_drain)
  then show ?thesis
    using TkDrainSnapshots drain_snapshots_ok [OF assms] settles_trans
    by (auto simp: client_inv_def drain_snapshots_def)
next
  case TkEnded then show ?thesis using assms by (simp add: settles_def)
qed

lemma writer_step_ok:
  assumes "client_inv cl"
  shows "settles cl (writer_step ok cl) \<and> client_inv (writer_step ok cl)
    \<and> entries (writer_step ok cl) \<subseteq> entries cl"
proof (cases "cl_writer cl")
  case TkRunning
  show ?thesis
  proof (cases "cl_queue cl")
    case Nil then show ?thesis using TkRunning assms by (simp add: settles_def)
  next
    case (Cons req reqs)
    have "settles cl (cl\<lparr>cl_queue := reqs, cl_closed := True, cl_writer := TkDrainPending\<rparr>)"
      by (rule settles_trans [OF settles_quiet(3) settles_writer]) simp
    then show ?thesis using Cons TkRunning assms by (auto simp: client_inv_def entries_def)
  qed
next
  case TkDrainPending
  have "settles (drain_pending cl) ((drain_pending cl)\<lparr>cl_writer := TkDrainSnapshots\<rparr>)"
    by (rule settles_writer) (auto dest: no_entries_after_drain)
  then show ?thesis
    using TkDrainPending drain_pending_ok [OF assms] settles_trans
    by (auto simp: client_inv_def drain_pending_def)
next
  case TkDrainSnapshots
  have "settles (drain_snapshots cl) ((drain_snapshots cl)\<lparr>cl_writer := TkEnded\<rparr>)"
    using drained_draining [OF disjI2 [OF TkDrainSnapshots]]
    by (intro settles_writer) (auto dest: no_entries_after_drain)
  then show ?thesis
    using TkDrainSnapshots drain_snapshots_ok [OF assms] settles_trans
    by (auto simp: client_inv_def drain_snapshots_def)
next
  case TkEnded then show ?thesis using assms by (simp add: settles_def)
qed

lemma rc_inv_tasks:
  assumes "rc_inv (pcs, cl)" "settles cl cl'" "client_inv cl'" "entries cl' \<subseteq> entries cl"
  shows "rc_inv (pcs, cl')"
  using assms pc_inv_settles unfolding rc_inv_def by fastforce

lemma inserted_own:
  assumes "rc_inv (pcs, cl)" "inserted (pcs c) = None" "k \<in> entries cl"
  obtains c' req where "c' \<noteq> c" "inserted (pcs c') = Some req" "key req = k"
proof -
  obtain c' req where *: "inserted (pcs c') = Some req" "key req = k" using assms unfolding rc_inv_def by blast
  then have "c' \<noteq> c" using assms(2) by auto
  then show thesis using * that by blast
qed

lemma rc_inv_client: "rc_inv (pcs, cl) \<Longrightarrow> client_inv cl"
  by (simp add: rc_inv_def)

lemma request_unique:
  "rc_inv (pcs, cl) \<Longrightarrow> c \<noteq> c' \<Longrightarrow> request_of (pcs c) = Some req \<Longrightarrow> request_of (pcs c') = Some req' \<Longrightarrow>
     request_id req \<noteq> request_id req'"
  unfolding rc_inv_def by blast

lemma request_bound: "rc_inv (pcs, cl) \<Longrightarrow> request_of (pcs c) = Some req \<Longrightarrow> request_id req < cl_next_id cl"
  unfolding rc_inv_def pc_inv_def by blast

lemma rc_inv_caller:
  assumes inv: "rc_inv (pcs, cl)" and step: "caller_step late (pcs c) cl = Some (pc', cl')"
  shows "rc_inv (pcs(c := pc'), cl')"
proof -
  have ok: "client_inv cl'" "pc_inv pc' cl'" and loc: "local_step (pcs c) pc' cl cl'"
    using caller_step_ok [OF step] inv by (auto simp: rc_inv_def)
  have other: "request_id req \<noteq> request_id req'"
    if "c' \<noteq> c" "request_of pc' = Some req" "request_of (pcs c') = Some req'" for c' req req'
  proof (cases "request_of pc' = request_of (pcs c)")
    case True then show ?thesis using that request_unique [OF inv, of c c'] by simp
  next
    case False
    then have "request_id req = cl_next_id cl" using loc that unfolding local_step_def by blast
    then show ?thesis using request_bound [OF inv that(3)] by simp
  qed
  have "pc_inv (pcs c') cl'" if "c' \<noteq> c" for c'
  proof (rule pc_inv_stays)
    show "pc_inv (pcs c') cl" using inv unfolding rc_inv_def by blast
    show "grows cl cl'" using loc unfolding local_step_def by blast
    show "stays (request_id req) cl cl'" if "request_of (pcs c') = Some req" for req
      using loc other [OF \<open>c' \<noteq> c\<close> _ that] unfolding local_step_def by blast
  qed
  moreover have "\<exists>c'' req. inserted ((pcs(c := pc')) c'') = Some req \<and> key req = k" if "k \<in> entries cl'" for k
  proof -
    from that loc consider "k \<in> entries cl" | req where "inserted pc' = Some req" "key req = k"
      unfolding local_step_def by blast
    then show ?thesis
    proof cases
      case 1
      then obtain c'' req where *: "inserted (pcs c'') = Some req" "key req = k"
        using inv unfolding rc_inv_def by blast
      show ?thesis
      proof (cases "c'' = c")
        case True
        then have "inserted pc' = Some req" using * loc that unfolding local_step_def in_table_def by blast
        then show ?thesis using * by (intro exI [of _ c]) simp
      next
        case False then show ?thesis using * by (intro exI [of _ c'']) simp
      qed
    next
      case 2 then show ?thesis by (intro exI [of _ c]) simp
    qed
  qed
  moreover have "\<forall>c1 c2 req req'. c1 \<noteq> c2 \<longrightarrow> request_of ((pcs(c := pc')) c1) = Some req \<longrightarrow>
      request_of ((pcs(c := pc')) c2) = Some req' \<longrightarrow> request_id req \<noteq> request_id req'"
    using other request_unique [OF inv] by (auto split: if_splits) (metis+)
  ultimately show ?thesis using ok unfolding rc_inv_def by simp
qed

lemma rc_inv_call:
  assumes "rc_inv (pcs, cl)" "returned (pcs c)" "well_called call"
  shows "rc_inv (pcs(c := RcEnter call), cl)"
proof -
  have "inserted (pcs c) = None" using assms(2) by (cases "pcs c") (auto simp: inserted_def split: option.splits)
  then have "\<exists>c'' req. inserted ((pcs(c := RcEnter call)) c'') = Some req \<and> key req = k" if "k \<in> entries cl" for k
    using inserted_own [OF assms(1) _ that, of c] by (metis fun_upd_other)
  moreover have "pc_inv (RcEnter call) cl" using assms(3) by (auto simp: pc_inv_def inserted_def)
  ultimately show ?thesis using assms(1) unfolding rc_inv_def by simp
qed

lemma rc_inv_reachable: "rc_reachable s \<Longrightarrow> rc_inv s"
proof (induction rule: rc_reachable.induct)
  case start
  then show ?case
    by (simp add: rc_inv_def client_inv_def remote_connect_def pc_inv_def inserted_def entries_def)
next
  case (step s s')
  from step(2) show ?case
  proof (cases rule: rc_step.cases)
    case (reader pcs cl frame)
    then have "rc_inv (pcs, cl)" using step.IH by simp
    moreover note reader_step_ok [OF rc_inv_client [OF this], of frame]
    ultimately show ?thesis using rc_inv_tasks reader(2) by blast
  next
    case (writer pcs cl ok)
    then have "rc_inv (pcs, cl)" using step.IH by simp
    moreover note writer_step_ok [OF rc_inv_client [OF this], of ok]
    ultimately show ?thesis using rc_inv_tasks writer(2) by blast
  qed (use step.IH rc_inv_caller rc_inv_call in auto)
qed

section \<open>Properties\<close>

declare reader_step.simps [simp del] writer_step.simps [simp del]

lemma rc_inv_pc: "rc_inv (pcs, cl) \<Longrightarrow> pc_inv (pcs c) cl"
  by (simp add: rc_inv_def)

lemma pc_inv_result: "pc_inv (RcResult (Some req) r) cl \<Longrightarrow> answered req r (set (cl_received cl))"
  by (simp add: pc_inv_def)

lemma pc_inv_wait: "pc_inv (RcWait req) cl \<Longrightarrow> drained req cl \<Longrightarrow> awaited req cl \<noteq> None"
  by (simp add: pc_inv_def)

text \<open>
  C7: Whatever the server sends and however callers, read task and write task interleave, a
  call that returns with a reply returns the one that was sent for its own id, no two calls
  share an id, and every pending entry belongs to a call that has not returned, so nothing is
  left in the tables once all calls have.
\<close>

theorem remote_replies:
  assumes "rc_reachable (pcs, cl)"
  shows "(\<forall>c req r. pcs c = RcResult (Some req) r \<longrightarrow> answered req r (set (cl_received cl)))
     \<and> (\<forall>c c' req req'. c \<noteq> c' \<longrightarrow> request_of (pcs c) = Some req \<longrightarrow> request_of (pcs c') = Some req' \<longrightarrow>
          request_id req \<noteq> request_id req')
     \<and> ((\<forall>c. returned (pcs c)) \<longrightarrow> cl_pending cl = {} \<and> cl_pending_snapshots cl = {})"
proof -
  note inv = rc_inv_reachable [OF assms]
  have "inserted pc = None" if "returned pc" for pc
    using that by (cases pc) (auto simp: inserted_def split: option.splits)
  then have "entries cl = {}" if "\<forall>c. returned (pcs c)"
    using that inserted_own [OF inv] by (metis equals0I option.distinct(1))
  moreover have "answered req r (set (cl_received cl))" if "pcs c = RcResult (Some req) r" for c req r
    using rc_inv_pc [OF inv, of c] that by (simp add: pc_inv_result)
  ultimately show ?thesis
    using request_unique [OF inv] by (auto simp: entries_def)
qed

text \<open>The sections a call has left at most.\<close>

fun remaining :: "rc_pc \<Rightarrow> nat" where
  "remaining (RcEnter _) = 7" | "remaining (RcCheck _) = 6" | "remaining (RcInsert _) = 5"
| "remaining (RcSend _) = 4" | "remaining (RcRecheck _) = 3" | "remaining (RcWait _) = 2"
| "remaining (RcUnsent _) = 1" | "remaining (RcWithdraw _) = 1" | "remaining (RcExpired _) = 1"
| "remaining RcIdle = 0" | "remaining (RcResult _ _) = 0"

lemma caller_step_remaining:
  "caller_step late pc cl = Some (pc', cl') \<Longrightarrow> remaining pc' < remaining pc"
  by (cases pc)
     (auto simp: caller_step_def enter_def take_id_def split: if_splits option.splits call.splits)

text \<open>
  C19: Once either task has seen the connection end and has drained the tables, no call blocks:
  each one that has not returned can run its next section without its timeout, also a call that
  entered its request after the drain, and it returns after at most seven sections of its own.
\<close>

theorem remote_closed_returns:
  assumes "rc_reachable (pcs, cl)" and "cl_reader cl = TkEnded \<or> cl_writer cl = TkEnded"
    and "\<not> returned (pcs c)"
  shows "\<exists>pc' cl'. caller_step False (pcs c) cl = Some (pc', cl') \<and> remaining pc' < remaining (pcs c)
     \<and> remaining (pcs c) \<le> 7"
proof -
  have "awaited req cl \<noteq> None" if "pcs c = RcWait req" for req
    using rc_inv_pc [OF rc_inv_reachable [OF assms(1)], of c] assms(2) that
    by (intro pc_inv_wait) (auto simp: drained_def)
  then have "caller_step False (pcs c) cl \<noteq> None"
    using assms(3) by (cases "pcs c") (auto simp: caller_step_def)
  then obtain pc' cl' where "caller_step False (pcs c) cl = Some (pc', cl')" by auto
  moreover have "remaining (pcs c) \<le> 7" by (cases "pcs c") simp_all
  ultimately show ?thesis using caller_step_remaining by blast
qed

text \<open>A run as a list of actions.\<close>

datatype rc_act = ActCall nat call | ActCaller nat bool | ActReader "RemoteMessage option" | ActWriter bool

fun rc_run :: "rc_act list \<Rightarrow> rc_system \<Rightarrow> rc_system option" where
  "rc_run [] s = Some s"
| "rc_run (ActCall c call # as) (pcs, cl) =
     (if returned (pcs c) \<and> well_called call then rc_run as (pcs(c := RcEnter call), cl) else None)"
| "rc_run (ActCaller c late # as) (pcs, cl) =
     (case caller_step late (pcs c) cl of
        None \<Rightarrow> None
      | Some (pc', cl') \<Rightarrow> rc_run as (pcs(c := pc'), cl'))"
| "rc_run (ActReader frame # as) (pcs, cl) = rc_run as (pcs, reader_step frame cl)"
| "rc_run (ActWriter ok # as) (pcs, cl) = rc_run as (pcs, writer_step ok cl)"

lemma rc_run_reachable: "rc_run as s = Some s' \<Longrightarrow> rc_reachable s \<Longrightarrow> rc_reachable s'"
  by (induction as s rule: rc_run.induct)
     (fastforce split: if_splits option.splits intro: rc_reachable.step rc_step.intros)+

lemmas rc_run_simps = reader_step.simps writer_step.simps caller_step_def enter_def take_id_def insert_pending_def awaited_def receive_def
  resolve_reply_def drain_pending_def drain_snapshots_def drop_senders_def remote_connect_def
  well_called_def method_defs

lemma remote_replies_witness:
  "\<exists>pcs cl. rc_reachable (pcs, cl) \<and> pcs 0 = RcResult (Some (RqContinue 1)) (Inr None)
     \<and> RmResponse 1 (Inr ()) \<in> set (cl_received cl) \<and> cl_pending cl = {}"
proof -
  obtain pcs cl where run: "rc_run [ActCall 0 client_continue, ActCaller 0 False, ActCaller 0 False,
      ActCaller 0 False, ActCaller 0 False, ActWriter True, ActCaller 0 False,
      ActReader (Some (RmResponse 1 (Inr ()))), ActCaller 0 False] (\<lambda>_. RcIdle, remote_connect) = Some (pcs, cl)"
      and pcs: "pcs = (\<lambda>_. RcIdle)(0 := RcResult (Some (RqContinue 1)) (Inr None))"
    by (simp add: rc_run_simps)
  have reach: "rc_reachable (pcs, cl)"
    by (rule rc_run_reachable [OF run rc_reachable.start])
  have result: "pcs 0 = RcResult (Some (RqContinue 1)) (Inr None)" and all: "\<forall>c. returned (pcs c)"
    by (simp_all add: pcs)
  note replies = remote_replies [OF reach]
  have "answered (RqContinue 1) (Inr None) (set (cl_received cl))" using replies result by blast
  moreover have "cl_pending cl = {}" using replies all by blast
  ultimately show ?thesis using reach result by (auto simp: answered_def)
qed

lemma remote_closed_returns_witness:
  "\<exists>pcs cl pc' cl'. rc_reachable (pcs, cl) \<and> pcs 0 = RcWait (RqContinue 1) \<and> cl_reader cl = TkEnded
     \<and> caller_step False (pcs 0) cl = Some (pc', cl') \<and> remaining pc' < 2"
proof -
  obtain pcs cl where run: "rc_run [ActCall 0 client_continue, ActCaller 0 False, ActCaller 0 False,
      ActCaller 0 False, ActCaller 0 False, ActCaller 0 False,
      ActReader None, ActReader None, ActReader None] (\<lambda>_. RcIdle, remote_connect) = Some (pcs, cl)"
      and pcs: "pcs = (\<lambda>_. RcIdle)(0 := RcWait (RqContinue 1))" and cl: "cl_reader cl = TkEnded"
    by (simp add: rc_run_simps)
  have reach: "rc_reachable (pcs, cl)"
    by (rule rc_run_reachable [OF run rc_reachable.start])
  have "\<not> returned (pcs 0)" by (simp add: pcs)
  from remote_closed_returns [OF reach disjI1 [OF cl] this] pcs cl reach show ?thesis by fastforce
qed

end
