(* ===== verification/Remote_Server.thy ===== *)
theory Remote_Server
  imports Remote_Client Agent_Runtime
begin

text \<open>
  The server side of the remote protocol (\<open>remote/server.rs\<close>): one connection serves one
  agent.  The main task reads requests and dispatches them, a forwarder copies the agent's
  events, and both send into one queue that the writer task drains.  \<open>rs_out\<close> is everything
  sent into that queue; \<open>rs_handled\<close> logs the requests that were dispatched.
\<close>

section \<open>Dispatch\<close>

record 'w RemoteServer =
  rs_agent :: "'w Agent"
  rs_seen :: nat
  rs_out :: "RemoteMessage list"
  rs_writer_ok :: bool
  rs_handled :: "RemoteRequest list"
  rs_stopping :: bool
  rs_ended :: "(RemoteError + unit) option"

definition remote_send_msg :: "RemoteMessage \<Rightarrow> 'w RemoteServer \<Rightarrow> (RemoteError + unit) \<times> 'w RemoteServer" where
  "remote_send_msg msg s =
     (if rs_writer_ok s then (Inr (), s\<lparr>rs_out := rs_out s @ [msg]\<rparr>)
      else (Inl (ReProtocol ''write channel closed''), s))"

text \<open>\<open>send_msg(..)?; Ok(goon)\<close>.\<close>

definition reply_then :: "bool \<Rightarrow> RemoteMessage \<Rightarrow> 'w RemoteServer \<Rightarrow> (RemoteError + bool) \<times> 'w RemoteServer" where
  "reply_then goon msg s =
     (case remote_send_msg msg s of
        (Inl e, s) \<Rightarrow> (Inl e, s)
      | (Inr _, s) \<Rightarrow> (Inr goon, s))"

text \<open>A command for the agent; \<open>None\<close>: the dispatch waits for room in its channel.\<close>

definition dispatch_command ::
    "nat \<Rightarrow> AgentCommand \<Rightarrow> 'w RemoteServer \<Rightarrow> ((RemoteError + bool) \<times> 'w RemoteServer) option" where
  "dispatch_command i cmd s =
     (case handle_send cmd (rs_agent s) of
        None \<Rightarrow> None
      | Some (Inl e) \<Rightarrow> Some (reply_then True (RmResponse i (Inl (agent_error_text e))) s)
      | Some (Inr ag) \<Rightarrow> Some (reply_then True (RmResponse i (Inr ())) (s\<lparr>rs_agent := ag\<rparr>)))"

fun remote_dispatch :: "RemoteRequest \<Rightarrow> 'w RemoteServer \<Rightarrow> ((RemoteError + bool) \<times> 'w RemoteServer) option" where
  "remote_dispatch (RqPrompt i messages) s = dispatch_command i (Prompt messages) s"
| "remote_dispatch (RqContinue i) s = dispatch_command i Continue s"
| "remote_dispatch (RqSteer i message) s = dispatch_command i (Steer message) s"
| "remote_dispatch (RqFollowUp i message) s = dispatch_command i (FollowUp message) s"
| "remote_dispatch (RqAbort i) s =
     Some (reply_then True (RmResponse i (Inr ())) (s\<lparr>rs_agent := handle_abort (rs_agent s)\<rparr>))"
| "remote_dispatch (RqReset i) s = dispatch_command i Reset s"
| "remote_dispatch (RqGetSnapshot i) s =
     Some (reply_then True (RmSnapshot i (st_snapshot (ag_run (rs_agent s)))) s)"
| "remote_dispatch (RqShutdown i) s = Some (reply_then False (RmResponse i (Inr ())) s)"

section \<open>Serving a connection\<close>

text \<open>The subscription and the initial snapshot, which is queued before anything else.\<close>

definition serve_start :: "'w Agent \<Rightarrow> 'w RemoteServer" where
  "serve_start ag =
     \<lparr>rs_agent = ag, rs_seen = length (st_events (ag_run ag)),
      rs_out = [RmSnapshot 0 (st_snapshot (ag_run ag))], rs_writer_ok = True, rs_handled = [],
      rs_stopping = False, rs_ended = None\<rparr>"

text \<open>One iteration of the forwarder, as that of a lane's bridge.\<close>

definition forward_event :: "nat \<Rightarrow> 'w RemoteServer \<Rightarrow> 'w RemoteServer" where
  "forward_event capacity s =
     (let events = st_events (ag_run (rs_agent s)); behind = length events - rs_seen s in
      if behind = 0 then s
      else if capacity < behind then s\<lparr>rs_seen := length events - capacity\<rparr>
      else snd (remote_send_msg (RmEvent (events ! rs_seen s)) (s\<lparr>rs_seen := rs_seen s + 1\<rparr>)))"

text \<open>What wakes the main task: a request, the end of the stream or a bad frame, the writer's
  failure, or, while it stops the agent, the outcome of that.\<close>

datatype serve_input =
    InRequest RemoteRequest
  | InEnd
  | InError RemoteError
  | InWriterFailed
  | InStopped "AgentError + unit"

definition end_serve :: "RemoteError + unit \<Rightarrow> 'w RemoteServer \<Rightarrow> 'w RemoteServer" where
  "end_serve r s = s\<lparr>rs_ended := Some r\<rparr>"

definition after_dispatch :: "RemoteRequest \<Rightarrow> RemoteError + bool \<Rightarrow> 'w RemoteServer \<Rightarrow> 'w RemoteServer" where
  "after_dispatch req r s =
     (let s = s\<lparr>rs_handled := rs_handled s @ [req]\<rparr> in
      case r of
        Inr goon \<Rightarrow> if goon then s else s\<lparr>rs_stopping := True\<rparr>
      | Inl e \<Rightarrow> end_serve (Inl e) s)"

definition serve_request :: "RemoteRequest \<Rightarrow> 'w RemoteServer \<Rightarrow> 'w RemoteServer option" where
  "serve_request req s =
     (case remote_dispatch req s of
        None \<Rightarrow> None
      | Some (r, s) \<Rightarrow> Some (after_dispatch req r s))"

definition serve_loop_step :: "serve_input \<Rightarrow> 'w RemoteServer \<Rightarrow> 'w RemoteServer option" where
  "serve_loop_step inp s =
     (if rs_ended s \<noteq> None then None
      else if rs_stopping s
      then (case inp of
              InStopped (Inr _) \<Rightarrow> Some (end_serve (Inr ()) s)
            | InStopped (Inl e) \<Rightarrow> Some (end_serve (Inl (ReCommand (agent_error_text e))) s)
            | _ \<Rightarrow> None)
      else (case inp of
              InRequest req \<Rightarrow> serve_request req s
            | InEnd \<Rightarrow> Some (end_serve (Inr ()) s)
            | InError e \<Rightarrow> Some (end_serve (Inl e) s)
            | InWriterFailed \<Rightarrow>
                if rs_writer_ok s then None else Some (end_serve (Inl (ReProtocol ''writer failed'')) s)
            | InStopped _ \<Rightarrow> None))"

text \<open>Commands sent to the agent and events published by it only grow.\<close>

definition agent_grows :: "'w Agent \<Rightarrow> 'w Agent \<Rightarrow> bool" where
  "agent_grows ag ag' =
     (prefix (st_events (ag_run ag)) (st_events (ag_run ag')) \<and> prefix (st_sent (ag_run ag)) (st_sent (ag_run ag')))"

inductive serves :: "nat \<Rightarrow> 'w Agent \<Rightarrow> 'w RemoteServer \<Rightarrow> bool" for capacity ag where
  start: "serves capacity ag (serve_start ag)"
| main: "serves capacity ag s \<Longrightarrow> serve_loop_step inp s = Some s' \<Longrightarrow> serves capacity ag s'"
| forward: "serves capacity ag s \<Longrightarrow> serves capacity ag (forward_event capacity s)"
| agent: "serves capacity ag s \<Longrightarrow> agent_grows (rs_agent s) ag' \<Longrightarrow> serves capacity ag (s\<lparr>rs_agent := ag'\<rparr>)"
| write_failed: "serves capacity ag s \<Longrightarrow> serves capacity ag (s\<lparr>rs_writer_ok := False\<rparr>)"

section \<open>Properties\<close>

fun event_of :: "RemoteMessage \<Rightarrow> AgentEvent option" where
  "event_of (RmEvent e) = Some e"
| "event_of _ = None"

definition forwarded :: "RemoteMessage list \<Rightarrow> AgentEvent list" where
  "forwarded out = List.map_filter event_of out"

definition replies :: "RemoteMessage list \<Rightarrow> RemoteMessage list" where
  "replies out = filter (\<lambda>m. event_of m = None) out"

text \<open>Is a message the reply to a request?\<close>

fun reply_to :: "RemoteRequest \<Rightarrow> RemoteMessage \<Rightarrow> bool" where
  "reply_to (RqGetSnapshot i) (RmSnapshot j _) = (i = j)"
| "reply_to (RqGetSnapshot i) _ = False"
| "reply_to req (RmResponse j _) = (request_id req = j)"
| "reply_to _ _ = False"

fun command_of :: "RemoteRequest \<Rightarrow> AgentCommand option" where
  "command_of (RqPrompt _ messages) = Some (Prompt messages)"
| "command_of (RqContinue _) = Some Continue"
| "command_of (RqSteer _ message) = Some (Steer message)"
| "command_of (RqFollowUp _ message) = Some (FollowUp message)"
| "command_of (RqReset _) = Some Reset"
| "command_of _ = None"

text \<open>The commands whose requests were answered with success.\<close>

definition accepted :: "RemoteRequest list \<Rightarrow> RemoteMessage list \<Rightarrow> AgentCommand list" where
  "accepted reqs msgs =
     List.map_filter (\<lambda>(req, msg). if \<exists>i. msg = RmResponse i (Inr ()) then command_of req else None) (zip reqs msgs)"

text \<open>\<open>n\<close> of the dispatched requests are answered, all of them while the writer lives.\<close>

definition serve_inv_at :: "'w Agent \<Rightarrow> 'w RemoteServer \<Rightarrow> RemoteMessage list \<Rightarrow> nat \<Rightarrow> bool" where
  "serve_inv_at ag s rest n \<longleftrightarrow>
     rs_out s = RmSnapshot 0 (st_snapshot (ag_run ag)) # rest
     \<and> n \<le> length (rs_handled s) \<and> length (rs_handled s) \<le> Suc n \<and> (rs_writer_ok s \<longrightarrow> n = length (rs_handled s))
     \<and> (n < length (rs_handled s) \<longrightarrow> rs_ended s \<noteq> None)
     \<and> list_all2 reply_to (take n (rs_handled s)) (replies rest)
     \<and> length (st_sent (ag_run ag)) \<le> length (st_sent (ag_run (rs_agent s)))
     \<and> subseq (accepted (take n (rs_handled s)) (replies rest))
         (drop (length (st_sent (ag_run ag))) (st_sent (ag_run (rs_agent s))))
     \<and> length (st_events (ag_run ag)) \<le> rs_seen s \<and> rs_seen s \<le> length (st_events (ag_run (rs_agent s)))
     \<and> subseq (forwarded rest)
         (drop (length (st_events (ag_run ag))) (take (rs_seen s) (st_events (ag_run (rs_agent s)))))"

definition serve_inv :: "'w Agent \<Rightarrow> 'w RemoteServer \<Rightarrow> bool" where
  "serve_inv ag s \<longleftrightarrow> (\<exists>rest n. serve_inv_at ag s rest n)"

text \<open>A dispatched request: answered at once, or the writer is gone and the loop ends.\<close>

definition handles :: "RemoteRequest \<Rightarrow> 'w RemoteServer \<Rightarrow> 'w RemoteServer \<Rightarrow> bool" where
  "handles req s s' \<longleftrightarrow>
     rs_handled s' = rs_handled s @ [req] \<and> rs_seen s' = rs_seen s \<and> rs_writer_ok s' = rs_writer_ok s
     \<and> st_events (ag_run (rs_agent s')) = st_events (ag_run (rs_agent s))
     \<and> (\<exists>cmds. st_sent (ag_run (rs_agent s')) = st_sent (ag_run (rs_agent s)) @ cmds
        \<and> (if rs_writer_ok s
           then \<exists>msg. rs_out s' = rs_out s @ [msg] \<and> reply_to req msg \<and> event_of msg = None
                  \<and> subseq (accepted [req] [msg]) cmds
           else rs_out s' = rs_out s \<and> rs_ended s' \<noteq> None))"

lemma accepted_simps [simp]:
  "accepted [req] [RmResponse i (Inr ())] = (case command_of req of None \<Rightarrow> [] | Some cmd \<Rightarrow> [cmd])"
  "accepted [req] [RmResponse i (Inl e)] = []" "accepted [req] [RmSnapshot i snap] = []" "accepted [] msgs = []"
  by (simp_all add: accepted_def List.map_filter_def split: option.splits)

lemma handle_send_sent: "handle_send cmd ag = Some (Inr ag') \<Longrightarrow>
    st_sent (ag_run ag') = st_sent (ag_run ag) @ [cmd] \<and> st_events (ag_run ag') = st_events (ag_run ag)"
  by (auto simp: handle_send_def split: if_splits)

lemma handle_abort_sent: "\<exists>cmds. st_sent (ag_run (handle_abort ag)) = st_sent (ag_run ag) @ cmds"
  "st_events (ag_run (handle_abort ag)) = st_events (ag_run ag)"
  by (auto simp: handle_abort_def)

lemma reply_handles:
  assumes "reply_then goon msg (s\<lparr>rs_agent := ag\<rparr>) = (r, s1)"
    "st_sent (ag_run ag) = st_sent (ag_run (rs_agent s)) @ cmds"
    "st_events (ag_run ag) = st_events (ag_run (rs_agent s))"
    "reply_to req msg" "event_of msg = None" "subseq (accepted [req] [msg]) cmds"
  shows "handles req s (after_dispatch req r s1)"
  using assms
  by (cases goon)
     (auto simp: reply_then_def remote_send_msg_def after_dispatch_def end_serve_def handles_def Let_def
       split: if_splits)

lemma dispatch_command_handles:
  assumes "dispatch_command (request_id req) cmd s = Some (r, s1)" "command_of req = Some cmd"
  shows "handles req s (after_dispatch req r s1)"
proof -
  have reply: "reply_to req (RmResponse (request_id req) result)" for result using assms(2) by (cases req) simp_all
  from assms(1) consider e where "handle_send cmd (rs_agent s) = Some (Inl e)"
      "reply_then True (RmResponse (request_id req) (Inl (agent_error_text e))) (s\<lparr>rs_agent := rs_agent s\<rparr>) = (r, s1)"
    | ag where "handle_send cmd (rs_agent s) = Some (Inr ag)"
      "reply_then True (RmResponse (request_id req) (Inr ())) (s\<lparr>rs_agent := ag\<rparr>) = (r, s1)"
    by (auto simp: dispatch_command_def split: option.splits sum.splits)
  then show ?thesis
  proof cases
    case 1
    from 1(2) show ?thesis by (rule reply_handles [where cmds = "[]"]) (simp_all add: reply)
  next
    case 2
    from 2(2) show ?thesis
      by (rule reply_handles [where cmds = "[cmd]"])
         (simp_all add: reply handle_send_sent [OF 2(1)] assms(2))
  qed
qed

lemma serve_request_handles:
  assumes "serve_request req s = Some s'"
  shows "handles req s s'"
proof -
  obtain r s1 where d: "remote_dispatch req s = Some (r, s1)" and s': "s' = after_dispatch req r s1"
    using assms by (auto simp: serve_request_def split: option.splits)
  have plain: "handles req s s'" if "reply_then goon msg s = (r, s1)" "reply_to req msg" "event_of msg = None"
      "accepted [req] [msg] = []" for goon msg
    unfolding s'
    by (rule reply_handles [where goon = goon and msg = msg and ag = "rs_agent s" and cmds = "[]"])
       (simp_all add: that)
  show ?thesis
  proof (cases "command_of req")
    case (Some cmd)
    then have "dispatch_command (request_id req) cmd s = Some (r, s1)" using d by (cases req) auto
    then show ?thesis unfolding s' using Some by (rule dispatch_command_handles)
  next
    case None
    show ?thesis
    proof (cases req)
      case (RqAbort i)
      obtain cmds where "st_sent (ag_run (handle_abort (rs_agent s))) = st_sent (ag_run (rs_agent s)) @ cmds"
        using handle_abort_sent(1) by blast
      moreover have "reply_then True (RmResponse i (Inr ())) (s\<lparr>rs_agent := handle_abort (rs_agent s)\<rparr>) = (r, s1)"
        using d RqAbort by simp
      ultimately show ?thesis
        unfolding s' using RqAbort
        by (intro reply_handles [where goon = True and msg = "RmResponse i (Inr ())"
              and ag = "handle_abort (rs_agent s)" and cmds = cmds])
           (simp_all add: handle_abort_sent)
    qed (use None d plain in auto)
  qed
qed

lemma list_all2_snoc: "list_all2 P xs ys \<Longrightarrow> P x y \<Longrightarrow> list_all2 P (xs @ [x]) (ys @ [y])"
  by (simp add: list_all2_appendI)

lemma accepted_append: "length reqs = length msgs \<Longrightarrow>
    accepted (reqs @ reqs') (msgs @ msgs') = accepted reqs msgs @ accepted reqs' msgs'"
  by (simp add: accepted_def List.map_filter_def)

lemma serve_inv_request:
  assumes "serve_inv ag s" "handles req s s'" "rs_ended s = None"
  shows "serve_inv ag s'"
proof -
  obtain rest n where inv: "serve_inv_at ag s rest n" using assms(1) unfolding serve_inv_def by blast
  then have n: "n = length (rs_handled s)" using assms(3) by (auto simp: serve_inv_at_def)
  have all: "list_all2 reply_to (rs_handled s) (replies rest)"
    and acc: "subseq (accepted (rs_handled s) (replies rest))
       (drop (length (st_sent (ag_run ag))) (st_sent (ag_run (rs_agent s))))"
    and len: "length (st_sent (ag_run ag)) \<le> length (st_sent (ag_run (rs_agent s)))"
    using inv n by (auto simp: serve_inv_at_def)
  obtain cmds where sent: "st_sent (ag_run (rs_agent s')) = st_sent (ag_run (rs_agent s)) @ cmds"
    and out: "if rs_writer_ok s
           then \<exists>msg. rs_out s' = rs_out s @ [msg] \<and> reply_to req msg \<and> event_of msg = None
                  \<and> subseq (accepted [req] [msg]) cmds
           else rs_out s' = rs_out s \<and> rs_ended s' \<noteq> None"
    and frame: "rs_handled s' = rs_handled s @ [req]" "rs_seen s' = rs_seen s" "rs_writer_ok s' = rs_writer_ok s"
      "st_events (ag_run (rs_agent s')) = st_events (ag_run (rs_agent s))"
    using assms(2) unfolding handles_def by blast
  show ?thesis
  proof (cases "rs_writer_ok s")
    case True
    then obtain msg where msg: "rs_out s' = rs_out s @ [msg]" "reply_to req msg" "event_of msg = None"
        "subseq (accepted [req] [msg]) cmds" using out by auto
    have "replies (rest @ [msg]) = replies rest @ [msg]" "forwarded (rest @ [msg]) = forwarded rest"
      using msg(3) by (simp_all add: replies_def forwarded_def List.map_filter_def)
    moreover have "subseq (accepted (rs_handled s @ [req]) (replies rest @ [msg]))
        (drop (length (st_sent (ag_run ag))) (st_sent (ag_run (rs_agent s)) @ cmds))"
      using acc len msg(4) list_all2_lengthD [OF all] by (simp add: accepted_append list_emb_append_mono)
    moreover note list_all2_snoc [OF all msg(2)]
    ultimately have "serve_inv_at ag s' (rest @ [msg]) (Suc n)"
      using inv n frame sent msg(1) by (simp add: serve_inv_at_def)
    then show ?thesis unfolding serve_inv_def by blast
  next
    case False
    have "subseq (accepted (rs_handled s) (replies rest))
        (drop (length (st_sent (ag_run ag))) (st_sent (ag_run (rs_agent s))) @ cmds)"
      using acc by (rule list_emb_prefix)
    then have "serve_inv_at ag s' rest n"
      using inv n frame sent out False by (simp add: serve_inv_at_def)
    then show ?thesis unfolding serve_inv_def by blast
  qed
qed

lemma serve_inv_cong:
  "serve_inv ag s \<Longrightarrow> rs_out s' = rs_out s \<Longrightarrow> rs_handled s' = rs_handled s \<Longrightarrow> rs_seen s' = rs_seen s \<Longrightarrow>
   rs_agent s' = rs_agent s \<Longrightarrow> (rs_writer_ok s' \<longrightarrow> rs_writer_ok s) \<Longrightarrow> (rs_ended s \<noteq> None \<longrightarrow> rs_ended s' \<noteq> None) \<Longrightarrow>
   serve_inv ag s'"
  unfolding serve_inv_def serve_inv_at_def by (elim exE) (intro exI, auto)

lemma serve_inv_loop:
  assumes "serve_inv ag s" "serve_loop_step inp s = Some s'"
  shows "serve_inv ag s'"
proof (cases "\<exists>req. inp = InRequest req \<and> \<not> rs_stopping s")
  case True
  then obtain req where "serve_request req s = Some s'" "rs_ended s = None"
    using assms(2) by (auto simp: serve_loop_step_def split: if_splits)
  then show ?thesis using assms(1) serve_inv_request serve_request_handles by blast
next
  case False
  then have "\<exists>r. s' = end_serve r s"
    using assms(2) by (auto simp: serve_loop_step_def split: if_splits serve_input.splits sum.splits)
  then show ?thesis using assms(1) by (auto simp: end_serve_def elim!: serve_inv_cong)
qed

lemma serve_inv_agent:
  assumes "serve_inv ag s" "agent_grows (rs_agent s) ag'"
  shows "serve_inv ag (s\<lparr>rs_agent := ag'\<rparr>)"
proof -
  obtain es cs where grow: "st_events (ag_run ag') = st_events (ag_run (rs_agent s)) @ es"
      "st_sent (ag_run ag') = st_sent (ag_run (rs_agent s)) @ cs"
    using assms(2) by (auto simp: agent_grows_def prefix_def)
  obtain rest n where "serve_inv_at ag s rest n" using assms(1) unfolding serve_inv_def by blast
  then have "serve_inv_at ag (s\<lparr>rs_agent := ag'\<rparr>) rest n"
    using grow by (simp add: serve_inv_at_def list_emb_prefix)
  then show ?thesis unfolding serve_inv_def by blast
qed

lemma prefix_take: "m \<le> k \<Longrightarrow> prefix (take m xs) (take k xs)"
  by (metis min.absorb1 take_is_prefix take_take)

lemma subseq_drop_prefix: "subseq xs (drop n ys) \<Longrightarrow> prefix ys zs \<Longrightarrow> n \<le> length ys \<Longrightarrow> subseq xs (drop n zs)"
  by (auto simp: prefix_def)

lemma forward_event_silent:
  assumes "\<not> (rs_seen s < length (st_events (ag_run (rs_agent s)))
      \<and> length (st_events (ag_run (rs_agent s))) - rs_seen s \<le> capacity \<and> rs_writer_ok s)"
    and "rs_seen s \<le> length (st_events (ag_run (rs_agent s)))"
  shows "\<exists>k. forward_event capacity s = s\<lparr>rs_seen := k\<rparr> \<and> rs_seen s \<le> k
     \<and> k \<le> length (st_events (ag_run (rs_agent s)))"
proof -
  let ?len = "length (st_events (ag_run (rs_agent s)))"
  consider "?len = rs_seen s" | "capacity < ?len - rs_seen s" | "rs_seen s < ?len" "\<not> capacity < ?len - rs_seen s"
    using assms(2) by linarith
  then show ?thesis
  proof cases
    case 1 then show ?thesis by (intro exI [of _ "rs_seen s"]) (simp add: forward_event_def)
  next
    case 2
    then show ?thesis by (intro exI [of _ "?len - capacity"]) (auto simp: forward_event_def Let_def)
  next
    case 3
    then show ?thesis
      using assms by (intro exI [of _ "Suc (rs_seen s)"]) (simp add: forward_event_def remote_send_msg_def Let_def)
  qed
qed

lemma serve_inv_forward:
  assumes "serve_inv ag s"
  shows "serve_inv ag (forward_event capacity s)"
proof -
  let ?events = "st_events (ag_run (rs_agent s))" and ?n0 = "length (st_events (ag_run ag))"
  obtain rest n where inv: "serve_inv_at ag s rest n" using assms unfolding serve_inv_def by blast
  then have seen: "?n0 \<le> rs_seen s" "rs_seen s \<le> length ?events"
      "subseq (forwarded rest) (drop ?n0 (take (rs_seen s) ?events))"
    by (auto simp: serve_inv_at_def)
  show ?thesis
  proof (cases "rs_seen s < length ?events \<and> length ?events - rs_seen s \<le> capacity \<and> rs_writer_ok s")
    case True
    let ?e = "?events ! rs_seen s"
    have step: "forward_event capacity s = s\<lparr>rs_seen := Suc (rs_seen s), rs_out := rs_out s @ [RmEvent ?e]\<rparr>"
      using True by (simp add: forward_event_def remote_send_msg_def Let_def)
    have "drop ?n0 (take (Suc (rs_seen s)) ?events) = drop ?n0 (take (rs_seen s) ?events) @ [?e]"
      using True seen by (simp add: take_Suc_conv_app_nth)
    then have "subseq (forwarded rest @ [?e]) (drop ?n0 (take (Suc (rs_seen s)) ?events))"
      using seen by (simp add: list_emb_append_mono)
    moreover have "replies (rest @ [RmEvent ?e]) = replies rest" "forwarded (rest @ [RmEvent ?e]) = forwarded rest @ [?e]"
      by (simp_all add: replies_def forwarded_def List.map_filter_def)
    ultimately have "serve_inv_at ag (forward_event capacity s) (rest @ [RmEvent ?e]) n"
      unfolding step using inv True by (auto simp: serve_inv_at_def)
    then show ?thesis unfolding serve_inv_def by blast
  next
    case False
    then obtain k where k: "forward_event capacity s = s\<lparr>rs_seen := k\<rparr>" "rs_seen s \<le> k" "k \<le> length ?events"
      using forward_event_silent [of s capacity] seen(2) by blast
    have "subseq (forwarded rest) (drop ?n0 (take k ?events))"
      using seen k by (intro subseq_drop_prefix [OF seen(3) prefix_take]) simp_all
    then have "serve_inv_at ag (forward_event capacity s) rest n"
      using inv k by (simp add: serve_inv_at_def)
    then show ?thesis unfolding serve_inv_def by blast
  qed
qed

lemma serve_inv_serves: "serves capacity ag s \<Longrightarrow> serve_inv ag s"
proof (induction rule: serves.induct)
  case start
  have "serve_inv_at ag (serve_start ag) [] 0"
    by (simp add: serve_inv_at_def serve_start_def replies_def forwarded_def List.map_filter_def)
  then show ?case unfolding serve_inv_def by blast
next
  case (write_failed s) from write_failed.IH show ?case by (rule serve_inv_cong) simp_all
qed (simp_all add: serve_inv_loop serve_inv_forward serve_inv_agent)

text \<open>
  C21: On every connection, however requests, events and failures interleave, the first message
  is the initial snapshot with id 0; after it each request dispatched has exactly one reply, in
  the order of the requests, of the kind and with the id of its request (a writer that failed
  costs at most the reply to the last request, and then serving ends).  The commands
  answered with success were all given to the agent, in that order, and the events
  forwarded are events of the agent since the subscription, in their order.
\<close>

theorem remote_serve:
  assumes "serves capacity ag s"
  shows "\<exists>rest n.
     rs_out s = RmSnapshot 0 (st_snapshot (ag_run ag)) # rest
     \<and> list_all2 reply_to (take n (rs_handled s)) (replies rest)
     \<and> (n = length (rs_handled s) \<or> Suc n = length (rs_handled s) \<and> \<not> rs_writer_ok s \<and> rs_ended s \<noteq> None)
     \<and> subseq (accepted (take n (rs_handled s)) (replies rest))
         (drop (length (st_sent (ag_run ag))) (st_sent (ag_run (rs_agent s))))
     \<and> subseq (forwarded rest) (drop (length (st_events (ag_run ag))) (st_events (ag_run (rs_agent s))))"
proof -
  obtain rest n where inv: "serve_inv_at ag s rest n"
    using serve_inv_serves [OF assms] unfolding serve_inv_def by blast
  let ?events = "st_events (ag_run (rs_agent s))"
  have "subseq (forwarded rest) (drop (length (st_events (ag_run ag))) ?events)"
    using inv by (intro subseq_drop_prefix [OF _ take_is_prefix [of "rs_seen s" ?events]]) (auto simp: serve_inv_at_def)
  then show ?thesis using inv unfolding serve_inv_at_def by (intro exI [of _ rest] exI [of _ n]) auto
qed

definition remote_demo_agent :: "unit Agent" where
  "remote_demo_agent =
     spawn_with_transcript \<lparr>ac_system_prompt = [], ac_model = None, ac_thinking_level = ThOff\<rparr> () []"

lemma remote_serve_witness:
  "\<exists>s. serves 100 remote_demo_agent s \<and> rs_handled s = [RqContinue 7, RqGetSnapshot 8]
     \<and> map event_of (rs_out s) = [None, None, None] \<and> (\<exists>m1 m2 m3. rs_out s = [m1, m2, m3]
       \<and> reply_to (RqContinue 7) m2 \<and> reply_to (RqGetSnapshot 8) m3)"
proof -
  let ?s = "the (Option.bind (serve_loop_step (InRequest (RqContinue 7)) (serve_start remote_demo_agent))
     (serve_loop_step (InRequest (RqGetSnapshot 8))))"
  let ?s1 = "the (serve_loop_step (InRequest (RqContinue 7)) (serve_start remote_demo_agent))"
  have steps: "serve_loop_step (InRequest (RqContinue 7)) (serve_start remote_demo_agent) = Some ?s1"
     "serve_loop_step (InRequest (RqGetSnapshot 8)) ?s1 = Some ?s"
    and log: "rs_handled ?s = [RqContinue 7, RqGetSnapshot 8]" "rs_writer_ok ?s"
      "map event_of (rs_out ?s) = [None, None, None]"
    by (simp_all add: serve_loop_step_def serve_request_def serve_start_def dispatch_command_def reply_then_def
        remote_send_msg_def after_dispatch_def handle_send_def remote_demo_agent_def spawn_with_transcript_def
        channel_capacity_def)
  have reach: "serves 100 remote_demo_agent ?s"
    using serves.main [OF serves.main [OF serves.start steps(1)] steps(2)] .
  obtain rest n where rest: "rs_out ?s = RmSnapshot 0 (st_snapshot (ag_run remote_demo_agent)) # rest"
      "list_all2 reply_to (take n (rs_handled ?s)) (replies rest)"
      "n = length (rs_handled ?s) \<or> Suc n = length (rs_handled ?s) \<and> \<not> rs_writer_ok ?s \<and> rs_ended ?s \<noteq> None"
    using remote_serve [OF reach] by blast
  then obtain m2 m3 where two: "rest = [m2, m3]" "event_of m2 = None" "event_of m3 = None"
    using log(3) by (auto simp: map_eq_Cons_conv)
  then have "replies rest = [m2, m3]" by (simp add: replies_def)
  then have "reply_to (RqContinue 7) m2" "reply_to (RqGetSnapshot 8) m3" using rest(2,3) log by auto
  then show ?thesis using reach log rest(1) two(1) by (intro exI [of _ ?s]) auto
qed

end
