(* ===== verification/File_Tools.thy ===== *)
theory File_Tools
  imports Message Utf8
begin

text \<open>
  What the file tools compute (\<open>tools/mod.rs\<close>, \<open>read.rs\<close>, \<open>write.rs\<close>, \<open>edit.rs\<close>) and the
  results of the shell and echo tools (\<open>bash.rs\<close>, \<open>echo.rs\<close>).  The file system itself and the
  locks are in Mutation_Queue.  A path is the string of its bytes; paths are those of a POSIX
  system.  Reading arguments from JSON is derived code of \<open>serde\<close>: the arguments are given.
\<close>

section \<open>Paths (mod.rs)\<close>

definition slash :: char where
  "slash = CHR ''/''"

definition is_absolute :: "string \<Rightarrow> bool" where
  "is_absolute p = (p \<noteq> [] \<and> hd p = slash)"

fun split_slash :: "string \<Rightarrow> string list" where
  "split_slash [] = [[]]"
| "split_slash (c # s) =
     (if c = slash then [] # split_slash s
      else case split_slash s of x # xs \<Rightarrow> (c # x) # xs | [] \<Rightarrow> [[c]])"

text \<open>\<open>Path::components\<close> after the root; \<open>..\<close> is kept.\<close>

definition components :: "string \<Rightarrow> string list" where
  "components p = filter (\<lambda>x. x \<noteq> [] \<and> x \<noteq> ''.'') (split_slash p)"

text \<open>\<open>PathBuf::push\<close> of a relative path, which is \<open>Path::join\<close>.\<close>

definition path_push :: "string \<Rightarrow> string \<Rightarrow> string" where
  "path_push dir p = (if dir \<noteq> [] \<and> last dir \<noteq> slash then dir @ [slash] @ p else dir @ p)"

text \<open>Two leading slashes are kept, one or more than two are one.\<close>

definition path_root :: "string \<Rightarrow> string" where
  "path_root p =
     (if prefix [slash, slash] p \<and> \<not> prefix [slash, slash, slash] p then [slash, slash] else [slash])"

text \<open>\<open>std::path::absolute\<close>; \<open>cwd\<close> is what \<open>current_dir\<close> returns, \<open>None\<close> an error.\<close>

definition path_absolute :: "string option \<Rightarrow> string \<Rightarrow> string option" where
  "path_absolute cwd p =
     (let trail = (\<lambda>r. if last p = slash then path_push r [] else r) in
      if p = [] then None
      else if is_absolute p then Some (trail (foldl path_push (path_root p) (components p)))
      else map_option (\<lambda>dir. trail (foldl path_push dir (components p))) cwd)"

definition resolve_tool_path :: "string option \<Rightarrow> string option \<Rightarrow> string \<Rightarrow> string" where
  "resolve_tool_path cwd work_dir raw =
     (let joined =
        (if is_absolute raw then raw
         else case work_dir of Some dir \<Rightarrow> path_push dir raw | None \<Rightarrow> raw) in
      case path_absolute cwd joined of Some p \<Rightarrow> p | None \<Rightarrow> joined)"

text \<open>The key of a path in the lock table (\<open>normalize\<close> of file\_mutation\_queue.rs).\<close>

definition normalize :: "string option \<Rightarrow> string \<Rightarrow> string" where
  "normalize cwd p = (case path_absolute cwd p of Some q \<Rightarrow> q | None \<Rightarrow> p)"

section \<open>Reading (read.rs)\<close>

record ReadArgs =
  ra_path :: string
  ra_offset :: "u64 option"
  ra_limit :: "u64 option"

definition saturating_add_usize :: "usize \<Rightarrow> usize \<Rightarrow> usize" where
  "saturating_add_usize a b = (if unat a + unat b < 2 ^ 64 then a + b else - 1)"

lemma saturating_add_usize_unat: "unat (saturating_add_usize a b) = min (unat a + unat b) (2 ^ 64 - 1)"
  by (auto simp: saturating_add_usize_def unat_word_ariths take_bit_nat_eq_self min_def
      unsigned_minus_1_eq_mask mask_eq_exp_minus_1)

text \<open>The bounds of the slice; \<open>bytes[start..end]\<close> panics when \<open>end\<close> is below \<open>start\<close>.\<close>

definition slice_bounds :: "u64 option \<Rightarrow> u64 option \<Rightarrow> nat \<Rightarrow> nat \<times> nat" where
  "slice_bounds off lim len =
     (let offset = (case off of Some n \<Rightarrow> n | None \<Rightarrow> 0) in
      (min (unat offset) len,
       case lim of
         Some limit \<Rightarrow> min (unat (saturating_add_usize offset limit)) len
       | None \<Rightarrow> len))"

definition jnat :: "nat \<Rightarrow> json" where
  "jnat n = JNumber (PosInt (of_nat n))"

definition tool_error_text :: "string \<Rightarrow> string \<Rightarrow> string \<Rightarrow> string" where
  "tool_error_text tool path what = tool @ '' '' @ from_utf8_lossy path @ '': '' @ what"

text \<open>What the tool makes of the content of the file.\<close>

definition read_content :: "string \<Rightarrow> ReadArgs \<Rightarrow> string \<Rightarrow> (string, ToolResult) outcome" where
  "read_content path args bytes =
     (if \<not> utf8_valid bytes then Err (tool_error_text ''read'' path ''invalid UTF-8'')
      else case slice_bounds (ra_offset args) (ra_limit args) (length bytes) of
             (start, stop) \<Rightarrow>
               if stop < start then Panic
               else Ok \<lparr>tr_content = [ResultText (from_utf8_lossy (take (stop - start) (drop start bytes)))],
                        tr_is_error = False,
                        tr_details = Some (JObject ([(''path'', JString (from_utf8_lossy path)), (''bytes'', jnat (stop - start))]
                          @ (case ra_offset args of Some n \<Rightarrow> [(''offset'', JNumber (PosInt n))] | None \<Rightarrow> [])
                          @ (case ra_limit args of Some n \<Rightarrow> [(''limit'', JNumber (PosInt n))] | None \<Rightarrow> [])))\<rparr>)"

text \<open>What looking the file up and reading it gives.\<close>

datatype read_source = FileFailed string | FileNotRegular | FileBytes string

definition read_execute ::
    "bool \<Rightarrow> string option \<Rightarrow> string option \<Rightarrow> ReadArgs \<Rightarrow> read_source \<Rightarrow> (string, ToolResult) outcome" where
  "read_execute cancelled cwd work_dir args src =
     (if cancelled then Err ''cancelled: read aborted before IO''
      else
        (let path = resolve_tool_path cwd work_dir (ra_path args) in
         case src of
           FileFailed e \<Rightarrow> Err (tool_error_text ''read'' path e)
         | FileNotRegular \<Rightarrow> Err (tool_error_text ''read'' path ''not a regular file'')
         | FileBytes bytes \<Rightarrow> read_content path args bytes))"

section \<open>Editing (edit.rs)\<close>

record EditArgs =
  ea_path :: string
  ea_old_string :: string
  ea_new_string :: string

text \<open>\<open>str::matches(..).count()\<close>: matches that do not overlap, from the left; the empty
  pattern matches at every boundary of a character.\<close>

function count_matches :: "string \<Rightarrow> string \<Rightarrow> nat" where
  "count_matches pat s =
     (if s = [] \<or> pat = [] then 0
      else if prefix pat s then Suc (count_matches pat (drop (length pat) s))
      else count_matches pat (tl s))"
  by pat_completeness auto
termination
  by (relation "measure (length \<circ> snd)") auto

declare count_matches.simps [simp del]

definition char_count :: "string \<Rightarrow> nat" where
  "char_count s = length (filter (\<lambda>c. \<not> cont_byte c) s)"

definition matches_count :: "string \<Rightarrow> string \<Rightarrow> nat" where
  "matches_count pat s = (if pat = [] then Suc (char_count s) else count_matches pat s)"

text \<open>\<open>str::replacen(.., 1)\<close>.\<close>

fun replace_first :: "string \<Rightarrow> string \<Rightarrow> string \<Rightarrow> string" where
  "replace_first pat new s =
     (if prefix pat s then new @ drop (length pat) s
      else case s of [] \<Rightarrow> [] | c # s \<Rightarrow> c # replace_first pat new s)"

declare replace_first.simps [simp del]

text \<open>\<open>utf8_error\<close> is the text of the decoding error.\<close>

definition edit_content :: "(string \<Rightarrow> string) \<Rightarrow> string \<Rightarrow> EditArgs \<Rightarrow> string \<Rightarrow> string + string" where
  "edit_content utf8_error path args content =
     (if \<not> utf8_valid content
      then Inl (tool_error_text ''edit'' path (''invalid UTF-8: '' @ utf8_error content))
      else
        (let matches = matches_count (ea_old_string args) content in
         if matches = 0 then Inl (tool_error_text ''edit'' path ''old_string not found'')
         else if 1 < matches
         then Inl (tool_error_text ''edit'' path (''old_string not unique ('' @ show_nat matches @ '' matches)''))
         else Inr (replace_first (ea_old_string args) (ea_new_string args) content)))"

definition edit_done :: "string \<Rightarrow> ToolResult" where
  "edit_done path =
     \<lparr>tr_content = [ResultText (''edited '' @ from_utf8_lossy path @ '': replaced 1 occurrence'')], tr_is_error = False,
      tr_details = Some (JObject [(''path'', JString (from_utf8_lossy path)), (''replaced'', jnat 1)])\<rparr>"

section \<open>Writing (write.rs)\<close>

record WriteArgs =
  wa_path :: string
  wa_content :: string

definition write_done :: "string \<Rightarrow> string \<Rightarrow> ToolResult" where
  "write_done path content =
     \<lparr>tr_content = [ResultText (''wrote '' @ show_nat (length content) @ '' bytes to '' @ from_utf8_lossy path)],
      tr_is_error = False,
      tr_details = Some (JObject [(''path'', JString (from_utf8_lossy path)), (''bytes'', jnat (length content))])\<rparr>"

section \<open>Shell and echo (bash.rs, echo.rs)\<close>

record BashArgs =
  ba_command :: string
  ba_cwd :: "string option"
  ba_timeout_ms :: "u64 option"

text \<open>The working directory \<open>build_command\<close> sets; \<open>None\<close>: that of the process.\<close>

definition command_dir :: "string option \<Rightarrow> BashArgs \<Rightarrow> string option" where
  "command_dir default_cwd args =
     (case ba_cwd args of
        Some cwd \<Rightarrow> if cwd \<noteq> [] then Some cwd else default_cwd
      | None \<Rightarrow> default_cwd)"

text \<open>\<open>status.code()\<close>: \<open>None\<close> when a signal ended the process.\<close>

definition jint :: "int \<Rightarrow> json" where
  "jint i = JNumber (if i < 0 then NegInt i else PosInt (of_int i))"

definition assemble_result :: "int option \<Rightarrow> string \<Rightarrow> string \<Rightarrow> ToolResult" where
  "assemble_result status stdout stderr =
     (let code = (case status of Some c \<Rightarrow> c | None \<Rightarrow> - 1) in
      if code = 0 then (tool_result_text stdout)\<lparr>tr_details := Some (JObject [(''exit_code'', jint 0)])\<rparr>
      else
        \<lparr>tr_content = [ResultText
           (if stdout = [] \<and> stderr = [] then []
            else if stderr = [] then stdout
            else if stdout = [] then stderr
            else stdout @ [CHR 0x0A] @ stderr)],
         tr_is_error = True,
         tr_details = Some (JObject [(''exit_code'', jint code), (''stdout'', JString stdout), (''stderr'', JString stderr)])\<rparr>)"

text \<open>How the wait for the process ends, and what reading its output gives.\<close>

datatype bash_wait = WaitExit "int option" | WaitError string | WaitCancelled | WaitTimeout

datatype bash_drain = DrainBytes string | DrainJoinError string | DrainReadError string

fun join_drain :: "bash_drain \<Rightarrow> string \<Rightarrow> string + string" where
  "join_drain (DrainBytes bytes) label = Inr (from_utf8_lossy bytes)"
| "join_drain (DrainJoinError e) label = Inl (''bash: join '' @ label @ '' drain task: '' @ e)"
| "join_drain (DrainReadError e) label = Inl (''bash: read '' @ label @ '': '' @ e)"

record bash_env =
  ba_cancelled :: bool
  ba_spawn_error :: "string option"
  ba_wait :: bash_wait
  ba_stdout :: bash_drain
  ba_stderr :: bash_drain

text \<open>The effect on the process: is it killed and reaped?  \<open>None\<close>: it was never started.\<close>

definition bash_execute :: "bash_env \<Rightarrow> BashArgs \<Rightarrow> (string + ToolResult) \<times> bool option" where
  "bash_execute env args =
     (if ba_cancelled env then (Inl ''cancelled: bash aborted before spawn'', None)
      else case ba_spawn_error env of
             Some e \<Rightarrow> (Inl (''bash spawn: '' @ e), None)
           | None \<Rightarrow>
               (case ba_wait env of
                  WaitCancelled \<Rightarrow> (Inl ''cancelled: bash killed'', Some True)
                | WaitTimeout \<Rightarrow>
                    (Inl (''timeout: bash killed after ''
                       @ (case ba_timeout_ms args of Some ms \<Rightarrow> show_nat (unat ms) | None \<Rightarrow> []) @ ''ms''), Some True)
                | WaitError e \<Rightarrow> (Inl (''bash wait: '' @ e), Some False)
                | WaitExit status \<Rightarrow>
                    (case join_drain (ba_stdout env) ''stdout'' of
                       Inl e \<Rightarrow> (Inl e, Some False)
                     | Inr out \<Rightarrow>
                         (case join_drain (ba_stderr env) ''stderr'' of
                            Inl e \<Rightarrow> (Inl e, Some False)
                          | Inr err \<Rightarrow> (Inr (assemble_result status out err), Some False)))))"

definition echo_execute :: "string \<Rightarrow> ToolResult" where
  "echo_execute message = tool_result_text message"

section \<open>Occurrences\<close>

definition occurs_at :: "string \<Rightarrow> string \<Rightarrow> nat \<Rightarrow> bool" where
  "occurs_at pat s i = (i \<le> length s \<and> prefix pat (drop i s))"

lemma occurs_at_0: "occurs_at pat s 0 \<longleftrightarrow> prefix pat s"
  by (simp add: occurs_at_def)

lemma occurs_at_Suc: "occurs_at pat (c # s) (Suc i) \<longleftrightarrow> occurs_at pat s i"
  by (simp add: occurs_at_def)

lemma occurs_at_drop: "n \<le> length s \<Longrightarrow> occurs_at pat (drop n s) i \<longleftrightarrow> occurs_at pat s (n + i)"
  by (auto simp: occurs_at_def add.commute)

lemma count_matches_0:
  "pat \<noteq> [] \<Longrightarrow> count_matches pat s = 0 \<longleftrightarrow> (\<forall>i. \<not> occurs_at pat s i)"
proof (induction s)
  case Nil then show ?case by (auto simp: count_matches.simps occurs_at_def)
next
  case (Cons c s)
  show ?case
  proof (cases "prefix pat (c # s)")
    case True
    then show ?thesis using Cons.prems occurs_at_0 by (auto simp: count_matches.simps [of _ "c # s"])
  next
    case False
    then have "(\<forall>i. \<not> occurs_at pat (c # s) i) \<longleftrightarrow> (\<forall>i. \<not> occurs_at pat s i)"
      using occurs_at_0 occurs_at_Suc by (metis not0_implies_Suc)
    then show ?thesis using False Cons by (simp add: count_matches.simps [of _ "c # s"])
  qed
qed

text \<open>At the first occurrence a match is counted and replaced.\<close>

lemma first_match:
  assumes "pat \<noteq> []" "occurs_at pat s i" "\<And>j. occurs_at pat s j \<Longrightarrow> i \<le> j"
  shows "count_matches pat s = Suc (count_matches pat (drop (i + length pat) s))
    \<and> replace_first pat new s = take i s @ new @ drop (i + length pat) s"
  using assms
proof (induction i arbitrary: s)
  case 0
  then have "prefix pat s" "s \<noteq> []" by (auto simp: occurs_at_0)
  then show ?case using "0.prems"(1) by (simp add: count_matches.simps [of _ s] replace_first.simps [of _ _ s])
next
  case (Suc i)
  obtain c s' where s: "s = c # s'" using Suc.prems(2) by (cases s) (auto simp: occurs_at_def)
  have "\<not> prefix pat s" using Suc.prems(3) [of 0] by (auto simp: occurs_at_0)
  moreover have "occurs_at pat s' i" using Suc.prems(2) by (simp add: s occurs_at_Suc)
  moreover have "i \<le> j" if "occurs_at pat s' j" for j
    using Suc.prems(3) [of "Suc j"] that by (simp add: s occurs_at_Suc)
  ultimately show ?case
    using Suc.IH [OF Suc.prems(1), of s'] Suc.prems(1)
    by (simp add: s count_matches.simps [of _ "c # s'"] replace_first.simps [of _ _ "c # s'"])
qed

lemma one_match:
  assumes "pat \<noteq> []"
  shows "count_matches pat s = 1 \<longleftrightarrow>
    (\<exists>i. occurs_at pat s i \<and> (\<forall>j. occurs_at pat s j \<longrightarrow> i \<le> j \<and> j < i + length pat))"
proof (cases "\<exists>i. occurs_at pat s i")
  case False
  then show ?thesis using count_matches_0 [OF assms, of s] by auto
next
  case True
  define i where "i = (LEAST i. occurs_at pat s i)"
  have i: "occurs_at pat s i" "\<And>j. occurs_at pat s j \<Longrightarrow> i \<le> j"
    unfolding i_def using True by (auto intro: LeastI_ex Least_le)
  have len: "i + length pat \<le> length s" using i(1) by (auto simp: occurs_at_def dest: prefix_length_le)
  have "count_matches pat s = 1 \<longleftrightarrow> (\<forall>j. \<not> occurs_at pat s (i + length pat + j))"
    using first_match [OF assms i, of "[]"] count_matches_0 [OF assms] occurs_at_drop [OF len] by simp
  also have "\<dots> \<longleftrightarrow> (\<forall>j. occurs_at pat s j \<longrightarrow> j < i + length pat)"
    by (metis le_add_diff_inverse not_le le_add1)
  also have "\<dots> \<longleftrightarrow> (\<exists>i. occurs_at pat s i \<and> (\<forall>j. occurs_at pat s j \<longrightarrow> i \<le> j \<and> j < i + length pat))"
    using i by (metis le_antisym)
  finally show ?thesis .
qed

text \<open>
  An edit of a text file succeeds exactly when the search string occurs and all its
  occurrences overlap the first one, and then replaces that occurrence and nothing else.
\<close>

theorem edit_replaces:
  assumes "utf8_valid content" "ea_old_string args \<noteq> []"
  shows "edit_content ue path args content = Inr content' \<longleftrightarrow>
     (\<exists>i. occurs_at (ea_old_string args) content i
        \<and> (\<forall>j. occurs_at (ea_old_string args) content j \<longrightarrow> i \<le> j \<and> j < i + length (ea_old_string args))
        \<and> content' = take i content @ ea_new_string args @ drop (i + length (ea_old_string args)) content)"
    (is "?lhs \<longleftrightarrow> ?rhs")
proof -
  let ?old = "ea_old_string args" and ?new = "ea_new_string args"
  have "?lhs \<longleftrightarrow> count_matches ?old content = 1 \<and> content' = replace_first ?old ?new content"
    using assms by (auto simp: edit_content_def matches_count_def Let_def)
  also have "\<dots> \<longleftrightarrow> ?rhs"
  proof
    assume "count_matches ?old content = 1 \<and> content' = replace_first ?old ?new content"
    moreover from this obtain i where "occurs_at ?old content i"
        "\<forall>j. occurs_at ?old content j \<longrightarrow> i \<le> j \<and> j < i + length ?old"
      using one_match [OF assms(2)] by blast
    ultimately show ?rhs using first_match [OF assms(2), of content i ?new] by (intro exI [of _ i]) simp
  next
    assume ?rhs
    then obtain i where i: "occurs_at ?old content i"
        "\<forall>j. occurs_at ?old content j \<longrightarrow> i \<le> j \<and> j < i + length ?old"
        "content' = take i content @ ?new @ drop (i + length ?old) content"
      by blast
    then have "count_matches ?old content = 1" using one_match [OF assms(2)] by blast
    then show "count_matches ?old content = 1 \<and> content' = replace_first ?old ?new content"
      using first_match [OF assms(2) i(1), of ?new] i by simp
  qed
  finally show ?thesis .
qed

text \<open>
  The search string may occur more than once and still count as unique: in \<open>aaa\<close> the
  string \<open>aa\<close> occurs twice, and the edit replaces the first occurrence.
\<close>

theorem edit_overlap_unique:
  "edit_content ue path \<lparr>ea_path = path, ea_old_string = ''aa'', ea_new_string = ''b''\<rparr> ''aaa'' = Inr ''ba''
   \<and> occurs_at ''aa'' ''aaa'' 0 \<and> occurs_at ''aa'' ''aaa'' 1"
proof -
  have "utf8_valid ''aaa''" by (simp add: utf8_valid_ascii byte_def)
  then show ?thesis
    by (simp add: edit_content_def matches_count_def count_matches.simps replace_first.simps occurs_at_def)
qed

text \<open>
  C31: For every offset and limit, also those that overflow, reading returns the slice of the file
  from the offset, at most as long as the limit, and never panics.
\<close>

theorem read_slices:
  assumes "utf8_valid bytes" "length bytes < 2 ^ 64"
  shows "\<exists>details. read_content path args bytes =
     Ok \<lparr>tr_content = [ResultText (from_utf8_lossy
            (let rest = drop (case ra_offset args of Some n \<Rightarrow> unat n | None \<Rightarrow> 0) bytes
             in case ra_limit args of Some n \<Rightarrow> take (unat n) rest | None \<Rightarrow> rest))],
         tr_is_error = False, tr_details = Some details\<rparr>"
proof -
  let ?off = "case ra_offset args of Some n \<Rightarrow> n | None \<Rightarrow> 0"
  let ?rest = "drop (unat ?off) bytes"
  obtain start stop where b: "slice_bounds (ra_offset args) (ra_limit args) (length bytes) = (start, stop)" by force
  have start: "start = min (unat ?off) (length bytes)"
    using b by (auto simp: slice_bounds_def Let_def)
  have "start \<le> stop \<and> take (stop - start) (drop start bytes) =
      (case ra_limit args of Some n \<Rightarrow> take (unat n) ?rest | None \<Rightarrow> ?rest)"
  proof (cases "ra_limit args")
    case None
    then have "stop = length bytes" using b by (auto simp: slice_bounds_def Let_def)
    then show ?thesis using start None by (auto simp: min_def)
  next
    case (Some n)
    then have "stop = min (unat (saturating_add_usize ?off n)) (length bytes)"
      using b by (auto simp: slice_bounds_def Let_def)
    then have "stop = min (unat ?off + unat n) (length bytes)"
      using assms(2) by (simp add: saturating_add_usize_unat)
    then show ?thesis using start Some by (auto simp: min_def)
  qed
  moreover have "(case ra_offset args of Some n \<Rightarrow> unat n | None \<Rightarrow> 0) = unat ?off"
    by (simp split: option.splits)
  ultimately show ?thesis using assms(1) b by (simp add: read_content_def Let_def)
qed

section \<open>Normalised paths\<close>

definition clean :: "string \<Rightarrow> bool" where
  "clean x \<longleftrightarrow> x \<noteq> [] \<and> x \<noteq> ''.'' \<and> slash \<notin> set x"

lemma clean_ends: "clean x \<Longrightarrow> x \<noteq> [] \<and> hd x \<noteq> slash \<and> last x \<noteq> slash"
  using hd_in_set last_in_set by (fastforce simp: clean_def)

lemma split_slash_nonempty: "split_slash s \<noteq> []"
  by (induction s) (auto split: list.splits)

lemma split_slash_append: "split_slash (a @ slash # b) = split_slash a @ split_slash b"
  using split_slash_nonempty by (induction a) (auto split: list.splits)

lemma split_slash_single: "slash \<notin> set x \<Longrightarrow> split_slash x = [x]"
  by (induction x) (auto split: list.splits)

lemma split_slash_pieces: "x \<in> set (split_slash s) \<Longrightarrow> slash \<notin> set x"
  by (induction s arbitrary: x) (auto split: list.splits if_splits)

lemma components_clean: "x \<in> set (components p) \<Longrightarrow> clean x"
  using split_slash_pieces by (auto simp: components_def clean_def)

lemma components_simps: "clean x \<Longrightarrow> components x = [x]" "components [] = []"
  by (auto simp: components_def clean_def split_slash_single)

lemma components_append: "components (a @ slash # b) = components a @ components b"
  by (simp add: components_def split_slash_append)

lemma components_push: "d \<noteq> [] \<Longrightarrow> components (path_push d x) = components d @ components x"
  using components_append [of d x] components_append [of "butlast d" x] components_append [of "butlast d" "[]"]
  by (cases d rule: rev_cases) (auto simp: path_push_def components_simps)

lemma push_nonempty: "d \<noteq> [] \<Longrightarrow> path_push d x \<noteq> []"
  by (simp add: path_push_def)

lemma components_foldl:
  "d \<noteq> [] \<Longrightarrow> \<forall>x \<in> set cs. clean x \<Longrightarrow> components (foldl path_push d cs) = components d @ cs"
  by (induction cs arbitrary: d) (simp_all add: components_push push_nonempty components_simps)

lemma join_snoc: "xs \<noteq> [] \<Longrightarrow> join sep (xs @ [x]) = join sep xs @ sep @ x"
  by (induction xs rule: induct_list012) simp_all

lemma join_last: "xs \<noteq> [] \<Longrightarrow> last xs \<noteq> [] \<Longrightarrow> join sep xs \<noteq> [] \<and> last (join sep xs) = last (last xs)"
  by (induction xs rule: induct_list012) auto

lemma foldl_push_join:
  assumes "last r = slash" "r \<noteq> []"
  shows "\<forall>x \<in> set cs. clean x \<Longrightarrow> foldl path_push r cs = r @ join [slash] cs"
proof (induction cs rule: rev_induct)
  case (snoc x cs)
  show ?case
  proof (cases "cs = []")
    case True then show ?thesis using assms by (simp add: path_push_def)
  next
    case False
    have "clean (last cs)" using False snoc.prems by simp
    then have "last (join [slash] cs) \<noteq> slash" "join [slash] cs \<noteq> []"
      using join_last [OF False, of "[slash]"] clean_ends by auto
    then show ?thesis using snoc False by (simp add: path_push_def join_snoc)
  qed
qed simp

text \<open>A root, clean components, and perhaps a slash at the end.\<close>

definition plain_path :: "string \<Rightarrow> bool" where
  "plain_path p \<longleftrightarrow> is_absolute p \<and> p = foldl path_push (path_root p) (components p)"

lemma root_cases: "path_root p = [slash] \<or> path_root p = [slash, slash]"
  by (simp add: path_root_def)

lemma root_append:
  "r = [slash] \<or> r = [slash, slash] \<Longrightarrow> s = [] \<or> hd s \<noteq> slash \<Longrightarrow> path_root (r @ s) = r \<and> is_absolute (r @ s)"
  by (cases s) (auto simp: path_root_def is_absolute_def)

lemma join_hd: "\<forall>x \<in> set cs. clean x \<Longrightarrow> join [slash] cs = [] \<or> hd (join [slash] cs) \<noteq> slash"
  using clean_ends by (cases cs rule: remdups_adj.cases) auto

lemma root_join:
  assumes "r = [slash] \<or> r = [slash, slash]" "\<forall>x \<in> set cs. clean x"
  shows "path_root (foldl path_push r cs) = r" "is_absolute (foldl path_push r cs)"
    "components (foldl path_push r cs) = cs"
    "last (foldl path_push r cs) = slash \<longleftrightarrow> cs = []" "foldl path_push r cs \<noteq> []"
proof -
  have eq: "foldl path_push r cs = r @ join [slash] cs"
    by (rule foldl_push_join) (use assms in auto)
  show "path_root (foldl path_push r cs) = r" "is_absolute (foldl path_push r cs)"
    using root_append [OF assms(1) join_hd [OF assms(2)]] by (simp_all add: eq)
  have "components r = []" "r \<noteq> []" using assms(1) by (auto simp: components_def slash_def)
  then show "components (foldl path_push r cs) = cs" "foldl path_push r cs \<noteq> []"
    using components_foldl [of r cs] assms(2) eq by simp_all
  show "last (foldl path_push r cs) = slash \<longleftrightarrow> cs = []"
  proof (cases "cs = []")
    case False
    then have "clean (last cs)" using assms(2) by simp
    then show ?thesis using join_last [OF False, of "[slash]"] False clean_ends by (auto simp: eq)
  qed (use assms(1) in auto)
qed

lemma absolute_plain:
  assumes "r = [slash] \<or> r = [slash, slash]" "\<forall>x \<in> set cs. clean x"
  shows "path_absolute cwd (foldl path_push r cs) = Some (foldl path_push r cs)"
  using root_join [OF assms] by (auto simp: path_absolute_def path_push_def)

lemma absolute_trailing:
  assumes "r = [slash] \<or> r = [slash, slash]" "\<forall>x \<in> set cs. clean x"
  shows "path_absolute cwd (path_push (foldl path_push r cs) []) = Some (path_push (foldl path_push r cs) [])"
    (is "path_absolute cwd ?q = Some ?q")
proof (cases "cs = []")
  case True then show ?thesis using absolute_plain [OF assms] assms(1) by (auto simp: path_push_def)
next
  case False
  note p = root_join [OF assms]
  have "foldl path_push r cs = r @ join [slash] cs" by (rule foldl_push_join) (use assms in auto)
  then have q: "?q = r @ (join [slash] cs @ [slash])" using p(4,5) False by (simp add: path_push_def)
  have "join [slash] cs \<noteq> []" using join_last [OF False, of "[slash]"] assms(2) False clean_ends by auto
  then have "path_root ?q = r" "is_absolute ?q"
    using root_append [OF assms(1), of "join [slash] cs @ [slash]"] join_hd [OF assms(2)] unfolding q by auto
  moreover have "components ?q = cs" "last ?q = slash" "?q \<noteq> []"
    using components_push [OF p(5), of "[]"] p(3) by (simp_all add: components_simps q)
  ultimately show ?thesis by (simp add: path_absolute_def)
qed

lemma absolute_idempotent:
  assumes "path_absolute cwd p = Some q" "\<And>d. cwd = Some d \<Longrightarrow> plain_path d"
  shows "path_absolute cwd' q = Some q"
proof -
  obtain r cs where "r = [slash] \<or> r = [slash, slash]" "\<forall>x \<in> set cs. clean x"
      "q = foldl path_push r cs \<or> q = path_push (foldl path_push r cs) []"
  proof (cases "is_absolute p")
    case True
    then show thesis
      using assms(1) that [of "path_root p" "components p"] root_cases components_clean
      by (auto simp: path_absolute_def Let_def split: if_splits)
  next
    case False
    then obtain d where d: "cwd = Some d" "plain_path d"
      using assms by (auto simp: path_absolute_def Let_def split: if_splits)
    then have "foldl path_push d (components p) = foldl path_push (path_root d) (components d @ components p)"
      by (simp add: plain_path_def)
    then show thesis
      using assms(1) False d(1) that [of "path_root d" "components d @ components p"] root_cases components_clean
      by (auto simp: path_absolute_def Let_def split: if_splits)
  qed
  then show ?thesis using absolute_plain absolute_trailing by blast
qed

text \<open>
  C32: The path a tool works on is its own key in the lock table: resolving it once more changes
  nothing, whatever working directory is configured.  So the file that is written is the one
  whose lock is held.
\<close>

theorem tool_path_is_key:
  assumes "\<And>d. cwd = Some d \<Longrightarrow> plain_path d"
  shows "normalize cwd (resolve_tool_path cwd work_dir raw) = resolve_tool_path cwd work_dir raw"
  using absolute_idempotent [OF _ assms, where cwd' = cwd]
  by (auto simp: normalize_def resolve_tool_path_def Let_def split: option.splits)

lemma tool_path_is_key_witness:
  "normalize (Some ''/home/u'') (resolve_tool_path (Some ''/home/u'') (Some ''work//'') ''./a/./b'') =
     resolve_tool_path (Some ''/home/u'') (Some ''work//'') ''./a/./b''
   \<and> resolve_tool_path (Some ''/home/u'') (Some ''work//'') ''./a/./b'' = ''/home/u/work/a/b''"
proof -
  have "plain_path ''/home/u''"
    by (simp add: plain_path_def is_absolute_def path_root_def components_def path_push_def slash_def)
  then show ?thesis
    using tool_path_is_key [of "Some ''/home/u''" "Some ''work//''" "''./a/./b''"]
    by (simp add: resolve_tool_path_def path_absolute_def is_absolute_def components_def path_push_def slash_def)
qed

lemma edit_replaces_witness:
  "edit_content (\<lambda>_. []) ''/f'' \<lparr>ea_path = ''/f'', ea_old_string = ''b'', ea_new_string = ''xy''\<rparr> ''abc'' = Inr ''axyc''"
proof -
  have "utf8_valid ''abc''" by (simp add: utf8_valid_ascii byte_def)
  moreover have "occurs_at ''b'' ''abc'' j \<longleftrightarrow> j = 1" for j
    by (cases j; cases "j - 1"; cases "j - 2"; simp add: occurs_at_def)
  ultimately show ?thesis
    using edit_replaces [of "''abc''" "\<lparr>ea_path = ''/f'', ea_old_string = ''b'', ea_new_string = ''xy''\<rparr>"
        "\<lambda>_. []" "''/f''" "''axyc''"] by simp
qed

lemma read_slices_witness:
  "\<exists>details. read_content ''/f'' \<lparr>ra_path = ''/f'', ra_offset = Some 1, ra_limit = Some (- 1)\<rparr> ''abc'' =
     Ok \<lparr>tr_content = [ResultText ''bc''], tr_is_error = False, tr_details = Some details\<rparr>"
proof -
  have "utf8_valid ''abc''" "utf8_valid ''bc''" by (simp_all add: utf8_valid_ascii byte_def)
  then show ?thesis
    using read_slices [of "''abc''" "''/f''" "\<lparr>ra_path = ''/f'', ra_offset = Some 1, ra_limit = Some (- 1)\<rparr>"]
    by (simp add: lossy_id unsigned_minus_1_eq_mask mask_eq_exp_minus_1)
qed

end
