(* ===== verification/Mutation_Queue.thy ===== *)
theory Mutation_Queue
  imports File_Tools
begin

text \<open>
  The lock table of \<open>tools/file_mutation_queue.rs\<close> and the write and edit tools that run under
  it, as sections that any number of agents interleave.  An \<open>Arc\<close> of a mutex is an index;
  \<open>fq_owners\<close> lists the tasks that hold a clone of it, so its strong count is one more while it
  is in the table.  Files are a map from paths to contents; what else the operating system
  decides (errors, cancellation, how much of a failed write arrives) is in \<open>io_env\<close>.  A write
  truncates the file and then fills it, in two sections.
\<close>

section \<open>The lock table\<close>

definition PRUNE_THRESHOLD :: nat where
  "PRUNE_THRESHOLD = 1024"

record FileMutationQueue =
  fq_locks :: "string \<rightharpoonup> nat"
  fq_holder :: "nat option list"
  fq_owners :: "nat list list"
  fq_file_lock_enabled :: bool

definition queue_new :: "bool \<Rightarrow> FileMutationQueue" where
  "queue_new file_lock =
     \<lparr>fq_locks = Map.empty, fq_holder = [], fq_owners = [], fq_file_lock_enabled = file_lock\<rparr>"

definition strong_count :: "FileMutationQueue \<Rightarrow> nat \<Rightarrow> nat" where
  "strong_count q m = Suc (length (fq_owners q ! m))"

definition prune_locked :: "FileMutationQueue \<Rightarrow> FileMutationQueue" where
  "prune_locked q =
     q\<lparr>fq_locks := (\<lambda>k. case fq_locks q k of
          Some m \<Rightarrow> if 1 < strong_count q m then Some m else None
        | None \<Rightarrow> None)\<rparr>"

definition queue_len :: "FileMutationQueue \<Rightarrow> nat" where
  "queue_len q = card (dom (fq_locks q))"

text \<open>The section of \<open>acquire\<close> under the table's lock: prune, take or create, clone.\<close>

definition acquire_entry :: "nat \<Rightarrow> string \<Rightarrow> FileMutationQueue \<Rightarrow> nat \<times> FileMutationQueue" where
  "acquire_entry c key q =
     (let q = (if PRUNE_THRESHOLD \<le> queue_len q then prune_locked q else q) in
      case fq_locks q key of
        Some m \<Rightarrow> (m, q\<lparr>fq_owners := (fq_owners q)[m := c # fq_owners q ! m]\<rparr>)
      | None \<Rightarrow>
          (length (fq_owners q),
           q\<lparr>fq_locks := (fq_locks q)(key \<mapsto> length (fq_owners q)), fq_holder := fq_holder q @ [None],
             fq_owners := fq_owners q @ [[c]]\<rparr>))"

definition lock_mutex :: "nat \<Rightarrow> nat \<Rightarrow> FileMutationQueue \<Rightarrow> FileMutationQueue option" where
  "lock_mutex c m q =
     (if fq_holder q ! m = None then Some (q\<lparr>fq_holder := (fq_holder q)[m := Some c]\<rparr>) else None)"

text \<open>Dropping a clone that was never granted, and dropping a guard.\<close>

definition drop_clone :: "nat \<Rightarrow> nat \<Rightarrow> FileMutationQueue \<Rightarrow> FileMutationQueue" where
  "drop_clone c m q = q\<lparr>fq_owners := (fq_owners q)[m := remove1 c (fq_owners q ! m)]\<rparr>"

definition drop_guard :: "nat \<Rightarrow> nat \<Rightarrow> FileMutationQueue \<Rightarrow> FileMutationQueue" where
  "drop_guard c m q = drop_clone c m (q\<lparr>fq_holder := (fq_holder q)[m := None]\<rparr>)"

section \<open>The tools that write\<close>

datatype file_job = WriteJob string string | EditJob string EditArgs

fun job_path :: "file_job \<Rightarrow> string" where
  "job_path (WriteJob p _) = p"
| "job_path (EditJob p _) = p"

fun job_tool :: "file_job \<Rightarrow> string" where
  "job_tool (WriteJob _ _) = ''write''"
| "job_tool (EditJob _ _) = ''edit''"

fun job_done :: "file_job \<Rightarrow> ToolResult" where
  "job_done (WriteJob p content) = write_done p content"
| "job_done (EditJob p _) = edit_done p"

text \<open>The content a job wants to write, given that of the file.\<close>

definition job_content :: "(string \<Rightarrow> string) \<Rightarrow> file_job \<Rightarrow> string option \<Rightarrow> string + string" where
  "job_content ue job old =
     (case job of
        WriteJob p content \<Rightarrow> Inr content
      | EditJob p args \<Rightarrow>
          (case old of
             None \<Rightarrow> Inl (tool_error_text ''edit'' p ''No such file or directory (os error 2)'')
           | Some content \<Rightarrow> edit_content ue p args content))"

datatype file_pc =
    FpIdle
  | FpEnter file_job
  | FpWait file_job nat
  | FpGranted file_job nat
  | FpLocked file_job nat
  | FpReady file_job nat string
  | FpWriting file_job nat string
  | FpReturn "string + ToolResult"

record io_env =
  ie_cancelled :: bool
  ie_lock_error :: "string option"
  ie_error :: "string option"
  ie_not_file :: bool
  ie_partial :: nat

record file_system =
  fy_queue :: FileMutationQueue
  fy_files :: "string \<rightharpoonup> string"
  fy_log :: "(file_job \<times> string option) list"

text \<open>Does \<open>write\<close> create a parent directory?\<close>

definition has_parent :: "string \<Rightarrow> bool" where
  "has_parent p = (components p \<noteq> [] \<and> (is_absolute p \<or> 1 < length (components p)))"

definition cancelled_text :: "file_job \<Rightarrow> string \<Rightarrow> string" where
  "cancelled_text job what = ''cancelled: '' @ job_tool job @ '' aborted '' @ what"

text \<open>A failure after the lock was granted: the guard is dropped.\<close>

definition fail_locked :: "nat \<Rightarrow> nat \<Rightarrow> string \<Rightarrow> file_system \<Rightarrow> file_pc \<times> file_system" where
  "fail_locked c m e sy = (FpReturn (Inl e), sy\<lparr>fy_queue := drop_guard c m (fy_queue sy)\<rparr>)"

definition enter_step :: "string option \<Rightarrow> io_env \<Rightarrow> nat \<Rightarrow> file_job \<Rightarrow> file_system \<Rightarrow> file_pc \<times> file_system" where
  "enter_step cwd env c job sy =
     (if ie_cancelled env then (FpReturn (Inl (cancelled_text job ''before IO'')), sy)
      else case acquire_entry c (normalize cwd (job_path job)) (fy_queue sy) of
             (m, q) \<Rightarrow> (FpWait job m, sy\<lparr>fy_queue := q\<rparr>))"

definition wait_step :: "io_env \<Rightarrow> nat \<Rightarrow> file_job \<Rightarrow> nat \<Rightarrow> file_system \<Rightarrow> (file_pc \<times> file_system) option" where
  "wait_step env c job m sy =
     (if ie_cancelled env
      then Some (FpReturn (Inl (cancelled_text job ''while waiting for file lock'')),
                 sy\<lparr>fy_queue := drop_clone c m (fy_queue sy)\<rparr>)
      else map_option (\<lambda>q. (FpGranted job m, sy\<lparr>fy_queue := q\<rparr>)) (lock_mutex c m (fy_queue sy)))"

text \<open>The lock between processes, when it is enabled; waiting for it can be cancelled.\<close>

definition granted_step :: "io_env \<Rightarrow> nat \<Rightarrow> file_job \<Rightarrow> nat \<Rightarrow> file_system \<Rightarrow> file_pc \<times> file_system" where
  "granted_step env c job m sy =
     (if \<not> fq_file_lock_enabled (fy_queue sy) then (FpLocked job m, sy)
      else if ie_cancelled env then fail_locked c m (cancelled_text job ''while waiting for file lock'') sy
      else case ie_lock_error env of
             Some e \<Rightarrow> fail_locked c m (''acquire file lock failed: cross-process file lock failed: '' @ e) sy
           | None \<Rightarrow> (FpLocked job m, sy))"

text \<open>After the second check for cancellation: the parent directory, or the content to edit.\<close>

definition locked_step :: "(string \<Rightarrow> string) \<Rightarrow> io_env \<Rightarrow> nat \<Rightarrow> file_job \<Rightarrow> nat \<Rightarrow> file_system \<Rightarrow> file_pc \<times> file_system" where
  "locked_step ue env c job m sy =
     (if ie_cancelled env then fail_locked c m (cancelled_text job ''after acquiring file lock'') sy
      else case job of
             WriteJob p content \<Rightarrow>
               (case (has_parent p, ie_error env) of
                  (True, Some e) \<Rightarrow> fail_locked c m (tool_error_text ''write'' p (''create parent dir: '' @ e)) sy
                | _ \<Rightarrow> (FpReady job m content, sy))
           | EditJob p args \<Rightarrow>
               (case ie_error env of
                  Some e \<Rightarrow> fail_locked c m (tool_error_text ''edit'' p e) sy
                | None \<Rightarrow>
                    if ie_not_file env then fail_locked c m (tool_error_text ''edit'' p ''not a regular file'') sy
                    else case job_content ue job (fy_files sy p) of
                           Inl e \<Rightarrow> fail_locked c m e sy
                         | Inr content \<Rightarrow> (FpReady job m content, sy)))"

definition ready_step :: "io_env \<Rightarrow> nat \<Rightarrow> file_job \<Rightarrow> nat \<Rightarrow> string \<Rightarrow> file_system \<Rightarrow> file_pc \<times> file_system" where
  "ready_step env c job m content sy =
     (if ie_cancelled env \<and> job_tool job = ''edit'' then fail_locked c m (cancelled_text job ''before write'') sy
      else case ie_error env of
             Some e \<Rightarrow> fail_locked c m (tool_error_text (job_tool job) (job_path job) e) sy
           | None \<Rightarrow> (FpWriting job m content, sy\<lparr>fy_files := (fy_files sy)(job_path job \<mapsto> [])\<rparr>))"

definition writing_step :: "io_env \<Rightarrow> nat \<Rightarrow> file_job \<Rightarrow> nat \<Rightarrow> string \<Rightarrow> file_system \<Rightarrow> file_pc \<times> file_system" where
  "writing_step env c job m content sy =
     (let finish = (\<lambda>r written partial.
            (FpReturn r, sy\<lparr>fy_queue := drop_guard c m (fy_queue sy),
               fy_files := (fy_files sy)(job_path job \<mapsto> written), fy_log := fy_log sy @ [(job, partial)]\<rparr>)) in
      case ie_error env of
        Some e \<Rightarrow>
          (let written = take (ie_partial env) content in
           finish (Inl (tool_error_text (job_tool job) (job_path job) e)) written (Some written))
      | None \<Rightarrow> finish (Inr (job_done job)) content None)"

definition file_step ::
    "string option \<Rightarrow> (string \<Rightarrow> string) \<Rightarrow> io_env \<Rightarrow> nat \<Rightarrow> file_pc \<Rightarrow> file_system \<Rightarrow> (file_pc \<times> file_system) option" where
  "file_step cwd ue env c pc sy =
     (case pc of
        FpIdle \<Rightarrow> None
      | FpEnter job \<Rightarrow> Some (enter_step cwd env c job sy)
      | FpWait job m \<Rightarrow> wait_step env c job m sy
      | FpGranted job m \<Rightarrow> Some (granted_step env c job m sy)
      | FpLocked job m \<Rightarrow> Some (locked_step ue env c job m sy)
      | FpReady job m content \<Rightarrow> Some (ready_step env c job m content sy)
      | FpWriting job m content \<Rightarrow> Some (writing_step env c job m content sy)
      | FpReturn _ \<Rightarrow> None)"

fun fp_returned :: "file_pc \<Rightarrow> bool" where
  "fp_returned FpIdle = True" | "fp_returned (FpReturn _) = True" | "fp_returned _ = False"

text \<open>A call of either tool resolves its path first.\<close>

definition write_call :: "string option \<Rightarrow> string option \<Rightarrow> WriteArgs \<Rightarrow> file_job" where
  "write_call cwd work_dir args = WriteJob (resolve_tool_path cwd work_dir (wa_path args)) (wa_content args)"

definition edit_call :: "string option \<Rightarrow> string option \<Rightarrow> EditArgs \<Rightarrow> file_job" where
  "edit_call cwd work_dir args = EditJob (resolve_tool_path cwd work_dir (ea_path args)) args"

inductive file_reachable ::
    "string option \<Rightarrow> (string \<Rightarrow> string) \<Rightarrow> (string \<rightharpoonup> string) \<Rightarrow> (nat \<Rightarrow> file_pc) \<times> file_system \<Rightarrow> bool"
  for cwd ue files where
  start: "file_reachable cwd ue files
    (\<lambda>_. FpIdle, \<lparr>fy_queue = queue_new file_lock, fy_files = files, fy_log = []\<rparr>)"
| call: "file_reachable cwd ue files (pcs, sy) \<Longrightarrow> fp_returned (pcs c) \<Longrightarrow>
    job = write_call cwd work_dir wargs \<or> job = edit_call cwd work_dir eargs \<Longrightarrow>
    file_reachable cwd ue files (pcs(c := FpEnter job), sy)"
| step: "file_reachable cwd ue files (pcs, sy) \<Longrightarrow> file_step cwd ue env c (pcs c) sy = Some (pc', sy') \<Longrightarrow>
    file_reachable cwd ue files (pcs(c := pc'), sy')"
| prune: "file_reachable cwd ue files (pcs, sy) \<Longrightarrow>
    file_reachable cwd ue files (pcs, sy\<lparr>fy_queue := prune_locked (fy_queue sy)\<rparr>)"

section \<open>The lock table under any interleaving\<close>

text \<open>
  \<open>cl c\<close> is the path and the mutex task \<open>c\<close> has a clone of, \<open>g\<close> the tasks that were granted theirs.
\<close>

definition table_inv :: "(nat \<Rightarrow> (string \<times> nat) option) \<Rightarrow> nat set \<Rightarrow> FileMutationQueue \<Rightarrow> bool" where
  "table_inv cl g q \<longleftrightarrow>
     length (fq_holder q) = length (fq_owners q)
     \<and> (\<forall>k m. fq_locks q k = Some m \<longrightarrow> m < length (fq_owners q))
     \<and> (\<forall>k k' m. fq_locks q k = Some m \<longrightarrow> fq_locks q k' = Some m \<longrightarrow> k = k')
     \<and> (\<forall>m < length (fq_owners q). distinct (fq_owners q ! m))
     \<and> (\<forall>m < length (fq_owners q). \<forall>c. c \<in> set (fq_owners q ! m) \<longleftrightarrow> (\<exists>k. cl c = Some (k, m)))
     \<and> (\<forall>c k m. cl c = Some (k, m) \<longrightarrow> fq_locks q k = Some m)
     \<and> (\<forall>c k m. c \<in> g \<longrightarrow> cl c = Some (k, m) \<longrightarrow> fq_holder q ! m = Some c)"

lemma table_invD:
  assumes "table_inv cl g q"
  shows "length (fq_holder q) = length (fq_owners q)"
    "fq_locks q k = Some m \<Longrightarrow> m < length (fq_owners q)"
    "fq_locks q k = Some m \<Longrightarrow> fq_locks q k' = Some m \<Longrightarrow> k = k'"
    "m < length (fq_owners q) \<Longrightarrow> distinct (fq_owners q ! m)"
    "m < length (fq_owners q) \<Longrightarrow> c \<in> set (fq_owners q ! m) \<longleftrightarrow> (\<exists>k. cl c = Some (k, m))"
    "cl c = Some (k, m) \<Longrightarrow> fq_locks q k = Some m"
    "c \<in> g \<Longrightarrow> cl c = Some (k, m) \<Longrightarrow> fq_holder q ! m = Some c"
  using assms by (auto simp: table_inv_def)

lemma table_clone_lt: "table_inv cl g q \<Longrightarrow> cl c = Some (k, m) \<Longrightarrow> m < length (fq_owners q)"
  using table_invD(2,6) by blast

lemma table_inv_new: "table_inv (\<lambda>_. None) {} (queue_new file_lock)"
  by (simp add: table_inv_def queue_new_def)

lemma prune_keeps:
  assumes "table_inv cl g q" "cl c = Some (k, m)"
  shows "fq_locks (prune_locked q) k = Some m"
proof -
  have "fq_locks q k = Some m" using table_invD [OF assms(1)] assms(2) by blast
  moreover from this have "c \<in> set (fq_owners q ! m)" using table_invD [OF assms(1)] assms(2) by blast
  then have "1 < strong_count q m" by (cases "fq_owners q ! m") (auto simp: strong_count_def)
  ultimately show ?thesis by (simp add: prune_locked_def)
qed

lemma prune_locked_simps [simp]:
  "fq_holder (prune_locked q) = fq_holder q" "fq_owners (prune_locked q) = fq_owners q"
  "fq_file_lock_enabled (prune_locked q) = fq_file_lock_enabled q"
  by (simp_all add: prune_locked_def)

lemma prune_sub: "fq_locks (prune_locked q) k = Some m \<Longrightarrow> fq_locks q k = Some m"
  by (auto simp: prune_locked_def split: option.splits if_splits)

lemma table_inv_prune: "table_inv cl g q \<Longrightarrow> table_inv cl g (prune_locked q)" (is "_ \<Longrightarrow> ?thesis")
proof -
  assume "table_inv cl g q"
  note i = table_invD [OF this] and p = prune_sub [of q] prune_keeps [OF this]
  show ?thesis
    unfolding table_inv_def prune_locked_simps
  proof (intro conjI allI impI)
    show "m < length (fq_owners q)" if "fq_locks (prune_locked q) k = Some m" for k m
      using i(2) [OF p(1) [OF that]] .
    show "k = k'" if "fq_locks (prune_locked q) k = Some m" "fq_locks (prune_locked q) k' = Some m" for k k' m
      using i(3) [OF p(1) [OF that(1)] p(1) [OF that(2)]] .
  qed (use i(1,4,5,7) p(2) in blast)+
qed

text \<open>Taking an entry that is there, and creating one.\<close>

lemma table_inv_take:
  assumes "table_inv cl g q" "cl c = None" "c \<notin> g" "fq_locks q k = Some m"
  shows "table_inv (cl(c := Some (k, m))) g (q\<lparr>fq_owners := (fq_owners q)[m := c # fq_owners q ! m]\<rparr>)"
proof -
  note i = table_invD [OF assms(1)]
  have m: "m < length (fq_owners q)" using i(2) assms(4) by blast
  have "c \<notin> set (fq_owners q ! m)" using i(5) [OF m] assms(2) by simp
  moreover have "c \<notin> set (fq_owners q ! m')" if "m' < length (fq_owners q)" for m'
    using i(5) [OF that] assms(2) by simp
  ultimately show ?thesis
    unfolding table_inv_def using i m assms(2-4)
    by (auto simp: nth_list_update)
qed

lemma table_inv_create:
  assumes "table_inv cl g q" "cl c = None" "c \<notin> g" "fq_locks q k = None"
  shows "table_inv (cl(c := Some (k, length (fq_owners q)))) g
    (q\<lparr>fq_locks := (fq_locks q)(k \<mapsto> length (fq_owners q)), fq_holder := fq_holder q @ [None],
       fq_owners := fq_owners q @ [[c]]\<rparr>)"
proof -
  note i = table_invD [OF assms(1)]
  have lt: "m < length (fq_owners q)" "m \<noteq> length (fq_owners q)" if "cl c' = Some (k', m)" for c' k' m
    using table_clone_lt [OF assms(1) that] by auto
  have "c \<notin> set (fq_owners q ! m')" if "m' < length (fq_owners q)" for m'
    using i(5) [OF that] assms(2) by simp
  then show ?thesis
    unfolding table_inv_def using i lt assms(2-4)
    by (auto simp: nth_append less_Suc_eq dest: lt(2))
qed

lemma table_inv_acquire:
  assumes "table_inv cl g q" "cl c = None" "c \<notin> g" "acquire_entry c k q = (m, q')"
  shows "table_inv (cl(c := Some (k, m))) g q'"
proof -
  define q0 where "q0 = (if PRUNE_THRESHOLD \<le> queue_len q then prune_locked q else q)"
  have inv: "table_inv cl g q0" using assms(1) table_inv_prune by (simp add: q0_def)
  show ?thesis
  proof (cases "fq_locks q0 k")
    case None
    then show ?thesis
      using table_inv_create [of cl g q0 c k, OF inv assms(2,3) None] assms(4)
      by (simp add: acquire_entry_def q0_def [symmetric]) blast
  next
    case (Some m')
    then show ?thesis
      using table_inv_take [of cl g q0 c k m', OF inv assms(2,3) Some] assms(4)
      by (simp add: acquire_entry_def q0_def [symmetric]) blast
  qed
qed

lemma table_inv_lock:
  assumes "table_inv cl g q" "cl c = Some (k, m)" "lock_mutex c m q = Some q'"
  shows "table_inv cl (insert c g) q'"
proof -
  note i = table_invD [OF assms(1)]
  have "m < length (fq_holder q)" using i(1) table_clone_lt [OF assms(1,2)] by simp
  then show ?thesis
    using assms(2,3) i unfolding table_inv_def lock_mutex_def
    by (auto simp: nth_list_update split: if_splits)
qed

lemma table_inv_drop_clone:
  assumes "table_inv cl g q" "cl c = Some (k, m)" "c \<notin> g"
  shows "table_inv (cl(c := None)) g (drop_clone c m q)"
proof -
  note i = table_invD [OF assms(1)]
  have "m < length (fq_owners q)" using i(2,6) assms(2) by blast
  then show ?thesis
    using assms(2,3) i unfolding table_inv_def drop_clone_def
    by (auto simp: nth_list_update)
qed

lemma table_inv_exclusive:
  assumes "table_inv cl g q" "c \<in> g" "c' \<in> g" "cl c = Some (k, m)" "cl c' = Some (k, m')"
  shows "c = c'"
proof -
  note i = table_invD [OF assms(1)]
  have "m = m'" using i(6) [OF assms(4)] i(6) [OF assms(5)] by simp
  then show ?thesis using i(7) [OF assms(2,4)] i(7) [OF assms(3,5)] by simp
qed

lemma table_inv_drop_guard:
  assumes "table_inv cl g q" "cl c = Some (k, m)" "c \<in> g"
  shows "table_inv (cl(c := None)) (g - {c}) (drop_guard c m q)"
proof -
  note i = table_invD [OF assms(1)]
  have "m < length (fq_holder q)" using i(1) table_clone_lt [OF assms(1,2)] by simp
  moreover have "m' \<noteq> m" if "c' \<in> g" "c' \<noteq> c" "cl c' = Some (k', m')" for c' k' m'
    using i(7) [OF that(1,3)] i(7) [OF assms(3,2)] that(2) by auto
  ultimately have "table_inv cl (g - {c}) (q\<lparr>fq_holder := (fq_holder q)[m := None]\<rparr>)"
    using i unfolding table_inv_def by (auto simp: nth_list_update)
  then show ?thesis unfolding drop_guard_def by (rule table_inv_drop_clone) (use assms(2) in simp_all)
qed

section \<open>The tasks and the table\<close>

fun pc_clone :: "file_pc \<Rightarrow> (file_job \<times> nat) option" where
  "pc_clone FpIdle = None"
| "pc_clone (FpEnter job) = None"
| "pc_clone (FpWait job m) = Some (job, m)"
| "pc_clone (FpGranted job m) = Some (job, m)"
| "pc_clone (FpLocked job m) = Some (job, m)"
| "pc_clone (FpReady job m content) = Some (job, m)"
| "pc_clone (FpWriting job m content) = Some (job, m)"
| "pc_clone (FpReturn r) = None"

text \<open>The job of a task that holds its lock.\<close>

fun pc_guard :: "file_pc \<Rightarrow> file_job option" where
  "pc_guard (FpGranted job m) = Some job"
| "pc_guard (FpLocked job m) = Some job"
| "pc_guard (FpReady job m content) = Some job"
| "pc_guard (FpWriting job m content) = Some job"
| "pc_guard _ = None"

definition clones :: "string option \<Rightarrow> (nat \<Rightarrow> file_pc) \<Rightarrow> nat \<Rightarrow> (string \<times> nat) option" where
  "clones cwd pcs c = map_option (\<lambda>(job, m). (normalize cwd (job_path job), m)) (pc_clone (pcs c))"

definition guards :: "(nat \<Rightarrow> file_pc) \<Rightarrow> nat set" where
  "guards pcs = {c. pc_guard (pcs c) \<noteq> None}"

definition table_ok :: "string option \<Rightarrow> (nat \<Rightarrow> file_pc) \<Rightarrow> file_system \<Rightarrow> bool" where
  "table_ok cwd pcs sy = table_inv (clones cwd pcs) (guards pcs) (fy_queue sy)"

lemma clones_upd:
  "clones cwd (pcs(c := pc)) =
     (clones cwd pcs)(c := map_option (\<lambda>(job, m). (normalize cwd (job_path job), m)) (pc_clone pc))"
  by (auto simp: clones_def)

lemma guards_upd: "guards (pcs(c := pc)) = (if pc_guard pc = None then guards pcs - {c} else insert c (guards pcs))"
  by (auto simp: guards_def)

lemma guards_absorb: "pc_guard (pcs c) = None \<Longrightarrow> guards pcs - {c} = guards pcs"
  "pc_guard (pcs c) = Some job \<Longrightarrow> insert c (guards pcs) = guards pcs"
  by (auto simp: guards_def)

text \<open>A section that leaves the table alone, or fails and drops the guard.\<close>

lemma table_ok_same:
  assumes "table_ok cwd pcs sy" "pc_clone pc' = pc_clone (pcs c)" "pc_guard pc' = pc_guard (pcs c)"
    "fy_queue sy' = fy_queue sy"
  shows "table_ok cwd (pcs(c := pc')) sy'"
proof -
  have "clones cwd (pcs(c := pc')) = clones cwd pcs" "guards (pcs(c := pc')) = guards pcs"
    using assms(2,3) by (auto simp: clones_def guards_def)
  then show ?thesis using assms(1,4) by (simp add: table_ok_def)
qed

lemma table_ok_release:
  assumes "table_ok cwd pcs sy" "pc_clone (pcs c) = Some (job, m)" "pc_guard (pcs c) = Some job"
    "fy_queue sy' = drop_guard c m (fy_queue sy)"
  shows "table_ok cwd (pcs(c := FpReturn r)) sy'"
proof -
  have "clones cwd pcs c = Some (normalize cwd (job_path job), m)" "c \<in> guards pcs"
    using assms(2,3) by (simp_all add: clones_def guards_def)
  then show ?thesis
    using table_inv_drop_guard [of "clones cwd pcs" "guards pcs" "fy_queue sy" c] assms(1,4)
    by (simp add: table_ok_def clones_upd guards_upd)
qed

lemma enter_table:
  assumes "table_ok cwd pcs sy" "pcs c = FpEnter job" "enter_step cwd env c job sy = (pc', sy')"
  shows "table_ok cwd (pcs(c := pc')) sy'"
proof (cases "ie_cancelled env")
  case True
  then show ?thesis
    using assms by (intro table_ok_same [OF assms(1)]) (auto simp: enter_step_def)
next
  case False
  obtain m q where a: "acquire_entry c (normalize cwd (job_path job)) (fy_queue sy) = (m, q)" by force
  have "table_inv ((clones cwd pcs)(c := Some (normalize cwd (job_path job), m))) (guards pcs) q"
    by (rule table_inv_acquire [OF _ _ _ a]) (use assms(1,2) in \<open>simp_all add: table_ok_def clones_def guards_def\<close>)
  then show ?thesis
    using assms(2,3) False a by (auto simp: enter_step_def table_ok_def clones_upd guards_upd guards_absorb)
qed

lemma wait_table:
  assumes "table_ok cwd pcs sy" "pcs c = FpWait job m" "wait_step env c job m sy = Some (pc', sy')"
  shows "table_ok cwd (pcs(c := pc')) sy'"
proof -
  have cl: "clones cwd pcs c = Some (normalize cwd (job_path job), m)" "c \<notin> guards pcs"
    using assms(2) by (simp_all add: clones_def guards_def)
  then have same: "(clones cwd pcs)(c := Some (normalize cwd (job_path job), m)) = clones cwd pcs" by auto
  note inv = assms(1) [unfolded table_ok_def]
  show ?thesis
  proof (cases "ie_cancelled env")
    case True
    then show ?thesis
      using table_inv_drop_clone [OF inv cl] assms(2,3)
      by (auto simp: wait_step_def table_ok_def clones_upd guards_upd guards_absorb)
  next
    case False
    then obtain q where "lock_mutex c m (fy_queue sy) = Some q" "pc' = FpGranted job m" "sy' = sy\<lparr>fy_queue := q\<rparr>"
      using assms(3) by (auto simp: wait_step_def)
    then show ?thesis
      using table_inv_lock [OF inv cl(1)] same by (simp add: table_ok_def clones_upd guards_upd)
  qed
qed

lemma fail_locked_table:
  assumes "table_ok cwd pcs sy" "pc_clone (pcs c) = Some (job, m)" "pc_guard (pcs c) = Some job"
    "fail_locked c m e sy = (pc', sy')"
  shows "table_ok cwd (pcs(c := pc')) sy'"
  using assms(4) table_ok_release [OF assms(1-3)] by (auto simp: fail_locked_def)

text \<open>The sections under the lock end in one of three ways.\<close>

definition under_lock :: "nat \<Rightarrow> file_pc \<Rightarrow> file_system \<Rightarrow> file_pc \<times> file_system \<Rightarrow> bool" where
  "under_lock c pc sy r \<longleftrightarrow>
     (\<exists>job m. pc_clone pc = Some (job, m) \<and> pc_guard pc = Some job \<and>
       ((pc_clone (fst r) = Some (job, m) \<and> pc_guard (fst r) = Some job \<and> fy_queue (snd r) = fy_queue sy)
        \<or> ((\<exists>x. fst r = FpReturn x) \<and> fy_queue (snd r) = drop_guard c m (fy_queue sy))))"

lemma under_lock_table:
  assumes "table_ok cwd pcs sy" "under_lock c (pcs c) sy (pc', sy')"
  shows "table_ok cwd (pcs(c := pc')) sy'"
  using assms(2) table_ok_same [OF assms(1), of pc' c sy'] table_ok_release [OF assms(1), of c]
  by (auto simp: under_lock_def)

lemma sections_under_lock:
  "under_lock c (FpGranted job m) sy (granted_step env c job m sy)"
  "under_lock c (FpLocked job m) sy (locked_step ue env c job m sy)"
  "under_lock c (FpReady job m content) sy (ready_step env c job m content sy)"
  "under_lock c (FpWriting job m content) sy (writing_step env c job m content sy)"
  by (simp_all add: under_lock_def granted_step_def locked_step_def ready_step_def writing_step_def fail_locked_def Let_def
      split: option.split file_job.split bool.split sum.split)

lemma step_table:
  assumes "table_ok cwd pcs sy" "file_step cwd ue env c (pcs c) sy = Some (pc', sy')"
  shows "table_ok cwd (pcs(c := pc')) sy'"
  using assms(2) enter_table [OF assms(1)] wait_table [OF assms(1)] under_lock_table [OF assms(1), of c pc' sy']
    sections_under_lock
  by (cases "pcs c") (simp_all add: file_step_def, metis+)

lemma reachable_table:
  assumes "file_reachable cwd ue files s"
  shows "table_ok cwd (fst s) (snd s)"
  using assms
proof (induction rule: file_reachable.induct)
  case (start file_lock)
  have "clones cwd (\<lambda>_. FpIdle) = (\<lambda>_. None)" "guards (\<lambda>_. FpIdle) = {}" by (auto simp: clones_def guards_def)
  then show ?case using table_inv_new by (simp add: table_ok_def)
next
  case (call pcs sy c job)
  then have "pc_clone (pcs c) = None \<and> pc_guard (pcs c) = None" by (cases "pcs c") simp_all
  then show ?case using table_ok_same [of cwd pcs sy "FpEnter job" c sy] call.IH by (simp add: fun_upd_def)
next
  case (step pcs sy env c pc' sy')
  then show ?case using step_table [of cwd pcs sy ue env c pc' sy'] by (simp add: fun_upd_def)
next
  case (prune pcs sy)
  then show ?case using table_inv_prune by (simp add: table_ok_def)
qed

lemma guard_clone: "pc_guard pc = Some job \<Longrightarrow> \<exists>m. pc_clone pc = Some (job, m)"
  by (cases pc) auto

lemma guard_unique:
  assumes "file_reachable cwd ue files (pcs, sy)"
    "pc_guard (pcs c) = Some job" "pc_guard (pcs c') = Some job'"
    "normalize cwd (job_path job) = normalize cwd (job_path job')"
  shows "c = c'"
proof -
  have "table_inv (clones cwd pcs) (guards pcs) (fy_queue sy)"
    using reachable_table [OF assms(1)] by (simp add: table_ok_def)
  then show ?thesis
    using table_inv_exclusive [of "clones cwd pcs" "guards pcs" "fy_queue sy" c c' "normalize cwd (job_path job)"]
      assms(2-4) guard_clone [OF assms(2)] guard_clone [OF assms(3)]
    by (auto simp: guards_def clones_def)
qed

section \<open>What the files hold\<close>

text \<open>
  The log has the writes in the order they finished; \<open>None\<close> is a write that succeeded,
  \<open>Some partial\<close> what a failed one left.  Replaying it for a path applies each job to what the
  job before it left, and gives \<open>None\<close> when a job would not have written that.
\<close>

definition apply_job :: "(string \<Rightarrow> string) \<Rightarrow> file_job \<times> string option \<Rightarrow> string option \<Rightarrow> string option option" where
  "apply_job ue e old =
     (case job_content ue (fst e) old of
        Inl _ \<Rightarrow> None
      | Inr content \<Rightarrow>
          (case snd e of
             None \<Rightarrow> Some (Some content)
           | Some partial \<Rightarrow> if prefix partial content then Some (Some partial) else None))"

fun replay_path :: "(string \<Rightarrow> string) \<Rightarrow> string \<Rightarrow> (file_job \<times> string option) list \<Rightarrow> string option \<Rightarrow> string option option" where
  "replay_path ue p [] old = Some old"
| "replay_path ue p (e # es) old =
     (if job_path (fst e) = p then Option.bind (apply_job ue e old) (replay_path ue p es)
      else replay_path ue p es old)"

lemma replay_path_append:
  "replay_path ue p (es @ es') old = Option.bind (replay_path ue p es old) (replay_path ue p es')"
  by (induction es arbitrary: old) (auto split: Option.bind_split)

definition data_ok :: "(string \<Rightarrow> string) \<Rightarrow> (string \<rightharpoonup> string) \<Rightarrow> (nat \<Rightarrow> file_pc) \<Rightarrow> file_system \<Rightarrow> bool" where
  "data_ok ue files pcs sy \<longleftrightarrow>
     (\<forall>c job m content. pcs c = FpReady job m content \<longrightarrow> job_content ue job (fy_files sy (job_path job)) = Inr content)
     \<and> (\<forall>c job m content. pcs c = FpWriting job m content \<longrightarrow>
          (\<exists>old. replay_path ue (job_path job) (fy_log sy) (files (job_path job)) = Some old \<and> job_content ue job old = Inr content))
     \<and> (\<forall>p. (\<forall>c job m content. pcs c = FpWriting job m content \<longrightarrow> job_path job \<noteq> p) \<longrightarrow>
          replay_path ue p (fy_log sy) (files p) = Some (fy_files sy p))"

lemma data_okD:
  assumes "data_ok ue files pcs sy"
  shows "pcs c = FpReady job m content \<Longrightarrow> job_content ue job (fy_files sy (job_path job)) = Inr content"
    "pcs c = FpWriting job m content \<Longrightarrow>
      \<exists>old. replay_path ue (job_path job) (fy_log sy) (files (job_path job)) = Some old \<and> job_content ue job old = Inr content"
    "(\<And>c job m content. pcs c = FpWriting job m content \<Longrightarrow> job_path job \<noteq> p) \<Longrightarrow>
      replay_path ue p (fy_log sy) (files p) = Some (fy_files sy p)"
  using assms unfolding data_ok_def by blast+

text \<open>A section that leaves the files alone.\<close>

lemma data_quiet:
  assumes "data_ok ue files pcs sy" "\<And>job m content. pcs c \<noteq> FpWriting job m content"
    "\<And>job m content. pc' \<noteq> FpWriting job m content"
    "\<And>job m content. pc' = FpReady job m content \<Longrightarrow> job_content ue job (fy_files sy (job_path job)) = Inr content"
    "fy_files sy' = fy_files sy" "fy_log sy' = fy_log sy"
  shows "data_ok ue files (pcs(c := pc')) sy'"
  unfolding data_ok_def assms(5,6)
proof (intro conjI allI impI)
  fix p assume "\<forall>c' job m content. (pcs(c := pc')) c' = FpWriting job m content \<longrightarrow> job_path job \<noteq> p"
  then have "job_path job \<noteq> p" if "pcs c' = FpWriting job m content" for c' job m content
    using that assms(2) by (metis fun_upd_other)
  then show "replay_path ue p (fy_log sy) (files p) = Some (fy_files sy p)" using data_okD(3) [OF assms(1)] by blast
next
  fix c' job m content assume "(pcs(c := pc')) c' = FpReady job m content"
  then show "job_content ue job (fy_files sy (job_path job)) = Inr content"
    using data_okD(1) [OF assms(1), of c'] assms(4) by (cases "c' = c") simp_all
next
  fix c' job m content assume "(pcs(c := pc')) c' = FpWriting job m content"
  moreover from this have "c' \<noteq> c" using assms(3) by auto
  ultimately show "\<exists>old. replay_path ue (job_path job) (fy_log sy) (files (job_path job)) = Some old \<and> job_content ue job old = Inr content"
    using data_okD(2) [OF assms(1), of c'] by simp
qed

lemma locked_data:
  assumes "data_ok ue files pcs sy" "pcs c = FpLocked job m" "locked_step ue env c job m sy = (pc', sy')"
  shows "data_ok ue files (pcs(c := pc')) sy'"
proof -
  have "(\<exists>r. pc' = FpReturn r) \<or> (\<exists>content. pc' = FpReady job m content \<and> job_content ue job (fy_files sy (job_path job)) = Inr content)"
    "fy_files sy' = fy_files sy \<and> fy_log sy' = fy_log sy"
    using assms(3) unfolding locked_step_def
    by (auto simp: fail_locked_def job_content_def split: if_splits file_job.splits option.splits bool.splits sum.splits)
  then show ?thesis using data_quiet [OF assms(1), of c pc' sy'] assms(2) by auto
qed

text \<open>Opening the file for writing, and the end of the write.\<close>

lemma ready_data:
  assumes "data_ok ue files pcs sy" "pcs c = FpReady job m content"
    "\<And>c' job'. pc_guard (pcs c') = Some job' \<Longrightarrow> job_path job' = job_path job \<Longrightarrow> c' = c"
    "ready_step env c job m content sy = (pc', sy')"
  shows "data_ok ue files (pcs(c := pc')) sy'"
proof (cases "(ie_cancelled env \<and> job_tool job = ''edit'') \<or> ie_error env \<noteq> None")
  case True
  then have "\<exists>r. pc' = FpReturn r" "fy_files sy' = fy_files sy" "fy_log sy' = fy_log sy"
    using assms(4) unfolding ready_step_def by (auto simp: fail_locked_def split: if_splits)
  then show ?thesis using data_quiet [OF assms(1), of c pc' sy'] assms(2) by auto
next
  case False
  then have r: "pc' = FpWriting job m content" "fy_files sy' = (fy_files sy)(job_path job \<mapsto> [])" "fy_log sy' = fy_log sy"
    using assms(4) unfolding ready_step_def by auto
  have other: "job_path job' \<noteq> job_path job" if "pc_guard (pcs c') = Some job'" "c' \<noteq> c" for c' job'
    using assms(3) that by blast
  have "job_path job' \<noteq> job_path job" if "pcs c' = FpWriting job' m' content'" for c' job' m' content'
    using other [of c' job'] that assms(2) by (cases "c' = c") auto
  then have rep: "replay_path ue (job_path job) (fy_log sy) (files (job_path job)) = Some (fy_files sy (job_path job))"
    by (rule data_okD(3) [OF assms(1)])
  show ?thesis
    unfolding data_ok_def r(1,3)
  proof (intro conjI allI impI)
    fix p assume "\<forall>c' job' m' content'. (pcs(c := FpWriting job m content)) c' = FpWriting job' m' content' \<longrightarrow> job_path job' \<noteq> p"
    then have w: "(pcs(c := FpWriting job m content)) c' = FpWriting job' m' content' \<Longrightarrow> job_path job' \<noteq> p" for c' job' m' content'
      by blast
    have "job_path job \<noteq> p" using w [of c] by simp
    moreover have "job_path job' \<noteq> p" if "pcs c' = FpWriting job' m' content'" for c' job' m' content'
      using w [of c'] that assms(2) by (cases "c' = c") simp_all
    ultimately show "replay_path ue p (fy_log sy) (files p) = Some (fy_files sy' p)"
      using data_okD(3) [OF assms(1), of p] r(2) by auto
  next
    fix c' job' m' content'
    assume "(pcs(c := FpWriting job m content)) c' = FpReady job' m' content'"
    then show "job_content ue job' (fy_files sy' (job_path job')) = Inr content'"
      using other [of c' job'] data_okD(1) [OF assms(1), of c'] r(2) by (auto split: if_splits)
  next
    fix c' job' m' content'
    assume "(pcs(c := FpWriting job m content)) c' = FpWriting job' m' content'"
    then show "\<exists>old. replay_path ue (job_path job') (fy_log sy) (files (job_path job')) = Some old \<and> job_content ue job' old = Inr content'"
      using rep data_okD(1) [OF assms(1,2)] data_okD(2) [OF assms(1), of c'] by (auto split: if_splits)
  qed
qed

lemma writing_data:
  assumes "data_ok ue files pcs sy" "pcs c = FpWriting job m content"
    "\<And>c' job'. pc_guard (pcs c') = Some job' \<Longrightarrow> job_path job' = job_path job \<Longrightarrow> c' = c"
    "writing_step env c job m content sy = (pc', sy')"
  shows "data_ok ue files (pcs(c := pc')) sy'"
proof -
  obtain r written part where r: "pc' = FpReturn r" "fy_files sy' = (fy_files sy)(job_path job \<mapsto> written)"
      "fy_log sy' = fy_log sy @ [(job, part)]"
      "part = None \<and> written = content \<or> part = Some written \<and> prefix written content"
    using assms(4) unfolding writing_step_def Let_def by (auto simp: take_is_prefix split: option.splits)
  obtain old where old: "replay_path ue (job_path job) (fy_log sy) (files (job_path job)) = Some old"
      "job_content ue job old = Inr content"
    using data_okD(2) [OF assms(1,2)] by blast
  then have rep: "replay_path ue (job_path job) (fy_log sy') (files (job_path job)) = Some (Some written)"
    using r(3,4) by (auto simp: replay_path_append apply_job_def)
  have rep': "replay_path ue p (fy_log sy') (files p) = replay_path ue p (fy_log sy) (files p)" if "p \<noteq> job_path job" for p
    using that r(3) by (auto simp: replay_path_append split: Option.bind_split)
  have other: "job_path job' \<noteq> job_path job" if "pc_guard (pcs c') = Some job'" "c' \<noteq> c" for c' job'
    using assms(3) that by blast
  show ?thesis
    unfolding data_ok_def r(1)
  proof (intro conjI allI impI)
    fix p assume *: "\<forall>c' job' m' content'. (pcs(c := FpReturn r)) c' = FpWriting job' m' content' \<longrightarrow> job_path job' \<noteq> p"
    show "replay_path ue p (fy_log sy') (files p) = Some (fy_files sy' p)"
    proof (cases "p = job_path job")
      case False
      then have "job_path job' \<noteq> p" if "pcs c' = FpWriting job' m' content'" for c' job' m' content'
        using that * assms(2) by (cases "c' = c") (auto, metis fun_upd_other)
      then show ?thesis using rep' [OF False] data_okD(3) [OF assms(1), of p] False r(2) by simp
    qed (use rep r(2) in simp)
  next
    fix c' job' m' content' assume "(pcs(c := FpReturn r)) c' = FpReady job' m' content'"
    then show "job_content ue job' (fy_files sy' (job_path job')) = Inr content'"
      using other [of c' job'] data_okD(1) [OF assms(1), of c'] r(2) by (auto split: if_splits)
  next
    fix c' job' m' content' assume "(pcs(c := FpReturn r)) c' = FpWriting job' m' content'"
    then show "\<exists>old. replay_path ue (job_path job') (fy_log sy') (files (job_path job')) = Some old \<and> job_content ue job' old = Inr content'"
      using other [of c' job'] data_okD(2) [OF assms(1), of c'] rep' [of "job_path job'"] by (auto split: if_splits)
  qed
qed

lemma step_data:
  assumes "file_reachable cwd ue files (pcs, sy)" "data_ok ue files pcs sy"
    "file_step cwd ue env c (pcs c) sy = Some (pc', sy')"
  shows "data_ok ue files (pcs(c := pc')) sy'"
proof -
  have u: "c' = c" if "pc_guard (pcs c) = Some job" "pc_guard (pcs c') = Some job'" "job_path job' = job_path job" for c' job job'
    using guard_unique [OF assms(1) that(2,1)] that(3) by simp
  have q: ?thesis if "\<And>job m content. pcs c \<noteq> FpWriting job m content"
      "\<And>job m content. pc' \<noteq> FpWriting job m content \<and> pc' \<noteq> FpReady job m content"
      "fy_files sy' = fy_files sy" "fy_log sy' = fy_log sy"
    by (rule data_quiet [OF assms(2)]) (use that in auto)
  show ?thesis
  proof (cases "pcs c")
    case (FpEnter job)
    then show ?thesis
      using assms(3) by (intro q) (auto simp: file_step_def enter_step_def split: if_splits prod.splits)
  next
    case (FpWait job m)
    then show ?thesis
      using assms(3) by (intro q) (auto simp: file_step_def wait_step_def split: if_splits)
  next
    case (FpGranted job m)
    then show ?thesis
      using assms(3) by (intro q) (auto simp: file_step_def granted_step_def fail_locked_def split: if_splits option.splits)
  next
    case (FpLocked job m)
    then show ?thesis using assms(3) locked_data [OF assms(2)] by (simp add: file_step_def)
  next
    case (FpReady job m content)
    then show ?thesis
      using assms(3) u by (intro ready_data [OF assms(2)]) (auto simp: file_step_def)
  next
    case (FpWriting job m content)
    then show ?thesis
      using assms(3) u by (intro writing_data [OF assms(2)]) (auto simp: file_step_def)
  qed (use assms(3) in \<open>simp_all add: file_step_def\<close>)
qed

lemma reachable_data:
  assumes "file_reachable cwd ue files s"
  shows "data_ok ue files (fst s) (snd s)"
  using assms
proof (induction rule: file_reachable.induct)
  case (call pcs sy c job)
  then have "data_ok ue files (pcs(c := FpEnter job)) sy"
    by (intro data_quiet) auto
  then show ?case by (simp add: fun_upd_def)
next
  case (step pcs sy env c pc' sy')
  then show ?case using step_data [of cwd ue files pcs sy env c pc' sy'] by (simp add: fun_upd_def)
qed (simp_all add: data_ok_def)

text \<open>
  C16: However agents interleave their writes and edits, and whenever the lock table is pruned,
  two tasks that hold the lock of the same path are the same task.  Pruning evicts exactly the
  paths no task holds or waits for, so no agent is ever handed a second lock for a path that is
  in use, and no entry outlives its users.
\<close>

theorem write_lock_exclusive:
  assumes "file_reachable cwd ue files (pcs, sy)"
  shows "(\<forall>c c' job job'. pc_guard (pcs c) = Some job \<and> pc_guard (pcs c') = Some job' \<and>
        normalize cwd (job_path job) = normalize cwd (job_path job') \<longrightarrow> c = c')
    \<and> dom (fq_locks (prune_locked (fy_queue sy))) =
      {normalize cwd (job_path job) | c job m. pc_clone (pcs c) = Some (job, m)}"
proof (intro conjI allI impI)
  have inv: "table_inv (clones cwd pcs) (guards pcs) (fy_queue sy)"
    using reachable_table [OF assms] by (simp add: table_ok_def)
  show "c = c'" if "pc_guard (pcs c) = Some job \<and> pc_guard (pcs c') = Some job'
      \<and> normalize cwd (job_path job) = normalize cwd (job_path job')" for c c' job job'
    using guard_unique [OF assms, of c job c' job'] that by blast
  show "dom (fq_locks (prune_locked (fy_queue sy))) =
      {normalize cwd (job_path job) | c job m. pc_clone (pcs c) = Some (job, m)}" (is "?A = ?B")
  proof (intro equalityI subsetI)
    fix k assume "k \<in> ?A"
    then obtain m where m: "fq_locks (fy_queue sy) k = Some m" "1 < strong_count (fy_queue sy) m"
      by (auto simp: prune_locked_def split: option.splits if_splits)
    then obtain c where "c \<in> set (fq_owners (fy_queue sy) ! m)"
      by (cases "fq_owners (fy_queue sy) ! m") (auto simp: strong_count_def)
    then obtain k' where k': "clones cwd pcs c = Some (k', m)"
      using table_invD(5) [OF inv table_invD(2) [OF inv m(1)]] by blast
    then have "k' = k" using table_invD(3) [OF inv _ m(1)] table_invD(6) [OF inv k'] by blast
    then show "k \<in> ?B" using k' by (auto simp: clones_def)
  next
    fix k assume "k \<in> ?B"
    then obtain c m where "clones cwd pcs c = Some (k, m)" by (auto simp: clones_def)
    then show "k \<in> ?A" using prune_keeps [OF inv] by blast
  qed
qed

text \<open>
  C5: No update is lost.  Starting from any files, whatever agents write and edit concurrently
  and however the operating system fails them, the content of a file nobody is writing is what
  the finished writes leave when each one is computed from the content the one before it left:
  every edit that succeeded was applied to the current content, and a write that failed left a
  prefix of what it meant to write.
\<close>

theorem no_lost_update:
  assumes "file_reachable cwd ue files (pcs, sy)"
    "\<And>c job m content. pcs c = FpWriting job m content \<Longrightarrow> job_path job \<noteq> p"
  shows "replay_path ue p (fy_log sy) (files p) = Some (fy_files sy p)"
  using data_okD(3) [OF reachable_data [OF assms(1)]] assms(2) by simp

section \<open>A run\<close>

text \<open>A schedule: which task runs its next section, and what the operating system answers.\<close>

fun file_run ::
    "string option \<Rightarrow> (string \<Rightarrow> string) \<Rightarrow> (nat \<times> io_env) list \<Rightarrow> (nat \<Rightarrow> file_pc) \<times> file_system
     \<Rightarrow> ((nat \<Rightarrow> file_pc) \<times> file_system) option" where
  "file_run cwd ue [] s = Some s"
| "file_run cwd ue ((c, env) # es) (pcs, sy) =
     (case file_step cwd ue env c (pcs c) sy of
        None \<Rightarrow> None
      | Some (pc', sy') \<Rightarrow> file_run cwd ue es (pcs(c := pc'), sy'))"

lemma file_run_reachable:
  "file_reachable cwd ue files s \<Longrightarrow> file_run cwd ue es s = Some s' \<Longrightarrow> file_reachable cwd ue files s'"
proof (induction cwd ue es s rule: file_run.induct)
  case (2 cwd ue c env es pcs sy)
  obtain pc' sy' where step: "file_step cwd ue env c (pcs c) sy = Some (pc', sy')"
    using "2.prems"(2) by (auto split: option.splits)
  then have "file_run cwd ue es (pcs(c := pc'), sy') = Some s'" using "2.prems"(2) by simp
  then show ?case using "2.IH" [OF step refl] file_reachable.step [OF "2.prems"(1) step] by blast
qed simp

definition calm :: io_env where
  "calm = \<lparr>ie_cancelled = False, ie_lock_error = None, ie_error = None, ie_not_file = False, ie_partial = 0\<rparr>"

definition demo_start :: "(nat \<Rightarrow> file_pc) \<times> file_system" where
  "demo_start =
     ((\<lambda>_. FpIdle)(0 := FpEnter (WriteJob ''/f'' ''one''), 1 := FpEnter (WriteJob ''/f'' ''two'')),
      \<lparr>fy_queue = queue_new False, fy_files = [''/f'' \<mapsto> ''zero''], fy_log = []\<rparr>)"

lemma resolve_f: "resolve_tool_path None None ''/f'' = ''/f''" "normalize None ''/f'' = ''/f''"
  by (simp_all add: resolve_tool_path_def normalize_def path_absolute_def is_absolute_def slash_def
      path_root_def components_def path_push_def)

lemma has_parent_f: "has_parent ''/f''"
  by (simp add: has_parent_def components_def is_absolute_def slash_def)

lemma demo_reachable: "file_reachable None ue [''/f'' \<mapsto> ''zero''] demo_start"
proof -
  have w: "write_call None None \<lparr>wa_path = ''/f'', wa_content = x\<rparr> = WriteJob ''/f'' x" for x
    by (simp add: write_call_def resolve_f)
  have "file_reachable None ue [''/f'' \<mapsto> ''zero''] ((\<lambda>_. FpIdle)(0 := FpEnter (WriteJob ''/f'' ''one'')),
      \<lparr>fy_queue = queue_new False, fy_files = [''/f'' \<mapsto> ''zero''], fy_log = []\<rparr>)"
    by (rule file_reachable.call [OF file_reachable.start]) (use w [symmetric] in auto)
  then show ?thesis
    unfolding demo_start_def by (rule file_reachable.call) (use w [symmetric] in auto)
qed

lemmas demo_eval = demo_start_def file_step_def enter_step_def wait_step_def granted_step_def locked_step_def
  ready_step_def writing_step_def calm_def acquire_entry_def PRUNE_THRESHOLD_def queue_len_def queue_new_def
  lock_mutex_def drop_guard_def drop_clone_def resolve_f has_parent_f

text \<open>Task 0 holds the lock and task 1 waits for it.\<close>

lemma write_lock_exclusive_witness:
  "\<exists>pcs sy. file_run None id [(0, calm), (1, calm), (0, calm)] demo_start = Some (pcs, sy)
     \<and> pc_guard (pcs 0) = Some (WriteJob ''/f'' ''one'') \<and> pc_clone (pcs 1) \<noteq> None
     \<and> pc_guard (pcs 1) = None \<and> ''/f'' \<in> dom (fq_locks (prune_locked (fy_queue sy)))"
proof -
  obtain pcs sy where run: "file_run None id [(0, calm), (1, calm), (0, calm)] demo_start = Some (pcs, sy)"
      "pcs 0 = FpGranted (WriteJob ''/f'' ''one'') 0" "pcs 1 = FpWait (WriteJob ''/f'' ''two'') 0"
    by (simp add: demo_eval)
  have "dom (fq_locks (prune_locked (fy_queue sy))) =
      {normalize None (job_path job) | c job m. pc_clone (pcs c) = Some (job, m)}"
    using write_lock_exclusive [OF file_run_reachable [OF demo_reachable run(1)]] by blast
  moreover have "\<exists>c job m. ''/f'' = normalize None (job_path job) \<and> pc_clone (pcs c) = Some (job, m)"
    using run(3) by (intro exI [of _ 1] exI [of _ "WriteJob ''/f'' ''two''"] exI [of _ 0]) (simp add: resolve_f)
  ultimately show ?thesis using run by auto
qed

text \<open>Both tasks write, one after the other.\<close>

lemma no_lost_update_witness:
  "\<exists>pcs sy. file_run None id
       ([(0, calm), (1, calm)] @ replicate 5 (0, calm) @ replicate 5 (1, calm)) demo_start = Some (pcs, sy)
     \<and> replay_path id ''/f'' (fy_log sy) (Some ''zero'') = Some (fy_files sy ''/f'')
     \<and> fy_files sy ''/f'' = Some ''two'' \<and> map fst (fy_log sy) = [WriteJob ''/f'' ''one'', WriteJob ''/f'' ''two'']"
proof -
  obtain pcs sy where run: "file_run None id
       ([(0, calm), (1, calm)] @ replicate 5 (0, calm) @ replicate 5 (1, calm)) demo_start = Some (pcs, sy)"
      "fy_files sy ''/f'' = Some ''two''" "map fst (fy_log sy) = [WriteJob ''/f'' ''one'', WriteJob ''/f'' ''two'']"
      "\<And>c. fp_returned (pcs c)"
    by (simp add: demo_eval eval_nat_numeral)
  have idle: "job_path job \<noteq> ''/f''" if "pcs c = FpWriting job m content" for c job m content
    using run(4) [of c] that by simp
  have "replay_path id ''/f'' (fy_log sy) ([''/f'' \<mapsto> ''zero''] ''/f'') = Some (fy_files sy ''/f'')"
    by (rule no_lost_update [OF file_run_reachable [OF demo_reachable run(1)] idle])
  then show ?thesis using run by auto
qed

end
