(* ===== verification/Plugin_Registry.thy ===== *)
theory Plugin_Registry
  imports Loop_Config
begin

text \<open>
  Deferred tools (\<open>tools/deferred.rs\<close>), plugin tools (\<open>plugin/tool.rs\<close>) and the two plugin
  registries (\<open>plugin/mod.rs\<close>, \<open>plugin/agent.rs\<close>).  A \<open>HashMap\<close> is the list of its entries in
  the order an iteration meets them, which the program does not control.  What a plugin
  implements is a record of operations; \<open>instantiate\<close> and the factory act on the outside, so
  they pass a world through.  The cell that holds an instantiated tool lets one caller
  initialise it at a time, so its callers are a sequence.
\<close>

section \<open>Deferred tools (deferred.rs)\<close>

record DeferredToolSpec =
  ds_name :: string
  ds_description :: string
  ds_parameters :: "json option"
  ds_resource_scope :: ResourceScope

definition from_tool :: "'w Tool \<Rightarrow> DeferredToolSpec" where
  "from_tool t =
     \<lparr>ds_name = tl_name t, ds_description = tl_description t, ds_parameters = tl_parameters t,
      ds_resource_scope = tl_resource_scope t\<rparr>"

record 'w DeferredTool =
  df_spec :: DeferredToolSpec
  df_factory :: "'w \<Rightarrow> 'w Tool \<times> 'w"
  df_inner :: "'w Tool option"

definition deferred_new :: "DeferredToolSpec \<Rightarrow> ('w \<Rightarrow> 'w Tool \<times> 'w) \<Rightarrow> 'w DeferredTool" where
  "deferred_new spec factory = \<lparr>df_spec = spec, df_factory = factory, df_inner = None\<rparr>"

definition deferred_ready :: "'w Tool \<Rightarrow> 'w DeferredTool" where
  "deferred_ready t = \<lparr>df_spec = from_tool t, df_factory = (\<lambda>w. (t, w)), df_inner = None\<rparr>"

type_synonym 'w tool_run = "('w, ToolResult, ToolError + ToolResult) fut"

definition deferred_execute ::
    "string \<Rightarrow> json \<Rightarrow> bool \<Rightarrow> 'w DeferredTool \<Rightarrow> 'w \<Rightarrow> 'w tool_run \<times> 'w DeferredTool \<times> 'w" where
  "deferred_execute tool_call_id args cancelled d w =
     (case df_inner d of
        Some t \<Rightarrow> (tl_execute t tool_call_id args cancelled, d, w)
      | None \<Rightarrow>
          (case df_factory d w of
             (t, w') \<Rightarrow> (tl_execute t tool_call_id args cancelled, d\<lparr>df_inner := Some t\<rparr>, w')))"

section \<open>Plugins (mod.rs)\<close>

datatype PluginError =
    DuplicatePlugin string
  | PluginNotFound string
  | ToolNotDeclared string
  | Instantiation string string string

fun plugin_error_display :: "PluginError \<Rightarrow> string" where
  "plugin_error_display (DuplicatePlugin i) = ''plugin already registered: '' @ i"
| "plugin_error_display (PluginNotFound i) = ''plugin not found: '' @ i"
| "plugin_error_display (ToolNotDeclared n) = ''tool `'' @ n @ ''` not declared by plugin''"
| "plugin_error_display (Instantiation p t src) =
     ''plugin `'' @ p @ ''` failed to instantiate tool `'' @ t @ ''`: '' @ src"

record 'w Plugin =
  pl_id :: string
  pl_tools :: "DeferredToolSpec list"
  pl_instantiate :: "string \<Rightarrow> 'w \<Rightarrow> (PluginError + 'w Tool) \<times> 'w"

type_synonym 'p hash_table = "(string \<times> 'p) list"

definition plugin_register :: "'w Plugin \<Rightarrow> 'w Plugin hash_table \<Rightarrow> (PluginError + unit) \<times> 'w Plugin hash_table" where
  "plugin_register p reg =
     (if pl_id p \<in> fst ` set reg then (Inl (DuplicatePlugin (pl_id p)), reg)
      else (Inr (), (pl_id p, p) # reg))"

definition plugin_unregister :: "string \<Rightarrow> 'w Plugin hash_table \<Rightarrow> 'w Plugin option \<times> 'w Plugin hash_table" where
  "plugin_unregister i reg = (map_of reg i, filter (\<lambda>e. fst e \<noteq> i) reg)"

definition plugin_get :: "'w Plugin hash_table \<Rightarrow> string \<Rightarrow> 'w Plugin option" where
  "plugin_get reg i = map_of reg i"

definition plugin_list :: "'w Plugin hash_table \<Rightarrow> string list" where
  "plugin_list reg = sort (map fst reg)"

section \<open>Plugin tools (tool.rs)\<close>

record 'w PluginTool =
  pt_spec :: DeferredToolSpec
  pt_plugin :: "'w Plugin"
  pt_name :: string
  pt_inner :: "'w Tool option"

definition plugin_tool_new :: "'w Plugin \<Rightarrow> DeferredToolSpec \<Rightarrow> 'w PluginTool" where
  "plugin_tool_new p spec = \<lparr>pt_spec = spec, pt_plugin = p, pt_name = ds_name spec, pt_inner = None\<rparr>"

definition plugin_tool_try_new :: "'w Plugin \<Rightarrow> DeferredToolSpec \<Rightarrow> PluginError + 'w PluginTool" where
  "plugin_tool_try_new p spec =
     (if \<not> list_ex (\<lambda>s. ds_name s = ds_name spec) (pl_tools p) then Inl (ToolNotDeclared (ds_name spec))
      else Inr (plugin_tool_new p spec))"

definition plugin_to_tool_error :: "PluginError \<Rightarrow> ToolError" where
  "plugin_to_tool_error e = \<lparr>te_message = plugin_error_display e\<rparr>"

definition plugin_execute ::
    "string \<Rightarrow> json \<Rightarrow> bool \<Rightarrow> 'w PluginTool \<Rightarrow> 'w \<Rightarrow> (ToolError + 'w tool_run) \<times> 'w PluginTool \<times> 'w" where
  "plugin_execute tool_call_id args cancelled pt w =
     (case pt_inner pt of
        Some t \<Rightarrow> (Inr (tl_execute t tool_call_id args cancelled), pt, w)
      | None \<Rightarrow>
          (case pl_instantiate (pt_plugin pt) (pt_name pt) w of
             (Inl e, w') \<Rightarrow> (Inl (plugin_to_tool_error e), pt, w')
           | (Inr t, w') \<Rightarrow> (Inr (tl_execute t tool_call_id args cancelled), pt\<lparr>pt_inner := Some t\<rparr>, w')))"

text \<open>\<open>PluginRegistry::tools\<close>.\<close>

definition plugin_tools :: "'w Plugin hash_table \<Rightarrow> 'w PluginTool list" where
  "plugin_tools reg = concat (map (\<lambda>(_, p). map (plugin_tool_new p) (pl_tools p)) (sort_key fst reg))"

section \<open>Agent plugins (agent.rs)\<close>

datatype AgentPluginError =
    DuplicateAgentPlugin string
  | AgentPluginNotFound string
  | BuildFailed string

record ('w, 'f) AgentPlugin =
  ap_id :: string
  ap_hooks :: "'w LifecycleHooks option"
  ap_agent_factory :: "'f option"

type_synonym ('w, 'f) agent_table = "('w, 'f) AgentPlugin hash_table"

definition agent_register ::
    "('w, 'f) AgentPlugin \<Rightarrow> ('w, 'f) agent_table \<Rightarrow> (AgentPluginError + unit) \<times> ('w, 'f) agent_table" where
  "agent_register p reg =
     (if ap_id p \<in> fst ` set reg then (Inl (DuplicateAgentPlugin (ap_id p)), reg)
      else (Inr (), (ap_id p, p) # reg))"

definition agent_unregister ::
    "string \<Rightarrow> ('w, 'f) agent_table \<Rightarrow> ('w, 'f) AgentPlugin option \<times> ('w, 'f) agent_table" where
  "agent_unregister i reg = (map_of reg i, filter (\<lambda>e. fst e \<noteq> i) reg)"

definition agent_get :: "('w, 'f) agent_table \<Rightarrow> string \<Rightarrow> ('w, 'f) AgentPlugin option" where
  "agent_get reg i = map_of reg i"

definition agent_list :: "('w, 'f) agent_table \<Rightarrow> string list" where
  "agent_list reg = sort (map fst reg)"

definition registry_hooks :: "('w, 'f) agent_table \<Rightarrow> 'w LifecycleHooks option" where
  "registry_hooks reg =
     (let entries = List.map_filter (\<lambda>p. map_option (Pair (ap_id p)) (ap_hooks p)) (map snd reg) in
      if entries = [] then None else Some (merged_hooks entries))"

definition registry_factory :: "('w, 'f) agent_table \<Rightarrow> string \<Rightarrow> 'f option" where
  "registry_factory reg i = Option.bind (map_of reg i) ap_agent_factory"

section \<open>The interface of a registry\<close>

datatype 'p registry_op = Register 'p | Unregister string

text \<open>What a registry promises: a map from ids, in which a registered plugin is not replaced.\<close>

fun spec_op :: "('p \<Rightarrow> string) \<Rightarrow> 'p registry_op \<Rightarrow> (string \<rightharpoonup> 'p) \<Rightarrow> (string \<rightharpoonup> 'p)" where
  "spec_op key (Register p) m = (case m (key p) of None \<Rightarrow> m(key p \<mapsto> p) | Some _ \<Rightarrow> m)"
| "spec_op key (Unregister i) m = m(i := None)"

locale keyed_registry =
  fixes key :: "'p \<Rightarrow> string"
    and register :: "'p \<Rightarrow> 'r \<Rightarrow> ('e + unit) \<times> 'r"
    and unregister :: "string \<Rightarrow> 'r \<Rightarrow> 'p option \<times> 'r"
    and get :: "'r \<Rightarrow> string \<Rightarrow> 'p option"
    and ids :: "'r \<Rightarrow> string list"
    and inv :: "'r \<Rightarrow> bool"
    and empty :: 'r
  assumes inv_empty: "inv empty" and get_empty: "get empty = Map.empty"
    and inv_register: "inv r \<Longrightarrow> inv (snd (register p r))"
    and inv_unregister: "inv r \<Longrightarrow> inv (snd (unregister i r))"
    and get_register: "inv r \<Longrightarrow> get (snd (register p r)) = spec_op key (Register p) (get r)"
    and refused: "inv r \<Longrightarrow> (\<exists>e. fst (register p r) = Inl e) \<longleftrightarrow> get r (key p) \<noteq> None"
    and get_unregister: "inv r \<Longrightarrow> get (snd (unregister i r)) = spec_op key (Unregister i) (get r)"
    and removed: "inv r \<Longrightarrow> fst (unregister i r) = get r i"
    and ids_sorted: "inv r \<Longrightarrow> sorted_wrt (<) (ids r)"
    and ids_dom: "inv r \<Longrightarrow> set (ids r) = dom (get r)"
begin

definition run_op :: "'p registry_op \<Rightarrow> 'r \<Rightarrow> 'r" where
  "run_op op r = (case op of Register p \<Rightarrow> snd (register p r) | Unregister i \<Rightarrow> snd (unregister i r))"

lemma run_op_ok: "inv r \<Longrightarrow> inv (run_op op r) \<and> get (run_op op r) = spec_op key op (get r)"
  by (cases op) (simp_all add: run_op_def inv_register inv_unregister get_register get_unregister)

lemma history: "inv r \<Longrightarrow> inv (fold run_op ops r) \<and> get (fold run_op ops r) = fold (spec_op key) ops (get r)"
  by (induction ops arbitrary: r) (simp_all add: run_op_ok)

lemma history_new:
  "get (fold run_op ops empty) = fold (spec_op key) ops Map.empty
   \<and> set (ids (fold run_op ops empty)) = dom (fold (spec_op key) ops Map.empty)
   \<and> sorted_wrt (<) (ids (fold run_op ops empty))"
  using history [OF inv_empty, of ops] ids_dom ids_sorted get_empty by simp

end

definition table_keys :: "('p \<Rightarrow> string) \<Rightarrow> 'p hash_table \<Rightarrow> bool" where
  "table_keys key reg \<longleftrightarrow> distinct (map fst reg) \<and> (\<forall>(i, p) \<in> set reg. key p = i)"

lemma map_of_unregister: "map_of (filter (\<lambda>e. fst e \<noteq> i) reg) = (map_of reg)(i := None)"
  by (induction reg) auto

lemma sorted_ids:
  assumes "distinct (map fst (reg :: 'p hash_table))"
  shows "sorted_wrt (<) (sort (map fst reg))" "set (sort (map fst reg)) = dom (map_of reg)"
  using assms by (simp_all add: strict_sorted_iff dom_map_of_conv_image_fst)

lemma table_keys_filter: "table_keys key reg \<Longrightarrow> table_keys key (filter (\<lambda>e. fst e \<noteq> i) reg)"
  by (auto simp: table_keys_def distinct_map_filter)

lemma register_none: "i \<in> fst ` set reg \<longleftrightarrow> map_of reg i \<noteq> None"
  by (simp add: map_of_eq_None_iff)

interpretation plugins: keyed_registry pl_id plugin_register plugin_unregister plugin_get plugin_list
  "table_keys pl_id" "[]"
proof unfold_locales
  fix r :: "'a Plugin hash_table" and p i
  assume inv: "table_keys pl_id r"
  show "table_keys pl_id (snd (plugin_register p r))"
    using inv by (auto simp: table_keys_def plugin_register_def)
  show "table_keys pl_id (snd (plugin_unregister i r))"
    using table_keys_filter [OF inv] by (simp add: plugin_unregister_def)
  show "plugin_get (snd (plugin_register p r)) = spec_op pl_id (Register p) (plugin_get r)"
    "(\<exists>e. fst (plugin_register p r) = Inl e) \<longleftrightarrow> plugin_get r (pl_id p) \<noteq> None"
    using register_none [of "pl_id p" r] by (auto simp: plugin_register_def plugin_get_def fun_eq_iff split: option.splits)
  show "plugin_get (snd (plugin_unregister i r)) = spec_op pl_id (Unregister i) (plugin_get r)"
    "fst (plugin_unregister i r) = plugin_get r i"
    by (auto simp: plugin_unregister_def plugin_get_def fun_eq_iff map_of_unregister)
  show "sorted_wrt (<) (plugin_list r)" "set (plugin_list r) = dom (plugin_get r)"
    using sorted_ids [of r] inv by (simp_all add: plugin_list_def plugin_get_def [abs_def] table_keys_def)
qed (simp_all add: table_keys_def plugin_get_def [abs_def])

interpretation agents: keyed_registry ap_id agent_register agent_unregister agent_get agent_list
  "table_keys ap_id" "[]"
proof unfold_locales
  fix r :: "('a, 'b) agent_table" and p i
  assume inv: "table_keys ap_id r"
  show "table_keys ap_id (snd (agent_register p r))"
    using inv by (auto simp: table_keys_def agent_register_def)
  show "table_keys ap_id (snd (agent_unregister i r))"
    using table_keys_filter [OF inv] by (simp add: agent_unregister_def)
  show "agent_get (snd (agent_register p r)) = spec_op ap_id (Register p) (agent_get r)"
    "(\<exists>e. fst (agent_register p r) = Inl e) \<longleftrightarrow> agent_get r (ap_id p) \<noteq> None"
    using register_none [of "ap_id p" r] by (auto simp: agent_register_def agent_get_def fun_eq_iff split: option.splits)
  show "agent_get (snd (agent_unregister i r)) = spec_op ap_id (Unregister i) (agent_get r)"
    "fst (agent_unregister i r) = agent_get r i"
    by (auto simp: agent_unregister_def agent_get_def fun_eq_iff map_of_unregister)
  show "sorted_wrt (<) (agent_list r)" "set (agent_list r) = dom (agent_get r)"
    using sorted_ids [of r] inv by (simp_all add: agent_list_def agent_get_def [abs_def] table_keys_def)
qed (simp_all add: table_keys_def agent_get_def [abs_def])

section \<open>Histories\<close>

definition plugin_op :: "'w Plugin registry_op \<Rightarrow> 'w Plugin hash_table \<Rightarrow> 'w Plugin hash_table" where
  "plugin_op op reg =
     (case op of Register p \<Rightarrow> snd (plugin_register p reg) | Unregister i \<Rightarrow> snd (plugin_unregister i reg))"

definition agent_op :: "('w, 'f) AgentPlugin registry_op \<Rightarrow> ('w, 'f) agent_table \<Rightarrow> ('w, 'f) agent_table" where
  "agent_op op reg =
     (case op of Register p \<Rightarrow> snd (agent_register p reg) | Unregister i \<Rightarrow> snd (agent_unregister i reg))"

lemma run_ops: "plugins.run_op = plugin_op" "agents.run_op = agent_op"
  by (simp_all add: fun_eq_iff plugins.run_op_def agents.run_op_def plugin_op_def agent_op_def)

lemma plugin_history:
  "table_keys pl_id (fold plugin_op ops []) \<and> map_of (fold plugin_op ops []) = fold (spec_op pl_id) ops Map.empty"
  using plugins.history [OF plugins.inv_empty, of ops] by (simp add: run_ops plugin_get_def [abs_def])

lemma agent_history:
  "table_keys ap_id (fold agent_op ops []) \<and> map_of (fold agent_op ops []) = fold (spec_op ap_id) ops Map.empty"
  using agents.history [OF agents.inv_empty, of ops] by (simp add: run_ops agent_get_def [abs_def])

text \<open>Whatever order an iteration meets the entries in, sorting them gives the ids with their plugins.\<close>

lemma sorted_entries:
  fixes reg :: "'p hash_table"
  assumes "distinct (map fst reg)" "mset reg' = mset reg"
  shows "sort_key fst reg' = map (\<lambda>i. (i, the (map_of reg i))) (sorted_list_of_set (dom (map_of reg)))"
    "sort (map fst reg') = sorted_list_of_set (dom (map_of reg))"
proof -
  have e: "sort_key fst reg' = sort_key fst reg" using distinct_keys_sort [OF assms(2) [symmetric] assms(1)] by simp
  have "mset (map fst reg') = mset (map fst reg)" using assms(2) by simp
  then have "sort (map fst reg') = sort (map fst reg)"
    by (intro properties_for_sort) (simp_all)
  also have "\<dots> = sorted_list_of_set (set (map fst reg))"
    using assms(1) by (metis distinct_remdups_id sorted_list_of_set_sort_remdups)
  finally show s: "sort (map fst reg') = sorted_list_of_set (dom (map_of reg))"
    by (simp add: dom_map_of_conv_image_fst)
  have "map fst (sort_key fst reg') = sorted_list_of_set (dom (map_of reg))"
    unfolding s [symmetric] by (intro properties_for_sort [symmetric]) (simp_all only: mset_map mset_sort sorted_sort_key)
  moreover have "sort_key fst reg' = map (\<lambda>i. (i, the (map_of reg i))) (map fst (sort_key fst reg'))"
    using assms(1) unfolding e by (auto intro!: map_idI [symmetric] simp: comp_def)
  ultimately show "sort_key fst reg' = map (\<lambda>i. (i, the (map_of reg i))) (sorted_list_of_set (dom (map_of reg)))"
    by simp
qed

text \<open>
  The tool registry is a map in which the first plugin registered under an id stays until
  it is unregistered.  After any history of registrations and removals, and in whatever order
  the hash table hands out its entries, the ids are listed in order and the assembled tools
  are those of each plugin in the order of the ids and of their declaration, none of them
  instantiated.
\<close>

theorem assembled_tools:
  assumes "mset reg = mset (fold plugin_op ops [])"
  shows "(let m = fold (spec_op pl_id) ops Map.empty; is = sorted_list_of_set (dom m) in
      plugin_list reg = is
      \<and> plugin_tools reg = concat (map (\<lambda>i. map (plugin_tool_new (the (m i))) (pl_tools (the (m i)))) is)
      \<and> (\<forall>t \<in> set (plugin_tools reg). pt_inner t = None))"
proof -
  have "distinct (map fst (fold plugin_op ops []))" using plugin_history [of ops] by (simp add: table_keys_def)
  note s = sorted_entries [OF this assms]
  have "plugin_list reg = sorted_list_of_set (dom (fold (spec_op pl_id) ops Map.empty))"
    using s(2) plugin_history [of ops] by (simp add: plugin_list_def)
  moreover have "plugin_tools reg = concat (map (\<lambda>i. let p = the (fold (spec_op pl_id) ops Map.empty i) in
      map (plugin_tool_new p) (pl_tools p)) (sorted_list_of_set (dom (fold (spec_op pl_id) ops Map.empty))))"
    using s(1) plugin_history [of ops] by (simp add: plugin_tools_def comp_def Let_def)
  moreover have "\<forall>t \<in> set (plugin_tools reg). pt_inner t = None"
    by (auto simp: plugin_tools_def plugin_tool_new_def)
  ultimately show ?thesis by (simp add: Let_def)
qed

lemma registry_hooks_order:
  assumes "mset reg = mset (fold agent_op ops [])"
  shows "registry_hooks reg = registry_hooks (fold agent_op ops [])"
proof -
  let ?f = "\<lambda>p. map_option (Pair (ap_id p)) (ap_hooks p)" and ?r = "fold agent_op ops []"
  have m: "mset (List.map_filter ?f (map snd reg)) = mset (List.map_filter ?f (map snd ?r))"
    using assms by (simp add: List.map_filter_def flip: mset_map mset_filter) (simp add: mset_filter mset_map)
  have keys: "map fst (List.map_filter ?f (map snd xs)) = map fst (filter (\<lambda>e. ap_hooks (snd e) \<noteq> None) xs)"
    if "\<forall>(i, p) \<in> set xs. ap_id p = i" for xs
    using that by (induction xs) (auto simp: List.map_filter_simps split: option.splits)
  have "\<forall>(i, p) \<in> set ?r. ap_id p = i" "distinct (map fst ?r)"
    using agent_history [of ops] unfolding table_keys_def by blast+
  then have "distinct (map fst (List.map_filter ?f (map snd ?r)))"
    unfolding keys [OF \<open>\<forall>(i, p) \<in> set ?r. ap_id p = i\<close>] by (intro distinct_map_filter)
  then have "merged_hooks (List.map_filter ?f (map snd reg)) = merged_hooks (List.map_filter ?f (map snd ?r))"
    using distinct_keys_sort [OF m [symmetric]] by (simp add: merged_hooks_def merged_new_def)
  moreover have "List.map_filter ?f (map snd reg) = [] \<longleftrightarrow> List.map_filter ?f (map snd ?r) = []"
    using mset_eq_length [OF m] by (simp only: length_0_conv [symmetric])
  ultimately show ?thesis by (simp add: registry_hooks_def Let_def)
qed

section \<open>Lazy execution\<close>

text \<open>A call, and the world it finds.\<close>

type_synonym 'w tool_call_at = "string \<times> json \<times> bool \<times> 'w"

fun plugin_calls :: "'w tool_call_at list \<Rightarrow> 'w PluginTool \<Rightarrow> (ToolError + 'w tool_run) list" where
  "plugin_calls [] pt = []"
| "plugin_calls ((i, args, cancelled, w) # cs) pt =
     (case plugin_execute i args cancelled pt w of (r, pt', _) \<Rightarrow> r # plugin_calls cs pt')"

definition run_with :: "'w Tool \<Rightarrow> 'w tool_call_at \<Rightarrow> ToolError + 'w tool_run" where
  "run_with t c = (case c of (i, args, cancelled, _) \<Rightarrow> Inr (tl_execute t i args cancelled))"

definition attempt :: "'w Plugin \<Rightarrow> DeferredToolSpec \<Rightarrow> 'w tool_call_at \<Rightarrow> PluginError + 'w Tool" where
  "attempt p spec c = (case c of (_, _, _, w) \<Rightarrow> fst (pl_instantiate p (ds_name spec) w))"

lemma plugin_calls_built:
  "pt_inner pt = Some t \<Longrightarrow> plugin_calls cs pt = map (run_with t) cs"
  by (induction cs pt rule: plugin_calls.induct) (auto simp: plugin_execute_def run_with_def)

text \<open>
  A plugin tool is instantiated once.  Calls fail with the error of their own attempt
  until an attempt succeeds; a failure is not remembered, so the next call tries again.  From
  the first success on, every call runs that tool, and the plugin is not asked again.
\<close>

theorem plugin_tool_once:
  "plugin_calls cs (plugin_tool_new p spec) =
     (let failing = takeWhile (\<lambda>c. isl (attempt p spec c)) cs;
          rest = dropWhile (\<lambda>c. isl (attempt p spec c)) cs in
      map (\<lambda>c. Inl (plugin_to_tool_error (projl (attempt p spec c)))) failing
      @ (case rest of [] \<Rightarrow> [] | c # _ \<Rightarrow> map (run_with (projr (attempt p spec c))) rest))"
proof (induction cs)
  case (Cons c cs)
  obtain i args cancelled w where c: "c = (i, args, cancelled, w)" by (cases c)
  obtain r w' where r: "pl_instantiate p (ds_name spec) w = (r, w')" by force
  show ?case
  proof (cases r)
    case (Inl e)
    then show ?thesis using Cons.IH by (simp add: c r attempt_def plugin_execute_def plugin_tool_new_def Let_def)
  next
    case (Inr t)
    then show ?thesis
      using plugin_calls_built [of "(plugin_tool_new p spec)\<lparr>pt_inner := Some t\<rparr>" t cs]
      by (simp add: c r attempt_def plugin_execute_def plugin_tool_new_def run_with_def)
  qed
qed simp

text \<open>The tool a deferred tool runs, after any number of calls, is the one its factory built first.\<close>

fun deferred_calls :: "'w tool_call_at list \<Rightarrow> 'w DeferredTool \<Rightarrow> 'w tool_run list" where
  "deferred_calls [] d = []"
| "deferred_calls ((i, args, cancelled, w) # cs) d =
     (case deferred_execute i args cancelled d w of (r, d', _) \<Rightarrow> r # deferred_calls cs d')"

lemma deferred_calls_built:
  "df_inner d = Some t \<Longrightarrow> deferred_calls cs d = map (\<lambda>(i, args, cancelled, _). tl_execute t i args cancelled) cs"
  by (induction cs d rule: deferred_calls.induct) (auto simp: deferred_execute_def)

lemma deferred_once:
  "deferred_calls ((i, args, cancelled, w) # cs) (deferred_new spec factory) =
     map (\<lambda>(i, args, cancelled, _). tl_execute (fst (factory w)) i args cancelled) ((i, args, cancelled, w) # cs)"
proof -
  obtain t w' where t: "factory w = (t, w')" by force
  then show ?thesis
    using deferred_calls_built [of "(deferred_new spec factory)\<lparr>df_inner := Some t\<rparr>" t cs]
    by (simp add: deferred_execute_def deferred_new_def)
qed

lemma deferred_ready_same: "deferred_calls cs (deferred_ready t) = map (\<lambda>(i, args, cancelled, _). tl_execute t i args cancelled) cs"
  using deferred_once [where factory = "\<lambda>w. (t, w)" and spec = "from_tool t"]
  by (cases cs) (auto simp: deferred_ready_def deferred_new_def)

definition demo_plugin :: "string \<Rightarrow> string list \<Rightarrow> nat Plugin" where
  "demo_plugin i names =
     \<lparr>pl_id = i,
      pl_tools = map (\<lambda>n. \<lparr>ds_name = n, ds_description = [], ds_parameters = None, ds_resource_scope = ReadOnly\<rparr>) names,
      pl_instantiate = (\<lambda>n w. (Inl (ToolNotDeclared n), Suc w))\<rparr>"

lemma assembled_tools_witness:
  "plugin_list [(''a'', demo_plugin ''a'' [''y'']), (''b'', demo_plugin ''b'' [''x'', ''z''])] = [''a'', ''b'']
   \<and> map pt_name (plugin_tools [(''a'', demo_plugin ''a'' [''y'']), (''b'', demo_plugin ''b'' [''x'', ''z''])]) = [''y'', ''x'', ''z'']"
proof -
  let ?ops = "[Register (demo_plugin ''a'' [''y'']), Register (demo_plugin ''b'' [''x'', ''z'']),
      Register (demo_plugin ''a'' [''q''])]"
  let ?m = "[''a'' \<mapsto> demo_plugin ''a'' [''y''], ''b'' \<mapsto> demo_plugin ''b'' [''x'', ''z'']]"
  have m: "fold (spec_op pl_id) ?ops Map.empty = ?m" by (simp add: demo_plugin_def)
  have "sorted_list_of_set (dom ?m) = [''a'', ''b'']" by (simp add: insert_commute)
  moreover have "mset [(''a'', demo_plugin ''a'' [''y'']), (''b'', demo_plugin ''b'' [''x'', ''z''])] = mset (fold plugin_op ?ops [])"
    by (simp add: plugin_op_def plugin_register_def demo_plugin_def)
  ultimately show ?thesis
    using assembled_tools [of "[(''a'', demo_plugin ''a'' [''y'']), (''b'', demo_plugin ''b'' [''x'', ''z''])]" ?ops]
    unfolding m by (simp add: Let_def demo_plugin_def plugin_tool_new_def)
qed

end
