(* ===== verification/Acp_Rpc.thy ===== *)
theory Acp_Rpc
  imports Transport
begin

text \<open>
  The messages of the Agent Client Protocol: JSON-RPC (\<open>acp/jsonrpc.rs\<close>), the wire types
  (\<open>acp/types.rs\<close>), the mapping of events (\<open>acp/mapping.rs\<close>), permission modes
  (\<open>acp/mod.rs\<close>) and the file tool that works through the client (\<open>acp/fs_tool.rs\<close>).  A JSON
  object is the list of its members.
\<close>

section \<open>Errors (mod.rs)\<close>

datatype AcpError =
    AcpJsonRpc string
  | UnsupportedMethod string
  | AcpServer ServerError
  | AcpIo string
  | AcpSerde string

fun acp_error_text :: "AcpError \<Rightarrow> string" where
  "acp_error_text (AcpJsonRpc e) = ''json-rpc error: '' @ e"
| "acp_error_text (UnsupportedMethod m) = ''unsupported method: '' @ m"
| "acp_error_text (AcpServer e) = ''server error: '' @ server_error_text e"
| "acp_error_text (AcpIo e) = ''io error: '' @ e"
| "acp_error_text (AcpSerde e) = ''serialize error: '' @ e"

section \<open>JSON-RPC (jsonrpc.rs)\<close>

record JsonRpcErrorObj =
  jo_code :: int
  jo_message :: string
  jo_data :: "json option"

text \<open>\<open>Value::as_i64\<close> and \<open>Value::from(i64)\<close>.\<close>

fun as_i64 :: "json \<Rightarrow> int option" where
  "as_i64 (JNumber (PosInt n)) = (if unat n < 2 ^ 63 then Some (int (unat n)) else None)"
| "as_i64 (JNumber (NegInt i)) = Some i"
| "as_i64 _ = None"

definition from_i64 :: "int \<Rightarrow> json" where
  "from_i64 i = JNumber (if 0 \<le> i then PosInt (of_int i) else NegInt i)"

datatype RequestId = IdNumber int | IdString string

definition request_id_from_value :: "json \<Rightarrow> RequestId option" where
  "request_id_from_value v =
     (case as_i64 v of Some n \<Rightarrow> Some (IdNumber n) | None \<Rightarrow> map_option IdString (as_str v))"

fun request_id_to_value :: "RequestId \<Rightarrow> json" where
  "request_id_to_value (IdNumber n) = from_i64 n"
| "request_id_to_value (IdString s) = JString s"

record InboundMessage =
  in_jsonrpc :: "string option"
  in_id :: "json option"
  in_method :: "string option"
  in_params :: "json option"
  in_result :: "json option"
  in_error :: "JsonRpcErrorObj option"

text \<open>
  What \<open>derive(Deserialize)\<close> makes of the members of an object: an optional field is \<open>None\<close>
  when its member is missing or \<open>null\<close>, also where the field would hold any value.
\<close>

definition opt_value :: "(string \<times> json) list \<Rightarrow> string \<Rightarrow> json option" where
  "opt_value kvs k = (case map_of kvs k of Some v \<Rightarrow> if is_null v then None else Some v | None \<Rightarrow> None)"

definition opt_field :: "(json \<Rightarrow> 'a option) \<Rightarrow> (string \<times> json) list \<Rightarrow> string \<Rightarrow> 'a option option" where
  "opt_field read kvs k =
     (case opt_value kvs k of None \<Rightarrow> Some None | Some v \<Rightarrow> map_option Some (read v))"

fun rpc_error_of_value :: "json \<Rightarrow> JsonRpcErrorObj option" where
  "rpc_error_of_value (JObject kvs) =
     (case (Option.bind (map_of kvs ''code'') as_i64, Option.bind (map_of kvs ''message'') as_str) of
        (Some code, Some message) \<Rightarrow> Some \<lparr>jo_code = code, jo_message = message, jo_data = opt_value kvs ''data''\<rparr>
      | _ \<Rightarrow> None)"
| "rpc_error_of_value _ = None"

definition inbound_of_members :: "(string \<times> json) list \<Rightarrow> InboundMessage option" where
  "inbound_of_members kvs =
     (case (opt_field as_str kvs ''jsonrpc'', opt_field as_str kvs ''method'', opt_field rpc_error_of_value kvs ''error'') of
        (Some version, Some method, Some error) \<Rightarrow>
          Some \<lparr>in_jsonrpc = version, in_id = opt_value kvs ''id'', in_method = method,
                in_params = opt_value kvs ''params'', in_result = opt_value kvs ''result'', in_error = error\<rparr>
      | _ \<Rightarrow> None)"

record OutboundMessage =
  out_jsonrpc :: string
  out_id :: "json option"
  out_method :: "string option"
  out_params :: "json option"
  out_result :: "json option"
  out_error :: "JsonRpcErrorObj option"

definition outbound_result :: "json \<Rightarrow> json \<Rightarrow> OutboundMessage" where
  "outbound_result i result =
     \<lparr>out_jsonrpc = ''2.0'', out_id = Some i, out_method = None, out_params = None, out_result = Some result,
      out_error = None\<rparr>"

definition outbound_error :: "json \<Rightarrow> int \<Rightarrow> string \<Rightarrow> OutboundMessage" where
  "outbound_error i code message =
     \<lparr>out_jsonrpc = ''2.0'', out_id = Some i, out_method = None, out_params = None, out_result = None,
      out_error = Some \<lparr>jo_code = code, jo_message = message, jo_data = None\<rparr>\<rparr>"

definition outbound_request :: "RequestId \<Rightarrow> string \<Rightarrow> json \<Rightarrow> OutboundMessage" where
  "outbound_request i method params =
     \<lparr>out_jsonrpc = ''2.0'', out_id = Some (request_id_to_value i), out_method = Some method, out_params = Some params,
      out_result = None, out_error = None\<rparr>"

definition outbound_notification :: "string \<Rightarrow> json \<Rightarrow> OutboundMessage" where
  "outbound_notification method params =
     \<lparr>out_jsonrpc = ''2.0'', out_id = None, out_method = Some method, out_params = Some params, out_result = None,
      out_error = None\<rparr>"

text \<open>What \<open>derive(Serialize)\<close> writes: the fields that are \<open>None\<close> are skipped, a \<open>null\<close> value is not.\<close>

definition put :: "string \<Rightarrow> json option \<Rightarrow> (string \<times> json) list" where
  "put k v = (case v of None \<Rightarrow> [] | Some j \<Rightarrow> [(k, j)])"

definition rpc_error_members :: "JsonRpcErrorObj \<Rightarrow> (string \<times> json) list" where
  "rpc_error_members e =
     [(''code'', from_i64 (jo_code e)), (''message'', JString (jo_message e))] @ put ''data'' (jo_data e)"

definition outbound_members :: "OutboundMessage \<Rightarrow> (string \<times> json) list" where
  "outbound_members m =
     [(''jsonrpc'', JString (out_jsonrpc m))] @ put ''id'' (out_id m) @ put ''method'' (map_option JString (out_method m))
     @ put ''params'' (out_params m) @ put ''result'' (out_result m)
     @ put ''error'' (map_option (JObject \<circ> rpc_error_members) (out_error m))"

datatype InboundKind =
    KRequest json string json
  | KNotification string json
  | KResponse RequestId "AcpError + json"

definition quote :: string where
  "quote = [CHR 0x22]"

definition classify_inbound :: "InboundMessage \<Rightarrow> (json \<times> int \<times> string) + InboundKind" where
  "classify_inbound msg =
     (case in_jsonrpc msg of
        None \<Rightarrow> Inl (JNull, - 32600, ''missing jsonrpc version (expected '' @ quote @ ''2.0'' @ quote @ '')'')
      | Some v \<Rightarrow>
          if v \<noteq> ''2.0''
          then Inl (JNull, - 32600, ''invalid jsonrpc version: '' @ v @ '' (expected '' @ quote @ ''2.0'' @ quote @ '')'')
          else
            (let has_result = in_result msg \<noteq> None;
                 has_error = in_error msg \<noteq> None;
                 id_or_null = (case in_id msg of Some i \<Rightarrow> i | None \<Rightarrow> JNull) in
             case in_method msg of
               Some method \<Rightarrow>
                 if has_result \<or> has_error
                 then Inl (id_or_null, - 32600, ''invalid request: both method and result/error present'')
                 else
                   (let params = (case in_params msg of Some p \<Rightarrow> p | None \<Rightarrow> JNull) in
                    case in_id msg of
                      Some i \<Rightarrow> Inr (KRequest i method params)
                    | None \<Rightarrow> Inr (KNotification method params))
             | None \<Rightarrow>
                 if has_result \<and> has_error
                 then Inl (id_or_null, - 32600, ''invalid response: both result and error present'')
                 else if \<not> has_result \<and> \<not> has_error
                 then Inl (id_or_null, - 32600, ''invalid response: missing result and error'')
                 else
                   (case Option.bind (in_id msg) request_id_from_value of
                      None \<Rightarrow> Inl (JNull, - 32600, ''invalid response: missing or invalid id'')
                    | Some i \<Rightarrow>
                        Inr (KResponse i
                          (case in_result msg of
                             Some result \<Rightarrow> Inr result
                           | None \<Rightarrow>
                               (case in_error msg of
                                  Some e \<Rightarrow> Inl (AcpJsonRpc (jo_message e))
                                | None \<Rightarrow> Inr JNull))))))"

text \<open>A message as the other side reads it.\<close>

definition read_outbound :: "OutboundMessage \<Rightarrow> ((json \<times> int \<times> string) + InboundKind) option" where
  "read_outbound m = map_option classify_inbound (inbound_of_members (outbound_members m))"

section \<open>Wire types (types.rs)\<close>

definition PROTOCOL_VERSION :: u64 where
  "PROTOCOL_VERSION = 1"

definition agent_capabilities :: json where
  "agent_capabilities =
     JObject [(''loadSession'', JBool True),
       (''promptCapabilities'', JObject [(''image'', JBool False), (''audio'', JBool False), (''embeddedContext'', JBool False)])]"

datatype AcpStopReason = EndTurn | MaxTokens | Refusal | Cancelled

fun acp_stop_serialize :: "AcpStopReason \<Rightarrow> string" where
  "acp_stop_serialize EndTurn = ''end_turn''"
| "acp_stop_serialize MaxTokens = ''max_tokens''"
| "acp_stop_serialize Refusal = ''refusal''"
| "acp_stop_serialize Cancelled = ''cancelled''"

datatype PermissionOutcome = Selected string | PermissionCancelled

fun permission_allowed :: "PermissionOutcome \<Rightarrow> bool" where
  "permission_allowed (Selected option_id) = (option_id = ''allow_once'' \<or> option_id = ''allow_always'')"
| "permission_allowed PermissionCancelled = False"

definition permission_from_value :: "json \<Rightarrow> PermissionOutcome" where
  "permission_from_value value =
     (let outcome = jget value ''outcome'' in
      if Option.bind outcome (\<lambda>x. get_str x ''outcome'') = Some ''selected''
      then Selected (case Option.bind outcome (\<lambda>x. get_str x ''optionId'') of Some i \<Rightarrow> i | None \<Rightarrow> [])
      else PermissionCancelled)"

section \<open>Permission modes (mod.rs)\<close>

datatype PermissionMode = ModeDefault | AcceptEdits | ModePlan | BypassPermissions | DontAsk | ModeAuto

fun requires_permission :: "PermissionMode \<Rightarrow> bool" where
  "requires_permission ModeDefault = True"
| "requires_permission ModePlan = True"
| "requires_permission _ = False"

definition from_mode_id :: "string \<Rightarrow> PermissionMode" where
  "from_mode_id i =
     (if i = ''default'' then ModeDefault
      else if i = ''acceptEdits'' then AcceptEdits
      else if i = ''plan'' then ModePlan
      else if i = ''bypassPermissions'' then BypassPermissions
      else if i = ''dontAsk'' then DontAsk
      else if i = ''auto'' then ModeAuto
      else ModeDefault)"

section \<open>Events and content (mapping.rs)\<close>

definition text_block :: "string \<Rightarrow> json" where
  "text_block text = JObject [(''type'', JString ''text''), (''text'', JString text)]"

definition tool_kind :: "string \<Rightarrow> string" where
  "tool_kind name =
     (if name = ''read'' then ''read''
      else if name = ''write'' \<or> name = ''edit'' then ''edit''
      else if name = ''bash'' then ''execute''
      else ''other'')"

fun result_block :: "ToolResultContent \<Rightarrow> json option" where
  "result_block (ResultText text) = Some (JObject [(''type'', JString ''content''), (''content'', text_block text)])"
| "result_block _ = None"

definition tool_result_to_content :: "ToolResult \<Rightarrow> json" where
  "tool_result_to_content result = JArray (List.map_filter result_block (tr_content result))"

fun map_event_to_update :: "AgentEvent \<Rightarrow> json option" where
  "map_event_to_update (MessageUpdate _ (TextDelta text)) =
     Some (JObject [(''sessionUpdate'', JString ''agent_message_chunk''), (''content'', text_block text)])"
| "map_event_to_update (MessageUpdate _ (ThinkingDelta thinking)) =
     Some (JObject [(''sessionUpdate'', JString ''agent_thought_chunk''), (''content'', text_block thinking)])"
| "map_event_to_update (ToolExecutionStart tool_call_id tool_name args) =
     Some (JObject [(''sessionUpdate'', JString ''tool_call''), (''toolCallId'', JString tool_call_id),
       (''title'', JString tool_name), (''kind'', JString (tool_kind tool_name)), (''status'', JString ''pending''),
       (''rawInput'', args)])"
| "map_event_to_update (ToolExecutionEnd tool_call_id _ result is_error) =
     Some (JObject [(''sessionUpdate'', JString ''tool_call_update''), (''toolCallId'', JString tool_call_id),
       (''status'', JString (if is_error then ''failed'' else ''completed'')), (''content'', tool_result_to_content result)])"
| "map_event_to_update _ = None"

fun acp_stop_reason :: "StopReason \<Rightarrow> AcpStopReason" where
  "acp_stop_reason StopCompleted = EndTurn"
| "acp_stop_reason StopLength = MaxTokens"
| "acp_stop_reason StopError = Refusal"
| "acp_stop_reason StopAborted = Cancelled"
| "acp_stop_reason StopPending = EndTurn"
| "acp_stop_reason (StopOther _) = EndTurn"

text \<open>A content block of a prompt; only text is accepted.\<close>

datatype ContentBlock = BlockText string

fun block_text :: "ContentBlock \<Rightarrow> string option" where
  "block_text (BlockText t) = Some t"

definition content_blocks_to_messages :: "ContentBlock list \<Rightarrow> Message list" where
  "content_blocks_to_messages blocks =
     (let content = List.map_filter (\<lambda>b. map_option UserText (block_text b)) blocks in
      if content = [] then [] else [User \<lparr>um_content = content, um_timestamp = 0\<rparr>])"

text \<open>\<open>serde_error\<close> is the text of the error of reading a text block.\<close>

fun parse_content_blocks :: "(json \<Rightarrow> string) \<Rightarrow> nat \<Rightarrow> json list \<Rightarrow> AcpError + ContentBlock list" where
  "parse_content_blocks serde_error i [] = Inr []"
| "parse_content_blocks serde_error i (b # bs) =
     (case get_str b ''type'' of
        None \<Rightarrow>
          Inl (AcpJsonRpc (''invalid content block at prompt['' @ show_nat i @ '']: missing or non-string '' @ [CHR 0x27] @ ''type'' @ [CHR 0x27]))
      | Some ty \<Rightarrow>
          if ty = ''text''
          then (case get_str b ''text'' of
                  None \<Rightarrow> Inl (AcpJsonRpc (''invalid text block at prompt['' @ show_nat i @ '']: '' @ serde_error b))
                | Some text \<Rightarrow>
                    (case parse_content_blocks serde_error (Suc i) bs of
                       Inl e \<Rightarrow> Inl e
                     | Inr rest \<Rightarrow> Inr (BlockText text # rest)))
          else Inl (AcpJsonRpc (''unsupported content type at prompt['' @ show_nat i @ '']: '' @ ty
                 @ '' (phase 1 supports text only)'')))"

section \<open>The file tool (fs\_tool.rs)\<close>

record FsArgs =
  fa_operation :: string
  fa_path :: string
  fa_content :: "string option"

type_synonym acp_call = "string \<times> json"

text \<open>The client: what it answers to a request.\<close>

type_synonym acp_client = "string \<Rightarrow> json \<Rightarrow> AcpError + json"

definition permission_params :: "string \<Rightarrow> string \<Rightarrow> FsArgs \<Rightarrow> json" where
  "permission_params session_id tool_call_id args =
     JObject [(''sessionId'', JString session_id),
       (''toolCall'', JObject [(''sessionUpdate'', JString ''tool_call_update''), (''toolCallId'', JString tool_call_id),
         (''title'', JString (fa_operation args @ '' '' @ fa_path args)),
         (''kind'', JString (if fa_operation args = ''read'' then ''read'' else ''edit'')), (''status'', JString ''pending'')]),
       (''options'', JArray
         [JObject [(''optionId'', JString ''allow_once''), (''name'', JString ''Allow once''), (''kind'', JString ''allow_once'')],
          JObject [(''optionId'', JString ''reject_once''), (''name'', JString ''Reject''), (''kind'', JString ''reject_once'')]])]"

definition path_details :: "FsArgs \<Rightarrow> json option" where
  "path_details args = Some (JObject [(''path'', JString (fa_path args))])"

text \<open>The operation itself, through the client.\<close>

definition fs_operation :: "acp_client \<Rightarrow> string \<Rightarrow> FsArgs \<Rightarrow> (ToolError + ToolResult) \<times> acp_call list" where
  "fs_operation client session_id args =
     (if fa_operation args = ''read'' then
        (let params = JObject [(''sessionId'', JString session_id), (''path'', JString (fa_path args))] in
         (case client ''fs/read_text_file'' params of
            Inl e \<Rightarrow> Inl \<lparr>te_message = acp_error_text e\<rparr>
          | Inr result \<Rightarrow>
              Inr \<lparr>tr_content = [ResultText (case get_str result ''content'' of Some c \<Rightarrow> c | None \<Rightarrow> [])],
                   tr_is_error = False, tr_details = path_details args\<rparr>,
          [(''fs/read_text_file'', params)]))
      else if fa_operation args = ''write'' then
        (case fa_content args of
           None \<Rightarrow> (Inl \<lparr>te_message = ''missing content for write''\<rparr>, [])
         | Some content \<Rightarrow>
             (let params = JObject [(''sessionId'', JString session_id), (''path'', JString (fa_path args)),
                (''content'', JString content)] in
              (case client ''fs/write_text_file'' params of
                 Inl e \<Rightarrow> Inl \<lparr>te_message = acp_error_text e\<rparr>
               | Inr _ \<Rightarrow> Inr \<lparr>tr_content = [ResultText ''ok''], tr_is_error = False, tr_details = path_details args\<rparr>,
               [(''fs/write_text_file'', params)])))
      else (Inl \<lparr>te_message = ''unknown operation: '' @ fa_operation args\<rparr>, []))"

definition request_permission ::
    "acp_client \<Rightarrow> string \<Rightarrow> string \<Rightarrow> FsArgs \<Rightarrow> (AcpError + PermissionOutcome) \<times> acp_call list" where
  "request_permission client session_id tool_call_id args =
     (let params = permission_params session_id tool_call_id args in
      (map_sum id permission_from_value (client ''session/request_permission'' params),
       [(''session/request_permission'', params)]))"

definition fs_execute ::
    "acp_client \<Rightarrow> string \<Rightarrow> PermissionMode \<Rightarrow> bool \<Rightarrow> string \<Rightarrow> FsArgs
     \<Rightarrow> (ToolError + ToolResult) \<times> acp_call list" where
  "fs_execute client session_id mode cancelled tool_call_id args =
     (if cancelled then (Inl \<lparr>te_message = ''cancelled: fs aborted before IO''\<rparr>, [])
      else if requires_permission mode then
        (case request_permission client session_id tool_call_id args of
           (Inl e, qs) \<Rightarrow> (Inl \<lparr>te_message = acp_error_text e\<rparr>, qs)
         | (Inr answer, qs) \<Rightarrow>
             if \<not> permission_allowed answer then (Inr (tool_result_error ''permission denied by client''), qs)
             else (case fs_operation client session_id args of (r, qs') \<Rightarrow> (r, qs @ qs')))
      else fs_operation client session_id args)"

section \<open>The reply to a prompt (handlers.rs)\<close>

text \<open>What \<open>recv\<close> gives, and whether the client takes the notification for it.\<close>

datatype prompt_item = PiEvent AgentEvent "AcpError option" | PiLagged | PiClosed

fun turn_stop :: "AgentEvent \<Rightarrow> StopReason option" where
  "turn_stop (TurnEnd message _) = am_stop_reason message"
| "turn_stop _ = None"

fun assistant_stop :: "Message \<Rightarrow> StopReason option" where
  "assistant_stop (Assistant a) = am_stop_reason a"
| "assistant_stop _ = None"

definition transcript_stop :: "Message list \<Rightarrow> StopReason option" where
  "transcript_stop messages = find_map assistant_stop (rev messages)"

definition prompt_stop :: "StopReason option \<Rightarrow> AcpStopReason" where
  "prompt_stop last_turn_stop = acp_stop_reason (case last_turn_stop of Some r \<Rightarrow> r | None \<Rightarrow> StopCompleted)"

record prompt_outcome =
  po_result :: "AcpError + AcpStopReason"
  po_updates :: "json list"
  po_abort :: bool

text \<open>One event after its notification: the reply, or the stop reason seen so far.\<close>

definition prompt_event :: "StopReason option \<Rightarrow> AgentEvent \<Rightarrow> AcpStopReason + StopReason option" where
  "prompt_event last_turn_stop event =
     (let last_turn_stop = (case turn_stop event of Some r \<Rightarrow> Some r | None \<Rightarrow> last_turn_stop) in
      case event of
        AgentEnd messages \<Rightarrow>
          Inl (prompt_stop (case last_turn_stop of Some r \<Rightarrow> Some r | None \<Rightarrow> transcript_stop messages))
      | _ \<Rightarrow> Inr last_turn_stop)"

text \<open>The loop of \<open>handle_prompt\<close>; \<open>None\<close>: it still waits.\<close>

fun prompt_loop :: "StopReason option \<Rightarrow> prompt_item list \<Rightarrow> prompt_outcome option" where
  "prompt_loop last_turn_stop [] = None"
| "prompt_loop last_turn_stop (PiLagged # items) = prompt_loop last_turn_stop items"
| "prompt_loop last_turn_stop (PiClosed # items) =
     Some \<lparr>po_result = Inr (prompt_stop last_turn_stop), po_updates = [], po_abort = False\<rparr>"
| "prompt_loop last_turn_stop (PiEvent event notify # items) =
     (case (map_event_to_update event, notify) of
        (Some update, Some e) \<Rightarrow> Some \<lparr>po_result = Inl e, po_updates = [], po_abort = True\<rparr>
      | (update, _) \<Rightarrow>
          (let updates = (case update of Some u \<Rightarrow> [u] | None \<Rightarrow> []) in
           case prompt_event last_turn_stop event of
             Inl reason \<Rightarrow> Some \<lparr>po_result = Inr reason, po_updates = updates, po_abort = False\<rparr>
           | Inr last_turn_stop \<Rightarrow>
               map_option (\<lambda>r. r\<lparr>po_updates := updates @ po_updates r\<rparr>) (prompt_loop last_turn_stop items)))"

section \<open>Theorems\<close>

fun valid_id :: "RequestId \<Rightarrow> bool" where
  "valid_id (IdNumber n) = (- (2 ^ 63) \<le> n \<and> n < 2 ^ 63)"
| "valid_id (IdString s) = True"

lemma i64_roundtrip: "- (2 ^ 63) \<le> n \<Longrightarrow> n < 2 ^ 63 \<Longrightarrow> as_i64 (from_i64 n) = Some n"
  by (auto simp: from_i64_def unsigned_of_int take_bit_int_eq_self nat_less_iff)

lemma id_roundtrip: "valid_id i \<Longrightarrow> request_id_from_value (request_id_to_value i) = Some i"
  by (cases i) (simp_all add: request_id_from_value_def i64_roundtrip)

lemma id_not_null: "\<not> is_null (request_id_to_value i)"
  by (cases i) (simp_all add: from_i64_def)

lemma id_not_JNull: "request_id_to_value i \<noteq> JNull"
  using id_not_null [of i] by auto

lemmas wire = read_outbound_def inbound_of_members_def outbound_members_def put_def opt_field_def opt_value_def
  classify_inbound_def id_not_null rpc_error_members_def

text \<open>
  C29: What one side writes the other reads as the same request, notification, result or error,
  with the same id, for every id a request can carry.  There is one exception: a result that
  is \<open>null\<close> is taken for a missing one and the reply is rejected.
\<close>

theorem rpc_roundtrip:
  assumes "valid_id i" "- (2 ^ 63) \<le> code" "code < 2 ^ 63"
  shows "read_outbound (outbound_request i method params) = Some (Inr (KRequest (request_id_to_value i) method params))
    \<and> read_outbound (outbound_notification method params) = Some (Inr (KNotification method params))
    \<and> read_outbound (outbound_error (request_id_to_value i) code e) = Some (Inr (KResponse i (Inl (AcpJsonRpc e))))
    \<and> read_outbound (outbound_result (request_id_to_value i) v) =
        Some (if v = JNull then Inl (request_id_to_value i, - 32600, ''invalid response: missing result and error'')
              else Inr (KResponse i (Inr v)))"
proof (intro conjI)
  have null: "is_null j \<longleftrightarrow> j = JNull" for j by (cases j) simp_all
  show "read_outbound (outbound_request i method params) = Some (Inr (KRequest (request_id_to_value i) method params))"
    "read_outbound (outbound_notification method params) = Some (Inr (KNotification method params))"
    by (auto simp: wire outbound_request_def outbound_notification_def null id_not_JNull)
  show "read_outbound (outbound_error (request_id_to_value i) code e) = Some (Inr (KResponse i (Inl (AcpJsonRpc e))))"
    using i64_roundtrip [OF assms(2,3)] id_roundtrip [OF assms(1)] by (simp add: wire outbound_error_def)
  show "read_outbound (outbound_result (request_id_to_value i) v) =
        Some (if v = JNull then Inl (request_id_to_value i, - 32600, ''invalid response: missing result and error'')
              else Inr (KResponse i (Inr v)))"
    using id_roundtrip [OF assms(1)] by (auto simp: wire outbound_result_def null id_not_JNull)
qed

lemma rpc_roundtrip_witness:
  "read_outbound (outbound_result (from_i64 7) JNull) =
     Some (Inl (from_i64 7, - 32600, ''invalid response: missing result and error''))
   \<and> read_outbound (outbound_result (from_i64 7) (JBool True)) = Some (Inr (KResponse (IdNumber 7) (Inr (JBool True))))"
  using rpc_roundtrip [of "IdNumber 7" 0 "[]" JNull "[]" JNull] rpc_roundtrip [of "IdNumber 7" 0 "[]" JNull "[]" "JBool True"]
  by simp

text \<open>
  C15: In the modes that ask, the file tool reads or writes only after the client has allowed this
  very call: every request it sends other than the question comes after an answer that selects
  one of the two options that allow.  A refused or failed question sends nothing else.
\<close>

theorem fs_asks_first:
  assumes "requires_permission mode" "(method, params) \<in> set (snd (fs_execute client sid mode cancelled tcid args))"
    "method \<noteq> ''session/request_permission''"
  shows "\<exists>answer. client ''session/request_permission'' (permission_params sid tcid args) = Inr answer
    \<and> permission_from_value answer \<in> {Selected ''allow_once'', Selected ''allow_always''}
    \<and> snd (fs_execute client sid mode cancelled tcid args) =
        (''session/request_permission'', permission_params sid tcid args) # snd (fs_operation client sid args)"
proof -
  have allowed: "permission_allowed out \<longleftrightarrow> out \<in> {Selected ''allow_once'', Selected ''allow_always''}" for out
    by (cases out) simp_all
  show ?thesis
    using assms
    by (cases "client ''session/request_permission'' (permission_params sid tcid args)")
      (auto simp: fs_execute_def request_permission_def Let_def allowed split: if_splits prod.splits)
qed

lemma fs_asks_first_witness:
  "(let client = (\<lambda>m p. if m = ''session/request_permission''
        then Inr (JObject [(''outcome'', JObject [(''outcome'', JString ''selected''), (''optionId'', JString ''allow_once'')])])
        else Inr JNull);
      args = \<lparr>fa_operation = ''write'', fa_path = ''/f'', fa_content = Some ''x''\<rparr> in
    map fst (snd (fs_execute client ''1'' ModeDefault False ''c'' args)) = [''session/request_permission'', ''fs/write_text_file''])"
proof -
  let ?client = "\<lambda>m p. if m = ''session/request_permission''
        then Inr (JObject [(''outcome'', JObject [(''outcome'', JString ''selected''), (''optionId'', JString ''allow_once'')])])
        else Inr JNull"
  let ?args = "\<lparr>fa_operation = ''write'', fa_path = ''/f'', fa_content = Some ''x''\<rparr>"
  let ?params = "JObject [(''sessionId'', JString ''1''), (''path'', JString ''/f''), (''content'', JString ''x'')]"
  have "(''fs/write_text_file'', ?params) \<in> set (snd (fs_execute ?client ''1'' ModeDefault False ''c'' ?args))"
    by (simp add: fs_execute_def request_permission_def permission_from_value_def get_str_def fs_operation_def)
  from fs_asks_first [OF _ this] show ?thesis by (simp add: fs_operation_def)
qed

definition item_event :: "prompt_item \<Rightarrow> AgentEvent option" where
  "item_event item = (case item of PiEvent event _ \<Rightarrow> Some event | _ \<Rightarrow> None)"

definition last_stop :: "StopReason option \<Rightarrow> AgentEvent list \<Rightarrow> StopReason option" where
  "last_stop start events = (case find_map turn_stop (rev events) of Some r \<Rightarrow> Some r | None \<Rightarrow> start)"

fun plain_item :: "prompt_item \<Rightarrow> bool" where
  "plain_item (PiEvent event notify) = (notify = None \<and> (\<forall>messages. event \<noteq> AgentEnd messages))"
| "plain_item PiLagged = True"
| "plain_item PiClosed = False"

lemma turn_stop_end: "turn_stop (AgentEnd ms) = None" "map_event_to_update (AgentEnd ms) = None"
  by simp_all

lemma last_stop_Cons:
  "last_stop start (event # events) =
     last_stop (case turn_stop event of Some r \<Rightarrow> Some r | None \<Rightarrow> start) events"
  by (simp add: last_stop_def find_map_append split: option.split)

lemma prompt_loop_plain:
  assumes "\<forall>messages. event \<noteq> AgentEnd messages"
  shows "prompt_loop start (PiEvent event None # items) =
     map_option (\<lambda>r. r\<lparr>po_updates := (case map_event_to_update event of Some u \<Rightarrow> [u] | None \<Rightarrow> []) @ po_updates r\<rparr>)
       (prompt_loop (case turn_stop event of Some r \<Rightarrow> Some r | None \<Rightarrow> start) items)"
  using assms by (cases event) (simp_all add: prompt_event_def split: option.split)

text \<open>
  The reply to a prompt.  If the client takes every notification, the prompt ends at the
  first \<open>AgentEnd\<close> it sees, and not before; the client has been sent the update of every event up
  to there, in order and without gaps other than what the channel skipped; the stop reason is
  that of the last turn that had one, else that of the last assistant message of the
  transcript, else a completed turn.
\<close>

theorem prompt_reply:
  assumes "list_all plain_item items"
  shows "prompt_loop start items = None
    \<and> prompt_loop start (items @ PiEvent (AgentEnd messages) notify # rest) =
        Some \<lparr>po_result = Inr (prompt_stop (case last_stop start (List.map_filter item_event items) of
                  Some r \<Rightarrow> Some r | None \<Rightarrow> transcript_stop messages)),
              po_updates = List.map_filter map_event_to_update (List.map_filter item_event items), po_abort = False\<rparr>"
  using assms
proof (induction items arbitrary: start)
  case Nil
  then show ?case by (simp add: prompt_event_def last_stop_def List.map_filter_simps split: option.split)
next
  case (Cons item items)
  note IH = Cons.IH
  show ?case
  proof (cases item)
    case (PiEvent event n)
    then have "n = None" "\<forall>messages. event \<noteq> AgentEnd messages" using Cons.prems by simp_all
    then show ?thesis
      using Cons.prems IH [of "case turn_stop event of Some r \<Rightarrow> Some r | None \<Rightarrow> start"]
      by (auto simp: PiEvent prompt_loop_plain item_event_def List.map_filter_simps last_stop_Cons
          simp del: prompt_loop.simps split: option.split)
  qed (use Cons.prems IH [of start] in \<open>simp_all add: item_event_def List.map_filter_simps\<close>)
qed

lemma prompt_reply_witness:
  "prompt_loop None [PiEvent AgentStart None, PiLagged, PiEvent (AgentEnd []) None, PiClosed] =
     Some \<lparr>po_result = Inr EndTurn, po_updates = [], po_abort = False\<rparr>"
  using prompt_reply [of "[PiEvent AgentStart None, PiLagged]" None "[]" None "[PiClosed]"]
  by (simp add: item_event_def List.map_filter_simps last_stop_def transcript_stop_def prompt_stop_def)

end
