(* ===== verification/Acp_Link.thy ===== *)
theory Acp_Link
  imports Acp_Rpc Remote_Client
begin

text \<open>
  Requests of the agent to its client: \<open>StdioClient\<close> (\<open>acp/stdio_client.rs\<close>) and
  \<open>SseAcpClient\<close> (\<open>acp/sse_client.rs\<close>), as sections that any number of tasks interleave with
  the arrival of responses and the end of the connection, and the registry of clients of the
  HTTP transport (\<open>acp/transport_sse.rs\<close>).  A link is one client handle with its part of the
  pending table.  Ids are natural numbers; the conversion to \<open>i64\<close> is checked as in the code.
\<close>

section \<open>A link\<close>

datatype link_kind = StdioLink | SseLink

record acp_link =
  lk_next :: nat
  lk_pending :: "nat set"
  lk_slot :: "nat \<Rightarrow> (AcpError + json) oneshot"
  lk_open :: bool
  lk_queued :: nat
  lk_ended :: bool
  lk_out :: "OutboundMessage list"
  lk_in :: "(RequestId \<times> (AcpError + json)) list"

definition link_new :: acp_link where
  "link_new =
     \<lparr>lk_next = 1, lk_pending = {}, lk_slot = (\<lambda>_. OsOpen), lk_open = True, lk_queued = 0, lk_ended = False,
      lk_out = [], lk_in = []\<rparr>"

definition SSE_CHANNEL_CAPACITY :: nat where
  "SSE_CHANNEL_CAPACITY = 256"

text \<open>The channel to the writer is unbounded for stdio and bounded for the event stream.\<close>

definition link_room :: "link_kind \<Rightarrow> acp_link \<Rightarrow> bool" where
  "link_room kind lk = (kind = StdioLink \<or> lk_queued lk < SSE_CHANNEL_CAPACITY)"

datatype send_outcome = Sent acp_link | SendClosed | SendBlocked

definition link_send :: "link_kind \<Rightarrow> OutboundMessage \<Rightarrow> acp_link \<Rightarrow> send_outcome" where
  "link_send kind msg lk =
     (if \<not> lk_open lk then SendClosed
      else if link_room kind lk then Sent (lk\<lparr>lk_queued := Suc (lk_queued lk), lk_out := lk_out lk @ [msg]\<rparr>)
      else SendBlocked)"

definition send_closed :: "link_kind \<Rightarrow> AcpError" where
  "send_closed kind =
     AcpJsonRpc (case kind of StdioLink \<Rightarrow> ''writer closed'' | SseLink \<Rightarrow> ''client disconnected'')"

definition request_cancelled :: AcpError where
  "request_cancelled = AcpJsonRpc ''request cancelled''"

definition request_timed_out :: AcpError where
  "request_timed_out = AcpIo (''agent'' @ [CHR 0xE2, CHR 0x86, CHR 0x92] @ ''client request timed out'')"

definition id_overflow :: AcpError where
  "id_overflow = AcpJsonRpc ''request id overflow: too many in-flight requests''"

definition connection_closed :: AcpError where
  "connection_closed = AcpJsonRpc ''connection closed''"

section \<open>Responses and the end of a connection\<close>

definition link_resolve :: "RequestId \<Rightarrow> AcpError + json \<Rightarrow> acp_link \<Rightarrow> acp_link" where
  "link_resolve i result lk =
     (let lk = lk\<lparr>lk_in := lk_in lk @ [(i, result)]\<rparr> in
      case i of
        IdString _ \<Rightarrow> lk
      | IdNumber n \<Rightarrow>
          if 0 \<le> n \<and> nat n \<in> lk_pending lk
          then lk\<lparr>lk_pending := lk_pending lk - {nat n}, lk_slot := (lk_slot lk)(nat n := OsSent result)\<rparr>
          else lk)"

definition cancel_all :: "acp_link \<Rightarrow> acp_link" where
  "cancel_all lk =
     lk\<lparr>lk_pending := {}, lk_slot := (\<lambda>n. if n \<in> lk_pending lk then OsSent (Inl connection_closed) else lk_slot lk n)\<rparr>"

section \<open>A request, section by section\<close>

datatype link_pc =
    LqIdle
  | LqStart string json
  | LqInsert nat string json
  | LqSend nat string json
  | LqFailed nat
  | LqAwait nat
  | LqExpired nat
  | LqResult "nat option" "AcpError + json"

fun link_caller_step :: "link_kind \<Rightarrow> bool \<Rightarrow> link_pc \<Rightarrow> acp_link \<Rightarrow> (link_pc \<times> acp_link) option" where
  "link_caller_step kind expired LqIdle lk = None"
| "link_caller_step kind expired (LqStart m p) lk =
     (let n = lk_next lk; lk = lk\<lparr>lk_next := Suc n\<rparr> in
      Some (if n < 2 ^ 63 then (LqInsert n m p, lk) else (LqResult None (Inl id_overflow), lk)))"
| "link_caller_step kind expired (LqInsert n m p) lk =
     Some (LqSend n m p, lk\<lparr>lk_pending := insert n (lk_pending lk)\<rparr>)"
| "link_caller_step kind expired (LqSend n m p) lk =
     (case link_send kind (outbound_request (IdNumber (int n)) m p) lk of
        Sent lk' \<Rightarrow> Some (LqAwait n, lk')
      | SendClosed \<Rightarrow> Some (LqFailed n, lk)
      | SendBlocked \<Rightarrow> None)"
| "link_caller_step kind expired (LqFailed n) lk =
     Some (LqResult (Some n) (Inl (send_closed kind)), lk\<lparr>lk_pending := lk_pending lk - {n}\<rparr>)"
| "link_caller_step kind expired (LqAwait n) lk =
     (case lk_slot lk n of
        OsSent r \<Rightarrow> Some (LqResult (Some n) r, lk)
      | OsDropped \<Rightarrow> Some (LqResult (Some n) (Inl request_cancelled), lk)
      | OsOpen \<Rightarrow> if kind = SseLink \<and> expired then Some (LqExpired n, lk) else None)"
| "link_caller_step kind expired (LqExpired n) lk =
     Some (LqResult (Some n) (Inl request_timed_out), lk\<lparr>lk_pending := lk_pending lk - {n}\<rparr>)"
| "link_caller_step kind expired (LqResult i r) lk = None"

text \<open>A notification or a response: \<open>None\<close> while the channel is full.\<close>

definition link_push :: "link_kind \<Rightarrow> OutboundMessage \<Rightarrow> acp_link \<Rightarrow> ((AcpError + unit) \<times> acp_link) option" where
  "link_push kind msg lk =
     (case link_send kind msg lk of
        Sent lk' \<Rightarrow> Some (Inr (), lk')
      | SendClosed \<Rightarrow> Some (Inl (send_closed kind), lk)
      | SendBlocked \<Rightarrow> None)"

type_synonym link_system = "(nat \<Rightarrow> link_pc) \<times> acp_link"

fun link_returned :: "link_pc \<Rightarrow> bool" where
  "link_returned LqIdle = True" | "link_returned (LqResult _ _) = True" | "link_returned _ = False"

text \<open>
  The tear-down of a stdio connection cancels the writer and then drains the table; the writer
  task drops its end of the channel when it is next run, before or after that.  The event
  stream is dropped first and the watchdog drains the client's entries after it.
\<close>

inductive link_step :: "link_kind \<Rightarrow> link_system \<Rightarrow> link_system \<Rightarrow> bool" for kind where
  call: "link_returned (pcs c) \<Longrightarrow> link_step kind (pcs, lk) (pcs(c := LqStart m p), lk)"
| caller: "link_caller_step kind expired (pcs c) lk = Some (pc', lk') \<Longrightarrow> link_step kind (pcs, lk) (pcs(c := pc'), lk')"
| push: "link_push kind msg lk = Some (r, lk') \<Longrightarrow> link_step kind (pcs, lk) (pcs, lk')"
| written: "0 < lk_queued lk \<Longrightarrow> link_step kind (pcs, lk) (pcs, lk\<lparr>lk_queued := lk_queued lk - 1\<rparr>)"
| response: "kind = SseLink \<or> \<not> lk_ended lk \<Longrightarrow> link_step kind (pcs, lk) (pcs, link_resolve i r lk)"
| channel_closed: "link_step kind (pcs, lk) (pcs, lk\<lparr>lk_open := False\<rparr>)"
| drained: "\<not> lk_ended lk \<Longrightarrow> kind = StdioLink \<or> \<not> lk_open lk \<Longrightarrow>
    link_step kind (pcs, lk) (pcs, (cancel_all lk)\<lparr>lk_ended := True\<rparr>)"

inductive link_reachable :: "link_kind \<Rightarrow> link_system \<Rightarrow> bool" for kind where
  start: "link_reachable kind (\<lambda>_. LqIdle, link_new)"
| step: "link_reachable kind s \<Longrightarrow> link_step kind s s' \<Longrightarrow> link_reachable kind s'"

section \<open>The invariant\<close>

fun link_id :: "link_pc \<Rightarrow> nat option" where
  "link_id (LqInsert n _ _) = Some n"
| "link_id (LqSend n _ _) = Some n"
| "link_id (LqFailed n) = Some n"
| "link_id (LqAwait n) = Some n"
| "link_id (LqExpired n) = Some n"
| "link_id (LqResult i _) = i"
| "link_id _ = None"

definition genuine :: "link_kind \<Rightarrow> nat \<Rightarrow> AcpError + json \<Rightarrow> acp_link \<Rightarrow> bool" where
  "genuine kind n r lk \<longleftrightarrow>
     (IdNumber (int n), r) \<in> set (lk_in lk)
     \<or> r \<in> {Inl connection_closed, Inl (send_closed kind), Inl request_timed_out}"

fun pc_local :: "link_kind \<Rightarrow> acp_link \<Rightarrow> link_pc \<Rightarrow> bool" where
  "pc_local kind lk (LqInsert n m p) = (n \<notin> lk_pending lk \<and> lk_slot lk n = OsOpen)"
| "pc_local kind lk (LqSend n m p) = (n \<in> lk_pending lk \<or> lk_slot lk n \<noteq> OsOpen)"
| "pc_local kind lk (LqAwait n) =
     ((n \<in> lk_pending lk \<or> lk_slot lk n \<noteq> OsOpen)
      \<and> (\<exists>m p. outbound_request (IdNumber (int n)) m p \<in> set (lk_out lk)))"
| "pc_local kind lk (LqResult (Some n) r) = genuine kind n r lk"
| "pc_local kind lk _ = True"

definition table_fine :: "link_kind \<Rightarrow> acp_link \<Rightarrow> bool" where
  "table_fine kind lk \<longleftrightarrow>
     (\<forall>n \<in> lk_pending lk. n < lk_next lk \<and> lk_slot lk n = OsOpen)
     \<and> (\<forall>n. lk_slot lk n \<noteq> OsOpen \<longrightarrow> n < lk_next lk \<and> (\<exists>r. lk_slot lk n = OsSent r \<and> genuine kind n r lk))
     \<and> (kind = SseLink \<longrightarrow> lk_ended lk \<longrightarrow> \<not> lk_open lk)"

text \<open>After the drain of an event stream only requests that are about to fail are pending.\<close>

fun about_to_fail :: "link_pc \<Rightarrow> nat option" where
  "about_to_fail (LqSend n _ _) = Some n" | "about_to_fail (LqFailed n) = Some n" | "about_to_fail (LqExpired n) = Some n"
| "about_to_fail _ = None"

definition link_inv :: "link_kind \<Rightarrow> link_system \<Rightarrow> bool" where
  "link_inv kind s \<longleftrightarrow>
     (case s of (pcs, lk) \<Rightarrow>
        table_fine kind lk
        \<and> (\<forall>c. pc_local kind lk (pcs c))
        \<and> (\<forall>c n. link_id (pcs c) = Some n \<longrightarrow> n < lk_next lk)
        \<and> (\<forall>c c' n. link_id (pcs c) = Some n \<longrightarrow> link_id (pcs c') = Some n \<longrightarrow> c = c')
        \<and> (kind = SseLink \<longrightarrow> lk_ended lk \<longrightarrow> (\<forall>n \<in> lk_pending lk. \<exists>c. about_to_fail (pcs c) = Some n)))"

lemma link_invD:
  assumes "link_inv kind (pcs, lk)"
  shows "table_fine kind lk" "pc_local kind lk (pcs c)" "link_id (pcs c) = Some n \<Longrightarrow> n < lk_next lk"
    "link_id (pcs c) = Some n \<Longrightarrow> link_id (pcs c') = Some n \<Longrightarrow> c = c'"
    "kind = SseLink \<Longrightarrow> lk_ended lk \<Longrightarrow> n \<in> lk_pending lk \<Longrightarrow> \<exists>c. about_to_fail (pcs c) = Some n"
  using assms unfolding link_inv_def by auto

lemma link_invI:
  assumes "table_fine kind lk" "\<And>c. pc_local kind lk (pcs c)" "\<And>c n. link_id (pcs c) = Some n \<Longrightarrow> n < lk_next lk"
    "\<And>c c' n. link_id (pcs c) = Some n \<Longrightarrow> link_id (pcs c') = Some n \<Longrightarrow> c = c'"
    "\<And>n. kind = SseLink \<Longrightarrow> lk_ended lk \<Longrightarrow> n \<in> lk_pending lk \<Longrightarrow> \<exists>c. about_to_fail (pcs c) = Some n"
  shows "link_inv kind (pcs, lk)"
  using assms unfolding link_inv_def by auto

text \<open>What one step may do to the table, seen from the other tasks.\<close>

definition link_grows :: "acp_link \<Rightarrow> acp_link \<Rightarrow> bool" where
  "link_grows lk lk' \<longleftrightarrow>
     lk_next lk \<le> lk_next lk' \<and> set (lk_in lk) \<subseteq> set (lk_in lk') \<and> set (lk_out lk) \<subseteq> set (lk_out lk')
     \<and> (\<forall>n. lk_slot lk n \<noteq> OsOpen \<longrightarrow> lk_slot lk' n = lk_slot lk n)"

lemma genuine_mono: "link_grows lk lk' \<Longrightarrow> genuine kind n r lk \<Longrightarrow> genuine kind n r lk'"
  by (auto simp: genuine_def link_grows_def)

text \<open>The other tasks keep their place when nothing they rely on is taken from them.\<close>

definition leaves_link :: "nat \<Rightarrow> acp_link \<Rightarrow> acp_link \<Rightarrow> bool" where
  "leaves_link n lk lk' \<longleftrightarrow>
     (n \<notin> lk_pending lk \<and> lk_slot lk n = OsOpen \<longrightarrow> n \<notin> lk_pending lk' \<and> lk_slot lk' n = OsOpen)
     \<and> (n \<in> lk_pending lk \<or> lk_slot lk n \<noteq> OsOpen \<longrightarrow> n \<in> lk_pending lk' \<or> lk_slot lk' n \<noteq> OsOpen)"

lemma pc_local_other:
  assumes "pc_local kind lk pc" "link_grows lk lk'" "\<And>n. link_id pc = Some n \<Longrightarrow> leaves_link n lk lk'"
  shows "pc_local kind lk' pc"
  using assms
proof (cases pc)
  case (LqResult i r)
  then show ?thesis using assms genuine_mono by (cases i) auto
qed (auto simp: leaves_link_def link_grows_def)

lemma table_fine_frame:
  assumes "table_fine kind lk" "lk_pending lk' \<subseteq> lk_pending lk" "lk_slot lk' = lk_slot lk" "link_grows lk lk'"
    "kind = SseLink \<Longrightarrow> lk_ended lk' \<Longrightarrow> \<not> lk_open lk'"
  shows "table_fine kind lk'"
  using assms genuine_mono [OF assms(4)] unfolding table_fine_def link_grows_def
  by (metis (no_types, lifting) order_less_le_trans subsetD)

lemma resolve_fine:
  assumes "table_fine kind lk"
  shows "table_fine kind (link_resolve i r lk)" "link_grows lk (link_resolve i r lk)" "leaves_link n lk (link_resolve i r lk)"
    "lk_pending (link_resolve i r lk) \<subseteq> lk_pending lk" "lk_ended (link_resolve i r lk) = lk_ended lk"
proof -
  show grows: "link_grows lk (link_resolve i r lk)"
    using assms by (auto simp: link_grows_def link_resolve_def Let_def table_fine_def split: RequestId.split)
  show "leaves_link n lk (link_resolve i r lk)"
    using assms by (auto simp: leaves_link_def link_resolve_def Let_def table_fine_def split: RequestId.split)
  show "lk_pending (link_resolve i r lk) \<subseteq> lk_pending lk" "lk_ended (link_resolve i r lk) = lk_ended lk"
    by (auto simp: link_resolve_def Let_def split: RequestId.split)
  show "table_fine kind (link_resolve i r lk)"
    using assms genuine_mono [OF grows]
    by (cases i) (auto simp: table_fine_def link_resolve_def Let_def genuine_def)
qed

lemma cancel_fine:
  assumes "table_fine kind lk" "kind = StdioLink \<or> \<not> lk_open lk"
  shows "table_fine kind ((cancel_all lk)\<lparr>lk_ended := True\<rparr>)" "link_grows lk ((cancel_all lk)\<lparr>lk_ended := True\<rparr>)"
    "leaves_link n lk ((cancel_all lk)\<lparr>lk_ended := True\<rparr>)"
  using assms by (auto simp: table_fine_def cancel_all_def link_grows_def leaves_link_def genuine_def)

text \<open>Steps in which no task moves.\<close>

lemma link_inv_env:
  assumes "link_inv kind (pcs, lk)" "table_fine kind lk'" "link_grows lk lk'" "\<And>n. leaves_link n lk lk'"
    "kind = SseLink \<Longrightarrow> lk_ended lk' \<Longrightarrow> lk_ended lk \<and> lk_pending lk' \<subseteq> lk_pending lk \<or> lk_pending lk' = {}"
  shows "link_inv kind (pcs, lk')"
proof (rule link_invI)
  note i = link_invD [OF assms(1)]
  show "pc_local kind lk' (pcs c)" for c using pc_local_other [OF i(2) assms(3,4)] .
  show "n < lk_next lk'" if "link_id (pcs c) = Some n" for c n
    using i(3) [OF that] assms(3) by (simp add: link_grows_def)
  show "\<exists>c. about_to_fail (pcs c) = Some n" if "kind = SseLink" "lk_ended lk'" "n \<in> lk_pending lk'" for n
    using i(5) assms(5) that by blast
qed (use assms(2) link_invD(4) [OF assms(1)] in blast)+

text \<open>A step of one task.\<close>

lemma link_inv_caller:
  assumes "link_inv kind (pcs, lk)" "table_fine kind lk'" "link_grows lk lk'" "pc_local kind lk' pc'"
    "\<And>n. link_id (pcs c) \<noteq> Some n \<Longrightarrow> link_id pc' \<noteq> Some n \<Longrightarrow> n < lk_next lk \<Longrightarrow> leaves_link n lk lk'"
    "link_id pc' = None \<or> link_id pc' = link_id (pcs c) \<or> link_id pc' = Some (lk_next lk) \<and> lk_next lk < lk_next lk'"
    "lk_ended lk' = lk_ended lk"
    "kind = SseLink \<Longrightarrow> lk_ended lk \<Longrightarrow>
      \<forall>n \<in> lk_pending lk'. about_to_fail pc' = Some n \<or> n \<in> lk_pending lk \<and> about_to_fail (pcs c) \<noteq> Some n"
  shows "link_inv kind (pcs(c := pc'), lk')"
proof (rule link_invI)
  note i = link_invD [OF assms(1)]
  have ids: "n < lk_next lk'" if "link_id pc' = Some n" for n
    using assms(3,6) i(3) [of c n] that by (auto simp: link_grows_def)
  have fresh: "link_id (pcs c') \<noteq> Some n" if "link_id pc' = Some n" "c' \<noteq> c" for c' n
  proof
    assume n: "link_id (pcs c') = Some n"
    have "link_id (pcs c) \<noteq> Some n" using i(4) [OF n, of c] that(2) by blast
    moreover have "n \<noteq> lk_next lk" using i(3) [OF n] by simp
    ultimately show False using assms(6) that(1) by simp
  qed
  show "pc_local kind lk' ((pcs(c := pc')) c')" for c'
  proof (cases "c' = c")
    case False
    have "leaves_link n lk lk'" if n: "link_id (pcs c') = Some n" for n
    proof (rule assms(5))
      show "link_id (pcs c) \<noteq> Some n" using i(4) [OF n, of c] False by auto
      show "link_id pc' \<noteq> Some n" using fresh [of n c'] n False by auto
      show "n < lk_next lk" using i(3) [OF n] .
    qed
    then show ?thesis using pc_local_other [OF i(2) assms(3)] False by simp
  qed (use assms(4) in simp)
  show "n < lk_next lk'" if "link_id ((pcs(c := pc')) c') = Some n" for c' n
    using that ids i(3) [of c' n] assms(3) by (auto simp: link_grows_def split: if_splits)
  show "c1 = c2" if "link_id ((pcs(c := pc')) c1) = Some n" "link_id ((pcs(c := pc')) c2) = Some n" for c1 c2 n
    using that fresh i(4) by (metis fun_upd_other fun_upd_same)
  show "\<exists>c'. about_to_fail ((pcs(c := pc')) c') = Some n" if "kind = SseLink" "lk_ended lk'" "n \<in> lk_pending lk'" for n
    using that assms(7,8) i(5) [OF that(1), of n] by (metis fun_upd_other fun_upd_same)
qed (use assms(2) in simp)

lemmas link_frames = link_grows_def leaves_link_def table_fine_def

lemma link_inv_pushed:
  assumes "link_inv kind (pcs, lk)"
  shows "link_inv kind (pcs, lk\<lparr>lk_queued := q, lk_out := lk_out lk @ ms\<rparr>)"
  using link_invD(1) [OF assms] by (intro link_inv_env [OF assms]) (auto simp: link_frames genuine_def)

lemma caller_inv:
  assumes "link_inv kind (pcs, lk)" "link_caller_step kind expired (pcs c) lk = Some (pc', lk')"
  shows "link_inv kind (pcs(c := pc'), lk')"
proof -
  note i = link_invD [OF assms(1)]
  have fine: "table_fine kind lk" and loc: "pc_local kind lk (pcs c)" using i by blast+
  have no_drop: "lk_slot lk n \<noteq> OsDropped" for n
    using fine unfolding table_fine_def by (metis oneshot.distinct(3,5))
  show ?thesis
  proof (cases "pcs c")
    case (LqStart m p)
    then have "lk' = lk\<lparr>lk_next := Suc (lk_next lk)\<rparr>"
      "pc' = LqInsert (lk_next lk) m p \<or> pc' = LqResult None (Inl id_overflow)"
      using assms(2) by (auto simp: Let_def split: if_splits)
    moreover have "lk_next lk \<notin> lk_pending lk \<and> lk_slot lk (lk_next lk) = OsOpen"
      using fine unfolding table_fine_def by blast
    ultimately show ?thesis
      using fine LqStart i(5)
      by (intro link_inv_caller [OF assms(1)]) (auto simp: link_frames genuine_def less_Suc_eq)
  next
    case (LqInsert n m p)
    then show ?thesis
      using assms(2) fine loc i(3) [of c n]
      by (intro link_inv_caller [OF assms(1)]) (auto simp: link_frames genuine_def)
  next
    case (LqSend n m p)
    consider "\<not> lk_open lk" "pc' = LqFailed n" "lk' = lk"
      | "lk_open lk" "pc' = LqAwait n" "lk' = lk\<lparr>lk_queued := Suc (lk_queued lk), lk_out := lk_out lk @ [outbound_request (IdNumber (int n)) m p]\<rparr>"
      using assms(2) LqSend by (auto simp: link_send_def split: if_splits)
    then show ?thesis
    proof cases
      case 1
      then show ?thesis
        using fine LqSend i(5) by (intro link_inv_caller [OF assms(1)]) (auto simp: link_frames genuine_def)
    next
      case 2
      then show ?thesis
        using fine LqSend loc by (intro link_inv_caller [OF assms(1)]) (auto simp: link_frames genuine_def)
    qed
  next
    case (LqFailed n)
    then show ?thesis
      using assms(2) fine i(5)
      by (intro link_inv_caller [OF assms(1)]) (auto simp: link_frames genuine_def)
  next
    case (LqAwait n)
    consider r where "lk_slot lk n = OsSent r" "pc' = LqResult (Some n) r" "lk' = lk"
      | "lk_slot lk n = OsOpen" "pc' = LqExpired n" "lk' = lk"
      using assms(2) LqAwait no_drop [of n] by (auto split: oneshot.splits if_splits)
    then show ?thesis
    proof cases
      case (1 r)
      then have "genuine kind n r lk" using fine unfolding table_fine_def by (metis oneshot.distinct(1) oneshot.inject)
      then show ?thesis
        using 1 fine LqAwait i(5) by (intro link_inv_caller [OF assms(1)]) (auto simp: link_frames genuine_def)
    next
      case 2
      then show ?thesis
        using fine LqAwait i(5) by (intro link_inv_caller [OF assms(1)]) (auto simp: link_frames genuine_def)
    qed
  next
    case (LqExpired n)
    then show ?thesis
      using assms(2) fine i(5)
      by (intro link_inv_caller [OF assms(1)]) (auto simp: link_frames genuine_def)
  qed (use assms(2) in simp_all)
qed

lemma link_step_inv:
  assumes "link_inv kind s" "link_step kind s s'"
  shows "link_inv kind s'"
  using assms(2,1)
proof (induction rule: link_step.induct)
  case (call pcs c lk m p)
  then have "link_id (LqStart m p) = None" "about_to_fail (pcs c) = None" by (cases "pcs c"; simp)+
  then show ?case
    using link_invD(1,5) [OF call.prems]
    by (intro link_inv_caller [OF call.prems]) (auto simp: link_grows_def leaves_link_def)
next
  case (caller expired pcs c lk pc' lk')
  then show ?case using caller_inv by blast
next
  case (push msg lk r lk' pcs)
  then have "lk' = lk \<or> lk' = lk\<lparr>lk_queued := Suc (lk_queued lk), lk_out := lk_out lk @ [msg]\<rparr>"
    by (auto simp: link_push_def link_send_def split: if_splits)
  then show ?case using push.prems link_inv_pushed [OF push.prems, where q = "Suc (lk_queued lk)" and ms = "[msg]"] by auto
next
  case (written lk pcs)
  then show ?case using link_inv_pushed [OF written.prems, where q = "lk_queued lk - 1" and ms = "[]"] by simp
next
  case (response lk pcs i r)
  show ?case
    using resolve_fine [OF link_invD(1) [OF response.prems], where i = i and r = r]
    by (intro link_inv_env [OF response.prems]) auto
next
  case (channel_closed pcs lk)
  show ?case
    using link_invD(1) [OF channel_closed.prems]
    by (intro link_inv_env [OF channel_closed.prems]) (auto simp: link_frames genuine_def)
next
  case (drained lk pcs)
  show ?case
    using cancel_fine [OF link_invD(1) [OF drained.prems] drained.hyps(2)]
    by (intro link_inv_env [OF drained.prems]) (auto simp: cancel_all_def)
qed

lemma link_reachable_inv: "link_reachable kind s \<Longrightarrow> link_inv kind s"
proof (induction rule: link_reachable.induct)
  case start
  show ?case by (auto simp: link_inv_def link_new_def table_fine_def)
qed (rule link_step_inv)

section \<open>Theorems\<close>

text \<open>
  C14: A request to the client returns only what the client answered under its own id, or an
  error that says the connection or the time is over; no two requests in flight share an id,
  so an answer cannot reach the wrong one.  This holds under every interleaving of requests,
  answers, tear-down and time-outs.
\<close>

theorem acp_replies:
  assumes "link_reachable kind (pcs, lk)" "pcs c = LqResult (Some n) r"
  shows "((IdNumber (int n), r) \<in> set (lk_in lk)
      \<or> r \<in> {Inl connection_closed, Inl (send_closed kind), Inl request_timed_out})
    \<and> (\<forall>c'. link_id (pcs c') = Some n \<longrightarrow> c' = c)"
  using link_invD(2,4) [OF link_reachable_inv [OF assms(1)], of c] assms(2) by (auto simp: genuine_def)

text \<open>How many sections a request has left.\<close>

fun link_left :: "link_pc \<Rightarrow> nat" where
  "link_left (LqStart _ _) = 5" | "link_left (LqInsert _ _ _) = 4" | "link_left (LqSend _ _ _) = 3"
| "link_left (LqAwait _) = 2" | "link_left (LqFailed _) = 1" | "link_left (LqExpired _) = 1"
| "link_left _ = 0"

lemma gone_step:
  assumes "link_reachable SseLink (pcs, lk)" "lk_ended lk" "\<not> link_returned (pcs c)"
  shows "\<exists>pc' lk'. link_caller_step SseLink False (pcs c) lk = Some (pc', lk')
    \<and> link_left pc' < link_left (pcs c) \<and> link_left (pcs c) \<le> 5"
proof -
  note i = link_invD [OF link_reachable_inv [OF assms(1)]]
  have gone: "\<not> lk_open lk" using i(1) assms(2) by (simp add: table_fine_def)
  show ?thesis
  proof (cases "pcs c")
    case (LqAwait n)
    have "n \<notin> lk_pending lk"
    proof
      assume "n \<in> lk_pending lk"
      then obtain c' where c': "about_to_fail (pcs c') = Some n" using i(5) assms(2) by blast
      then have "link_id (pcs c') = Some n" by (cases "pcs c'") auto
      then have "c' = c" using i(4) [of c' n c] LqAwait by simp
      then show False using c' LqAwait by simp
    qed
    then have "lk_slot lk n \<noteq> OsOpen" using i(2) [of c] LqAwait by simp
    then show ?thesis using LqAwait by (cases "lk_slot lk n") simp_all
  qed (use assms(3) gone in \<open>auto simp: Let_def link_send_def\<close>)
qed

text \<open>
  Once the event stream of a client is gone and its entries are drained, every request to it,
  also one that starts later, returns within five of its own sections and without a time-out.
\<close>

theorem sse_gone_returns:
  assumes "link_reachable SseLink (pcs, lk)" "lk_ended lk" "\<not> link_returned (pcs c)"
  shows "\<exists>pc' lk'. link_caller_step SseLink False (pcs c) lk = Some (pc', lk')
    \<and> link_left pc' < link_left (pcs c) \<and> link_left (pcs c) \<le> 5"
  by (rule gone_step [OF assms])

text \<open>
  After the drain of a stdio link no slot is filled any more.  A task whose request has an open
  slot there gets no answer.
\<close>

definition lost :: "nat \<Rightarrow> link_system \<Rightarrow> bool" where
  "lost c s \<longleftrightarrow> lk_ended (snd s) \<and> (\<forall>n. link_id (fst s c) = Some n \<longrightarrow> lk_slot (snd s) n = OsOpen)"

lemma caller_keeps:
  "link_caller_step kind expired pc lk = Some (pc', lk') \<Longrightarrow> lk_slot lk' = lk_slot lk \<and> lk_ended lk' = lk_ended lk"
  by (cases pc) (auto simp: Let_def link_send_def split: if_splits oneshot.splits)

lemma caller_id:
  "link_caller_step StdioLink expired pc lk = Some (pc', lk') \<Longrightarrow> link_id pc' = Some n \<Longrightarrow>
    link_id pc = Some n \<or> n = lk_next lk"
  by (cases pc) (auto simp: Let_def link_send_def split: if_splits oneshot.splits)

lemma caller_waits: "lk_slot lk n = OsOpen \<Longrightarrow> link_caller_step StdioLink expired (LqAwait n) lk = None"
  by simp

lemma lost_step:
  assumes "link_step StdioLink s s'" "link_reachable StdioLink s" "lost c s"
  shows "lost c s' \<and> (\<forall>n. fst s c = LqAwait n \<longrightarrow> fst s' c = LqAwait n)"
  using assms
proof (induction rule: link_step.induct)
  case (call pcs d lk m p)
  then show ?case by (cases "c = d") (auto simp: lost_def)
next
  case (caller expired pcs d lk pc' lk')
  have "lk_slot lk (lk_next lk) = OsOpen"
    using link_invD(1) [OF link_reachable_inv [OF caller.prems(1)]] unfolding table_fine_def by blast
  then show ?case
    using caller caller_keeps [OF caller.hyps] caller_id [OF caller.hyps]
    by (cases "c = d") (auto simp: lost_def)
qed (auto simp: lost_def link_push_def link_send_def split: if_splits)

lemma lost_for_ever:
  assumes "(link_step StdioLink)\<^sup>*\<^sup>* s s'" "link_reachable StdioLink s" "lost c s"
  shows "link_reachable StdioLink s' \<and> lost c s' \<and> (\<forall>n. fst s c = LqAwait n \<longrightarrow> fst s' c = LqAwait n)"
  using assms
proof (induction rule: rtranclp_induct)
  case (step s' s'')
  then show ?case using lost_step [OF step.hyps(2)] link_reachable.step [OF _ step.hyps(2)] by blast
qed simp

text \<open>A request up to the send, and after it.\<close>

definition entered_request :: "acp_link \<Rightarrow> acp_link" where
  "entered_request lk = lk\<lparr>lk_next := Suc (lk_next lk), lk_pending := insert (lk_next lk) (lk_pending lk)\<rparr>"

definition sent_request :: "string \<Rightarrow> json \<Rightarrow> acp_link \<Rightarrow> acp_link" where
  "sent_request m p lk =
     (entered_request lk)\<lparr>lk_queued := Suc (lk_queued lk),
        lk_out := lk_out lk @ [outbound_request (IdNumber (int (lk_next lk))) m p]\<rparr>"

lemma request_entered:
  assumes "link_reachable kind (pcs, lk)" "link_returned (pcs c)" "lk_next lk < 2 ^ 63"
  shows "link_reachable kind (pcs(c := LqSend (lk_next lk) m p), entered_request lk)"
proof -
  let ?n = "lk_next lk"
  note go = link_reachable.step [where kind = kind] and caller = link_step.caller [where kind = kind and expired = False and c = c]
  have "link_reachable kind (pcs(c := LqStart m p), lk)"
    by (rule go [OF assms(1)]) (rule link_step.call [of pcs c, OF assms(2)])
  then have "link_reachable kind (pcs(c := LqStart m p, c := LqInsert ?n m p), lk\<lparr>lk_next := Suc ?n\<rparr>)"
    by (rule go) (rule caller, use assms(3) in \<open>simp add: Let_def\<close>)
  then have "link_reachable kind (pcs(c := LqStart m p, c := LqInsert ?n m p, c := LqSend ?n m p), entered_request lk)"
    by (rule go) (rule caller, simp add: entered_request_def)
  then show ?thesis by simp
qed

lemma request_sent:
  assumes "link_reachable kind (pcs, lk)" "link_returned (pcs c)" "lk_next lk < 2 ^ 63" "lk_open lk" "link_room kind lk"
  shows "link_reachable kind (pcs(c := LqAwait (lk_next lk)), sent_request m p lk)"
proof -
  have "link_step kind (pcs(c := LqSend (lk_next lk) m p), entered_request lk)
      (pcs(c := LqSend (lk_next lk) m p, c := LqAwait (lk_next lk)), sent_request m p lk)"
    by (rule link_step.caller [where expired = False])
      (use assms(4,5) in \<open>simp add: link_send_def link_room_def entered_request_def sent_request_def\<close>)
  then show ?thesis using link_reachable.step [OF request_entered [OF assms(1-3)]] by simp
qed

text \<open>
  C40: Over stdio this is not so.  Take any request that enters the table of a stdio link after
  the drain (its task has not inserted its entry yet when the drain is over).  If the channel to the
  writer accepts it, which it does until the writer task lets go of it, the task never gets an
  answer, nor an error: from the moment it waits, it waits for ever, whatever anybody does.
\<close>

theorem late_request_hangs:
  assumes "link_reachable StdioLink (pcs, lk)" "lk_ended lk"
    "pcs c = LqStart m p \<or> pcs c = LqInsert n0 m p"
    "(link_step StdioLink)\<^sup>*\<^sup>* (pcs, lk) (pcs', lk')" "pcs' c = LqAwait n"
    "(link_step StdioLink)\<^sup>*\<^sup>* (pcs', lk') s"
  shows "fst s c = LqAwait n"
proof -
  have "lost c (pcs, lk)"
    using link_invD(2) [OF link_reachable_inv [OF assms(1)], of c] assms(2,3) by (auto simp: lost_def)
  then have "link_reachable StdioLink (pcs', lk')" "lost c (pcs', lk')"
    using lost_for_ever [OF assms(4,1)] by blast+
  then show ?thesis using lost_for_ever [OF assms(6)] assms(5) by fastforce
qed

text \<open>
  The event stream is bounded, and a full one does not refuse a message: the sender waits for
  room, and the time-out does not cover that wait.
\<close>

lemma full_stream_reachable:
  assumes "k \<le> SSE_CHANNEL_CAPACITY"
  shows "link_reachable SseLink (\<lambda>_. LqIdle, link_new\<lparr>lk_queued := k, lk_out := replicate k msg\<rparr>)"
  using assms
proof (induction k)
  case 0
  have "link_new\<lparr>lk_queued := 0, lk_out := replicate 0 msg\<rparr> = link_new" by (simp add: link_new_def)
  then show ?case using link_reachable.start by simp
next
  case (Suc k)
  then have r: "link_reachable SseLink (\<lambda>_. LqIdle, link_new\<lparr>lk_queued := k, lk_out := replicate k msg\<rparr>)" by simp
  show ?case
    by (rule link_reachable.step [OF r], rule link_step.push [where msg = msg and r = "Inr ()"])
      (use Suc.prems in \<open>simp add: link_push_def link_send_def link_room_def link_new_def replicate_append_same\<close>)
qed

text \<open>
  A client that stays connected and does not read stops the agent.  With a full event stream
  a request neither fails nor times out; it waits until the client reads or goes away.
\<close>

theorem full_stream_blocks:
  "\<exists>pcs lk. link_reachable SseLink (pcs, lk) \<and> pcs 0 = LqSend 1 ''fs/read_text_file'' JNull
     \<and> (\<forall>expired. link_caller_step SseLink expired (pcs 0) lk = None)
     \<and> (\<forall>msg. link_push SseLink msg lk = None)"
proof -
  define l0 where "l0 = link_new\<lparr>lk_queued := SSE_CHANNEL_CAPACITY, lk_out := replicate SSE_CHANNEL_CAPACITY (outbound_notification [] JNull)\<rparr>"
  have "link_reachable SseLink (\<lambda>_. LqIdle, l0)" unfolding l0_def by (rule full_stream_reachable) simp
  then have "link_reachable SseLink ((\<lambda>_. LqIdle)(0 := LqSend 1 ''fs/read_text_file'' JNull), entered_request l0)"
    using request_entered [of SseLink "\<lambda>_. LqIdle" l0 0] by (simp add: l0_def link_new_def)
  then show ?thesis
    by (intro exI [of _ "(\<lambda>_. LqIdle)(0 := LqSend 1 ''fs/read_text_file'' JNull)"] exI [of _ "entered_request l0"])
      (simp add: l0_def link_new_def link_send_def link_room_def link_push_def entered_request_def)
qed

text \<open>One request, its answer, and the end of the connection.\<close>

lemma demo_sent: "link_reachable kind ((\<lambda>_. LqIdle)(0 := LqAwait 1), sent_request m p link_new)"
  using request_sent [of kind "\<lambda>_. LqIdle" link_new 0, OF link_reachable.start]
  by (simp add: link_new_def link_room_def SSE_CHANNEL_CAPACITY_def)

text \<open>A request entered in the window between the drain and the end of the channel.\<close>

lemma late_request_hangs_witness:
  "\<exists>pcs lk. link_reachable StdioLink (pcs, lk) \<and> lk_ended lk \<and> \<not> lk_open lk \<and> pcs 0 = LqAwait 1
     \<and> (\<forall>s. (link_step StdioLink)\<^sup>*\<^sup>* (pcs, lk) s \<longrightarrow> fst s 0 = LqAwait 1)"
proof -
  define l1 where "l1 = (cancel_all link_new)\<lparr>lk_ended := True\<rparr>"
  define l2 where "l2 = l1\<lparr>lk_next := 2\<rparr>"
  define l3 where "l3 = l2\<lparr>lk_pending := {1}\<rparr>"
  define l4 where "l4 = l3\<lparr>lk_queued := 1, lk_out := [outbound_request (IdNumber 1) [] JNull]\<rparr>"
  define l5 where "l5 = l4\<lparr>lk_open := False\<rparr>"
  define only where "only pc = (\<lambda>_ :: nat. LqIdle)(0 := pc)" for pc
  note d = l1_def l2_def l3_def l4_def l5_def link_new_def cancel_all_def
  have upd: "(only pc)(0 := pc') = only pc'" "only pc 0 = pc" for pc pc' by (simp_all add: only_def)
  have r1: "link_reachable StdioLink (\<lambda>_. LqIdle, l1)"
    unfolding l1_def by (rule link_reachable.step [OF link_reachable.start], rule link_step.drained) (simp_all add: link_new_def)
  have "link_step StdioLink (\<lambda>_. LqIdle, l1) (only (LqStart [] JNull), l1)"
    unfolding only_def by (rule link_step.call) simp
  then have r2: "link_reachable StdioLink (only (LqStart [] JNull), l1)" by (rule link_reachable.step [OF r1])
  have go: "link_caller_step StdioLink False pc lk = Some (pc', lk') \<Longrightarrow> link_step StdioLink (only pc, lk) (only pc', lk')"
    for pc lk pc' lk' using link_step.caller [of StdioLink False "only pc" 0 lk pc' lk'] by (simp add: upd)
  have "link_step StdioLink (only (LqStart [] JNull), l1) (only (LqInsert 1 [] JNull), l2)" by (rule go) (simp add: d Let_def)
  moreover have "link_step StdioLink (only (LqInsert 1 [] JNull), l2) (only (LqSend 1 [] JNull), l3)" by (rule go) (simp add: d)
  moreover have "link_step StdioLink (only (LqSend 1 [] JNull), l3) (only (LqAwait 1), l4)"
    by (rule go) (simp add: d link_send_def link_room_def)
  moreover have "link_step StdioLink (only (LqAwait 1), l4) (only (LqAwait 1), l5)"
    unfolding l5_def by (rule link_step.channel_closed)
  ultimately have run: "(link_step StdioLink)\<^sup>*\<^sup>* (only (LqStart [] JNull), l1) (only (LqAwait 1), l5)"
    by (meson converse_rtranclp_into_rtranclp rtranclp.rtrancl_refl)
  have "fst s 0 = LqAwait 1" if "(link_step StdioLink)\<^sup>*\<^sup>* (only (LqAwait 1), l5) s" for s
    by (rule late_request_hangs [OF r2 _ _ run _ that]) (simp_all add: d upd)
  moreover have "link_reachable StdioLink (only (LqAwait 1), l5)"
    using run r2 by (induction rule: rtranclp_induct) (auto intro: link_reachable.step)
  ultimately show ?thesis by (intro exI [of _ "only (LqAwait 1)"] exI [of _ l5]) (simp add: d upd)
qed

lemma acp_replies_witness:
  "\<exists>pcs lk. link_reachable StdioLink (pcs, lk) \<and> pcs 0 = LqResult (Some 1) (Inr (JBool True))
     \<and> (IdNumber 1, Inr (JBool True)) \<in> set (lk_in lk) \<and> (\<forall>c'. link_id (pcs c') = Some 1 \<longrightarrow> c' = 0)"
proof -
  define lk where "lk = link_resolve (IdNumber 1) (Inr (JBool True)) (sent_request [] JNull link_new)"
  define pcs where "pcs = (\<lambda>_ :: nat. LqIdle)(0 := LqResult (Some 1) (Inr (JBool True)))"
  have slot: "lk_slot lk 1 = OsSent (Inr (JBool True))"
    by (simp add: lk_def link_resolve_def sent_request_def entered_request_def link_new_def)
  have "link_reachable StdioLink ((\<lambda>_. LqIdle)(0 := LqAwait 1), lk)"
    unfolding lk_def by (rule link_reachable.step [OF demo_sent], rule link_step.response)
      (simp add: sent_request_def entered_request_def link_new_def)
  moreover have "link_step StdioLink ((\<lambda>_. LqIdle)(0 := LqAwait 1), lk)
      ((\<lambda>_. LqIdle)(0 := LqAwait 1, 0 := LqResult (Some 1) (Inr (JBool True))), lk)"
    by (rule link_step.caller [where expired = False]) (use slot in simp)
  ultimately have r: "link_reachable StdioLink (pcs, lk)"
    unfolding pcs_def fun_upd_upd by (rule link_reachable.step)
  have p: "pcs 0 = LqResult (Some 1) (Inr (JBool True))" by (simp add: pcs_def)
  note acp_replies [OF r p]
  then show ?thesis using r p by auto
qed

lemma sse_gone_returns_witness:
  "\<exists>pcs lk pc' lk'. pcs 0 = LqAwait 1 \<and> lk_ended lk \<and> link_caller_step SseLink False (pcs 0) lk = Some (pc', lk')
     \<and> link_left pc' < 2"
proof -
  let ?pcs = "(\<lambda>_. LqIdle)(0 := LqAwait 1)" and ?lk = "(sent_request [] JNull link_new)\<lparr>lk_open := False\<rparr>"
  have "link_reachable SseLink (?pcs, ?lk)"
    by (rule link_reachable.step [OF demo_sent], rule link_step.channel_closed)
  then have r: "link_reachable SseLink (?pcs, (cancel_all ?lk)\<lparr>lk_ended := True\<rparr>)"
    by (rule link_reachable.step, intro link_step.drained) (simp_all add: sent_request_def entered_request_def link_new_def)
  show ?thesis
    using sse_gone_returns [OF r, of 0]
    by (intro exI [of _ ?pcs] exI [of _ "(cancel_all ?lk)\<lparr>lk_ended := True\<rparr>"]) simp
qed

section \<open>Clients of the HTTP transport (transport\_sse.rs)\<close>

text \<open>
  A link for every client id that was handed out; the ids are the decimal numbers from 1.
\<close>

record SseTransport =
  st_links :: "string \<Rightarrow> acp_link"
  st_clients :: "string set"
  st_next_client_id :: nat

definition sse_transport_new :: SseTransport where
  "sse_transport_new = \<lparr>st_links = (\<lambda>_. link_new), st_clients = {}, st_next_client_id = 1\<rparr>"

definition allocate_client_id :: "SseTransport \<Rightarrow> string \<times> SseTransport" where
  "allocate_client_id st = (show_nat (st_next_client_id st), st\<lparr>st_next_client_id := Suc (st_next_client_id st)\<rparr>)"

definition register_client :: "string \<Rightarrow> acp_link \<Rightarrow> SseTransport \<Rightarrow> SseTransport" where
  "register_client i lk st = st\<lparr>st_links := (st_links st)(i := lk), st_clients := insert i (st_clients st)\<rparr>"

definition get_client :: "string \<Rightarrow> SseTransport \<Rightarrow> acp_link option" where
  "get_client i st = (if i \<in> st_clients st then Some (st_links st i) else None)"

definition remove_client :: "string \<Rightarrow> SseTransport \<Rightarrow> SseTransport" where
  "remove_client i st =
     st\<lparr>st_clients := st_clients st - {i}, st_links := (st_links st)(i := (cancel_all (st_links st i))\<lparr>lk_ended := True\<rparr>)\<rparr>"

definition resolve_client_pending :: "string \<Rightarrow> RequestId \<Rightarrow> AcpError + json \<Rightarrow> SseTransport \<Rightarrow> SseTransport" where
  "resolve_client_pending i rid result st =
     st\<lparr>st_links := (st_links st)(i := link_resolve rid result (st_links st i))\<rparr>"

text \<open>\<open>GET /sse\<close>: the id of the new client is the first event of its stream.\<close>

definition sse_handler :: "SseTransport \<Rightarrow> string \<times> SseTransport" where
  "sse_handler st = (case allocate_client_id st of (i, st') \<Rightarrow> (i, register_client i link_new st'))"

datatype http_status = Status202 | Status204 | Status400 json | Status404 json

datatype spawned = SpawnNothing | SpawnRequest string json string json | SpawnNotification string string json

definition message_handler :: "string option \<Rightarrow> InboundMessage \<Rightarrow> SseTransport \<Rightarrow> http_status \<times> spawned \<times> SseTransport" where
  "message_handler header msg st =
     (case header of
        None \<Rightarrow> (Status400 (JObject [(''error'', JString ''missing X-Client-Id header'')]), SpawnNothing, st)
      | Some client_id \<Rightarrow>
          (let unknown = (Status404 (JObject [(''error'', JString ''unknown client_id'')]), SpawnNothing, st) in
           case classify_inbound msg of
             Inr (KResponse i result) \<Rightarrow> (Status204, SpawnNothing, resolve_client_pending client_id i result st)
           | Inr (KRequest i method params) \<Rightarrow>
               (case get_client client_id st of
                  Some _ \<Rightarrow> (Status202, SpawnRequest client_id i method params, st)
                | None \<Rightarrow> unknown)
           | Inr (KNotification method params) \<Rightarrow>
               (case get_client client_id st of
                  Some _ \<Rightarrow> (Status202, SpawnNotification client_id method params, st)
                | None \<Rightarrow> unknown)
           | Inl (i, code, message) \<Rightarrow>
               (Status400 (JObject (outbound_members (outbound_error i code message))), SpawnNothing, st)))"

section \<open>Several clients\<close>

type_synonym sse_system = "(string \<Rightarrow> nat \<Rightarrow> link_pc) \<times> SseTransport"

text \<open>
  A link moves by itself except for answers and the drain, which come through the transport:
  the watchdog removes a client after its stream is gone.
\<close>

inductive sse_step :: "sse_system \<Rightarrow> sse_system \<Rightarrow> bool" where
  connect: "sse_handler st = (i, st') \<Longrightarrow> sse_step (pcs, st) (pcs, st')"
| post: "message_handler header msg st = (status, sp, st') \<Longrightarrow> sse_step (pcs, st) (pcs, st')"
| watchdog: "i \<in> st_clients st \<Longrightarrow> \<not> lk_open (st_links st i) \<Longrightarrow> sse_step (pcs, st) (pcs, remove_client i st)"
| link: "i \<in> show_nat ` {1..<st_next_client_id st} \<Longrightarrow> link_step SseLink (pcs i, st_links st i) (ps, lk) \<Longrightarrow>
    lk_in lk = lk_in (st_links st i) \<Longrightarrow> lk_ended lk = lk_ended (st_links st i) \<Longrightarrow>
    sse_step (pcs, st) (pcs(i := ps), st\<lparr>st_links := (st_links st)(i := lk)\<rparr>)"

inductive sse_reachable :: "sse_system \<Rightarrow> bool" where
  sse_start: "sse_reachable (\<lambda>_ _. LqIdle, sse_transport_new)"
| sse_next: "sse_reachable s \<Longrightarrow> sse_step s s' \<Longrightarrow> sse_reachable s'"

definition sse_inv :: "sse_system \<Rightarrow> bool" where
  "sse_inv s \<longleftrightarrow>
     (case s of (pcs, st) \<Rightarrow>
        1 \<le> st_next_client_id st
        \<and> st_clients st \<subseteq> show_nat ` {1..<st_next_client_id st}
        \<and> (\<forall>i. if i \<in> show_nat ` {1..<st_next_client_id st}
               then link_reachable SseLink (pcs i, st_links st i) \<and> (i \<in> st_clients st \<longleftrightarrow> \<not> lk_ended (st_links st i))
               else pcs i = (\<lambda>_. LqIdle)))"

lemma show_nat_digits: "show_nat n \<noteq> [] \<and> foldl (\<lambda>a c. a * 10 + (of_char c - 48)) 0 (show_nat n) = n"
proof (induction n rule: show_nat.induct)
  case (1 n)
  show ?case
  proof (cases "n < 10")
    case True
    then show ?thesis by (simp add: show_nat.simps [of n])
  next
    case False
    have "(of_char (char_of (48 + n mod 10)) :: nat) = 48 + n mod 10"
      by (simp add: take_bit_nat_eq_self)
    then show ?thesis using 1 False by (simp add: show_nat.simps [of n])
  qed
qed

lemma show_nat_inj: "show_nat m = show_nat n \<Longrightarrow> m = n"
  by (metis show_nat_digits)

definition handed_out :: "SseTransport \<Rightarrow> string set" where
  "handed_out st = show_nat ` {1..<st_next_client_id st}"

lemma sse_invD:
  assumes "sse_inv (pcs, st)"
  shows "1 \<le> st_next_client_id st" "st_clients st \<subseteq> handed_out st"
    "i \<in> handed_out st \<Longrightarrow> link_reachable SseLink (pcs i, st_links st i)"
    "i \<in> handed_out st \<Longrightarrow> i \<in> st_clients st \<longleftrightarrow> \<not> lk_ended (st_links st i)"
    "i \<notin> handed_out st \<Longrightarrow> pcs i = (\<lambda>_. LqIdle)"
  using assms unfolding sse_inv_def handed_out_def by (auto split: if_splits)

lemma sse_invI:
  assumes "1 \<le> st_next_client_id st" "st_clients st \<subseteq> handed_out st"
    "\<And>i. i \<in> handed_out st \<Longrightarrow>
      link_reachable SseLink (pcs i, st_links st i) \<and> (i \<in> st_clients st \<longleftrightarrow> \<not> lk_ended (st_links st i))"
    "\<And>i. i \<notin> handed_out st \<Longrightarrow> pcs i = (\<lambda>_. LqIdle)"
  shows "sse_inv (pcs, st)"
  using assms unfolding sse_inv_def handed_out_def by auto

lemma fresh_client: "show_nat (st_next_client_id st) \<notin> handed_out st"
  using show_nat_inj by (fastforce simp: handed_out_def)

lemma post_effect:
  assumes "message_handler header msg st = (status, sp, st')"
  shows "st' = st \<or> (\<exists>i rid r. header = Some i \<and> st' = resolve_client_pending i rid r st)"
  using assms unfolding message_handler_def Let_def
  by (auto split: option.splits sum.splits InboundKind.splits prod.splits)

lemma sse_step_inv: "sse_step s s' \<Longrightarrow> sse_inv s \<Longrightarrow> sse_inv s'"
proof (induction rule: sse_step.induct)
  case (connect st i st' pcs)
  note v = sse_invD [OF connect.prems]
  let ?i = "show_nat (st_next_client_id st)"
  have st': "st' = st\<lparr>st_next_client_id := Suc (st_next_client_id st), st_links := (st_links st)(?i := link_new),
      st_clients := insert ?i (st_clients st)\<rparr>"
    using connect.hyps by (auto simp: sse_handler_def allocate_client_id_def register_client_def)
  have out: "handed_out st' = insert ?i (handed_out st)"
    using v(1) by (simp add: handed_out_def st' atLeastLessThanSuc)
  have "\<not> lk_ended link_new" by (simp add: link_new_def)
  then show ?case
    using v link_reachable.start fresh_client [of st]
    by (intro sse_invI) (auto simp: out, auto simp: st' split: if_splits)
next
  case (post header msg st status sp st' pcs)
  note v = sse_invD [OF post.prems]
  consider "st' = st" | i rid r where "st' = resolve_client_pending i rid r st"
    using post_effect [OF post.hyps] by blast
  then show ?case
  proof cases
    case (2 i rid r)
    have out: "handed_out st' = handed_out st" by (simp add: 2 handed_out_def resolve_client_pending_def)
    have "link_reachable SseLink (pcs i, link_resolve rid r (st_links st i))" if "i \<in> handed_out st"
      by (rule link_reachable.step [OF v(3) [OF that]], rule link_step.response) simp
    moreover have "lk_ended (link_resolve rid r (st_links st i)) = lk_ended (st_links st i)"
      by (auto simp: link_resolve_def Let_def split: RequestId.split)
    ultimately show ?thesis
      using v by (intro sse_invI) (auto simp: out, auto simp: 2 resolve_client_pending_def split: if_splits)
  qed (use post.prems in simp)
next
  case (watchdog i st pcs)
  note v = sse_invD [OF watchdog.prems]
  have i: "i \<in> handed_out st" using watchdog.hyps(1) v(2) by blast
  have "link_reachable SseLink (pcs i, (cancel_all (st_links st i))\<lparr>lk_ended := True\<rparr>)"
    by (rule link_reachable.step [OF v(3) [OF i]], rule link_step.drained) (use watchdog.hyps v(4) [OF i] in simp_all)
  moreover have out: "handed_out (remove_client i st) = handed_out st" by (simp add: handed_out_def remove_client_def)
  ultimately show ?case
    using v by (intro sse_invI) (auto simp: out, auto simp: remove_client_def split: if_splits)
next
  case (link i st pcs ps lk)
  note v = sse_invD [OF link.prems]
  have i: "i \<in> handed_out st" using link.hyps(1) by (simp add: handed_out_def)
  have "link_reachable SseLink (ps, lk)" by (rule link_reachable.step [OF v(3) [OF i] link.hyps(2)])
  moreover have out: "handed_out (st\<lparr>st_links := (st_links st)(i := lk)\<rparr>) = handed_out st" by (simp add: handed_out_def)
  ultimately show ?case
    using v i link.hyps(4) by (intro sse_invI) (auto simp: out split: if_splits)
qed

lemma sse_reachable_inv: "sse_reachable s \<Longrightarrow> sse_inv s"
proof (induction rule: sse_reachable.induct)
  case sse_start
  show ?case by (rule sse_invI) (simp_all add: sse_transport_new_def handed_out_def)
next
  case (sse_next s s')
  then show ?case using sse_step_inv by blast
qed

text \<open>
  C28: Clients of the HTTP transport are isolated.  Whatever is posted, under whatever id, a request
  to one client returns only what was posted with that client's id under the request's own
  number, or an error; and a client that is gone no longer has a request waiting for it.
\<close>

theorem sse_clients_isolated:
  assumes "sse_reachable (pcs, st)" "pcs i c = LqResult (Some n) r"
    "message_handler (Some j) msg st = (status, sp, st')" "j \<noteq> i"
  shows "((IdNumber (int n), r) \<in> set (lk_in (st_links st i))
      \<or> r \<in> {Inl connection_closed, Inl (send_closed SseLink), Inl request_timed_out})
    \<and> st_links st' i = st_links st i
    \<and> (\<forall>c'. i \<notin> st_clients st \<and> \<not> link_returned (pcs i c') \<longrightarrow>
        link_caller_step SseLink False (pcs i c') (st_links st i) \<noteq> None)"
proof -
  note v = sse_invD [OF sse_reachable_inv [OF assms(1)]]
  have i: "i \<in> handed_out st" by (rule ccontr) (use v(5) [of i] assms(2) in simp)
  note link = link_reachable_inv [OF v(3) [OF i]]
  have "genuine SseLink n r (st_links st i)" using link_invD(2) [OF link, of c] assms(2) by simp
  moreover have "st_links st' i = st_links st i"
    using post_effect [OF assms(3)] assms(4) by (auto simp: resolve_client_pending_def)
  moreover have "link_caller_step SseLink False (pcs i c') (st_links st i) \<noteq> None"
    if "i \<notin> st_clients st" "\<not> link_returned (pcs i c')" for c'
    using gone_step [OF v(3) [OF i] _ that(2)] v(4) [OF i] that(1) by auto
  ultimately show ?thesis by (auto simp: genuine_def)
qed

definition one_client :: "acp_link \<Rightarrow> SseTransport" where
  "one_client lk = \<lparr>st_links = (\<lambda>_. link_new)(''1'' := lk), st_clients = {''1''}, st_next_client_id = 2\<rparr>"

definition one_link :: "(nat \<Rightarrow> link_pc) \<Rightarrow> acp_link \<Rightarrow> bool" where
  "one_link ps lk = sse_reachable ((\<lambda>_ _. LqIdle)(''1'' := ps), one_client lk)"

lemma show_one: "show_nat (Suc 0) = ''1''"
proof -
  have "char_of (49 :: nat) = CHR ''1''" by (simp add: char_of_def bit_Suc_0_iff)
  then show ?thesis by (simp add: show_nat.simps)
qed

lemma one_link_start: "one_link (\<lambda>_. LqIdle) link_new"
proof -
  have "sse_handler sse_transport_new = (''1'', one_client link_new)"
    by (simp add: sse_handler_def allocate_client_id_def register_client_def sse_transport_new_def one_client_def
        show_one)
  then have "sse_step (\<lambda>_ _. LqIdle, sse_transport_new) (\<lambda>_ _. LqIdle, one_client link_new)" by (rule sse_step.connect)
  then show ?thesis
    unfolding one_link_def using sse_reachable.sse_next [OF sse_reachable.sse_start] by (simp add: fun_upd_def)
qed

lemma one_link_go:
  assumes "one_link ps lk" "link_step SseLink (ps, lk) (ps', lk')" "lk_in lk' = lk_in lk" "lk_ended lk' = lk_ended lk"
  shows "one_link ps' lk'"
proof -
  have "''1'' \<in> show_nat ` {1..<st_next_client_id (one_client lk)}"
    by (rule image_eqI [of _ _ 1]) (simp_all add: one_client_def show_one)
  then have "sse_step ((\<lambda>_ _. LqIdle)(''1'' := ps), one_client lk)
      ((\<lambda>_ _. LqIdle)(''1'' := ps, ''1'' := ps'), (one_client lk)\<lparr>st_links := (st_links (one_client lk))(''1'' := lk')\<rparr>)"
    by (rule sse_step.link) (use assms(2-4) in \<open>simp_all add: one_client_def\<close>)
  then show ?thesis
    using sse_reachable.sse_next [OF assms(1) [unfolded one_link_def]] by (simp add: one_link_def one_client_def)
qed

lemma sse_clients_isolated_witness:
  "\<exists>pcs st msg st'. sse_reachable (pcs, st) \<and> pcs ''1'' 0 = LqResult (Some 1) (Inl (send_closed SseLink))
     \<and> message_handler (Some ''2'') msg st = (Status204, SpawnNothing, st') \<and> st_links st' ''1'' = st_links st ''1''"
proof -
  let ?p = "\<lambda>pc. (\<lambda>_ :: nat. LqIdle)(0 := pc)" and ?l = "link_new\<lparr>lk_open := False\<rparr>"
  note caller = link_step.caller [where kind = SseLink and expired = False and c = 0]
  have "one_link (\<lambda>_. LqIdle) ?l"
    by (rule one_link_go [OF one_link_start link_step.channel_closed]) simp_all
  then have "one_link (?p (LqStart [] JNull)) ?l"
    by (rule one_link_go [OF _ link_step.call [where c = 0]]) simp_all
  then have "one_link ((?p (LqStart [] JNull))(0 := LqInsert 1 [] JNull)) (?l\<lparr>lk_next := 2\<rparr>)"
    by (rule one_link_go [OF _ caller]) (simp_all add: Let_def link_new_def)
  then have "one_link ((?p (LqInsert 1 [] JNull))(0 := LqSend 1 [] JNull)) (?l\<lparr>lk_next := 2, lk_pending := {1}\<rparr>)"
    unfolding fun_upd_upd by (rule one_link_go [OF _ caller [where pcs = "?p (LqInsert 1 [] JNull)", unfolded fun_upd_upd]])
      (simp_all add: link_new_def)
  then have "one_link ((?p (LqSend 1 [] JNull))(0 := LqFailed 1)) (?l\<lparr>lk_next := 2, lk_pending := {1}\<rparr>)"
    unfolding fun_upd_upd by (rule one_link_go [OF _ caller [where pcs = "?p (LqSend 1 [] JNull)", unfolded fun_upd_upd]])
      (simp_all add: link_send_def)
  then have "one_link ((?p (LqFailed 1))(0 := LqResult (Some 1) (Inl (send_closed SseLink)))) (?l\<lparr>lk_next := 2, lk_pending := {}\<rparr>)"
    unfolding fun_upd_upd by (rule one_link_go [OF _ caller [where pcs = "?p (LqFailed 1)", unfolded fun_upd_upd]])
      simp_all
  then have r: "sse_reachable ((\<lambda>_ _. LqIdle)(''1'' := ?p (LqResult (Some 1) (Inl (send_closed SseLink)))),
      one_client (?l\<lparr>lk_next := 2, lk_pending := {}\<rparr>))" (is "sse_reachable (?pcs, ?st)")
    by (simp add: one_link_def)
  let ?msg = "\<lparr>in_jsonrpc = Some ''2.0'', in_id = Some (from_i64 5), in_method = None, in_params = None,
      in_result = Some (JBool True), in_error = None\<rparr>"
  have m: "message_handler (Some ''2'') ?msg ?st =
      (Status204, SpawnNothing, resolve_client_pending ''2'' (IdNumber 5) (Inr (JBool True)) ?st)"
    by (simp add: message_handler_def classify_inbound_def request_id_from_value_def from_i64_def)
  have "st_links (resolve_client_pending ''2'' (IdNumber 5) (Inr (JBool True)) ?st) ''1'' = st_links ?st ''1''"
    using sse_clients_isolated [OF r _ m, of "''1''" 0 1 "Inl (send_closed SseLink)"] by simp
  then show ?thesis using r m by (intro exI [of _ ?pcs] exI [of _ ?st] exI [of _ ?msg] exI) auto
qed

end
