(* ===== verification/Stdio_Serve.thy ===== *)
theory Stdio_Serve
  imports Acp_Link "HOL-Library.Sublist"
begin

text \<open>
  The life of an ACP connection over stdio (\<open>acp/transport.rs\<close>, \<open>acp/stdio_client.rs\<close>): the read
  loop of \<open>serve_connection_with\<close>, the writer task, the set of handler tasks and the tear-down, as
  sections that interleave with each other and with the requests of the tools.  What a
  handler computes is the matter of \<open>Acp_Agent\<close>; here it sends messages and ends.  The
  table of pending requests and the channel to the writer are the stdio link of \<open>Acp_Link\<close>.
\<close>

section \<open>The writer task\<close>

datatype writer_pc = WIdle | WWriting OutboundMessage | WExited

text \<open>What the writer tells the read loop of the first write that failed.\<close>

definition writer_error :: "RemoteError \<Rightarrow> AcpError" where
  "writer_error e = (case e of ReIo io_err \<Rightarrow> AcpIo io_err | other \<Rightarrow> AcpJsonRpc (remote_error_text other))"

definition writer_gone :: AcpError where
  "writer_gone = AcpJsonRpc ''writer task exited unexpectedly''"

text \<open>The messages in the channel: the last ones that were sent.\<close>

definition queued_messages :: "acp_link \<Rightarrow> OutboundMessage list" where
  "queued_messages lk = drop (length (lk_out lk) - lk_queued lk) (lk_out lk)"

section \<open>Handler tasks\<close>

datatype join_result = JoinOk | JoinPanic | JoinCancelled

datatype join_task = JtRunning "json option" | JtReady join_result

text \<open>\<open>reap_handlers\<close>: the tasks that are left, and what is logged of the others.\<close>

datatype reap_log = HandlerPanicked | HandlerCancelled

fun reap_handlers :: "join_task list \<Rightarrow> join_task list \<times> reap_log list" where
  "reap_handlers [] = ([], [])"
| "reap_handlers (JtRunning i # js) = (let (left, log) = reap_handlers js in (JtRunning i # left, log))"
| "reap_handlers (JtReady r # js) =
     (let (left, log) = reap_handlers js in
      (left, case r of JoinOk \<Rightarrow> log | JoinPanic \<Rightarrow> HandlerPanicked # log | JoinCancelled \<Rightarrow> HandlerCancelled # log))"

section \<open>The connection\<close>

text \<open>The read loop, and the sections of \<open>teardown\<close> with the result they hold.\<close>

datatype serve_pc =
    SvReading
  | TdDrain "AcpError + unit"
  | TdJoin "AcpError + unit"
  | TdWriter "AcpError + unit"
  | SvReturned "AcpError + unit"

text \<open>\<open>sv_written\<close> and \<open>sv_failed\<close> record what reached the client and the error of the writer.\<close>

record serve =
  sv_link :: acp_link
  sv_callers :: "nat \<Rightarrow> link_pc"
  sv_loop :: serve_pc
  sv_shutdown :: bool
  sv_writer :: writer_pc
  sv_error :: "AcpError option"
  sv_handlers :: "join_task list"
  sv_log :: "reap_log list"
  sv_written :: "OutboundMessage list"
  sv_failed :: "AcpError option"

definition serve_new :: serve where
  "serve_new =
     \<lparr>sv_link = link_new, sv_callers = (\<lambda>_. LqIdle), sv_loop = SvReading, sv_shutdown = False, sv_writer = WIdle,
      sv_error = None, sv_handlers = [], sv_log = [], sv_written = [], sv_failed = None\<rparr>"

text \<open>\<open>let _ = client.send_outbound(msg)\<close>.\<close>

definition push_ignoring :: "OutboundMessage \<Rightarrow> acp_link \<Rightarrow> acp_link" where
  "push_ignoring msg lk = (case link_push StdioLink msg lk of Some (_, lk') \<Rightarrow> lk' | None \<Rightarrow> lk)"

text \<open>The top of the read loop.\<close>

definition serve_reap :: "serve \<Rightarrow> serve" where
  "serve_reap sv =
     (let (left, log) = reap_handlers (sv_handlers sv) in sv\<lparr>sv_handlers := left, sv_log := sv_log sv @ log\<rparr>)"

definition serve_inbound :: "InboundMessage \<Rightarrow> serve \<Rightarrow> serve" where
  "serve_inbound msg sv =
     serve_reap
       (case classify_inbound msg of
          Inr (KRequest i method params) \<Rightarrow> sv\<lparr>sv_handlers := sv_handlers sv @ [JtRunning (Some i)]\<rparr>
        | Inr (KNotification method params) \<Rightarrow> sv\<lparr>sv_handlers := sv_handlers sv @ [JtRunning None]\<rparr>
        | Inr (KResponse i result) \<Rightarrow> sv\<lparr>sv_link := link_resolve i result (sv_link sv)\<rparr>
        | Inl (i, code, message) \<Rightarrow> sv\<lparr>sv_link := push_ignoring (outbound_error i code message) (sv_link sv)\<rparr>)"

text \<open>The loop ends with a result, and \<open>teardown\<close> cancels the writer before it first waits.\<close>

definition serve_break :: "AcpError + unit \<Rightarrow> serve \<Rightarrow> serve" where
  "serve_break r sv = sv\<lparr>sv_loop := TdDrain r, sv_shutdown := True\<rparr>"

definition read_error :: "RemoteError \<Rightarrow> AcpError" where
  "read_error e = AcpJsonRpc (''read error: '' @ remote_error_text e)"

definition drained_link :: "acp_link \<Rightarrow> acp_link" where
  "drained_link lk = (cancel_all lk)\<lparr>lk_ended := True\<rparr>"

definition stop_writer :: "serve \<Rightarrow> serve" where
  "stop_writer sv = sv\<lparr>sv_writer := WExited, sv_link := (sv_link sv)\<lparr>lk_open := False\<rparr>\<rparr>"

definition response_to :: "json option \<Rightarrow> AcpError + json \<Rightarrow> OutboundMessage option" where
  "response_to i r =
     (case i of
        None \<Rightarrow> None
      | Some i \<Rightarrow> Some (case r of Inr value \<Rightarrow> outbound_result i value | Inl e \<Rightarrow> outbound_error i (- 32603) (acp_error_text e)))"

definition end_handler :: "nat \<Rightarrow> json option \<Rightarrow> AcpError + json \<Rightarrow> serve \<Rightarrow> serve" where
  "end_handler c i r sv =
     sv\<lparr>sv_handlers := (sv_handlers sv)[c := JtReady JoinOk],
        sv_link := (case response_to i r of Some msg \<Rightarrow> push_ignoring msg (sv_link sv) | None \<Rightarrow> sv_link sv)\<rparr>"

text \<open>
  The flag says whether the client takes what is written to it: without it no write ends.
  The error channel holds one message and the writer sends at most one.
\<close>

inductive serve_step :: "bool \<Rightarrow> serve \<Rightarrow> serve \<Rightarrow> bool" for drains where
  sv_call: "link_returned (sv_callers sv c) \<Longrightarrow>
    serve_step drains sv (sv\<lparr>sv_callers := (sv_callers sv)(c := LqStart m p)\<rparr>)"
| sv_caller: "link_caller_step StdioLink False (sv_callers sv c) (sv_link sv) = Some (pc', lk') \<Longrightarrow>
    serve_step drains sv (sv\<lparr>sv_callers := (sv_callers sv)(c := pc'), sv_link := lk'\<rparr>)"
| sv_notify: "serve_step drains sv (sv\<lparr>sv_link := push_ignoring msg (sv_link sv)\<rparr>)"
| sv_message: "sv_loop sv = SvReading \<Longrightarrow> serve_step drains sv (serve_inbound msg sv)"
| sv_eof: "sv_loop sv = SvReading \<Longrightarrow> serve_step drains sv (serve_break (Inr ()) sv)"
| sv_read_failed: "sv_loop sv = SvReading \<Longrightarrow> serve_step drains sv (serve_break (Inl (read_error e)) sv)"
| sv_write_error: "sv_loop sv = SvReading \<Longrightarrow> sv_error sv = Some e \<Longrightarrow>
    serve_step drains sv (serve_break (Inl e) (sv\<lparr>sv_error := None\<rparr>))"
| sv_writer_gone: "sv_loop sv = SvReading \<Longrightarrow> sv_error sv = None \<Longrightarrow> sv_writer sv = WExited \<Longrightarrow>
    serve_step drains sv (serve_break (Inl writer_gone) sv)"
| sv_handler_ends: "c < length (sv_handlers sv) \<Longrightarrow> sv_handlers sv ! c = JtRunning i \<Longrightarrow>
    serve_step drains sv (end_handler c i r sv)"
| sv_handler_panics: "c < length (sv_handlers sv) \<Longrightarrow> sv_handlers sv ! c = JtRunning i \<Longrightarrow>
    serve_step drains sv (sv\<lparr>sv_handlers := (sv_handlers sv)[c := JtReady JoinPanic]\<rparr>)"
| sv_take: "sv_writer sv = WIdle \<Longrightarrow> queued_messages (sv_link sv) = msg # rest \<Longrightarrow>
    serve_step drains sv (sv\<lparr>sv_writer := WWriting msg, sv_link := (sv_link sv)\<lparr>lk_queued := length rest\<rparr>\<rparr>)"
| sv_written: "drains \<Longrightarrow> sv_writer sv = WWriting msg \<Longrightarrow>
    serve_step drains sv (sv\<lparr>sv_writer := WIdle, sv_written := sv_written sv @ [msg]\<rparr>)"
| sv_write_failed: "drains \<Longrightarrow> sv_writer sv = WWriting msg \<Longrightarrow>
    serve_step drains sv (stop_writer (sv\<lparr>sv_error := Some (writer_error e), sv_failed := Some (writer_error e)\<rparr>))"
| sv_writer_cancelled: "sv_writer sv = WIdle \<Longrightarrow> sv_shutdown sv \<Longrightarrow> serve_step drains sv (stop_writer sv)"
| td_drain: "sv_loop sv = TdDrain r \<Longrightarrow> serve_step drains sv (sv\<lparr>sv_loop := TdJoin r, sv_link := drained_link (sv_link sv)\<rparr>)"
| td_abort: "sv_loop sv = TdJoin r \<Longrightarrow> c < length (sv_handlers sv) \<Longrightarrow> sv_handlers sv ! c = JtRunning i \<Longrightarrow>
    serve_step drains sv (sv\<lparr>sv_handlers := (sv_handlers sv)[c := JtReady JoinCancelled]\<rparr>)"
| td_join: "sv_loop sv = TdJoin r \<Longrightarrow> sv_handlers sv = as @ JtReady j # bs \<Longrightarrow>
    serve_step drains sv (sv\<lparr>sv_handlers := as @ bs\<rparr>)"
| td_joined: "sv_loop sv = TdJoin r \<Longrightarrow> sv_handlers sv = [] \<Longrightarrow> serve_step drains sv (sv\<lparr>sv_loop := TdWriter r\<rparr>)"
| td_waited: "sv_loop sv = TdWriter r \<Longrightarrow> sv_writer sv = WExited \<Longrightarrow> serve_step drains sv (sv\<lparr>sv_loop := SvReturned r\<rparr>)"

inductive serve_reachable :: "serve \<Rightarrow> bool" where
  sv_start: "serve_reachable serve_new"
| sv_next: "serve_reachable sv \<Longrightarrow> serve_step True sv sv' \<Longrightarrow> serve_reachable sv'"

section \<open>The channel to the writer\<close>

text \<open>A step of the link that puts at most one message into the channel, and only into an open one.\<close>

definition sends :: "acp_link \<Rightarrow> acp_link \<Rightarrow> bool" where
  "sends lk lk' \<longleftrightarrow>
     lk_open lk' = lk_open lk \<and> lk_ended lk' = lk_ended lk \<and>
     (lk_out lk' = lk_out lk \<and> lk_queued lk' = lk_queued lk
      \<or> lk_open lk \<and> (\<exists>msg. lk_out lk' = lk_out lk @ [msg] \<and> lk_queued lk' = Suc (lk_queued lk)))"

lemma sends_refl [simp, intro]: "sends lk lk"
  by (simp add: sends_def)

lemma push_ignoring_sends [intro]: "sends lk (push_ignoring msg lk)"
  by (auto simp: sends_def push_ignoring_def link_push_def link_send_def link_room_def)

lemma resolve_sends [intro]: "sends lk (link_resolve i r lk)"
  by (auto simp: sends_def link_resolve_def Let_def split: RequestId.split)

lemma caller_sends: "link_caller_step StdioLink expired pc lk = Some (pc', lk') \<Longrightarrow> sends lk lk'"
  by (cases pc) (auto simp: sends_def Let_def link_send_def link_room_def split: if_splits oneshot.splits)

fun in_flight :: "writer_pc \<Rightarrow> OutboundMessage list" where
  "in_flight (WWriting msg) = [msg]"
| "in_flight _ = []"

definition channel_ok :: "serve \<Rightarrow> bool" where
  "channel_ok sv \<longleftrightarrow>
     lk_queued (sv_link sv) \<le> length (lk_out (sv_link sv))
     \<and> lk_open (sv_link sv) = (sv_writer sv \<noteq> WExited)
     \<and> prefix (sv_written sv) (lk_out (sv_link sv))
     \<and> (sv_writer sv \<noteq> WExited \<longrightarrow>
          lk_out (sv_link sv) = sv_written sv @ in_flight (sv_writer sv) @ queued_messages (sv_link sv))"

lemma queued_messages_send:
  "lk_queued lk \<le> length (lk_out lk) \<Longrightarrow> lk_out lk' = lk_out lk @ [msg] \<Longrightarrow> lk_queued lk' = Suc (lk_queued lk) \<Longrightarrow>
    queued_messages lk' = queued_messages lk @ [msg]"
  by (simp add: queued_messages_def)

lemma channel_ok_sends:
  assumes "channel_ok sv" "sends (sv_link sv) (sv_link sv')" "sv_writer sv' = sv_writer sv" "sv_written sv' = sv_written sv"
  shows "channel_ok sv'"
  using assms queued_messages_send [of "sv_link sv" "sv_link sv'"]
  by (auto simp: channel_ok_def sends_def queued_messages_def)

section \<open>The invariant\<close>

fun serve_result :: "serve_pc \<Rightarrow> (AcpError + unit) option" where
  "serve_result SvReading = None"
| "serve_result (TdDrain r) = Some r"
| "serve_result (TdJoin r) = Some r"
| "serve_result (TdWriter r) = Some r"
| "serve_result (SvReturned r) = Some r"

fun before_drain :: "serve_pc \<Rightarrow> bool" where
  "before_drain SvReading = True"
| "before_drain (TdDrain _) = True"
| "before_drain _ = False"

fun after_join :: "serve_pc \<Rightarrow> bool" where
  "after_join (TdWriter _) = True"
| "after_join (SvReturned _) = True"
| "after_join _ = False"

fun is_returned :: "serve_pc \<Rightarrow> bool" where
  "is_returned (SvReturned _) = True"
| "is_returned _ = False"

definition cause_ok :: "AcpError option \<Rightarrow> AcpError + unit \<Rightarrow> bool" where
  "cause_ok cause r \<longleftrightarrow> r = Inr () \<or> (\<exists>e. r = Inl (read_error e)) \<or> (\<exists>e. r = Inl e \<and> cause = Some e)"

definition loop_ok :: "serve \<Rightarrow> bool" where
  "loop_ok sv \<longleftrightarrow>
     lk_ended (sv_link sv) = (\<not> before_drain (sv_loop sv))
     \<and> sv_shutdown sv = (sv_loop sv \<noteq> SvReading)
     \<and> (sv_error sv \<noteq> None \<longrightarrow> sv_error sv = sv_failed sv)
     \<and> (sv_loop sv = SvReading \<longrightarrow> sv_writer sv = WExited \<longrightarrow> sv_error sv \<noteq> None)
     \<and> (sv_failed sv \<noteq> None \<longrightarrow> sv_writer sv = WExited)
     \<and> (\<forall>r. serve_result (sv_loop sv) = Some r \<longrightarrow> cause_ok (sv_failed sv) r)
     \<and> (after_join (sv_loop sv) \<longrightarrow> sv_handlers sv = [])
     \<and> (is_returned (sv_loop sv) \<longrightarrow> sv_writer sv = WExited)"

lemma loop_ok_frame:
  assumes "loop_ok sv" "lk_ended (sv_link sv') = lk_ended (sv_link sv)" "sv_loop sv' = sv_loop sv"
    "sv_shutdown sv' = sv_shutdown sv" "sv_error sv' = sv_error sv" "sv_failed sv' = sv_failed sv" "sv_writer sv' = sv_writer sv"
    "after_join (sv_loop sv) \<Longrightarrow> sv_handlers sv' = []"
  shows "loop_ok sv'"
  using assms by (auto simp: loop_ok_def)

text \<open>A section that sends and changes neither the writer nor the loop.\<close>

lemma serve_ok_sends:
  assumes "channel_ok sv \<and> loop_ok sv" "sends (sv_link sv) (sv_link sv')" "sv_writer sv' = sv_writer sv"
    "sv_written sv' = sv_written sv" "sv_loop sv' = sv_loop sv" "sv_shutdown sv' = sv_shutdown sv"
    "sv_error sv' = sv_error sv" "sv_failed sv' = sv_failed sv" "after_join (sv_loop sv) \<Longrightarrow> sv_handlers sv' = []"
  shows "channel_ok sv' \<and> loop_ok sv'"
  using assms channel_ok_sends [of sv sv'] loop_ok_frame [of sv sv'] by (simp add: sends_def)

lemma serve_inbound_sends: "sends (sv_link sv) (sv_link (serve_inbound msg sv))"
  by (auto simp: serve_inbound_def serve_reap_def split: prod.split sum.split InboundKind.split)

lemma serve_inbound_keeps [simp]:
  "sv_writer (serve_inbound msg sv) = sv_writer sv" "sv_written (serve_inbound msg sv) = sv_written sv"
  "sv_loop (serve_inbound msg sv) = sv_loop sv" "sv_shutdown (serve_inbound msg sv) = sv_shutdown sv"
  "sv_error (serve_inbound msg sv) = sv_error sv" "sv_failed (serve_inbound msg sv) = sv_failed sv"
  "sv_callers (serve_inbound msg sv) = sv_callers sv"
  by (simp_all add: serve_inbound_def serve_reap_def split: prod.split sum.split InboundKind.split)

lemma end_handler_sends: "sends (sv_link sv) (sv_link (end_handler c i r sv))"
  by (auto simp: end_handler_def split: option.split)

lemma loop_ok_join: "loop_ok sv \<Longrightarrow> c < length (sv_handlers sv) \<Longrightarrow> \<not> after_join (sv_loop sv)"
  by (auto simp: loop_ok_def)

lemma queued_messages_take:
  assumes "queued_messages lk = msg # rest" "lk_queued lk \<le> length (lk_out lk)"
  shows "lk_queued lk = Suc (length rest)" "drop (length (lk_out lk) - length rest) (lk_out lk) = rest"
proof -
  show q: "lk_queued lk = Suc (length rest)"
    using arg_cong [OF assms(1), of length] assms(2) by (simp add: queued_messages_def)
  have "drop (length (lk_out lk) - length rest) (lk_out lk) = drop 1 (queued_messages lk)"
    using q assms(2) by (simp add: queued_messages_def Suc_diff_Suc)
  then show "drop (length (lk_out lk) - length rest) (lk_out lk) = rest" using assms(1) by simp
qed

lemma serve_step_ok: "serve_step drains sv sv' \<Longrightarrow> channel_ok sv \<and> loop_ok sv \<Longrightarrow> channel_ok sv' \<and> loop_ok sv'"
proof (induction rule: serve_step.induct)
  case (sv_call sv c m p)
  show ?case by (rule serve_ok_sends [OF sv_call.prems]) (use sv_call.prems in \<open>simp_all add: loop_ok_def\<close>)
next
  case (sv_caller sv c pc' lk')
  show ?case by (rule serve_ok_sends [OF sv_caller.prems]) (use sv_caller caller_sends in \<open>auto simp: loop_ok_def\<close>)
next
  case (sv_notify sv msg)
  show ?case by (rule serve_ok_sends [OF sv_notify.prems]) (use sv_notify.prems in \<open>auto simp: loop_ok_def\<close>)
next
  case (sv_message sv msg)
  show ?case by (rule serve_ok_sends [OF sv_message.prems]) (use sv_message serve_inbound_sends in auto)
next
  case (sv_handler_ends c sv i r)
  note j = loop_ok_join [OF conjunct2 [OF sv_handler_ends.prems] sv_handler_ends.hyps(1)]
  show ?case by (rule serve_ok_sends [OF sv_handler_ends.prems end_handler_sends]) (use j in \<open>simp_all add: end_handler_def\<close>)
next
  case (sv_handler_panics c sv i)
  note j = loop_ok_join [OF conjunct2 [OF sv_handler_panics.prems] sv_handler_panics.hyps(1)]
  show ?case by (rule serve_ok_sends [OF sv_handler_panics.prems]) (use j in simp_all)
next
  case (sv_take sv msg rest)
  note q = queued_messages_take [OF sv_take.hyps(2)]
  show ?case using sv_take q by (auto simp: channel_ok_def loop_ok_def queued_messages_def)
next
  case (sv_written sv msg)
  have out: "lk_out (sv_link sv) = sv_written sv @ [msg] @ queued_messages (sv_link sv)"
    using sv_written by (simp add: channel_ok_def)
  then have "prefix (sv_written sv @ [msg]) (lk_out (sv_link sv))" by (metis append_assoc prefixI)
  then show ?case using sv_written out by (auto simp: channel_ok_def loop_ok_def)
next
  case (td_drain sv r)
  then show ?case by (auto simp: channel_ok_def loop_ok_def drained_link_def cancel_all_def queued_messages_def)
next
  case (sv_write_failed sv msg e)
  then show ?case by (auto simp: channel_ok_def loop_ok_def stop_writer_def cause_ok_def)
qed (auto simp: channel_ok_def loop_ok_def serve_break_def stop_writer_def cause_ok_def queued_messages_def)

lemma serve_reachable_ok: "serve_reachable sv \<Longrightarrow> channel_ok sv \<and> loop_ok sv"
proof (induction rule: serve_reachable.induct)
  case sv_start
  then show ?case
    by (auto simp: channel_ok_def loop_ok_def serve_new_def link_new_def queued_messages_def cause_ok_def)
next
  case (sv_next sv sv') then show ?case using serve_step_ok by blast
qed

section \<open>The connection is a stdio link\<close>

abbreviation serve_view :: "serve \<Rightarrow> link_system" where
  "serve_view sv \<equiv> (sv_callers sv, sv_link sv)"

lemma push_ignoring_step: "link_step StdioLink (pcs, lk) (pcs, push_ignoring msg lk)"
proof -
  have "link_push StdioLink msg lk \<noteq> None" by (simp add: link_push_def link_send_def link_room_def)
  then obtain r lk' where "link_push StdioLink msg lk = Some (r, lk')" by fastforce
  then show ?thesis using link_step.push by (simp add: push_ignoring_def)
qed

lemma serve_inbound_step:
  assumes "\<not> lk_ended (sv_link sv)"
  shows "serve_view (serve_inbound msg sv) = serve_view sv
    \<or> link_step StdioLink (serve_view sv) (serve_view (serve_inbound msg sv))"
  using assms push_ignoring_step link_step.response [of StdioLink "sv_link sv"]
  by (auto simp: serve_inbound_def serve_reap_def split: prod.split sum.split InboundKind.split)

lemma end_handler_step:
  "serve_view (end_handler c i r sv) = serve_view sv \<or> link_step StdioLink (serve_view sv) (serve_view (end_handler c i r sv))"
  using push_ignoring_step by (auto simp: end_handler_def split: option.split)

lemma serve_step_view:
  assumes "serve_step drains sv sv'" "channel_ok sv" "loop_ok sv"
  shows "serve_view sv' = serve_view sv \<or> link_step StdioLink (serve_view sv) (serve_view sv')"
  using assms
proof (induction rule: serve_step.induct)
  case (sv_call sv c m p)
  have "link_step StdioLink (serve_view sv) ((sv_callers sv)(c := LqStart m p), sv_link sv)"
    by (rule link_step.call [of "sv_callers sv", OF sv_call.hyps])
  then show ?case by (simp add: fun_upd_def)
next
  case (sv_caller sv c pc' lk')
  have "link_step StdioLink (serve_view sv) ((sv_callers sv)(c := pc'), lk')"
    by (rule link_step.caller [of StdioLink False "sv_callers sv" c, OF sv_caller.hyps])
  then show ?case by (simp add: fun_upd_def)
next
  case (sv_notify sv msg) then show ?case using push_ignoring_step by simp
next
  case (sv_message sv msg)
  then have "\<not> lk_ended (sv_link sv)" by (simp add: loop_ok_def)
  then show ?case by (rule serve_inbound_step)
next
  case (sv_handler_ends c sv i r) show ?case by (rule end_handler_step)
next
  case (sv_take sv msg rest)
  have "lk_queued (sv_link sv) = Suc (length rest)"
    using queued_messages_take [OF sv_take.hyps(2)] sv_take.prems by (simp add: channel_ok_def)
  then show ?case using link_step.written [of "sv_link sv" StdioLink "sv_callers sv"] by simp
next
  case (sv_write_failed sv msg e)
  then show ?case using link_step.channel_closed [of StdioLink "sv_callers sv" "sv_link sv"] by (simp add: stop_writer_def)
next
  case (sv_writer_cancelled sv)
  then show ?case using link_step.channel_closed [of StdioLink "sv_callers sv" "sv_link sv"] by (simp add: stop_writer_def)
next
  case (td_drain sv r)
  then have "\<not> lk_ended (sv_link sv)" by (simp add: loop_ok_def)
  then show ?case using link_step.drained [of "sv_link sv" StdioLink "sv_callers sv"] by (simp add: drained_link_def)
qed (simp_all add: serve_break_def)

lemma serve_link: "serve_reachable sv \<Longrightarrow> link_reachable StdioLink (serve_view sv)"
proof (induction rule: serve_reachable.induct)
  case sv_start then show ?case using link_reachable.start by (simp add: serve_new_def)
next
  case (sv_next sv sv')
  then show ?case using serve_step_view [OF sv_next.hyps(2)] serve_reachable_ok link_reachable.step by metis
qed

text \<open>
  The connection as \<open>serve_connection_with\<close> runs it, with its writer task, its handler tasks and its
  tear-down, is a stdio link: what any of its tasks can make of the table of pending requests and of
  the channel is what the sections of a link can, so what holds of every link, as that a request
  returns only what was answered under its own id, holds of the requests made over a connection.
\<close>

theorem serve_refines_link:
  assumes "serve_reachable sv"
  shows "link_reachable StdioLink (sv_callers sv, sv_link sv)"
  by (rule serve_link [OF assms])

text \<open>
  What the client reads from the agent is, message by message and in this order, a beginning of what
  the agent's tasks have sent, and while the writer runs nothing of it is lost: the rest is the
  message being written and the queue.
\<close>

theorem wire_in_order:
  assumes "serve_reachable sv"
  shows "prefix (sv_written sv) (lk_out (sv_link sv))
    \<and> (sv_writer sv \<noteq> WExited \<longrightarrow>
         lk_out (sv_link sv) = sv_written sv @ in_flight (sv_writer sv) @ queued_messages (sv_link sv))"
  using conjunct1 [OF serve_reachable_ok [OF assms]] by (simp add: channel_ok_def)

lemma writer_gone_other: "writer_error e \<noteq> writer_gone" "read_error e \<noteq> writer_gone"
  by (cases e; simp add: writer_error_def read_error_def writer_gone_def)+

text \<open>
  When a connection has ended, no handler task is left, the writer has let go of its channel and no
  request that was pending at the tear-down still is; and the result says why: the end of the input,
  an error of reading it, or the error of the first write that failed.
\<close>

theorem serve_result_sound:
  assumes "serve_reachable sv" "sv_loop sv = SvReturned r"
  shows "sv_handlers sv = [] \<and> sv_writer sv = WExited \<and> \<not> lk_open (sv_link sv) \<and> lk_ended (sv_link sv)
    \<and> (r = Inr () \<or> (\<exists>e. r = Inl (read_error e)) \<or> (\<exists>e. r = Inl e \<and> sv_failed sv = Some e))"
  using serve_reachable_ok [OF assms(1)] assms(2) by (auto simp: channel_ok_def loop_ok_def cause_ok_def)

section \<open>The end of a connection\<close>

fun task_left :: "join_task \<Rightarrow> nat" where
  "task_left (JtRunning _) = 2"
| "task_left (JtReady _) = 1"

fun loop_left :: "serve_pc \<Rightarrow> nat" where
  "loop_left SvReading = 4"
| "loop_left (TdDrain _) = 3"
| "loop_left (TdJoin _) = 2"
| "loop_left (TdWriter _) = 1"
| "loop_left (SvReturned _) = 0"

definition td_left :: "serve \<Rightarrow> nat" where
  "td_left sv =
     loop_left (sv_loop sv) + sum_list (map task_left (sv_handlers sv)) + (if sv_writer sv = WExited then 0 else 1)"

lemma task_left_update:
  assumes "c < length js" "js ! c = JtRunning i"
  shows "sum_list (map task_left (js[c := JtReady r])) < sum_list (map task_left js)"
proof -
  have "js = take c js @ JtRunning i # drop (Suc c) js" using id_take_nth_drop [OF assms(1)] assms(2) by simp
  then have "sum_list (map task_left js) = sum_list (map task_left (take c js)) + 2 + sum_list (map task_left (drop (Suc c) js))"
    by (metis (no_types, lifting) add.assoc list.simps(9) map_append sum_list.Cons sum_list.append task_left.simps(1))
  then show ?thesis by (simp add: upd_conv_take_nth_drop [OF assms(1)])
qed

text \<open>No task puts the end off.\<close>

lemma serve_step_left: "serve_step drains sv sv' \<Longrightarrow> sv_loop sv \<noteq> SvReading \<Longrightarrow> td_left sv' \<le> td_left sv \<and> sv_loop sv' \<noteq> SvReading"
proof (induction rule: serve_step.induct)
  case (sv_handler_ends c sv i r)
  then show ?case using task_left_update [of c "sv_handlers sv" i JoinOk] by (simp add: td_left_def end_handler_def)
next
  case (sv_handler_panics c sv i)
  then show ?case using task_left_update [of c "sv_handlers sv" i JoinPanic] by (simp add: td_left_def)
next
  case (td_abort sv r c i)
  then show ?case using task_left_update [of c "sv_handlers sv" i JoinCancelled] by (simp add: td_left_def)
qed (auto simp: td_left_def stop_writer_def serve_break_def)

fun stuck :: "serve_pc \<Rightarrow> writer_pc \<Rightarrow> bool" where
  "stuck (TdWriter _) (WWriting _) = True"
| "stuck _ _ = False"

lemma serve_progress:
  assumes "channel_ok sv" "loop_ok sv" "sv_loop sv \<noteq> SvReading" "\<not> is_returned (sv_loop sv)" "\<not> stuck (sv_loop sv) (sv_writer sv)"
  shows "\<exists>sv'. serve_step False sv sv' \<and> td_left sv' < td_left sv"
proof (cases "sv_loop sv")
  case (TdDrain r)
  then show ?thesis
    by (intro exI [of _ "sv\<lparr>sv_loop := TdJoin r, sv_link := drained_link (sv_link sv)\<rparr>"]) (simp add: serve_step.td_drain td_left_def)
next
  case (TdJoin r)
  show ?thesis
  proof (cases "sv_handlers sv")
    case Nil
    then show ?thesis using TdJoin
      by (intro exI [of _ "sv\<lparr>sv_loop := TdWriter r\<rparr>"]) (simp add: serve_step.td_joined td_left_def)
  next
    case (Cons j js)
    show ?thesis
    proof (cases j)
      case (JtRunning i)
      have "serve_step False sv (sv\<lparr>sv_handlers := (sv_handlers sv)[0 := JtReady JoinCancelled]\<rparr>)"
        by (rule serve_step.td_abort [OF TdJoin, of 0 i]) (simp_all add: Cons JtRunning)
      moreover have "td_left (sv\<lparr>sv_handlers := (sv_handlers sv)[0 := JtReady JoinCancelled]\<rparr>) < td_left sv"
        by (simp add: td_left_def Cons JtRunning)
      ultimately show ?thesis by blast
    next
      case (JtReady x)
      have "serve_step False sv (sv\<lparr>sv_handlers := [] @ js\<rparr>)"
        by (rule serve_step.td_join [OF TdJoin, of "[]" x]) (simp add: Cons JtReady)
      moreover have "td_left (sv\<lparr>sv_handlers := [] @ js\<rparr>) < td_left sv" by (simp add: td_left_def Cons JtReady)
      ultimately show ?thesis by blast
    qed
  qed
next
  case (TdWriter r)
  show ?thesis
  proof (cases "sv_writer sv")
    case WIdle
    have "sv_shutdown sv" using assms(2) TdWriter by (simp add: loop_ok_def)
    then have "serve_step False sv (stop_writer sv)" using serve_step.sv_writer_cancelled WIdle by blast
    moreover have "td_left (stop_writer sv) < td_left sv" by (simp add: td_left_def stop_writer_def WIdle)
    ultimately show ?thesis by blast
  next
    case WExited
    then show ?thesis using TdWriter
      by (intro exI [of _ "sv\<lparr>sv_loop := SvReturned r\<rparr>"]) (simp add: serve_step.td_waited td_left_def)
  qed (use assms(5) TdWriter in simp)
qed (use assms(3,4) in simp_all)

text \<open>
  The tear-down always gets on: from the end of the input or the first error on, whatever the handlers,
  the tools and the client do, either it waits for a write that has begun, or it has a step of its own,
  for which nothing need come from the client, after which strictly fewer are left; and no step of any
  other task adds to them.
\<close>

theorem teardown_gets_on:
  assumes "serve_reachable sv" "sv_loop sv \<noteq> SvReading"
  shows "(\<not> is_returned (sv_loop sv) \<longrightarrow> \<not> stuck (sv_loop sv) (sv_writer sv) \<longrightarrow>
        (\<exists>sv'. serve_step False sv sv' \<and> td_left sv' < td_left sv))
    \<and> (\<forall>drains sv'. serve_step drains sv sv' \<longrightarrow> td_left sv' \<le> td_left sv \<and> sv_loop sv' \<noteq> SvReading)"
  using serve_progress [OF conjunct1 [OF serve_reachable_ok] conjunct2 [OF serve_reachable_ok], OF assms(1) assms(1,2)]
    serve_step_left assms(2) by blast

section \<open>A write that does not end\<close>

lemma stuck_stays: "serve_step False sv sv' \<Longrightarrow> stuck (sv_loop sv) (sv_writer sv) \<Longrightarrow> stuck (sv_loop sv') (sv_writer sv')"
proof (induction rule: serve_step.induct)
  case (sv_take sv msg rest) then show ?case by (cases "sv_loop sv") simp_all
next
  case (td_waited sv r) then show ?case by simp
qed (auto simp: serve_break_def stop_writer_def end_handler_def)

lemma stuck_for_ever: "(serve_step False)\<^sup>*\<^sup>* sv sv' \<Longrightarrow> stuck (sv_loop sv) (sv_writer sv) \<Longrightarrow> stuck (sv_loop sv') (sv_writer sv')"
  by (induction rule: rtranclp_induct) (use stuck_stays in blast)+

text \<open>
  The writer is asked to stop only between two messages.  When the client closes its end of the input
  and reads no more of the output, a message that is being written stays there, and
  \<open>teardown\<close>, which waits for the writer task, does not return, although everything else has ended.
\<close>

theorem blocked_write_holds_teardown:
  "\<exists>sv. serve_reachable sv \<and> sv_loop sv = TdWriter (Inr ()) \<and> sv_shutdown sv \<and> sv_handlers sv = []
     \<and> (\<forall>sv'. (serve_step False)\<^sup>*\<^sup>* sv sv' \<longrightarrow> \<not> is_returned (sv_loop sv'))"
proof -
  define msg where "msg = outbound_notification ''session/update'' JNull"
  define s1 where "s1 = serve_new\<lparr>sv_link := push_ignoring msg link_new\<rparr>"
  define s2 where "s2 = s1\<lparr>sv_writer := WWriting msg, sv_link := (sv_link s1)\<lparr>lk_queued := 0\<rparr>\<rparr>"
  define s3 where "s3 = serve_break (Inr ()) s2"
  define s4 where "s4 = s3\<lparr>sv_loop := TdJoin (Inr ()), sv_link := drained_link (sv_link s3)\<rparr>"
  define s5 where "s5 = s4\<lparr>sv_loop := TdWriter (Inr ())\<rparr>"
  note d = s1_def s2_def s3_def s4_def s5_def serve_new_def serve_break_def
  note go = serve_reachable.sv_next
  have "serve_step True serve_new s1"
    using serve_step.sv_notify [of True serve_new msg] by (simp add: s1_def serve_new_def)
  then have "serve_reachable s1" by (rule go [OF serve_reachable.sv_start])
  moreover have "serve_step True s1 s2"
    using serve_step.sv_take [of s1 msg "[]"]
    by (simp add: s2_def) (simp add: s1_def serve_new_def push_ignoring_def link_push_def link_send_def link_room_def link_new_def queued_messages_def)
  ultimately have "serve_reachable s2" by (rule go)
  then have "serve_reachable s3" unfolding s3_def by (rule go) (rule serve_step.sv_eof, simp add: d)
  then have "serve_reachable s4" unfolding s4_def by (rule go) (rule serve_step.td_drain, simp add: d)
  then have "serve_reachable s5" unfolding s5_def by (rule go) (rule serve_step.td_joined, simp_all add: d)
  moreover have "stuck (sv_loop s5) (sv_writer s5)" by (simp add: d)
  moreover have "\<not> (stuck pc w \<and> is_returned pc)" for pc w by (cases pc) simp_all
  moreover have "sv_loop s5 = TdWriter (Inr ())" "sv_shutdown s5" "sv_handlers s5 = []" by (simp_all add: d)
  ultimately show ?thesis using stuck_for_ever by blast
qed

end
