(* ===== verification/Acp_Agent.thy ===== *)
theory Acp_Agent
  imports Acp_Rpc
begin

text \<open>
  The agent side of the protocol (\<open>acp/mod.rs\<close>, \<open>acp/handlers.rs\<close>) and the connection over
  stdio (\<open>acp/transport.rs\<close>): every inbound request or notification is handled by a task of its
  own, and a handler is a client of the session server.  Handler \<open>c\<close> runs its operations as
  client \<open>2 * c\<close>; the odd clients are everybody else.  Answers of the client to requests of the
  agent are in Acp_Link.  \<open>serde_error\<close> is the text of the error of reading a text block.
\<close>

section \<open>Handlers\<close>

definition DEFAULT_LANE :: LaneId where
  "DEFAULT_LANE = ''default''"

datatype acp_pc =
    ApStart string json
  | ApCreate SessionId
  | ApSpawn SessionId
  | ApLoad SessionId
  | ApEnsure SessionId "Message list"
  | ApSubscribe SessionId "Message list"
  | ApPrompt SessionId "Message list" nat nat
  | ApLoop SessionId nat nat "StopReason option"
  | ApAbort SessionId AcpError
  | ApSetMode SessionId PermissionMode
  | ApDone "AcpError + json"

definition acp_missing :: "string \<Rightarrow> acp_pc" where
  "acp_missing what = ApDone (Inl (AcpJsonRpc (''missing '' @ what)))"

definition handle_initialize :: json where
  "handle_initialize =
     JObject [(''protocolVersion'', JNumber (PosInt PROTOCOL_VERSION)), (''agentCapabilities'', agent_capabilities),
       (''agentInfo'', JObject [(''name'', JString ''guigu''), (''title'', JString ''guigu''), (''version'', JString ''0.3.0'')]),
       (''authMethods'', JArray [])]"

definition handle_authenticate :: json where
  "handle_authenticate = JObject [(''authMethods'', JArray [])]"

definition session_reply :: "SessionId \<Rightarrow> json" where
  "session_reply sid = JObject [(''sessionId'', JString sid)]"

definition begin_client :: "nat \<Rightarrow> ('s, 'w) pc \<Rightarrow> ('s, 'w) system \<Rightarrow> ('s, 'w) system" where
  "begin_client c op st = ((fst st)(2 * c := op), snd st)"

text \<open>\<open>spawn_lane_from_factory\<close> of the default lane, then the state \<open>next\<close> waits for it.\<close>

definition spawn_default ::
    "nat \<Rightarrow> SessionId \<Rightarrow> acp_pc \<Rightarrow> ('s, 'w) system \<Rightarrow> acp_pc \<times> ('s, 'w) system" where
  "spawn_default c sid nxt st =
     (case spawn_lane_from_factory sid DEFAULT_LANE (snd st) of
        Inl e \<Rightarrow> (ApDone (Inl (AcpServer e)), st)
      | Inr job \<Rightarrow> (nxt, begin_client c (PcCheck job) st))"

definition handle_new_session :: "('s, 'w) system \<Rightarrow> acp_pc \<times> ('s, 'w) system" where
  "handle_new_session st =
     (case allocate_session_id (snd st) of (sid, sv) \<Rightarrow> (ApCreate sid, (fst st, sv)))"

definition handle_load_session :: "nat \<Rightarrow> json \<Rightarrow> ('s, 'w) system \<Rightarrow> acp_pc \<times> ('s, 'w) system" where
  "handle_load_session c params st =
     (case get_str params ''sessionId'' of
        None \<Rightarrow> (acp_missing ''sessionId'', st)
      | Some sid \<Rightarrow>
          (case (case jget params ''head'' of
                   None \<Rightarrow> Inr None
                 | Some v \<Rightarrow>
                     if is_null v then Inr None
                     else (case as_u64 v of
                             Some n \<Rightarrow> Inr (Some n)
                           | None \<Rightarrow> Inl (AcpJsonRpc ''head must be an unsigned integer''))) of
             Inl e \<Rightarrow> (ApDone (Inl e), st)
           | Inr head \<Rightarrow> (ApLoad sid, begin_client c (PcLoad sid DEFAULT_LANE head) st)))"

definition handle_prompt ::
    "(json \<Rightarrow> string) \<Rightarrow> nat \<Rightarrow> json \<Rightarrow> ('s, 'w) system \<Rightarrow> acp_pc \<times> ('s, 'w) system" where
  "handle_prompt serde_error c params st =
     (case get_str params ''sessionId'' of
        None \<Rightarrow> (acp_missing ''sessionId'', st)
      | Some sid \<Rightarrow>
          (case Option.bind (jget params ''prompt'') as_array of
             None \<Rightarrow> (acp_missing ''prompt'', st)
           | Some prompt \<Rightarrow>
               (case parse_content_blocks serde_error 0 prompt of
                  Inl e \<Rightarrow> (ApDone (Inl e), st)
                | Inr blocks \<Rightarrow>
                    (let messages = content_blocks_to_messages blocks in
                     if messages = [] then (ApDone (Inl (AcpJsonRpc ''empty prompt'')), st)
                     else spawn_default c sid (ApEnsure sid messages) st))))"

definition handle_cancel :: "json \<Rightarrow> ('s, 'w) system \<Rightarrow> acp_pc \<times> ('s, 'w) system" where
  "handle_cancel params st =
     (case get_str params ''sessionId'' of
        None \<Rightarrow> (acp_missing ''sessionId'', st)
      | Some sid \<Rightarrow>
          (case server_abort sid DEFAULT_LANE (snd st) of
             (Inl e, sv) \<Rightarrow> (ApDone (Inl (AcpServer e)), (fst st, sv))
           | (Inr _, sv) \<Rightarrow> (ApDone (Inr JNull), (fst st, sv))))"

definition handle_set_mode :: "json \<Rightarrow> ('s, 'w) system \<Rightarrow> acp_pc \<times> ('s, 'w) system" where
  "handle_set_mode params st =
     (case get_str params ''sessionId'' of
        None \<Rightarrow> (acp_missing ''sessionId'', st)
      | Some sid \<Rightarrow>
          (case get_str params ''modeId'' of
             None \<Rightarrow> (acp_missing ''modeId'', st)
           | Some mode_id \<Rightarrow>
               if sv_sessions (snd st) sid = None then (ApDone (Inl (AcpServer (SvSessionNotFound sid))), st)
               else (ApSetMode sid (from_mode_id mode_id), st)))"

definition acp_handle ::
    "(json \<Rightarrow> string) \<Rightarrow> nat \<Rightarrow> string \<Rightarrow> json \<Rightarrow> ('s, 'w) system \<Rightarrow> acp_pc \<times> ('s, 'w) system" where
  "acp_handle serde_error c method params st =
     (if method = ''initialize'' then (ApDone (Inr handle_initialize), st)
      else if method = ''authenticate'' then (ApDone (Inr handle_authenticate), st)
      else if method = ''session/new'' then handle_new_session st
      else if method = ''session/load'' then handle_load_session c params st
      else if method = ''session/prompt'' then handle_prompt serde_error c params st
      else if method = ''session/cancel'' then handle_cancel params st
      else if method = ''session/set_mode'' then handle_set_mode params st
      else (ApDone (Inl (UnsupportedMethod method)), st))"

text \<open>A result of the operation the handler waits for.\<close>

definition after_op :: "nat \<Rightarrow> (ServerError + unit \<Rightarrow> acp_pc) \<Rightarrow> ('s, 'w) system \<Rightarrow> (acp_pc \<times> ('s, 'w) system) option" where
  "after_op c k st = map_option (\<lambda>r. (k r, st)) (op_result (fst st (2 * c)))"

definition session_opened :: "SessionId \<Rightarrow> ServerError + unit \<Rightarrow> acp_pc" where
  "session_opened sid r =
     (case r of Inl e \<Rightarrow> ApDone (Inl (AcpServer e)) | Inr _ \<Rightarrow> ApDone (Inr (session_reply sid)))"

definition lane_ensured :: "SessionId \<Rightarrow> Message list \<Rightarrow> ServerError + unit \<Rightarrow> acp_pc" where
  "lane_ensured sid messages r =
     (case r of
        Inr _ \<Rightarrow> ApSubscribe sid messages
      | Inl (SvLaneAlreadyExists _) \<Rightarrow> ApSubscribe sid messages
      | Inl e \<Rightarrow> ApDone (Inl (AcpServer e)))"

text \<open>One iteration of the event loop of a prompt; the list is what the client is sent.\<close>

definition prompt_step ::
    "nat \<Rightarrow> bool \<Rightarrow> SessionId \<Rightarrow> nat \<Rightarrow> nat \<Rightarrow> StopReason option \<Rightarrow> ('s, 'w) ServerInner
       \<Rightarrow> (acp_pc \<times> OutboundMessage list) option" where
  "prompt_step capacity writer_ok sid h pos last_turn_stop sv =
     (let ag = tk_agent (sv_tasks sv ! h); events = st_events (ag_run ag); behind = length events - pos;
          reply = (\<lambda>reason. ApDone (Inr (JObject [(''stopReason'', JString (acp_stop_serialize reason))]))) in
      if behind = 0 then (if ag_exited ag then Some (reply (prompt_stop last_turn_stop), []) else None)
      else if capacity < behind then Some (ApLoop sid h (length events - capacity) last_turn_stop, [])
      else
        (let event = events ! pos;
             goon = (case prompt_event last_turn_stop event of
                Inl reason \<Rightarrow> reply reason | Inr last_turn_stop \<Rightarrow> ApLoop sid h (pos + 1) last_turn_stop) in
         case map_event_to_update event of
           None \<Rightarrow> Some (goon, [])
         | Some update \<Rightarrow>
             if writer_ok
             then Some (goon, [outbound_notification ''session/update''
                    (JObject [(''sessionId'', JString sid), (''update'', update)])])
             else Some (ApAbort sid (AcpJsonRpc ''writer closed''), [])))"

definition handler_step ::
    "(json \<Rightarrow> string) \<Rightarrow> nat \<Rightarrow> nat \<Rightarrow> bool \<Rightarrow> acp_pc \<Rightarrow> (string \<rightharpoonup> PermissionMode) \<Rightarrow> ('s, 'w) system
       \<Rightarrow> (acp_pc \<times> OutboundMessage list \<times> (string \<rightharpoonup> PermissionMode) \<times> ('s, 'w) system) option" where
  "handler_step serde_error capacity c writer_ok pc modes st =
     (let quiet = map_option (\<lambda>(pc', st'). (pc', [], modes, st')) in
      case pc of
        ApStart method params \<Rightarrow> quiet (Some (acp_handle serde_error c method params st))
      | ApCreate sid \<Rightarrow>
          (case create_session_from_factory sid (snd st) of
             (Inl e, sv) \<Rightarrow> quiet (Some (ApDone (Inl (AcpServer e)), (fst st, sv)))
           | (Inr _, sv) \<Rightarrow> quiet (Some (spawn_default c sid (ApSpawn sid) (fst st, sv))))
      | ApSpawn sid \<Rightarrow> quiet (after_op c (session_opened sid) st)
      | ApLoad sid \<Rightarrow> quiet (after_op c (session_opened sid) st)
      | ApEnsure sid messages \<Rightarrow> quiet (after_op c (lane_ensured sid messages) st)
      | ApSubscribe sid messages \<Rightarrow>
          (case server_subscribe sid DEFAULT_LANE (snd st) of
             None \<Rightarrow> quiet (Some (ApDone (Inl (AcpServer (SvLaneNotFound DEFAULT_LANE))), st))
           | Some (h, pos) \<Rightarrow> quiet (Some (ApPrompt sid messages h pos, st)))
      | ApPrompt sid messages h pos \<Rightarrow>
          (case server_prompt sid DEFAULT_LANE messages (snd st) of
             None \<Rightarrow> None
           | Some (Inl e, sv) \<Rightarrow> quiet (Some (ApDone (Inl (AcpServer e)), (fst st, sv)))
           | Some (Inr _, sv) \<Rightarrow> quiet (Some (ApLoop sid h pos None, (fst st, sv))))
      | ApLoop sid h pos last_turn_stop \<Rightarrow>
          map_option (\<lambda>(pc', msgs). (pc', msgs, modes, st))
            (prompt_step capacity writer_ok sid h pos last_turn_stop (snd st))
      | ApAbort sid e \<Rightarrow> quiet (Some (ApDone (Inl e), (fst st, snd (server_abort sid DEFAULT_LANE (snd st)))))
      | ApSetMode sid mode \<Rightarrow> Some (ApDone (Inr JNull), [], modes(sid \<mapsto> mode), st)
      | ApDone r \<Rightarrow> None)"

section \<open>The connection (transport.rs)\<close>

datatype acp_task =
    AtRunning "json option" acp_pc
  | AtFinished "json option" "AcpError + json"

record acp_conn =
  ak_modes :: "string \<rightharpoonup> PermissionMode"
  ak_received :: "InboundKind list"
  ak_tasks :: "acp_task list"
  ak_out :: "OutboundMessage list"
  ak_writer_ok :: bool
  ak_rejected :: "OutboundMessage list"

definition acp_conn_new :: "(string \<rightharpoonup> PermissionMode) \<Rightarrow> acp_conn" where
  "acp_conn_new modes =
     \<lparr>ak_modes = modes, ak_received = [], ak_tasks = [], ak_out = [], ak_writer_ok = True, ak_rejected = []\<rparr>"

definition send_outbound :: "OutboundMessage list \<Rightarrow> acp_conn \<Rightarrow> acp_conn" where
  "send_outbound msgs ak = (if ak_writer_ok ak then ak\<lparr>ak_out := ak_out ak @ msgs\<rparr> else ak)"

text \<open>The read loop on one message.\<close>

definition spawn_handler :: "InboundKind \<Rightarrow> json option \<Rightarrow> string \<Rightarrow> json \<Rightarrow> acp_conn \<Rightarrow> acp_conn" where
  "spawn_handler kind i method params ak =
     ak\<lparr>ak_received := ak_received ak @ [kind], ak_tasks := ak_tasks ak @ [AtRunning i (ApStart method params)]\<rparr>"

definition serve_message :: "InboundMessage \<Rightarrow> acp_conn \<Rightarrow> acp_conn" where
  "serve_message msg ak =
     (case classify_inbound msg of
        Inr (KRequest i method params) \<Rightarrow> spawn_handler (KRequest i method params) (Some i) method params ak
      | Inr (KNotification method params) \<Rightarrow> spawn_handler (KNotification method params) None method params ak
      | Inr (KResponse _ _) \<Rightarrow> ak
      | Inl (i, code, message) \<Rightarrow>
          (let resp = outbound_error i code message in
           send_outbound [resp] (ak\<lparr>ak_rejected := ak_rejected ak @ [resp]\<rparr>)))"

text \<open>The end of a handler task.\<close>

definition handler_response :: "json \<Rightarrow> AcpError + json \<Rightarrow> OutboundMessage" where
  "handler_response i r =
     (case r of Inr value \<Rightarrow> outbound_result i value | Inl e \<Rightarrow> outbound_error i (- 32603) (acp_error_text e))"

definition finish_handler :: "nat \<Rightarrow> json option \<Rightarrow> AcpError + json \<Rightarrow> acp_conn \<Rightarrow> acp_conn" where
  "finish_handler c i r ak =
     send_outbound (case i of Some i \<Rightarrow> [handler_response i r] | None \<Rightarrow> [])
       (ak\<lparr>ak_tasks := (ak_tasks ak)[c := AtFinished i r]\<rparr>)"

text \<open>
  The connection until it is torn down.  The server goes on by itself, but only a handler
  starts an operation of its own client.
\<close>

inductive acp_step ::
    "'s backend \<Rightarrow> nat \<Rightarrow> (json \<Rightarrow> string) \<Rightarrow> acp_conn \<times> ('s, 'w) system \<Rightarrow> acp_conn \<times> ('s, 'w) system \<Rightarrow> bool"
  for be capacity serde_error where
  message: "acp_step be capacity serde_error (ak, st) (serve_message msg ak, st)"
| handler: "c < length (ak_tasks ak) \<Longrightarrow> ak_tasks ak ! c = AtRunning i pc \<Longrightarrow>
    handler_step serde_error capacity c (ak_writer_ok ak) pc (ak_modes ak) st = Some (pc', msgs, modes', st') \<Longrightarrow>
    acp_step be capacity serde_error (ak, st)
      (send_outbound msgs (ak\<lparr>ak_tasks := (ak_tasks ak)[c := AtRunning i pc'], ak_modes := modes'\<rparr>), st')"
| finish: "c < length (ak_tasks ak) \<Longrightarrow> ak_tasks ak ! c = AtRunning i (ApDone r) \<Longrightarrow>
    acp_step be capacity serde_error (ak, st) (finish_handler c i r ak, st)"
| write_failed: "acp_step be capacity serde_error (ak, st) (ak\<lparr>ak_writer_ok := False\<rparr>, st)"
| server: "sys_step be capacity st st' \<Longrightarrow> (\<And>c. fst st' (2 * c) = fst st (2 * c) \<or> \<not> idle (fst st (2 * c))) \<Longrightarrow>
    acp_step be capacity serde_error (ak, st) (ak, st')"

inductive acp_reachable ::
    "'s backend \<Rightarrow> nat \<Rightarrow> (json \<Rightarrow> string) \<Rightarrow> acp_conn \<times> ('s, 'w) system \<Rightarrow> bool" for be capacity serde_error where
  acp_connect: "reachable be capacity st \<Longrightarrow> (\<And>c. idle (fst st (2 * c))) \<Longrightarrow>
    acp_reachable be capacity serde_error (acp_conn_new modes, st)"
| acp_next: "acp_reachable be capacity serde_error s \<Longrightarrow> acp_step be capacity serde_error s s' \<Longrightarrow>
    acp_reachable be capacity serde_error s'"

section \<open>The handlers are clients of the server\<close>

text \<open>The handler waits for an operation of its client.\<close>

fun waits :: "acp_pc \<Rightarrow> bool" where
  "waits (ApSpawn _) = True"
| "waits (ApLoad _) = True"
| "waits (ApEnsure _ _) = True"
| "waits _ = False"

definition client_ok ::
    "'s backend \<Rightarrow> nat \<Rightarrow> nat \<Rightarrow> (nat \<Rightarrow> ('s, 'w) pc) \<Rightarrow> acp_pc \<times> ('s, 'w) system \<Rightarrow> bool" where
  "client_ok be capacity c pcs out \<longleftrightarrow>
     reachable be capacity (snd out) \<and> (\<forall>d. d \<noteq> 2 * c \<longrightarrow> fst (snd out) d = pcs d)
       \<and> (idle (fst (snd out) (2 * c)) \<or> waits (fst out))"

lemma client_ok_same:
  "reachable be capacity (pcs, sv) \<Longrightarrow> idle (pcs (2 * c)) \<Longrightarrow> client_ok be capacity c pcs (pc, (pcs, sv))"
  by (simp add: client_ok_def)

lemma client_ok_begin:
  assumes "reachable be capacity (pcs, sv)" "idle (pcs (2 * c))" "entry op" "waits pc"
  shows "client_ok be capacity c pcs (pc, begin_client c op (pcs, sv))"
  using reachable.step [OF assms(1) sys_step.begin_op [where c = "2 * c" and pc = op]] assms
  by (simp add: client_ok_def begin_client_def)

lemma spawn_default_ok:
  assumes "reachable be capacity (pcs, sv)" "idle (pcs (2 * c))" "waits nxt"
  shows "client_ok be capacity c pcs (spawn_default c sid nxt (pcs, sv))"
  using assms client_ok_same [OF assms(1,2)] client_ok_begin [OF assms(1,2)]
  by (auto simp: spawn_default_def spawn_lane_from_factory_def spawn_lane_def split: sum.splits option.splits)

lemma server_prompt_reachable:
  "reachable be capacity (pcs, sv) \<Longrightarrow> server_prompt sid lane messages sv = Some (r, sv') \<Longrightarrow>
     reachable be capacity (pcs, sv')"
  unfolding server_prompt_def by (rule reachable_route)

lemma acp_handle_ok:
  assumes "reachable be capacity (pcs, sv)" "idle (pcs (2 * c))"
  shows "client_ok be capacity c pcs (acp_handle serde_error c method params (pcs, sv))"
proof -
  note same = client_ok_same [OF assms] and new = client_ok_begin [OF assms] and spawn = spawn_default_ok [OF assms]
  have "reachable be capacity (pcs, snd (allocate_session_id sv))"
    by (rule reachable.step [OF assms(1) sys_step.allocate])
  then have "client_ok be capacity c pcs (handle_new_session (pcs, sv))"
    using assms(2) by (simp add: handle_new_session_def client_ok_def case_prod_beta)
  moreover have "client_ok be capacity c pcs (handle_load_session c params (pcs, sv))"
    using same new by (simp add: handle_load_session_def acp_missing_def split: option.split sum.split)
  moreover have "client_ok be capacity c pcs (handle_prompt serde_error c params (pcs, sv))"
    using same spawn by (simp add: handle_prompt_def acp_missing_def Let_def split: option.split sum.split)
  moreover have "client_ok be capacity c pcs (handle_cancel params (pcs, sv))"
    using assms same reachable_abort [OF assms(1), where lane_id = DEFAULT_LANE]
    by (simp add: handle_cancel_def acp_missing_def client_ok_def case_prod_beta split: option.split sum.split)
  moreover have "client_ok be capacity c pcs (handle_set_mode params (pcs, sv))"
    using same by (simp add: handle_set_mode_def acp_missing_def split: option.split)
  ultimately show ?thesis using same by (simp add: acp_handle_def)
qed

lemma create_reachable:
  assumes "reachable be capacity (pcs, sv)" "create_session_from_factory sid sv = (r, sv')"
  shows "reachable be capacity (pcs, sv')"
  using assms reachable_session [OF assms(1), of sid]
  by (auto simp: create_session_from_factory_def create_session_def create_session_with_head_store_def
      split: option.splits)

lemma op_result_idle: "op_result pc = Some r \<Longrightarrow> idle pc"
  by (cases pc) (auto simp: op_result_def)

lemma prompt_step_updates:
  "prompt_step capacity ok sid h pos t sv = Some (pc', msgs) \<Longrightarrow> \<not> waits pc' \<and> (\<forall>m \<in> set msgs. out_method m \<noteq> None)"
  by (auto simp: prompt_step_def Let_def outbound_notification_def
      split: if_splits option.splits sum.splits)

lemma handler_step_ok:
  assumes "reachable be capacity (pcs, sv)" "idle (pcs (2 * c)) \<or> waits pc"
    and step: "handler_step serde_error capacity' c ok pc modes (pcs, sv) = Some (pc', msgs, modes', st')"
  shows "client_ok be capacity c pcs (pc', st') \<and> (\<forall>m \<in> set msgs. out_method m \<noteq> None)"
proof (cases "waits pc")
  case True
  then show ?thesis
    using step assms(1) by (cases pc) (auto simp: handler_step_def Let_def after_op_def client_ok_def dest: op_result_idle)
next
  case False
  then have idle: "idle (pcs (2 * c))" using assms(2) by simp
  note same = client_ok_same [where pcs = pcs and c = c, OF _ idle] and start = acp_handle_ok [OF assms(1) idle]
  show ?thesis
  proof (cases pc)
    case (ApStart m params)
    then show ?thesis
      using step start [of serde_error m params] by (auto simp: handler_step_def Let_def split: prod.splits)
  next
    case (ApCreate sid)
    obtain r sv1 where create: "create_session_from_factory sid sv = (r, sv1)" by (cases "create_session_from_factory sid sv")
    note reach = create_reachable [OF assms(1) create]
    show ?thesis
      using step ApCreate create same [OF reach] spawn_default_ok [OF reach idle, where sid = sid and nxt = "ApSpawn sid"]
      by (cases r) (auto simp: handler_step_def Let_def split: prod.splits)
  next
    case (ApSubscribe sid messages)
    then show ?thesis
      using step same assms(1) by (auto simp: handler_step_def Let_def split: option.splits)
  next
    case (ApPrompt sid messages h pos)
    then show ?thesis
      using step same server_prompt_reachable [OF assms(1)]
      by (auto simp: handler_step_def Let_def split: option.splits sum.splits)
  next
    case (ApLoop sid h pos t)
    then show ?thesis
      using step same assms(1) by (auto simp: handler_step_def Let_def dest: prompt_step_updates)
  next
    case (ApAbort sid e)
    then show ?thesis
      using step same reachable_abort [OF assms(1)] by (auto simp: handler_step_def Let_def)
  next
    case (ApSetMode sid mode)
    then show ?thesis using step same assms(1) by (auto simp: handler_step_def Let_def)
  qed (use step False in \<open>auto simp: handler_step_def Let_def\<close>)
qed

definition clients_ok :: "acp_task list \<Rightarrow> ('s, 'w) system \<Rightarrow> bool" where
  "clients_ok tasks st \<longleftrightarrow>
     (\<forall>c. idle (fst st (2 * c)) \<or> (\<exists>i pc. c < length tasks \<and> tasks ! c = AtRunning i pc \<and> waits pc))"

lemma clients_ok_append: "clients_ok tasks st \<Longrightarrow> clients_ok (tasks @ ts) st"
  unfolding clients_ok_def by (metis length_append nth_append trans_less_add1)

lemma clients_ok_set:
  assumes "clients_ok tasks st" "\<And>d. d \<noteq> 2 * c \<Longrightarrow> fst st' d = fst st d"
    "idle (fst st' (2 * c)) \<or> (c < length tasks \<and> (\<exists>i pc. task = AtRunning i pc \<and> waits pc))"
  shows "clients_ok (tasks[c := task]) st'"
  unfolding clients_ok_def
proof
  fix d
  show "idle (fst st' (2 * d)) \<or> (\<exists>i pc. d < length (tasks[c := task]) \<and> tasks[c := task] ! d = AtRunning i pc \<and> waits pc)"
    using assms(1) [unfolded clients_ok_def, rule_format, of d] assms(2) [of "2 * d"] assms(3) by (cases "d = c") auto
qed

lemma send_outbound_frame [simp]:
  "ak_tasks (send_outbound msgs ak) = ak_tasks ak" "ak_received (send_outbound msgs ak) = ak_received ak"
  "ak_rejected (send_outbound msgs ak) = ak_rejected ak" "ak_writer_ok (send_outbound msgs ak) = ak_writer_ok ak"
  "ak_modes (send_outbound msgs ak) = ak_modes ak"
  by (simp_all add: send_outbound_def)

lemma serve_message_tasks:
  "\<exists>ts. ak_tasks (serve_message msg ak) = ak_tasks ak @ ts"
  by (auto simp: serve_message_def spawn_handler_def Let_def split: sum.split InboundKind.split)

lemma acp_server:
  "acp_reachable be capacity serde_error (ak, st) \<Longrightarrow> reachable be capacity st \<and> clients_ok (ak_tasks ak) st"
proof (induction "(ak, st)" arbitrary: ak st rule: acp_reachable.induct)
  case (acp_connect st modes) then show ?case by (simp add: clients_ok_def)
next
  case (acp_next s)
  obtain ak0 pcs0 sv0 where s: "s = (ak0, (pcs0, sv0))" by (cases s) auto
  note ih = acp_next(2) [OF s]
  from acp_next(3) [unfolded s] show ?case
  proof (cases rule: acp_step.cases)
    case (message msg)
    then show ?thesis using ih serve_message_tasks [of msg ak0] clients_ok_append by fastforce
  next
    case (handler c i pc pc' msgs modes')
    have "idle (pcs0 (2 * c)) \<or> waits pc"
      using ih handler unfolding clients_ok_def by (metis acp_task.inject(1) fst_conv)
    then have "client_ok be capacity c pcs0 (pc', st)"
      using handler_step_ok ih handler by blast
    then show ?thesis
      using handler ih clients_ok_set [of "ak_tasks ak0" "(pcs0, sv0)" c st "AtRunning i pc'"] by (auto simp: client_ok_def)
  next
    case (finish c i r)
    then have "idle (pcs0 (2 * c))"
      using ih unfolding clients_ok_def by (metis acp_task.inject(1) fst_conv waits.simps(11))
    then show ?thesis
      using finish ih clients_ok_set [of "ak_tasks ak0" "(pcs0, sv0)" c "(pcs0, sv0)"] by (simp add: finish_handler_def)
  next
    case write_failed then show ?thesis using ih by simp
  next
    case server
    have "reachable be capacity st" using reachable.step [OF conjunct1 [OF ih] server(2)] .
    moreover have "clients_ok (ak_tasks ak0) st"
      using conjunct2 [OF ih] server(3) unfolding clients_ok_def by metis
    ultimately show ?thesis using server(1) by simp
  qed
qed

section \<open>Replies\<close>

fun task_id :: "acp_task \<Rightarrow> json option" where
  "task_id (AtRunning i _) = i"
| "task_id (AtFinished i _) = i"

fun task_answer :: "acp_task \<Rightarrow> OutboundMessage list" where
  "task_answer (AtFinished (Some i) r) = [handler_response i r]"
| "task_answer _ = []"

fun kind_id :: "InboundKind \<Rightarrow> json option" where
  "kind_id (KRequest i _ _) = Some i"
| "kind_id _ = None"

abbreviation answers :: "OutboundMessage list \<Rightarrow> OutboundMessage list" where
  "answers \<equiv> filter (\<lambda>m. out_method m = None)"

definition reply_ok :: "acp_conn \<Rightarrow> bool" where
  "reply_ok ak \<longleftrightarrow>
     map task_id (ak_tasks ak) = map kind_id (ak_received ak) \<and>
     (ak_writer_ok ak \<longrightarrow>
        mset (answers (ak_out ak)) = mset (concat (map task_answer (ak_tasks ak))) + mset (ak_rejected ak))"

lemma handler_response_answer [simp]: "out_method (handler_response i r) = None"
  by (simp add: handler_response_def outbound_result_def outbound_error_def split: sum.split)

lemma task_answer_update:
  assumes "c < length tasks" "task_answer (tasks ! c) = []"
  shows "mset (concat (map task_answer (tasks[c := t]))) = mset (concat (map task_answer tasks)) + mset (task_answer t)"
proof -
  have "tasks = take c tasks @ tasks ! c # drop (Suc c) tasks" using assms(1) by (rule id_take_nth_drop)
  then have "map task_answer tasks = map task_answer (take c tasks) @ [] # map task_answer (drop (Suc c) tasks)"
    by (metis assms(2) list.map(2) map_append)
  then show ?thesis
    by (simp add: upd_conv_take_nth_drop [OF assms(1)])
qed

lemma reply_ok_task:
  assumes "reply_ok ak" "c < length (ak_tasks ak)" "task_answer (ak_tasks ak ! c) = []"
    "task_id t = task_id (ak_tasks ak ! c)" "answers msgs = task_answer t"
  shows "reply_ok (send_outbound msgs (ak\<lparr>ak_tasks := (ak_tasks ak)[c := t], ak_modes := modes\<rparr>))"
proof -
  have "map task_id ((ak_tasks ak)[c := t]) = map task_id (ak_tasks ak)"
    using assms(2,4) by (metis list_update_id map_update nth_map)
  then show ?thesis
    using assms(1,5) task_answer_update [OF assms(2,3), of t]
    by (simp add: reply_ok_def send_outbound_def del: mset_filter)
qed

lemma serve_message_reply_ok: "reply_ok ak \<Longrightarrow> reply_ok (serve_message msg ak)"
  by (auto simp: serve_message_def spawn_handler_def reply_ok_def send_outbound_def outbound_error_def Let_def
      split: sum.split InboundKind.split)

lemma finish_handler_reply_ok:
  assumes "reply_ok ak" "c < length (ak_tasks ak)" "ak_tasks ak ! c = AtRunning i pc"
  shows "reply_ok (finish_handler c i r ak)"
proof -
  have "ak\<lparr>ak_tasks := ts, ak_modes := ak_modes ak\<rparr> = ak\<lparr>ak_tasks := ts\<rparr>" for ts by simp
  then show ?thesis
    using reply_ok_task [OF assms(1,2), of "AtFinished i r" "case i of Some i \<Rightarrow> [handler_response i r] | None \<Rightarrow> []" "ak_modes ak"]
      assms(3) by (simp add: finish_handler_def split: option.split)
qed

lemma acp_reply_ok: "acp_reachable be capacity serde_error (ak, st) \<Longrightarrow> reply_ok ak"
proof (induction "(ak, st)" arbitrary: ak st rule: acp_reachable.induct)
  case (acp_connect st modes) then show ?case by (simp add: reply_ok_def acp_conn_new_def)
next
  case (acp_next s)
  obtain ak0 pcs0 sv0 where s: "s = (ak0, (pcs0, sv0))" by (cases s) auto
  note ih = acp_next(2) [OF s]
  from acp_next(3) [unfolded s] show ?case
  proof (cases rule: acp_step.cases)
    case (message msg) then show ?thesis using ih serve_message_reply_ok by simp
  next
    case (handler c i pc pc' msgs modes')
    have inv: "reachable be capacity (pcs0, sv0)" "idle (pcs0 (2 * c)) \<or> waits pc"
      using acp_server [OF acp_next(1) [unfolded s]] handler unfolding clients_ok_def
      by (auto dest: spec [of _ c])
    have "\<forall>m \<in> set msgs. out_method m \<noteq> None" using handler_step_ok [OF inv handler(4)] by blast
    then have "answers msgs = []" by (simp add: filter_empty_conv)
    then show ?thesis using handler reply_ok_task [OF ih handler(2), of "AtRunning i pc'" msgs modes'] by simp
  next
    case (finish c i r) then show ?thesis using finish_handler_reply_ok [OF ih] by simp
  qed (use ih in \<open>simp_all add: reply_ok_def\<close>)
qed

text \<open>
  C18: handlers of the ACP connection only drive the server through its own operations: every state
  the server can be in behind a connection, whatever the client sends and however the handlers
  interleave with the server's tasks and other clients, is a state the server can reach without
  it, so every invariant of the server holds there.  Handler \<open>c\<close> has an operation under way only
  while it waits for the spawn of a lane or the load of a session.
\<close>

theorem acp_refines:
  assumes "acp_reachable be capacity serde_error (ak, st)"
  shows "reachable be capacity st
    \<and> (\<forall>c. idle (fst st (2 * c)) \<or> (\<exists>i pc. c < length (ak_tasks ak) \<and> ak_tasks ak ! c = AtRunning i pc \<and> waits pc))"
  using acp_server [OF assms] by (auto simp: clients_ok_def)

text \<open>
  C8: every request of the client is answered exactly once, with its own id, when its handler
  ends, and not before; a notification is never answered, and a message that is no valid
  JSON-RPC message gets one error.  While the connection can be written to, the messages sent
  that are not requests or notifications of the agent are these answers and no others.
\<close>

theorem acp_one_reply:
  assumes "acp_reachable be capacity serde_error (ak, st)"
  shows "map task_id (ak_tasks ak) = map kind_id (ak_received ak)
    \<and> (ak_writer_ok ak \<longrightarrow>
         mset (answers (ak_out ak)) = mset (concat (map task_answer (ak_tasks ak))) + mset (ak_rejected ak))"
  using acp_reply_ok [OF assms] by (auto simp: reply_ok_def)

text \<open>A run: the request \<open>initialize\<close> under id 7, whose handler ends, and an unknown notification.\<close>

definition demo_inbound :: "json option \<Rightarrow> string \<Rightarrow> InboundMessage" where
  "demo_inbound i method =
     \<lparr>in_jsonrpc = Some ''2.0'', in_id = i, in_method = Some method, in_params = None, in_result = None, in_error = None\<rparr>"

lemma demo_acp:
  "\<exists>ak (st :: (unit, unit) system). acp_reachable null_backend 100 (\<lambda>_. []) (ak, st) \<and> ak_writer_ok ak
     \<and> ak_rejected ak = [] \<and> ak_received ak = [KRequest (from_i64 7) ''initialize'' JNull, KNotification ''x'' JNull]
     \<and> ak_tasks ak = [AtFinished (Some (from_i64 7)) (Inr handle_initialize), AtRunning None (ApStart ''x'' JNull)]"
proof -
  let ?st = "(\<lambda>_. PcDone (Inr ()), demo_session) :: (unit, unit) system"
  let ?ak0 = "acp_conn_new Map.empty"
  let ?ak1 = "serve_message (demo_inbound None ''x'') (serve_message (demo_inbound (Some (from_i64 7)) ''initialize'') ?ak0)"
  let ?ak2 = "send_outbound [] (?ak1\<lparr>ak_tasks := (ak_tasks ?ak1)[0 := AtRunning (Some (from_i64 7)) (ApDone (Inr handle_initialize))],
      ak_modes := ak_modes ?ak1\<rparr>)"
  note serve = serve_message_def spawn_handler_def classify_inbound_def demo_inbound_def acp_conn_new_def Let_def
  have "acp_reachable null_backend 100 (\<lambda>_. []) (?ak0, ?st)"
    by (rule acp_connect) (simp_all add: demo_session_reachable)
  then have r1: "acp_reachable null_backend 100 (\<lambda>_. []) (?ak1, ?st)"
    by (rule acp_next [OF acp_next [OF _ acp_step.message] acp_step.message])
  have "acp_reachable null_backend 100 (\<lambda>_. []) (?ak2, ?st)"
    by (rule acp_next [OF r1 acp_step.handler [where pc = "ApStart ''initialize'' JNull"]])
      (simp_all add: serve handler_step_def acp_handle_def)
  then have "acp_reachable null_backend 100 (\<lambda>_. []) (finish_handler 0 (Some (from_i64 7)) (Inr handle_initialize) ?ak2, ?st)"
    by (rule acp_next [OF _ acp_step.finish]) (simp_all add: serve)
  then show ?thesis
    by (rule_tac exI, rule_tac exI, rule_tac conjI, assumption) (simp add: serve finish_handler_def)
qed

lemma acp_refines_witness:
  "\<exists>ak (st :: (unit, unit) system). acp_reachable null_backend 100 (\<lambda>_. []) (ak, st) \<and> length (ak_tasks ak) = 2
     \<and> reachable null_backend 100 st"
  using demo_acp acp_refines by fastforce

lemma acp_one_reply_witness:
  "\<exists>ak (st :: (unit, unit) system). acp_reachable null_backend 100 (\<lambda>_. []) (ak, st)
     \<and> answers (ak_out ak) = [outbound_result (from_i64 7) handle_initialize]"
proof -
  obtain ak and st :: "(unit, unit) system" where ak: "acp_reachable null_backend 100 (\<lambda>_. []) (ak, st)" "ak_writer_ok ak"
      "ak_rejected ak = []"
      "ak_tasks ak = [AtFinished (Some (from_i64 7)) (Inr handle_initialize), AtRunning None (ApStart ''x'' JNull)]"
    using demo_acp by blast
  have "mset (answers (ak_out ak)) = {#outbound_result (from_i64 7) handle_initialize#}"
    using acp_one_reply [OF ak(1)] ak(2-4) by (simp add: handler_response_def)
  then have "answers (ak_out ak) = [outbound_result (from_i64 7) handle_initialize]"
    by (simp only: mset_single_iff)
  then show ?thesis using ak(1) by blast
qed

end
