(* ===== verification/Text_Ops.thy ===== *)
theory Text_Ops
  imports Utf8
begin

text \<open>
  Operations on text that the sources take from the standard library: the characters of a
  string, trimming, numbers and truncation to a number of characters.
\<close>

section \<open>Characters\<close>

text \<open>\<open>str::chars\<close>, each character as its bytes.\<close>

function chars :: "string \<Rightarrow> string list" where
  "chars s = (if s = [] then [] else take (snd (utf8_step s)) s # chars (drop (snd (utf8_step s)) s))"
  by auto

termination chars
  using utf8_step_pos by (relation "measure length") auto

declare chars.simps [simp del]

text \<open>The characters with the property \<open>White_Space\<close>, which \<open>str::trim\<close> removes.\<close>

definition white_space :: "string \<Rightarrow> bool" where
  "white_space c =
     (map byte c \<in> set ([[9], [10], [11], [12], [13], [32], [194, 133], [194, 160], [225, 154, 128], [226, 128, 168],
        [226, 128, 169], [226, 128, 175], [226, 129, 159], [227, 128, 128]] @ map (\<lambda>b. [226, 128, b]) [128..<139]))"

definition str_trim :: "string \<Rightarrow> string" where
  "str_trim s = concat (rev (dropWhile white_space (rev (dropWhile white_space (chars s)))))"

definition ellipsis :: string where
  "ellipsis = map char_of [226 :: nat, 128, 166]"

text \<open>\<open>truncate\<close> of state.rs and \<open>truncate_display\<close> of render.rs.\<close>

definition truncate_chars :: "string \<Rightarrow> nat \<Rightarrow> string" where
  "truncate_chars s n = (if length (chars s) \<le> n then s else concat (take n (chars s)) @ ellipsis)"

section \<open>Numbers\<close>

text \<open>\<open>str::parse::<u64>\<close>.\<close>

definition is_digit :: "char \<Rightarrow> bool" where
  "is_digit c = (48 \<le> byte c \<and> byte c < 58)"

definition digits_value :: "string \<Rightarrow> nat" where
  "digits_value s = foldl (\<lambda>n c. 10 * n + (byte c - 48)) 0 s"

definition parse_u64 :: "string \<Rightarrow> nat option" where
  "parse_u64 s =
     (let ds = strip_prefix1 (CHR ''+'') s in
      if ds = [] \<or> \<not> list_all is_digit ds then None
      else if digits_value ds < 2 ^ 64 then Some (digits_value ds) else None)"

section \<open>Lemmas\<close>

definition one_char :: "string \<Rightarrow> bool" where
  "one_char c \<longleftrightarrow> c \<noteq> [] \<and> utf8_step c = (True, length c)"

lemma chars_Nil [simp]: "chars [] = []"
  by (simp add: chars.simps)

lemma concat_chars [simp]: "concat (chars s) = s"
  by (induction s rule: chars.induct) (subst chars.simps, auto)

lemma chars_valid: "utf8_valid s \<Longrightarrow> c \<in> set (chars s) \<Longrightarrow> one_char c"
proof (induction s rule: chars.induct)
  case (1 s)
  show ?case
  proof (cases "s = []")
    case False
    obtain n where n: "utf8_step s = (True, n)" "utf8_valid (drop n s)"
      using 1(2) False by (cases "utf8_step s") (simp add: utf8_valid.simps [of s])
    have "one_char (take n s)"
      using utf8_step_take [OF n(1)] utf8_step_append [OF n(1), of "[]"] utf8_step_pos [of s] n(1) False
      by (auto simp: one_char_def min_def)
    moreover have "chars s = take n s # chars (drop n s)" using n(1) False by (subst chars.simps) simp
    ultimately show ?thesis using 1(1) [OF False] 1(3) n by auto
  qed (use 1 in simp)
qed

lemma chars_Cons: "one_char c \<Longrightarrow> chars (c @ s) = c # chars s"
  using utf8_step_append [of c "length c" s] by (subst chars.simps) (auto simp: one_char_def)

lemma chars_concat: "\<forall>c \<in> set cs. one_char c \<Longrightarrow> chars (concat cs) = cs"
  by (induction cs) (simp_all add: chars_Cons)

lemma chars_ascii: "\<forall>c \<in> set s. byte c < 128 \<Longrightarrow> chars s = map (\<lambda>c. [c]) s"
  by (induction s) (subst chars.simps, simp add: Let_def)+

lemma show_nat_value: "list_all is_digit (show_nat n) \<and> show_nat n \<noteq> [] \<and> digits_value (show_nat n) = n"
proof (induction n rule: show_nat.induct)
  case (1 n)
  have d: "byte (char_of (48 + d)) = 48 + d" if "d < 10" for d :: nat
    using that by (simp add: byte_def)
  then have g: "is_digit (char_of (48 + d))" if "d < 10" for d :: nat
    using that by (simp add: is_digit_def)
  show ?case
  proof (cases "n < 10")
    case True
    then show ?thesis using d [of n] g [of n] by (subst (1 2 3) show_nat.simps) (simp add: digits_value_def)
  next
    case False
    then show ?thesis
      using 1 [OF False] d [of "n mod 10"] g [of "n mod 10"]
      by (subst (1 2 3) show_nat.simps) (simp add: digits_value_def)
  qed
qed

lemma parse_show_nat: "n < 2 ^ 64 \<Longrightarrow> parse_u64 (show_nat n) = Some n"
proof -
  assume "n < 2 ^ 64"
  moreover have "strip_prefix1 (CHR ''+'') (show_nat n) = show_nat n"
    using show_nat_value [of n] by (cases "show_nat n") (auto simp: strip_prefix1_def is_digit_def byte_def)
  ultimately show ?thesis using show_nat_value [of n] by (simp add: parse_u64_def Let_def)
qed

lemma trim_visible:
  assumes "\<forall>c \<in> set s. byte c < 128 \<and> \<not> white_space [c]"
  shows "str_trim s = s"
proof -
  have "chars s = map (\<lambda>c. [c]) s" using assms by (intro chars_ascii) simp
  moreover have "dropWhile white_space xs = xs" if "set xs \<subseteq> (\<lambda>c. [c]) ` set s" for xs
    using assms that by (cases xs) auto
  ultimately show ?thesis by (simp add: str_trim_def concat_map_singleton)
qed

lemma white_space_ascii: "byte c < 128 \<Longrightarrow> white_space [c] \<longleftrightarrow> byte c \<in> {9, 10, 11, 12, 13, 32}"
  by (auto simp: white_space_def)

lemma trim_show_nat [simp]: "str_trim (show_nat n) = show_nat n"
  using show_nat_value [of n]
  by (intro trim_visible) (auto simp: list_all_iff is_digit_def white_space_ascii)

end
