(* ===== verification/Tui.thy ===== *)
theory Tui
  imports Server_Steps Text_Ops "HOL-Library.Sublist"
begin

text \<open>
  The terminal interface (\<open>bin/guigu/tui\<close>): what it shows (\<open>state.rs\<close>), what keys do
  (\<open>input.rs\<close>), the lines it draws (\<open>render.rs\<close>) and its event loop (\<open>mod.rs\<close>).  Colours and
  the terminal itself are left out.  \<open>show_json\<close> is serde's compact text of a value.
\<close>

section \<open>State (state.rs)\<close>

definition MAX_OUTPUT :: nat where
  "MAX_OUTPUT = 400"

datatype Status = UiIdle | UiRunning | UiError

record StreamingBubble =
  sb_text :: string
  sb_thinking :: string

datatype ToolCardStatus = CardRunning | CardPartial | CardDone | CardFailed

record ToolCard =
  card_id :: string
  card_name :: string
  card_args :: string
  card_status :: ToolCardStatus
  card_output :: string

datatype ConvItem = ConvUser string | ConvAssistant string | ConvTool ToolCard

record TuiState =
  tu_model :: string
  tu_lane :: LaneId
  tu_conv :: "ConvItem list"
  tu_streaming :: "StreamingBubble option"
  tu_input :: string
  tu_history :: "string list"
  tu_cursor :: usize
  tu_scroll :: usize
  tu_status :: Status
  tu_usage :: "Usage option"
  tu_error :: "string option"
  tu_abort :: bool

definition usize_max :: usize where
  "usize_max = - 1"

definition tui_new :: "string \<Rightarrow> LaneId \<Rightarrow> TuiState" where
  "tui_new model lane =
     \<lparr>tu_model = model, tu_lane = lane, tu_conv = [], tu_streaming = None, tu_input = [], tu_history = [],
      tu_cursor = usize_max, tu_scroll = 0, tu_status = UiIdle, tu_usage = None, tu_error = None, tu_abort = False\<rparr>"

definition push_item :: "ConvItem \<Rightarrow> TuiState \<Rightarrow> TuiState" where
  "push_item item s = s\<lparr>tu_conv := tu_conv s @ [item], tu_scroll := 0\<rparr>"

definition finalize_streaming :: "TuiState \<Rightarrow> TuiState" where
  "finalize_streaming s =
     (case tu_streaming s of
        None \<Rightarrow> s
      | Some b \<Rightarrow>
          (let s = s\<lparr>tu_streaming := None\<rparr> in
           if sb_text b = [] then s else push_item (ConvAssistant (sb_text b)) s))"

text \<open>\<open>find_tool_card\<close> and a change of the crd it finds; \<open>None\<close>: there is none.\<close>

fun change_card :: "string \<Rightarrow> (ToolCard \<Rightarrow> ToolCard) \<Rightarrow> ConvItem list \<Rightarrow> ConvItem list option" where
  "change_card i f [] = None"
| "change_card i f (ConvTool crd # items) =
     (if card_id crd = i then Some (ConvTool (f crd) # items)
      else map_option ((#) (ConvTool crd)) (change_card i f items))"
| "change_card i f (item # items) = map_option ((#) item) (change_card i f items)"

definition with_card :: "string \<Rightarrow> (ToolCard \<Rightarrow> ToolCard) \<Rightarrow> TuiState \<Rightarrow> TuiState" where
  "with_card i f s = (case change_card i f (tu_conv s) of Some conv \<Rightarrow> s\<lparr>tu_conv := conv\<rparr> | None \<Rightarrow> s)"

definition upsert_tool_card :: "string \<Rightarrow> string \<Rightarrow> string \<Rightarrow> ToolCardStatus \<Rightarrow> TuiState \<Rightarrow> TuiState" where
  "upsert_tool_card i name args status s =
     (case change_card i (\<lambda>crd. crd\<lparr>card_name := name, card_args := args, card_status := status\<rparr>) (tu_conv s) of
        Some conv \<Rightarrow> s\<lparr>tu_conv := conv\<rparr>
      | None \<Rightarrow> push_item (ConvTool \<lparr>card_id = i, card_name = name, card_args = args, card_status = status,
                   card_output = []\<rparr>) s)"

fun user_part :: "UserContent \<Rightarrow> string option" where
  "user_part (UserText t) = Some t"
| "user_part (UserImage _) = None"

definition ui_user_text :: "UserMessage \<Rightarrow> string" where
  "ui_user_text user = join '' '' (List.map_filter user_part (um_content user))"

fun result_part :: "ToolResultContent \<Rightarrow> string option" where
  "result_part (ResultText t) = Some t"
| "result_part (ResultImage _) = None"

definition ui_result_text :: "ToolResult \<Rightarrow> string" where
  "ui_result_text result = join '' '' (List.map_filter result_part (tr_content result))"

definition bubble :: "TuiState \<Rightarrow> StreamingBubble" where
  "bubble s = (case tu_streaming s of Some b \<Rightarrow> b | None \<Rightarrow> \<lparr>sb_text = [], sb_thinking = []\<rparr>)"

fun apply_update :: "AssistantEvent \<Rightarrow> TuiState \<Rightarrow> TuiState" where
  "apply_update (TextDelta t) s =
     s\<lparr>tu_streaming := Some ((bubble s)\<lparr>sb_text := sb_text (bubble s) @ t\<rparr>), tu_scroll := 0\<rparr>"
| "apply_update (ThinkingDelta t) s =
     s\<lparr>tu_streaming := Some ((bubble s)\<lparr>sb_thinking := sb_thinking (bubble s) @ t\<rparr>)\<rparr>"
| "apply_update (ToolCallStart i name args) s = upsert_tool_card i name args CardRunning s"
| "apply_update (ToolCallDelta i delta) s = with_card i (\<lambda>crd. crd\<lparr>card_args := card_args crd @ delta\<rparr>) s"
| "apply_update (ToolCallEnd _) s = s"
| "apply_update (Done _) s = s"
| "apply_update (StreamError message _) s =
     finalize_streaming (s\<lparr>tu_error := Some message, tu_status := UiError\<rparr>)"

fun apply_event :: "(json \<Rightarrow> string) \<Rightarrow> AgentEvent \<Rightarrow> TuiState \<Rightarrow> TuiState" where
  "apply_event show_json AgentStart s = s\<lparr>tu_status := UiRunning, tu_error := None, tu_abort := False\<rparr>"
| "apply_event show_json (AgentEnd _) s = (finalize_streaming s)\<lparr>tu_status := UiIdle, tu_abort := False\<rparr>"
| "apply_event show_json TurnStart s = s"
| "apply_event show_json (TurnEnd _ _) s = finalize_streaming s"
| "apply_event show_json (MessageStart message) s =
     (case message of
        User user \<Rightarrow> push_item (ConvUser (ui_user_text user)) s
      | Assistant _ \<Rightarrow> s\<lparr>tu_streaming := None\<rparr>
      | ToolResult _ \<Rightarrow> s)"
| "apply_event show_json (MessageUpdate _ event) s = apply_update event s"
| "apply_event show_json (MessageEnd message) s =
     (case message of
        Assistant a \<Rightarrow>
          finalize_streaming (case am_usage a of Some usage \<Rightarrow> s\<lparr>tu_usage := Some usage\<rparr> | None \<Rightarrow> s)
      | _ \<Rightarrow> s)"
| "apply_event show_json (ToolExecutionStart i name args) s = upsert_tool_card i name (show_json args) CardRunning s"
| "apply_event show_json (ToolExecutionUpdate i _ _ partial) s =
     with_card i (\<lambda>crd. crd\<lparr>card_status := CardPartial, card_output := truncate_chars (ui_result_text partial) MAX_OUTPUT\<rparr>) s"
| "apply_event show_json (ToolExecutionEnd i _ result is_error) s =
     with_card i (\<lambda>crd. crd\<lparr>card_status := (if is_error then CardFailed else CardDone),
       card_output := truncate_chars (ui_result_text result) MAX_OUTPUT\<rparr>) s"

section \<open>Keys (input.rs)\<close>

datatype Key =
    KeyChar string | KeyEnter | KeyBackspace | KeyUp | KeyDown | KeyPageUp | KeyPageDown | KeyCtrlC | KeyEsc | KeyOther

datatype KeyAction = ActNone | ActSubmit string | ActAbort | ActExit

definition PAGE_LINES :: usize where
  "PAGE_LINES = 10"

text \<open>Reading an entry of the history; \<open>None\<close>: the index panics.\<close>

definition recall :: "usize \<Rightarrow> TuiState \<Rightarrow> TuiState option" where
  "recall cursor s =
     (if unat cursor < length (tu_history s)
      then Some (s\<lparr>tu_cursor := cursor, tu_input := tu_history s ! unat cursor\<rparr>) else None)"

definition handle_key :: "Key \<Rightarrow> TuiState \<Rightarrow> (KeyAction \<times> TuiState) option" where
  "handle_key k s =
     (case k of
        KeyEnter \<Rightarrow>
          (let input = str_trim (tu_input s) in
           if input = [] then Some (ActNone, s)
           else if input = ''/quit'' \<or> input = ''/exit'' then Some (ActExit, s\<lparr>tu_input := []\<rparr>)
           else Some (ActSubmit input, s\<lparr>tu_history := tu_history s @ [input], tu_cursor := usize_max, tu_input := []\<rparr>))
      | KeyChar c \<Rightarrow>
          (let s = (if tu_cursor s \<noteq> usize_max then s\<lparr>tu_input := [], tu_cursor := usize_max\<rparr> else s) in
           Some (ActNone, s\<lparr>tu_input := tu_input s @ c\<rparr>))
      | KeyBackspace \<Rightarrow> Some (ActNone, s\<lparr>tu_input := concat (butlast (chars (tu_input s)))\<rparr>)
      | KeyUp \<Rightarrow>
          if tu_history s = [] then Some (ActNone, s)
          else map_option (Pair ActNone)
            (recall (if tu_cursor s = usize_max then of_nat (length (tu_history s)) - 1
                     else if 0 < tu_cursor s then tu_cursor s - 1 else tu_cursor s) s)
      | KeyDown \<Rightarrow>
          if tu_cursor s = usize_max then Some (ActNone, s)
          else if unat (tu_cursor s) + 1 < length (tu_history s)
          then map_option (Pair ActNone) (recall (tu_cursor s + 1) s)
          else Some (ActNone, s\<lparr>tu_cursor := usize_max, tu_input := []\<rparr>)
      | KeyCtrlC \<Rightarrow>
          if tu_status s = UiRunning
          then (if tu_abort s then Some (ActExit, s) else Some (ActAbort, s\<lparr>tu_abort := True\<rparr>))
          else Some (ActExit, s)
      | KeyEsc \<Rightarrow> Some (ActExit, s)
      | KeyPageUp \<Rightarrow>
          Some (ActNone, s\<lparr>tu_scroll :=
            (if unat (tu_scroll s) + unat PAGE_LINES < 2 ^ 64 then tu_scroll s + PAGE_LINES else usize_max)\<rparr>)
      | KeyPageDown \<Rightarrow>
          Some (ActNone, s\<lparr>tu_scroll := (if PAGE_LINES \<le> tu_scroll s then tu_scroll s - PAGE_LINES else 0)\<rparr>)
      | KeyOther \<Rightarrow> Some (ActNone, s))"

section \<open>Lines (render.rs)\<close>

fun wrap_loop :: "nat \<Rightarrow> string list \<Rightarrow> string list \<Rightarrow> string list \<Rightarrow> string list" where
  "wrap_loop width done_lines current [] =
     (if current \<noteq> [] \<or> done_lines = [] then done_lines @ [concat current] else done_lines)"
| "wrap_loop width done_lines current (c # cs) =
     (if c = [CHR 0x0A] then wrap_loop width (done_lines @ [concat current]) [] cs
      else if width \<le> length current then wrap_loop width (done_lines @ [concat current]) [c] cs
      else wrap_loop width done_lines (current @ [c]) cs)"

definition wrap_text :: "string \<Rightarrow> nat \<Rightarrow> string list" where
  "wrap_text s width = (if width = 0 then [s] else wrap_loop width [] [] (chars s))"

definition glyph :: "nat list \<Rightarrow> string" where
  "glyph bs = map char_of bs"

definition card_status_text :: "ToolCardStatus \<Rightarrow> string" where
  "card_status_text status =
     (case status of CardRunning \<Rightarrow> ''running'' | CardPartial \<Rightarrow> ''running'' | CardDone \<Rightarrow> ''done'' | CardFailed \<Rightarrow> ''failed'')"

definition render_tool_card :: "ToolCard \<Rightarrow> nat \<Rightarrow> string list" where
  "render_tool_card crd width =
     [glyph [226, 148, 140] @ glyph [226, 148, 128] @ '' tool: '' @ card_name crd @ '' '' @ glyph [226, 148, 128] @ '' ''
        @ card_status_text (card_status crd)]
     @ (if card_args crd = [] then []
        else [glyph [226, 148, 130] @ '' $ '' @ truncate_chars (card_args crd) (width - 6)])
     @ (if card_output crd = [] then []
        else map (\<lambda>l. glyph [226, 148, 130] @ '' '' @ l) (wrap_text (card_output crd) (width - 2)))
     @ [glyph [226, 148, 148] @ glyph [226, 148, 128]]"

fun item_lines :: "nat \<Rightarrow> ConvItem \<Rightarrow> string list" where
  "item_lines width (ConvUser t) =
     ''> '' # (if t = [] then [] else map (\<lambda>l. ''  '' @ l) (wrap_text t (width - 2)))"
| "item_lines width (ConvAssistant t) = (if t = [] then [] else wrap_text t width)"
| "item_lines width (ConvTool crd) = render_tool_card crd width"

definition streaming_lines :: "nat \<Rightarrow> StreamingBubble option \<Rightarrow> string list" where
  "streaming_lines width streaming =
     (case streaming of
        None \<Rightarrow> []
      | Some b \<Rightarrow>
          (if sb_text b = [] \<and> sb_thinking b \<noteq> [] then ['' thinking'' @ ellipsis] else [])
          @ (if sb_text b = [] then [] else wrap_text (sb_text b) width))"

text \<open>The lines of the conversation that fit; \<open>None\<close>: the slice panics.\<close>

definition viewport :: "nat \<Rightarrow> usize \<Rightarrow> 'a list \<Rightarrow> 'a list option" where
  "viewport visible scroll lines =
     (let total = length lines; max_scroll = total - visible; scroll = min (unat scroll) max_scroll;
          start = total - visible - scroll; stop = total - scroll in
      if start \<le> stop \<and> stop \<le> length lines then Some (take (stop - start) (drop start lines)) else None)"

definition render_conversation :: "nat \<Rightarrow> nat \<Rightarrow> TuiState \<Rightarrow> string list option" where
  "render_conversation width height s =
     viewport height (tu_scroll s) (concat (map (item_lines width) (tu_conv s)) @ streaming_lines width (tu_streaming s))"

definition status_text :: "Status \<Rightarrow> string" where
  "status_text status =
     (case status of
        UiIdle \<Rightarrow> glyph [226, 151, 143] @ '' idle''
      | UiRunning \<Rightarrow> glyph [226, 151, 140] @ '' running''
      | UiError \<Rightarrow> glyph [226, 156, 151] @ '' error'')"

definition render_status_bar :: "TuiState \<Rightarrow> string" where
  "render_status_bar s =
     '' '' @ tu_model s @ '' '' @ glyph [194, 183] @ '' '' @ tu_lane s @ '' '' @ glyph [194, 183] @ '' ''
     @ (case tu_usage s of Some u \<Rightarrow> show_nat (unat (usage_total_tokens u)) @ '' tok'' | None \<Rightarrow> [])
     @ '' '' @ glyph [194, 183] @ '' '' @ status_text (tu_status s)
     @ (case tu_error s of Some e \<Rightarrow> ''  '' @ e | None \<Rightarrow> [])"

definition render_input :: "TuiState \<Rightarrow> string" where
  "render_input s = ''> '' @ tu_input s"

section \<open>The event loop (mod.rs)\<close>

datatype KeyCode =
    CodeChar string | CodeEnter | CodeBackspace | CodeUp | CodeDown | CodePageUp | CodePageDown | CodeEsc | CodeOther

record KeyEvent =
  ke_control :: bool
  ke_code :: KeyCode

definition from_crossterm :: "KeyEvent \<Rightarrow> Key" where
  "from_crossterm event =
     (if ke_control event then (if ke_code event = CodeChar ''c'' then KeyCtrlC else KeyOther)
      else (case ke_code event of
              CodeChar c \<Rightarrow> KeyChar c | CodeEnter \<Rightarrow> KeyEnter | CodeBackspace \<Rightarrow> KeyBackspace | CodeUp \<Rightarrow> KeyUp
            | CodeDown \<Rightarrow> KeyDown | CodePageUp \<Rightarrow> KeyPageUp | CodePageDown \<Rightarrow> KeyPageDown | CodeEsc \<Rightarrow> KeyEsc
            | CodeOther \<Rightarrow> KeyOther))"

datatype TuiCommand = CmdPrompt "Message list" | CmdAbort

text \<open>What \<open>select!\<close> takes next.\<close>

datatype ui_input =
    InKey KeyEvent | InReadError string | InReaderGone
  | InEvent AgentEvent | InLagged | InClosed
  | InPromptFailed string | InPromptAccepted | InResultsGone
  | InTick

datatype ui_end = LoopGoes | LoopOk | LoopErr string | LoopPanic

definition prompt_message :: "string \<Rightarrow> Message" where
  "prompt_message prompt = User \<lparr>um_content = [UserText prompt], um_timestamp = 0\<rparr>"

definition fail_with :: "string \<Rightarrow> TuiState \<Rightarrow> TuiState" where
  "fail_with e s = s\<lparr>tu_error := Some e, tu_status := UiError\<rparr>"

text \<open>
  One turn of the loop before it draws, with the commands it sends; \<open>task_ok\<close>: the task that
  takes them still runs.
\<close>

definition loop_key :: "bool \<Rightarrow> KeyEvent \<Rightarrow> TuiState \<Rightarrow> ui_end \<times> TuiState \<times> TuiCommand list" where
  "loop_key task_ok event s =
     (case handle_key (from_crossterm event) s of
        None \<Rightarrow> (LoopPanic, s, [])
      | Some (ActNone, s) \<Rightarrow> (LoopGoes, s, [])
      | Some (ActSubmit prompt, s) \<Rightarrow>
          if task_ok then (LoopGoes, s, [CmdPrompt [prompt_message prompt]])
          else (LoopGoes, fail_with ''command task exited'' s, [])
      | Some (ActAbort, s) \<Rightarrow> (LoopGoes, s, if task_ok then [CmdAbort] else [])
      | Some (ActExit, s) \<Rightarrow> (LoopOk, s, []))"

definition loop_input ::
    "(json \<Rightarrow> string) \<Rightarrow> bool \<Rightarrow> ui_input \<Rightarrow> TuiState \<Rightarrow> ui_end \<times> TuiState \<times> TuiCommand list" where
  "loop_input show_json task_ok inp s =
     (case inp of
        InKey event \<Rightarrow> loop_key task_ok event s
      | InReadError reason \<Rightarrow> (LoopErr reason, fail_with reason s, [])
      | InReaderGone \<Rightarrow> (LoopOk, s, [])
      | InEvent event \<Rightarrow> (LoopGoes, apply_event show_json event s, [])
      | InLagged \<Rightarrow> (LoopGoes, s, [])
      | InClosed \<Rightarrow> (LoopOk, s, [])
      | InPromptFailed e \<Rightarrow> (LoopGoes, fail_with e s, [])
      | InPromptAccepted \<Rightarrow> (LoopGoes, s, [])
      | InResultsGone \<Rightarrow> (LoopGoes, s, [])
      | InTick \<Rightarrow> (LoopGoes, s, []))"

text \<open>The loop on a script of inputs; \<open>draw\<close> is the error of the redraw, if it fails.\<close>

fun tui_loop ::
    "(json \<Rightarrow> string) \<Rightarrow> (ui_input \<times> bool \<times> string option) list \<Rightarrow> TuiState \<Rightarrow> ui_end \<times> TuiState \<times> TuiCommand list" where
  "tui_loop show_json [] s = (LoopGoes, s, [])"
| "tui_loop show_json ((inp, task_ok, draw) # rest) s =
     (case loop_input show_json task_ok inp s of
        (LoopGoes, s, cmds) \<Rightarrow>
          (case draw of
             Some e \<Rightarrow> (LoopErr e, s, cmds)
           | None \<Rightarrow> (case tui_loop show_json rest s of (fin, s, more_cmds) \<Rightarrow> (fin, s, cmds @ more_cmds)))
      | out \<Rightarrow> out)"

text \<open>The command task on one command; \<open>None\<close>: it waits for room in the lane's channel.\<close>

definition command_step ::
    "SessionId \<Rightarrow> LaneId \<Rightarrow> TuiCommand \<Rightarrow> ('s, 'w) ServerInner \<Rightarrow> ((ServerError + unit) option \<times> ('s, 'w) ServerInner) option" where
  "command_step sid lane_id cmd sv =
     (case cmd of
        CmdPrompt messages \<Rightarrow> map_option (apfst Some) (server_prompt sid lane_id messages sv)
      | CmdAbort \<Rightarrow> Some (None, snd (server_abort sid lane_id sv)))"

section \<open>Lines\<close>

lemma wrap_loop_concat:
  "concat (wrap_loop width ls current cs) = concat ls @ concat current @ concat (filter (\<lambda>c. c \<noteq> [CHR 0x0A]) cs)"
  by (induction width ls current cs rule: wrap_loop.induct) auto

lemma wrap_loop_width:
  assumes "\<forall>c \<in> set cs \<union> set current. one_char c" "length current \<le> width" "0 < width"
    "\<forall>l \<in> set ls. length (chars l) \<le> width"
  shows "\<forall>l \<in> set (wrap_loop width ls current cs). length (chars l) \<le> width"
  using assms
  by (induction width ls current cs rule: wrap_loop.induct) (auto simp: chars_concat)

lemma viewport_total: "viewport visible scroll lines \<noteq> None"
  by (simp add: viewport_def Let_def)

lemma viewport_Some:
  "viewport visible scroll lines =
     (let k = min (unat scroll) (length lines - visible) in
      Some (take (min visible (length lines)) (drop (length lines - visible - k) lines)))"
  by (auto simp: viewport_def Let_def min_def)

lemma take_drop_sublist: "sublist (take n (drop k xs)) xs"
  by (metis append_take_drop_id sublist_appendI)

lemma viewport_fits:
  "\<exists>shown. viewport height scroll lines = Some shown \<and> length shown = min height (length lines) \<and> sublist shown lines
     \<and> (scroll = 0 \<longrightarrow> suffix shown lines)"
proof -
  let ?k = "length lines - height - min (unat scroll) (length lines - height)"
  let ?shown = "take (min height (length lines)) (drop ?k lines)"
  have "viewport height scroll lines = Some ?shown" by (simp add: viewport_Some Let_def)
  moreover have "length ?shown = min height (length lines)" by simp
  moreover have "suffix ?shown lines" if "scroll = 0"
  proof -
    have "?shown = drop (length lines - height) lines" using that by simp
    then show ?thesis by (simp add: suffix_drop)
  qed
  ultimately show ?thesis using take_drop_sublist by blast
qed

section \<open>What a turn shows\<close>

definition said :: "ConvItem list \<Rightarrow> string list" where
  "said conv = List.map_filter (\<lambda>item. case item of ConvAssistant t \<Rightarrow> Some t | _ \<Rightarrow> None) conv"

fun delta_text :: "AssistantEvent \<Rightarrow> string" where
  "delta_text (TextDelta t) = t"
| "delta_text _ = []"

lemma said_simps [simp]:
  "said [] = []" "said (ConvUser t # conv) = said conv" "said (ConvTool crd # conv) = said conv"
  "said (ConvAssistant t # conv) = t # said conv" "said (conv @ conv') = said conv @ said conv'"
  by (simp_all add: said_def map_filter_def)

lemma change_card_said: "change_card i f conv = Some conv' \<Longrightarrow> said conv' = said conv"
  by (induction i f conv arbitrary: conv' rule: change_card.induct) (auto split: if_splits)

definition screen_frame :: "TuiState \<Rightarrow> TuiState \<Rightarrow> bool" where
  "screen_frame s s' \<longleftrightarrow> tu_error s' = tu_error s \<and> tu_status s' = tu_status s \<and> said (tu_conv s') = said (tu_conv s)
     \<and> tu_input s' = tu_input s \<and> tu_history s' = tu_history s \<and> tu_cursor s' = tu_cursor s"

lemma apply_update_frame:
  "\<not> is_terminal e \<Longrightarrow> screen_frame s (apply_update e s)
     \<and> sb_text (bubble (apply_update e s)) = sb_text (bubble s) @ delta_text e"
  by (cases e)
    (auto simp: screen_frame_def bubble_def upsert_tool_card_def with_card_def push_item_def
      dest: change_card_said split: option.split)

lemma finalize_said:
  "said (tu_conv (finalize_streaming s)) = said (tu_conv s) @ (if sb_text (bubble s) = [] then [] else [sb_text (bubble s)])"
  "tu_streaming (finalize_streaming s) = None" "tu_error (finalize_streaming s) = tu_error s"
  "tu_status (finalize_streaming s) = tu_status s"
  by (auto simp: finalize_streaming_def bubble_def push_item_def Let_def split: option.split)

definition updates :: "(Message \<times> AssistantEvent) list \<Rightarrow> AgentEvent list" where
  "updates ups = map (\<lambda>(m, e). MessageUpdate m e) ups"

definition streams_text :: "(Message \<times> AssistantEvent) list \<Rightarrow> string \<Rightarrow> bool" where
  "streams_text ups t \<longleftrightarrow> (\<forall>u \<in> set ups. \<not> is_terminal (snd u)) \<and> t = concat (map (delta_text \<circ> snd) ups)"

lemma apply_updates_frame:
  assumes "\<forall>u \<in> set ups. \<not> is_terminal (snd u)"
  shows "screen_frame s (fold (apply_event show_json) (updates ups) s)
    \<and> sb_text (bubble (fold (apply_event show_json) (updates ups) s))
        = sb_text (bubble s) @ concat (map (delta_text \<circ> snd) ups)"
  using assms
proof (induction ups arbitrary: s)
  case (Cons u ups)
  obtain m e where u: "u = (m, e)" by (cases u)
  show ?case
    using Cons.IH [of "apply_update e s"] Cons.prems apply_update_frame [of e s] u
    by (simp add: updates_def screen_frame_def)
qed (simp add: updates_def screen_frame_def)

lemma handle_event_text:
  "handle_event e acc = (b, acc') \<Longrightarrow> ta_text acc' = ta_text acc @ delta_text e \<and> b = is_terminal e"
  by (cases e) (auto simp: take_current_def split: option.splits if_splits)

lemma consume_events:
  assumes "consume mid ps acc s = Some (acc', s')"
  shows "\<exists>ups. st_events s' = st_events s @ updates ups \<and> streams_text ups (drop (length (ta_text acc)) (ta_text acc'))
    \<and> take (length (ta_text acc)) (ta_text acc') = ta_text acc"
  using assms
proof (induction ps arbitrary: acc s)
  case (Cons p ps)
  let ?s = "arrive (tp_arrived p) s"
  obtain d s1 where d: "drain_commands ?s = (d, s1)" by (cases "drain_commands ?s")
  then have s1: "st_events s1 = st_events s" by (auto simp: drain_commands_spec)
  have stops: "\<exists>ups. st_events s' = st_events s @ updates ups \<and> streams_text ups (drop (length (ta_text acc)) (ta_text acc'))
      \<and> take (length (ta_text acc)) (ta_text acc') = ta_text acc"
    if "st_events s' = st_events s" "ta_text acc' = ta_text acc"
    using that by (intro exI [of _ "[]"]) (simp add: updates_def streams_text_def)
  show ?case
  proof (cases "tp_item p")
    case (PollEvent e)
    obtain b acc1 where h: "handle_event e acc = (b, acc1)" by (cases "handle_event e acc")
    note grows = handle_event_text [OF h]
    show ?thesis
    proof (cases "d_aborted d \<or> d_shutdown d \<or> b")
      case True
      then have "ta_text acc' = ta_text acc" "st_events s' = st_events s"
        using Cons.prems PollEvent d h grows s1 by (cases e; auto simp: Let_def split: if_splits)+
      then show ?thesis by (rule stops [rotated])
    next
      case False
      let ?m = "Assistant (acc_build_assistant mid acc1)"
      have "consume mid ps acc1 (emit_event (MessageUpdate ?m e) (requeue d s1)) = Some (acc', s')"
        using Cons.prems PollEvent d False h by (simp add: Let_def)
      then obtain ups where ups: "st_events s' = st_events s @ MessageUpdate ?m e # updates ups"
          "streams_text ups (drop (length (ta_text acc1)) (ta_text acc'))"
          "take (length (ta_text acc1)) (ta_text acc') = ta_text acc1"
        using Cons.IH [of acc1 "emit_event (MessageUpdate ?m e) (requeue d s1)"] s1 by (auto simp: emit_event_def)
      have whole: "ta_text acc' = ta_text acc @ delta_text e @ drop (length (ta_text acc1)) (ta_text acc')"
        using ups(3) grows by (metis append.assoc append_take_drop_id)
      then have "drop (length (ta_text acc)) (ta_text acc') = delta_text e @ drop (length (ta_text acc1)) (ta_text acc')"
        "take (length (ta_text acc)) (ta_text acc') = ta_text acc"
        by (metis append_eq_conv_conj)+
      then show ?thesis
        using ups False grows by (intro exI [of _ "(?m, e) # ups"]) (simp add: updates_def streams_text_def)
    qed
  qed (use Cons.prems stops in \<open>auto simp: Let_def\<close>)
qed simp

definition text_parts :: "AssistantMessage \<Rightarrow> string list" where
  "text_parts m = List.map_filter (\<lambda>c. case c of AssistantText t \<Rightarrow> Some t | _ \<Rightarrow> None) (am_content m)"

definition shown :: "string \<Rightarrow> string list" where
  "shown t = (if t = [] then [] else [t])"

lemma finalize_text: "ta_final_message acc = None \<Longrightarrow> text_parts (finalize mid acc) = shown (ta_text acc)"
  by (auto simp: finalize_def take_current_def build_assistant_def blank_message_def text_parts_def shown_def
      map_filter_def Let_def split: option.split)

lemma message_shown:
  assumes "streams_text ups t"
  shows "let ui' = fold (apply_event show_json) (MessageStart (Assistant a) # updates ups @ [MessageEnd (Assistant m)]) ui in
    tu_error ui' = tu_error ui \<and> tu_status ui' = tu_status ui \<and> tu_streaming ui' = None
    \<and> said (tu_conv ui') = said (tu_conv ui) @ shown t"
proof -
  let ?ui = "fold (apply_event show_json) (updates ups) (ui\<lparr>tu_streaming := None\<rparr>)"
  have ui: "screen_frame (ui\<lparr>tu_streaming := None\<rparr>) ?ui" "sb_text (bubble ?ui) = t"
    using apply_updates_frame [where s = "ui\<lparr>tu_streaming := None\<rparr>"] assms
    by (simp_all add: streams_text_def bubble_def)
  have b: "sb_text (bubble (?ui\<lparr>tu_usage := u\<rparr>)) = t" for u using ui(2) by (simp add: bubble_def)
  show ?thesis
    using ui b by (simp add: finalize_said screen_frame_def shown_def Let_def split: option.split)
qed

lemma turn_events:
  assumes "stream_turn config request as late s = Some (Ok (turn, s'))"
  obtains "st_events s' = st_events s" "am_stop_reason (tu_assistant_message turn) \<in> {Some StopError, Some StopAborted}"
  | a ups t where
      "st_events s' = st_events s @ MessageStart (Assistant a) # updates ups @ [MessageEnd (Assistant (tu_assistant_message turn))]"
      "streams_text ups t"
      "delivered_by as (tu_assistant_message turn) \<or> text_parts (tu_assistant_message turn) = shown t"
proof -
  let ?mid = "model_id (req_model request)"
  let ?s = "s\<lparr>st_requests := st_requests s @ [request]\<rparr>"
  obtain delays known r where
    retry: "stream_with_retry config 0 as (st_signal s) = Some (delays, known, r)"
    using assms by (auto simp: stream_turn_def Let_def split: option.splits)
  let ?s1 = "?s\<lparr>st_signal := st_signal s \<or> known\<rparr>"
  show thesis
  proof (cases r)
    case (Ok stream)
    let ?s2 = "emit_event (MessageStart (Assistant (blank_message ?mid []))) ?s1"
    obtain acc s3 where c: "consume ?mid stream turn_acc_new ?s2 = Some (acc, s3)"
      and turn: "tu_assistant_message turn = finalize ?mid acc"
      and s': "s' = emit_event (MessageEnd (Assistant (finalize ?mid acc))) s3"
      using assms retry Ok by (auto simp: stream_turn_def Let_def split: option.splits)
    obtain ups where ups: "st_events s3 = st_events ?s2 @ updates ups" "streams_text ups (ta_text acc)"
      using consume_events [OF c] by (auto simp: turn_acc_new_def)
    have "delivered_by as m" if "ta_final_message acc = Some m" for m
      using retry_stream [of config 0 as "st_signal s" delays known stream] retry Ok consume_spec [OF c] that
      unfolding delivered_by_def by (auto simp: turn_acc_new_def)
    then have "delivered_by as (tu_assistant_message turn) \<or> text_parts (tu_assistant_message turn) = shown (ta_text acc)"
      using turn finalize_text [of acc ?mid] finalize_done [of acc _ ?mid] by (cases "ta_final_message acc") auto
    with ups s' turn show thesis by (intro that(2)) (auto simp: emit_event_def)
  next
    case (Err e)
    then have "turn = stream_failure_result ?mid e (known \<or> late)" and "s' = ?s1"
      using assms retry by (auto simp: stream_turn_def Let_def)
    then show thesis
      by (intro that(1)) (auto simp: stream_failure_result_def Let_def stop_reason_for_error_def)
  next
    case Panic
    then show thesis using assms retry by (simp add: stream_turn_def Let_def)
  qed
qed

text \<open>The text that a list of events streams.\<close>

fun event_text :: "AgentEvent \<Rightarrow> string" where
  "event_text (MessageUpdate _ e) = delta_text e"
| "event_text _ = []"

definition streamed :: "AgentEvent list \<Rightarrow> string" where
  "streamed es = concat (map event_text es)"

lemma streamed_turn: "streams_text ups t \<Longrightarrow> streamed (MessageStart m # updates ups @ [MessageEnd m']) = t"
  by (simp add: streamed_def updates_def streams_text_def comp_def case_prod_beta)

text \<open>
  C26: The screen agrees with the stream.  Whatever a turn of the model does, however it ends, the
  events it emits add to the conversation exactly the text that they stream, as one bubble, or none when there
  is no text; afterwards nothing is left half shown.  That text is the text of the message that
  enters the transcript, unless the provider delivered a final message of its own, which is then the
  one in the transcript.  A turn that emits nothing has failed.  The events change neither the status nor
  the error that is displayed: an error of the provider is in the message only.
\<close>

theorem turn_on_screen:
  assumes "stream_turn config request as late s = Some (Ok (turn, s'))"
  shows "\<exists>new. st_events s' = st_events s @ new \<and>
    (let ui' = fold (apply_event show_json) new ui in
       tu_error ui' = tu_error ui \<and> tu_status ui' = tu_status ui
       \<and> said (tu_conv ui') = said (tu_conv ui) @ shown (streamed new)
       \<and> (new \<noteq> [] \<longrightarrow> tu_streaming ui' = None
            \<and> (delivered_by as (tu_assistant_message turn) \<or> text_parts (tu_assistant_message turn) = shown (streamed new)))
       \<and> (new = [] \<longrightarrow> am_stop_reason (tu_assistant_message turn) \<in> {Some StopError, Some StopAborted}))"
  using assms
proof (cases rule: turn_events)
  case 1 then show ?thesis by (intro exI [of _ "[]"]) (simp add: streamed_def shown_def)
next
  case (2 a ups t)
  then show ?thesis
    using message_shown [OF 2(2), of show_json a "tu_assistant_message turn" ui]
      streamed_turn [OF 2(2), of "Assistant a" "Assistant (tu_assistant_message turn)"]
    unfolding Let_def
    by (intro exI [of _ "MessageStart (Assistant a) # updates ups @ [MessageEnd (Assistant (tu_assistant_message turn))]"]) simp
qed

section \<open>Keys\<close>

definition cursor_ok :: "TuiState \<Rightarrow> bool" where
  "cursor_ok s \<longleftrightarrow> tu_cursor s = usize_max \<or> unat (tu_cursor s) < length (tu_history s)"

lemma unat_last: "xs \<noteq> [] \<Longrightarrow> length xs < 2 ^ 64 \<Longrightarrow> unat (of_nat (length xs) - 1 :: usize) = length xs - 1"
  by (cases xs) (simp_all add: unsigned_of_nat take_bit_nat_eq_self)

lemma unat_dec: "0 < (c :: usize) \<Longrightarrow> unat (c - 1) < unat c"
  by (simp add: unat_minus_one word_gt_0 unat_gt_0)

lemma unat_inc: "unat (c :: usize) + 1 < n \<Longrightarrow> n < 2 ^ 64 \<Longrightarrow> unat (c + 1) = unat c + 1"
  by (simp add: unat_word_ariths)

lemma handle_key_ok:
  assumes "cursor_ok s" "length (tu_history s) < 2 ^ 64 - 1"
  obtains act s' where "handle_key k s = Some (act, s')" "cursor_ok s'"
    "tu_history s' = tu_history s @ (case act of ActSubmit t \<Rightarrow> [t] | _ \<Rightarrow> [])"
proof -
  let ?up = "if tu_cursor s = usize_max then of_nat (length (tu_history s)) - 1
     else if 0 < tu_cursor s then tu_cursor s - 1 else tu_cursor s"
  have up: "unat ?up < length (tu_history s)" if "tu_history s \<noteq> []"
    using assms that unat_last [OF that] unat_dec [of "tu_cursor s"] by (auto simp: cursor_ok_def)
  have down: "unat (tu_cursor s + 1) < length (tu_history s)" if "unat (tu_cursor s) + 1 < length (tu_history s)"
    using unat_inc [OF that] that assms(2) by simp
  show thesis
    by (rule that [of "fst (the (handle_key k s))" "snd (the (handle_key k s))"]; cases k)
      (use assms(1) up down in \<open>auto simp: handle_key_def recall_def cursor_ok_def Let_def\<close>)
qed

fun prompt_text :: "TuiCommand \<Rightarrow> string option" where
  "prompt_text (CmdPrompt [User user]) = Some (ui_user_text user)"
| "prompt_text _ = None"

lemma prompt_text_message [simp]: "prompt_text (CmdPrompt [prompt_message t]) = Some t"
  by (simp add: prompt_message_def ui_user_text_def map_filter_def)

lemma input_frame [simp]:
  "tu_history (finalize_streaming s) = tu_history s" "tu_cursor (finalize_streaming s) = tu_cursor s"
  "tu_history (upsert_tool_card i n a st s) = tu_history s" "tu_cursor (upsert_tool_card i n a st s) = tu_cursor s"
  "tu_history (with_card i f s) = tu_history s" "tu_cursor (with_card i f s) = tu_cursor s"
  "tu_history (push_item item s) = tu_history s" "tu_cursor (push_item item s) = tu_cursor s"
  by (simp_all add: finalize_streaming_def upsert_tool_card_def with_card_def push_item_def Let_def split: option.split)

lemma apply_update_input [simp]:
  "tu_history (apply_update e s) = tu_history s" "tu_cursor (apply_update e s) = tu_cursor s"
  by (cases e; simp)+

lemma apply_event_input [simp]:
  "tu_history (apply_event show_json e s) = tu_history s" "tu_cursor (apply_event show_json e s) = tu_cursor s"
  by (cases e; simp split: option.split Message.split)+

lemma fail_with_input [simp]: "tu_history (fail_with e s) = tu_history s" "tu_cursor (fail_with e s) = tu_cursor s"
  by (simp_all add: fail_with_def)

definition submitted :: "string list \<Rightarrow> bool" where
  "submitted ts \<longleftrightarrow> set ts \<inter> {[], ''/quit'', ''/exit''} = {}"

lemma handle_key_submits: "handle_key k s = Some (ActSubmit t, s') \<Longrightarrow> submitted [t]"
  by (cases k) (auto simp: handle_key_def submitted_def Let_def split: if_splits)

lemma loop_input_ok:
  assumes "cursor_ok s" "length (tu_history s) < 2 ^ 64 - 1" "loop_input show_json task_ok inp s = (fin, s', cmds)"
  shows "fin \<noteq> LoopPanic \<and> cursor_ok s' \<and>
    (\<exists>ts. tu_history s' = tu_history s @ ts \<and> length ts \<le> 1 \<and> submitted ts \<and> (task_ok \<longrightarrow> List.map_filter prompt_text cmds = ts))"
proof (cases "\<exists>event. inp = InKey event")
  case True
  then obtain event where inp: "inp = InKey event" by blast
  obtain act s1 where k: "handle_key (from_crossterm event) s = Some (act, s1)" "cursor_ok s1"
      "tu_history s1 = tu_history s @ (case act of ActSubmit t \<Rightarrow> [t] | _ \<Rightarrow> [])"
    using handle_key_ok [OF assms(1,2)] by metis
  then show ?thesis
    using assms(3) inp handle_key_submits [of "from_crossterm event" s _ s1]
    by (cases act; cases task_ok) (auto simp: loop_input_def loop_key_def cursor_ok_def map_filter_def submitted_def)
next
  case False
  then show ?thesis
    using assms(1,3) by (cases inp) (auto simp: loop_input_def cursor_ok_def map_filter_def submitted_def)
qed

lemma tui_loop_ok:
  assumes "cursor_ok s" "length (tu_history s) + length script < 2 ^ 64 - 1" "tui_loop show_json script s = (fin, s', cmds)"
  shows "fin \<noteq> LoopPanic \<and> cursor_ok s' \<and>
    (\<exists>ts. tu_history s' = tu_history s @ ts \<and> submitted ts
       \<and> (list_all (\<lambda>(_, task_ok, _). task_ok) script \<longrightarrow> List.map_filter prompt_text cmds = ts))"
  using assms
proof (induction script arbitrary: s cmds)
  case Nil then show ?case by (simp add: submitted_def map_filter_def)
next
  case (Cons x script)
  obtain inp task_ok draw where x: "x = (inp, task_ok, draw)" by (cases x)
  obtain fin1 s1 cmds1 where one: "loop_input show_json task_ok inp s = (fin1, s1, cmds1)"
    by (cases "loop_input show_json task_ok inp s")
  have "length (tu_history s) < 2 ^ 64 - 1" using Cons.prems(2) by simp
  from loop_input_ok [OF Cons.prems(1) this one]
  obtain ts where ts: "fin1 \<noteq> LoopPanic" "cursor_ok s1" "tu_history s1 = tu_history s @ ts" "length ts \<le> 1"
      "submitted ts" "task_ok \<longrightarrow> List.map_filter prompt_text cmds1 = ts"
    by blast
  show ?case
  proof (cases "fin1 = LoopGoes \<and> draw = None")
    case True
    obtain cmds2 where rest: "tui_loop show_json script s1 = (fin, s', cmds2)" "cmds = cmds1 @ cmds2"
      using Cons.prems(3) x one True by (auto split: prod.splits)
    have "length (tu_history s1) + length script < 2 ^ 64 - 1" using Cons.prems(2) ts(3,4) by simp
    from Cons.IH [OF ts(2) this rest(1)] show ?thesis
      using ts rest(2) x by (auto simp: submitted_def map_filter_def)
  next
    case False
    then have "s' = s1" "cmds = cmds1" "fin \<noteq> LoopPanic"
      using Cons.prems(3) x one ts(1) by (auto split: ui_end.splits option.splits)
    then show ?thesis using ts x by auto
  qed
qed

text \<open>
  The interface survives every sequence of keys, events, results and redraws: the history is
  never read out of range.  What was submitted is in the history, and while the task behind it
  runs exactly these prompts are sent, in this order; none is empty or a command to quit.
\<close>

theorem tui_loop_submits:
  assumes "length script < 2 ^ 64 - 1" "tui_loop show_json script (tui_new model lane) = (fin, s, cmds)"
  shows "fin \<noteq> LoopPanic \<and> set (tu_history s) \<inter> {[], ''/quit'', ''/exit''} = {}
    \<and> (list_all (\<lambda>(_, task_ok, _). task_ok) script \<longrightarrow> List.map_filter prompt_text cmds = tu_history s)"
  using tui_loop_ok [OF _ _ assms(2)] assms(1) by (auto simp: tui_new_def cursor_ok_def submitted_def)

text \<open>
  Text is wrapped without loss: the lines of a text hold its characters in order, without
  the line breaks, and none is wider than the area.  What is drawn of the conversation always
  exists, fills the area when there is enough, and at the bottom ends with the last line.
\<close>

theorem conversation_drawn:
  assumes "utf8_valid t" "0 < width"
  shows "concat (wrap_text t width) = concat (filter (\<lambda>c. c \<noteq> [CHR 0x0A]) (chars t))
    \<and> (\<forall>l \<in> set (wrap_text t width). length (chars l) \<le> width)
    \<and> (\<exists>lines. render_conversation width height s = Some lines \<and>
        (let all = concat (map (item_lines width) (tu_conv s)) @ streaming_lines width (tu_streaming s) in
           length lines = min height (length all) \<and> sublist lines all
           \<and> (tu_scroll s = 0 \<longrightarrow> suffix lines all)))"
proof (intro conjI)
  show "concat (wrap_text t width) = concat (filter (\<lambda>c. c \<noteq> [CHR 0x0A]) (chars t))"
    using assms(2) by (simp add: wrap_text_def wrap_loop_concat)
  show "\<forall>l \<in> set (wrap_text t width). length (chars l) \<le> width"
    using wrap_loop_width [of "chars t" "[]" width "[]"] chars_valid [OF assms(1)] assms(2) by (simp add: wrap_text_def)
  show "\<exists>lines. render_conversation width height s = Some lines \<and>
      (let all = concat (map (item_lines width) (tu_conv s)) @ streaming_lines width (tu_streaming s) in
         length lines = min height (length all) \<and> sublist lines all \<and> (tu_scroll s = 0 \<longrightarrow> suffix lines all))"
    unfolding render_conversation_def Let_def by (rule viewport_fits)
qed

section \<open>Cards\<close>

fun card_of :: "ConvItem \<Rightarrow> ToolCard option" where
  "card_of (ConvTool crd) = Some crd"
| "card_of _ = None"

definition card_list :: "TuiState \<Rightarrow> ToolCard list" where
  "card_list s = List.map_filter card_of (tu_conv s)"

text \<open>The cards as a map, and what an event does to it.\<close>

definition cards :: "ConvItem list \<Rightarrow> string \<rightharpoonup> ToolCard" where
  "cards conv = map_of (map (\<lambda>crd. (card_id crd, crd)) (List.map_filter card_of conv))"

definition spec_change :: "string \<Rightarrow> (ToolCard \<Rightarrow> ToolCard) \<Rightarrow> (string \<rightharpoonup> ToolCard) \<Rightarrow> string \<rightharpoonup> ToolCard" where
  "spec_change i f m = m(i := map_option f (m i))"

definition spec_upsert :: "string \<Rightarrow> string \<Rightarrow> string \<Rightarrow> (string \<rightharpoonup> ToolCard) \<Rightarrow> string \<rightharpoonup> ToolCard" where
  "spec_upsert i name args m =
     m(i \<mapsto> (case m i of
               Some crd \<Rightarrow> crd\<lparr>card_name := name, card_args := args, card_status := CardRunning\<rparr>
             | None \<Rightarrow> \<lparr>card_id = i, card_name = name, card_args = args, card_status = CardRunning, card_output = []\<rparr>))"

fun spec_cards :: "(json \<Rightarrow> string) \<Rightarrow> AgentEvent \<Rightarrow> (string \<rightharpoonup> ToolCard) \<Rightarrow> string \<rightharpoonup> ToolCard" where
  "spec_cards show_json (MessageUpdate _ (ToolCallStart i name args)) m = spec_upsert i name args m"
| "spec_cards show_json (MessageUpdate _ (ToolCallDelta i delta)) m =
     spec_change i (\<lambda>crd. crd\<lparr>card_args := card_args crd @ delta\<rparr>) m"
| "spec_cards show_json (ToolExecutionStart i name args) m = spec_upsert i name (show_json args) m"
| "spec_cards show_json (ToolExecutionUpdate i _ _ partial) m =
     spec_change i (\<lambda>crd. crd\<lparr>card_status := CardPartial, card_output := truncate_chars (ui_result_text partial) MAX_OUTPUT\<rparr>) m"
| "spec_cards show_json (ToolExecutionEnd i _ result is_error) m =
     spec_change i (\<lambda>crd. crd\<lparr>card_status := (if is_error then CardFailed else CardDone),
       card_output := truncate_chars (ui_result_text result) MAX_OUTPUT\<rparr>) m"
| "spec_cards show_json _ m = m"

lemma cards_simps [simp]:
  "cards [] = Map.empty" "cards (ConvUser t # conv) = cards conv" "cards (ConvAssistant t # conv) = cards conv"
  "cards (ConvTool crd # conv) = (cards conv)(card_id crd \<mapsto> crd)"
  by (simp_all add: cards_def map_filter_def)

lemma cards_append: "cards (conv @ conv') = cards conv' ++ cards conv"
  by (simp add: cards_def map_filter_def)

lemma change_card_None: "change_card i f conv = None \<longleftrightarrow> cards conv i = None"
  by (induction i f conv rule: change_card.induct) auto

lemma change_card_Some:
  "change_card i f conv = Some conv' \<Longrightarrow> (\<And>crd. card_id (f crd) = card_id crd) \<Longrightarrow>
     cards conv' = spec_change i f (cards conv)
     \<and> map card_id (List.map_filter card_of conv') = map card_id (List.map_filter card_of conv)"
proof (induction i f conv arbitrary: conv' rule: change_card.induct)
  case (2 i f crd items)
  show ?case
  proof (cases "card_id crd = i")
    case True
    then show ?thesis using 2 by (auto simp: spec_change_def map_filter_def)
  next
    case False
    then show ?thesis using 2 by (auto simp: spec_change_def map_filter_def fun_eq_iff)
  qed
qed (auto simp: spec_change_def map_filter_def)

definition cards_follow :: "((string \<rightharpoonup> ToolCard) \<Rightarrow> string \<rightharpoonup> ToolCard) \<Rightarrow> TuiState \<Rightarrow> TuiState \<Rightarrow> bool" where
  "cards_follow g s s' \<longleftrightarrow> cards (tu_conv s') = g (cards (tu_conv s))
     \<and> (distinct (map card_id (card_list s)) \<longrightarrow> distinct (map card_id (card_list s')))"

lemma with_card_follows:
  "(\<And>crd. card_id (f crd) = card_id crd) \<Longrightarrow> cards_follow (spec_change i f) s (with_card i f s)"
  using change_card_None [of i f "tu_conv s"] change_card_Some [of i f "tu_conv s"]
  by (auto simp: cards_follow_def with_card_def card_list_def spec_change_def fun_upd_idem split: option.split)

lemma new_card_id: "cards conv i = None \<Longrightarrow> i \<notin> card_id ` set (List.map_filter card_of conv)"
  by (simp add: cards_def map_of_eq_None_iff image_image)

lemma upsert_follows: "cards_follow (spec_upsert i name args) s (upsert_tool_card i name args CardRunning s)"
proof -
  let ?f = "\<lambda>crd. crd\<lparr>card_name := name, card_args := args, card_status := CardRunning\<rparr>"
  show ?thesis
  proof (cases "change_card i ?f (tu_conv s)")
    case None
    then have "cards (tu_conv s) i = None" by (simp add: change_card_None)
    then show ?thesis
      using None new_card_id [of "tu_conv s" i]
      by (auto simp: cards_follow_def upsert_tool_card_def push_item_def cards_append spec_upsert_def card_list_def
          map_filter_def map_add_def fun_eq_iff split: option.split)
  next
    case (Some conv)
    then obtain crd where crd: "cards (tu_conv s) i = Some crd" using change_card_None [of i ?f "tu_conv s"] by auto
    show ?thesis
      using Some crd change_card_Some [OF Some]
      by (simp add: cards_follow_def upsert_tool_card_def spec_upsert_def spec_change_def card_list_def)
  qed
qed

lemma finalize_follows [simp]:
  "cards (tu_conv (finalize_streaming s)) = cards (tu_conv s)" "card_list (finalize_streaming s) = card_list s"
  by (simp_all add: finalize_streaming_def push_item_def cards_append card_list_def map_filter_def Let_def
      split: option.split)

lemma spec_cards_fun:
  "spec_cards show_json (MessageUpdate m (ToolCallStart i name args)) = spec_upsert i name args"
  "spec_cards show_json (MessageUpdate m (ToolCallDelta i delta)) = spec_change i (\<lambda>crd. crd\<lparr>card_args := card_args crd @ delta\<rparr>)"
  "spec_cards show_json (ToolExecutionStart i name json) = spec_upsert i name (show_json json)"
  "spec_cards show_json (ToolExecutionUpdate i a b partial) = spec_change i (\<lambda>crd. crd\<lparr>card_status := CardPartial,
     card_output := truncate_chars (ui_result_text partial) MAX_OUTPUT\<rparr>)"
  "spec_cards show_json (ToolExecutionEnd i c result is_error) = spec_change i (\<lambda>crd. crd\<lparr>
     card_status := (if is_error then CardFailed else CardDone),
     card_output := truncate_chars (ui_result_text result) MAX_OUTPUT\<rparr>)"
  by (simp_all add: fun_eq_iff)

lemma cards_follow_same:
  "cards (tu_conv s') = cards (tu_conv s) \<Longrightarrow> card_list s' = card_list s \<Longrightarrow> (\<And>m. g m = m) \<Longrightarrow> cards_follow g s s'"
  by (simp add: cards_follow_def)

lemma card_list_frame [simp]:
  "card_list (s\<lparr>tu_error := er\<rparr>) = card_list s" "card_list (s\<lparr>tu_status := st\<rparr>) = card_list s"
  "card_list (s\<lparr>tu_streaming := b\<rparr>) = card_list s" "card_list (s\<lparr>tu_scroll := n\<rparr>) = card_list s"
  "card_list (s\<lparr>tu_usage := u\<rparr>) = card_list s" "card_list (s\<lparr>tu_abort := ab\<rparr>) = card_list s"
  by (simp_all add: card_list_def)

lemma push_user [simp]: "card_list (push_item (ConvUser t) s) = card_list s" "cards (tu_conv (push_item (ConvUser t) s)) = cards (tu_conv s)"
  by (simp_all add: card_list_def push_item_def map_filter_def cards_append)

lemma apply_event_follows: "cards_follow (spec_cards show_json e) s (apply_event show_json e s)"
proof (cases e)
  case (MessageUpdate m ev)
  then show ?thesis
  proof (cases ev)
    case (ToolCallStart i n a)
    show ?thesis unfolding MessageUpdate ToolCallStart spec_cards_fun by (simp add: upsert_follows)
  next
    case (ToolCallDelta i delta)
    show ?thesis unfolding MessageUpdate ToolCallDelta spec_cards_fun by (simp add: with_card_follows)
  qed (auto intro!: cards_follow_same simp: MessageUpdate)
next
  case (MessageStart m)
  then show ?thesis by (cases m) (auto intro!: cards_follow_same)
next
  case (MessageEnd m)
  then show ?thesis by (cases m) (auto intro!: cards_follow_same split: option.split)
next
  case (ToolExecutionStart i n a)
  show ?thesis unfolding ToolExecutionStart spec_cards_fun by (simp add: upsert_follows)
next
  case (ToolExecutionUpdate i a b partial)
  show ?thesis unfolding ToolExecutionUpdate spec_cards_fun by (simp add: with_card_follows)
next
  case (ToolExecutionEnd i n result is_error)
  show ?thesis unfolding ToolExecutionEnd spec_cards_fun by (simp add: with_card_follows)
qed (auto intro!: cards_follow_same)

text \<open>
  C30: The tool cards refine a map from call ids to cards.  After any events the interface shows
  exactly one card for each call that was announced or executed, and every event changes the
  card of its own call only: the arguments are those of the last start with the fragments
  since, the output and status those of the last report.
\<close>

theorem tui_cards:
  "let ui = fold (apply_event show_json) events (tui_new model lane) in
     cards (tu_conv ui) = fold (spec_cards show_json) events Map.empty \<and> distinct (map card_id (card_list ui))"
proof -
  have "cards_follow (fold (spec_cards show_json) events) s (fold (apply_event show_json) events s)" for s
  proof (induction events arbitrary: s)
    case (Cons e events)
    then show ?case using apply_event_follows [of show_json e s] by (simp add: cards_follow_def)
  qed (simp add: cards_follow_def)
  from this [of "tui_new model lane"] show ?thesis
    by (simp add: cards_follow_def Let_def tui_new_def card_list_def)
qed

section \<open>Witnesses\<close>

text \<open>A turn that streams one word and ends early, and one that is refused for its key.\<close>

lemma turn_on_screen_witness:
  "\<exists>turn s' new. stream_turn default_config demo_request demo_attempts False demo_state = Some (Ok (turn, s'))
     \<and> st_events s' = new \<and> said (tu_conv (fold (apply_event (\<lambda>_. [])) new (tui_new ''m'' ''l''))) = [''he'']"
proof -
  obtain turn s' where run:
      "stream_turn default_config demo_request demo_attempts False demo_state = Some (Ok (turn, s'))"
    and content: "am_content (tu_assistant_message turn) = [AssistantText ''he'']"
    and new: "st_events s' \<noteq> []" "st_events demo_state = []"
    by (simp add: stream_turn_def demo_attempts_def demo_request_def demo_state_def Let_def
        drain_commands_spec map_filter_simps turn_acc_new_def finalize_def take_current_def
        build_assistant_def blank_message_def emit_event_def)
  have "\<not> delivered_by demo_attempts m" for m by (auto simp: delivered_by_def demo_attempts_def)
  moreover have "text_parts (tu_assistant_message turn) = [''he'']" by (simp add: text_parts_def content map_filter_def)
  ultimately have "said (tu_conv (fold (apply_event (\<lambda>_. [])) (st_events s') (tui_new ''m'' ''l''))) = [''he'']"
    using turn_on_screen [OF run, of "\<lambda>_. []" "tui_new ''m'' ''l''"] new by (auto simp: Let_def tui_new_def)
  then show ?thesis using run by blast
qed

lemma tui_loop_submits_witness:
  "\<exists>fin s cmds. tui_loop (\<lambda>_. [])
       [(InKey \<lparr>ke_control = False, ke_code = CodeChar ''a''\<rparr>, True, None), (InKey \<lparr>ke_control = False, ke_code = CodeEnter\<rparr>, True, None)]
       (tui_new ''m'' ''l'') = (fin, s, cmds)
     \<and> tu_history s = [''a''] \<and> List.map_filter prompt_text cmds = tu_history s"
proof -
  let ?script = "[(InKey \<lparr>ke_control = False, ke_code = CodeChar ''a''\<rparr>, True, None),
    (InKey \<lparr>ke_control = False, ke_code = CodeEnter\<rparr>, True, None)] :: (ui_input \<times> bool \<times> string option) list"
  obtain fin s cmds where run: "tui_loop (\<lambda>_. []) ?script (tui_new ''m'' ''l'') = (fin, s, cmds)"
    by (cases "tui_loop (\<lambda>_. []) ?script (tui_new ''m'' ''l'')")
  have "str_trim ''a'' = ''a''" by (simp add: str_trim_def chars_ascii byte_def white_space_def)
  then have "tu_history s = [''a'']"
    using run by (auto simp: loop_input_def loop_key_def from_crossterm_def handle_key_def tui_new_def Let_def)
  moreover have "List.map_filter prompt_text cmds = tu_history s" using tui_loop_submits [OF _ run] by simp
  ultimately show ?thesis using run by blast
qed

lemma conversation_drawn_witness:
  "wrap_text ''abc'' 2 = [''ab'', ''c''] \<and> concat (wrap_text ''abc'' 2) = ''abc''"
proof -
  have "utf8_valid ''abc''" by (simp add: utf8_valid_ascii byte_def)
  from conversation_drawn [OF this, of 2 10 "tui_new ''m'' ''l''"] show ?thesis
    by (simp add: wrap_text_def chars_ascii byte_def)
qed

end
