(* ===== verification/Tui_Runs.thy ===== *)
theory Tui_Runs
  imports Tui
begin

text \<open>
  The terminal interface over the events of a whole run (\<open>core/runtime\<close> with
  \<open>bin/guigu/tui/state.rs\<close>): which events a run emits, from its initial messages over all its turns, tool
  calls and injected messages to its end, and what the interface shows after them.
\<close>

section \<open>The events of a run\<close>

text \<open>
  Every event between the start and the end of a run.  No terminal event of a stream is forwarded as an
  update: the turn takes it and stops.
\<close>

fun inner :: "AgentEvent \<Rightarrow> bool" where
  "inner AgentStart = False"
| "inner (AgentEnd _) = False"
| "inner (MessageUpdate _ e) = (\<not> is_terminal e)"
| "inner _ = True"

definition emits :: "'w RunState \<Rightarrow> 'w RunState \<Rightarrow> bool" where
  "emits s s' \<longleftrightarrow> (\<exists>es. st_events s' = st_events s @ es \<and> list_all inner es)"

lemma emits_same [intro]: "st_events s' = st_events s \<Longrightarrow> emits s s'"
  by (simp add: emits_def)

lemma emits_trans: "emits s s' \<Longrightarrow> emits s' s'' \<Longrightarrow> emits s s''"
  by (auto simp: emits_def)

lemma emits_event [intro]: "inner e \<Longrightarrow> emits s (emit_event e s)"
  by (simp add: emits_def)

lemma emits_users [intro]: "st_events s' = st_events s \<Longrightarrow> emits s (append_user_messages ms s')"
  by (auto simp: emits_def list_all_iff)

lemma emits_prepare:
  assumes "prepare_request_messages show_params config tools sp cancelled s = Some (r, s')"
  shows "emits s s'"
  using prepare_spec [OF assms] by (auto simp: emits_def compacted_def commit_compaction_def Let_def)

lemma emits_stream:
  assumes "stream_turn config request as late s = Some (Ok (turn, s'))"
  shows "emits s s'"
  using assms
proof (cases rule: turn_events)
  case (2 a ups t)
  then have "list_all inner (MessageStart (Assistant a) # updates ups @ [MessageEnd (Assistant (tu_assistant_message turn))])"
    by (auto simp: updates_def streams_text_def list_all_iff)
  then show ?thesis unfolding emits_def 2(1) by blast
qed auto

lemma emits_no_tool: "no_tool_step b a s = (stp, s') \<Longrightarrow> emits s s'"
proof -
  assume run: "no_tool_step b a s = (stp, s')"
  have b: "emits s (boundary_state b a s)" by (simp add: emits_def boundary_state_def)
  have "emits (boundary_state b a s) s'"
    using run by (auto simp: no_tool_step_eq split: if_splits)
  with b show ?thesis by (rule emits_trans)
qed

lemma plugin_stop_events: "plugin_stop config s = (r, s') \<Longrightarrow> st_events s' = st_events s"
  by (auto simp: plugin_stop_def split: option.splits prod.splits)

lemma emits_plugin_prepare: "emits s (plugin_prepare config a trs s)"
  by (auto simp: plugin_prepare_def split: option.split sum.split prod.split)

lemma emits_closure_prepare: "emits s (closure_prepare config a trs s)"
  by (auto simp: closure_prepare_def split: option.split)

lemma drain_events: "drain_commands s = (d, s') \<Longrightarrow> st_events s' = st_events s"
  by (auto simp: drain_commands_spec)

lemma emits_close_tool_turn:
  assumes "close_tool_turn config b a trs s = (stp, s')"
  shows "emits s s'"
proof -
  obtain stop s1 where stop: "plugin_stop config s = (stop, s1)" by force
  let ?s2 = "closure_prepare config a trs (plugin_prepare config a trs s1)"
  obtain d s3 where d: "drain_commands (arrive b ?s2) = (d, s3)" by force
  have s1: "emits s s1" using plugin_stop_events [OF stop] by (rule emits_same)
  have "emits s ?s2" by (rule emits_trans [OF emits_trans [OF s1 emits_plugin_prepare] emits_closure_prepare])
  moreover have "st_events s3 = st_events ?s2" using drain_events [OF d] by simp
  ultimately have "emits s s3" unfolding emits_def by simp
  moreover have "st_events s' = st_events s1 \<or> st_events s' = st_events s3"
    using assms stop d by (auto simp: close_tool_turn_def Let_def split: if_splits)
  ultimately show ?thesis using s1 unfolding emits_def by metis
qed

lemma inner_tool_events: "inner (start_event tc args)" "inner (update_event tc args r)" "inner (end_event tc r')"
  by (simp_all add: start_event_def update_event_def end_event_def)

lemma executed_inner:
  assumes "execute_tool_calls parse config tools transcript tcs stop_reason cancelled sch w = Some (es, w', msgs, rest)"
  shows "list_all inner es"
proof (cases "stop_reason = Some StopLength \<and> tcs \<noteq> []")
  case True
  have "list_all inner (fst (synthesize_truncated_results parse tcs))"
    by (induction tcs) (auto simp: inner_tool_events split: prod.splits)
  then show ?thesis using True assms by (auto simp: execute_tool_calls_def split: prod.splits)
next
  case False
  obtain ps w1 elog w2 rs r where "prepare_calls parse config tools transcript tcs w = (ps, w1)" and
    e: "execute_prepared sch (cfg_tool_execution config) ps cancelled w1 = Some (elog, w2, rs, r)"
    and es: "es = map snd elog"
    using assms False by (auto simp: execute_tool_calls_def split: option.splits prod.splits)
  have "inner (snd x)" if "x \<in> set elog" for x
  proof -
    have "fst x < length ps" and "bracketed (ps ! fst x) (own (fst x) elog) (rs ! fst x)"
      using execute_prepared_answered [OF e] that by auto
    then show ?thesis
      using own_mem [OF that] by (auto simp: bracketed_def Let_def inner_tool_events)
  qed
  then show ?thesis unfolding es by (auto simp: list_all_iff)
qed

lemma emits_tool_step:
  assumes "tool_step parse config tools env turn s = Some (stp, s')"
  shows "emits s s'"
proof -
  let ?a = "tu_assistant_message turn"
  obtain es w trs r where
    x: "execute_tool_calls parse config tools (st_transcript s) (tu_tool_calls turn) (am_stop_reason ?a)
          (st_signal s \<or> en_tools_cancelled env) (en_schedule env) (st_world s) = Some (es, w, trs, r)"
    using assms by (auto simp: tool_step_def Let_def split: option.splits prod.splits)
  let ?s1 = "s\<lparr>st_events := st_events s @ es, st_world := w, st_transcript := st_transcript s @ map ToolResult trs\<rparr>"
  let ?s2 = "emit_event (TurnEnd ?a trs) (update_snapshot None ?s1)"
  have "close_tool_turn config (en_boundary env) ?a trs ?s2 = (stp, s')"
    using assms x by (simp add: tool_step_def Let_def)
  moreover have "emits s ?s2" using executed_inner [OF x] by (simp add: emits_def)
  ultimately show ?thesis using emits_close_tool_turn emits_trans by blast
qed

lemma emits_turn:
  assumes "run_turn show_params parse config tools sp th env s = Some (Ok (stp, s'))"
  shows "emits s s'"
proof -
  let ?s0 = "emit_event TurnStart s"
  obtain r s1 where prep: "prepare_request_messages show_params config tools sp
      (st_signal s \<or> en_prepare_cancelled env) ?s0 = Some (r, s1)"
    using assms by (auto simp: run_turn_def split: option.splits)
  have s1: "emits s s1" by (rule emits_trans [OF emits_event emits_prepare [OF prep]]) simp
  show ?thesis
  proof (cases r)
    case (Inl u)
    then have "s' = send_aborted_turn_end s1" using assms prep by (simp add: run_turn_def split: unit.splits)
    then show ?thesis by (simp add: send_aborted_turn_end_def emits_trans [OF s1 emits_event])
  next
    case (Inr msgs)
    let ?req = "build_request_with_messages config tools sp th msgs"
    obtain turn s2 where st: "stream_turn config ?req (en_attempts env) (en_late_cancelled env) s1 = Some (Ok (turn, s2))"
      using assms prep Inr by (auto simp: run_turn_def Let_def split: option.splits outcome.splits)
    let ?s3 = "push_assistant_message turn s2"
    have "st_events ?s3 = st_events s2" by (simp add: push_assistant_message_def Let_def)
    then have s3: "emits s ?s3" using s1 emits_stream [OF st] emits_trans by blast
    consider "s' = emit_event (TurnEnd (tu_assistant_message turn) []) ?s3"
      | "no_tool_step (en_boundary env) (tu_assistant_message turn) ?s3 = (stp, s')"
      | "tool_step parse config tools env turn ?s3 = Some (stp, s')"
      using assms prep Inr st by (auto simp: run_turn_def Let_def split: if_splits)
    then show ?thesis
    proof cases
      case 1 then show ?thesis by (simp add: emits_trans [OF s3 emits_event])
    next
      case 2 then show ?thesis using s3 emits_no_tool emits_trans by blast
    next
      case 3 then show ?thesis using s3 emits_tool_step emits_trans by blast
    qed
  qed
qed

lemma emits_loop:
  assumes "run_loop show_params parse config tools sp th envs n s = Some (Ok (out, s'))"
  shows "emits s s'"
  using emits_turn emits_trans
  by (intro run_loop_invariant [OF assms, of "\<lambda>_ t. emits s t" "\<lambda>_ t. emits s t"]) (simp add: emits_same, blast+)

lemma emits_initial:
  "append_initial_messages msgs arrivals s = (b, s') \<Longrightarrow> emits s s'"
proof (induction msgs arbitrary: arrivals s)
  case (Cons m msgs)
  let ?s1 = "arrive (case arrivals of [] \<Rightarrow> [] | a # _ \<Rightarrow> a) (append_user_message m s)"
  obtain d s2 where d: "drain_commands ?s1 = (d, s2)" by force
  have "emits s (append_user_message m s)" by (simp add: emits_def append_user_message_def)
  then have s3: "emits s (requeue d s2)" using drain_events [OF d] by (simp add: emits_def)
  show ?case
  proof (cases "d_aborted d \<or> d_shutdown d")
    case True then show ?thesis using Cons.prems d s3 by (simp add: Let_def)
  next
    case False
    then have "append_initial_messages msgs (tl arrivals) (requeue d s2) = (b, s')"
      using Cons.prems d by (simp add: Let_def)
    then show ?thesis using Cons.IH s3 emits_trans by blast
  qed
qed (simp add: emits_same)

text \<open>The initial messages come first, then the start, then the loop, then the end.\<close>

lemma run_brackets:
  assumes "run_agent_loop show_params parse config tools sp th shut arrivals envs initial s0 = Some (Ok (out, s'))"
  obtains pre body where "st_events s' = st_events s0 @ pre @ AgentStart # body @ [AgentEnd (st_transcript s')]"
    "list_all inner pre" "list_all inner body"
proof -
  obtain sh t where t: "append_initial_messages initial arrivals (s0\<lparr>st_signal := shut\<rparr>) = (sh, t)"
    by (cases "append_initial_messages initial arrivals (s0\<lparr>st_signal := shut\<rparr>)")
  let ?s2 = "emit_event AgentStart t"
  obtain pre where pre: "st_events t = st_events s0 @ pre" "list_all inner pre"
    using emits_initial [OF t] by (auto simp: emits_def)
  obtain u where u: "emits ?s2 u" "s' = emit_event (AgentEnd (st_transcript u)) u"
    using assms t emits_loop emits_same [of ?s2 ?s2]
    by (auto simp: run_agent_loop_def Let_def split: if_splits option.splits outcome.splits) blast+
  then obtain body where "st_events u = st_events ?s2 @ body" "list_all inner body" by (auto simp: emits_def)
  with pre u show thesis by (intro that [of pre body]) simp_all
qed

section \<open>The interface\<close>

lemma inner_shows_no_error:
  assumes "inner e"
  shows "tu_error (apply_event show_json e ui) = tu_error ui \<and> tu_status (apply_event show_json e ui) = tu_status ui"
proof (cases e)
  case (MessageUpdate m u)
  then show ?thesis using assms apply_update_frame [of u ui] by (simp add: screen_frame_def)
qed (use assms in \<open>auto simp: finalize_said push_item_def upsert_tool_card_def with_card_def
      split: Message.split option.split\<close>)

lemma inner_events_no_error:
  "list_all inner es \<Longrightarrow> tu_error (fold (apply_event show_json) es ui) = tu_error ui
    \<and> tu_status (fold (apply_event show_json) es ui) = tu_status ui"
  by (induction es arbitrary: ui) (simp_all add: inner_shows_no_error)

text \<open>
  C35: A failed run looks like one that said nothing.  Whatever happens in a run, with however many turns
  and tool calls, and whichever of its turns fail, as they do with a wrong key or without a network:
  when the terminal interface has applied the events of the run it is idle, displays no error, and
  nothing is half shown.  No event of the run is one of those for which the interface has the
  branch that would display an error.
\<close>

theorem run_hides_errors:
  assumes "run_agent_loop show_params parse config tools sp th shut arrivals envs initial s0 = Some (Ok (out, s'))"
  shows "\<exists>new. st_events s' = st_events s0 @ new
    \<and> (\<forall>m e. MessageUpdate m e \<in> set new \<longrightarrow> \<not> is_terminal e)
    \<and> (let ui' = fold (apply_event show_json) new ui in
         tu_error ui' = None \<and> tu_status ui' = UiIdle \<and> tu_streaming ui' = None)"
proof -
  obtain pre body where ev: "st_events s' = st_events s0 @ pre @ AgentStart # body @ [AgentEnd (st_transcript s')]"
    and i: "list_all inner pre" "list_all inner body"
    by (rule run_brackets [OF assms])
  let ?new = "pre @ AgentStart # body @ [AgentEnd (st_transcript s')]"
  have "\<forall>m e. MessageUpdate m e \<in> set ?new \<longrightarrow> \<not> is_terminal e" using i by (auto simp: list_all_iff)
  moreover have "tu_error (fold (apply_event show_json) ?new ui) = None \<and> tu_status (fold (apply_event show_json) ?new ui) = UiIdle
      \<and> tu_streaming (fold (apply_event show_json) ?new ui) = None"
    using inner_events_no_error [OF i(2)] by (simp add: finalize_said)
  ultimately show ?thesis using ev unfolding Let_def by (intro exI [of _ ?new]) simp
qed

text \<open>A run whose only turn is refused by the provider.\<close>

definition refused :: turn_env where
  "refused =
     \<lparr>en_prepare_cancelled = False,
      en_attempts = [\<lparr>at_outcome = EsError (PeHttpStatus 401 ''bad key'' None), at_cancelled = False, at_sleep_cancelled = False\<rparr>],
      en_late_cancelled = False, en_tools_cancelled = False, en_schedule = [], en_boundary = []\<rparr>"

lemma refused_run:
  "\<exists>s' a. run_demo [refused] [user_text ''a''] idle_state = Some (Ok (\<lparr>ro_shutdown = False, ro_consumed = 0\<rparr>, s'))
     \<and> st_transcript s' = [user_text ''a'', Assistant a] \<and> am_stop_reason a = Some StopError
     \<and> am_error_message a = Some (provider_error_display (PeHttpStatus 401 ''bad key'' None))"
proof -
  have rx: "st_rx idle_state = []" and s: "st_queue idle_state = []" "st_transcript idle_state = []"
    "\<not> st_signal (run_start (user_text ''a'') idle_state)"
    by (simp_all add: idle_state_def run_start_def append_user_message_single del: append_user_messages_simps)
  show ?thesis
    unfolding run_demo_single [OF rx]
    by (simp add: run_turn_def prepare_default default_asks refused_def stream_turn_def Let_def
        stream_failure_result_def stop_reason_for_error_def push_assistant_frame no_tool_step_def collect_pending_spec
        map_filter_simps run_start_simps rx s)
qed

lemma run_hides_errors_witness:
  "\<exists>s' a. run_demo [refused] [user_text ''a''] idle_state = Some (Ok (\<lparr>ro_shutdown = False, ro_consumed = 0\<rparr>, s'))
     \<and> Assistant a \<in> set (st_transcript s') \<and> am_stop_reason a = Some StopError
     \<and> (let ui' = fold (apply_event (\<lambda>_. [])) (st_events s') (tui_new ''m'' ''l'') in tu_error ui' = None \<and> tu_status ui' = UiIdle)"
proof -
  obtain s' a where run: "run_demo [refused] [user_text ''a''] idle_state = Some (Ok (\<lparr>ro_shutdown = False, ro_consumed = 0\<rparr>, s'))"
    and a: "st_transcript s' = [user_text ''a'', Assistant a]" "am_stop_reason a = Some StopError"
    using refused_run by blast
  have "st_events idle_state = []" by (simp add: idle_state_def)
  then show ?thesis
    using run_hides_errors [OF run [unfolded run_demo_def], of "\<lambda>_. []" "tui_new ''m'' ''l''"] run a by (auto simp: Let_def)
qed

end
