(* ===== verification/Http_Provider.thy ===== *)
theory Http_Provider
  imports Adapter_Stream Text_Ops Turn
begin

text \<open>
  The two providers as the run loop calls them (\<open>adapters/openai/mod.rs\<close>,
  \<open>anthropic/mod.rs\<close>, \<open>retry_after.rs\<close>) and their factory (\<open>factory.rs\<close>): one request is built
  and sent, and what comes back is an error for the retry loop or a stream of events.  The HTTP
  client is the outcome of the exchange; \<open>http_date\<close> is the parser of dates, and times are
  nanoseconds since the epoch.
\<close>

section \<open>Retry-After\<close>

text \<open>\<open>HeaderValue::to_str\<close>: visible ASCII, blanks and tabs.\<close>

definition header_to_str :: "string \<Rightarrow> string option" where
  "header_to_str v = (if list_all (\<lambda>c. 32 \<le> byte c \<and> byte c < 127 \<or> byte c = 9) v then Some v else None)"

definition parse_retry_after :: "(string \<Rightarrow> nat option) \<Rightarrow> nat \<Rightarrow> string option \<Rightarrow> Duration option" where
  "parse_retry_after http_date now v =
     (case Option.bind v header_to_str of
        None \<Rightarrow> None
      | Some s \<Rightarrow>
          (let raw = str_trim s in
           case parse_u64 raw of
             Some seconds \<Rightarrow> Some (millis (1000 * seconds))
           | None \<Rightarrow>
               (case http_date raw of
                  None \<Rightarrow> None
                | Some date \<Rightarrow> if now \<le> date then Some (date - now) else None)))"

section \<open>One request\<close>

record http_response =
  hr_status :: u16
  hr_retry_after :: "string option"
  hr_text :: "string + string"
  hr_body :: "body_item list"

datatype http_outcome = HttpCancelled | HttpFailed string | HttpResponse http_response

definition is_success :: "u16 \<Rightarrow> bool" where
  "is_success status = (200 \<le> unat status \<and> unat status < 300)"

definition send_request ::
    "(string \<Rightarrow> nat option) \<Rightarrow> nat \<Rightarrow> http_outcome \<Rightarrow> ProviderRequest \<Rightarrow> ProviderError + StreamState" where
  "send_request http_date now outc request =
     (case outc of
        HttpCancelled \<Rightarrow> Inl PeAborted
      | HttpFailed e \<Rightarrow> Inl (PeNetwork e)
      | HttpResponse resp \<Rightarrow>
          if \<not> is_success (hr_status resp)
          then (let retry_after = parse_retry_after http_date now (hr_retry_after resp) in
                case hr_text resp of
                  Inl e \<Rightarrow> Inl (PeNetwork e)
                | Inr body \<Rightarrow> Inl (PeHttpStatus (hr_status resp) body retry_after))
          else Inr (build_stream (hr_body resp) (model_id (req_model request))))"


definition anthropic_stream ::
    "json_parser \<Rightarrow> (string \<Rightarrow> nat option) \<Rightarrow> nat \<Rightarrow> http_outcome \<Rightarrow> AnthropicConfig \<Rightarrow> ProviderRequest
       \<Rightarrow> BuiltRequest option \<times> (ProviderError + StreamState)" where
  "anthropic_stream parse http_date now outc config request =
     (case anthropic_build_request parse config request of
        Inl e \<Rightarrow> (None, Inl e)
      | Inr built \<Rightarrow> (Some built, send_request http_date now outc request))"

section \<open>The factory\<close>

datatype Protocol = ProtoOpenAi | ProtoAnthropic

record ModelConfig =
  mc_name :: string
  mc_protocol :: Protocol
  mc_base_url :: "string option"
  mc_api_key :: "string option"
  mc_api_key_env :: "string option"
  mc_model :: string
  mc_max_tokens :: "u32 option"
  mc_anthropic_version :: "string option"

datatype ProviderConfigError = CfgMissingApiKey | CfgApiKeyEnvUnset string | CfgParse string | CfgBuild string

datatype provider = ProvOpenAi OpenAiConfig | ProvAnthropic AnthropicConfig | ProvFake

definition DEFAULT_MAX_TOKENS :: u32 where
  "DEFAULT_MAX_TOKENS = 4096"

definition DEFAULT_ANTHROPIC_VERSION :: string where
  "DEFAULT_ANTHROPIC_VERSION = ''2023-06-01''"

text \<open>\<open>OpenAiProvider::new\<close> and \<open>AnthropicProvider::new\<close>; \<open>client\<close> is what building the HTTP client gives.\<close>

definition provider_new :: "string + unit \<Rightarrow> provider \<Rightarrow> ProviderError + provider" where
  "provider_new client p = (case client of Inl e \<Rightarrow> Inl (PeBuild e) | Inr _ \<Rightarrow> Inr p)"

definition build_provider :: "string + unit \<Rightarrow> ModelConfig \<Rightarrow> string \<Rightarrow> ProviderConfigError + provider" where
  "build_provider client config api_key =
     (let build = map_sum (\<lambda>e. CfgBuild (provider_error_display e)) id \<circ> provider_new client in
      case mc_protocol config of
        ProtoOpenAi \<Rightarrow> build (ProvOpenAi \<lparr>oc_api_key = api_key, oc_base_url = mc_base_url config\<rparr>)
      | ProtoAnthropic \<Rightarrow>
          build (ProvAnthropic
            \<lparr>ac_api_key = api_key, ac_base_url = mc_base_url config,
             ac_max_tokens = (case mc_max_tokens config of Some n \<Rightarrow> n | None \<Rightarrow> DEFAULT_MAX_TOKENS),
             ac_anthropic_version =
               (case mc_anthropic_version config of Some v \<Rightarrow> v | None \<Rightarrow> DEFAULT_ANTHROPIC_VERSION)\<rparr>))"

section \<open>What the retry loop sees\<close>




end
