(* ===== verification/Cli.thy ===== *)
theory Cli
  imports Tui Http_Provider Acp_Rpc File_Tools
begin

text \<open>
  The command line (\<open>bin/guigu\<close>) without its terminal interface: configuration and keys
  (\<open>config.rs\<close>, \<open>provider.rs\<close>), the assembly of the server and its session (\<open>assemble.rs\<close>), and
  the line interface (\<open>repl.rs\<close>).  The environment is a map of its variables; \<open>toml\<close> is the
  TOML parser, \<open>read_file\<close> and \<open>exists\<close> are the file system.
\<close>

section \<open>Configuration (config.rs)\<close>

type_synonym environment = "string \<rightharpoonup> string"

fun default_api_key_env :: "Protocol \<Rightarrow> string" where
  "default_api_key_env ProtoOpenAi = ''OPENAI_API_KEY''"
| "default_api_key_env ProtoAnthropic = ''ANTHROPIC_API_KEY''"

fun config_error_text :: "ProviderConfigError \<Rightarrow> string" where
  "config_error_text CfgMissingApiKey = ''missing api_key (neither api_key nor api_key_env set)''"
| "config_error_text (CfgApiKeyEnvUnset v) = ''api_key_env `'' @ v @ ''` is not set''"
| "config_error_text (CfgParse e) = ''config parse error: '' @ e"
| "config_error_text (CfgBuild e) = ''build error: '' @ e"

definition present :: "string option \<Rightarrow> string option" where
  "present v = (case v of Some s \<Rightarrow> if s = [] then None else Some s | None \<Rightarrow> None)"

definition resolve_api_key :: "environment \<Rightarrow> string option \<Rightarrow> ModelConfig \<Rightarrow> ProviderConfigError + string" where
  "resolve_api_key env cli_key config =
     (case present cli_key of
        Some k \<Rightarrow> Inr k
      | None \<Rightarrow>
          (case present (mc_api_key config) of
             Some k \<Rightarrow> Inr k
           | None \<Rightarrow>
               (case mc_api_key_env config of
                  Some v \<Rightarrow>
                    (case present (env v) of Some k \<Rightarrow> Inr k | None \<Rightarrow> Inl (CfgApiKeyEnvUnset v))
                | None \<Rightarrow>
                    (case present (env (default_api_key_env (mc_protocol config))) of
                       Some k \<Rightarrow> Inr k | None \<Rightarrow> Inl CfgMissingApiKey))))"

type_synonym models = "string \<rightharpoonup> ModelConfig"

definition config_parse :: "(string \<Rightarrow> string + models) \<Rightarrow> string \<Rightarrow> ProviderConfigError + models" where
  "config_parse toml content =
     (case toml content of
        Inl e \<Rightarrow> Inl (CfgParse e)
      | Inr ms \<Rightarrow> Inr (\<lambda>k. map_option (\<lambda>m. m\<lparr>mc_name := k\<rparr>) (ms k)))"

definition config_load ::
    "(string \<Rightarrow> string + models) \<Rightarrow> (string \<Rightarrow> string + string) \<Rightarrow> string \<Rightarrow> ProviderConfigError + models" where
  "config_load toml read_file path =
     (case read_file path of Inl e \<Rightarrow> Inl (CfgParse e) | Inr content \<Rightarrow> config_parse toml content)"

definition resolve_path ::
    "(string \<Rightarrow> bool) \<Rightarrow> string option \<Rightarrow> string \<Rightarrow> string option \<Rightarrow> string option \<Rightarrow> string option" where
  "resolve_path exists explicit cwd xdg home =
     (case explicit of
        Some path \<Rightarrow> Some path
      | None \<Rightarrow>
          (let local = path_push cwd ''guigu.toml'' in
           if exists local then Some local
           else (case (case xdg of Some x \<Rightarrow> Some x | None \<Rightarrow> map_option (\<lambda>h. path_push h ''.config'') home) of
                   None \<Rightarrow> None
                 | Some base \<Rightarrow>
                     (let file = path_push (path_push base ''guigu'') ''config.toml'' in
                      if exists file then Some file else None))))"

definition config_resolve ::
    "(string \<Rightarrow> string + models) \<Rightarrow> (string \<Rightarrow> string + string) \<Rightarrow> (string \<Rightarrow> bool) \<Rightarrow> string + string \<Rightarrow> environment
       \<Rightarrow> string option \<Rightarrow> ProviderConfigError + models" where
  "config_resolve toml read_file exists cwd env explicit =
     (case cwd of
        Inl e \<Rightarrow> Inl (CfgParse e)
      | Inr dir \<Rightarrow>
          (case resolve_path exists explicit dir (env ''XDG_CONFIG_HOME'') (env ''HOME'') of
             Some path \<Rightarrow> config_load toml read_file path
           | None \<Rightarrow> Inr Map.empty))"

section \<open>Options (cli.rs, error.rs)\<close>

datatype Command = CliRun | CliAcp | CliTui

datatype CliProvider = CpOpenai | CpAnthropic | CpFake

record Cli =
  cl_command :: "Command option"
  cl_model :: "string option"
  cl_provider :: CliProvider
  cl_session :: "string option"
  cl_cwd :: "string option"
  cl_log :: "string option"
  cl_api_key :: "string option"
  cl_system_prompt :: "string option"
  cl_base_url :: "string option"
  cl_config :: "string option"
  cl_api_key_env :: "string option"

fun cli_provider_name :: "CliProvider \<Rightarrow> string" where
  "cli_provider_name CpOpenai = ''openai''"
| "cli_provider_name CpAnthropic = ''anthropic''"
| "cli_provider_name CpFake = ''fake''"

fun cli_api_key_env :: "CliProvider \<Rightarrow> string" where
  "cli_api_key_env CpOpenai = ''OPENAI_API_KEY''"
| "cli_api_key_env CpAnthropic = ''ANTHROPIC_API_KEY''"
| "cli_api_key_env CpFake = []"

fun default_model :: "CliProvider \<Rightarrow> string" where
  "default_model CpOpenai = ''gpt-4o-mini''"
| "default_model CpAnthropic = ''claude-3-5-sonnet-20241022''"
| "default_model CpFake = ''fake-model''"

datatype CliError =
    CliProviderError ProviderError
  | CliConfig ProviderConfigError
  | CliMissingApiKey string string
  | CliSession SessionError
  | CliServer ServerError
  | CliAcpError AcpError
  | CliIo string
  | CliTuiError string

fun cli_error_text :: "CliError \<Rightarrow> string" where
  "cli_error_text (CliProviderError e) = ''provider error: '' @ provider_error_display e"
| "cli_error_text (CliConfig e) = ''config error: '' @ config_error_text e"
| "cli_error_text (CliMissingApiKey p v) =
     ''missing API key for '' @ p @ '': set --api-key or the '' @ v @ '' environment variable''"
| "cli_error_text (CliSession e) = ''session error: '' @ session_error_text e"
| "cli_error_text (CliServer e) = ''server error: '' @ server_error_text e"
| "cli_error_text (CliAcpError e) = ''acp error: '' @ acp_error_text e"
| "cli_error_text (CliIo e) = ''io error: '' @ e"
| "cli_error_text (CliTuiError e) = ''tui error: '' @ e"

section \<open>Choosing the provider (provider.rs)\<close>

definition fake_selection :: "Cli \<Rightarrow> provider \<times> string" where
  "fake_selection cli = (ProvFake, case cl_model cli of Some m \<Rightarrow> m | None \<Rightarrow> default_model (cl_provider cli))"

definition map_config_error :: "string \<Rightarrow> string \<Rightarrow> ProviderConfigError \<Rightarrow> CliError" where
  "map_config_error name env_name e = (if e = CfgMissingApiKey then CliMissingApiKey name env_name else CliConfig e)"

definition with_key ::
    "environment \<Rightarrow> string + unit \<Rightarrow> Cli \<Rightarrow> string \<Rightarrow> string \<Rightarrow> ModelConfig \<Rightarrow> CliError + provider \<times> string" where
  "with_key env client cli name env_name config =
     (case resolve_api_key env (cl_api_key cli) config of
        Inl e \<Rightarrow> Inl (map_config_error name env_name e)
      | Inr k \<Rightarrow>
          (case build_provider client config k of
             Inl e \<Rightarrow> Inl (CliConfig e)
           | Inr p \<Rightarrow> Inr (p, mc_model config)))"

definition inline_config :: "Cli \<Rightarrow> Protocol \<Rightarrow> ModelConfig" where
  "inline_config cli protocol =
     \<lparr>mc_name = ''inline'', mc_protocol = protocol, mc_base_url = cl_base_url cli, mc_api_key = None,
      mc_api_key_env = cl_api_key_env cli,
      mc_model = (case cl_model cli of Some m \<Rightarrow> m | None \<Rightarrow> default_model (cl_provider cli)),
      mc_max_tokens = None, mc_anthropic_version = None\<rparr>"

text \<open>\<open>config\<close> is what \<open>Config::resolve\<close> gives for the option \<open>--config\<close>.\<close>

definition select_provider ::
    "ProviderConfigError + models \<Rightarrow> environment \<Rightarrow> string + unit \<Rightarrow> Cli \<Rightarrow> CliError + provider \<times> string" where
  "select_provider config env client cli =
     (let inline = (\<lambda>protocol. with_key env client cli (cli_provider_name (cl_provider cli))
             (cli_api_key_env (cl_provider cli)) (inline_config cli protocol)) in
      if cl_provider cli = CpFake then Inr (fake_selection cli)
      else (case config of
              Inl e \<Rightarrow> Inl (CliConfig e)
            | Inr ms \<Rightarrow>
                (case Option.bind (cl_model cli) ms of
                   Some mc \<Rightarrow> with_key env client cli (mc_name mc) (default_api_key_env (mc_protocol mc)) mc
                 | None \<Rightarrow>
                     (case cl_provider cli of
                        CpOpenai \<Rightarrow> inline ProtoOpenAi
                      | CpAnthropic \<Rightarrow> inline ProtoAnthropic
                      | CpFake \<Rightarrow> Inr (fake_selection cli)))))"

section \<open>Assembly (assemble.rs)\<close>

definition DEFAULT_SYSTEM_PROMPT :: string where
  "DEFAULT_SYSTEM_PROMPT = map char_of
      ([228, 189, 160, 230, 152, 175, 233, 172, 188, 232, 176, 183, 229, 173, 144, 239, 188, 136, 71, 117,
       105, 103, 117, 122, 105, 239, 188, 137, 239, 188, 140, 233, 172, 188, 232, 176, 183, 229, 173, 144,
       32, 65, 73, 32, 231, 188, 150, 231, 168, 139, 229, 138, 169, 230, 137, 139, 227, 128, 130, 228,
       189, 160, 231, 178, 190, 233, 128, 154, 32, 82, 117, 115, 116, 227, 128, 129, 229, 136, 134, 229,
       184, 131, 229, 188, 143, 231, 179, 187, 231, 187, 159, 228, 184, 142, 233, 171, 152, 229, 185, 182,
       229, 143, 145, 230, 158, 182, 230, 158, 132, 239, 188, 140, 228, 187, 165, 231, 174, 128, 230, 180,
       129, 227, 128, 129, 228, 184, 165, 232, 176, 168, 227, 128, 129, 231, 155, 180, 230, 142, 165, 231,
       154, 132, 230, 150, 185, 229, 188, 143, 229, 141, 143, 229, 138, 169, 231, 148, 168, 230, 136, 183,
       229, 136, 134, 230, 158, 144, 233, 151, 174, 233, 162, 152, 227, 128, 129, 232, 174, 190, 232, 174,
       161, 230, 158, 182, 230, 158, 132, 227, 128, 129, 231, 188, 150, 229, 134, 153, 228, 184, 142, 229,
       174, 161, 230, 159, 165, 228, 187, 163, 231, 160, 129, 227, 128, 130] :: nat list)"

definition CLI_LANE :: LaneId where
  "CLI_LANE = ''default''"

definition DEFAULT_CONTEXT_WINDOW :: u32 where
  "DEFAULT_CONTEXT_WINDOW = 8192"

definition resolve_system_prompt :: "string option \<Rightarrow> string" where
  "resolve_system_prompt custom = (case custom of Some s \<Rightarrow> s | None \<Rightarrow> DEFAULT_SYSTEM_PROMPT)"

definition resolve_log_dir :: "environment \<Rightarrow> string option \<Rightarrow> string" where
  "resolve_log_dir env dir =
     (case dir of
        Some d \<Rightarrow> d
      | None \<Rightarrow>
          (case env ''GUIGU_STATE_DIR'' of
             Some d \<Rightarrow> d
           | None \<Rightarrow>
               (case env ''XDG_STATE_HOME'' of
                  Some xdg \<Rightarrow> path_push xdg ''guigu''
                | None \<Rightarrow>
                    (case env ''HOME'' of
                       Some home \<Rightarrow> path_push home ''.local/state/guigu''
                     | None \<Rightarrow> ''guigu-state''))))"

text \<open>\<open>SystemTime::now\<close> is \<open>None\<close> before the epoch.\<close>

definition generate_session_id :: "nat option \<Rightarrow> nat \<Rightarrow> SessionId" where
  "generate_session_id secs pid =
     ''s-'' @ show_nat (case secs of Some n \<Rightarrow> n | None \<Rightarrow> 0) @ ''-'' @ show_nat pid"

text \<open>\<open>Path::join\<close>: an absolute path replaces the directory.\<close>

definition path_join :: "string \<Rightarrow> string \<Rightarrow> string" where
  "path_join dir p = (if is_absolute p then p else path_push dir p)"

definition session_path :: "string \<Rightarrow> SessionId \<Rightarrow> string" where
  "session_path log_dir sid = path_join log_dir (sid @ ''.jsonl'')"

datatype 's cli_storage = JsonlStorage 's | FailingStorage string

definition io_other :: "string \<Rightarrow> SessionError" where
  "io_other reason = SeIo reason"

text \<open>A backend with \<open>FailingStorage\<close>, whose operations fail; it has no heads.\<close>

definition cli_backend :: "'s backend \<Rightarrow> 's cli_storage backend" where
  "cli_backend be =
     \<lparr>be_append = (\<lambda>p m s. case s of
         JsonlStorage s \<Rightarrow> apsnd JsonlStorage (be_append be p m s)
       | FailingStorage reason \<Rightarrow> (Inl (io_other reason), s)),
      be_put_head = (\<lambda>l h s. case s of
         JsonlStorage s \<Rightarrow> apsnd JsonlStorage (be_put_head be l h s)
       | FailingStorage reason \<Rightarrow> (Inr (), s)),
      be_load = (\<lambda>s. case s of
         JsonlStorage s \<Rightarrow> apsnd JsonlStorage (be_load be s)
       | FailingStorage reason \<Rightarrow> (Err (io_other reason), s)),
      be_heads = (\<lambda>s. case s of
         JsonlStorage s \<Rightarrow> apsnd JsonlStorage (be_heads be s)
       | FailingStorage reason \<Rightarrow> (Inr Map.empty, s))\<rparr>"

text \<open>\<open>opens\<close> is the outcome of \<open>JsonlSessionStorage::open\<close> for a path and a session.\<close>

type_synonym 's opener = "string \<Rightarrow> SessionId \<Rightarrow> SessionError + 's"

definition cli_open_storage :: "'s opener \<Rightarrow> string \<Rightarrow> SessionId \<Rightarrow> CliError + 's cli_storage" where
  "cli_open_storage opens log_dir sid = map_sum CliSession JsonlStorage (opens (session_path log_dir sid) sid)"

definition open_storage_sync :: "'s opener \<Rightarrow> string \<Rightarrow> SessionId \<Rightarrow> 's cli_storage SessionStorageBundle" where
  "open_storage_sync opens log_dir sid =
     (case opens (session_path log_dir sid) sid of
        Inr s \<Rightarrow> from_backend (JsonlStorage s)
      | Inl e \<Rightarrow> message_only (FailingStorage (session_error_text e)))"

text \<open>The tools of the agent; the number is the lock table the writers share.\<close>

datatype cli_tool = ToolRead "string option" | ToolWrite nat "string option" | ToolEdit nat "string option" | ToolBash "string option"

definition build_tools :: "string option \<Rightarrow> cli_tool list" where
  "build_tools work_dir = [ToolRead work_dir, ToolWrite 0 work_dir, ToolEdit 0 work_dir, ToolBash work_dir]"

record cli_runtime =
  rt_provider :: provider
  rt_tools :: "cli_tool list"
  rt_loop :: "unit LoopConfig"

definition build_server ::
    "'s opener \<Rightarrow> provider \<Rightarrow> string \<Rightarrow> cli_tool list \<Rightarrow> string \<Rightarrow> string \<Rightarrow> ('s cli_storage, cli_runtime) ServerInner" where
  "build_server opens prov model tools log_dir system_prompt =
     with_storage_bundle_factory (open_storage_sync opens log_dir)
       (with_storage_factory (\<lambda>sid. sb_storage (open_storage_sync opens log_dir sid))
          (with_runtime_factory
             (\<lparr>ac_system_prompt = system_prompt, ac_model = Some model, ac_thinking_level = ThOff\<rparr>,
              \<lparr>rt_provider = prov, rt_tools = tools,
               rt_loop = default_config\<lparr>cfg_model := \<lparr>model_id = model, model_context_window = DEFAULT_CONTEXT_WINDOW\<rparr>\<rparr>\<rparr>)
             server_new))"

record 's Assembled =
  as_server :: "('s cli_storage, cli_runtime) ServerInner"
  as_log_dir :: string
  as_model_id :: string

definition assemble ::
    "'s opener \<Rightarrow> ProviderConfigError + models \<Rightarrow> environment \<Rightarrow> string + unit \<Rightarrow> Cli \<Rightarrow> string \<Rightarrow> CliError + 's Assembled" where
  "assemble opens config env client cli system_prompt =
     (case select_provider config env client cli of
        Inl e \<Rightarrow> Inl e
      | Inr (p, model) \<Rightarrow>
          (let log_dir = resolve_log_dir env (cl_log cli) in
           Inr \<lparr>as_server = build_server opens p model (build_tools (cl_cwd cli)) log_dir system_prompt,
                as_log_dir = log_dir, as_model_id = model\<rparr>))"

text \<open>
  \<open>setup_session\<close>: the session is loaded or created, then the operation of client \<open>c\<close> that makes
  the lane is started, and its result ends the setup.
\<close>

definition setup_session ::
    "'s backend \<Rightarrow> 's opener \<Rightarrow> nat option \<Rightarrow> nat \<Rightarrow> string \<Rightarrow> Cli \<Rightarrow> nat \<Rightarrow> ('s cli_storage, cli_runtime) system
       \<Rightarrow> (CliError, SessionId) outcome \<times> ('s cli_storage, cli_runtime) system" where
  "setup_session be opens secs pid log_dir cli c st =
     (let begin = (\<lambda>sid op sv. (Ok sid, ((fst st)(c := op), sv))) in
      case cl_session cli of
        Some sid \<Rightarrow>
          (case cli_open_storage opens log_dir sid of
             Inl e \<Rightarrow> (Err e, st)
           | Inr storage \<Rightarrow>
               (case load_session (cli_backend be) sid storage (snd st) of
                  (Ok _, sv) \<Rightarrow> begin sid (PcResume sid CLI_LANE None) sv
                | (Err e, sv) \<Rightarrow> (Err (CliServer e), (fst st, sv))
                | (Panic, sv) \<Rightarrow> (Panic, (fst st, sv))))
      | None \<Rightarrow>
          (let sid = generate_session_id secs pid in
           case cli_open_storage opens log_dir sid of
             Inl e \<Rightarrow> (Err e, st)
           | Inr storage \<Rightarrow>
               (case create_session sid storage (snd st) of
                  (Inl e, sv) \<Rightarrow> (Err (CliServer e), (fst st, sv))
                | (Inr _, sv) \<Rightarrow>
                    (case spawn_lane_from_factory sid CLI_LANE sv of
                       Inl e \<Rightarrow> (Err (CliServer e), (fst st, sv))
                     | Inr job \<Rightarrow> begin sid (PcCheck job) sv))))"

definition setup_result :: "nat \<Rightarrow> SessionId \<Rightarrow> ('s, 'w) system \<Rightarrow> (CliError + SessionId) option" where
  "setup_result c sid st = map_option (map_sum CliServer (\<lambda>_. sid)) (op_result (fst st c))"

section \<open>The line interface (repl.rs)\<close>

datatype out_text = Stdout string | Stderr string

datatype recv = RecvEvent AgentEvent | RecvLagged nat | RecvClosed

definition esc :: string where
  "esc = [CHR 0x1B, CHR ''['']"

definition grey :: "string \<Rightarrow> string" where
  "grey s = esc @ ''90m'' @ s @ esc @ ''0m''"

definition cyan :: "string \<Rightarrow> string" where
  "cyan s = esc @ ''36m'' @ s @ esc @ ''0m''"

definition newline :: string where
  "newline = [CHR 0x0A]"

fun print_event :: "(json \<Rightarrow> string) \<Rightarrow> AgentEvent \<Rightarrow> out_text list" where
  "print_event show_json (MessageUpdate _ (TextDelta t)) = [Stdout t]"
| "print_event show_json (MessageUpdate _ (ThinkingDelta t)) = [Stdout (grey t)]"
| "print_event show_json (ToolExecutionStart _ tool_name args) =
     [Stderr (cyan (''[tool] '' @ tool_name @ '' '' @ show_json args) @ newline)]"
| "print_event show_json (ToolExecutionEnd _ tool_name result is_error) =
     (let status = (if is_error then ''failed'' else ''ok'');
          preview = concat (take 200 (chars (case find_map result_part (tr_content result) of Some t \<Rightarrow> t | None \<Rightarrow> []))) in
      [Stderr (cyan (''[tool] '' @ tool_name @ '' '' @ status @ '': '' @ preview) @ newline)])"
| "print_event show_json _ = []"

text \<open>
  What is printed, what \<open>recv\<close> has returned, and what it will return afterwards (\<open>None\<close>: the loop
  still waits).  A closed stream stays closed.
\<close>

fun consume_events :: "(json \<Rightarrow> string) \<Rightarrow> recv list \<Rightarrow> out_text list \<times> recv list \<times> recv list option" where
  "consume_events show_json [] = ([], [], None)"
| "consume_events show_json (RecvEvent event # rs) =
     (if (\<exists>msgs. event = AgentEnd msgs) then (print_event show_json event @ [Stdout newline], [RecvEvent event], Some rs)
      else case consume_events show_json rs of
        (out, seen, rest) \<Rightarrow> (print_event show_json event @ out, RecvEvent event # seen, rest))"
| "consume_events show_json (RecvLagged n # rs) =
     (case consume_events show_json rs of
        (out, seen, rest) \<Rightarrow>
          (Stderr (grey (''(lagged, skipped '' @ show_nat n @ '' events)'') @ newline) # out, RecvLagged n # seen, rest))"
| "consume_events show_json (RecvClosed # rs) = ([Stdout newline], [RecvClosed], Some (RecvClosed # rs))"

text \<open>One line of the input and what the server says to its prompt, if it comes to that.\<close>

datatype line_read = LineBytes string | LineFailed string

record repl_line =
  rl_flush :: "string option"
  rl_read :: line_read
  rl_prompt :: "ServerError + unit"

text \<open>
  What the interface does to the server, in its order: it sends a prompt, gets something from the
  event stream, shuts the server down.
\<close>

datatype repl_act = ActSent "Message list" "ServerError + unit" | ActGot recv | ActShutdown

record repl_result =
  rr_out :: "out_text list"
  rr_acts :: "repl_act list"
  rr_end :: "(CliError + unit) option"

text \<open>\<open>stdin_line\<close> on the bytes of a line; no bytes are the end of the input.\<close>

definition stdin_line :: "line_read \<Rightarrow> string + string" where
  "stdin_line r =
     (case r of
        LineFailed e \<Rightarrow> Inl e
      | LineBytes bytes \<Rightarrow> if utf8_valid bytes then Inr bytes else Inl ''stream did not contain valid UTF-8'')"

definition repl_ends :: "CliError + unit \<Rightarrow> repl_result" where
  "repl_ends r = \<lparr>rr_out = [], rr_acts = [], rr_end = Some r\<rparr>"

definition repl_waits :: repl_result where
  "repl_waits = \<lparr>rr_out = [], rr_acts = [], rr_end = None\<rparr>"

definition repl_then :: "out_text list \<Rightarrow> repl_act list \<Rightarrow> repl_result \<Rightarrow> repl_result" where
  "repl_then out acts r = r\<lparr>rr_out := out @ rr_out r, rr_acts := acts @ rr_acts r\<rparr>"

text \<open>The loop; \<open>rx\<close> is what the event stream delivers.  A \<open>Inr\<close> end breaks the loop.\<close>

fun repl_loop :: "(json \<Rightarrow> string) \<Rightarrow> repl_line list \<Rightarrow> recv list \<Rightarrow> repl_result" where
  "repl_loop show_json [] rx = repl_waits"
| "repl_loop show_json (l # ls) rx =
     repl_then [Stdout ''> ''] []
       (case rl_flush l of
          Some e \<Rightarrow> repl_ends (Inl (CliIo e))
        | None \<Rightarrow>
            (case stdin_line (rl_read l) of
               Inl e \<Rightarrow> repl_ends (Inl (CliIo e))
             | Inr buf \<Rightarrow>
                 if buf = [] then repl_ends (Inr ())
                 else
                   (let line = str_trim buf in
                    if line = [] then repl_loop show_json ls rx
                    else if line = ''/quit'' \<or> line = ''/exit'' then repl_ends (Inr ())
                    else
                      (let msg = prompt_message line in
                       case rl_prompt l of
                         Inl e \<Rightarrow>
                           repl_then [Stderr (''prompt error: '' @ server_error_text e @ newline)] [ActSent [msg] (Inl e)]
                             (repl_loop show_json ls rx)
                       | Inr _ \<Rightarrow>
                           (case consume_events show_json rx of
                              (out, seen, rest) \<Rightarrow>
                                repl_then out (ActSent [msg] (Inr ()) # map ActGot seen)
                                  (case rest of
                                     None \<Rightarrow> repl_waits
                                   | Some rx \<Rightarrow> repl_loop show_json ls rx))))))"

text \<open>\<open>run_repl\<close>; \<open>shutdown\<close> is what \<open>server.shutdown\<close> returns, \<open>None\<close> when it does not.\<close>

definition run_repl ::
    "(json \<Rightarrow> string) \<Rightarrow> SessionId \<Rightarrow> LaneId \<Rightarrow> bool \<Rightarrow> (ServerError + unit) option \<Rightarrow> repl_line list \<Rightarrow> recv list
       \<Rightarrow> repl_result" where
  "run_repl show_json sid lane_id subscribed shutdown ls rx =
     (if \<not> subscribed then repl_ends (Inl (CliServer (SvLaneNotFound lane_id)))
      else (let r = repl_then [Stdout (''guigu REPL (session: '' @ sid @ ''). Type /quit or Ctrl-D to exit.'' @ newline)] []
                      (repl_loop show_json ls rx) in
            case rr_end r of
              Some (Inr _) \<Rightarrow>
                r\<lparr>rr_acts := rr_acts r @ [ActShutdown], rr_end := map_option (map_sum CliServer id) shutdown\<rparr>
            | _ \<Rightarrow> r))"

section \<open>Keys\<close>

lemma present_Some: "present v = Some k \<longleftrightarrow> v = Some k \<and> k \<noteq> []"
  by (auto simp: present_def split: option.split)

text \<open>Where a key may come from.\<close>

definition key_from :: "environment \<Rightarrow> string option \<Rightarrow> ModelConfig \<Rightarrow> string \<Rightarrow> bool" where
  "key_from env cli_key mc k \<longleftrightarrow> k \<noteq> [] \<and>
     (cli_key = Some k \<or> mc_api_key mc = Some k \<or> (\<exists>v. mc_api_key_env mc = Some v \<and> env v = Some k)
      \<or> mc_api_key_env mc = None \<and> env (default_api_key_env (mc_protocol mc)) = Some k)"

lemma resolve_key_from: "resolve_api_key env cli_key mc = Inr k \<Longrightarrow> key_from env cli_key mc k"
  by (auto simp: resolve_api_key_def key_from_def present_Some split: option.splits)

text \<open>The provider of a configuration with a key.\<close>

definition provides :: "provider \<Rightarrow> ModelConfig \<Rightarrow> string \<Rightarrow> bool" where
  "provides p mc k =
     (case p of
        ProvOpenAi c \<Rightarrow> mc_protocol mc = ProtoOpenAi \<and> oc_api_key c = k \<and> oc_base_url c = mc_base_url mc
      | ProvAnthropic c \<Rightarrow> mc_protocol mc = ProtoAnthropic \<and> ac_api_key c = k \<and> ac_base_url c = mc_base_url mc
      | ProvFake \<Rightarrow> False)"

lemma with_key_provides:
  assumes "with_key env client cli name env_name mc = Inr (p, model)"
  shows "\<exists>k. provides p mc k \<and> key_from env (cl_api_key cli) mc k \<and> model = mc_model mc"
  using assms resolve_key_from [of env "cl_api_key cli" mc]
  by (cases "mc_protocol mc")
    (auto simp: with_key_def build_provider_def provider_new_def provides_def Let_def split: sum.splits)

text \<open>
  C23: A key is sent only where it belongs.  The provider that is chosen is that of one
  configuration, the entry of the configuration file that \<open>--model\<close> names or else the options
  themselves, with its endpoint and its model; its key is that of the command line, of this
  entry, of the variable this entry names, or of the default variable of its own protocol.
  The default variable is not consulted when another is named, and no other key is used.
\<close>

theorem key_confined:
  assumes "select_provider config env client cli = Inr (p, model)" "cl_provider cli \<noteq> CpFake"
  shows "\<exists>mc k. provides p mc k \<and> model = mc_model mc \<and> key_from env (cl_api_key cli) mc k
    \<and> ((\<exists>ms name. config = Inr ms \<and> cl_model cli = Some name \<and> ms name = Some mc)
       \<or> mc = inline_config cli (if cl_provider cli = CpOpenai then ProtoOpenAi else ProtoAnthropic))"
proof -
  obtain ms where ms: "config = Inr ms"
    using assms by (auto simp: select_provider_def split: sum.splits)
  show ?thesis
  proof (cases "Option.bind (cl_model cli) ms")
    case (Some mc)
    then have "with_key env client cli (mc_name mc) (default_api_key_env (mc_protocol mc)) mc = Inr (p, model)"
      using assms ms by (simp add: select_provider_def)
    from with_key_provides [OF this] show ?thesis using ms Some by (auto simp: bind_eq_Some_conv)
  next
    case None
    then obtain name env_name where "with_key env client cli name env_name
        (inline_config cli (if cl_provider cli = CpOpenai then ProtoOpenAi else ProtoAnthropic)) = Inr (p, model)"
      using assms ms by (cases "cl_provider cli") (auto simp: select_provider_def)
    from with_key_provides [OF this] show ?thesis by blast
  qed
qed

section \<open>Session files\<close>

lemma jsonl_clean: "slash \<notin> set sid \<Longrightarrow> clean (sid @ ''.jsonl'')"
  by (auto simp: clean_def slash_def append_eq_Cons_conv)

lemma session_path_plain:
  assumes "slash \<notin> set sid"
  shows "components (session_path log_dir sid) = components log_dir @ [sid @ ''.jsonl'']"
proof -
  have "\<not> is_absolute (sid @ ''.jsonl'')"
    using assms by (cases sid) (auto simp: is_absolute_def slash_def)
  then show ?thesis
    using jsonl_clean [OF assms] components_push [of log_dir]
    by (cases "log_dir = []") (simp_all add: session_path_def path_join_def components_simps path_push_def)
qed

lemma assembled_bundle:
  "sv_bundle_factory (build_server opens p model tools log_dir prompt) = Some (open_storage_sync opens log_dir)"
  by (simp add: build_server_def with_storage_bundle_factory_def with_storage_factory_def with_runtime_factory_def
      set_once_def server_new_def)

text \<open>
  C36: The session store is confined to its directory only for ids without a slash, and ids
  are not checked: they come from \<open>--session\<close> and, through \<open>session/load\<close> of ACP, from the
  client.  An id without a slash names a file directly in the directory.  An absolute id names
  a file anywhere: what the server opens for it does not depend on the directory.
\<close>

theorem session_files:
  assumes "assemble opens config env client cli prompt = Inr a"
  shows "\<exists>open_bundle. sv_bundle_factory (as_server a) = Some open_bundle
    \<and> (\<forall>sid. slash \<notin> set sid \<longrightarrow>
         (\<exists>path. components path = components (as_log_dir a) @ [sid @ ''.jsonl'']
            \<and> open_bundle sid = (case opens path sid of Inr s \<Rightarrow> from_backend (JsonlStorage s)
                                 | Inl e \<Rightarrow> message_only (FailingStorage (session_error_text e)))))
    \<and> (\<forall>sid. is_absolute sid \<longrightarrow>
         open_bundle sid = (case opens (sid @ ''.jsonl'') sid of Inr s \<Rightarrow> from_backend (JsonlStorage s)
                            | Inl e \<Rightarrow> message_only (FailingStorage (session_error_text e))))"
proof -
  have factory: "sv_bundle_factory (as_server a) = Some (open_storage_sync opens (as_log_dir a))"
    using assms by (auto simp: assemble_def assembled_bundle Let_def split: sum.splits prod.splits)
  have "session_path (as_log_dir a) sid = sid @ ''.jsonl''" if "is_absolute sid" for sid
    using that by (cases sid) (simp_all add: session_path_def path_join_def is_absolute_def)
  then show ?thesis using factory session_path_plain by (auto simp: open_storage_sync_def)
qed

section \<open>Setting up\<close>

lemma assembled_start:
  "assemble opens config env client cli prompt = Inr a \<Longrightarrow>
     sv_sessions (as_server a) = Map.empty \<and> sv_tasks (as_server a) = []"
  by (auto simp: assemble_def build_server_def with_storage_bundle_factory_def with_storage_factory_def
      with_runtime_factory_def server_new_def Let_def split: sum.splits prod.splits)

lemma setup_reachable:
  assumes "reachable (cli_backend be) capacity (pcs, sv)" "idle (pcs c)"
    "setup_session be opens secs pid log_dir cli c (pcs, sv) = (r, st')"
  shows "reachable (cli_backend be) capacity st' \<and> (\<forall>d. d \<noteq> c \<longrightarrow> fst st' d = pcs d)"
proof -
  have op: "reachable (cli_backend be) capacity (pcs(c := pc), sv1)"
    if "entry pc" "reachable (cli_backend be) capacity (pcs, sv1)" for pc sv1
    by (rule reachable.step [OF that(2) sys_step.begin_op]) (use that(1) assms(2) in simp_all)
  have loads: "reachable (cli_backend be) capacity (pcs, sv1)"
    if "load_session (cli_backend be) sid storage sv = (r1, sv1)" for sid storage r1 sv1
    using that assms(1) reachable_session [OF assms(1)]
    by (auto simp: load_session_def load_session_with_head_store_def split: outcome.splits sum.splits prod.splits)
  have creates: "reachable (cli_backend be) capacity (pcs, sv1)"
    if "create_session sid storage sv = (r1, sv1)" for sid storage r1 sv1
    using that reachable_session [OF assms(1)] by (simp add: create_session_def create_session_with_head_store_def)
  have spawns: "entry (PcCheck job)" if "spawn_lane_from_factory sid CLI_LANE sv1 = Inr job"
    for sid job and sv1 :: "('a cli_storage, cli_runtime) ServerInner"
    using that by (auto simp: spawn_lane_from_factory_def spawn_lane_def split: option.splits)
  show ?thesis
  proof (cases "cl_session cli")
    case (Some sid)
    then show ?thesis
      using assms(1,3) op loads
      by (auto simp: setup_session_def Let_def split: sum.splits prod.splits outcome.splits)
  next
    case None
    then show ?thesis
      using assms(1,3) op creates spawns
      by (auto simp: setup_session_def Let_def split: sum.splits prod.splits)
  qed
qed

text \<open>
  The program starts inside the server's contract.  What \<open>assemble\<close> builds, with the session
  that is set up for \<open>--session\<close> or anew, is a state the server reaches by its own operations,
  so every guarantee of the lanes holds from the first prompt on, also when a storage could
  not be opened; the setup starts at most one operation, as the client it was given.
\<close>

theorem setup_refines:
  assumes "assemble opens config env client cli prompt = Inr a"
    "setup_session be opens secs pid (as_log_dir a) cli c (\<lambda>_. PcDone (Inr ()), as_server a) = (r, st)"
  shows "reachable (cli_backend be) capacity st \<and> (\<forall>d. d \<noteq> c \<longrightarrow> fst st d = PcDone (Inr ()))"
proof -
  have "reachable (cli_backend be) capacity (\<lambda>_. PcDone (Inr ()), as_server a)"
    by (rule reachable.start) (use assembled_start [OF assms(1)] in simp_all)
  from setup_reachable [OF this _ assms(2)] show ?thesis by simp
qed

section \<open>The line interface\<close>

text \<open>What a line asks for: the end of the session, nothing, or a prompt.\<close>

datatype line_kind = UseEnd | UseNothing | UsePrompt string | UseError

definition line_use :: "repl_line \<Rightarrow> line_kind" where
  "line_use l =
     (if rl_flush l \<noteq> None then UseError
      else case stdin_line (rl_read l) of
             Inl _ \<Rightarrow> UseError
           | Inr buf \<Rightarrow>
               if buf = [] \<or> str_trim buf \<in> {''/quit'', ''/exit''} then UseEnd
               else if str_trim buf = [] then UseNothing else UsePrompt (str_trim buf))"

fun asked :: "repl_line list \<Rightarrow> string list" where
  "asked [] = []"
| "asked (l # ls) =
     (case line_use l of
        UseNothing \<Rightarrow> asked ls | UsePrompt t \<Rightarrow> t # asked ls | _ \<Rightarrow> [])"

text \<open>The line that ends the session.\<close>

fun closing :: "repl_line list \<Rightarrow> line_kind option" where
  "closing [] = None"
| "closing (l # ls) = (case line_use l of UseEnd \<Rightarrow> Some UseEnd | UseError \<Rightarrow> Some UseError | _ \<Rightarrow> closing ls)"

text \<open>The prompts sent.\<close>

definition sent_prompts :: "repl_act list \<Rightarrow> Message list list" where
  "sent_prompts acts = List.map_filter (\<lambda>a. case a of ActSent msgs _ \<Rightarrow> Some msgs | _ \<Rightarrow> None) acts"

text \<open>
  Runs do not overlap: with an accepted prompt a run begins, and until the end of a run (or of the
  stream) has been received nothing is sent and nothing shut down; outside a run nothing is received.
\<close>

fun run_ends :: "recv \<Rightarrow> bool" where
  "run_ends (RecvEvent (AgentEnd _)) = True"
| "run_ends RecvClosed = True"
| "run_ends _ = False"

fun next_running :: "bool \<Rightarrow> repl_act \<Rightarrow> bool" where
  "next_running running (ActSent _ r) = (r = Inr ())"
| "next_running running (ActGot r) = (\<not> run_ends r)"
| "next_running running ActShutdown = False"

fun one_at_a_time :: "bool \<Rightarrow> repl_act list \<Rightarrow> bool" where
  "one_at_a_time running [] = True"
| "one_at_a_time running (a # as) =
     ((case a of ActGot _ \<Rightarrow> running | _ \<Rightarrow> \<not> running) \<and> one_at_a_time (next_running running a) as)"

lemma one_at_a_time_append:
  "one_at_a_time running (as @ bs) = (one_at_a_time running as \<and> one_at_a_time (foldl next_running running as) bs)"
  by (induction as arbitrary: running) auto

lemma sent_prompts_simps [simp]:
  "sent_prompts [] = []" "sent_prompts (ActSent msgs r # as) = msgs # sent_prompts as"
  "sent_prompts (ActGot x # as) = sent_prompts as" "sent_prompts (ActShutdown # as) = sent_prompts as"
  "sent_prompts (as @ bs) = sent_prompts as @ sent_prompts bs" "sent_prompts (map ActGot xs) = []"
  by (simp_all add: sent_prompts_def map_filter_def)

lemma repl_then_simps [simp]:
  "rr_out (repl_then out as r) = out @ rr_out r" "rr_acts (repl_then out as r) = as @ rr_acts r"
  "rr_end (repl_then out as r) = rr_end r"
  "rr_acts (repl_ends x) = []" "rr_end (repl_ends x) = Some x" "rr_acts repl_waits = []" "rr_end repl_waits = None"
  by (simp_all add: repl_then_def repl_ends_def repl_waits_def)

lemma consumed_run:
  "consume_events show_json rx = (out, seen, rest) \<Longrightarrow>
     one_at_a_time True (map ActGot seen) \<and> foldl next_running True (map ActGot seen) = (rest = None)"
proof (induction show_json rx arbitrary: out seen rest rule: consume_events.induct)
  case (2 show_json event rs)
  obtain o1 s1 r1 where c: "consume_events show_json rs = (o1, s1, r1)" using prod_cases3 by blast
  show ?case
  proof (cases "\<exists>msgs. event = AgentEnd msgs")
    case False
    then have "\<not> run_ends (RecvEvent event)" by (cases event) auto
    then show ?thesis using 2 c False by auto
  qed (use 2 in auto)
next
  case (3 show_json n rs)
  obtain o1 s1 r1 where c: "consume_events show_json rs = (o1, s1, r1)" using prod_cases3 by blast
  then show ?case using 3 by auto
qed auto

text \<open>The loop on one line, by what the line asks for.\<close>

lemma repl_loop_Cons:
  "rr_acts (repl_loop show_json (l # ls) rx) =
     (case line_use l of
        UseNothing \<Rightarrow> rr_acts (repl_loop show_json ls rx)
      | UsePrompt t \<Rightarrow>
          (case rl_prompt l of
             Inl e \<Rightarrow> ActSent [prompt_message t] (Inl e) # rr_acts (repl_loop show_json ls rx)
           | Inr _ \<Rightarrow> (case consume_events show_json rx of (out, seen, rest) \<Rightarrow>
               ActSent [prompt_message t] (Inr ()) # map ActGot seen
                 @ (case rest of None \<Rightarrow> [] | Some rx \<Rightarrow> rr_acts (repl_loop show_json ls rx))))
      | _ \<Rightarrow> [])"
  "rr_end (repl_loop show_json (l # ls) rx) =
     (case line_use l of
        UseNothing \<Rightarrow> rr_end (repl_loop show_json ls rx)
      | UsePrompt t \<Rightarrow>
          (case rl_prompt l of
             Inl _ \<Rightarrow> rr_end (repl_loop show_json ls rx)
           | Inr _ \<Rightarrow> (case consume_events show_json rx of (out, seen, rest) \<Rightarrow>
               case rest of None \<Rightarrow> None | Some rx \<Rightarrow> rr_end (repl_loop show_json ls rx)))
      | UseEnd \<Rightarrow> Some (Inr ())
      | UseError \<Rightarrow> Some (Inl (CliIo (case rl_flush l of Some e \<Rightarrow> e | None \<Rightarrow> projl (stdin_line (rl_read l))))))"
  by (auto simp: line_use_def Let_def split: option.split sum.split prod.split)

definition session_ok :: "repl_line list \<Rightarrow> repl_result \<Rightarrow> bool" where
  "session_ok ls r \<longleftrightarrow>
     prefix (sent_prompts (rr_acts r)) (map (\<lambda>t. [prompt_message t]) (asked ls))
     \<and> one_at_a_time False (rr_acts r) \<and> ActShutdown \<notin> set (rr_acts r)
     \<and> (\<forall>x. rr_end r = Some x \<longrightarrow>
          sent_prompts (rr_acts r) = map (\<lambda>t. [prompt_message t]) (asked ls)
          \<and> \<not> foldl next_running False (rr_acts r)
          \<and> (case x of Inr _ \<Rightarrow> closing ls = Some UseEnd | Inl e \<Rightarrow> closing ls = Some UseError \<and> (\<exists>m. e = CliIo m)))"

lemma session_okI:
  assumes "session_ok ls r" "asked ls' = map id pre @ asked ls" "closing ls' = closing ls"
    "rr_acts r' = acts @ rr_acts r" "rr_end r' = rr_end r"
    "sent_prompts acts = map (\<lambda>t. [prompt_message t]) pre" "one_at_a_time False acts" "\<not> foldl next_running False acts"
    "ActShutdown \<notin> set acts"
  shows "session_ok ls' r'"
  using assms by (auto simp: session_ok_def one_at_a_time_append split: sum.splits)

lemma repl_loop_session: "session_ok ls (repl_loop show_json ls rx)"
proof (induction ls arbitrary: rx)
  case Nil then show ?case by (simp add: session_ok_def)
next
  case (Cons l ls)
  let ?r = "repl_loop show_json (l # ls) rx"
  note eqs = repl_loop_Cons [of show_json l ls rx]
  show ?case
  proof (cases "line_use l")
    case UseNothing
    then show ?thesis using session_okI [OF Cons.IH [of rx], of "l # ls" "[]" ?r "[]"] eqs by simp
  next
    case (UsePrompt t)
    show ?thesis
    proof (cases "rl_prompt l")
      case (Inl e)
      then show ?thesis
        using session_okI [OF Cons.IH [of rx], of "l # ls" "[t]" ?r "[ActSent [prompt_message t] (Inl e)]"] eqs UsePrompt by simp
    next
      case (Inr u)
      obtain out seen rest where c: "consume_events show_json rx = (out, seen, rest)" using prod_cases3 by blast
      note run = consumed_run [OF c]
      show ?thesis
      proof (cases rest)
        case None
        then have "rr_acts ?r = ActSent [prompt_message t] (Inr ()) # map ActGot seen" "rr_end ?r = None"
          using eqs UsePrompt Inr c by simp_all
        then show ?thesis using run UsePrompt by (auto simp: session_ok_def)
      next
        case (Some rx')
        then show ?thesis
          using session_okI [OF Cons.IH [of rx'], of "l # ls" "[t]" ?r "ActSent [prompt_message t] (Inr ()) # map ActGot seen"]
            eqs UsePrompt Inr c run by (auto simp del: repl_loop.simps)
      qed
    qed
  qed (use eqs in \<open>simp_all add: session_ok_def del: repl_loop.simps\<close>)
qed

text \<open>
  C34: The line interface sends exactly the prompts that were typed, one run after another: the trimmed
  lines before the first that ends the session, without the empty ones, whether or not the server takes
  them.  After a prompt that was taken it receives events until the end of that run (or of the stream), and
  neither sends the next one nor shuts the server down before.  It returns only after a line that ends the
  session: at the end of the input or a command to quit it shuts the server down and returns what that
  returns; at an error of the terminal, which a line that is not UTF-8 is, it returns the error and does
  not shut the server down.
\<close>

theorem repl_session:
  assumes "run_repl show_json sid lane_id True shutdown ls rx = r"
  shows "prefix (sent_prompts (rr_acts r)) (map (\<lambda>t. [prompt_message t]) (asked ls))
    \<and> one_at_a_time False (rr_acts r)
    \<and> (ActShutdown \<in> set (rr_acts r) \<or> rr_end r \<noteq> None \<longrightarrow>
         sent_prompts (rr_acts r) = map (\<lambda>t. [prompt_message t]) (asked ls)
         \<and> (closing ls = Some UseEnd \<and> ActShutdown \<in> set (rr_acts r) \<and> rr_end r = map_option (map_sum CliServer id) shutdown
            \<or> closing ls = Some UseError \<and> ActShutdown \<notin> set (rr_acts r) \<and> (\<exists>e. rr_end r = Some (Inl (CliIo e)))))"
  using repl_loop_session [of ls show_json rx] assms
  by (auto simp: run_repl_def Let_def session_ok_def one_at_a_time_append split: option.splits sum.splits)

section \<open>Witnesses\<close>

definition demo_cli :: Cli where
  "demo_cli =
     \<lparr>cl_command = None, cl_model = None, cl_provider = CpAnthropic, cl_session = None, cl_cwd = None, cl_log = Some ''/log'',
      cl_api_key = None, cl_system_prompt = None, cl_base_url = None, cl_config = None, cl_api_key_env = None\<rparr>"

definition demo_vars :: environment where
  "demo_vars = [''ANTHROPIC_API_KEY'' \<mapsto> ''sk-a'', ''OPENAI_API_KEY'' \<mapsto> ''sk-o'']"

lemma demo_selected:
  "select_provider (Inr Map.empty) demo_vars (Inr ()) demo_cli =
     Inr (ProvAnthropic \<lparr>ac_api_key = ''sk-a'', ac_base_url = None, ac_max_tokens = 4096,
            ac_anthropic_version = ''2023-06-01''\<rparr>, ''claude-3-5-sonnet-20241022'')"
  by (simp add: select_provider_def with_key_def resolve_api_key_def present_def build_provider_def provider_new_def
      inline_config_def demo_cli_def demo_vars_def DEFAULT_MAX_TOKENS_def DEFAULT_ANTHROPIC_VERSION_def Let_def)

lemma key_confined_witness:
  "\<exists>mc. provides (ProvAnthropic \<lparr>ac_api_key = ''sk-a'', ac_base_url = None, ac_max_tokens = 4096,
            ac_anthropic_version = ''2023-06-01''\<rparr>) mc ''sk-a'' \<and> key_from demo_vars None mc ''sk-a''"
proof -
  have "cl_provider demo_cli \<noteq> CpFake" "cl_api_key demo_cli = None" by (simp_all add: demo_cli_def)
  with key_confined [OF demo_selected] show ?thesis by (auto simp: provides_def split: provider.splits)
qed

lemma demo_assembled: "\<exists>a. assemble opens (Inr Map.empty) demo_vars (Inr ()) demo_cli [] = Inr a \<and> as_log_dir a = ''/log''"
proof -
  have "cl_log demo_cli = Some ''/log''" by (simp add: demo_cli_def)
  then show ?thesis by (simp add: assemble_def demo_selected resolve_log_dir_def Let_def)
qed

lemma session_files_witness:
  "\<exists>a open_bundle. assemble (\<lambda>p _. Inr p) (Inr Map.empty) demo_vars (Inr ()) demo_cli [] = Inr a
     \<and> sv_bundle_factory (as_server a) = Some open_bundle
     \<and> open_bundle ''/etc/x'' = from_backend (JsonlStorage ''/etc/x.jsonl'')"
proof -
  obtain a where a: "assemble (\<lambda>p _. Inr p) (Inr Map.empty) demo_vars (Inr ()) demo_cli [] = Inr a"
    using demo_assembled by blast
  have "is_absolute ''/etc/x''" by (simp add: is_absolute_def slash_def)
  then show ?thesis using session_files [OF a] a by fastforce
qed

lemma setup_refines_witness:
  "\<exists>a r st. assemble (\<lambda>_ _. Inr ()) (Inr Map.empty) demo_vars (Inr ()) demo_cli [] = Inr a
     \<and> setup_session null_backend (\<lambda>_ _. Inr ()) (Some 5) 7 (as_log_dir a) demo_cli 3 (\<lambda>_. PcDone (Inr ()), as_server a) = (r, st)
     \<and> reachable (cli_backend null_backend) 100 st"
proof -
  obtain a where a: "assemble (\<lambda>_ _. Inr ()) (Inr Map.empty) demo_vars (Inr ()) demo_cli [] = Inr (a :: unit Assembled)"
    using demo_assembled by blast
  obtain r st where "setup_session null_backend (\<lambda>_ _. Inr ()) (Some 5) 7 (as_log_dir a) demo_cli 3
      (\<lambda>_. PcDone (Inr ()), as_server a) = (r, st)"
    using prod.exhaust by blast
  from setup_refines [OF a this, of 100] this a show ?thesis by blast
qed

lemma repl_session_witness:
  "\<exists>r. run_repl (\<lambda>_. []) ''s'' ''l'' True (Some (Inr ()))
       [\<lparr>rl_flush = None, rl_read = LineBytes ''hi'', rl_prompt = Inr ()\<rparr>, \<lparr>rl_flush = None, rl_read = LineBytes [], rl_prompt = Inr ()\<rparr>]
       [RecvEvent AgentStart, RecvEvent (AgentEnd [])] = r
     \<and> rr_end r = Some (Inr ()) \<and> sent_prompts (rr_acts r) = [[prompt_message ''hi'']]"
proof -
  let ?ls = "[\<lparr>rl_flush = None, rl_read = LineBytes ''hi'', rl_prompt = Inr ()\<rparr>,
    \<lparr>rl_flush = None, rl_read = LineBytes [], rl_prompt = Inr ()\<rparr>]"
  have hi: "utf8_valid ''hi''" "str_trim ''hi'' = ''hi''"
    using trim_visible [of "''hi''"] by (simp_all add: utf8_valid_ascii white_space_ascii byte_def)
  then have asked: "asked ?ls = [''hi'']" by (simp add: line_use_def stdin_line_def)
  obtain r where run: "run_repl (\<lambda>_. []) ''s'' ''l'' True (Some (Inr ())) ?ls
      [RecvEvent AgentStart, RecvEvent (AgentEnd [])] = r" by blast
  then have "rr_end r = Some (Inr ())"
    using hi by (auto simp: run_repl_def Let_def stdin_line_def)
  then show ?thesis using repl_session [OF run] run asked by auto
qed

end
