(* ===== verification/File_Lock.thy ===== *)
theory File_Lock
  imports File_Tools
begin

text \<open>
  The lock between processes (\<open>core/file_lock.rs\<close>).  A lock is on a file beside its target; the
  operating system gives it to one opener at a time and takes it back when the file is closed,
  also when the process dies.  An acquisition runs on a blocking thread, which goes on when
  the caller no longer waits for it.
\<close>

section \<open>The lock file\<close>

definition lock_suffix :: string where
  "lock_suffix = ''.guigu.lock''"

text \<open>\<open>Path::file_name\<close>: the last component, unless it is \<open>..\<close>.\<close>

definition file_name :: "string \<Rightarrow> string option" where
  "file_name p =
     (let cs = components p in if cs = [] \<or> last cs = ''..'' then None else Some (last cs))"

text \<open>
  \<open>PathBuf::set_file_name\<close> of a path with a file name: it is popped, the new one pushed.  The
  result is given up to repeated separators and \<open>.\<close>, which paths ignore.
\<close>

definition set_file_name :: "string \<Rightarrow> string \<Rightarrow> string" where
  "set_file_name p name =
     foldl path_push (if is_absolute p then path_root p else []) (butlast (components p) @ [name])"

definition for_path :: "string \<Rightarrow> string" where
  "for_path target =
     (case file_name target of Some name \<Rightarrow> set_file_name target (name @ lock_suffix) | None \<Rightarrow> target)"

section \<open>Acquiring\<close>

datatype FileLockError =
    LockOpen string string
  | LockAcquire string string
  | LockCancelled
  | LockJoin string

fun file_lock_error_text :: "FileLockError \<Rightarrow> string" where
  "file_lock_error_text (LockOpen path e) = ''failed to open lock file `'' @ path @ ''`: '' @ e"
| "file_lock_error_text (LockAcquire path e) = ''failed to acquire lock on `'' @ path @ ''`: '' @ e"
| "file_lock_error_text LockCancelled = ''lock task cancelled''"
| "file_lock_error_text (LockJoin e) = ''join error: '' @ e"

text \<open>
  Where a caller stands: on the blocking thread before it opens the file (does it only try?)
  or in the system call, with the locked file on the way back, holding the guard, or returned
  without one (\<open>Inr ()\<close>: somebody else has the lock).
\<close>

datatype lock_pc =
    LockIdle
  | LockStart string bool
  | LockWait string
  | LockGot string
  | LockHeld string
  | LockReturned "FileLockError + unit"

text \<open>The owner of each lock file, and the callers whose future was dropped.\<close>

record lock_sys =
  ls_owner :: "string \<rightharpoonup> nat"
  ls_pc :: "nat \<Rightarrow> lock_pc"
  ls_dropped :: "nat set"

definition at_pc :: "nat \<Rightarrow> lock_pc \<Rightarrow> lock_sys \<Rightarrow> lock_sys" where
  "at_pc c pc s = s\<lparr>ls_pc := (ls_pc s)(c := pc)\<rparr>"

definition locked :: "nat \<Rightarrow> string \<Rightarrow> lock_sys \<Rightarrow> lock_sys" where
  "locked c p s = at_pc c (LockGot p) (s\<lparr>ls_owner := (ls_owner s)(p \<mapsto> c)\<rparr>)"

text \<open>\<open>drop\<close> of a guard, and of a locked file whose caller has gone.\<close>

definition unlocked :: "nat \<Rightarrow> string \<Rightarrow> lock_sys \<Rightarrow> lock_sys" where
  "unlocked c p s =
     at_pc c LockIdle (s\<lparr>ls_owner := (ls_owner s)(p := None), ls_dropped := ls_dropped s - {c}\<rparr>)"

text \<open>
  The blocking thread: opening, then the system call.  The system decides whether one of them fails
  (of a \<open>try_lock\<close>, other than with \<open>WouldBlock\<close>).
\<close>

datatype lock_call = CallGoes | OpenFails string | LockFails string

definition blocking_step :: "nat \<Rightarrow> lock_call \<Rightarrow> lock_sys \<Rightarrow> lock_sys option" where
  "blocking_step c call s =
     (case ls_pc s c of
        LockStart p only_try \<Rightarrow>
          (case call of
             OpenFails e \<Rightarrow> Some (at_pc c (LockReturned (Inl (LockOpen p e))) s)
           | _ \<Rightarrow>
               if \<not> only_try then Some (at_pc c (LockWait p) s)
               else (case call of
                       LockFails e \<Rightarrow> Some (at_pc c (LockReturned (Inl (LockAcquire p e))) s)
                     | _ \<Rightarrow>
                         if ls_owner s p = None then Some (locked c p s)
                         else Some (at_pc c (LockReturned (Inr ())) s)))
      | LockWait p \<Rightarrow>
          (case call of
             LockFails e \<Rightarrow> Some (at_pc c (LockReturned (Inl (LockAcquire p e))) s)
           | _ \<Rightarrow> if ls_owner s p = None then Some (locked c p s) else None)
      | _ \<Rightarrow> None)"

text \<open>The caller: it takes the file as its guard, or nobody does.\<close>

definition lock_caller_step :: "nat \<Rightarrow> lock_sys \<Rightarrow> lock_sys option" where
  "lock_caller_step c s =
     (case ls_pc s c of
        LockGot p \<Rightarrow> Some (if c \<in> ls_dropped s then unlocked c p s else at_pc c (LockHeld p) s)
      | _ \<Rightarrow> None)"

definition lock_idle :: "lock_pc \<Rightarrow> bool" where
  "lock_idle pc = (pc = LockIdle \<or> (\<exists>r. pc = LockReturned r))"

text \<open>A process dies: its files are closed and its callers are gone.\<close>

definition crash :: "nat set \<Rightarrow> lock_sys \<Rightarrow> lock_sys" where
  "crash K s =
     \<lparr>ls_owner = (\<lambda>p. case ls_owner s p of Some c \<Rightarrow> if c \<in> K then None else Some c | None \<Rightarrow> None),
      ls_pc = (\<lambda>c. if c \<in> K then LockIdle else ls_pc s c), ls_dropped = ls_dropped s - K\<rparr>"

inductive lock_step :: "lock_sys \<Rightarrow> lock_sys \<Rightarrow> bool" where
  call: "lock_idle (ls_pc s c) \<Longrightarrow>
    lock_step s (at_pc c (LockStart (for_path target) only_try) (s\<lparr>ls_dropped := ls_dropped s - {c}\<rparr>))"
| blocking: "blocking_step c call s = Some s' \<Longrightarrow> lock_step s s'"
| joined: "ls_pc s c = LockStart p only_try \<Longrightarrow> lock_step s (at_pc c (LockReturned (Inl (LockJoin e))) s)"
| caller: "lock_caller_step c s = Some s' \<Longrightarrow> lock_step s s'"
| abandon: "\<not> lock_idle (ls_pc s c) \<Longrightarrow> (\<And>p. ls_pc s c \<noteq> LockHeld p) \<Longrightarrow> lock_step s (s\<lparr>ls_dropped := insert c (ls_dropped s)\<rparr>)"
| drop_guard: "ls_pc s c = LockHeld p \<Longrightarrow> lock_step s (unlocked c p s)"
| crash: "lock_step s (crash K s)"

definition lock_start :: lock_sys where
  "lock_start = \<lparr>ls_owner = Map.empty, ls_pc = (\<lambda>_. LockIdle), ls_dropped = {}\<rparr>"

inductive lock_reachable :: "lock_sys \<Rightarrow> bool" where
  start: "lock_reachable lock_start"
| step: "lock_reachable s \<Longrightarrow> lock_step s s' \<Longrightarrow> lock_reachable s'"

section \<open>Exclusion\<close>

text \<open>The lock file a caller has locked, as its guard or on the way to it.\<close>

fun lock_of :: "lock_pc \<Rightarrow> string option" where
  "lock_of (LockGot p) = Some p"
| "lock_of (LockHeld p) = Some p"
| "lock_of _ = None"

definition owners_ok :: "lock_sys \<Rightarrow> bool" where
  "owners_ok s \<longleftrightarrow> (\<forall>p c. (ls_owner s p = Some c) = (lock_of (ls_pc s c) = Some p))"

definition lock_inv :: "lock_sys \<Rightarrow> bool" where
  "lock_inv s \<longleftrightarrow> owners_ok s \<and> (\<forall>c p. ls_pc s c = LockHeld p \<longrightarrow> c \<notin> ls_dropped s)"

lemma lock_inv_at: "lock_inv s \<Longrightarrow> lock_of (ls_pc s c) = None \<Longrightarrow> lock_of pc = None \<Longrightarrow> lock_inv (at_pc c pc s)"
  by (auto simp: lock_inv_def owners_ok_def at_pc_def)

lemma owners_locked:
  assumes "owners_ok s" "ls_owner s p = None" "lock_of (ls_pc s c) = None"
  shows "owners_ok (locked c p s)"
proof -
  have "lock_of (ls_pc s c') \<noteq> Some p" for c' using assms(1,2) by (metis option.distinct(1) owners_ok_def)
  then show ?thesis using assms by (auto simp: owners_ok_def locked_def at_pc_def)
qed

lemma lock_inv_locked:
  "lock_inv s \<Longrightarrow> ls_owner s p = None \<Longrightarrow> lock_of (ls_pc s c) = None \<Longrightarrow> lock_inv (locked c p s)"
  using owners_locked [of s p c] by (auto simp: lock_inv_def locked_def at_pc_def)

lemma owners_unlocked:
  assumes "owners_ok s" "lock_of (ls_pc s c) = Some p"
  shows "owners_ok (unlocked c p s)"
proof -
  have only: "c' = c" if "lock_of (ls_pc s c') = Some p" for c'
    using assms that by (metis option.inject owners_ok_def)
  have owner: "ls_owner (unlocked c p s) p' = Some c' \<longleftrightarrow> p' \<noteq> p \<and> ls_owner s p' = Some c'" for p' c'
    by (simp add: unlocked_def at_pc_def)
  have pcs: "lock_of (ls_pc (unlocked c p s) c') = Some p' \<longleftrightarrow> c' \<noteq> c \<and> lock_of (ls_pc s c') = Some p'" for p' c'
    by (simp add: unlocked_def at_pc_def)
  have "(ls_owner (unlocked c p s) p' = Some c') = (lock_of (ls_pc (unlocked c p s) c') = Some p')" for p' c'
    unfolding owner pcs using assms only [of c'] unfolding owners_ok_def by (metis option.inject)
  then show ?thesis by (simp add: owners_ok_def)
qed

lemma lock_inv_unlocked: "lock_inv s \<Longrightarrow> lock_of (ls_pc s c) = Some p \<Longrightarrow> lock_inv (unlocked c p s)"
  using owners_unlocked [of s c p] by (auto simp: lock_inv_def unlocked_def at_pc_def)

lemma lock_inv_crash: "lock_inv s \<Longrightarrow> lock_inv (crash K s)"
  unfolding lock_inv_def
proof (elim conjE, intro conjI)
  assume "owners_ok s"
  moreover have "ls_owner (crash K s) p = Some c \<longleftrightarrow> c \<notin> K \<and> ls_owner s p = Some c" for p c
    by (auto simp: crash_def split: option.split)
  moreover have "lock_of (ls_pc (crash K s) c) = Some p \<longleftrightarrow> c \<notin> K \<and> lock_of (ls_pc s c) = Some p" for p c
    by (simp add: crash_def)
  ultimately show "owners_ok (crash K s)" by (simp add: owners_ok_def)
qed (auto simp: crash_def)

lemma lock_inv_step: "lock_step s s' \<Longrightarrow> lock_inv s \<Longrightarrow> lock_inv s'"
proof (induction rule: lock_step.induct)
  case (call s c target only_try)
  have "lock_inv (s\<lparr>ls_dropped := ls_dropped s - {c}\<rparr>)" using call.prems by (auto simp: lock_inv_def owners_ok_def)
  then show ?case using call.hyps by (intro lock_inv_at) (auto simp: lock_idle_def)
next
  case (blocking c call s s')
  then show ?case
    by (auto simp: blocking_step_def intro!: lock_inv_at lock_inv_locked split: lock_pc.splits option.splits lock_call.splits if_splits)
next
  case (joined s c p only_try e) then show ?case by (intro lock_inv_at) simp_all
next
  case (caller c s s')
  then obtain p where pc: "ls_pc s c = LockGot p" by (auto simp: lock_caller_step_def split: lock_pc.splits)
  show ?case
  proof (cases "c \<in> ls_dropped s")
    case True
    then show ?thesis using caller pc lock_inv_unlocked [of s c p] by (auto simp: lock_caller_step_def)
  next
    case False
    then show ?thesis using caller pc by (auto simp: lock_caller_step_def lock_inv_def owners_ok_def at_pc_def split: if_splits)
  qed
next
  case (abandon s c) then show ?case by (auto simp: lock_inv_def owners_ok_def)
next
  case (drop_guard s c p) then show ?case by (intro lock_inv_unlocked) simp_all
next
  case (crash s K) then show ?case by (rule lock_inv_crash)
qed

lemma lock_reachable_inv: "lock_reachable s \<Longrightarrow> lock_inv s"
proof (induction rule: lock_reachable.induct)
  case start then show ?case by (simp add: lock_inv_def owners_ok_def lock_start_def)
qed (rule lock_inv_step)

section \<open>Lock files of different targets\<close>

lemma for_path_components:
  assumes "file_name t = Some name"
  shows "components (for_path t) = butlast (components t) @ [name @ lock_suffix]"
proof -
  let ?root = "if is_absolute t then path_root t else []"
  let ?cs = "butlast (components t) @ [name @ lock_suffix]"
  have cs: "components t \<noteq> []" "name = last (components t)"
    using assms by (auto simp: file_name_def Let_def split: if_splits)
  then have "clean name" using components_clean [of name t] by simp
  then have "clean (name @ lock_suffix)" by (auto simp: clean_def lock_suffix_def slash_def append_eq_Cons_conv)
  then have all: "\<forall>x \<in> set ?cs. clean x" using components_clean by (auto dest: in_set_butlastD)
  have "components (foldl path_push ?root ?cs) = components ?root @ ?cs"
  proof (cases "?root = []")
    case True
    have "foldl path_push [] xs = (case xs of [] \<Rightarrow> [] | x # xs \<Rightarrow> foldl path_push x xs)" for xs
      by (cases xs) (simp_all add: path_push_def)
    moreover obtain y ys where ys: "?cs = y # ys" by (cases ?cs) auto
    ultimately have "foldl path_push ?root ?cs = foldl path_push y ys" using True by (simp add: path_push_def)
    moreover have "clean y" "\<forall>x \<in> set ys. clean x" using all ys by (metis list.set_intros)+
    moreover have "y \<noteq> []" using \<open>clean y\<close> by (auto simp: clean_def)
    ultimately show ?thesis using True ys components_foldl [of y ys] by (simp add: components_simps)
  next
    case False
    then show ?thesis using components_foldl [OF False all] by simp
  qed
  moreover have "components ?root = []"
    by (simp add: path_root_def components_def slash_def)
  ultimately show ?thesis using assms by (simp add: for_path_def set_file_name_def)
qed

lemma same_components:
  assumes "file_name t = Some a" "file_name u = Some b" "components (for_path t) = components (for_path u)"
  shows "components t = components u"
proof -
  have "components t \<noteq> []" "a = last (components t)" "components u \<noteq> []" "b = last (components u)"
    using assms(1,2) by (auto simp: file_name_def Let_def split: if_splits)
  moreover have "butlast (components t) = butlast (components u)" "a = b"
    using assms(3) by (simp_all add: for_path_components [OF assms(1)] for_path_components [OF assms(2)])
  ultimately show ?thesis by (metis append_butlast_last_id)
qed

text \<open>
  The lock file stands for its target.  It is in the same directory, and two paths have the
  same lock file exactly when they are the same path, so different files never share a lock
  and one file never has two.
\<close>

theorem lock_file_identity:
  assumes "file_name t = Some a" "file_name u = Some b"
  shows "components (for_path t) = butlast (components t) @ [a @ ''.guigu.lock'']
    \<and> (components (for_path t) = components (for_path u) \<longleftrightarrow> components t = components u)"
proof -
  have "components t = components u \<Longrightarrow> a = b"
    using assms by (auto simp: file_name_def Let_def split: if_splits)
  then show ?thesis
    using same_components [OF assms] for_path_components [OF assms(1)] for_path_components [OF assms(2)]
    by (auto simp: lock_suffix_def)
qed

lemma lock_file_identity_witness:
  "components (for_path ''/d/a'') = [''d'', ''a.guigu.lock''] \<and> components (for_path ''/d/a'') \<noteq> components (for_path ''/d/b'')"
proof -
  have "components ''/d/a'' = [''d'', ''a'']" "components ''/d/b'' = [''d'', ''b'']"
    by (simp_all add: components_def slash_def)
  moreover from this have "file_name ''/d/a'' = Some ''a''" "file_name ''/d/b'' = Some ''b''"
    by (simp_all add: file_name_def)
  note lock_file_identity [OF this]
  ultimately show ?thesis by auto
qed

text \<open>
  C22: At most one caller in all processes holds the guard of a lock file, also while others
  try, wait, give up waiting, fail or die.  A lock never leaks: whoever has it is a caller that
  holds the guard and was not abandoned, or the next step of its acquisition hands the guard
  over or, when nobody waits for it any more, gives the lock back.
\<close>

theorem file_lock_exclusive:
  assumes "lock_reachable s"
  shows "(\<forall>p c c'. ls_pc s c = LockHeld p \<and> ls_pc s c' \<in> {LockGot p, LockHeld p} \<longrightarrow> c' = c)
    \<and> (\<forall>p c. ls_owner s p = Some c \<longrightarrow>
         ls_pc s c = LockHeld p \<and> c \<notin> ls_dropped s
         \<or> ls_pc s c = LockGot p \<and>
           (\<exists>s'. lock_caller_step c s = Some s' \<and> (if c \<in> ls_dropped s then ls_owner s' p = None else ls_pc s' c = LockHeld p)))"
proof (intro conjI allI impI)
  note inv = lock_reachable_inv [OF assms]
  note owner = inv [unfolded lock_inv_def owners_ok_def, THEN conjunct1, rule_format]
  show "c' = c" if "ls_pc s c = LockHeld p \<and> ls_pc s c' \<in> {LockGot p, LockHeld p}" for p c c'
  proof -
    have "lock_of (ls_pc s c) = Some p" "lock_of (ls_pc s c') = Some p" using that by auto
    then show ?thesis using owner [of p c] owner [of p c'] by simp
  qed
  show "ls_pc s c = LockHeld p \<and> c \<notin> ls_dropped s
         \<or> ls_pc s c = LockGot p \<and>
           (\<exists>s'. lock_caller_step c s = Some s' \<and> (if c \<in> ls_dropped s then ls_owner s' p = None else ls_pc s' c = LockHeld p))"
    if "ls_owner s p = Some c" for p c
  proof -
    have "lock_of (ls_pc s c) = Some p" using owner [of p c] that by simp
    then show ?thesis
      using inv by (cases "ls_pc s c") (auto simp: lock_inv_def lock_caller_step_def unlocked_def at_pc_def)
  qed
qed

lemma file_lock_exclusive_witness:
  "\<exists>s s'. lock_reachable s \<and> ls_owner s (for_path ''/d/a'') = Some 0 \<and> lock_caller_step 0 s = Some s'
     \<and> ls_owner s' (for_path ''/d/a'') = None"
proof -
  let ?p = "for_path ''/d/a''"
  let ?s1 = "at_pc 0 (LockStart ?p False) (lock_start\<lparr>ls_dropped := ls_dropped lock_start - {0}\<rparr>)"
  let ?s2 = "at_pc 0 (LockWait ?p) ?s1"
  let ?s3 = "?s2\<lparr>ls_dropped := insert 0 (ls_dropped ?s2)\<rparr>"
  let ?s4 = "locked 0 ?p ?s3"
  have "lock_reachable ?s1"
    by (rule lock_reachable.step [OF lock_reachable.start]) (rule lock_step.call, simp add: lock_idle_def lock_start_def)
  then have "lock_reachable ?s2"
    by (rule lock_reachable.step) (rule lock_step.blocking [where c = 0 and call = CallGoes], simp add: blocking_step_def at_pc_def)
  then have "lock_reachable ?s3"
    by (rule lock_reachable.step) (rule lock_step.abandon, simp_all add: lock_idle_def at_pc_def)
  then have r: "lock_reachable ?s4"
    by (rule lock_reachable.step)
      (rule lock_step.blocking [where c = 0 and call = CallGoes], simp add: blocking_step_def at_pc_def lock_start_def)
  have "ls_owner ?s4 ?p = Some 0" "0 \<in> ls_dropped ?s4" "ls_pc ?s4 0 \<noteq> LockHeld ?p"
    by (simp_all add: locked_def at_pc_def)
  then show ?thesis using r conjunct2 [OF file_lock_exclusive [OF r]] by (metis (no_types, lifting))
qed

end
