(* ===== verification/Connectors.thy ===== *)
theory Connectors
  imports Remote_Codec
begin

text \<open>
  The connectors of the remote protocol (\<open>remote/mod.rs\<close>): the two halves of a byte stream put together,
  the stream to a child process with the task that reaps it, and the TCP connectors.  What a half
  does with bytes, and what the system does to processes and sockets, is outside; here it is a
  parameter or an outcome.
\<close>

section \<open>Two halves as one stream\<close>

record ('r, 'w) SplitDuplex =
  sd_read :: 'r
  sd_write :: 'w

definition split_new :: "'r \<Rightarrow> 'w \<Rightarrow> ('r, 'w) SplitDuplex" where
  "split_new r w = \<lparr>sd_read = r, sd_write = w\<rparr>"

text \<open>\<open>poll_read\<close>, and \<open>poll_write\<close>, \<open>poll_flush\<close> and \<open>poll_shutdown\<close>, by what the half answers.\<close>

definition split_poll_read :: "('r \<Rightarrow> 'a \<times> 'r) \<Rightarrow> ('r, 'w) SplitDuplex \<Rightarrow> 'a \<times> ('r, 'w) SplitDuplex" where
  "split_poll_read f d = (case f (sd_read d) of (x, r) \<Rightarrow> (x, d\<lparr>sd_read := r\<rparr>))"

definition split_poll_write :: "('w \<Rightarrow> 'a \<times> 'w) \<Rightarrow> ('r, 'w) SplitDuplex \<Rightarrow> 'a \<times> ('r, 'w) SplitDuplex" where
  "split_poll_write f d = (case f (sd_write d) of (x, w) \<Rightarrow> (x, d\<lparr>sd_write := w\<rparr>))"

text \<open>Reading and writing do not disturb each other, in whatever order they are polled.\<close>

lemma split_independent:
  "(case split_poll_read f d of (x, d) \<Rightarrow> (case split_poll_write g d of (y, d) \<Rightarrow> (x, y, d)))
    = (case split_poll_write g d of (y, d) \<Rightarrow> (case split_poll_read f d of (x, d) \<Rightarrow> (x, y, d)))"
  by (simp add: split_poll_read_def split_poll_write_def split: prod.split)

section \<open>A child process\<close>

text \<open>A process that has exited and was not waited for is a zombie.\<close>

datatype proc = ProcRunning | ProcZombie | ProcReaped

text \<open>\<open>Child::kill\<close> sends the signal; an error, as of a process that has exited, is ignored.\<close>

definition proc_kill :: "proc \<Rightarrow> proc" where
  "proc_kill p = (if p = ProcRunning then ProcZombie else p)"

text \<open>\<open>Child::wait\<close>; \<open>None\<close> while the process runs.\<close>

definition proc_wait :: "proc \<Rightarrow> proc option" where
  "proc_wait p = (if p = ProcRunning then None else Some ProcReaped)"

text \<open>\<open>reap_child\<close>: both, and the process is dead when it is waited for.\<close>

definition reap_child :: "proc \<Rightarrow> proc option" where
  "reap_child p = proc_wait (proc_kill p)"

text \<open>The task that \<open>spawn_stdio\<close> leaves behind, and the stream it returns.\<close>

datatype reaper = RpWatch | RpKill | RpWait | RpDone

record StdioStream =
  ss_pid :: "nat option"
  ss_proc :: proc
  ss_token :: bool
  ss_reaper :: reaper

text \<open>
  \<open>spawn_stdio\<close>: the outcome of the spawn, and whether the pipes of the child can be taken.  On an
  error after the spawn the process that is left is returned too.
\<close>

definition spawn_stdio :: "string + nat option \<Rightarrow> bool \<Rightarrow> bool \<Rightarrow> (RemoteError \<times> proc option) + StdioStream" where
  "spawn_stdio spawned stdin_piped stdout_piped =
     (case spawned of
        Inl e \<Rightarrow> Inl (ReIo e, None)
      | Inr pid \<Rightarrow>
          if \<not> stdin_piped then Inl (ReProtocol ''stdin not piped'', reap_child ProcRunning)
          else if \<not> stdout_piped then Inl (ReProtocol ''stdout not piped'', reap_child ProcRunning)
          else Inr \<lparr>ss_pid = pid, ss_proc = ProcRunning, ss_token = False, ss_reaper = RpWatch\<rparr>)"

text \<open>\<open>drop\<close> of the stream.\<close>

definition drop_stream :: "StdioStream \<Rightarrow> StdioStream" where
  "drop_stream ss = ss\<lparr>ss_token := True\<rparr>"

text \<open>A section of the reaper; \<open>None\<close> while it waits.  When both events are there, either may be taken.\<close>

definition reaper_step :: "bool \<Rightarrow> StdioStream \<Rightarrow> StdioStream option" where
  "reaper_step exit_first ss =
     (case ss_reaper ss of
        RpWatch \<Rightarrow>
          (if ss_token ss \<and> (\<not> exit_first \<or> proc_wait (ss_proc ss) = None) then Some (ss\<lparr>ss_reaper := RpKill\<rparr>)
           else map_option (\<lambda>p. ss\<lparr>ss_proc := p, ss_reaper := RpDone\<rparr>) (proc_wait (ss_proc ss)))
      | RpKill \<Rightarrow> Some (ss\<lparr>ss_proc := proc_kill (ss_proc ss), ss_reaper := RpWait\<rparr>)
      | RpWait \<Rightarrow> map_option (\<lambda>p. ss\<lparr>ss_proc := p, ss_reaper := RpDone\<rparr>) (proc_wait (ss_proc ss))
      | RpDone \<Rightarrow> None)"

inductive stream_step :: "StdioStream \<Rightarrow> StdioStream \<Rightarrow> bool" where
  reaper: "reaper_step exit_first ss = Some ss' \<Longrightarrow> stream_step ss ss'"
| dropped: "stream_step ss (drop_stream ss)"
| exits: "ss_proc ss = ProcRunning \<Longrightarrow> stream_step ss (ss\<lparr>ss_proc := ProcZombie\<rparr>)"

inductive stream_reachable :: "StdioStream \<Rightarrow> bool" where
  spawned: "spawn_stdio spawned True True = Inr ss \<Longrightarrow> stream_reachable ss"
| step: "stream_reachable ss \<Longrightarrow> stream_step ss ss' \<Longrightarrow> stream_reachable ss'"

section \<open>TCP (connect\_tcp, listen\_tcp)\<close>

definition connect_tcp :: "string + 'stream \<Rightarrow> RemoteError + 'stream" where
  "connect_tcp connected = map_sum ReIo id connected"

definition listen_tcp :: "string + 'listener \<Rightarrow> ('listener \<Rightarrow> string + 'stream \<times> 'addr) \<Rightarrow> RemoteError + 'stream" where
  "listen_tcp bound accept =
     (case bound of
        Inl e \<Rightarrow> Inl (ReIo e)
      | Inr listener \<Rightarrow> (case accept listener of Inl e \<Rightarrow> Inl (ReIo e) | Inr (stream, _) \<Rightarrow> Inr stream))"

section \<open>No zombie is left\<close>

definition reaper_ok :: "StdioStream \<Rightarrow> bool" where
  "reaper_ok ss \<longleftrightarrow>
     (ss_reaper ss = RpDone \<longleftrightarrow> ss_proc ss = ProcReaped)
     \<and> (ss_reaper ss = RpWait \<longrightarrow> ss_proc ss = ProcZombie)
     \<and> (ss_reaper ss \<in> {RpKill, RpWait} \<longrightarrow> ss_token ss)"

lemma proc_simps [simp]:
  "proc_kill ProcRunning = ProcZombie" "proc_kill ProcZombie = ProcZombie" "proc_kill ProcReaped = ProcReaped"
  "proc_wait ProcRunning = None" "proc_wait ProcZombie = Some ProcReaped" "proc_wait ProcReaped = Some ProcReaped"
  by (simp_all add: proc_kill_def proc_wait_def)

lemma reaper_step_ok: "reaper_step b ss = Some ss' \<Longrightarrow> reaper_ok ss \<Longrightarrow> reaper_ok ss'"
  by (cases "ss_reaper ss"; cases "ss_proc ss")
    (auto simp: reaper_step_def reaper_ok_def split: if_splits)

lemma stream_reachable_ok: "stream_reachable ss \<Longrightarrow> reaper_ok ss"
proof (induction rule: stream_reachable.induct)
  case (spawned spawned ss)
  then show ?case by (auto simp: spawn_stdio_def reaper_ok_def split: sum.splits)
next
  case (step ss ss')
  from step.hyps(2) show ?case
    by (cases rule: stream_step.cases)
      (use step.IH reaper_step_ok in \<open>auto simp: reaper_ok_def drop_stream_def\<close>)
qed

text \<open>How many sections the reaper has left once the stream is dropped.\<close>

fun reaper_left :: "reaper \<Rightarrow> nat" where
  "reaper_left RpWatch = 3"
| "reaper_left RpKill = 2"
| "reaper_left RpWait = 1"
| "reaper_left RpDone = 0"

lemma dropped_progress:
  assumes "reaper_ok ss" "ss_token ss" "ss_reaper ss \<noteq> RpDone"
  shows "\<exists>ss'. reaper_step b ss = Some ss' \<and> reaper_left (ss_reaper ss') < reaper_left (ss_reaper ss)"
  using assms by (cases "ss_reaper ss"; cases "ss_proc ss") (auto simp: reaper_step_def reaper_ok_def)

text \<open>
  No child process is left behind.  An attempt to start one that fails has reaped what it started.  The
  stream of one that was started has a reaper: when its task has ended the process has been waited for, and
  from the moment the stream is dropped the task always has a step, of which at most three are left,
  whether or not the process ends by itself.
\<close>

theorem no_zombie:
  "spawn_stdio spawned a b = Inl (e, p) \<Longrightarrow> (\<exists>m. spawned = Inl m \<and> p = None) \<or> p = Some ProcReaped"
  "stream_reachable ss \<Longrightarrow> (ss_reaper ss = RpDone \<longleftrightarrow> ss_proc ss = ProcReaped)
     \<and> (ss_token ss \<and> ss_proc ss \<noteq> ProcReaped \<longrightarrow>
          (\<forall>exit_first. \<exists>ss'. reaper_step exit_first ss = Some ss' \<and> reaper_left (ss_reaper ss') < reaper_left (ss_reaper ss))
          \<and> reaper_left (ss_reaper ss) \<le> 3)"
proof -
  show "spawn_stdio spawned a b = Inl (e, p) \<Longrightarrow> (\<exists>m. spawned = Inl m \<and> p = None) \<or> p = Some ProcReaped"
    by (auto simp: spawn_stdio_def reap_child_def split: sum.splits if_splits)
  assume r: "stream_reachable ss"
  have "reaper_left (ss_reaper ss) \<le> 3" by (cases "ss_reaper ss") simp_all
  then show "(ss_reaper ss = RpDone \<longleftrightarrow> ss_proc ss = ProcReaped)
     \<and> (ss_token ss \<and> ss_proc ss \<noteq> ProcReaped \<longrightarrow>
          (\<forall>exit_first. \<exists>ss'. reaper_step exit_first ss = Some ss' \<and> reaper_left (ss_reaper ss') < reaper_left (ss_reaper ss))
          \<and> reaper_left (ss_reaper ss) \<le> 3)"
    using stream_reachable_ok [OF r] dropped_progress [OF stream_reachable_ok [OF r]] by (auto simp: reaper_ok_def)
qed

end
