(* ===== verification/Spec2Isabelle.thy ===== *)
theory Spec2Isabelle
  imports Adapter_Stream Transport Remote_Server Mutation_Queue Plugin_Registry Stdio_Serve Acp_Agent Tui_Runs Cli File_Lock Connectors
begin

text \<open>
  A verification development of guigu, an agent runtime in Rust (sources under src/src).

  \<^bold>\<open>The program.\<close>  An agent is one task that owns a transcript.  Clients send it
  commands through a channel; a prompt starts a run.  A run alternates between a turn of the model,
  streamed from a provider over HTTP and server-sent events, and the execution of the tools the
  model calls, until the model answers without a call.  Before each request the transcript is fitted
  to the model's context window, by a summary or by dropping old turns. Plugins hook into tool calls
  and turns.  Conversations are kept as trees of entries in append-only JSONL files; several lanes
  (branches) can write to one file.  A server keeps sessions, runs one agent for each lane and
  records its messages; clients reach it over TCP, or a single agent over a byte stream, with one
  line of JSON for each message.  Editors reach it through the Agent Client Protocol, which is
  JSON-RPC in both directions.

  \<^bold>\<open>The theories\<close>, in the order they build on each other:

  Prelude: words, saturating arithmetic, outcomes with panics, lists.  Json: JSON values and the
  parameter that stands for the parser.  Message: the vocabulary of core/message.rs, tool.rs,
  provider.rs and event.rs.

  Compactor (core/compactor.rs) and Context_Budget (core/context.rs): the summary prompt and its
  stream loop, token estimates on machine words, truncation at turn boundaries, and the compaction
  plan.

  BTree_Map, Session (core/session.rs), Utf8, Jsonl (core/session/jsonl.rs), Lanes (lane_head.rs,
  lane_writer.rs): the reducer that turns a log into a tree, the byte-level file with torn writes,
  locks and cursors, and the heads of lanes under interleaved writers.

  Sse (adapters/sse.rs), Acc (acc.rs), OpenAi, Anthropic, Adapter_Stream (stream.rs): from bytes to
  assistant events: the incremental parser, the accumulator, the two event mappings and request
  builders, and the pull-driven state machine that drives them.

  Hooks (plugin/hooks.rs), Futures, Loop_Config, Tool_Exec (core/runtime/tools.rs): plugin hooks and
  their merge, asynchronous calls under a polling schedule, configuration, and the execution of a
  batch of tool calls in both modes.

  Run_State (runtime/commands.rs), Turn (runtime/turn.rs), Run_Loop (runtime/step.rs,
  context_prep.rs, mod.rs), Run_Facts, Run_Properties, Agent_Runtime (agent_runtime.rs, agent.rs):
  the state of a run and its command channel, one turn with retries and backoff, the run loop, and
  the task that works through commands together with the handle's counters.

  Resume (server/lane\_recovery.rs), Server (server/mod.rs, lane.rs, lane\_ops.rs) and Server_Steps:
  where a lane resumes after several lanes wrote to its session, the registry of sessions and lanes,
  and the operations on it as sections that all clients interleave.

  Remote_Codec (remote/codec.rs), Remote_Client (remote/protocol.rs, client.rs), Remote_Server
  (remote/server.rs), Transport (server/protocol.rs, transport.rs): frames, the client with its
  tables of pending requests, the connection that serves one agent, and the connections of the
  session server, which act as clients of Server_Steps.

  File_Tools (tools/read.rs, edit.rs, write.rs, bash.rs, echo.rs, mod.rs) and Mutation_Queue
  (tools/file\_mutation\_queue.rs): paths, what each tool computes, and the write and edit tools
  under the lock table, interleaved by any number of agents.  Plugin_Registry (tools/deferred.rs,
  plugin/mod.rs, tool.rs, agent.rs): lazy tools and the two registries.

  Acp_Rpc (acp/jsonrpc.rs, types.rs, mapping.rs, fs\_tool.rs), Acp_Link (stdio\_client.rs,
  sse\_client.rs, transport\_sse.rs) and Acp_Agent (mod.rs, handlers.rs, transport.rs): the front
  end for editors.  Messages and what they carry, the requests of the agent to its client with their
  pending table, over stdio and over HTTP, and the handlers, each a client of Server_Steps.
  Stdio_Serve (transport.rs) is the life of one stdio connection from its first message to the end
  of its teardown; its link takes the steps of Acp_Link.

  Text_Ops: characters, trimming and numbers of the standard library.  Http_Provider
  (adapters/openai/mod.rs, anthropic/mod.rs, retry\_after.rs, factory.rs): one exchange with a
  provider, as the retry loop sees it.  Tui (bin/guigu/tui): what the terminal interface shows, its
  keys and its event loop.  Tui_Runs: the same screen fed with the events of a whole run of
  Run_Loop.  Cli (config.rs and the rest of bin/guigu): keys and configuration, assembly, session
  setup and the line interface.  File_Lock (core/file\_lock.rs): the lock between processes.
  Connectors (remote/mod.rs): how a client opens a connection or starts a child process, and which
  child it leaves behind.

  \<^bold>\<open>How state and effects are modelled.\<close>  Structs are records, enums datatypes
  with the source's constructors, machine integers words where they can wrap.  A step takes the
  state and returns it changed; errors and panics are values.  What tools, hooks and compactors do
  outside is a world of type 'w passed through.  What the environment decides is a script: the
  outcomes of file operations and the moment of a crash, the chunks of a body, the order in which
  concurrent calls are polled, the events of a provider stream, and the commands that arrive before
  each step.  Theorems hold for every script, so they cover every interleaving.  A script that ends
  too early gives \<open>None\<close>: the program still waits. Fuel occurs only where a script
  plays its role; the theorems on results say that enough of it exists (tool batches can always end,
  streams deliver what the specification says).

  Five locales state interfaces: the ordered map the reducer builds on, the store that sessions and
  lanes append to, the contract of a compactor, the event mapper the adapter stream drives, and a
  registry of plugins.  Each is interpreted on the model's own definitions, the last two twice.

  \<^bold>\<open>What the lemmas show.\<close>  Storage: an accepted log gives exactly the tree of
  its entries, whatever their order; acknowledged appends are read back; a crash loses at most the
  torn tail; heads survive interleaving.  Context: truncation and compaction cut at turns, keep
  calls with their results and rewrite the transcript only after a success.  Adapters: the result
  does not depend on the chunking of the body, and the final message agrees with the events.  Tools:
  results come back in call order in both modes, and the concurrent mode is the sequential one.
  Run: calls stay answered in the transcript and in every request, what is recorded is the
  transcript without tool results, and commands are neither lost nor reordered.  Server: lanes keep
  their own agent under concurrent spawns, forks, rollbacks and shutdowns, and every agent outside
  the registry belongs to a pending spawn, has ended, or was given up by a shutdown that a stop had
  timed out in; a lane whose writes succeeded without a fork resumes exactly where it stopped, as
  long as its session has one root.  Wire: frames arrive whole or not at all, every request has one
  reply, which carries its id except for the snapshot of a lane, a call returns only its own reply,
  and a closed connection lets every call return.  Files: no two agents write to a path at once,
  whatever the lock table evicts, no update is lost, and an edit replaces the occurrence it names.
  Plugins: tools are assembled in a fixed order and instantiated once.  Editors: every request is
  answered once with its id, the handlers do nothing the server does not allow, a file is touched
  only after the client agreed, and clients cannot answer for each other.  Users: a turn shows
  exactly the text it streamed, each call has one card, prompts are sent as typed and one after
  another's end, and a key goes only to the endpoint it is configured for.  Locks: one guard at a
  time, and none leaks.  Agent: the counters that \<open>wait_for_idle\<close> compares meet exactly
  when nothing is pending, under the conditions stated.  Where the code falls short of its intent, a
  theorem shows the run on which it does: torn tails without a lock or inside a character, errors
  that overtake events, follow-ups counted twice, calls left unanswered by an abort, a backoff that
  overflows before it is capped, an idle abort that unsettles the counters, a second root in a
  session, a fork's source that cannot be resumed, an event delivered twice, an edit of one of two
  overlapping occurrences, a null result that is no answer, requests that outlive their connection,
  failed runs whose screen is the one of a run that said as much, a session file outside its store,
  agents left running by a shutdown that stopped early, a teardown that waits for a blocked write.

  \<^bold>\<open>Parameters.\<close>  Serde's JSON codec, the tokenizer of JSON arguments, the
  \<open>Debug\<close> text of tool parameters, plugin and tool code, the TOML parser, the parser of
  HTTP dates, the environment and the files it names, the provider's HTTP body and the clock are
  arguments; hypotheses on them are named where they are used (round trip of the codec, reader tools
  that only read, hooks that inject user messages).

  \<^bold>\<open>Not modelled.\<close>  Derived schemas (core/schema.rs), the bytes of sockets and
  pipes (serve\_tcp), HTTP and TLS, argument parsing, the terminal itself (raw mode, colours, the
  thread that reads keys), and handlers of an ACP connection that its teardown aborts halfway.
  Watch and broadcast channels are modelled by the values sent to them; the gap a lagging forwarder
  or bridge sees is part of its step.  Counters that would need \<open>2^64\<close> commands,
  requests or lanes to wrap are natural numbers.
\<close>

end
